(* ===== verification/Dex_Prelude.thy ===== *)
theory Dex_Prelude
  imports Main "HOL-Library.Word" "HOL-Library.Monad_Syntax"
begin

text \<open>
  Shared vocabulary of the development: the C integer types at their width, the facts that
  move machine arithmetic to the natural numbers, the alignment mask \<open>x & ~(2^n - 1)\<close>, and
  C strings. A function of the model that can reach undefined behaviour (an access outside
  its array, a null dereference) or can loop forever returns an \<open>option\<close>; \<open>None\<close> is that
  outcome, and the theorems of the components show when it cannot occur.
\<close>

unbundle bit_operations_syntax

section \<open>Machine integers\<close>

type_synonym u8 = "8 word"
type_synonym u16 = "16 word"
type_synonym u32 = "32 word"
type_synonym u64 = "64 word"

named_theorems word_nat \<open>unsigned words read as natural numbers\<close>
named_theorems refines \<open>an operation of the model as its effect on the abstract state\<close>

lemma unat_add_small:
  fixes a b :: "'a::len word"
  assumes "unat a + unat b < 2 ^ LENGTH('a)"
  shows "unat (a + b) = unat a + unat b"
  using assms by (simp add: unat_add_lem [THEN iffD1])

lemma unat_mult_small:
  fixes a b :: "'a::len word"
  assumes "unat a * unat b < 2 ^ LENGTH('a)"
  shows "unat (a * b) = unat a * unat b"
  using assms by (simp add: unat_mult_lem [THEN iffD1])

lemma unat_lt_pow: "unat (a :: 'a::len word) < 2 ^ LENGTH('a)"
  by (rule unsigned_less)

lemma u64_bound: "unat (a :: u64) < 18446744073709551616"
  using unat_lt_pow [of a] by simp

lemma u32_bound: "unat (a :: u32) < 4294967296"
  using unat_lt_pow [of a] by simp

lemma u8_bound: "unat (a :: u8) < 256"
  using unat_lt_pow [of a] by simp

lemma unat_Suc_less:
  fixes i n :: "'a::len word"
  assumes "i < n"
  shows "unat (i + 1) = Suc (unat i)"
proof -
  have "Suc (unat i) \<le> unat n" using assms by (simp add: word_less_nat_alt)
  then have "Suc (unat i) < 2 ^ LENGTH('a)"
    using unat_lt_pow [of n] by (rule le_less_trans)
  then show ?thesis using unat_add_small [of i 1] by simp
qed

text \<open>The measure that every counting loop \<open>for (i = a; i < n; ++i)\<close> of the code decreases.\<close>

lemma loop_up_decreases:
  fixes i n :: "'a::len word"
  assumes "i < n"
  shows "unat n - unat (i + 1) < unat n - unat i"
  using assms unat_Suc_less [OF assms] by (simp add: word_less_nat_alt)

lemma unat_of_nat_small:
  assumes "n < 2 ^ LENGTH('a)"
  shows "unat (of_nat n :: 'a::len word) = n"
  using assms by (simp add: unat_of_nat)

lemma u64_of_nat_unat: "n < 18446744073709551616 \<Longrightarrow> unat (of_nat n :: u64) = n"
  by (rule unat_of_nat_small) simp

lemma unat_clip:
  fixes a b :: "'a::len word"
  shows "unat (if a < b then a else b) = min (unat a) (unat b)"
    "unat (if a < b then b else a) = max (unat a) (unat b)"
  by (auto simp: word_less_nat_alt)

section \<open>Alignment masks\<close>

text \<open>\<open>x & ~(2^n - 1)\<close> rounds down to a multiple of \<open>2^n\<close>.\<close>

lemma and_not_mask_eq:
  fixes x :: "'a::len word"
  shows "x AND NOT (mask n) = push_bit n (drop_bit n x)"
  by (rule bit_word_eqI) (auto simp: bit_simps)

lemma unat_and_not_mask:
  fixes x :: "'a::len word"
  assumes "n < LENGTH('a)"
  shows "unat (x AND NOT (mask n)) = unat x div 2 ^ n * 2 ^ n"
proof -
  have le: "unat x div 2 ^ n * 2 ^ n \<le> unat x" by simp
  have p: "unat (2 ^ n :: 'a word) = 2 ^ n"
    using assms unat_of_nat_small [of "2 ^ n", where 'a = 'a] by simp
  have d: "unat (drop_bit n x) = unat x div 2 ^ n"
    by (simp only: unat_drop_bit_eq drop_bit_nat_def)
  have "unat (drop_bit n x) * unat (2 ^ n :: 'a word) < 2 ^ LENGTH('a)"
    unfolding d p using le unat_lt_pow [of x] by (rule le_less_trans)
  then have "unat (drop_bit n x * 2 ^ n) = unat x div 2 ^ n * 2 ^ n"
    by (simp only: unat_mult_small d p)
  then show ?thesis by (simp add: and_not_mask_eq push_bit_eq_mult)
qed

lemma unat_and_mask:
  fixes x :: "'a::len word"
  shows "unat (x AND mask n) = unat x mod 2 ^ n"
proof -
  have "unat (take_bit n x) = take_bit n (unat x)" by (rule unsigned_take_bit_eq)
  then show ?thesis by (simp only: take_bit_eq_mask [symmetric] take_bit_nat_def)
qed

lemma mask12: "(0xFFF :: u64) = mask 12"
  by (simp add: mask_eq_exp_minus_1)

lemma mask3: "(7 :: u64) = mask 3"
  by (simp add: mask_eq_exp_minus_1)

lemma mask4: "(15 :: u64) = mask 4"
  by (simp add: mask_eq_exp_minus_1)

lemma mask9: "(0x1FF :: u64) = mask 9"
  by (simp add: mask_eq_exp_minus_1)

lemma unat_page_down [word_nat]: "unat (x AND NOT 0xFFF :: u64) = unat x div 4096 * 4096"
  unfolding mask12 by (subst unat_and_not_mask) simp_all

lemma unat_page_offset [word_nat]: "unat (x AND 0xFFF :: u64) = unat x mod 4096"
  unfolding mask12 by (simp add: unat_and_mask)

lemma unat_low3 [word_nat]: "unat (x AND 7 :: u64) = unat x mod 8"
  unfolding mask3 by (simp add: unat_and_mask)

lemma unat_low9 [word_nat]: "unat (x AND 0x1FF :: u64) = unat x mod 512"
  unfolding mask9 by (simp add: unat_and_mask)

lemma unat_down16 [word_nat]: "unat (x AND NOT 15 :: u64) = unat x div 16 * 16"
  unfolding mask4 by (subst unat_and_not_mask) simp_all

lemma unat_down8 [word_nat]: "unat (x AND NOT 7 :: u64) = unat x div 8 * 8"
  unfolding mask3 by (subst unat_and_not_mask) simp_all

text \<open>The simplifier writes a mask \<open>NOT 7\<close> as \<open>- 8\<close>: the same facts in that form.\<close>

lemmas word_nat_neg [word_nat] =
  unat_page_down [simplified] unat_down16 [simplified] unat_down8 [simplified]

lemma unat_ucast_up:
  fixes x :: "'a::len word"
  assumes "LENGTH('a) \<le> LENGTH('b)"
  shows "unat (ucast x :: 'b::len word) = unat x"
proof -
  have "unat x < 2 ^ LENGTH('b)"
    by (rule less_le_trans [OF unat_lt_pow]) (simp add: assms)
  then show ?thesis by (simp add: unsigned_ucast_eq take_bit_nat_eq_self)
qed

lemma unat_ucast_widen [simp]:
  "unat (ucast (x :: u32) :: u64) = unat x"
  "unat (ucast (y :: u16) :: u64) = unat y"
  "unat (ucast (z :: u8) :: u64) = unat z"
  "unat (ucast (z :: u8) :: u32) = unat z"
  "unat (ucast (z :: u8) :: u16) = unat z"
  "unat (ucast (y :: u16) :: u32) = unat y"
  by (simp_all add: unat_ucast_up)

lemma page_multiple: "n mod 4096 = 0 \<Longrightarrow> \<exists>k. n = 4096 * (k :: nat)"
  by (metis mod_0_imp_dvd dvdE)

section \<open>C strings\<close>

text \<open>
  A pointer to a NUL-terminated string is modelled by the string's characters; \<open>cchar s i\<close>
  is \<open>s[i]\<close>, which is the terminator at the string's length. A character array that the code
  owns is a list of its full length, and \<open>cstr\<close> is the string it holds.
\<close>

abbreviation NUL :: char where "NUL \<equiv> CHR 0x00"

definition cchar :: "string \<Rightarrow> nat \<Rightarrow> char" where
  "cchar s i = (if i < length s then s ! i else NUL)"

definition cstr :: "char list \<Rightarrow> string" where
  "cstr buf = takeWhile (\<lambda>c. c \<noteq> NUL) buf"

definition nul_free :: "string \<Rightarrow> bool" where
  "nul_free s \<longleftrightarrow> NUL \<notin> set s"

lemma cstr_nul_free [simp]: "nul_free (cstr buf)"
  by (auto simp: cstr_def nul_free_def dest: set_takeWhileD)

lemma cstr_idem [simp]: "nul_free s \<Longrightarrow> cstr s = s"
  by (auto simp: cstr_def nul_free_def takeWhile_eq_all_conv)

lemma cstr_append_nul: "nul_free s \<Longrightarrow> cstr (s @ NUL # rest) = s"
  by (auto simp: cstr_def nul_free_def takeWhile_append)

lemma nul_free_take [simp]: "nul_free s \<Longrightarrow> nul_free (take n s)"
  by (auto simp: nul_free_def dest: in_set_takeD)

lemma nul_free_simps [simp]:
  "nul_free []" "nul_free (c # s) \<longleftrightarrow> c \<noteq> NUL \<and> nul_free s"
  "nul_free (s @ t) \<longleftrightarrow> nul_free s \<and> nul_free t"
  by (auto simp: nul_free_def)

lemma cchar_simps [simp]:
  "cchar [] i = NUL" "cchar (c # s) 0 = c" "cchar (c # s) (Suc i) = cchar s i"
  by (simp_all add: cchar_def)

lemma cchar_eq_NUL: "nul_free s \<Longrightarrow> cchar s i = NUL \<longleftrightarrow> length s \<le> i"
  by (auto simp: cchar_def nul_free_def) (metis nth_mem)

end
