(* ===== verification/Phys_Mem.thy ===== *)
theory Phys_Mem
  imports Dex_Prelude
begin

text \<open>
  The identity-mapped physical memory: one byte per 64-bit address. Pointer accesses of the
  kernel (\<open>*(uint32_t*)p\<close>, \<open>*(uint64_t*)p\<close>) are little-endian loads and stores of 2, 4 or 8
  bytes. The two closed forms \<open>bit_load_le\<close> and \<open>store_le_apply\<close> carry every fact about
  overlapping and disjoint accesses.
\<close>

type_synonym memory = "u64 \<Rightarrow> u8"

fun load_le :: "nat \<Rightarrow> memory \<Rightarrow> u64 \<Rightarrow> 'a::len word" where
  "load_le 0 m a = 0"
| "load_le (Suc k) m a = ucast (m a) OR push_bit 8 (load_le k m (a + 1))"

fun store_le :: "nat \<Rightarrow> memory \<Rightarrow> u64 \<Rightarrow> 'a::len word \<Rightarrow> memory" where
  "store_le 0 m a v = m"
| "store_le (Suc k) m a v = store_le k (m(a := ucast v)) (a + 1) (drop_bit 8 v)"

definition load16 :: "memory \<Rightarrow> u64 \<Rightarrow> u16" where "load16 = load_le 2"
definition load32 :: "memory \<Rightarrow> u64 \<Rightarrow> u32" where "load32 = load_le 4"
definition load64 :: "memory \<Rightarrow> u64 \<Rightarrow> u64" where "load64 = load_le 8"
definition store16 :: "memory \<Rightarrow> u64 \<Rightarrow> u16 \<Rightarrow> memory" where "store16 = store_le 2"
definition store32 :: "memory \<Rightarrow> u64 \<Rightarrow> u32 \<Rightarrow> memory" where "store32 = store_le 4"
definition store64 :: "memory \<Rightarrow> u64 \<Rightarrow> u64 \<Rightarrow> memory" where "store64 = store_le 8"

lemmas mem_access_defs = load16_def load32_def load64_def store16_def store32_def store64_def

text \<open>Evaluation at a literal width.\<close>

lemma load_le_numeral:
  "load_le (numeral k) m a = ucast (m a) OR push_bit 8 (load_le (pred_numeral k) m (a + 1))"
  by (simp add: numeral_eq_Suc)

lemma bit_load_le:
  "bit (load_le k m a :: 'a::len word) n \<longleftrightarrow>
     n < 8 * k \<and> n < LENGTH('a) \<and> bit (m (a + of_nat (n div 8))) (n mod 8)"
proof (induction k arbitrary: a n)
  case 0
  then show ?case by simp
next
  case (Suc k)
  show ?case
  proof (cases "n < 8")
    case True
    then show ?thesis by (auto simp: bit_simps)
  next
    case False
    then obtain j where n: "n = j + 8" by (metis add.commute le_Suc_ex not_less)
    have "n div 8 = Suc (j div 8)" using n by simp
    then have addr: "a + of_nat (n div 8) = a + 1 + of_nat (j div 8)"
      by (simp only: of_nat_Suc add.assoc)
    have "bit (load_le (Suc k) m a :: 'a word) n \<longleftrightarrow>
        n < LENGTH('a) \<and> bit (load_le k m (a + 1) :: 'a word) j"
      using False by (auto simp: bit_simps n dest: bit_imp_le_length)
    also have "\<dots> \<longleftrightarrow>
        n < LENGTH('a) \<and> j < 8 * k \<and> bit (m (a + of_nat (n div 8))) (n mod 8)"
      unfolding addr using Suc.IH [of "a + 1" j] n by auto
    finally show ?thesis using n by auto
  qed
qed

lemma unat_sub_Suc:
  fixes x a :: u64
  shows "unat (x - (a + 1)) = (if x = a then 2 ^ 64 - 1 else unat (x - a) - 1)"
proof (cases "x = a")
  case True
  then have "x - (a + 1) = - 1" by simp
  then show ?thesis using True by (simp add: unsigned_minus_1_eq_mask mask_eq_exp_minus_1)
next
  case False
  then have "1 \<le> x - a" by (metis eq_iff_diff_eq_0 word_less_1 not_less)
  then have "unat (x - a - 1) = unat (x - a) - unat (1 :: u64)" by (rule unat_sub)
  then show ?thesis using False by (simp add: diff_diff_add)
qed

lemma store_le_apply:
  "k \<le> 2 ^ 64 \<Longrightarrow> store_le k m a v x =
     (if unat (x - a) < k then ucast (drop_bit (8 * unat (x - a)) v) else m x)"
proof (induction k arbitrary: m a v)
  case 0
  then show ?case by simp
next
  case (Suc k)
  let ?d = "unat (x - a)"
  note d1 = unat_sub_Suc [of x a]
  have k: "k \<le> 2 ^ 64" using Suc.prems by simp
  show ?case
  proof (cases "x = a")
    case True
    then show ?thesis using Suc.IH [OF k] Suc.prems d1 by (simp add: not_less)
  next
    case False
    then have pos: "0 < ?d" by (simp add: unat_gt_0)
    have sh: "8 + 8 * (?d - 1) = 8 * ?d" using pos by simp
    show ?thesis using Suc.IH [OF k] False d1 pos sh
      by (auto simp: drop_bit_drop_bit add.commute)
  qed
qed

lemma load_store_same:
  assumes "k \<le> 2 ^ 64" "8 * k = LENGTH('a)"
  shows "load_le k (store_le k m a (v :: 'a::len word)) a = v"
proof (rule bit_word_eqI)
  fix n assume n: "n < LENGTH('a)"
  then have k: "n div 8 < k" using assms(2) by linarith
  then have u: "unat (of_nat (n div 8) :: u64) = n div 8"
    using assms(1) by (intro u64_of_nat_unat) simp
  have "bit (load_le k (store_le k m a v) a :: 'a word) n \<longleftrightarrow>
        bit (store_le k m a v (a + of_nat (n div 8))) (n mod 8)"
    using n assms(2) by (simp add: bit_load_le)
  also have "\<dots> \<longleftrightarrow> bit v (8 * (n div 8) + n mod 8)"
    using k u assms(1) by (auto simp: store_le_apply bit_simps n)
  finally show "bit (load_le k (store_le k m a v) a :: 'a word) n = bit v n"
    by simp
qed

lemma load_le_shift:
  assumes "\<And>i. i < k \<Longrightarrow> m (a + of_nat i) = m' (b + of_nat i)"
  shows "load_le k m a = load_le k m' b"
  using assms
proof (induction k arbitrary: a b)
  case 0
  then show ?case by simp
next
  case (Suc k)
  have "m (a + 1 + of_nat i) = m' (b + 1 + of_nat i)" if "i < k" for i
    using Suc.prems [of "Suc i"] that by (simp add: algebra_simps)
  then have "(load_le k m (a + 1) :: 'a word) = load_le k m' (b + 1)" by (rule Suc.IH)
  then show ?case using Suc.prems [of 0] by simp
qed

lemmas load_le_cong = load_le_shift [of _ _ a _ a for a]

section \<open>Cells\<close>

text \<open>
  The kernel's structures in raw memory (page-table entries, heap headers) are made of cells
  aligned at 8 bytes; accesses to different cells do not interfere.
\<close>

definition cell :: "u64 \<Rightarrow> bool" where
  "cell a \<longleftrightarrow> unat a mod 8 = 0"

lemma cell_sub8: "cell x \<Longrightarrow> cell (x - 8)"
proof -
  assume "cell x"
  moreover have "unat (x - 8) = (if 8 \<le> unat x then unat x - 8 else unat x + 18446744073709551608)"
    by (simp add: unat_sub_if')
  ultimately show ?thesis unfolding cell_def by presburger
qed

lemma cell_distance:
  assumes "cell a" "cell b" "a \<noteq> b" "i < 8"
  shows "8 \<le> unat (a + of_nat i - b)"
proof -
  have mod8: "unat (x - y) mod 8 = 0" if "cell x" "cell y" for x y :: u64
  proof -
    have "unat (x - y) =
        (if unat y \<le> unat x then unat x - unat y
         else unat x + 18446744073709551616 - unat y)"
      by (simp add: unat_sub_if')
    then show ?thesis using that unfolding cell_def by presburger
  qed
  have "unat (a - b) \<noteq> 0" using assms(3) by (simp add: unat_eq_0)
  then have ge: "8 \<le> unat (a - b)" using mod8 [OF assms(1,2)] by presburger
  have "unat (a - b) + 8 \<le> 18446744073709551616"
    using mod8 [OF assms(1,2)] u64_bound [of "a - b"] by presburger
  moreover have "unat (of_nat i :: u64) = i" using assms(4) by (simp add: u64_of_nat_unat)
  ultimately have "unat (a - b + of_nat i) = unat (a - b) + i"
    using assms(4) by (subst unat_add_small) simp_all
  moreover have "a + of_nat i - b = a - b + of_nat i" by simp
  ultimately show ?thesis using ge by (simp only: )
qed

lemma load_store_other_cell:
  assumes "cell a" "cell b" "a \<noteq> b" "k \<le> 8" "j \<le> 8"
  shows "load_le k (store_le j m b v) a = load_le k m a"
proof (rule load_le_cong)
  fix i assume "i < k"
  then have "8 \<le> unat (a + of_nat i - b)" using assms by (intro cell_distance) simp_all
  then show "store_le j m b v (a + of_nat i) = m (a + of_nat i)"
    using assms(5) by (simp add: store_le_apply)
qed

lemma load_store_cells [simp]:
  "load64 (store64 m a v) a = v"
  "load32 (store32 m a w) a = w"
  "cell a \<Longrightarrow> cell b \<Longrightarrow> a \<noteq> b \<Longrightarrow> load64 (store64 m b v) a = load64 m a"
  "cell a \<Longrightarrow> cell b \<Longrightarrow> a \<noteq> b \<Longrightarrow> load64 (store32 m b w) a = load64 m a"
  "cell a \<Longrightarrow> cell b \<Longrightarrow> a \<noteq> b \<Longrightarrow> load32 (store64 m b v) a = load32 m a"
  "cell a \<Longrightarrow> cell b \<Longrightarrow> a \<noteq> b \<Longrightarrow> load32 (store32 m b w) a = load32 m a"
  by (simp_all add: mem_access_defs load_store_same load_store_other_cell)

section \<open>Copying\<close>

text \<open>\<open>for (i = 0; i < n; ++i) dst[i] = src[i]\<close>, and a run of bytes set to one value.\<close>

fun copy_bytes :: "memory \<Rightarrow> u64 \<Rightarrow> u64 \<Rightarrow> nat \<Rightarrow> memory" where
  "copy_bytes m dst src 0 = m"
| "copy_bytes m dst src (Suc n) = copy_bytes (m(dst := m src)) (dst + 1) (src + 1) n"

fun fill_bytes :: "memory \<Rightarrow> u64 \<Rightarrow> u8 \<Rightarrow> nat \<Rightarrow> memory" where
  "fill_bytes m dst v 0 = m"
| "fill_bytes m dst v (Suc n) = fill_bytes (m(dst := v)) (dst + 1) v n"

definition bytes_at :: "u64 \<Rightarrow> nat \<Rightarrow> u64 set" where
  "bytes_at a n = {x. unat (x - a) < n}"

lemma bytes_at_offset: "i < n \<Longrightarrow> n \<le> 2 ^ 64 \<Longrightarrow> a + of_nat i \<in> bytes_at a n"
  by (simp add: bytes_at_def u64_of_nat_unat)

lemma bytes_at_E:
  assumes "x \<in> bytes_at a n"
  obtains i where "i < n" "x = a + of_nat i"
proof
  show "unat (x - a) < n" using assms by (simp add: bytes_at_def)
  show "x = a + of_nat (unat (x - a))" by simp
qed

lemma bytes_at_Suc: "n < 2 ^ 64 \<Longrightarrow> bytes_at a (Suc n) = insert a (bytes_at (a + 1) n)"
proof (rule set_eqI)
  fix x assume n: "n < 2 ^ 64"
  show "x \<in> bytes_at a (Suc n) \<longleftrightarrow> x \<in> insert a (bytes_at (a + 1) n)"
  proof (cases "x = a")
    case False
    then have "0 < unat (x - a)" by (simp add: unat_gt_0)
    then show ?thesis using False unat_sub_Suc [of x a] unfolding bytes_at_def by auto
  qed (simp add: bytes_at_def)
qed

lemma copy_bytes_apply:
  assumes "n \<le> 2 ^ 64" "bytes_at dst n \<inter> bytes_at src n = {}"
  shows "copy_bytes m dst src n x = (if x \<in> bytes_at dst n then m (src + (x - dst)) else m x)"
  using assms
proof (induction n arbitrary: m dst src)
  case 0
  then show ?case by (simp add: bytes_at_def)
next
  case (Suc n)
  have n: "n < 2 ^ 64" using Suc.prems(1) by simp
  note b = bytes_at_Suc [OF n, of dst] bytes_at_Suc [OF n, of src]
  have dj: "bytes_at (dst + 1) n \<inter> bytes_at (src + 1) n = {}" "dst \<notin> bytes_at (src + 1) n" "dst \<noteq> src"
    using Suc.prems(2) unfolding b by auto
  have dn: "dst \<notin> bytes_at (dst + 1) n" using n unat_sub_Suc [of dst dst] by (simp add: bytes_at_def)
  have IH: "copy_bytes m dst src (Suc n) x = (if x \<in> bytes_at (dst + 1) n
      then (m(dst := m src)) (src + 1 + (x - (dst + 1))) else (m(dst := m src)) x)"
    using Suc.IH [OF _ dj(1)] n by simp
  show ?case
  proof (cases "x \<in> bytes_at (dst + 1) n")
    case True
    have "src + 1 + (x - (dst + 1)) \<in> bytes_at (src + 1) n"
      using True unfolding bytes_at_def by (simp only: mem_Collect_eq add_diff_cancel_left')
    then have "src + 1 + (x - (dst + 1)) \<noteq> dst" using dj(2) by metis
    then show ?thesis using True IH by (simp add: b algebra_simps)
  next
    case False
    then show ?thesis using IH b by auto
  qed
qed

lemma fill_bytes_apply:
  "n \<le> 2 ^ 64 \<Longrightarrow> fill_bytes m dst v n x = (if x \<in> bytes_at dst n then v else m x)"
proof (induction n arbitrary: m dst)
  case 0
  then show ?case by (simp add: bytes_at_def)
next
  case (Suc n)
  then have "n < 2 ^ 64" by simp
  note b = bytes_at_Suc [OF this, of dst]
  have "fill_bytes m dst v (Suc n) x = (if x \<in> bytes_at (dst + 1) n then v else (m(dst := v)) x)"
    using Suc.IH [of "m(dst := v)" "dst + 1"] Suc.prems by (simp del: fun_upd_apply)
  then show ?case unfolding b by simp
qed

text \<open>Parts of a run of bytes.\<close>

lemma bytes_at_part:
  assumes "unat k + n \<le> len" "len \<le> 2 ^ 64"
  shows "bytes_at (a + k) n \<subseteq> bytes_at a len"
proof
  fix x assume x: "x \<in> bytes_at (a + k) n"
  then have "unat (x - (a + k)) < n" by (simp add: bytes_at_def)
  moreover have "x - a = x - (a + k) + k" by simp
  then have "unat (x - a) = unat (x - (a + k) + k)" by (rule arg_cong)
  ultimately have "unat (x - a) = unat (x - (a + k)) + unat k"
    using assms by (simp only:) (subst unat_add_small; simp)
  then show "x \<in> bytes_at a len" using \<open>unat (x - (a + k)) < n\<close> assms by (simp add: bytes_at_def)
qed

section \<open>Bytes at offsets\<close>

lemma unat_off:
  assumes "j < 2 ^ 32" "p < 2 ^ 32"
  shows "unat (of_nat j - of_nat p :: u64) = (if p \<le> j then j - p else 2 ^ 64 - (p - j))"
proof -
  have "unat (of_nat j :: u64) = j" "unat (of_nat p :: u64) = p" using assms by (intro u64_of_nat_unat; simp)+
  then show ?thesis by (subst unat_sub_if_size) (auto simp: word_size)
qed

lemma off_less:
  assumes "j < 2 ^ 32" "p < 2 ^ 32" "c \<le> 2 ^ 32"
  shows "unat (a + of_nat j - (a + of_nat p) :: u64) < c \<longleftrightarrow> p \<le> j \<and> j < p + c"
  using assms unat_off [OF assms(1,2)] by auto

lemma off_eq: "j < 2 ^ 32 \<Longrightarrow> p < 2 ^ 32 \<Longrightarrow> (a + of_nat j = (a + of_nat p :: u64)) = (j = p)"
  using off_less [of j p 1 a] by auto

lemma store_at:
  assumes "j < 2 ^ 32" "p < 2 ^ 32" "c \<le> 8"
  shows "store_le c m (a + of_nat p) v (a + of_nat j) =
    (if p \<le> j \<and> j < p + c then ucast (drop_bit (8 * (j - p)) v) else m (a + of_nat j))"
  using unat_off [OF assms(1,2)] assms by (subst store_le_apply) auto

lemma fill_at:
  assumes "j < 2 ^ 32" "p < 2 ^ 32" "c \<le> 2 ^ 32"
  shows "fill_bytes m (a + of_nat p) v c (a + of_nat j) = (if p \<le> j \<and> j < p + c then v else m (a + of_nat j))"
  using off_less [OF assms, of a] assms(3) by (subst fill_bytes_apply) (auto simp: bytes_at_def)

end
