(* ===== verification/Pmm.thy ===== *)
theory Pmm
  imports Phys_Mem
begin

text \<open>
  The physical frame allocator of \<open>kernel/mm/pmm.c\<close>: a bitmap with one bit per 4 KiB frame of
  \<open>[g_bitmap_base, g_bitmap_limit)\<close>, a set bit for a frame in use, and the count \<open>g_free\<close> of
  free bytes. This theory holds the state, the bitmap primitives and the operations that run
  after initialisation; \<open>Pmm_Init\<close> holds the region list and \<open>pmm_init\<close>.

  The bitmap is the static array \<open>g_bitmap_storage\<close> of \<open>PMM_MAX_FRAMES/8\<close> bytes reached through
  the pointer \<open>g_bitmap\<close>. An access through the null pointer or past the array is \<open>None\<close>.
\<close>

section \<open>State\<close>

definition PMM_FRAME_SIZE :: u64 where "PMM_FRAME_SIZE = 4096"
definition PMM_MAX_FRAMES :: u64 where "PMM_MAX_FRAMES = 1024 * 1024"
definition MAX_REGIONS :: nat where "MAX_REGIONS = 64"

record region_t =
  r_base :: u64
  r_len :: u64

datatype bitmap_ptr = Bitmap_Null | Bitmap_Storage

record pmm_state =
  g_regions :: "region_t list" \<comment> \<open>the first \<open>g_region_count\<close> entries of the array\<close>
  g_bitmap_base :: u64
  g_bitmap_limit :: u64
  g_total_phys :: u64
  g_total_usable :: u64
  g_free :: u64
  g_bitmap :: bitmap_ptr
  g_bitmap_storage :: "u64 \<Rightarrow> u8"

lemmas pmm_consts = PMM_FRAME_SIZE_def PMM_MAX_FRAMES_def MAX_REGIONS_def

section \<open>Operations\<close>

definition align_down :: "u64 \<Rightarrow> u64 \<Rightarrow> u64" where
  "align_down x a = x AND NOT (a - 1)"

definition align_up :: "u64 \<Rightarrow> u64 \<Rightarrow> u64" where
  "align_up x a = (x + (a - 1)) AND NOT (a - 1)"

definition addr_to_index :: "pmm_state \<Rightarrow> u64 \<Rightarrow> u64" where
  "addr_to_index s paddr = (paddr - g_bitmap_base s) div PMM_FRAME_SIZE"

text \<open>\<open>g_bitmap[byte]\<close> read and written.\<close>

definition bitmap_load :: "pmm_state \<Rightarrow> u64 \<Rightarrow> u8 option" where
  "bitmap_load s byte =
     (if g_bitmap s = Bitmap_Storage \<and> byte < PMM_MAX_FRAMES div 8
      then Some (g_bitmap_storage s byte) else None)"

definition bitmap_store :: "pmm_state \<Rightarrow> u64 \<Rightarrow> u8 \<Rightarrow> pmm_state option" where
  "bitmap_store s byte v =
     (if g_bitmap s = Bitmap_Storage \<and> byte < PMM_MAX_FRAMES div 8
      then Some (s\<lparr>g_bitmap_storage := (g_bitmap_storage s)(byte := v)\<rparr>) else None)"

definition test_frame :: "pmm_state \<Rightarrow> u64 \<Rightarrow> bool option" where
  "test_frame s idx = do {
     let byte = drop_bit 3 idx;
     let bit = unat (idx AND 7);
     b \<leftarrow> bitmap_load s byte;
     Some ((drop_bit bit b) AND 1 \<noteq> 0) }"

definition set_frame :: "pmm_state \<Rightarrow> u64 \<Rightarrow> pmm_state option" where
  "set_frame s idx = do {
     let byte = drop_bit 3 idx;
     let bit = unat (idx AND 7);
     b \<leftarrow> bitmap_load s byte;
     bitmap_store s byte (b OR push_bit bit 1) }"

definition clear_frame :: "pmm_state \<Rightarrow> u64 \<Rightarrow> pmm_state option" where
  "clear_frame s idx = do {
     let byte = drop_bit 3 idx;
     let bit = unat (idx AND 7);
     b \<leftarrow> bitmap_load s byte;
     bitmap_store s byte (b AND NOT (push_bit bit 1)) }"

text \<open>The loop of \<open>mark_range\<close> over the frame indices \<open>[i, i1)\<close>.\<close>

function mark_loop :: "pmm_state \<Rightarrow> u64 \<Rightarrow> u64 \<Rightarrow> bool \<Rightarrow> pmm_state option" where
  "mark_loop s i i1 used =
     (if i < i1
      then do {
        s' \<leftarrow> (if used then set_frame s i else clear_frame s i);
        mark_loop s' (i + 1) i1 used }
      else Some s)"
  by pat_completeness auto
termination
  by (relation "measure (\<lambda>(s, i, i1, used). unat i1 - unat i)") (auto simp: loop_up_decreases)

declare mark_loop.simps [simp del]

definition mark_range :: "pmm_state \<Rightarrow> u64 \<Rightarrow> u64 \<Rightarrow> bool \<Rightarrow> pmm_state option" where
  "mark_range st paddr sz used =
     (if sz = 0 then Some st
      else
        let s0 = align_down paddr PMM_FRAME_SIZE;
            e0 = align_up (paddr + sz) PMM_FRAME_SIZE;
            s = (if s0 < g_bitmap_base st then g_bitmap_base st else s0);
            e = (if e0 > g_bitmap_limit st then g_bitmap_limit st else e0)
        in if e \<le> s then Some st
           else mark_loop st (addr_to_index st s) (addr_to_index st e) used)"

text \<open>The loop of \<open>pmm_reserve\<close>: \<open>for (a = s; a < e; a += PMM_FRAME_SIZE)\<close>. It ends when \<open>e\<close> is
  more than a frame below \<open>2^64\<close>, which the allocator's invariant gives.\<close>

partial_function (option) reserve_loop :: "pmm_state \<Rightarrow> u64 \<Rightarrow> u64 \<Rightarrow> pmm_state option" where
  "reserve_loop s a e =
     (if a < e
      then do {
        let idx = addr_to_index s a;
        used \<leftarrow> test_frame s idx;
        s' \<leftarrow> (if \<not> used
               then do {
                 s1 \<leftarrow> set_frame s idx;
                 Some (s1\<lparr>g_free := g_free s1 - PMM_FRAME_SIZE\<rparr>) }
               else Some s);
        reserve_loop s' (a + PMM_FRAME_SIZE) e }
      else Some s)"

definition pmm_reserve :: "pmm_state \<Rightarrow> u64 \<Rightarrow> u64 \<Rightarrow> pmm_state option" where
  "pmm_reserve st paddr sz =
     (let s0 = align_down paddr PMM_FRAME_SIZE;
          e0 = align_up (paddr + sz) PMM_FRAME_SIZE;
          s = (if s0 < g_bitmap_base st then g_bitmap_base st else s0);
          e = (if e0 > g_bitmap_limit st then g_bitmap_limit st else e0)
      in reserve_loop st s e)"

text \<open>\<open>for (j = 0; j < count; ++j) set_frame(run_start + j)\<close>\<close>

function set_run :: "pmm_state \<Rightarrow> u64 \<Rightarrow> u64 \<Rightarrow> u64 \<Rightarrow> pmm_state option" where
  "set_run s run_start j count =
     (if j < count
      then do {
        s' \<leftarrow> set_frame s (run_start + j);
        set_run s' run_start (j + 1) count }
      else Some s)"
  by pat_completeness auto
termination
  by (relation "measure (\<lambda>(s, r, j, count). unat count - unat j)") (auto simp: loop_up_decreases)

declare set_run.simps [simp del]

text \<open>The search loop that \<open>pmm_alloc_frames\<close> (up to \<open>frames\<close>) and \<open>pmm_alloc_frames_below\<close> (up
  to \<open>limit_idx\<close>) share: the first run of \<open>count\<close> clear bits is taken. The result is the new
  state and the returned address, 0 on failure.\<close>

function alloc_loop ::
  "pmm_state \<Rightarrow> u64 \<Rightarrow> u64 \<Rightarrow> u64 \<Rightarrow> u64 \<Rightarrow> u64 \<Rightarrow> u64 \<Rightarrow> (pmm_state \<times> u64) option" where
  "alloc_loop s count need frames i run run_start =
     (if i < frames
      then do {
        used \<leftarrow> test_frame s i;
        if \<not> used
        then
          let run_start' = (if run = 0 then i else run_start);
              run' = run + 1
          in if run' \<ge> count
             then do {
               s' \<leftarrow> set_run s run_start' 0 count;
               Some (s'\<lparr>g_free := g_free s' - need\<rparr>,
                     g_bitmap_base s' + run_start' * PMM_FRAME_SIZE) }
             else alloc_loop s count need frames (i + 1) run' run_start'
        else alloc_loop s count need frames (i + 1) 0 run_start }
      else Some (s, 0))"
  by pat_completeness auto
termination
  by (relation "measure (\<lambda>(s, count, need, frames, i, run, rs). unat frames - unat i)")
    (auto simp: loop_up_decreases)

declare alloc_loop.simps [simp del]

definition pmm_alloc_frames :: "pmm_state \<Rightarrow> u64 \<Rightarrow> (pmm_state \<times> u64) option" where
  "pmm_alloc_frames s count =
     (if count = 0 then Some (s, 0)
      else
        let need = count * PMM_FRAME_SIZE
        in if g_free s < need then Some (s, 0)
           else
             let frames = (g_bitmap_limit s - g_bitmap_base s) div PMM_FRAME_SIZE
             in alloc_loop s count need frames 0 0 0)"

definition pmm_alloc_frames_below :: "pmm_state \<Rightarrow> u64 \<Rightarrow> u64 \<Rightarrow> (pmm_state \<times> u64) option" where
  "pmm_alloc_frames_below s count max_phys_exclusive =
     (if count = 0 then Some (s, 0)
      else
        let need = count * PMM_FRAME_SIZE
        in if g_free s < need then Some (s, 0)
           else
             let frames = (g_bitmap_limit s - g_bitmap_base s) div PMM_FRAME_SIZE;
                 limit_idx0 = (if max_phys_exclusive > g_bitmap_base s
                   then (max_phys_exclusive - g_bitmap_base s) div PMM_FRAME_SIZE else 0);
                 limit_idx = (if limit_idx0 > frames then frames else limit_idx0)
             in alloc_loop s count need limit_idx 0 0 0)"

text \<open>The loop of \<open>pmm_free_frames\<close>, with its \<open>break\<close> at the end of the bitmap.\<close>

function free_loop :: "pmm_state \<Rightarrow> u64 \<Rightarrow> u64 \<Rightarrow> u64 \<Rightarrow> pmm_state option" where
  "free_loop s idx j count =
     (if j < count
      then
        if idx + j \<ge> (g_bitmap_limit s - g_bitmap_base s) div PMM_FRAME_SIZE then Some s
        else do {
          used \<leftarrow> test_frame s (idx + j);
          s' \<leftarrow> (if used
                 then do {
                   s1 \<leftarrow> clear_frame s (idx + j);
                   Some (s1\<lparr>g_free := g_free s1 + PMM_FRAME_SIZE\<rparr>) }
                 else Some s);
          free_loop s' idx (j + 1) count }
      else Some s)"
  by pat_completeness auto
termination
  by (relation "measure (\<lambda>(s, idx, j, count). unat count - unat j)")
    (auto simp: loop_up_decreases)

declare free_loop.simps [simp del]

definition pmm_free_frames :: "pmm_state \<Rightarrow> u64 \<Rightarrow> u64 \<Rightarrow> pmm_state option" where
  "pmm_free_frames s paddr count =
     (if count = 0 \<or> paddr < g_bitmap_base s \<or> paddr \<ge> g_bitmap_limit s then Some s
      else free_loop s (addr_to_index s paddr) 0 count)"

definition pmm_total_bytes :: "pmm_state \<Rightarrow> u64" where "pmm_total_bytes s = g_total_usable s"
definition pmm_free_bytes :: "pmm_state \<Rightarrow> u64" where "pmm_free_bytes s = g_free s"
definition pmm_total_physical_bytes :: "pmm_state \<Rightarrow> u64" where
  "pmm_total_physical_bytes s = g_total_phys s"

section \<open>The abstract frame table\<close>

text \<open>
  What the bitmap means: the set of frame indices in use. The bitmap primitives act on it as
  insertion and removal, and the loops as union and difference with an interval.
\<close>

record frame_table =
  ft_regions :: "region_t list"
  ft_base :: u64
  ft_limit :: u64
  ft_phys :: u64
  ft_usable :: u64
  ft_free :: u64
  ft_ptr :: bitmap_ptr
  ft_used :: "nat set"

definition frame_used :: "pmm_state \<Rightarrow> nat \<Rightarrow> bool" where
  "frame_used s i \<longleftrightarrow> bit (g_bitmap_storage s (of_nat (i div 8))) (i mod 8)"

definition used_frames :: "pmm_state \<Rightarrow> nat set" where
  "used_frames s = {i. i < 1048576 \<and> frame_used s i}"

definition pmm_abs :: "pmm_state \<Rightarrow> frame_table" where
  "pmm_abs s = \<lparr>ft_regions = g_regions s, ft_base = g_bitmap_base s, ft_limit = g_bitmap_limit s,
     ft_phys = g_total_phys s, ft_usable = g_total_usable s, ft_free = g_free s,
     ft_ptr = g_bitmap s, ft_used = used_frames s\<rparr>"

definition nframes :: "pmm_state \<Rightarrow> nat" where
  "nframes s = (unat (g_bitmap_limit s) - unat (g_bitmap_base s)) div 4096"

lemma pmm_abs_sel [simp]:
  "ft_regions (pmm_abs s) = g_regions s" "ft_base (pmm_abs s) = g_bitmap_base s"
  "ft_limit (pmm_abs s) = g_bitmap_limit s" "ft_phys (pmm_abs s) = g_total_phys s"
  "ft_usable (pmm_abs s) = g_total_usable s" "ft_free (pmm_abs s) = g_free s"
  "ft_ptr (pmm_abs s) = g_bitmap s" "ft_used (pmm_abs s) = used_frames s"
  by (simp_all add: pmm_abs_def)

lemma used_frames_free [simp]: "used_frames (s\<lparr>g_free := f\<rparr>) = used_frames s"
  by (simp add: used_frames_def frame_used_def)

lemma pmm_abs_free [simp]: "pmm_abs (s\<lparr>g_free := f\<rparr>) = (pmm_abs s)\<lparr>ft_free := f\<rparr>"
  by (simp add: pmm_abs_def)

lemma bit_of_byte: "(drop_bit n b AND 1 \<noteq> (0 :: u8)) = bit b n"
  by (metis and_one_eq bit_iff_odd_drop_bit even_iff_mod_2_eq_zero)

lemma frame_byte:
  assumes "unat (i :: u64) < 1048576"
  shows "drop_bit 3 i = of_nat (unat i div 8)" "drop_bit 3 i < PMM_MAX_FRAMES div 8"
proof -
  have u: "unat (drop_bit 3 i) = unat i div 8"
    by (simp add: unat_drop_bit_eq drop_bit_nat_def)
  show "drop_bit 3 i = of_nat (unat i div 8)"
    by (simp add: u [symmetric])
  show "drop_bit 3 i < PMM_MAX_FRAMES div 8"
    using assms u by (simp add: word_less_nat_alt PMM_MAX_FRAMES_def)
qed

lemma byte_index_inj:
  assumes "i < 1048576" "j < 1048576"
  shows "(of_nat (i div 8) :: u64) = of_nat (j div 8) \<longleftrightarrow> i div 8 = j div 8"
proof -
  have "unat (of_nat (n div 8) :: u64) = n div 8" if "n < 1048576" for n
    using that by (intro u64_of_nat_unat) simp
  then show ?thesis using assms by (metis word_unat_eq_iff)
qed

lemma frame_used_upd:
  assumes "i < 1048576" "n < 1048576"
    and v: "\<And>k. k < 8 \<Longrightarrow> bit v k =
      (if k = n mod 8 then b else bit (g_bitmap_storage s (of_nat (n div 8))) k)"
  shows "frame_used (s\<lparr>g_bitmap_storage := (g_bitmap_storage s)(of_nat (n div 8) := v)\<rparr>) i =
     (if i = n then b else frame_used s i)"
proof (cases "i div 8 = n div 8")
  case True
  have "i = n \<longleftrightarrow> i mod 8 = n mod 8" using True by (metis div_mult_mod_eq)
  then show ?thesis using True v [of "i mod 8"] by (simp add: frame_used_def)
next
  case False
  then show ?thesis using byte_index_inj [OF assms(1,2)] by (auto simp: frame_used_def)
qed

lemma pmm_abs_upd:
  assumes "n < 1048576"
    and "\<And>k. k < 8 \<Longrightarrow> bit v k =
      (if k = n mod 8 then b else bit (g_bitmap_storage s (of_nat (n div 8))) k)"
  shows "pmm_abs (s\<lparr>g_bitmap_storage := (g_bitmap_storage s)(of_nat (n div 8) := v)\<rparr>) =
    (pmm_abs s)\<lparr>ft_used := (if b then insert n (used_frames s) else used_frames s - {n})\<rparr>"
proof -
  let ?s = "s\<lparr>g_bitmap_storage := (g_bitmap_storage s)(of_nat (n div 8) := v)\<rparr>"
  have "{i. i < 1048576 \<and> frame_used ?s i} = {i. i < 1048576 \<and> (if i = n then b else frame_used s i)}"
    using frame_used_upd [OF _ assms] by auto
  then show ?thesis using assms(1) by (auto simp: pmm_abs_def used_frames_def)
qed

lemma test_frame_ok:
  assumes "g_bitmap s = Bitmap_Storage" "unat i < 1048576"
  shows "test_frame s i = Some (unat i \<in> used_frames s)"
  using assms frame_byte [OF assms(2)]
  by (simp only: test_frame_def bitmap_load_def bit_of_byte used_frames_def pmm_abs_def
      frame_used_def unat_low3 Let_def frame_table.simps) simp

lemma set_bit_at: "k < 8 \<Longrightarrow> bit (b OR push_bit n 1 :: u8) k \<longleftrightarrow> (if k = n then True else bit b k)"
  by (auto simp: bit_simps)

lemma clear_bit_at:
  "k < 8 \<Longrightarrow> bit (b AND NOT (push_bit n 1) :: u8) k \<longleftrightarrow> (if k = n then False else bit b k)"
  by (auto simp: bit_simps)

lemma set_frame_ok:
  assumes "g_bitmap s = Bitmap_Storage" "unat i < 1048576"
  shows "\<exists>s'. set_frame s i = Some s' \<and>
           pmm_abs s' = (pmm_abs s)\<lparr>ft_used := insert (unat i) (used_frames s)\<rparr>"
  using assms frame_byte [OF assms(2)]
    pmm_abs_upd [OF assms(2) set_bit_at [of _ "g_bitmap_storage s (of_nat (unat i div 8))" "unat i mod 8"]]
  by (simp only: set_frame_def bitmap_load_def bitmap_store_def Let_def unat_low3
      simp_thms if_True bind.bind_lunit) simp

lemma clear_frame_ok:
  assumes "g_bitmap s = Bitmap_Storage" "unat i < 1048576"
  shows "\<exists>s'. clear_frame s i = Some s' \<and>
           pmm_abs s' = (pmm_abs s)\<lparr>ft_used := used_frames s - {unat i}\<rparr>"
  using assms frame_byte [OF assms(2)]
    pmm_abs_upd [OF assms(2) clear_bit_at [of _ "g_bitmap_storage s (of_nat (unat i div 8))" "unat i mod 8"]]
  by (simp only: clear_frame_def bitmap_load_def bitmap_store_def Let_def unat_low3
      simp_thms if_True bind.bind_lunit) simp

section \<open>The loops on the abstract table\<close>

lemma pmm_abs_ptr: "pmm_abs s' = (pmm_abs s)\<lparr>ft_used := U\<rparr> \<Longrightarrow>
    g_bitmap s' = g_bitmap s \<and> g_bitmap_base s' = g_bitmap_base s \<and>
    g_bitmap_limit s' = g_bitmap_limit s \<and> g_free s' = g_free s \<and> used_frames s' = U"
  by (metis frame_table.select_convs frame_table.surjective frame_table.update_convs(8)
      pmm_abs_sel(2,3,6,7,8))

lemma mark_loop_ok:
  assumes "g_bitmap s = Bitmap_Storage" "unat i1 \<le> 1048576"
  shows "\<exists>s'. mark_loop s i i1 used = Some s' \<and>
    pmm_abs s' = (pmm_abs s)\<lparr>ft_used :=
      (if used then used_frames s \<union> {unat i..<unat i1} else used_frames s - {unat i..<unat i1})\<rparr>"
  using assms
proof (induction s i i1 used rule: mark_loop.induct)
  case (1 s i i1 used)
  show ?case
  proof (cases "i < i1")
    case True
    then have lt: "unat i < unat i1" and i: "unat i < 1048576"
      using "1.prems"(2) by (simp_all add: word_less_nat_alt)
    obtain s1 where s1: "(if used then set_frame s i else clear_frame s i) = Some s1"
      and a1: "pmm_abs s1 = (pmm_abs s)\<lparr>ft_used :=
        (if used then insert (unat i) (used_frames s) else used_frames s - {unat i})\<rparr>"
      using set_frame_ok [OF "1.prems"(1) i] clear_frame_ok [OF "1.prems"(1) i]
      by (cases used) auto
    note f1 = pmm_abs_ptr [OF a1]
    obtain s' where s': "mark_loop s1 (i + 1) i1 used = Some s'"
      and a': "pmm_abs s' = (pmm_abs s1)\<lparr>ft_used := (if used
        then used_frames s1 \<union> {unat (i + 1)..<unat i1} else used_frames s1 - {unat (i + 1)..<unat i1})\<rparr>"
      using "1.IH" [OF True] s1 "1.prems" f1 by metis
    have iv: "{unat i..<unat i1} = insert (unat i) {unat (i + 1)..<unat i1}"
      using lt unat_Suc_less [OF True] by auto
    have "used_frames s - {unat i} - {unat (i + 1)..<unat i1} = used_frames s - {unat i..<unat i1}"
      "insert (unat i) (used_frames s) \<union> {unat (i + 1)..<unat i1} = used_frames s \<union> {unat i..<unat i1}"
      unfolding iv by blast+
    then have "pmm_abs s' = (pmm_abs s)\<lparr>ft_used := (if used
      then used_frames s \<union> {unat i..<unat i1} else used_frames s - {unat i..<unat i1})\<rparr>"
      unfolding a' a1 using f1 by (cases used) simp_all
    moreover have "mark_loop s i i1 used = Some s'"
      using True s1 s' by (simp add: mark_loop.simps [of s i i1 used])
    ultimately show ?thesis by blast
  next
    case False
    then have "{unat i..<unat i1} = {}" by (simp add: word_less_nat_alt)
    moreover have "(pmm_abs s)\<lparr>ft_used := used_frames s\<rparr> = pmm_abs s" by (simp add: pmm_abs_def)
    ultimately show ?thesis using False by (simp add: mark_loop.simps [of s i i1 used])
  qed
qed

lemma set_run_ok:
  assumes "g_bitmap s = Bitmap_Storage" "unat r + unat count \<le> 1048576"
  shows "\<exists>s'. set_run s r j count = Some s' \<and>
    pmm_abs s' = (pmm_abs s)\<lparr>ft_used := used_frames s \<union> {unat r + unat j..<unat r + unat count}\<rparr>"
  using assms
proof (induction s r j count rule: set_run.induct)
  case (1 s r j count)
  show ?case
  proof (cases "j < count")
    case True
    then have lt: "unat j < unat count" by (simp add: word_less_nat_alt)
    have rj: "unat (r + j) = unat r + unat j"
      using "1.prems"(2) lt by (subst unat_add_small) simp_all
    obtain s1 where s1: "set_frame s (r + j) = Some s1"
      and a1: "pmm_abs s1 = (pmm_abs s)\<lparr>ft_used := insert (unat r + unat j) (used_frames s)\<rparr>"
      using set_frame_ok [OF "1.prems"(1), of "r + j"] rj "1.prems"(2) lt by auto
    note f1 = pmm_abs_ptr [OF a1]
    obtain s' where s': "set_run s1 r (j + 1) count = Some s'"
      and a': "pmm_abs s' = (pmm_abs s1)\<lparr>ft_used :=
        used_frames s1 \<union> {unat r + unat (j + 1)..<unat r + unat count}\<rparr>"
      using "1.IH" [OF True s1] "1.prems" f1 by metis
    have "{unat r + unat j..<unat r + unat count} =
        insert (unat r + unat j) {unat r + unat (j + 1)..<unat r + unat count}"
      using lt unat_Suc_less [OF True] by auto
    then have "pmm_abs s' = (pmm_abs s)\<lparr>ft_used :=
        used_frames s \<union> {unat r + unat j..<unat r + unat count}\<rparr>"
      using a' a1 f1 by simp
    moreover have "set_run s r j count = Some s'"
      using True s1 s' by (simp add: set_run.simps [of s r j count])
    ultimately show ?thesis by blast
  next
    case False
    then have "{unat r + unat j..<unat r + unat count} = {}" by (simp add: word_less_nat_alt)
    moreover have "(pmm_abs s)\<lparr>ft_used := used_frames s\<rparr> = pmm_abs s" by (simp add: pmm_abs_def)
    ultimately show ?thesis using False by (simp add: set_run.simps [of s r j count])
  qed
qed

text \<open>First fit: the lowest start of \<open>c\<close> consecutive free frames below \<open>n\<close>.\<close>

definition free_run :: "nat set \<Rightarrow> nat \<Rightarrow> nat \<Rightarrow> nat \<Rightarrow> bool" where
  "free_run U n c r \<longleftrightarrow> r + c \<le> n \<and> {r..<r + c} \<inter> U = {}"

definition first_fit :: "nat set \<Rightarrow> nat \<Rightarrow> nat \<Rightarrow> nat option" where
  "first_fit U n c = find (\<lambda>r. \<forall>k \<in> {r..<r + c}. k \<notin> U) [0..<Suc n - c]"

lemma first_fit_Some:
  assumes "0 < c"
  shows "first_fit U n c = Some r \<longleftrightarrow> free_run U n c r \<and> (\<forall>r' < r. \<not> free_run U n c r')"
proof -
  have *: "(r < Suc n - c \<and> (\<forall>k \<in> {r..<r + c}. k \<notin> U)) \<longleftrightarrow> free_run U n c r" for r
    using assms by (auto simp: free_run_def)
  have "first_fit U n c = Some r \<longleftrightarrow> r < Suc n - c \<and> (\<forall>k \<in> {r..<r + c}. k \<notin> U) \<and>
      (\<forall>j < r. \<not> (\<forall>k \<in> {j..<j + c}. k \<notin> U))"
    unfolding first_fit_def find_Some_iff by (auto simp del: upt_Suc)
  also have "\<dots> \<longleftrightarrow> free_run U n c r \<and> (\<forall>r' < r. \<not> free_run U n c r')"
    by (metis * less_trans)
  finally show ?thesis .
qed

lemma first_fit_None:
  assumes "0 < c"
  shows "first_fit U n c = None \<longleftrightarrow> (\<forall>r. \<not> free_run U n c r)"
proof -
  have *: "(r < Suc n - c \<and> (\<forall>k \<in> {r..<r + c}. k \<notin> U)) \<longleftrightarrow> free_run U n c r" for r
    using assms by (auto simp: free_run_def)
  show ?thesis unfolding first_fit_def find_None_iff using * by auto
qed

end
