(* ===== verification/Pmm_Correct.thy ===== *)
theory Pmm_Correct
  imports Pmm
begin

text \<open>
  The frame allocator against its specification: first fit over the set of free frames, exact
  accounting of the free bytes, and the invariant every operation keeps. The contract that the
  other components rely on is the locale \<open>frame_allocator\<close>, interpreted here on the operations
  of \<open>pmm.c\<close>.
\<close>

section \<open>The search loop is first fit\<close>

definition alloc_result :: "pmm_state \<Rightarrow> nat \<Rightarrow> u64 \<Rightarrow> nat \<Rightarrow> pmm_state \<Rightarrow> u64 \<Rightarrow> bool" where
  "alloc_result s c need n s' p \<longleftrightarrow>
     (case first_fit (used_frames s) n c of
        None \<Rightarrow> s' = s \<and> p = 0
      | Some r \<Rightarrow> p = g_bitmap_base s + of_nat r * 4096 \<and>
          pmm_abs s' = (pmm_abs s)\<lparr>ft_used := used_frames s \<union> {r..<r + c},
            ft_free := g_free s - need\<rparr>)"

lemma alloc_loop_found:
  assumes ptr: "g_bitmap s = Bitmap_Storage" and n: "unat frames \<le> 1048576"
    and c: "0 < unat count" and i: "unat r + unat count \<le> unat frames"
    and fr: "{unat r..<unat r + unat count} \<inter> used_frames s = {}"
    and bl: "\<forall>q < unat r. {q..<q + unat count} \<inter> used_frames s \<noteq> {}"
  shows "\<exists>s'. set_run s r 0 count = Some s' \<and>
    alloc_result s (unat count) need (unat frames) (s'\<lparr>g_free := g_free s' - need\<rparr>)
      (g_bitmap_base s' + r * PMM_FRAME_SIZE)"
proof -
  have "unat r + unat count \<le> 1048576" using i n by simp
  then obtain s' where s': "set_run s r 0 count = Some s'"
    and a: "pmm_abs s' = (pmm_abs s)\<lparr>ft_used :=
      used_frames s \<union> {unat r + unat (0 :: u64)..<unat r + unat count}\<rparr>"
    using set_run_ok [OF ptr, of r count 0] by blast
  have "first_fit (used_frames s) (unat frames) (unat count) = Some (unat r)"
    unfolding first_fit_Some [OF c] free_run_def using i fr bl by auto
  then have "alloc_result s (unat count) need (unat frames) (s'\<lparr>g_free := g_free s' - need\<rparr>)
      (g_bitmap_base s' + r * PMM_FRAME_SIZE)"
    using a pmm_abs_ptr [OF a] by (simp add: alloc_result_def PMM_FRAME_SIZE_def)
  with s' show ?thesis by blast
qed

lemma alloc_loop_ok:
  assumes "g_bitmap s = Bitmap_Storage" "unat frames \<le> 1048576" "0 < unat count"
    and "unat i \<le> unat frames" "unat run \<le> unat i" "unat run < unat count"
    and "unat run \<noteq> 0 \<Longrightarrow> unat run_start = unat i - unat run"
    and "{unat i - unat run..<unat i} \<inter> used_frames s = {}"
    and "\<forall>q < unat i - unat run. {q..<q + unat count} \<inter> used_frames s \<noteq> {}"
  shows "\<exists>s' p. alloc_loop s count need frames i run run_start = Some (s', p) \<and>
    alloc_result s (unat count) need (unat frames) s' p"
  using assms
proof (induction s count need frames i run run_start rule: alloc_loop.induct)
  case (1 s count need frames i run run_start)
  note prems = "1.prems"
  show ?case
  proof (cases "i < frames")
    case False
    then have "unat i = unat frames" using prems(4) by (simp add: word_less_nat_alt)
    moreover have "\<not> free_run (used_frames s) (unat frames) (unat count) r" for r
      using prems(6,9) calculation by (cases "r < unat i - unat run") (auto simp: free_run_def)
    ultimately have "alloc_result s (unat count) need (unat frames) s 0"
      by (simp add: alloc_result_def first_fit_None [OF prems(3), THEN iffD2])
    then show ?thesis using False by (simp add: alloc_loop.simps [of s])
  next
    case True
    then have lt: "unat i < unat frames" by (simp add: word_less_nat_alt)
    note Si = unat_Suc_less [OF True]
    have test: "test_frame s i = Some (unat i \<in> used_frames s)"
      using prems(1,2) lt by (intro test_frame_ok) simp_all
    show ?thesis
    proof (cases "unat i \<in> used_frames s")
      case used: True
      have bl: "{q..<q + unat count} \<inter> used_frames s \<noteq> {}" if "q < unat (i + 1)" for q
      proof (cases "q < unat i - unat run")
        case False
        then have "unat i \<in> {q..<q + unat count}" using that prems(5,6) Si by auto
        then show ?thesis using used by blast
      qed (use prems(9) in blast)
      have "\<exists>s' p. alloc_loop s count need frames (i + 1) 0 run_start = Some (s', p) \<and>
          alloc_result s (unat count) need (unat frames) s' p"
        using used prems lt Si bl by (intro "1.IH"(2) [OF True test]) auto
      then show ?thesis using True test used by (simp add: alloc_loop.simps [of s _ _ _ i])
    next
      case free: False
      define rs where "rs = (if run = 0 then i else run_start)"
      have urs: "unat rs = unat i - unat run"
        using prems(7) by (auto simp: rs_def unat_eq_0)
      have "run < count" using prems(6) by (simp add: word_less_nat_alt)
      then have Sr: "unat (run + 1) = Suc (unat run)" by (rule unat_Suc_less)
      have fr: "{unat i - unat run..<Suc (unat i)} \<inter> used_frames s = {}"
        using prems(5,8) free by (auto simp: less_Suc_eq)
      have step: "alloc_loop s count need frames i run run_start =
          (if run + 1 \<ge> count
           then do {
             s' \<leftarrow> set_run s rs 0 count;
             Some (s'\<lparr>g_free := g_free s' - need\<rparr>, g_bitmap_base s' + rs * PMM_FRAME_SIZE) }
           else alloc_loop s count need frames (i + 1) (run + 1) rs)"
        using True test free by (simp add: alloc_loop.simps [of s _ _ _ i] rs_def Let_def)
      show ?thesis
      proof (cases "run + 1 \<ge> count")
        case found: True
        then have cnt: "unat count = Suc (unat run)"
          using Sr prems(6) by (simp add: word_le_nat_alt)
        have "\<exists>s'. set_run s rs 0 count = Some s' \<and>
          alloc_result s (unat count) need (unat frames) (s'\<lparr>g_free := g_free s' - need\<rparr>)
            (g_bitmap_base s' + rs * PMM_FRAME_SIZE)"
          using prems cnt urs fr lt by (intro alloc_loop_found) auto
        then show ?thesis unfolding step using found by auto
      next
        case more: False
        then have "Suc (unat run) < unat count" using Sr by (simp add: word_le_nat_alt)
        then have "\<exists>s' p. alloc_loop s count need frames (i + 1) (run + 1) rs = Some (s', p) \<and>
            alloc_result s (unat count) need (unat frames) s' p"
          using "1.IH"(1) [OF True test free rs_def refl more] prems lt Si Sr urs fr by auto
        then show ?thesis unfolding step using more by simp
      qed
    qed
  qed
qed

section \<open>The invariant\<close>

text \<open>
  The bitmap covers whole frames below 4 GiB (so that every index is inside the static array)
  and \<open>g_free\<close> is the number of clear bits, in bytes.
\<close>

definition free_frames :: "pmm_state \<Rightarrow> nat set" where
  "free_frames s = {..<nframes s} - used_frames s"

definition pmm_inv :: "pmm_state \<Rightarrow> bool" where
  "pmm_inv s \<longleftrightarrow> g_bitmap s = Bitmap_Storage \<and>
     unat (g_bitmap_base s) mod 4096 = 0 \<and> unat (g_bitmap_limit s) mod 4096 = 0 \<and>
     g_bitmap_base s \<le> g_bitmap_limit s \<and> g_bitmap_limit s \<le> 0x100000000 \<and>
     unat (g_free s) = 4096 * card (free_frames s)"

text \<open>Page numbers: frame \<open>k\<close> of the bitmap is page \<open>page_of_frame s k\<close> of physical memory.\<close>

definition page_of_frame :: "pmm_state \<Rightarrow> nat \<Rightarrow> nat" where
  "page_of_frame s k = unat (g_bitmap_base s) div 4096 + k"

lemma pmm_invD:
  assumes "pmm_inv s"
  shows "g_bitmap s = Bitmap_Storage" "unat (g_bitmap_base s) mod 4096 = 0"
    "unat (g_bitmap_limit s) mod 4096 = 0" "unat (g_bitmap_base s) \<le> unat (g_bitmap_limit s)"
    "unat (g_bitmap_limit s) \<le> 4294967296" "unat (g_free s) = 4096 * card (free_frames s)"
    "nframes s \<le> 1048576" "unat (g_bitmap_limit s) = unat (g_bitmap_base s) + 4096 * nframes s"
proof -
  show a: "unat (g_bitmap_base s) mod 4096 = 0" "unat (g_bitmap_limit s) mod 4096 = 0"
    "unat (g_bitmap_base s) \<le> unat (g_bitmap_limit s)" "unat (g_bitmap_limit s) \<le> 4294967296"
    "g_bitmap s = Bitmap_Storage" "unat (g_free s) = 4096 * card (free_frames s)"
    using assms by (simp_all add: pmm_inv_def word_le_nat_alt)
  show "nframes s \<le> 1048576" using a by (simp add: nframes_def)
  show "unat (g_bitmap_limit s) = unat (g_bitmap_base s) + 4096 * nframes s"
    using page_multiple [OF a(1)] page_multiple [OF a(2)] a(3) by (auto simp: nframes_def)
qed

lemma pmm_abs_eqD:
  assumes "pmm_abs s' = (pmm_abs s)\<lparr>ft_used := U, ft_free := f\<rparr>"
  shows "used_frames s' = U" "nframes s' = nframes s" "g_free s' = f"
    "g_bitmap_base s' = g_bitmap_base s" "g_bitmap_limit s' = g_bitmap_limit s"
    "g_regions s' = g_regions s" "g_bitmap s' = g_bitmap s"
    "page_of_frame s' k = page_of_frame s k"
  using arg_cong [OF assms, of ft_base] arg_cong [OF assms, of ft_limit]
    arg_cong [OF assms, of ft_used] arg_cong [OF assms, of ft_free]
    arg_cong [OF assms, of ft_ptr] arg_cong [OF assms, of ft_regions]
  by (simp_all add: nframes_def page_of_frame_def)

lemma pmm_inv_transfer:
  assumes "pmm_inv s" "pmm_abs s' = (pmm_abs s)\<lparr>ft_used := U, ft_free := f\<rparr>"
    and "unat f = 4096 * card ({..<nframes s} - U)"
  shows "pmm_inv s'" "g_free s' = f"
  using assms(1,3) pmm_abs_eqD [OF assms(2)] by (simp_all add: pmm_inv_def free_frames_def)

lemma frames_word:
  assumes "pmm_inv s"
  shows "unat ((g_bitmap_limit s - g_bitmap_base s) div PMM_FRAME_SIZE) = nframes s"
proof -
  have "unat (g_bitmap_limit s - g_bitmap_base s) = unat (g_bitmap_limit s) - unat (g_bitmap_base s)"
    using pmm_invD(4) [OF assms] by (intro unat_sub) (simp add: word_le_nat_alt)
  then show ?thesis by (simp add: unat_div PMM_FRAME_SIZE_def nframes_def)
qed

text \<open>Taking a free run out of a table.\<close>

lemma free_run_card:
  assumes "free_run U n c r" "n \<le> m"
  shows "card ({..<m} - (U \<union> {r..<r + c})) = card ({..<m} - U) - c" "c \<le> card ({..<m} - U)"
proof -
  have sub: "{r..<r + c} \<subseteq> {..<m} - U" using assms by (auto simp: free_run_def)
  have "{..<m} - (U \<union> {r..<r + c}) = ({..<m} - U) - {r..<r + c}" by blast
  then show "card ({..<m} - (U \<union> {r..<r + c})) = card ({..<m} - U) - c"
    using sub by (simp add: card_Diff_subset)
  show "c \<le> card ({..<m} - U)" using card_mono [OF _ sub] by simp
qed

text \<open>The outcome of an allocation of \<open>c\<close> frames below index \<open>n\<close>, on a state that satisfies the
  invariant: the request for bytes does not wrap and the test of \<open>g_free\<close> never refuses a run
  that exists.\<close>

definition alloc_spec :: "pmm_state \<Rightarrow> nat \<Rightarrow> nat \<Rightarrow> pmm_state \<Rightarrow> u64 \<Rightarrow> bool" where
  "alloc_spec s c n s' p \<longleftrightarrow>
     (case first_fit (used_frames s) n c of
        None \<Rightarrow> s' = s \<and> p = 0
      | Some r \<Rightarrow> unat p = unat (g_bitmap_base s) + 4096 * r \<and>
          pmm_abs s' = (pmm_abs s)\<lparr>ft_used := used_frames s \<union> {r..<r + c},
            ft_free := g_free s - of_nat (4096 * c)\<rparr> \<and>
          4096 * c \<le> unat (g_free s))"

lemma first_fit_bounds:
  assumes "pmm_inv s" "n \<le> nframes s" "0 < c" "first_fit (used_frames s) n c = Some r"
  shows "free_run (used_frames s) n c r" "r + c \<le> nframes s" "4096 * c \<le> unat (g_free s)"
    "unat (g_bitmap_base s + of_nat r * 4096) = unat (g_bitmap_base s) + 4096 * r"
proof -
  show fr: "free_run (used_frames s) n c r" using assms(3,4) by (simp add: first_fit_Some)
  then show rc: "r + c \<le> nframes s" using assms(2) by (simp add: free_run_def)
  show "4096 * c \<le> unat (g_free s)"
    using free_run_card(2) [OF fr assms(2)] pmm_invD(6) [OF assms(1)]
    by (simp add: free_frames_def)
  have b: "unat (g_bitmap_base s) + 4096 * r \<le> 4294967296"
    using pmm_invD(5,8) [OF assms(1)] rc by simp
  then have "unat (of_nat r :: u64) = r" by (intro u64_of_nat_unat) simp
  then have "unat (of_nat r * 4096 :: u64) = 4096 * r"
    using b by (subst unat_mult_small) simp_all
  then show "unat (g_bitmap_base s + of_nat r * 4096) = unat (g_bitmap_base s) + 4096 * r"
    using b by (subst unat_add_small) simp_all
qed

lemma alloc_need:
  assumes "c \<le> 1048576" "c = unat (count :: u64)"
  shows "count * PMM_FRAME_SIZE = of_nat (4096 * c)" "unat (count * PMM_FRAME_SIZE) = 4096 * c"
  using assms by (auto simp: PMM_FRAME_SIZE_def unat_mult_small)

lemma alloc_search:
  assumes inv: "pmm_inv s" and c: "count \<noteq> 0" and n: "unat lim \<le> nframes s"
  shows "\<exists>s' p. (if g_free s < count * PMM_FRAME_SIZE then Some (s, 0)
       else alloc_loop s count (count * PMM_FRAME_SIZE) lim 0 0 0) = Some (s', p) \<and>
     alloc_spec s (unat count) (unat lim) s' p"
proof -
  have c0: "0 < unat count" using c by (simp add: unat_gt_0)
  let ?need = "count * PMM_FRAME_SIZE"
  obtain s' p where r: "alloc_loop s count ?need lim 0 0 0 = Some (s', p)"
    and a: "alloc_result s (unat count) ?need (unat lim) s' p"
    using alloc_loop_ok [of s lim count 0 0 0 ?need] pmm_invD(1,7) [OF inv] n c0 by auto
  show ?thesis
  proof (cases "first_fit (used_frames s) (unat lim) (unat count)")
    case None
    then have "alloc_spec s (unat count) (unat lim) s 0" "s' = s" "p = 0"
      using a by (simp_all add: alloc_spec_def alloc_result_def)
    then show ?thesis using r by auto
  next
    case (Some q)
    note b = first_fit_bounds [OF inv n c0 Some]
    have cm: "unat count \<le> 1048576" using b(2) pmm_invD(7) [OF inv] by simp
    have "\<not> g_free s < ?need" using b(3) alloc_need(2) [OF cm refl] by (simp add: word_less_nat_alt)
    moreover have "alloc_spec s (unat count) (unat lim) s' p"
      using a b Some alloc_need(1) [OF cm refl]
      by (simp add: alloc_spec_def alloc_result_def)
    ultimately show ?thesis using r by simp
  qed
qed

lemma alloc_spec_inv:
  assumes "pmm_inv s" "0 < c" "n \<le> nframes s" "alloc_spec s c n s' p"
  shows "pmm_inv s'"
proof (cases "first_fit (used_frames s) n c")
  case None
  then show ?thesis using assms by (simp add: alloc_spec_def)
next
  case (Some r)
  note b = first_fit_bounds [OF assms(1,3,2) Some]
  have a: "pmm_abs s' = (pmm_abs s)\<lparr>ft_used := used_frames s \<union> {r..<r + c},
      ft_free := g_free s - of_nat (4096 * c)\<rparr>"
    using assms(4) Some by (simp add: alloc_spec_def)
  have "c \<le> 1048576" using b(2) pmm_invD(7) [OF assms(1)] by simp
  then have u: "unat (of_nat (4096 * c) :: u64) = 4096 * c" by (intro u64_of_nat_unat) simp
  have "unat (g_free s - of_nat (4096 * c)) = unat (g_free s) - 4096 * c"
    using b(3) u by (subst unat_sub) (simp_all only: word_le_nat_alt u)
  also have "\<dots> = 4096 * card ({..<nframes s} - (used_frames s \<union> {r..<r + c}))"
    using pmm_invD(6) [OF assms(1)] free_run_card(1) [OF b(1) assms(3)]
    by (simp add: free_frames_def diff_mult_distrib2)
  finally show ?thesis using assms(1) a by (intro pmm_inv_transfer(1) [OF assms(1) a])
qed

lemma pmm_alloc_frames_ok:
  assumes "pmm_inv s" "count \<noteq> 0"
  shows "\<exists>s' p. pmm_alloc_frames s count = Some (s', p) \<and>
    alloc_spec s (unat count) (nframes s) s' p \<and> pmm_inv s'"
proof -
  let ?frames = "(g_bitmap_limit s - g_bitmap_base s) div PMM_FRAME_SIZE"
  have f: "unat ?frames = nframes s" using assms(1) by (rule frames_word)
  obtain s' p where "(if g_free s < count * PMM_FRAME_SIZE then Some (s, 0)
       else alloc_loop s count (count * PMM_FRAME_SIZE) ?frames 0 0 0) = Some (s', p)"
    and sp: "alloc_spec s (unat count) (nframes s) s' p"
    using alloc_search [OF assms, of ?frames] f by auto
  then have "pmm_alloc_frames s count = Some (s', p)"
    using assms(2) by (auto simp: pmm_alloc_frames_def Let_def split: if_splits)
  moreover have "pmm_inv s'"
    using alloc_spec_inv [OF assms(1) _ _ sp] assms(2) by (simp add: unat_gt_0)
  ultimately show ?thesis using sp by blast
qed

definition limit_index :: "pmm_state \<Rightarrow> u64 \<Rightarrow> nat" where
  "limit_index s mx = min (nframes s) ((unat mx - unat (g_bitmap_base s)) div 4096)"

lemma pmm_alloc_frames_below_ok:
  assumes "pmm_inv s" "count \<noteq> 0"
  shows "\<exists>s' p. pmm_alloc_frames_below s count mx = Some (s', p) \<and>
    alloc_spec s (unat count) (limit_index s mx) s' p \<and> pmm_inv s'"
proof -
  let ?frames = "(g_bitmap_limit s - g_bitmap_base s) div PMM_FRAME_SIZE"
  let ?raw = "if mx > g_bitmap_base s then (mx - g_bitmap_base s) div PMM_FRAME_SIZE else 0"
  let ?lim = "if ?raw > ?frames then ?frames else ?raw"
  have l0: "unat ?raw = (unat mx - unat (g_bitmap_base s)) div 4096"
    by (auto simp: word_less_nat_alt unat_div PMM_FRAME_SIZE_def unat_sub word_le_nat_alt)
  have "unat ?lim = min (unat ?frames) (unat ?raw)" by (rule unat_clip)
  then have f: "unat ?lim = limit_index s mx"
    unfolding limit_index_def frames_word [OF assms(1)] l0 .
  obtain s' p where "(if g_free s < count * PMM_FRAME_SIZE then Some (s, 0)
       else alloc_loop s count (count * PMM_FRAME_SIZE) ?lim 0 0 0) = Some (s', p)"
    and sp: "alloc_spec s (unat count) (limit_index s mx) s' p"
    using alloc_search [OF assms, of ?lim] unfolding f by (metis limit_index_def min.cobounded1)
  then have "pmm_alloc_frames_below s count mx = Some (s', p)"
    using assms(2) by (auto simp: pmm_alloc_frames_below_def Let_def split: if_splits)
  moreover have "pmm_inv s'"
    using alloc_spec_inv [OF assms(1) _ _ sp] assms(2) by (simp add: unat_gt_0 limit_index_def)
  ultimately show ?thesis using sp by blast
qed

section \<open>Freeing and reserving\<close>

lemma free_one:
  assumes inv: "pmm_inv s" and k: "unat k < nframes s"
  shows "\<exists>u s'. test_frame s k = Some u \<and>
    (if u then do {
       s1 \<leftarrow> clear_frame s k;
       Some (s1\<lparr>g_free := g_free s1 + PMM_FRAME_SIZE\<rparr>) } else Some s) = Some s' \<and>
    pmm_inv s' \<and> pmm_abs s' = (pmm_abs s)\<lparr>ft_used := used_frames s - {unat k}, ft_free := g_free s'\<rparr>"
proof -
  have k': "unat k < 1048576" using k pmm_invD(7) [OF inv] by simp
  note t = test_frame_ok [OF pmm_invD(1) [OF inv] k']
  show ?thesis
  proof (cases "unat k \<in> used_frames s")
    case False
    moreover have "pmm_abs s = (pmm_abs s)\<lparr>ft_used := used_frames s - {unat k}, ft_free := g_free s\<rparr>"
      using False by (simp add: pmm_abs_def)
    ultimately show ?thesis using t inv by auto
  next
    case True
    obtain s1 where s1: "clear_frame s k = Some s1"
      and a1: "pmm_abs s1 = (pmm_abs s)\<lparr>ft_used := used_frames s - {unat k}\<rparr>"
      using clear_frame_ok [OF pmm_invD(1) [OF inv] k'] by blast
    define s' where "s' = s1\<lparr>g_free := g_free s1 + PMM_FRAME_SIZE\<rparr>"
    have a': "pmm_abs s' = (pmm_abs s)\<lparr>ft_used := used_frames s - {unat k},
        ft_free := g_free s + PMM_FRAME_SIZE\<rparr>"
      using a1 pmm_abs_ptr [OF a1] by (simp add: s'_def)
    have "{..<nframes s} - (used_frames s - {unat k}) = insert (unat k) (free_frames s)"
      using True k by (auto simp: free_frames_def)
    then have c: "card ({..<nframes s} - (used_frames s - {unat k})) = Suc (card (free_frames s))"
      using True by (simp add: free_frames_def)
    have "card (free_frames s) \<le> nframes s"
      unfolding free_frames_def by (rule order_trans [OF card_mono [of "{..<nframes s}"]]) auto
    then have "unat (g_free s) + unat PMM_FRAME_SIZE < 2 ^ 64"
      using pmm_invD(6,7) [OF inv] by (simp add: PMM_FRAME_SIZE_def)
    then have "unat (g_free s + PMM_FRAME_SIZE) =
        4096 * card ({..<nframes s} - (used_frames s - {unat k}))"
      using pmm_invD(6) [OF inv] c by (subst unat_add_small) (simp_all add: PMM_FRAME_SIZE_def)
    note r = pmm_inv_transfer [OF inv a' this]
    show ?thesis using t True s1 r a' by (auto simp: s'_def)
  qed
qed

lemma free_loop_ok:
  assumes "pmm_inv s" "unat idx + unat j \<le> nframes s"
  shows "\<exists>s'. free_loop s idx j count = Some s' \<and> pmm_inv s' \<and>
    pmm_abs s' = (pmm_abs s)\<lparr>ft_used :=
      used_frames s - {unat idx + unat j..<min (nframes s) (unat idx + unat count)},
      ft_free := g_free s'\<rparr>"
  using assms
proof (induction s idx j count rule: free_loop.induct)
  case (1 s idx j count)
  note inv = "1.prems"(1)
  have triv: "pmm_abs s = (pmm_abs s)\<lparr>ft_used := used_frames s - {}, ft_free := g_free s\<rparr>"
    by (simp add: pmm_abs_def)
  have ij: "unat (idx + j) = unat idx + unat j"
    using "1.prems"(2) pmm_invD(7) [OF inv] by (subst unat_add_small) simp_all
  let ?frames = "(g_bitmap_limit s - g_bitmap_base s) div PMM_FRAME_SIZE"
  show ?case
  proof (cases "j < count \<and> \<not> idx + j \<ge> ?frames")
    case False
    then have "free_loop s idx j count = Some s" by (auto simp: free_loop.simps [of s])
    moreover have "{unat idx + unat j..<min (nframes s) (unat idx + unat count)} = {}"
      using False frames_word [OF inv] ij by (auto simp: word_less_nat_alt word_le_nat_alt)
    ultimately show ?thesis using inv triv by metis
  next
    case True
    then have lt: "unat j < unat count" "unat idx + unat j < nframes s"
      using frames_word [OF inv] ij by (auto simp: word_less_nat_alt word_le_nat_alt)
    have Sj: "unat (j + 1) = Suc (unat j)" using True by (intro unat_Suc_less [of _ count]) simp
    obtain u s1 where t: "test_frame s (idx + j) = Some u"
      and s1: "(if u then do {
          s1 \<leftarrow> clear_frame s (idx + j);
          Some (s1\<lparr>g_free := g_free s1 + PMM_FRAME_SIZE\<rparr>) } else Some s) = Some s1"
      and inv1: "pmm_inv s1"
      and a1: "pmm_abs s1 = (pmm_abs s)\<lparr>ft_used := used_frames s - {unat idx + unat j},
          ft_free := g_free s1\<rparr>"
      using free_one [OF inv, of "idx + j"] ij lt by auto
    have n1: "nframes s1 = nframes s" "used_frames s1 = used_frames s - {unat idx + unat j}"
      using pmm_abs_eqD [OF a1] by simp_all
    obtain s' where s': "free_loop s1 idx (j + 1) count = Some s'" and inv': "pmm_inv s'"
      and a': "pmm_abs s' = (pmm_abs s1)\<lparr>ft_used := used_frames s1 -
          {unat idx + unat (j + 1)..<min (nframes s1) (unat idx + unat count)},
          ft_free := g_free s'\<rparr>"
      using "1.IH" [OF conjunct1 [OF True] conjunct2 [OF True] t s1 inv1] lt n1 Sj by auto
    have "{unat idx + unat j..<min (nframes s) (unat idx + unat count)} = insert (unat idx + unat j)
        {unat idx + unat (j + 1)..<min (nframes s) (unat idx + unat count)}"
      using Sj lt by auto
    then have "used_frames s1 - {unat idx + unat (j + 1)..<min (nframes s1) (unat idx + unat count)} =
        used_frames s - {unat idx + unat j..<min (nframes s) (unat idx + unat count)}"
      unfolding n1 by blast
    then have "pmm_abs s' = (pmm_abs s)\<lparr>ft_used :=
        used_frames s - {unat idx + unat j..<min (nframes s) (unat idx + unat count)},
        ft_free := g_free s'\<rparr>"
      using a' a1 by simp
    moreover have "free_loop s idx j count = Some s'"
      using True t s1 s' by (simp add: free_loop.simps [of s])
    ultimately show ?thesis using inv' by blast
  qed
qed

lemma addr_to_index_ok:
  assumes "pmm_inv s" "g_bitmap_base s \<le> a"
  shows "unat (addr_to_index s a) = (unat a - unat (g_bitmap_base s)) div 4096"
  using assms by (simp add: addr_to_index_def PMM_FRAME_SIZE_def unat_div unat_sub)

lemma interval_shift:
  fixes i P B c n :: nat
  assumes "i = P - B" "B \<le> P"
  shows "{i..<min n (i + c)} = {k. k < n \<and> P \<le> B + k \<and> B + k < P + c}"
  using assms by auto

lemma pmm_free_frames_ok:
  assumes "pmm_inv s"
  shows "\<exists>s'. pmm_free_frames s paddr count = Some s' \<and> pmm_inv s' \<and>
    pmm_abs s' = (pmm_abs s)\<lparr>ft_used := used_frames s -
      (if paddr < g_bitmap_base s then {} else
       {k. k < nframes s \<and> unat paddr div 4096 \<le> page_of_frame s k \<and>
           page_of_frame s k < unat paddr div 4096 + unat count}),
      ft_free := g_free s'\<rparr>"
proof (cases "count = 0 \<or> paddr < g_bitmap_base s \<or> paddr \<ge> g_bitmap_limit s")
  case True
  have lim: "unat (g_bitmap_limit s) div 4096 = unat (g_bitmap_base s) div 4096 + nframes s"
    using pmm_invD(8) [OF assms] by simp
  have "(if paddr < g_bitmap_base s then {} else
       {k. k < nframes s \<and> unat paddr div 4096 \<le> page_of_frame s k \<and>
           page_of_frame s k < unat paddr div 4096 + unat count}) = {}"
  proof (cases "paddr \<ge> g_bitmap_limit s")
    case True
    then have "unat (g_bitmap_limit s) div 4096 \<le> unat paddr div 4096"
      by (intro div_le_mono) (simp add: word_le_nat_alt)
    then show ?thesis using lim by (auto simp: page_of_frame_def)
  qed (use True in \<open>auto simp: page_of_frame_def\<close>)
  moreover have "pmm_abs s = (pmm_abs s)\<lparr>ft_used := used_frames s - {}, ft_free := g_free s\<rparr>"
    by (simp add: pmm_abs_def)
  ultimately show ?thesis using True assms by (simp add: pmm_free_frames_def)
next
  case False
  let ?i = "addr_to_index s paddr"
  have b: "unat (g_bitmap_base s) \<le> unat paddr" "unat paddr < unat (g_bitmap_limit s)"
    using False by (auto simp: word_less_nat_alt word_le_nat_alt)
  have i: "unat ?i = (unat paddr - unat (g_bitmap_base s)) div 4096"
    using assms False by (intro addr_to_index_ok) auto
  have ib: "unat ?i = unat paddr div 4096 - unat (g_bitmap_base s) div 4096"
    "unat (g_bitmap_base s) div 4096 \<le> unat paddr div 4096"
    using i b(1) page_multiple [OF pmm_invD(2) [OF assms]] by (auto simp: le_iff_add)
  have "unat ?i < nframes s" using i b pmm_invD(8) [OF assms] by simp
  then obtain s' where s': "free_loop s ?i 0 count = Some s'" "pmm_inv s'"
    and a: "pmm_abs s' = (pmm_abs s)\<lparr>ft_used :=
      used_frames s - {unat ?i + unat (0 :: u64)..<min (nframes s) (unat ?i + unat count)},
      ft_free := g_free s'\<rparr>"
    using free_loop_ok [OF assms, of ?i 0 count] by auto
  have "{unat ?i + unat (0 :: u64)..<min (nframes s) (unat ?i + unat count)} =
      {k. k < nframes s \<and> unat paddr div 4096 \<le> page_of_frame s k \<and>
           page_of_frame s k < unat paddr div 4096 + unat count}"
    using interval_shift [OF ib] by (simp only: page_of_frame_def unsigned_0 add_0_right)
  then show ?thesis using a s' False by (auto simp: pmm_free_frames_def)
qed

lemma reserve_one:
  assumes inv: "pmm_inv s" and k: "unat k < nframes s"
  shows "\<exists>u s'. test_frame s k = Some u \<and>
    (if \<not> u then do {
       s1 \<leftarrow> set_frame s k;
       Some (s1\<lparr>g_free := g_free s1 - PMM_FRAME_SIZE\<rparr>) } else Some s) = Some s' \<and>
    pmm_inv s' \<and> pmm_abs s' = (pmm_abs s)\<lparr>ft_used := insert (unat k) (used_frames s), ft_free := g_free s'\<rparr>"
proof -
  have k': "unat k < 1048576" using k pmm_invD(7) [OF inv] by simp
  note t = test_frame_ok [OF pmm_invD(1) [OF inv] k']
  show ?thesis
  proof (cases "unat k \<in> used_frames s")
    case True
    moreover have "pmm_abs s = (pmm_abs s)\<lparr>ft_used := insert (unat k) (used_frames s), ft_free := g_free s\<rparr>"
      using True by (simp add: pmm_abs_def insert_absorb)
    ultimately show ?thesis using t inv by auto
  next
    case False
    obtain s1 where s1: "set_frame s k = Some s1"
      and a1: "pmm_abs s1 = (pmm_abs s)\<lparr>ft_used := insert (unat k) (used_frames s)\<rparr>"
      using set_frame_ok [OF pmm_invD(1) [OF inv] k'] by blast
    define s' where "s' = s1\<lparr>g_free := g_free s1 - PMM_FRAME_SIZE\<rparr>"
    have a': "pmm_abs s' = (pmm_abs s)\<lparr>ft_used := insert (unat k) (used_frames s),
        ft_free := g_free s - PMM_FRAME_SIZE\<rparr>"
      using a1 pmm_abs_ptr [OF a1] by (simp add: s'_def)
    have fr: "unat k \<in> free_frames s" "finite (free_frames s)"
      using False k by (simp_all add: free_frames_def)
    have "{..<nframes s} - insert (unat k) (used_frames s) = free_frames s - {unat k}"
      by (auto simp: free_frames_def)
    then have c: "card ({..<nframes s} - insert (unat k) (used_frames s)) = card (free_frames s) - 1"
      using fr by simp
    have "1 \<le> card (free_frames s)" using fr by (metis card_gt_0_iff empty_iff less_eq_Suc_le One_nat_def)
    then have "unat PMM_FRAME_SIZE \<le> unat (g_free s)"
      using pmm_invD(6) [OF inv] by (simp add: PMM_FRAME_SIZE_def)
    then have "unat (g_free s - PMM_FRAME_SIZE) =
        4096 * card ({..<nframes s} - insert (unat k) (used_frames s))"
      using pmm_invD(6) [OF inv] c
      by (subst unat_sub) (simp_all add: PMM_FRAME_SIZE_def word_le_nat_alt diff_mult_distrib2)
    note r = pmm_inv_transfer [OF inv a' this]
    show ?thesis using t False s1 r a' by (auto simp: s'_def)
  qed
qed

lemma frame_addr:
  assumes "pmm_inv s" "k \<le> nframes s"
  shows "unat (g_bitmap_base s + of_nat (4096 * k)) = unat (g_bitmap_base s) + 4096 * k"
proof -
  have b: "unat (g_bitmap_base s) + 4096 * k \<le> 4294967296"
    using pmm_invD(5,8) [OF assms(1)] assms(2) by simp
  then have "unat (of_nat (4096 * k) :: u64) = 4096 * k" by (intro u64_of_nat_unat) simp
  then show ?thesis using b by (subst unat_add_small) simp_all
qed

lemma reserve_loop_stop: "\<not> a < e \<Longrightarrow> reserve_loop s a e = Some s"
  by (simp add: reserve_loop.simps)

lemma reserve_loop_step:
  assumes "a < e" "test_frame s (addr_to_index s a) = Some u"
    and "(if \<not> u then do {
        s1 \<leftarrow> set_frame s (addr_to_index s a);
        Some (s1\<lparr>g_free := g_free s1 - PMM_FRAME_SIZE\<rparr>) } else Some s) = Some s1"
    and "reserve_loop s1 (a + PMM_FRAME_SIZE) e = Some s'"
  shows "reserve_loop s a e = Some s'"
  using assms by (simp add: reserve_loop.simps [of s a e])

lemma reserve_loop_ok:
  assumes "pmm_inv s" "k \<le> m" "m \<le> nframes s"
  shows "\<exists>s'. reserve_loop s (g_bitmap_base s + of_nat (4096 * k)) (g_bitmap_base s + of_nat (4096 * m))
      = Some s' \<and> pmm_inv s' \<and>
    pmm_abs s' = (pmm_abs s)\<lparr>ft_used := used_frames s \<union> {k..<m}, ft_free := g_free s'\<rparr>"
  using assms
proof (induction "m - k" arbitrary: s k)
  case 0
  then have "k = m" by simp
  moreover have "pmm_abs s = (pmm_abs s)\<lparr>ft_used := used_frames s \<union> {m..<m}, ft_free := g_free s\<rparr>"
    by (simp add: pmm_abs_def)
  ultimately show ?case using 0 by (auto simp: reserve_loop.simps)
next
  case (Suc d)
  note inv = Suc.prems(1)
  let ?a = "g_bitmap_base s + of_nat (4096 * k)" and ?e = "g_bitmap_base s + of_nat (4096 * m)"
  have km: "k < m" using Suc.hyps(2) by simp
  have ua: "unat ?a = unat (g_bitmap_base s) + 4096 * k"
    and ue: "unat ?e = unat (g_bitmap_base s) + 4096 * m"
    using frame_addr [OF inv] Suc.prems km by simp_all
  then have lt: "?a < ?e" using km by (simp only: word_less_nat_alt)
  have idx: "unat (addr_to_index s ?a) = k"
    using addr_to_index_ok [OF inv, of ?a] ua by (simp only: word_le_nat_alt)
  obtain u s1 where t: "test_frame s (addr_to_index s ?a) = Some u"
    and s1: "(if \<not> u then do {
        s1 \<leftarrow> set_frame s (addr_to_index s ?a);
        Some (s1\<lparr>g_free := g_free s1 - PMM_FRAME_SIZE\<rparr>) } else Some s) = Some s1"
    and inv1: "pmm_inv s1"
    and a1: "pmm_abs s1 = (pmm_abs s)\<lparr>ft_used := insert k (used_frames s), ft_free := g_free s1\<rparr>"
    using reserve_one [OF inv, of "addr_to_index s ?a"] idx km Suc.prems(3) by auto
  have f1: "nframes s1 = nframes s" "used_frames s1 = insert k (used_frames s)"
    "g_bitmap_base s1 = g_bitmap_base s"
    using pmm_abs_eqD [OF a1] by simp_all
  have "d = m - Suc k" "Suc k \<le> m" "m \<le> nframes s1" using Suc f1 km by simp_all
  from Suc.hyps(1) [OF this(1) inv1 this(2,3)] obtain s' where
    s': "reserve_loop s1 (g_bitmap_base s + of_nat (4096 * Suc k)) ?e = Some s'" "pmm_inv s'"
    and a': "pmm_abs s' = (pmm_abs s1)\<lparr>ft_used := used_frames s1 \<union> {Suc k..<m}, ft_free := g_free s'\<rparr>"
    unfolding f1 by blast
  have next_a: "?a + PMM_FRAME_SIZE = g_bitmap_base s + of_nat (4096 * Suc k)"
    by (simp add: PMM_FRAME_SIZE_def distrib_left add.assoc add.commute [of "4096 :: u64"])
  have "{k..<m} = insert k {Suc k..<m}" using km by auto
  then have "used_frames s1 \<union> {Suc k..<m} = used_frames s \<union> {k..<m}" unfolding f1 by blast
  then have "pmm_abs s' = (pmm_abs s)\<lparr>ft_used := used_frames s \<union> {k..<m}, ft_free := g_free s'\<rparr>"
    using a' a1 by simp
  moreover have "reserve_loop s ?a ?e = Some s'"
    using lt t s1 s'(1) unfolding next_a [symmetric] by (rule reserve_loop_step)
  ultimately show ?case using s'(2) by blast
qed

text \<open>\<open>pmm_reserve\<close> marks every frame that meets \<open>[paddr, paddr + sz)\<close>, in whole pages.\<close>

definition reserved_frames :: "pmm_state \<Rightarrow> u64 \<Rightarrow> u64 \<Rightarrow> nat set" where
  "reserved_frames s paddr sz = {k. k < nframes s \<and> unat paddr div 4096 \<le> page_of_frame s k \<and>
     page_of_frame s k < (unat paddr + unat sz + 4095) div 4096}"

lemma align_frame:
  "unat (align_down x PMM_FRAME_SIZE) = 4096 * (unat x div 4096)"
  "unat x + 4095 < 2 ^ 64 \<Longrightarrow> unat (align_up x PMM_FRAME_SIZE) = 4096 * ((unat x + 4095) div 4096)"
  by (simp_all add: align_down_def align_up_def PMM_FRAME_SIZE_def word_nat unat_add_small)

lemma pmm_abs_refl: "(pmm_abs s)\<lparr>ft_used := used_frames s, ft_free := g_free s\<rparr> = pmm_abs s"
  by (simp add: pmm_abs_def)

text \<open>The clipping of a byte range to the bitmap, which \<open>pmm_reserve\<close> and \<open>mark_range\<close> share.\<close>

lemma clip_range:
  assumes inv: "pmm_inv s" and nowrap: "unat paddr + unat sz + 4095 < 2 ^ 64"
    and lo: "lo = (if align_down paddr PMM_FRAME_SIZE < g_bitmap_base s then g_bitmap_base s
      else align_down paddr PMM_FRAME_SIZE)"
    and hi: "hi = (if align_up (paddr + sz) PMM_FRAME_SIZE > g_bitmap_limit s then g_bitmap_limit s
      else align_up (paddr + sz) PMM_FRAME_SIZE)"
  shows "\<not> lo < hi \<Longrightarrow> reserved_frames s paddr sz = {}"
    and "lo < hi \<Longrightarrow> \<exists>k m. k \<le> m \<and> m \<le> nframes s \<and> reserved_frames s paddr sz = {k..<m} \<and>
      lo = g_bitmap_base s + of_nat (4096 * k) \<and> hi = g_bitmap_base s + of_nat (4096 * m)"
proof -
  define P Q where "P = unat paddr div 4096" and "Q = (unat paddr + unat sz + 4095) div 4096"
  obtain b where b: "unat (g_bitmap_base s) = 4096 * b"
    using page_multiple [OF pmm_invD(2) [OF inv]] by blast
  have ps: "unat (paddr + sz) = unat paddr + unat sz"
    using nowrap by (subst unat_add_small) simp_all
  have us: "unat lo = 4096 * max P b"
    unfolding lo unat_clip align_frame b P_def by (simp add: nat_mult_max_right)
  have ue: "unat hi = 4096 * min (b + nframes s) Q"
    unfolding hi unat_clip using align_frame(2) [of "paddr + sz"] nowrap ps pmm_invD(8) [OF inv] b
    by (simp add: Q_def nat_mult_min_right)
  have R: "reserved_frames s paddr sz = {P - b..<min (nframes s) (Q - b)}"
    using b by (auto simp: reserved_frames_def page_of_frame_def P_def [symmetric] Q_def [symmetric])
  have lt: "lo < hi \<longleftrightarrow> max P b < min (b + nframes s) Q"
    unfolding word_less_nat_alt us ue by simp
  show "reserved_frames s paddr sz = {}" if "\<not> lo < hi"
    unfolding R using that lt by auto
  assume "lo < hi"
  then have True: "max P b < min (b + nframes s) Q" by (simp add: lt)
  then have km: "P - b \<le> min (nframes s) (Q - b)" "min (nframes s) (Q - b) \<le> nframes s" by auto
  have "unat lo = unat (g_bitmap_base s + of_nat (4096 * (P - b)))"
    using frame_addr [OF inv, of "P - b"] km b us by (simp add: max_def diff_mult_distrib2)
  moreover have "min (b + nframes s) Q = b + min (nframes s) (Q - b)" using True by linarith
  then have "unat hi = unat (g_bitmap_base s + of_nat (4096 * min (nframes s) (Q - b)))"
    unfolding frame_addr [OF inv km(2)] ue b by simp
  ultimately have "lo = g_bitmap_base s + of_nat (4096 * (P - b))"
    "hi = g_bitmap_base s + of_nat (4096 * min (nframes s) (Q - b))"
    by (simp_all only: word_unat_eq_iff)
  then show "\<exists>k m. k \<le> m \<and> m \<le> nframes s \<and> reserved_frames s paddr sz = {k..<m} \<and>
      lo = g_bitmap_base s + of_nat (4096 * k) \<and> hi = g_bitmap_base s + of_nat (4096 * m)"
    using km R by blast
qed

lemma pmm_reserve_ok:
  assumes inv: "pmm_inv s" and nowrap: "unat paddr + unat sz + 4095 < 2 ^ 64"
  shows "\<exists>s'. pmm_reserve s paddr sz = Some s' \<and> pmm_inv s' \<and>
    pmm_abs s' = (pmm_abs s)\<lparr>ft_used := used_frames s \<union> reserved_frames s paddr sz,
      ft_free := g_free s'\<rparr>"
proof -
  obtain lo hi where e: "lo = (if align_down paddr PMM_FRAME_SIZE < g_bitmap_base s
      then g_bitmap_base s else align_down paddr PMM_FRAME_SIZE)"
    "hi = (if align_up (paddr + sz) PMM_FRAME_SIZE > g_bitmap_limit s
      then g_bitmap_limit s else align_up (paddr + sz) PMM_FRAME_SIZE)" by blast
  have d: "pmm_reserve s paddr sz = reserve_loop s lo hi"
    by (simp only: pmm_reserve_def Let_def e)
  show ?thesis
  proof (cases "lo < hi")
    case True
    then obtain k m where km: "k \<le> m" "m \<le> nframes s" "reserved_frames s paddr sz = {k..<m}"
      "lo = g_bitmap_base s + of_nat (4096 * k)" "hi = g_bitmap_base s + of_nat (4096 * m)"
      using clip_range(2) [OF inv nowrap e] by blast
    show ?thesis unfolding d using reserve_loop_ok [OF inv km(1,2)] km by auto
  next
    case False
    then have "pmm_reserve s paddr sz = Some s" unfolding d by (rule reserve_loop_stop)
    then show ?thesis using inv pmm_abs_refl [of s] clip_range(1) [OF inv nowrap e False] by simp
  qed
qed

section \<open>The allocator's contract\<close>

text \<open>
  In pages of physical memory. An address 0 returned by an allocation means failure, so the
  contract needs page 0 to be out of the pool: \<open>pmm_init\<close> reserves it.
\<close>

definition page_free :: "pmm_state \<Rightarrow> nat \<Rightarrow> bool" where
  "page_free s pg \<longleftrightarrow> (\<exists>k. k < nframes s \<and> k \<notin> used_frames s \<and> pg = page_of_frame s k)"

definition pmm_ok :: "pmm_state \<Rightarrow> bool" where
  "pmm_ok s \<longleftrightarrow> pmm_inv s \<and> \<not> page_free s 0"

lemma page_free_upd:
  assumes "pmm_abs s' = (pmm_abs s)\<lparr>ft_used := U, ft_free := f\<rparr>"
  shows "page_free s' pg \<longleftrightarrow> (\<exists>k. k < nframes s \<and> k \<notin> U \<and> pg = page_of_frame s k)"
  using pmm_abs_eqD [OF assms] by (simp add: page_free_def)

lemma alloc_pages:
  assumes ok: "pmm_ok s" and c: "0 < c" and n: "n \<le> nframes s" and sp: "alloc_spec s c n s' p"
  shows "pmm_ok s'" and "p = 0 \<Longrightarrow> s' = s"
    and "p \<noteq> 0 \<Longrightarrow> unat p mod 4096 = 0 \<and>
      (\<forall>pg \<in> {unat p div 4096..<unat p div 4096 + c}. page_free s pg) \<and>
      (\<forall>pg. page_free s' pg \<longleftrightarrow> page_free s pg \<and> pg \<notin> {unat p div 4096..<unat p div 4096 + c}) \<and>
      unat p + 4096 * c \<le> unat (g_bitmap_base s) + 4096 * n"
proof -
  have inv: "pmm_inv s" and z: "\<not> page_free s 0" using ok by (simp_all add: pmm_ok_def)
  have inv': "pmm_inv s'" using inv c n sp by (rule alloc_spec_inv)
  have "(p = 0 \<longrightarrow> s' = s) \<and> pmm_ok s' \<and> (p \<noteq> 0 \<longrightarrow> unat p mod 4096 = 0 \<and>
      (\<forall>pg \<in> {unat p div 4096..<unat p div 4096 + c}. page_free s pg) \<and>
      (\<forall>pg. page_free s' pg \<longleftrightarrow> page_free s pg \<and> pg \<notin> {unat p div 4096..<unat p div 4096 + c}) \<and>
      unat p + 4096 * c \<le> unat (g_bitmap_base s) + 4096 * n)"
  proof (cases "first_fit (used_frames s) n c")
    case None
    then show ?thesis using sp ok by (simp add: alloc_spec_def)
  next
    case (Some r)
    then have up: "unat p = unat (g_bitmap_base s) + 4096 * r"
      and a: "pmm_abs s' = (pmm_abs s)\<lparr>ft_used := used_frames s \<union> {r..<r + c},
        ft_free := g_free s - of_nat (4096 * c)\<rparr>"
      using sp by (simp_all add: alloc_spec_def)
    have fr: "r + c \<le> n" "{r..<r + c} \<inter> used_frames s = {}"
      using first_fit_bounds(1) [OF inv n c Some] by (simp_all add: free_run_def)
    have P: "unat p div 4096 = page_of_frame s r" using up by (simp add: page_of_frame_def)
    have all: "page_free s pg" if "pg \<in> {unat p div 4096..<unat p div 4096 + c}" for pg
    proof -
      from that obtain j where "j < c" "pg = page_of_frame s (r + j)"
        unfolding P by (auto simp: page_of_frame_def le_iff_add)
      moreover have "r + j \<in> {r..<r + c}" using \<open>j < c\<close> by simp
      then have "r + j \<notin> used_frames s" using fr(2) by blast
      ultimately show ?thesis using fr(1) n by (auto simp: page_free_def intro!: exI [of _ "r + j"])
    qed
    have "p \<noteq> 0"
      using all [of 0] z c by auto
    moreover have frees: "page_free s' pg \<longleftrightarrow> page_free s pg \<and> pg \<notin> {unat p div 4096..<unat p div 4096 + c}" for pg
      unfolding page_free_upd [OF a] P by (auto simp: page_free_def page_of_frame_def)
    moreover have "unat p mod 4096 = 0"
      using up page_multiple [OF pmm_invD(2) [OF inv]] by auto
    ultimately show ?thesis using all fr(1) up z inv' by (auto simp: pmm_ok_def)
  qed
  then show "pmm_ok s'" and "p = 0 \<Longrightarrow> s' = s"
    and "p \<noteq> 0 \<Longrightarrow> unat p mod 4096 = 0 \<and>
      (\<forall>pg \<in> {unat p div 4096..<unat p div 4096 + c}. page_free s pg) \<and>
      (\<forall>pg. page_free s' pg \<longleftrightarrow> page_free s pg \<and> pg \<notin> {unat p div 4096..<unat p div 4096 + c}) \<and>
      unat p + 4096 * c \<le> unat (g_bitmap_base s) + 4096 * n"
    by blast+
qed

locale frame_allocator =
  fixes ok :: "'s \<Rightarrow> bool"
    and alloc :: "'s \<Rightarrow> u64 \<Rightarrow> ('s \<times> u64) option"
    and avail :: "'s \<Rightarrow> nat \<Rightarrow> bool"
  assumes alloc_total: "ok s \<Longrightarrow> c \<noteq> 0 \<Longrightarrow> \<exists>s' p. alloc s c = Some (s', p)"
    and alloc_ok: "ok s \<Longrightarrow> c \<noteq> 0 \<Longrightarrow> alloc s c = Some (s', p) \<Longrightarrow> ok s'"
    and alloc_fail: "ok s \<Longrightarrow> c \<noteq> 0 \<Longrightarrow> alloc s c = Some (s', 0) \<Longrightarrow> s' = s"
    and alloc_aligned: "ok s \<Longrightarrow> c \<noteq> 0 \<Longrightarrow> alloc s c = Some (s', p) \<Longrightarrow> p \<noteq> 0 \<Longrightarrow>
      unat p mod 4096 = 0"
    and alloc_avail: "ok s \<Longrightarrow> c \<noteq> 0 \<Longrightarrow> alloc s c = Some (s', p) \<Longrightarrow> p \<noteq> 0 \<Longrightarrow>
      pg \<in> {unat p div 4096..<unat p div 4096 + unat c} \<Longrightarrow> avail s pg"
    and alloc_takes: "ok s \<Longrightarrow> c \<noteq> 0 \<Longrightarrow> alloc s c = Some (s', p) \<Longrightarrow> p \<noteq> 0 \<Longrightarrow>
      avail s' pg \<longleftrightarrow> avail s pg \<and> pg \<notin> {unat p div 4096..<unat p div 4096 + unat c}"
    and alloc_full: "ok s \<Longrightarrow> alloc s 1 = Some (s', 0) \<Longrightarrow> \<not> avail s pg"
    and alloc_bound: "ok s \<Longrightarrow> avail s pg \<Longrightarrow> pg < 1048576"
begin

text \<open>A client that keeps its pages out of the pool gets pages it does not hold, and still holds
  its own.\<close>

lemma alloc_fresh:
  assumes "ok s" "c \<noteq> 0" "alloc s c = Some (s', p)" "p \<noteq> 0" "\<And>pg. pg \<in> T \<Longrightarrow> \<not> avail s pg"
  shows "{unat p div 4096..<unat p div 4096 + unat c} \<inter> T = {}"
    and "pg \<in> T \<union> {unat p div 4096..<unat p div 4096 + unat c} \<Longrightarrow> \<not> avail s' pg"
  using alloc_avail [OF assms(1-4)] alloc_takes [OF assms(1-4)] assms(5) by blast+

lemma alloc_one_page:
  assumes "ok s" "alloc s 1 = Some (s', p)" "p \<noteq> 0"
  shows "\<exists>f. unat p = 4096 * f \<and> 0 < f \<and> f < 1048576 \<and> avail s f \<and>
    (\<forall>g. avail s' g \<longleftrightarrow> avail s g \<and> g \<noteq> f)"
proof -
  let ?f = "unat p div 4096"
  have one: "(1 :: u64) \<noteq> 0" by simp
  have "unat p = 4096 * ?f" using alloc_aligned [OF assms(1) one assms(2,3)] by auto
  moreover have "unat p \<noteq> 0" using assms(3) by (simp add: unat_eq_0)
  moreover have av: "avail s ?f" using alloc_avail [OF assms(1) one assms(2,3), of ?f] by simp
  moreover have "?f < 1048576" using alloc_bound [OF assms(1) av] .
  moreover have "avail s' g \<longleftrightarrow> avail s g \<and> g \<noteq> ?f" for g
    using alloc_takes [OF assms(1) one assms(2,3), of g] by auto
  ultimately show ?thesis by (metis mult_0_right neq0_conv)
qed

text \<open>Two allocations in a row do not overlap.\<close>

lemma two_allocs_disjoint:
  assumes "ok s" "c \<noteq> 0" "alloc s c = Some (s1, p)" "p \<noteq> 0"
    and "d \<noteq> 0" "alloc s1 d = Some (s2, q)" "q \<noteq> 0"
  shows "{unat p div 4096..<unat p div 4096 + unat c} \<inter>
    {unat q div 4096..<unat q div 4096 + unat d} = {}"
proof -
  have "ok s1" using assms(1-3) by (rule alloc_ok)
  moreover have "\<not> avail s1 pg" if "pg \<in> {unat p div 4096..<unat p div 4096 + unat c}" for pg
    using alloc_takes [OF assms(1-4)] that by blast
  ultimately show ?thesis using alloc_fresh(1) [OF _ assms(5-7)] by blast
qed

end

lemma page_free_bound: "pmm_ok s \<Longrightarrow> page_free s pg \<Longrightarrow> pg < 1048576"
  using pmm_invD(5,8) [of s] by (auto simp: pmm_ok_def page_free_def page_of_frame_def)

lemma pmm_alloc_cases:
  assumes "pmm_ok s" "c \<noteq> 0" "pmm_alloc_frames s c = Some (s', p)"
  shows "alloc_spec s (unat c) (nframes s) s' p" "0 < unat c"
  using pmm_alloc_frames_ok [of s c] assms by (auto simp: pmm_ok_def unat_gt_0)

lemma pmm_alloc_full:
  assumes "pmm_ok s" "pmm_alloc_frames s 1 = Some (s', 0)"
  shows "\<not> page_free s pg"
proof
  assume "page_free s pg"
  then obtain k where k: "k < nframes s" "k \<notin> used_frames s" by (auto simp: page_free_def)
  have inv: "pmm_inv s" and z: "\<not> page_free s 0" using assms(1) by (simp_all add: pmm_ok_def)
  have sp: "alloc_spec s 1 (nframes s) s' 0" using pmm_alloc_cases(1) [OF assms(1) _ assms(2)] by simp
  have "free_run (used_frames s) (nframes s) 1 k" using k by (auto simp: free_run_def)
  then obtain r where r: "first_fit (used_frames s) (nframes s) 1 = Some r"
    using first_fit_None [of 1 "used_frames s" "nframes s"] by (cases "first_fit (used_frames s) (nframes s) 1") auto
  then have "unat (g_bitmap_base s) = 0" "r = 0" using sp by (auto simp: alloc_spec_def)
  moreover have "0 < nframes s \<and> 0 \<notin> used_frames s"
    using first_fit_bounds(1) [OF inv order_refl _ r] \<open>r = 0\<close> by (auto simp: free_run_def)
  ultimately show False using z by (auto simp: page_free_def page_of_frame_def)
qed

interpretation pmm: frame_allocator pmm_ok pmm_alloc_frames page_free
proof unfold_locales
  fix s and c :: u64 assume "pmm_ok s" "c \<noteq> 0"
  then show "\<exists>s' p. pmm_alloc_frames s c = Some (s', p)"
    using pmm_alloc_frames_ok [of s c] by (auto simp: pmm_ok_def)
next
  fix s :: pmm_state and c s' p
  assume a: "pmm_ok s" "c \<noteq> 0" "pmm_alloc_frames s c = Some (s', p)"
  note sp = alloc_pages [OF a(1) pmm_alloc_cases(2) [OF a] order_refl pmm_alloc_cases(1) [OF a]]
  show "pmm_ok s'" by (rule sp)
  assume nz: "p \<noteq> 0"
  show "unat p mod 4096 = 0" using sp(3) [OF nz] by blast
  fix pg
  show "page_free s' pg \<longleftrightarrow> page_free s pg \<and> pg \<notin> {unat p div 4096..<unat p div 4096 + unat c}"
    using sp(3) [OF nz] by blast
  show "page_free s pg" if "pg \<in> {unat p div 4096..<unat p div 4096 + unat c}"
    using sp(3) [OF nz] that by blast
next
  fix s :: pmm_state and c s'
  assume a: "pmm_ok s" "c \<noteq> 0" "pmm_alloc_frames s c = Some (s', 0)"
  show "s' = s"
    using alloc_pages(2) [OF a(1) pmm_alloc_cases(2) [OF a] order_refl pmm_alloc_cases(1) [OF a]] by simp
next
  show "\<And>s s' pg. pmm_ok s \<Longrightarrow> pmm_alloc_frames s 1 = Some (s', 0) \<Longrightarrow> \<not> page_free s pg"
    by (rule pmm_alloc_full)
  show "\<And>s pg. pmm_ok s \<Longrightarrow> page_free s pg \<Longrightarrow> pg < 1048576" by (rule page_free_bound)
qed

section \<open>Runs of the allocator\<close>

text \<open>
  The allocator with the allocations its callers hold: a set of \<open>(page, count)\<close>. A caller frees
  only what it holds, at the address it got; reservations may come at any time.
\<close>

type_synonym holdings = "(nat \<times> nat) set"

inductive pmm_step :: "pmm_state \<times> holdings \<Rightarrow> pmm_state \<times> holdings \<Rightarrow> bool" where
  step_alloc: "c \<noteq> 0 \<Longrightarrow> pmm_alloc_frames s c = Some (s', p) \<Longrightarrow>
     pmm_step (s, L) (s', if p = 0 then L else insert (unat p div 4096, unat c) L)"
| step_alloc_below: "c \<noteq> 0 \<Longrightarrow> pmm_alloc_frames_below s c mx = Some (s', p) \<Longrightarrow>
     pmm_step (s, L) (s', if p = 0 then L else insert (unat p div 4096, unat c) L)"
| step_free: "(unat p div 4096, unat c) \<in> L \<Longrightarrow> unat p mod 4096 = 0 \<Longrightarrow>
     pmm_free_frames s p c = Some s' \<Longrightarrow>
     pmm_step (s, L) (s', L - {(unat p div 4096, unat c)})"
| step_reserve: "unat a + unat n + 4095 < 2 ^ 64 \<Longrightarrow> pmm_reserve s a n = Some s' \<Longrightarrow>
     pmm_step (s, L) (s', L)"

inductive_cases pmm_stepE: "pmm_step (s, L) (s', L')"

definition pages :: "nat \<times> nat \<Rightarrow> nat set" where
  "pages h = {fst h..<fst h + snd h}"

definition holdings_ok :: "pmm_state \<Rightarrow> holdings \<Rightarrow> bool" where
  "holdings_ok s L \<longleftrightarrow> pmm_ok s \<and>
     (\<forall>h \<in> L. 0 < snd h \<and> 0 < fst h \<and> (\<forall>pg \<in> pages h. \<not> page_free s pg)) \<and>
     (\<forall>h \<in> L. \<forall>h' \<in> L. h \<noteq> h' \<longrightarrow> pages h \<inter> pages h' = {})"

lemma holdings_alloc:
  assumes H: "holdings_ok s L" and c: "0 < c" and n: "n \<le> nframes s"
    and sp: "alloc_spec s c n s' p"
  shows "holdings_ok s' (if p = 0 then L else insert (unat p div 4096, c) L)"
proof -
  have ok: "pmm_ok s" using H by (simp add: holdings_ok_def)
  note ap = alloc_pages [OF ok c n sp]
  show ?thesis
  proof (cases "p = 0")
    case True
    then show ?thesis using ap(2) H by simp
  next
    case False
    let ?h = "(unat p div 4096, c)"
    have A: "\<forall>pg \<in> pages ?h. page_free s pg"
      and T: "\<And>pg. page_free s' pg \<longleftrightarrow> page_free s pg \<and> pg \<notin> pages ?h"
      using ap(3) [OF False] by (auto simp: pages_def)
    have new: "pages ?h \<inter> pages h = {}" if "h \<in> L" for h
      using A H that by (fastforce simp: holdings_ok_def)
    have "\<not> page_free s 0" using ok by (simp add: pmm_ok_def)
    then have "0 \<notin> pages ?h" using A by blast
    then have "0 < unat p div 4096" using c by (simp add: pages_def)
    then show ?thesis using False H ap(1) A T new c
      by (auto simp: holdings_ok_def Int_commute)
  qed
qed

lemma holdings_free:
  assumes H: "holdings_ok s L" and h: "(unat p div 4096, unat c) \<in> L"
    and f: "pmm_free_frames s p c = Some s'"
  shows "holdings_ok s' (L - {(unat p div 4096, unat c)})"
proof -
  let ?h = "(unat p div 4096, unat c)"
  have ok: "pmm_inv s" "\<not> page_free s 0" using H by (simp_all add: holdings_ok_def pmm_ok_def)
  let ?F = "if p < g_bitmap_base s then {} else
       {k. k < nframes s \<and> unat p div 4096 \<le> page_of_frame s k \<and>
           page_of_frame s k < unat p div 4096 + unat c}"
  obtain inv': "pmm_inv s'" and a: "pmm_abs s' = (pmm_abs s)\<lparr>ft_used := used_frames s - ?F,
      ft_free := g_free s'\<rparr>"
    using pmm_free_frames_ok [OF ok(1), of p c] f by auto
  have T: "page_free s pg \<or> pg \<in> pages ?h" if "page_free s' pg" for pg
    using that unfolding page_free_upd [OF a]
    by (auto simp: page_free_def pages_def split: if_splits)
  have "0 < unat p div 4096" using H h by (auto simp: holdings_ok_def)
  then have "\<not> page_free s' 0" using T [of 0] ok(2) by (auto simp: pages_def)
  moreover have "\<not> page_free s' pg" if "h' \<in> L" "h' \<noteq> ?h" "pg \<in> pages h'" for h' pg
    using T [of pg] that H h unfolding holdings_ok_def by blast
  ultimately show ?thesis using H inv' by (auto simp: holdings_ok_def pmm_ok_def)
qed

lemma pmm_step_holdings:
  assumes "pmm_step (s, L) (s', L')" "holdings_ok s L"
  shows "holdings_ok s' L'"
  using assms(1)
proof (rule pmm_stepE)
  fix c p
  assume a: "L' = (if p = 0 then L else insert (unat p div 4096, unat c) L)" "c \<noteq> 0"
    "pmm_alloc_frames s c = Some (s', p)"
  have "alloc_spec s (unat c) (nframes s) s' p" "0 < unat c"
    using pmm_alloc_cases [of s c s' p] a assms(2) by (auto simp: holdings_ok_def)
  then show ?thesis unfolding a(1) by (intro holdings_alloc [OF assms(2)]) simp_all
next
  fix c mx p
  assume a: "L' = (if p = 0 then L else insert (unat p div 4096, unat c) L)" "c \<noteq> 0"
    "pmm_alloc_frames_below s c mx = Some (s', p)"
  have "pmm_inv s" using assms(2) by (simp add: holdings_ok_def pmm_ok_def)
  then have "alloc_spec s (unat c) (limit_index s mx) s' p"
    using pmm_alloc_frames_below_ok [of s c mx] a by auto
  moreover have "limit_index s mx \<le> nframes s" by (simp add: limit_index_def)
  moreover have "0 < unat c" using a by (simp add: unat_gt_0)
  ultimately show ?thesis using holdings_alloc [OF assms(2), of "unat c"] a by auto
next
  fix p c
  assume "L' = L - {(unat p div 4096, unat c)}" "(unat p div 4096, unat c) \<in> L"
    "unat p mod 4096 = 0" "pmm_free_frames s p c = Some s'"
  then show ?thesis using holdings_free [OF assms(2)] by auto
next
  fix a n
  assume r: "L' = L" "unat a + unat n < 18446744073709547521" "pmm_reserve s a n = Some s'"
  have ok: "pmm_inv s" "\<not> page_free s 0" using assms(2) by (simp_all add: holdings_ok_def pmm_ok_def)
  obtain inv': "pmm_inv s'" and ab: "pmm_abs s' = (pmm_abs s)\<lparr>ft_used :=
      used_frames s \<union> reserved_frames s a n, ft_free := g_free s'\<rparr>"
    using pmm_reserve_ok [OF ok(1), of a n] r(2,3) by auto
  have "page_free s pg" if "page_free s' pg" for pg
    using that unfolding page_free_upd [OF ab] by (auto simp: page_free_def)
  then show ?thesis using assms(2) inv' r(1) by (auto simp: holdings_ok_def pmm_ok_def)
qed

lemma alloc_below_block:
  assumes "pmm_ok s" "count \<noteq> 0" "pmm_alloc_frames_below s count mx = Some (s', p)" "p \<noteq> 0"
  shows "unat p + 4096 * unat count \<le> unat mx \<and>
    unat p + 4096 * unat count \<le> unat (g_bitmap_limit s) \<and> unat p mod 4096 = 0 \<and>
    (\<forall>pg. unat p div 4096 \<le> pg \<and> pg < unat p div 4096 + unat count \<longrightarrow> page_free s pg \<and> \<not> page_free s' pg)"
proof -
  have inv: "pmm_inv s" using assms(1) by (simp add: pmm_ok_def)
  have sp: "alloc_spec s (unat count) (limit_index s mx) s' p"
    using pmm_alloc_frames_below_ok [OF inv assms(2), of mx] assms(3) by auto
  have c: "0 < unat count" using assms(2) by (simp add: unat_gt_0)
  have n: "limit_index s mx \<le> nframes s" by (simp add: limit_index_def)
  note ap = alloc_pages(3) [OF assms(1) c n sp assms(4)]
  obtain r where "first_fit (used_frames s) (limit_index s mx) (unat count) = Some r"
    using sp assms(4) by (auto simp: alloc_spec_def split: option.splits)
  then have "unat count \<le> limit_index s mx"
    using first_fit_bounds(1) [OF inv n c] by (auto simp: free_run_def)
  then have "unat (g_bitmap_base s) + 4096 * limit_index s mx \<le> unat mx"
    using c by (auto simp: limit_index_def min_def)
  moreover have "unat (g_bitmap_base s) + 4096 * limit_index s mx \<le> unat (g_bitmap_limit s)"
    using n pmm_invD(8) [OF inv] by simp
  ultimately show ?thesis using ap by auto
qed

section \<open>Properties\<close>

text \<open>A small allocator state for the witnesses: four free frames from 1 MiB.\<close>

definition demo_pmm :: pmm_state where
  "demo_pmm = \<lparr>g_regions = [\<lparr>r_base = 0x100000, r_len = 0x4000\<rparr>], g_bitmap_base = 0x100000,
     g_bitmap_limit = 0x104000, g_total_phys = 0x4000, g_total_usable = 0x4000, g_free = 0x4000,
     g_bitmap = Bitmap_Storage, g_bitmap_storage = (\<lambda>_. 0)\<rparr>"

lemma demo_pmm_facts:
  "used_frames demo_pmm = {}" "nframes demo_pmm = 4" "g_bitmap_base demo_pmm = 0x100000"
  "g_free demo_pmm = 0x4000" "pmm_inv demo_pmm" "pmm_ok demo_pmm"
proof -
  show u: "used_frames demo_pmm = {}" by (simp add: demo_pmm_def used_frames_def frame_used_def)
  show n: "nframes demo_pmm = 4" by (simp add: demo_pmm_def nframes_def)
  show "g_bitmap_base demo_pmm = 0x100000" "g_free demo_pmm = 0x4000" by (simp_all add: demo_pmm_def)
  show inv: "pmm_inv demo_pmm"
    using u n by (simp add: pmm_inv_def free_frames_def) (simp add: demo_pmm_def)
  show "pmm_ok demo_pmm" using inv
    by (simp add: pmm_ok_def page_free_def page_of_frame_def) (simp add: demo_pmm_def)
qed

text \<open>
  C1. An allocation of \<open>count\<close> frames returns the lowest address at which \<open>count\<close> consecutive
  frames are free, marks exactly those frames and takes \<open>count\<close> frames off the free bytes; it
  returns 0 and changes nothing when no such run exists, and only then. It never reads or
  writes outside the bitmap, and the invariant is kept.
\<close>

theorem pmm_alloc_frames_first_fit:
  assumes "pmm_inv s" "count \<noteq> 0"
  shows "\<exists>s' p. pmm_alloc_frames s count = Some (s', p) \<and> pmm_inv s' \<and>
    (case first_fit (used_frames s) (nframes s) (unat count) of
       None \<Rightarrow> p = 0 \<and> s' = s
     | Some r \<Rightarrow> unat p = unat (g_bitmap_base s) + 4096 * r \<and>
         used_frames s' = used_frames s \<union> {r..<r + unat count} \<and>
         unat (g_free s') + 4096 * unat count = unat (g_free s) \<and>
         g_bitmap_base s' = g_bitmap_base s \<and> g_bitmap_limit s' = g_bitmap_limit s)"
proof -
  obtain s' p where r: "pmm_alloc_frames s count = Some (s', p)" "pmm_inv s'"
    and sp: "alloc_spec s (unat count) (nframes s) s' p"
    using pmm_alloc_frames_ok [OF assms] by blast
  show ?thesis
  proof (cases "first_fit (used_frames s) (nframes s) (unat count)")
    case None
    then show ?thesis using r sp by (auto simp: alloc_spec_def)
  next
    case (Some q)
    have c: "0 < unat count" using assms(2) by (simp add: unat_gt_0)
    note b = first_fit_bounds [OF assms(1) order_refl c Some]
    have a: "pmm_abs s' = (pmm_abs s)\<lparr>ft_used := used_frames s \<union> {q..<q + unat count},
        ft_free := g_free s - of_nat (4096 * unat count)\<rparr>"
      using sp Some by (simp add: alloc_spec_def)
    note f = pmm_abs_eqD [OF a]
    have "unat (g_free s') = 4096 * (card (free_frames s) - unat count)"
      using pmm_invD(6) [OF r(2)] f free_run_card(1) [OF b(1) order_refl]
      by (simp add: free_frames_def)
    then have "unat (g_free s') + 4096 * unat count = unat (g_free s)"
      using b(3) pmm_invD(6) [OF assms(1)] by simp
    then show ?thesis using r sp Some f(1,4,5) by (simp add: alloc_spec_def)
  qed
qed

theorem pmm_alloc_frames_first_fit_witness:
  "\<exists>s' p. pmm_alloc_frames demo_pmm 2 = Some (s', p) \<and> unat p = 0x100000 \<and>
     used_frames s' = {0, 1} \<and> unat (g_free s') = 0x2000"
proof -
  have "first_fit {} 4 2 = Some 0" by (simp add: first_fit_Some free_run_def)
  moreover have "{0..<2 :: nat} = {0, 1}" by auto
  ultimately show ?thesis
    using pmm_alloc_frames_first_fit [of demo_pmm 2] by (auto simp: demo_pmm_facts)
qed

text \<open>
  C2. Freeing what an allocation returned restores the allocator: the same frames are in use
  and the free bytes are what they were.
\<close>

theorem pmm_alloc_free_roundtrip:
  assumes "pmm_ok s" "count \<noteq> 0" "pmm_alloc_frames s count = Some (s', p)" "p \<noteq> 0"
  shows "\<exists>s''. pmm_free_frames s' p count = Some s'' \<and> pmm_abs s'' = pmm_abs s"
proof -
  have inv: "pmm_inv s" using assms(1) by (simp add: pmm_ok_def)
  note sp = pmm_alloc_cases [OF assms(1-3)]
  obtain q where Some: "first_fit (used_frames s) (nframes s) (unat count) = Some q"
    using sp assms(4) by (auto simp: alloc_spec_def split: option.splits)
  then have up: "unat p = unat (g_bitmap_base s) + 4096 * q"
    and a: "pmm_abs s' = (pmm_abs s)\<lparr>ft_used := used_frames s \<union> {q..<q + unat count},
      ft_free := g_free s - of_nat (4096 * unat count)\<rparr>"
    using sp by (simp_all add: alloc_spec_def)
  have inv': "pmm_inv s'" using pmm.alloc_ok [OF assms(1-3)] by (simp add: pmm_ok_def)
  have f: "used_frames s' = used_frames s \<union> {q..<q + unat count}"
    "g_bitmap_base s' = g_bitmap_base s" "nframes s' = nframes s"
    using pmm_abs_eqD [OF a] by simp_all
  have fr: "q + unat count \<le> nframes s" "{q..<q + unat count} \<inter> used_frames s = {}"
    using first_fit_bounds(1) [OF inv order_refl sp(2) Some] by (simp_all add: free_run_def)
  have pp: "unat p div 4096 = page_of_frame s' q" using up f(2) by (simp add: page_of_frame_def)
  have ge: "\<not> p < g_bitmap_base s'" using up f(2) by (simp add: word_less_nat_alt)
  have F: "{k. k < nframes s' \<and> unat p div 4096 \<le> page_of_frame s' k \<and>
      page_of_frame s' k < unat p div 4096 + unat count} = {q..<q + unat count}"
    unfolding pp using fr(1) f(3) by (auto simp: page_of_frame_def)
  obtain s'' where r: "pmm_free_frames s' p count = Some s''" and inv'': "pmm_inv s''"
    and a': "pmm_abs s'' = (pmm_abs s')\<lparr>ft_used := used_frames s' - {q..<q + unat count},
      ft_free := g_free s''\<rparr>"
    using pmm_free_frames_ok [OF inv', of p count] ge unfolding F by auto
  have U: "used_frames s' - {q..<q + unat count} = used_frames s" using f(1) fr(2) by blast
  have e: "pmm_abs s'' = (pmm_abs s)\<lparr>ft_used := used_frames s, ft_free := g_free s''\<rparr>"
    using a' a U by simp
  have "used_frames s'' = used_frames s" "nframes s'' = nframes s"
    using pmm_abs_eqD [OF e] by simp_all
  then have "unat (g_free s'') = unat (g_free s)"
    using pmm_invD(6) [OF inv] pmm_invD(6) [OF inv''] by (simp add: free_frames_def)
  then have "g_free s'' = g_free s" by (simp add: word_unat_eq_iff)
  then show ?thesis using r e by (simp add: pmm_abs_refl)
qed

theorem pmm_alloc_free_roundtrip_witness:
  "\<exists>s' p s''. pmm_alloc_frames demo_pmm 3 = Some (s', p) \<and> p \<noteq> 0 \<and>
     pmm_free_frames s' p 3 = Some s'' \<and> pmm_abs s'' = pmm_abs demo_pmm"
proof -
  have ff: "first_fit {} 4 3 = Some 0" by (simp add: first_fit_Some free_run_def)
  obtain s' p where r: "pmm_alloc_frames demo_pmm 3 = Some (s', p)"
    and sp: "alloc_spec demo_pmm 3 4 s' p"
    using pmm_alloc_frames_ok [of demo_pmm 3] by (auto simp: demo_pmm_facts)
  have "unat p = 0x100000" using sp ff by (simp add: alloc_spec_def demo_pmm_facts)
  then have "p \<noteq> 0" by auto
  then show ?thesis
    using pmm_alloc_free_roundtrip [OF demo_pmm_facts(6) _ r] r by auto
qed

text \<open>
  \<open>pmm_alloc_frames_below\<close> keeps its promise: the block it returns ends at or below the
  limit, is page aligned, was free and lies inside the managed range.
\<close>

theorem pmm_alloc_frames_below_limit:
  assumes "pmm_ok s" "count \<noteq> 0" "pmm_alloc_frames_below s count mx = Some (s', p)" "p \<noteq> 0"
  shows "unat p + 4096 * unat count \<le> unat mx \<and>
    unat p + 4096 * unat count \<le> unat (g_bitmap_limit s) \<and> unat p mod 4096 = 0 \<and>
    (\<forall>pg. unat p div 4096 \<le> pg \<and> pg < unat p div 4096 + unat count \<longrightarrow> page_free s pg \<and> \<not> page_free s' pg)"
  using alloc_below_block [OF assms] .

theorem pmm_alloc_frames_below_limit_witness:
  "\<exists>s' p. pmm_alloc_frames_below demo_pmm 2 0x103000 = Some (s', p) \<and> p \<noteq> 0 \<and>
     unat p + 0x2000 \<le> 0x103000"
proof -
  have ff: "first_fit {} 3 2 = Some 0" by (simp add: first_fit_Some free_run_def)
  have li: "limit_index demo_pmm 0x103000 = 3" by (simp add: limit_index_def demo_pmm_facts)
  obtain s' p where r: "pmm_alloc_frames_below demo_pmm 2 0x103000 = Some (s', p)"
    and sp: "alloc_spec demo_pmm 2 3 s' p"
    using pmm_alloc_frames_below_ok [of demo_pmm 2 "0x103000"] li by (auto simp: demo_pmm_facts)
  have "unat p = 0x100000" using sp ff by (simp add: alloc_spec_def demo_pmm_facts)
  then have "p \<noteq> 0" by auto
  then show ?thesis
    using pmm_alloc_frames_below_limit [OF demo_pmm_facts(6) _ r] r by auto
qed

text \<open>
  C3. No memory is handed out twice: in every run of allocations, frees of held blocks and
  reservations, the blocks held are pairwise disjoint, none of their pages is in the pool, and
  the free-byte count stays the number of free frames.
\<close>

theorem pmm_no_double_allocation:
  assumes "pmm_step\<^sup>*\<^sup>* (s0, {}) (s, L)" "pmm_ok s0"
  shows "(\<forall>h \<in> L. \<forall>h' \<in> L. h \<noteq> h' \<longrightarrow> pages h \<inter> pages h' = {}) \<and>
    (\<forall>h \<in> L. \<forall>pg \<in> pages h. \<not> page_free s pg) \<and>
    unat (g_free s) = 4096 * card (free_frames s)"
proof -
  have "holdings_ok s0 {}" using assms(2) by (simp add: holdings_ok_def)
  with assms(1) have "holdings_ok s L"
  proof (induction rule: rtranclp_induct2)
    case refl
    then show ?case .
  next
    case (step s1 L1 s2 L2)
    then show ?case using pmm_step_holdings by blast
  qed
  then show ?thesis using pmm_invD(6) [of s] by (auto simp: holdings_ok_def pmm_ok_def)
qed

theorem pmm_no_double_allocation_witness:
  "\<exists>s L. pmm_step\<^sup>*\<^sup>* (demo_pmm, {}) (s, L) \<and> L \<noteq> {} \<and> unat (g_free s) = 4096 * card (free_frames s)"
proof -
  have ff: "first_fit {} 4 2 = Some 0" by (simp add: first_fit_Some free_run_def)
  obtain s' p where r: "pmm_alloc_frames demo_pmm 2 = Some (s', p)"
    and sp: "alloc_spec demo_pmm 2 4 s' p"
    using pmm_alloc_frames_ok [of demo_pmm 2] by (auto simp: demo_pmm_facts)
  have "unat p = 0x100000" using sp ff by (simp add: alloc_spec_def demo_pmm_facts)
  then have "p \<noteq> 0" by auto
  then have "pmm_step\<^sup>*\<^sup>* (demo_pmm, {}) (s', {(unat p div 4096, unat (2 :: u64))})"
    using step_alloc [OF _ r, of "{}"] by auto
  then show ?thesis using pmm_no_double_allocation [OF _ demo_pmm_facts(6)] by blast
qed

end
