(* ===== verification/Mb2.thy ===== *)
theory Mb2
  imports Phys_Mem
begin

text \<open>
  The Multiboot2 information block (\<open>kernel64/mb2.h\<close>): tag identifiers, the layout of the tags
  the kernel reads, and the iteration over them. A tag is its address in the physical memory;
  a field is a little-endian load at the packed offset of its struct.
\<close>

section \<open>Tag identifiers\<close>

definition MB2_TAG_END :: u32 where "MB2_TAG_END = 0"
definition MB2_TAG_MODULE :: u32 where "MB2_TAG_MODULE = 3"
definition MB2_TAG_BASIC_MEMINFO :: u32 where "MB2_TAG_BASIC_MEMINFO = 4"
definition MB2_TAG_MMAP :: u32 where "MB2_TAG_MMAP = 6"
definition MB2_TAG_FRAMEBUFFER :: u32 where "MB2_TAG_FRAMEBUFFER = 8"
definition MB2_TAG_EFI_MMAP :: u32 where "MB2_TAG_EFI_MMAP = 17"

lemmas mb2_tag_ids = MB2_TAG_END_def MB2_TAG_MODULE_def MB2_TAG_BASIC_MEMINFO_def
  MB2_TAG_MMAP_def MB2_TAG_FRAMEBUFFER_def MB2_TAG_EFI_MMAP_def

section \<open>Fields\<close>

definition tag_type :: "memory \<Rightarrow> u64 \<Rightarrow> u32" where "tag_type m t = load32 m t"
definition tag_size :: "memory \<Rightarrow> u64 \<Rightarrow> u32" where "tag_size m t = load32 m (t + 4)"

text \<open>\<open>mb2_mmap_entry\<close>, at its address.\<close>

record mb2_mmap_entry =
  base_addr :: u64
  length_of :: u64
  entry_type :: u32

definition load_mmap_entry :: "memory \<Rightarrow> u64 \<Rightarrow> mb2_mmap_entry" where
  "load_mmap_entry m e = \<lparr>base_addr = load64 m e, length_of = load64 m (e + 8),
     entry_type = load32 m (e + 16)\<rparr>"

text \<open>\<open>efi_mem_desc\<close>, at its address.\<close>

record efi_mem_desc =
  Type :: u32
  PhysicalStart :: u64
  NumberOfPages :: u64

definition load_efi_mem_desc :: "memory \<Rightarrow> u64 \<Rightarrow> efi_mem_desc" where
  "load_efi_mem_desc m d = \<lparr>Type = load32 m d, PhysicalStart = load64 m (d + 8),
     NumberOfPages = load64 m (d + 24)\<rparr>"

definition desc_size :: "memory \<Rightarrow> u64 \<Rightarrow> u32" where "desc_size m h = load32 m (h + 8)"
definition mem_lower :: "memory \<Rightarrow> u64 \<Rightarrow> u32" where "mem_lower m t = load32 m (t + 8)"
definition mem_upper :: "memory \<Rightarrow> u64 \<Rightarrow> u32" where "mem_upper m t = load32 m (t + 12)"

text \<open>\<open>mb2_tag_framebuffer\<close>, the fields common to all types.\<close>

definition framebuffer_addr :: "memory \<Rightarrow> u64 \<Rightarrow> u64" where "framebuffer_addr m t = load64 m (t + 8)"
definition framebuffer_pitch :: "memory \<Rightarrow> u64 \<Rightarrow> u32" where "framebuffer_pitch m t = load32 m (t + 16)"
definition framebuffer_width :: "memory \<Rightarrow> u64 \<Rightarrow> u32" where "framebuffer_width m t = load32 m (t + 20)"
definition framebuffer_height :: "memory \<Rightarrow> u64 \<Rightarrow> u32" where "framebuffer_height m t = load32 m (t + 24)"
definition framebuffer_bpp :: "memory \<Rightarrow> u64 \<Rightarrow> u8" where "framebuffer_bpp m t = m (t + 28)"
definition framebuffer_type :: "memory \<Rightarrow> u64 \<Rightarrow> u8" where "framebuffer_type m t = m (t + 29)"

definition mb2_mod_start :: "memory \<Rightarrow> u64 \<Rightarrow> u64" where
  "mb2_mod_start m t = ucast (load32 m (t + 8))"

definition mb2_mod_end :: "memory \<Rightarrow> u64 \<Rightarrow> u64" where
  "mb2_mod_end m t = ucast (load32 m (t + 12))"

definition mb2_mod_string :: "u64 \<Rightarrow> u64" where
  "mb2_mod_string t = t + 16"

section \<open>Iteration\<close>

definition mb2_first_tag :: "u64 \<Rightarrow> u64" where
  "mb2_first_tag mb2_addr = mb2_addr + 8"

definition mb2_next_tag :: "memory \<Rightarrow> u64 \<Rightarrow> u64" where
  "mb2_next_tag m t = (t + ucast (tag_size m t) + 7) AND NOT 7"

definition mb2_efi_first_desc :: "u64 \<Rightarrow> u64" where
  "mb2_efi_first_desc h = h + 16"

definition mb2_efi_desc_count :: "memory \<Rightarrow> u64 \<Rightarrow> u32" where
  "mb2_efi_desc_count m h =
     (if desc_size m h = 0 then 0 else (tag_size m h - 16) div desc_size m h)"

text \<open>A tag of at least one byte that does not end past the address space moves the iteration
  forward; a tag of size 0 at an aligned address is its own successor.\<close>

lemma mb2_next_tag_advances:
  assumes "0 < unat (tag_size m t)" "unat t + unat (tag_size m t) + 7 < 2 ^ 64"
  shows "unat t < unat (mb2_next_tag m t)"
proof -
  let ?n = "unat (tag_size m t)"
  have z: "unat (ucast (tag_size m t) :: u64) = ?n" by simp
  have "unat (t + ucast (tag_size m t)) = unat t + ?n"
    using assms(2) z by (subst unat_add_small) simp_all
  then have "unat (t + ucast (tag_size m t) + 7) = unat t + ?n + 7"
    using assms(2) by (subst unat_add_small) simp_all
  then show ?thesis using assms(1) by (simp add: mb2_next_tag_def word_nat)
qed

lemma mb2_next_tag_zero_size:
  assumes "tag_size m t = 0" "unat t mod 8 = 0"
  shows "mb2_next_tag m t = t"
proof -
  have "unat t + unat (7 :: u64) < 2 ^ 64"
    using assms(2) u64_bound [of t] by simp presburger
  then have "unat (t + 7) = unat t + 7" by (subst unat_add_small) simp_all
  then have "unat (mb2_next_tag m t) = unat t"
    using assms by (simp add: mb2_next_tag_def word_nat) presburger
  then show ?thesis by (simp add: word_unat_eq_iff)
qed

end
