(* ===== verification/Pmm_Init.thy ===== *)
theory Pmm_Init
  imports Pmm_Correct Mb2
begin

text \<open>
  Initialisation of the frame allocator (\<open>kernel/mm/pmm.c\<close>): the region list built from the
  Multiboot2 memory map, the bounds of the bitmap, and \<open>pmm_init\<close>. The loops over tags and over
  map entries follow sizes found in memory and may not end on a malformed block (a tag or an
  entry of size 0); they are partial functions, and not returning is \<open>None\<close>.
\<close>

section \<open>The region list\<close>

definition GIB4 :: u64 where "GIB4 = 4 * 1024 * 1024 * 1024"

definition add_region :: "pmm_state \<Rightarrow> u64 \<Rightarrow> u64 \<Rightarrow> pmm_state" where
  "add_region s rbase rlen =
     (if rlen = 0 \<or> length (g_regions s) \<ge> MAX_REGIONS then s
      else
        let cap = GIB4
        in if rbase \<ge> cap then s
           else
             let end0 = rbase + rlen;
                 rend = (if end0 > cap then cap else end0)
             in if rend \<le> rbase then s
                else s\<lparr>g_regions := g_regions s @ [\<lparr>r_base = rbase, r_len = rend - rbase\<rparr>]\<rparr>)"

text \<open>A usable range of the memory map, shrunk to whole frames.\<close>

definition add_usable :: "pmm_state \<Rightarrow> u64 \<Rightarrow> u64 \<Rightarrow> pmm_state" where
  "add_usable s start bytes =
     (let rs = align_up start PMM_FRAME_SIZE;
          rend = align_down (start + bytes) PMM_FRAME_SIZE
      in add_region s rs (if rend > rs then rend - rs else 0))"

function efi_desc_loop :: "memory \<Rightarrow> pmm_state \<Rightarrow> u64 \<Rightarrow> u32 \<Rightarrow> u32 \<Rightarrow> u32 \<Rightarrow> pmm_state" where
  "efi_desc_loop m s ep esize i count =
     (if i < count
      then
        let d = load_efi_mem_desc m (ep + ucast (i * esize));
            bytes = NumberOfPages d * 4096;
            s' = (if Type d = 7 then add_usable s (PhysicalStart d) bytes else s)
        in efi_desc_loop m s' ep esize (i + 1) count
      else s)"
  by pat_completeness auto
termination
  by (relation "measure (\<lambda>(m, s, ep, esize, i, count). unat count - unat i)")
    (auto simp: loop_up_decreases)

declare efi_desc_loop.simps [simp del]

text \<open>The tag loops: \<open>t < lim\<close> is \<open>(const uint8_t*)t < base + total_size\<close>.\<close>

partial_function (option) efi_tag_loop ::
  "memory \<Rightarrow> u64 \<Rightarrow> pmm_state \<Rightarrow> u64 \<Rightarrow> (pmm_state \<times> bool) option" where
  "efi_tag_loop m lim s t =
     (if t < lim \<and> tag_type m t \<noteq> MB2_TAG_END
      then
        if tag_type m t = MB2_TAG_EFI_MMAP
        then Some (efi_desc_loop m s (mb2_efi_first_desc t) (desc_size m t) 0
               (mb2_efi_desc_count m t), True)
        else efi_tag_loop m lim s (mb2_next_tag m t)
      else Some (s, False))"

partial_function (option) mmap_entry_loop ::
  "memory \<Rightarrow> u64 \<Rightarrow> u32 \<Rightarrow> pmm_state \<Rightarrow> u32 \<Rightarrow> pmm_state option" where
  "mmap_entry_loop m p entry_size s offset =
     (if offset + entry_size \<le> tag_size m p
      then
        let e = load_mmap_entry m (p + ucast offset);
            s' = (if entry_type e = 1 then add_usable s (base_addr e) (length_of e) else s)
        in mmap_entry_loop m p entry_size s' (offset + entry_size)
      else Some s)"

partial_function (option) mmap_tag_loop ::
  "memory \<Rightarrow> u64 \<Rightarrow> pmm_state \<Rightarrow> bool \<Rightarrow> u64 \<Rightarrow> (pmm_state \<times> bool) option" where
  "mmap_tag_loop m lim s saw t =
     (if t < lim \<and> tag_type m t \<noteq> MB2_TAG_END
      then
        if tag_type m t = MB2_TAG_MMAP
        then do {
          s' \<leftarrow> mmap_entry_loop m t (load32 m (t + 8)) s 16;
          mmap_tag_loop m lim s' True (mb2_next_tag m t) }
        else mmap_tag_loop m lim s saw (mb2_next_tag m t)
      else Some (s, saw))"

partial_function (option) meminfo_tag_loop ::
  "memory \<Rightarrow> u64 \<Rightarrow> pmm_state \<Rightarrow> u64 \<Rightarrow> pmm_state option" where
  "meminfo_tag_loop m lim s t =
     (if t < lim \<and> tag_type m t \<noteq> MB2_TAG_END
      then
        if tag_type m t = MB2_TAG_BASIC_MEMINFO
        then
          let upper = ucast (mem_upper m t) * 1024
          in Some (if upper > 0 then add_region s 0x100000 upper else s)
        else meminfo_tag_loop m lim s (mb2_next_tag m t)
      else Some s)"

primrec sum_lens :: "region_t list \<Rightarrow> u64 \<Rightarrow> u64" where
  "sum_lens [] acc = acc"
| "sum_lens (r # rs) acc = sum_lens rs (acc + r_len r)"

definition parse_mb2 :: "memory \<Rightarrow> pmm_state \<Rightarrow> u64 \<Rightarrow> bool \<Rightarrow> pmm_state option" where
  "parse_mb2 m s info from_uefi =
     (if info = 0 then Some s
      else do {
        let total_size = load32 m info;
        let lim = info + ucast total_size;
        let tag = info + 8;
        (s1, saw_efi) \<leftarrow> (if from_uefi then efi_tag_loop m lim s tag else Some (s, False));
        (s2, saw_mmap) \<leftarrow> (if \<not> saw_efi then mmap_tag_loop m lim s1 False tag else Some (s1, False));
        s3 \<leftarrow> (if \<not> saw_efi \<and> \<not> saw_mmap then meminfo_tag_loop m lim s2 tag else Some s2);
        Some (s3\<lparr>g_total_phys := sum_lens (g_regions s3) 0,
                 g_total_usable := sum_lens (g_regions s3) 0\<rparr>) })"

section \<open>The bitmap's bounds\<close>

primrec bounds_loop :: "region_t list \<Rightarrow> u64 \<Rightarrow> u64 \<Rightarrow> u64 \<times> u64" where
  "bounds_loop [] lo hi = (lo, hi)"
| "bounds_loop (r # rs) lo hi =
     (let rbase = r_base r;
          end0 = rbase + r_len r
      in if rbase \<ge> GIB4 then bounds_loop rs lo hi
         else
           let rend = (if end0 > GIB4 then GIB4 else end0)
           in bounds_loop rs (if rbase < lo then rbase else lo) (if rend > hi then rend else hi))"

function clear_bytes :: "pmm_state \<Rightarrow> u64 \<Rightarrow> u64 \<Rightarrow> pmm_state option" where
  "clear_bytes s i n =
     (if i < n then do { s' \<leftarrow> bitmap_store s i 0; clear_bytes s' (i + 1) n } else Some s)"
  by pat_completeness auto
termination
  by (relation "measure (\<lambda>(s, i, n). unat n - unat i)") (auto simp: loop_up_decreases)

declare clear_bytes.simps [simp del]

definition build_bitmap_bounds :: "pmm_state \<Rightarrow> pmm_state option" where
  "build_bitmap_bounds s =
     (if g_regions s = [] then Some (s\<lparr>g_bitmap_base := 0, g_bitmap_limit := 0\<rparr>)
      else
        let (lo, hi) = bounds_loop (g_regions s) (- 1) 0
        in if hi \<le> lo then Some (s\<lparr>g_bitmap_base := 0, g_bitmap_limit := 0\<rparr>)
           else
             let max_cover = PMM_MAX_FRAMES * PMM_FRAME_SIZE;
                 limit = (if hi - lo > max_cover then lo + max_cover else hi);
                 s' = s\<lparr>g_bitmap_base := lo, g_bitmap_limit := limit, g_bitmap := Bitmap_Storage\<rparr>;
                 frames = (limit - lo) div PMM_FRAME_SIZE
             in clear_bytes s' 0 ((frames + 7) div 8))"

section \<open>Initialisation\<close>

primrec free_regions :: "region_t list \<Rightarrow> pmm_state \<Rightarrow> u64 \<Rightarrow> (pmm_state \<times> u64) option" where
  "free_regions [] s usable = Some (s, usable)"
| "free_regions (r # rs) s usable =
     (let start0 = r_base r;
          end0 = r_base r + r_len r;
          reg_start = (if start0 < g_bitmap_base s then g_bitmap_base s else start0);
          reg_end = (if end0 > g_bitmap_limit s then g_bitmap_limit s else end0)
      in if reg_end > reg_start
         then do {
           s' \<leftarrow> mark_range s reg_start (reg_end - reg_start) False;
           free_regions rs s' (usable + (reg_end - reg_start)) }
         else free_regions rs s usable)"

definition pmm_reset :: "pmm_state \<Rightarrow> pmm_state" where
  "pmm_reset s = s\<lparr>g_regions := [], g_total_phys := 0, g_total_usable := 0, g_free := 0,
     g_bitmap_base := 0, g_bitmap_limit := 0, g_bitmap := Bitmap_Storage\<rparr>"

definition pmm_init :: "memory \<Rightarrow> pmm_state \<Rightarrow> u64 \<Rightarrow> bool \<Rightarrow> pmm_state option" where
  "pmm_init m s0 info from_uefi = do {
     s1 \<leftarrow> (if info \<noteq> 0 then parse_mb2 m (pmm_reset s0) info from_uefi else Some (pmm_reset s0));
     s2 \<leftarrow> build_bitmap_bounds s1;
     s3 \<leftarrow> mark_range s2 (g_bitmap_base s2) (g_bitmap_limit s2 - g_bitmap_base s2) True;
     (s4, usable_in_range) \<leftarrow> free_regions (g_regions s3) s3 0;
     s5 \<leftarrow> pmm_reserve (s4\<lparr>g_free := usable_in_range\<rparr>) (g_bitmap_base s4) PMM_FRAME_SIZE;
     pmm_reserve s5 0 0x100000 }"

section \<open>The bitmap during initialisation\<close>

text \<open>The geometry part of the allocator's invariant, which holds before the free bytes are set.\<close>

definition pmm_geom :: "pmm_state \<Rightarrow> bool" where
  "pmm_geom s \<longleftrightarrow> pmm_inv (s\<lparr>g_free := of_nat (4096 * card (free_frames s))\<rparr>)"

lemma geom_upd [simp]:
  "nframes (s\<lparr>g_free := f\<rparr>) = nframes s" "free_frames (s\<lparr>g_free := f\<rparr>) = free_frames s"
  "page_of_frame (s\<lparr>g_free := f\<rparr>) k = page_of_frame s k"
  "reserved_frames (s\<lparr>g_free := f\<rparr>) a b = reserved_frames s a b"
  "page_free (s\<lparr>g_free := f\<rparr>) pg = page_free s pg"
  by (simp_all add: nframes_def free_frames_def page_of_frame_def reserved_frames_def page_free_def)

lemma bounds_upd:
  "g_bitmap_base (s\<lparr>g_free := f\<rparr>) = g_bitmap_base s"
  "g_bitmap_limit (s\<lparr>g_free := f\<rparr>) = g_bitmap_limit s"
  by simp_all

lemma free_frames_bound: "card (free_frames s) \<le> nframes s"
  using card_mono [of "{..<nframes s}" "free_frames s"] by (auto simp: free_frames_def)

lemma pmm_geom_iff:
  "pmm_geom s \<longleftrightarrow> g_bitmap s = Bitmap_Storage \<and>
     unat (g_bitmap_base s) mod 4096 = 0 \<and> unat (g_bitmap_limit s) mod 4096 = 0 \<and>
     g_bitmap_base s \<le> g_bitmap_limit s \<and> g_bitmap_limit s \<le> 0x100000000"
proof -
  have "unat (of_nat (4096 * card (free_frames s)) :: u64) = 4096 * card (free_frames s)"
    if "g_bitmap_limit s \<le> 0x100000000"
  proof (rule u64_of_nat_unat)
    have "unat (g_bitmap_limit s) \<le> 4294967296" using that by (simp add: word_le_nat_alt)
    then have "nframes s \<le> 4294967296 div 4096"
      unfolding nframes_def by (intro div_le_mono) simp
    then show "4096 * card (free_frames s) < 18446744073709551616"
      using free_frames_bound [of s] by simp
  qed
  then show ?thesis unfolding pmm_geom_def pmm_inv_def by auto
qed

lemma pmm_geom_mark:
  assumes "pmm_abs s' = (pmm_abs s)\<lparr>ft_used := U\<rparr>"
  shows "pmm_geom s' = pmm_geom s" "nframes s' = nframes s" "page_of_frame s' k = page_of_frame s k"
    "used_frames s' = U" "g_regions s' = g_regions s"
  using pmm_abs_ptr [OF assms] arg_cong [OF assms, of ft_regions]
  by (simp_all add: pmm_geom_iff nframes_def page_of_frame_def)

lemma mark_range_ok:
  assumes g: "pmm_geom s" and nowrap: "unat paddr + unat sz + 4095 < 2 ^ 64" and sz: "sz \<noteq> 0"
  shows "\<exists>s'. mark_range s paddr sz used = Some s' \<and>
    pmm_abs s' = (pmm_abs s)\<lparr>ft_used := (if used then used_frames s \<union> reserved_frames s paddr sz
      else used_frames s - reserved_frames s paddr sz)\<rparr>"
proof -
  let ?f = "s\<lparr>g_free := of_nat (4096 * card (free_frames s))\<rparr>"
  have inv: "pmm_inv ?f" using g by (simp add: pmm_geom_def)
  obtain lo hi where e: "lo = (if align_down paddr PMM_FRAME_SIZE < g_bitmap_base s
      then g_bitmap_base s else align_down paddr PMM_FRAME_SIZE)"
    "hi = (if align_up (paddr + sz) PMM_FRAME_SIZE > g_bitmap_limit s
      then g_bitmap_limit s else align_up (paddr + sz) PMM_FRAME_SIZE)" by blast
  have d: "mark_range s paddr sz used = (if hi \<le> lo then Some s
      else mark_loop s (addr_to_index s lo) (addr_to_index s hi) used)"
    using sz by (simp only: mark_range_def Let_def e if_False)
  note c = clip_range [OF inv nowrap, unfolded geom_upd bounds_upd, OF e]
  show ?thesis
  proof (cases "lo < hi")
    case True
    then obtain k m where km: "k \<le> m" "m \<le> nframes s" "reserved_frames s paddr sz = {k..<m}"
      "lo = g_bitmap_base s + of_nat (4096 * k)" "hi = g_bitmap_base s + of_nat (4096 * m)"
      using c(2) by blast
    have ix: "unat (addr_to_index s (g_bitmap_base s + of_nat (4096 * j))) = j" if "j \<le> nframes s" for j
    proof -
      have u: "unat (g_bitmap_base s + of_nat (4096 * j)) = unat (g_bitmap_base s) + 4096 * j"
        using frame_addr [OF inv, of j] that by simp
      then have "g_bitmap_base s \<le> g_bitmap_base s + of_nat (4096 * j)"
        by (simp add: word_le_nat_alt)
      then show ?thesis
        using addr_to_index_ok [OF inv, of "g_bitmap_base s + of_nat (4096 * j)"] u
        by (simp add: addr_to_index_def)
    qed
    have kl: "unat (addr_to_index s lo) = k" "unat (addr_to_index s hi) = m"
      using ix [of k] ix [of m] km by simp_all
    have n: "nframes s \<le> 1048576" using pmm_invD(7) [OF inv] by simp
    show ?thesis
      using mark_loop_ok [of s "addr_to_index s hi" "addr_to_index s lo" used] g km(2) True n
      unfolding d kl km(3) by (simp add: not_le [symmetric] pmm_geom_iff)
  next
    case False
    have "(pmm_abs s)\<lparr>ft_used := used_frames s\<rparr> = pmm_abs s" by (simp add: pmm_abs_def)
    then show ?thesis using False c(1) by (simp add: d not_less)
  qed
qed

section \<open>Regions as sets of pages\<close>

definition region_pages :: "region_t \<Rightarrow> nat set" where
  "region_pages r = {unat (r_base r) div 4096..<(unat (r_base r) + unat (r_len r)) div 4096}"

text \<open>A region of the list after parsing: whole frames below 4 GiB.\<close>

definition region_ok :: "region_t \<Rightarrow> bool" where
  "region_ok r \<longleftrightarrow> unat (r_base r) mod 4096 = 0 \<and> unat (r_len r) mod 4096 = 0 \<and> r_len r \<noteq> 0 \<and>
     unat (r_base r) + unat (r_len r) \<le> 4294967296"

lemma region_end:
  assumes "region_ok r"
  shows "unat (r_base r + r_len r) = unat (r_base r) + unat (r_len r)"
    "(unat (r_base r) + unat (r_len r)) mod 4096 = 0" "unat (r_base r) < 4294967296"
    "unat (r_base r) < unat (r_base r) + unat (r_len r)"
proof -
  show "unat (r_base r + r_len r) = unat (r_base r) + unat (r_len r)"
    using assms by (subst unat_add_small) (simp_all add: region_ok_def)
  show "(unat (r_base r) + unat (r_len r)) mod 4096 = 0"
    using assms by (simp add: region_ok_def mod_add_eq [symmetric])
  have "0 < unat (r_len r)" using assms by (simp add: region_ok_def unat_gt_0)
  then show "unat (r_base r) < 4294967296" "unat (r_base r) < unat (r_base r) + unat (r_len r)"
    using assms by (simp_all add: region_ok_def)
qed

lemma bounds_loop_ok:
  assumes "\<forall>r \<in> set rs. region_ok r" "bounds_loop rs lo hi = (lo', hi')"
  shows "lo' \<in> insert lo (r_base ` set rs)" "hi' \<in> insert hi ((\<lambda>r. r_base r + r_len r) ` set rs)"
    "lo' \<le> lo" "hi \<le> hi'" "\<forall>r \<in> set rs. lo' \<le> r_base r \<and> r_base r + r_len r \<le> hi'"
proof -
  have "lo' \<in> insert lo (r_base ` set rs) \<and> hi' \<in> insert hi ((\<lambda>r. r_base r + r_len r) ` set rs) \<and>
    lo' \<le> lo \<and> hi \<le> hi' \<and> (\<forall>r \<in> set rs. lo' \<le> r_base r \<and> r_base r + r_len r \<le> hi')"
    using assms
  proof (induction rs arbitrary: lo hi)
    case Nil
    then show ?case by simp
  next
    case (Cons r rs)
    have r: "region_ok r" using Cons.prems by simp
    have b: "\<not> GIB4 \<le> r_base r" "\<not> GIB4 < r_base r + r_len r"
      using region_end [OF r] r
      by (auto simp: GIB4_def word_le_nat_alt word_less_nat_alt region_ok_def)
    let ?lo = "if r_base r < lo then r_base r else lo"
    let ?hi = "if r_base r + r_len r > hi then r_base r + r_len r else hi"
    have "bounds_loop rs ?lo ?hi = (lo', hi')" using Cons.prems(2) b by (simp add: Let_def)
    from Cons.IH [OF _ this] Cons.prems(1) show ?case
      by (auto split: if_splits)
  qed
  then show "lo' \<in> insert lo (r_base ` set rs)" "hi' \<in> insert hi ((\<lambda>r. r_base r + r_len r) ` set rs)"
    "lo' \<le> lo" "hi \<le> hi'" "\<forall>r \<in> set rs. lo' \<le> r_base r \<and> r_base r + r_len r \<le> hi'" by blast+
qed

lemma clear_bytes_ok:
  assumes "g_bitmap s = Bitmap_Storage" "unat n \<le> 131072"
  shows "\<exists>st. clear_bytes s i n = Some (s\<lparr>g_bitmap_storage := st\<rparr>)"
  using assms
proof (induction s i n rule: clear_bytes.induct)
  case (1 s i n)
  show ?case
  proof (cases "i < n")
    case True
    then have "i < PMM_MAX_FRAMES div 8"
      using "1.prems"(2) by (simp add: word_less_nat_alt PMM_MAX_FRAMES_def)
    then have st: "bitmap_store s i 0 = Some (s\<lparr>g_bitmap_storage := (g_bitmap_storage s)(i := 0)\<rparr>)"
      using "1.prems"(1) by (simp add: bitmap_store_def)
    show ?thesis using "1.IH" [OF True st] "1.prems" True
      by (simp add: clear_bytes.simps [of s i n] st)
  next
    case False
    then show ?thesis by (auto simp: clear_bytes.simps [of s i n] intro: exI [of _ "g_bitmap_storage s"])
  qed
qed

definition regions_within :: "pmm_state \<Rightarrow> region_t list \<Rightarrow> bool" where
  "regions_within s rs \<longleftrightarrow> (\<forall>r \<in> set rs. region_ok r \<and> g_bitmap_base s \<le> r_base r \<and>
     r_base r + r_len r \<le> g_bitmap_limit s)"

lemma build_bitmap_bounds_ok:
  assumes rs: "\<forall>r \<in> set (g_regions s). region_ok r" and ptr: "g_bitmap s = Bitmap_Storage"
  shows "\<exists>s'. build_bitmap_bounds s = Some s' \<and> pmm_geom s' \<and> g_regions s' = g_regions s \<and>
    regions_within s' (g_regions s)"
proof (cases "g_regions s = []")
  case True
  then show ?thesis using ptr
    by (simp add: build_bitmap_bounds_def pmm_geom_iff regions_within_def)
next
  case False
  then obtain r where r: "r \<in> set (g_regions s)" by (meson last_in_set)
  obtain lo hi where e: "bounds_loop (g_regions s) (- 1) 0 = (lo, hi)" by fastforce
  note b = bounds_loop_ok [OF rs e]
  have r_end: "unat (r_base r) < unat (r_base r + r_len r)" "unat (r_base r) < 4294967296"
    using region_end [of r] r rs by simp_all
  have "unat lo < 4294967296" using b(5) r r_end(2) by (auto simp: word_le_nat_alt)
  then have "lo \<noteq> - 1" by (auto simp: unsigned_minus_1_eq_mask mask_eq_exp_minus_1)
  then obtain q where q: "q \<in> set (g_regions s)" "lo = r_base q" using b(1) by auto
  have "unat lo < unat hi" using b(5) r r_end(1) by (auto simp: word_le_nat_alt)
  then have lt: "lo < hi" and "hi \<noteq> 0" by (auto simp: word_less_nat_alt)
  then obtain h where h: "h \<in> set (g_regions s)" "hi = r_base h + r_len h" using b(2) by auto
  have al: "unat lo mod 4096 = 0" "unat hi mod 4096 = 0" "unat hi \<le> 4294967296"
    using region_end [of h] rs h q by (auto simp: region_ok_def)
  have sub: "unat (hi - lo) = unat hi - unat lo" using lt by (simp add: unat_sub)
  have nc: "\<not> PMM_MAX_FRAMES * PMM_FRAME_SIZE < hi - lo"
    using sub al(3) by (simp add: pmm_consts word_less_nat_alt)
  let ?s = "s\<lparr>g_bitmap_base := lo, g_bitmap_limit := hi, g_bitmap := Bitmap_Storage\<rparr>"
  let ?n = "((hi - lo) div PMM_FRAME_SIZE + 7) div 8"
  have d: "unat ((hi - lo) div PMM_FRAME_SIZE) \<le> 1048576"
    using sub al(3) by (simp add: pmm_consts unat_div)
  then have "unat ((hi - lo) div PMM_FRAME_SIZE + 7) = unat ((hi - lo) div PMM_FRAME_SIZE) + 7"
    by (subst unat_add_small) simp_all
  then have "unat ?n \<le> 131072" using d by (simp add: unat_div)
  then obtain st where c: "clear_bytes ?s 0 ?n = Some (?s\<lparr>g_bitmap_storage := st\<rparr>)"
    using clear_bytes_ok [of ?s ?n 0] by auto
  have "build_bitmap_bounds s = clear_bytes ?s 0 ?n"
    using False lt nc by (auto simp: build_bitmap_bounds_def e Let_def)
  moreover have "pmm_geom (?s\<lparr>g_bitmap_storage := st\<rparr>)"
    using al lt by (simp add: pmm_geom_iff word_le_nat_alt word_less_nat_alt)
  ultimately show ?thesis using c b(5) rs by (simp add: regions_within_def)
qed

lemma region_frames:
  assumes g: "pmm_geom s" and w: "regions_within s [r]"
  shows "reserved_frames s (r_base r) (r_len r) = {k. k < nframes s \<and> page_of_frame s k \<in> region_pages r}"
    and "unat (r_len r) = 4096 * card {k. k < nframes s \<and> page_of_frame s k \<in> region_pages r}"
    and "pg \<in> region_pages r \<Longrightarrow> \<exists>k < nframes s. pg = page_of_frame s k"
proof -
  have r: "region_ok r" and lo: "unat (g_bitmap_base s) \<le> unat (r_base r)"
    and hi: "unat (r_base r) + unat (r_len r) \<le> unat (g_bitmap_limit s)"
    using w region_end(1) [of r] by (auto simp: regions_within_def word_le_nat_alt)
  obtain b where b: "unat (g_bitmap_base s) = 4096 * b"
    using page_multiple [of "unat (g_bitmap_base s)"] g by (auto simp: pmm_geom_iff)
  obtain l where l: "unat (g_bitmap_limit s) = 4096 * l"
    using page_multiple [of "unat (g_bitmap_limit s)"] g by (auto simp: pmm_geom_iff)
  obtain p where p: "unat (r_base r) = 4096 * p"
    using page_multiple [of "unat (r_base r)"] r by (auto simp: region_ok_def)
  obtain c where c: "unat (r_len r) = 4096 * c"
    using page_multiple [of "unat (r_len r)"] r by (auto simp: region_ok_def)
  have n: "nframes s = l - b" using b l by (simp add: nframes_def)
  have bp: "b \<le> p" "p + c \<le> l" using lo hi b l p c by simp_all
  have "(4096 * p + 4096 * c + 4095) div 4096 = p + c"
    unfolding distrib_left [symmetric] by simp
  then show "reserved_frames s (r_base r) (r_len r) =
      {k. k < nframes s \<and> page_of_frame s k \<in> region_pages r}"
    using p c by (simp add: reserved_frames_def region_pages_def)
  have "{k. k < nframes s \<and> page_of_frame s k \<in> region_pages r} = {p - b..<p - b + c}"
    unfolding n using b p c bp by (auto simp: page_of_frame_def region_pages_def)
  then show "unat (r_len r) = 4096 * card {k. k < nframes s \<and> page_of_frame s k \<in> region_pages r}"
    using c by simp
  show "\<exists>k < nframes s. pg = page_of_frame s k" if "pg \<in> region_pages r"
    using that bp unfolding n
    by (intro exI [of _ "pg - b"]) (auto simp: region_pages_def page_of_frame_def b p c)
qed

lemma free_regions_ok:
  assumes "pmm_geom s" "regions_within s rs" "unat usable = 4096 * card (free_frames s)"
    and "\<forall>r \<in> set rs. \<forall>pg \<in> region_pages r. \<not> page_free s pg"
    and "pairwise disjnt (set (map region_pages rs))" "distinct (map region_pages rs)"
  shows "\<exists>s' u. free_regions rs s usable = Some (s', u) \<and> pmm_abs s' = (pmm_abs s)\<lparr>ft_used :=
      used_frames s - {k. k < nframes s \<and> (\<exists>r \<in> set rs. page_of_frame s k \<in> region_pages r)}\<rparr> \<and>
    unat u = 4096 * card (free_frames s')"
  using assms
proof (induction rs arbitrary: s usable)
  case Nil
  then show ?case by (simp add: pmm_abs_def)
next
  case (Cons r rs)
  let ?K = "{k. k < nframes s \<and> page_of_frame s k \<in> region_pages r}"
  have w: "regions_within s [r]" and r: "region_ok r" using Cons.prems(2) by (simp_all add: regions_within_def)
  note rf = region_frames [OF Cons.prems(1) w]
  have "unat (r_base r) + unat (r_len r) + 4095 < 2 ^ 64" "r_len r \<noteq> 0"
    using r by (simp_all add: region_ok_def)
  then obtain s1 where s1: "mark_range s (r_base r) (r_len r) False = Some s1"
    and a1: "pmm_abs s1 = (pmm_abs s)\<lparr>ft_used := used_frames s - ?K\<rparr>"
    using mark_range_ok [OF Cons.prems(1), of "r_base r" "r_len r" False] rf(1) by auto
  note g1 = pmm_geom_mark [OF a1] and p1 = pmm_abs_ptr [OF a1]
  have K: "?K \<inter> free_frames s = {}"
    using Cons.prems(4) by (auto simp: free_frames_def page_free_def)
  have f1: "free_frames s1 = free_frames s \<union> ?K" using g1 by (auto simp: free_frames_def)
  have c1: "card (free_frames s1) = card (free_frames s) + card ?K"
    unfolding f1 using K by (subst card_Un_disjoint) (auto simp: free_frames_def)
  have u1: "unat (usable + r_len r) = 4096 * card (free_frames s1)"
  proof -
    have "card (free_frames s1) \<le> nframes s1" by (rule free_frames_bound)
    moreover have "nframes s1 \<le> 1048576"
      using Cons.prems(1) g1(1) pmm_invD(7) unfolding pmm_geom_def by fastforce
    ultimately show ?thesis using Cons.prems(3) rf(2) c1 by (subst unat_add_small) simp_all
  qed
  have fresh: "\<forall>q \<in> set rs. \<forall>pg \<in> region_pages q. \<not> page_free s1 pg"
  proof (intro ballI notI)
    fix q pg assume q: "q \<in> set rs" "pg \<in> region_pages q" "page_free s1 pg"
    then obtain k where k: "k < nframes s" "k \<notin> used_frames s - ?K" "pg = page_of_frame s k"
      using g1 by (auto simp: page_free_def)
    have "\<not> page_free s pg" using Cons.prems(4) q by auto
    then have "pg \<in> region_pages r" using k by (auto simp: page_free_def)
    moreover have "disjnt (region_pages r) (region_pages q)"
      using Cons.prems(5,6) q(1) by (auto simp: pairwise_def)
    ultimately show False using q(2) by (auto simp: disjnt_def)
  qed
  have "regions_within s1 rs" using Cons.prems(2) p1 by (simp add: regions_within_def)
  moreover have "pairwise disjnt (set (map region_pages rs))" "distinct (map region_pages rs)"
    using Cons.prems(5,6) by (auto simp: pairwise_def)
  ultimately obtain s' u where s': "free_regions rs s1 (usable + r_len r) = Some (s', u)"
    and a': "pmm_abs s' = (pmm_abs s1)\<lparr>ft_used := used_frames s1 -
      {k. k < nframes s1 \<and> (\<exists>r \<in> set rs. page_of_frame s1 k \<in> region_pages r)}\<rparr>"
    and u': "unat u = 4096 * card (free_frames s')"
    using Cons.IH [of s1 "usable + r_len r"] Cons.prems(1) g1(1) u1 fresh by blast
  have "free_regions (r # rs) s usable = Some (s', u)"
    using s1 s' Cons.prems(2) region_end [OF r]
    by (simp add: regions_within_def Let_def not_less [symmetric] word_less_nat_alt)
  moreover have "used_frames s - ?K - {k. k < nframes s \<and> (\<exists>r \<in> set rs. page_of_frame s k \<in> region_pages r)} =
      used_frames s - {k. k < nframes s \<and> (\<exists>r \<in> set (r # rs). page_of_frame s k \<in> region_pages r)}"
    by auto
  then have "pmm_abs s' = (pmm_abs s)\<lparr>ft_used := used_frames s -
      {k. k < nframes s \<and> (\<exists>r \<in> set (r # rs). page_of_frame s k \<in> region_pages r)}\<rparr>"
    unfolding a' a1 using g1 by simp
  ultimately show ?case using u' by blast
qed

lemma mark_all_used:
  assumes g: "pmm_geom s"
  shows "\<exists>s'. mark_range s (g_bitmap_base s) (g_bitmap_limit s - g_bitmap_base s) True = Some s' \<and>
    pmm_abs s' = (pmm_abs s)\<lparr>ft_used := used_frames s \<union> {..<nframes s}\<rparr>"
proof (cases "g_bitmap_limit s - g_bitmap_base s = 0")
  case True
  then have "nframes s = 0" by (simp add: nframes_def)
  then show ?thesis using True by (simp add: mark_range_def pmm_abs_def)
next
  case False
  have inv: "pmm_inv (s\<lparr>g_free := of_nat (4096 * card (free_frames s))\<rparr>)"
    using g by (simp add: pmm_geom_def)
  note d = pmm_invD [OF inv, simplified]
  have sub: "unat (g_bitmap_limit s - g_bitmap_base s) = 4096 * nframes s"
    using d(4,8) by (simp add: unat_sub word_le_nat_alt)
  obtain b where b: "unat (g_bitmap_base s) = 4096 * b" using page_multiple [OF d(2)] by blast
  have "(4096 * b + 4096 * nframes s + 4095) div 4096 = b + nframes s"
    unfolding distrib_left [symmetric] by simp
  then have "reserved_frames s (g_bitmap_base s) (g_bitmap_limit s - g_bitmap_base s) = {..<nframes s}"
    using b by (auto simp: reserved_frames_def page_of_frame_def sub)
  then show ?thesis using mark_range_ok [OF g _ False, of "g_bitmap_base s" True] sub d(5,8) by simp
qed

lemma reserved_page:
  "k < nframes s \<Longrightarrow> k \<in> reserved_frames s 0 0x100000 \<longleftrightarrow> page_of_frame s k < 256"
  by (simp add: reserved_frames_def)

lemma reserved_base:
  assumes "unat (g_bitmap_base s) mod 4096 = 0" "k < nframes s"
  shows "k \<in> reserved_frames s (g_bitmap_base s) PMM_FRAME_SIZE \<longleftrightarrow> k = 0"
proof -
  obtain b where "unat (g_bitmap_base s) = 4096 * b" using page_multiple [OF assms(1)] by blast
  moreover have "(4096 * b + 4096 + 4095) div 4096 = Suc b" by simp
  ultimately show ?thesis using assms(2)
    by (auto simp: reserved_frames_def page_of_frame_def PMM_FRAME_SIZE_def)
qed

lemma pmm_init_regions:
  assumes ps: "parse_mb2 m (pmm_reset s0) info uefi = Some sp" "g_bitmap sp = Bitmap_Storage"
    and rs: "\<forall>r \<in> set (g_regions sp). region_ok r"
    and dj: "pairwise disjnt (set (map region_pages (g_regions sp)))"
      "distinct (map region_pages (g_regions sp))"
  shows "\<exists>s'. pmm_init m s0 info uefi = Some s' \<and> pmm_inv s' \<and> g_regions s' = g_regions sp \<and>
    (\<forall>pg. page_free s' pg \<longleftrightarrow> (\<exists>r \<in> set (g_regions sp). pg \<in> region_pages r) \<and>
       256 \<le> pg \<and> pg \<noteq> unat (g_bitmap_base s') div 4096)"
proof -
  obtain s2 where s2: "build_bitmap_bounds sp = Some s2" and g2: "pmm_geom s2"
    and r2: "g_regions s2 = g_regions sp" and w2: "regions_within s2 (g_regions sp)"
    using build_bitmap_bounds_ok [OF rs ps(2)] by blast
  obtain s3 where s3: "mark_range s2 (g_bitmap_base s2) (g_bitmap_limit s2 - g_bitmap_base s2) True = Some s3"
    and a3: "pmm_abs s3 = (pmm_abs s2)\<lparr>ft_used := used_frames s2 \<union> {..<nframes s2}\<rparr>"
    using mark_all_used [OF g2] by blast
  note g3 = pmm_geom_mark [OF a3] and p3 = pmm_abs_ptr [OF a3]
  have f3: "free_frames s3 = {}" using g3 by (auto simp: free_frames_def)
  have w3: "regions_within s3 (g_regions sp)" using w2 p3 by (simp add: regions_within_def)
  have pf3: "\<not> page_free s3 pg" for pg using f3 by (auto simp: page_free_def free_frames_def)
  obtain s4 u where s4: "free_regions (g_regions s3) s3 0 = Some (s4, u)"
    and a4: "pmm_abs s4 = (pmm_abs s3)\<lparr>ft_used := used_frames s3 -
      {k. k < nframes s3 \<and> (\<exists>r \<in> set (g_regions sp). page_of_frame s3 k \<in> region_pages r)}\<rparr>"
    and u4: "unat u = 4096 * card (free_frames s4)"
    using free_regions_ok [OF _ w3 _ _ dj, of 0] g3 g2 r2 f3 pf3 by auto
  note g4 = pmm_geom_mark [OF a4] and p4 = pmm_abs_ptr [OF a4]
  have inv4: "pmm_inv (s4\<lparr>g_free := u\<rparr>)"
    using g4(1) g3(1) g2 u4 by (simp add: pmm_geom_iff pmm_inv_def)
  note d4 = pmm_invD [OF inv4, simplified]
  have nw: "unat (g_bitmap_base s4) + unat PMM_FRAME_SIZE + 4095 < 2 ^ 64"
    using d4(4,5) by (simp add: PMM_FRAME_SIZE_def)
  obtain s5 where s5: "pmm_reserve (s4\<lparr>g_free := u\<rparr>) (g_bitmap_base s4) PMM_FRAME_SIZE = Some s5"
    and inv5: "pmm_inv s5" and a5: "pmm_abs s5 = (pmm_abs (s4\<lparr>g_free := u\<rparr>))\<lparr>ft_used :=
      used_frames s4 \<union> reserved_frames s4 (g_bitmap_base s4) PMM_FRAME_SIZE, ft_free := g_free s5\<rparr>"
    using pmm_reserve_ok [OF inv4 nw] by (auto simp del: pmm_abs_free)
  note e5 = pmm_abs_eqD [OF a5, simplified]
  obtain s6 where s6: "pmm_reserve s5 0 0x100000 = Some s6" and inv6: "pmm_inv s6"
    and a6: "pmm_abs s6 = (pmm_abs s5)\<lparr>ft_used := used_frames s5 \<union> reserved_frames s5 0 0x100000,
      ft_free := g_free s6\<rparr>"
    using pmm_reserve_ok [OF inv5, of 0 "0x100000"] by auto
  note e6 = pmm_abs_eqD [OF a6]
  have r: "pmm_init m s0 info uefi = Some s6"
  proof -
    have "(if info \<noteq> 0 then parse_mb2 m (pmm_reset s0) info uefi else Some (pmm_reset s0)) = Some sp"
      using ps(1) by (auto simp: parse_mb2_def)
    then show ?thesis using s2 s3 s4 s5 s6 by (simp add: pmm_init_def)
  qed
  have pg6: "page_free s6 pg \<longleftrightarrow> (\<exists>r \<in> set (g_regions sp). pg \<in> region_pages r) \<and>
       256 \<le> pg \<and> pg \<noteq> unat (g_bitmap_base s6) div 4096" for pg
  proof -
    have n: "nframes s6 = nframes s2" "page_of_frame s6 k = page_of_frame s2 k" for k
      using e6(2,4) e5(2,4) g4(2,3) g3(2,3) p4 p3 by (simp_all add: page_of_frame_def)
    have "k \<in> used_frames s6 \<longleftrightarrow> \<not> (\<exists>r \<in> set (g_regions sp). page_of_frame s2 k \<in> region_pages r) \<or>
        page_of_frame s2 k < 256 \<or> k = 0" if "k < nframes s2" for k
      using that e6(1) e5(1,2) g4(2,3,4) g3(2,3,4) n reserved_page [of k s5] reserved_base [of s4 k] d4(2)
      by (auto simp: e6(2,8))
    moreover have "page_of_frame s2 k = unat (g_bitmap_base s6) div 4096 \<longleftrightarrow> k = 0" for k
      using n(2) [of k] by (auto simp: page_of_frame_def)
    moreover have "\<exists>k < nframes s2. pg = page_of_frame s2 k"
      if "r \<in> set (g_regions sp)" "pg \<in> region_pages r" for r
      using region_frames(3) [OF g2 _ that(2)] w2 that(1) by (auto simp: regions_within_def)
    ultimately show ?thesis unfolding page_free_def n by (metis not_less)
  qed
  have "g_regions s6 = g_regions sp" using e6(6) e5(6) g4(5) g3(5) r2 by simp
  then show ?thesis using r inv6 pg6 by blast
qed

section \<open>Parsing the memory map\<close>

definition region_list_ok :: "region_t list \<Rightarrow> bool" where
  "region_list_ok rs \<longleftrightarrow> length rs \<le> MAX_REGIONS \<and> (\<forall>r \<in> set rs. region_ok r)"

text \<open>What a parsing step may do: change the region list, and keep it well formed.\<close>

definition parse_step :: "pmm_state \<Rightarrow> pmm_state \<Rightarrow> bool" where
  "parse_step s s' \<longleftrightarrow> s' = s\<lparr>g_regions := g_regions s'\<rparr> \<and>
     (region_list_ok (g_regions s) \<longrightarrow> region_list_ok (g_regions s'))"

lemma parse_step_refl [simp]: "parse_step s s"
  by (simp add: parse_step_def)

lemma parse_step_trans [trans]:
  assumes "parse_step s s'" "parse_step s' s''"
  shows "parse_step s s''"
proof -
  have "s'' = s\<lparr>g_regions := g_regions s''\<rparr>"
    using assms unfolding parse_step_def
    by (metis pmm_state.surjective pmm_state.update_convs(1))
  then show ?thesis using assms by (auto simp: parse_step_def)
qed

lemma add_region_shape:
  assumes "unat a + unat n < 2 ^ 64"
  shows "add_region s a n = s \<or> (length (g_regions s) < MAX_REGIONS \<and> n \<noteq> 0 \<and> unat a < 4294967296 \<and>
    (\<exists>l. add_region s a n = s\<lparr>g_regions := g_regions s @ [\<lparr>r_base = a, r_len = l\<rparr>]\<rparr> \<and>
      unat l = min (unat a + unat n) 4294967296 - unat a))"
proof -
  let ?e = "if a + n > GIB4 then GIB4 else a + n"
  have "unat ?e = min (unat a + unat n) 4294967296"
    using unat_clip(1) [of GIB4 "a + n"] unat_add_small [of a n] assms by (simp add: GIB4_def)
  moreover have "unat (?e - a) = unat ?e - unat a" if "\<not> ?e \<le> a"
    using that by (intro unat_sub) simp
  ultimately show ?thesis
    by (auto simp: add_region_def Let_def not_le GIB4_def word_less_nat_alt)
qed

lemma align_down_le: "align_down x PMM_FRAME_SIZE \<le> x"
  by (simp add: word_le_nat_alt align_frame)

lemma add_usable_step: "parse_step s (add_usable s a n)"
proof -
  let ?rs = "align_up a PMM_FRAME_SIZE" and ?re = "align_down (a + n) PMM_FRAME_SIZE"
  have m: "unat ?rs mod 4096 = 0" "unat ?re mod 4096 = 0"
    by (simp_all add: align_up_def align_down_def PMM_FRAME_SIZE_def word_nat)
  show ?thesis
  proof (cases "?rs < ?re")
    case True
    have d: "unat (?re - ?rs) = unat ?re - unat ?rs" using True by (simp add: unat_sub)
    then have s: "unat ?rs + unat (?re - ?rs) = unat ?re" using True by (simp add: word_less_nat_alt)
    have lt: "unat ?rs < unat ?re" using True by (simp add: word_less_nat_alt)
    have al: "(min (unat ?re) 4294967296 - unat ?rs) mod 4096 = 0"
      using m by (auto simp: min_def dvd_eq_mod_eq_0 [symmetric] intro: dvd_diff_nat)
    have "unat ?rs + unat (?re - ?rs) < 2 ^ 64" using s unat_lt_pow [of ?re] by simp
    from add_region_shape [OF this, of s] show ?thesis
    proof (elim disjE conjE exE)
      assume "add_region s ?rs (?re - ?rs) = s"
      then show ?thesis using True by (simp add: add_usable_def Let_def)
    next
      fix l assume l: "length (g_regions s) < MAX_REGIONS" "unat ?rs < 4294967296"
        "add_region s ?rs (?re - ?rs) = s\<lparr>g_regions := g_regions s @ [\<lparr>r_base = ?rs, r_len = l\<rparr>]\<rparr>"
        "unat l = min (unat ?rs + unat (?re - ?rs)) 4294967296 - unat ?rs"
      have "unat l \<noteq> 0" "unat ?rs + unat l \<le> 4294967296" using l(2,4) lt unfolding s by auto
      then have "region_ok \<lparr>r_base = ?rs, r_len = l\<rparr>"
        using m(1) al l(4) unfolding s region_ok_def by auto
      then show ?thesis using True l(1,3)
        by (simp add: add_usable_def Let_def parse_step_def region_list_ok_def)
    qed
  next
    case False
    then show ?thesis by (simp add: add_usable_def Let_def add_region_def)
  qed
qed

lemma efi_desc_loop_step: "parse_step s (efi_desc_loop m s ep esize i count)"
proof (induction m s ep esize i count rule: efi_desc_loop.induct)
  case (1 m s ep esize i count)
  show ?case
  proof (cases "i < count")
    case True
    let ?d = "load_efi_mem_desc m (ep + ucast (i * esize))"
    let ?s = "if Type ?d = 7 then add_usable s (PhysicalStart ?d) (NumberOfPages ?d * 4096) else s"
    have "parse_step s ?s" using add_usable_step by simp
    also have "parse_step ?s (efi_desc_loop m ?s ep esize (i + 1) count)"
      using "1.IH" [OF True refl refl refl] .
    finally show ?thesis using True by (simp add: efi_desc_loop.simps [of m s ep esize i] Let_def)
  qed (simp add: efi_desc_loop.simps)
qed

text \<open>A block whose tags can be walked: the chain of \<open>next\<close> tags reaches the end of the block or
  an end tag, and a memory-map tag has a header and entries of a positive size.\<close>

inductive tag_chain :: "memory \<Rightarrow> u64 \<Rightarrow> u64 \<Rightarrow> bool" for m lim where
  chain_end: "\<not> (t < lim \<and> tag_type m t \<noteq> MB2_TAG_END) \<Longrightarrow> tag_chain m lim t"
| chain_tag: "t < lim \<Longrightarrow> tag_type m t \<noteq> MB2_TAG_END \<Longrightarrow>
    (tag_type m t = MB2_TAG_MMAP \<Longrightarrow> 16 \<le> unat (tag_size m t) \<and> 0 < unat (load32 m (t + 8)) \<and>
       unat (tag_size m t) + unat (load32 m (t + 8)) < 2 ^ 32) \<Longrightarrow>
    tag_chain m lim (mb2_next_tag m t) \<Longrightarrow> tag_chain m lim t"

lemma mmap_entry_loop_step:
  assumes "unat offset \<le> unat (tag_size m p)" "0 < unat es" "unat (tag_size m p) + unat es < 2 ^ 32"
  shows "\<exists>s'. mmap_entry_loop m p es s offset = Some s' \<and> parse_step s s'"
  using assms(1)
proof (induction "unat (tag_size m p) - unat offset" arbitrary: s offset rule: less_induct)
  case less
  have add: "unat (offset + es) = unat offset + unat es"
    using less.prems assms(3) by (subst unat_add_small) simp_all
  show ?case
  proof (cases "offset + es \<le> tag_size m p")
    case True
    let ?e = "load_mmap_entry m (p + ucast offset)"
    let ?s = "if entry_type ?e = 1 then add_usable s (base_addr ?e) (length_of ?e) else s"
    have le: "unat (offset + es) \<le> unat (tag_size m p)" using True by (simp add: word_le_nat_alt)
    have lt: "unat (tag_size m p) - unat (offset + es) < unat (tag_size m p) - unat offset"
      using le assms(2) less.prems unfolding add by linarith
    have "parse_step s ?s" using add_usable_step by simp
    then show ?thesis using less.hyps [OF lt le, of ?s] True
      by (subst mmap_entry_loop.simps) (auto simp: Let_def intro: parse_step_trans)
  next
    case False
    then show ?thesis by (subst mmap_entry_loop.simps) simp
  qed
qed

lemma efi_tag_loop_step:
  assumes "tag_chain m lim t"
  shows "\<exists>s' b. efi_tag_loop m lim s t = Some (s', b) \<and> parse_step s s' \<and> (\<not> b \<longrightarrow> s' = s)"
  using assms
proof induction
  case (chain_end t)
  then have "efi_tag_loop m lim s t = Some (s, False)"
    by (subst efi_tag_loop.simps) (simp only: if_False)
  then show ?case using parse_step_refl by blast
next
  case (chain_tag t)
  show ?case
  proof (cases "tag_type m t = MB2_TAG_EFI_MMAP")
    case True
    then have "efi_tag_loop m lim s t = Some (efi_desc_loop m s (mb2_efi_first_desc t)
        (desc_size m t) 0 (mb2_efi_desc_count m t), True)"
      using chain_tag.hyps(1,2) by (subst efi_tag_loop.simps) simp
    then show ?thesis using efi_desc_loop_step by blast
  next
    case False
    then have "efi_tag_loop m lim s t = efi_tag_loop m lim s (mb2_next_tag m t)"
      using chain_tag.hyps(1,2) by (subst efi_tag_loop.simps) simp
    then show ?thesis using chain_tag.IH by simp
  qed
qed

lemma mmap_tag_loop_step:
  assumes "tag_chain m lim t"
  shows "\<exists>s' b. mmap_tag_loop m lim s saw t = Some (s', b) \<and> parse_step s s' \<and>
    (\<not> b \<longrightarrow> s' = s) \<and> (saw \<longrightarrow> b)"
  using assms
proof (induction arbitrary: s saw)
  case (chain_end t)
  then have "mmap_tag_loop m lim s saw t = Some (s, saw)"
    by (subst mmap_tag_loop.simps) (simp only: if_False)
  then show ?case using parse_step_refl by blast
next
  case (chain_tag t)
  show ?case
  proof (cases "tag_type m t = MB2_TAG_MMAP")
    case True
    have o: "unat (16 :: u32) \<le> unat (tag_size m t)" "0 < unat (load32 m (t + 8))"
      "unat (tag_size m t) + unat (load32 m (t + 8)) < 2 ^ 32"
      using chain_tag.hyps(3) True by auto
    obtain s1 where s1: "mmap_entry_loop m t (load32 m (t + 8)) s 16 = Some s1" "parse_step s s1"
      using mmap_entry_loop_step [OF o] by blast
    obtain s2 b where s2: "mmap_tag_loop m lim s1 True (mb2_next_tag m t) = Some (s2, b)"
      "parse_step s1 s2" "b" using chain_tag.IH [of s1 True] by blast
    have "mmap_tag_loop m lim s saw t = Some (s2, b)" using s1(1) s2(1) chain_tag.hyps(1,2) True
      by (subst mmap_tag_loop.simps) simp
    then show ?thesis using parse_step_trans [OF s1(2) s2(2)] s2(3) by blast
  next
    case False
    then have "mmap_tag_loop m lim s saw t = mmap_tag_loop m lim s saw (mb2_next_tag m t)"
      using chain_tag.hyps(1,2) by (subst mmap_tag_loop.simps) simp
    then show ?thesis using chain_tag.IH by simp
  qed
qed

text \<open>The one region that need not be whole frames: the fallback from the basic memory information.\<close>

definition meminfo_region :: "pmm_state \<Rightarrow> pmm_state \<Rightarrow> bool" where
  "meminfo_region s s' \<longleftrightarrow> (\<exists>l. s' = s\<lparr>g_regions := [\<lparr>r_base = 0x100000, r_len = l\<rparr>]\<rparr> \<and> l \<noteq> 0 \<and>
     0x100000 + unat l \<le> 4294967296)"

lemma meminfo_tag_loop_step:
  assumes "tag_chain m lim t" "g_regions s = []"
  shows "\<exists>s'. meminfo_tag_loop m lim s t = Some s' \<and> (s' = s \<or> meminfo_region s s')"
  using assms(1)
proof induction
  case (chain_end t)
  then have "meminfo_tag_loop m lim s t = Some s"
    by (subst meminfo_tag_loop.simps) (simp only: if_False)
  then show ?case by blast
next
  case (chain_tag t)
  show ?case
  proof (cases "tag_type m t = MB2_TAG_BASIC_MEMINFO")
    case True
    let ?u = "ucast (mem_upper m t) * 1024 :: u64"
    have r: "meminfo_tag_loop m lim s t = Some (if ?u > 0 then add_region s 0x100000 ?u else s)"
      using chain_tag.hyps(1,2) True by (subst meminfo_tag_loop.simps) (simp add: Let_def)
    have "unat ?u = unat (mem_upper m t) * 1024"
      using u32_bound [of "mem_upper m t"] by (subst unat_mult_small) simp_all
    then have b: "unat (0x100000 :: u64) + unat ?u < 2 ^ 64"
      using u32_bound [of "mem_upper m t"] by simp
    show ?thesis
    proof (cases "add_region s 0x100000 ?u = s")
      case False
      then obtain l where l: "?u \<noteq> 0" "add_region s 0x100000 ?u =
          s\<lparr>g_regions := g_regions s @ [\<lparr>r_base = 0x100000, r_len = l\<rparr>]\<rparr>"
        "unat l = min (unat (0x100000 :: u64) + unat ?u) 4294967296 - unat (0x100000 :: u64)"
        using add_region_shape [OF b, of s] by blast
      have "0 < unat ?u" using l(1) by (simp add: unat_gt_0)
      then have "unat l \<noteq> 0" "0x100000 + unat l \<le> 4294967296" using l(3) by auto
      then have "meminfo_region s (add_region s 0x100000 ?u)"
        using l(2) assms(2) by (auto simp: meminfo_region_def)
      then show ?thesis using r by auto
    qed (use r in auto)
  next
    case False
    then have "meminfo_tag_loop m lim s t = meminfo_tag_loop m lim s (mb2_next_tag m t)"
      using chain_tag.hyps(1,2) by (subst meminfo_tag_loop.simps) simp
    then show ?thesis using chain_tag.IH by simp
  qed
qed

lemma parse_mb2_ok:
  assumes ch: "tag_chain m (info + ucast (load32 m info)) (info + 8)" and e: "g_regions s = []"
  shows "\<exists>s1 tp tu. parse_mb2 m s info uefi = Some (s1\<lparr>g_total_phys := tp, g_total_usable := tu\<rparr>) \<and>
    ((parse_step s s1) \<or> meminfo_region s s1) \<and>
    (info \<noteq> 0 \<longrightarrow> tp = sum_lens (g_regions s1) 0 \<and> tu = sum_lens (g_regions s1) 0)"
proof (cases "info = 0")
  case True
  then show ?thesis
    by (intro exI [of _ s] exI [of _ "g_total_phys s"] exI [of _ "g_total_usable s"])
      (simp add: parse_mb2_def)
next
  case False
  let ?lim = "info + ucast (load32 m info)"
  have "\<exists>s1 b1. (if uefi then efi_tag_loop m ?lim s (info + 8) else Some (s, False)) = Some (s1, b1) \<and>
    parse_step s s1 \<and> (\<not> b1 \<longrightarrow> s1 = s)"
  proof (cases uefi)
    case True
    then show ?thesis using efi_tag_loop_step [OF ch, of s] by simp
  next
    case False
    then show ?thesis by (intro exI [of _ s] exI [of _ False]) simp
  qed
  then obtain s1 b1 where s1: "(if uefi then efi_tag_loop m ?lim s (info + 8) else Some (s, False)) = Some (s1, b1)"
    "parse_step s s1" "\<not> b1 \<longrightarrow> s1 = s" by blast
  have "\<exists>s2 b2. (if \<not> b1 then mmap_tag_loop m ?lim s1 False (info + 8) else Some (s1, False)) = Some (s2, b2) \<and>
    parse_step s1 s2 \<and> (\<not> b2 \<longrightarrow> s2 = s1)"
  proof (cases b1)
    case True
    then show ?thesis by (intro exI [of _ s1] exI [of _ False]) simp
  next
    case False
    then show ?thesis using mmap_tag_loop_step [OF ch, of s1 False] by simp
  qed
  then obtain s2 b2 where s2: "(if \<not> b1 then mmap_tag_loop m ?lim s1 False (info + 8) else Some (s1, False)) = Some (s2, b2)"
    "parse_step s1 s2" "\<not> b2 \<longrightarrow> s2 = s1" by blast
  have "\<exists>s3. (if \<not> b1 \<and> \<not> b2 then meminfo_tag_loop m ?lim s2 (info + 8) else Some s2) = Some s3 \<and>
    (s3 = s2 \<or> (s2 = s \<and> meminfo_region s s3))"
  proof (cases "\<not> b1 \<and> \<not> b2")
    case True
    then show ?thesis using meminfo_tag_loop_step [OF ch e] s1(3) s2(3) by auto
  next
    case False
    then show ?thesis by (intro exI [of _ s2]) (simp only: if_False simp_thms)
  qed
  then obtain s3 where s3: "(if \<not> b1 \<and> \<not> b2 then meminfo_tag_loop m ?lim s2 (info + 8) else Some s2) = Some s3"
    "s3 = s2 \<or> (s2 = s \<and> meminfo_region s s3)" by blast
  have "parse_step s s3 \<or> meminfo_region s s3" using s3(2) parse_step_trans [OF s1(2) s2(2)] by auto
  moreover have "parse_mb2 m s info uefi = Some (s3\<lparr>g_total_phys := sum_lens (g_regions s3) 0,
      g_total_usable := sum_lens (g_regions s3) 0\<rparr>)"
    using False s1(1) s2(1) s3(1) by (simp add: parse_mb2_def Let_def)
  ultimately show ?thesis by blast
qed

lemma sum_lens_ok:
  assumes "unat acc + sum_list (map (\<lambda>r. unat (r_len r)) rs) < 2 ^ 64"
  shows "unat (sum_lens rs acc) = unat acc + sum_list (map (\<lambda>r. unat (r_len r)) rs)"
  using assms
proof (induction rs arbitrary: acc)
  case Nil
  then show ?case by simp
next
  case (Cons r rs)
  have "unat (acc + r_len r) = unat acc + unat (r_len r)"
    using Cons.prems by (subst unat_add_small) simp_all
  then show ?case using Cons.IH [of "acc + r_len r"] Cons.prems by simp
qed

lemma parsed_regions:
  assumes "parse_step s s1 \<or> meminfo_region s s1" "g_regions s = []"
  shows "length (g_regions s1) \<le> 64"
    "r \<in> set (g_regions s1) \<Longrightarrow> unat (r_base r) mod 4096 = 0 \<and> r_len r \<noteq> 0 \<and>
       unat (r_base r) + unat (r_len r) \<le> 4294967296 \<and>
       (unat (r_len r) mod 4096 = 0 \<or> g_regions s1 = [r] \<and> r_base r = 0x100000)"
    "g_bitmap s1 = g_bitmap s"
proof -
  have "region_list_ok (g_regions s)" using assms(2) by (simp add: region_list_ok_def)
  then have c: "region_list_ok (g_regions s1) \<or> meminfo_region s s1"
    using assms(1) by (auto simp: parse_step_def)
  show "length (g_regions s1) \<le> 64"
    using c by (auto simp: region_list_ok_def meminfo_region_def MAX_REGIONS_def)
  show "unat (r_base r) mod 4096 = 0 \<and> r_len r \<noteq> 0 \<and>
       unat (r_base r) + unat (r_len r) \<le> 4294967296 \<and>
       (unat (r_len r) mod 4096 = 0 \<or> g_regions s1 = [r] \<and> r_base r = 0x100000)"
    if "r \<in> set (g_regions s1)"
    using c that by (auto simp: region_list_ok_def meminfo_region_def region_ok_def)
  have "s1 = s\<lparr>g_regions := g_regions s1\<rparr>"
    using assms(1) by (auto simp: parse_step_def meminfo_region_def)
  then show "g_bitmap s1 = g_bitmap s" by (metis pmm_state.select_convs(7) pmm_state.surjective pmm_state.update_convs(1))
qed

lemma sum_le_64:
  assumes "length rs \<le> 64" "\<forall>r \<in> set rs. unat (r_len r) \<le> 4294967296"
  shows "sum_list (map (\<lambda>r. unat (r_len r)) rs) < 2 ^ 64"
proof -
  have "sum_list (map (\<lambda>r. unat (r_len r)) rs) \<le> sum_list (map (\<lambda>r. 4294967296) rs)"
    using assms(2) by (intro sum_list_mono) simp
  also have "\<dots> = 4294967296 * length rs" by (simp add: sum_list_triv mult.commute)
  also have "\<dots> < 2 ^ 64" using assms(1) by simp
  finally show ?thesis .
qed

section \<open>Properties\<close>

text \<open>A boot information block at 0x1000 with one memory-map tag: 16 MiB usable from 1 MiB.\<close>

definition demo_mb2 :: memory where
  "demo_mb2 = (\<lambda>_. 0)(0x1000 := 0x38, 0x1008 := 6, 0x100C := 40, 0x1010 := 24,
     0x101A := 0x10, 0x1023 := 1, 0x1028 := 1)"

lemmas demo_mb2_loads = demo_mb2_def mem_access_defs load_le_numeral tag_type_def tag_size_def mb2_next_tag_def
  load_mmap_entry_def mb2_tag_ids

lemma demo_mb2_tags:
  "load32 demo_mb2 0x1000 = 0x38" "tag_type demo_mb2 0x1008 = 6" "tag_size demo_mb2 0x1008 = 40"
  "load32 demo_mb2 0x1010 = 24" "mb2_next_tag demo_mb2 0x1008 = 0x1030" "tag_type demo_mb2 0x1030 = 0"
  "load_mmap_entry demo_mb2 0x1018 = \<lparr>base_addr = 0x100000, length_of = 0x1000000, entry_type = 1\<rparr>"
  by (simp_all add: demo_mb2_loads)

lemma demo_mb2_chain: "tag_chain demo_mb2 (0x1000 + ucast (load32 demo_mb2 0x1000)) (0x1000 + 8)"
proof (rule chain_tag)
  show "tag_chain demo_mb2 (0x1000 + ucast (load32 demo_mb2 0x1000)) (mb2_next_tag demo_mb2 (0x1000 + 8))"
    by (rule chain_end) (simp add: demo_mb2_tags mb2_tag_ids)
qed (simp_all add: demo_mb2_tags mb2_tag_ids)

lemma demo_mb2_parse:
  "parse_mb2 demo_mb2 (pmm_reset demo_pmm) 0x1000 False = Some ((pmm_reset demo_pmm)\<lparr>
     g_regions := [\<lparr>r_base = 0x100000, r_len = 0x1000000\<rparr>], g_total_phys := 0x1000000,
     g_total_usable := 0x1000000\<rparr>)"
proof -
  let ?s = "(pmm_reset demo_pmm)\<lparr>g_regions := [\<lparr>r_base = 0x100000, r_len = 0x1000000\<rparr>]\<rparr>"
  have u: "add_usable (pmm_reset demo_pmm) 0x100000 0x1000000 = ?s"
    by (simp add: add_usable_def add_region_def align_up_def align_down_def PMM_FRAME_SIZE_def
        GIB4_def pmm_reset_def MAX_REGIONS_def)
  have "mmap_entry_loop demo_mb2 0x1008 24 (pmm_reset demo_pmm) 16 =
      mmap_entry_loop demo_mb2 0x1008 24 ?s 40"
    by (subst mmap_entry_loop.simps) (simp add: demo_mb2_tags u)
  also have "\<dots> = Some ?s" by (subst mmap_entry_loop.simps) (simp add: demo_mb2_tags)
  finally have e: "mmap_entry_loop demo_mb2 0x1008 24 (pmm_reset demo_pmm) 16 = Some ?s" .
  have "mmap_tag_loop demo_mb2 0x1038 (pmm_reset demo_pmm) False 0x1008 =
      mmap_tag_loop demo_mb2 0x1038 ?s True 0x1030"
    by (subst mmap_tag_loop.simps) (simp add: demo_mb2_tags mb2_tag_ids e)
  also have "\<dots> = Some (?s, True)"
    by (subst mmap_tag_loop.simps) (simp add: demo_mb2_tags mb2_tag_ids)
  finally show ?thesis by (simp add: parse_mb2_def demo_mb2_tags)
qed

text \<open>
  C4. After \<open>pmm_init\<close> on a boot block whose tags can be walked and whose usable regions are
  whole frames and pairwise disjoint, the allocator's invariant holds and the pool is exactly the
  pages of the usable regions, less the first mebibyte and the first page the bitmap covers.
\<close>

theorem pmm_init_pool:
  assumes "tag_chain m (info + ucast (load32 m info)) (info + 8)"
    and ps: "parse_mb2 m (pmm_reset s0) info from_uefi = Some sp"
    and al: "\<forall>r \<in> set (g_regions sp). unat (r_len r) mod 4096 = 0"
    and dj: "pairwise disjnt (set (map region_pages (g_regions sp)))"
      "distinct (map region_pages (g_regions sp))"
  shows "\<exists>s'. pmm_init m s0 info from_uefi = Some s' \<and> pmm_ok s' \<and> g_regions s' = g_regions sp \<and>
    (\<forall>pg. page_free s' pg \<longleftrightarrow> (\<exists>r \<in> set (g_regions sp). pg \<in> region_pages r) \<and>
       256 \<le> pg \<and> pg \<noteq> unat (g_bitmap_base s') div 4096)"
proof -
  have e: "g_regions (pmm_reset s0) = []" "g_bitmap (pmm_reset s0) = Bitmap_Storage"
    by (simp_all add: pmm_reset_def)
  obtain s1 tp tu where p: "sp = s1\<lparr>g_total_phys := tp, g_total_usable := tu\<rparr>"
    and s1: "parse_step (pmm_reset s0) s1 \<or> meminfo_region (pmm_reset s0) s1"
    using parse_mb2_ok [OF assms(1) e(1), of from_uefi] ps by auto
  note pr = parsed_regions [OF s1 e(1)]
  have "g_bitmap sp = Bitmap_Storage" using pr(3) p e(2) by simp
  moreover have "\<forall>r \<in> set (g_regions sp). region_ok r"
    using pr(2) al p by (simp add: region_ok_def)
  ultimately show ?thesis using pmm_init_regions [OF ps _ _ dj]
    unfolding pmm_ok_def by fastforce
qed

theorem pmm_init_pool_witness:
  "\<exists>s'. pmm_init demo_mb2 demo_pmm 0x1000 False = Some s' \<and> pmm_ok s' \<and> page_free s' 0x101"
proof -
  have pg: "0x101 \<in> region_pages \<lparr>r_base = 0x100000, r_len = 0x1000000\<rparr>"
    by (simp add: region_pages_def)
  obtain s' where s': "pmm_init demo_mb2 demo_pmm 0x1000 False = Some s'" "pmm_ok s'"
    "\<forall>pg. page_free s' pg \<longleftrightarrow> pg \<in> region_pages \<lparr>r_base = 0x100000, r_len = 0x1000000\<rparr> \<and>
       256 \<le> pg \<and> pg \<noteq> unat (g_bitmap_base s') div 4096"
    using pmm_init_pool [OF demo_mb2_chain demo_mb2_parse] by (auto simp: pairwise_def)
  show ?thesis
  proof (cases "page_free s' 0x101")
    case False
    then have b: "unat (g_bitmap_base s') div 4096 = 0x101" using s'(3) pg by simp
    have "0x102 \<in> region_pages \<lparr>r_base = 0x100000, r_len = 0x1000000\<rparr>"
      "0x100 \<in> region_pages \<lparr>r_base = 0x100000, r_len = 0x1000000\<rparr>"
      by (simp_all add: region_pages_def)
    then have "page_free s' 0x100" using s'(3) b by simp
    then obtain k where "(0x100 :: nat) = 0x101 + k" by (auto simp: page_free_def page_of_frame_def b)
    then show ?thesis by simp
  qed (use s' in blast)
qed

text \<open>
  C5. Parsing a boot block whose tags can be walked returns, and records at most 64 regions, each
  non-empty, starting on a frame boundary and ending at or below 4 GiB, in whole frames except
  for the fallback region at 1 MiB; the two totals are the sum of the lengths.
\<close>

theorem parse_mb2_regions:
  assumes "tag_chain m (info + ucast (load32 m info)) (info + 8)" "g_regions s = []" "info \<noteq> 0"
  shows "\<exists>s'. parse_mb2 m s info from_uefi = Some s' \<and> length (g_regions s') \<le> 64 \<and>
    (\<forall>r \<in> set (g_regions s'). unat (r_base r) mod 4096 = 0 \<and> r_len r \<noteq> 0 \<and>
       unat (r_base r) + unat (r_len r) \<le> 4294967296 \<and>
       (unat (r_len r) mod 4096 = 0 \<or> g_regions s' = [r] \<and> r_base r = 0x100000)) \<and>
    unat (pmm_total_bytes s') = sum_list (map (\<lambda>r. unat (r_len r)) (g_regions s')) \<and>
    pmm_total_physical_bytes s' = pmm_total_bytes s'"
proof -
  obtain s1 tp tu where p: "parse_mb2 m s info from_uefi =
      Some (s1\<lparr>g_total_phys := tp, g_total_usable := tu\<rparr>)"
    and s1: "parse_step s s1 \<or> meminfo_region s s1"
    and tt: "tp = sum_lens (g_regions s1) 0" "tu = sum_lens (g_regions s1) 0"
    using parse_mb2_ok [OF assms(1,2), of from_uefi] assms(3) by blast
  note pr = parsed_regions [OF s1 assms(2)]
  have "\<forall>r \<in> set (g_regions s1). unat (r_len r) \<le> 4294967296"
    using pr(2) by fastforce
  then have "unat tu = sum_list (map (\<lambda>r. unat (r_len r)) (g_regions s1))"
    using sum_lens_ok [of 0 "g_regions s1"] sum_le_64 [OF pr(1)] by (simp add: tt)
  then show ?thesis using p pr(1,2)
    by (auto simp: pmm_total_bytes_def pmm_total_physical_bytes_def tt)
qed

theorem parse_mb2_regions_witness:
  "\<exists>s'. parse_mb2 demo_mb2 (pmm_reset demo_pmm) 0x1000 False = Some s' \<and>
     unat (pmm_total_bytes s') = 0x1000000"
proof -
  have "g_regions (pmm_reset demo_pmm) = []" by (simp add: pmm_reset_def)
  then show ?thesis
    using parse_mb2_regions [OF demo_mb2_chain, of "pmm_reset demo_pmm" False]
    by (simp add: demo_mb2_parse)
qed

end
