(* ===== verification/Kmalloc.thy ===== *)
theory Kmalloc
  imports Dex_Prelude
begin

text \<open>
  The early kernel heap of \<open>kernel/mm/kmalloc.c\<close>: a first-fit allocator over a singly linked list
  of blocks, each a 32-byte header followed by its payload. Headers are records in a store indexed
  by address; the invariant places them at least \<open>HEADER_SIZE\<close> apart and outside every payload,
  so that the store of typed headers stands for the bytes. The list walks follow pointers and are
  partial functions: a cyclic list gives \<open>None\<close>.
\<close>

section \<open>State and operations\<close>

record block_header =
  bh_size :: u64
  bh_free :: u32
  bh_next :: u64

record heap_state =
  g_heap_base :: u64
  g_heap_size :: u64
  g_head :: u64
  hdr :: "u64 \<Rightarrow> block_header" \<comment> \<open>the header stored at an address\<close>

definition ALIGN_UP :: "u64 \<Rightarrow> u64 \<Rightarrow> u64" where
  "ALIGN_UP x a = (x + (a - 1)) AND NOT (a - 1)"

text \<open>\<open>sizeof(block_header_t)\<close> is 24 on x86-64.\<close>

definition HEADER_SIZE :: u64 where "HEADER_SIZE = ALIGN_UP 24 16"

definition set_hdr :: "heap_state \<Rightarrow> u64 \<Rightarrow> block_header \<Rightarrow> heap_state" where
  "set_hdr s a h = s\<lparr>hdr := (hdr s)(a := h)\<rparr>"

definition kmalloc_init :: "heap_state \<Rightarrow> u64 \<Rightarrow> u64 \<Rightarrow> heap_state" where
  "kmalloc_init s heap_start heap_size =
     set_hdr (s\<lparr>g_heap_base := heap_start, g_heap_size := heap_size, g_head := heap_start\<rparr>) heap_start
       \<lparr>bh_size = heap_size - HEADER_SIZE, bh_free = 1, bh_next = 0\<rparr>"

definition split_block :: "heap_state \<Rightarrow> u64 \<Rightarrow> u64 \<Rightarrow> heap_state" where
  "split_block s blk asize =
     (let total = bh_size (hdr s blk)
      in if total \<ge> asize + HEADER_SIZE + 16
         then
           let new_hdr = blk + HEADER_SIZE + asize;
               s1 = set_hdr s new_hdr \<lparr>bh_size = total - asize - HEADER_SIZE, bh_free = 1,
                      bh_next = bh_next (hdr s blk)\<rparr>
           in set_hdr s1 blk ((hdr s1 blk)\<lparr>bh_size := asize, bh_next := new_hdr\<rparr>)
         else s)"

text \<open>The \<open>while (cur)\<close> of \<open>kmalloc\<close>; the result is the new state and the returned pointer.\<close>

partial_function (option) kmalloc_loop :: "heap_state \<Rightarrow> u64 \<Rightarrow> u64 \<Rightarrow> (heap_state \<times> u64) option" where
  "kmalloc_loop s asize cur =
     (if cur = 0 then Some (s, 0)
      else if bh_free (hdr s cur) \<noteq> 0 \<and> bh_size (hdr s cur) \<ge> asize
      then
        let s1 = split_block s cur asize;
            s2 = set_hdr s1 cur ((hdr s1 cur)\<lparr>bh_free := 0\<rparr>)
        in Some (s2, cur + HEADER_SIZE)
      else kmalloc_loop s asize (bh_next (hdr s cur)))"

definition kmalloc :: "heap_state \<Rightarrow> u64 \<Rightarrow> (heap_state \<times> u64) option" where
  "kmalloc s sz =
     (if sz = 0 \<or> g_head s = 0 then Some (s, 0)
      else kmalloc_loop s (ALIGN_UP sz 16) (g_head s))"

definition ptr_to_hdr :: "u64 \<Rightarrow> u64" where "ptr_to_hdr p = p - HEADER_SIZE"

partial_function (option) coalesce_loop :: "heap_state \<Rightarrow> u64 \<Rightarrow> heap_state option" where
  "coalesce_loop s cur =
     (if cur \<noteq> 0 \<and> bh_next (hdr s cur) \<noteq> 0
      then
        let c = hdr s cur;
            n = hdr s (bh_next c);
            cur_end = cur + HEADER_SIZE + bh_size c
        in if bh_free c \<noteq> 0 \<and> bh_free n \<noteq> 0 \<and> cur_end = bh_next c
           then coalesce_loop (set_hdr s cur (c\<lparr>bh_size := bh_size c + (HEADER_SIZE + bh_size n),
                  bh_next := bh_next n\<rparr>)) cur
           else coalesce_loop s (bh_next c)
      else Some s)"

definition kfree :: "heap_state \<Rightarrow> u64 \<Rightarrow> heap_state option" where
  "kfree s ptr =
     (if ptr = 0 then Some s
      else
        let h = ptr_to_hdr ptr;
            s1 = set_hdr s h ((hdr s h)\<lparr>bh_free := 1\<rparr>)
        in coalesce_loop s1 (g_head s1))"

definition kmalloc_usable_size :: "heap_state \<Rightarrow> u64 \<Rightarrow> u64" where
  "kmalloc_usable_size s ptr = (if ptr = 0 then 0 else bh_size (hdr s (ptr_to_hdr ptr)))"

section \<open>The heap as a list of blocks\<close>

record blk =
  b_addr :: nat
  b_size :: nat
  b_free :: bool

text \<open>The blocks the list starting at \<open>a\<close> goes through.\<close>

primrec chain :: "(u64 \<Rightarrow> block_header) \<Rightarrow> u64 \<Rightarrow> blk list \<Rightarrow> bool" where
  "chain h a [] \<longleftrightarrow> a = 0"
| "chain h a (b # bs) \<longleftrightarrow> a \<noteq> 0 \<and> b_addr b = unat a \<and> b_size b = unat (bh_size (h a)) \<and>
     b_free b = (bh_free (h a) \<noteq> 0) \<and> chain h (bh_next (h a)) bs"

text \<open>They tile the heap from \<open>p\<close> to \<open>e\<close>, at 16-byte boundaries.\<close>

primrec tiles :: "nat \<Rightarrow> nat \<Rightarrow> blk list \<Rightarrow> bool" where
  "tiles p e [] \<longleftrightarrow> p = e"
| "tiles p e (b # bs) \<longleftrightarrow> b_addr b = p \<and> p mod 16 = 0 \<and> tiles (p + 32 + b_size b) e bs"

definition heap_inv :: "heap_state \<Rightarrow> blk list \<Rightarrow> bool" where
  "heap_inv s bs \<longleftrightarrow> bs \<noteq> [] \<and> chain (hdr s) (g_head s) bs \<and> g_head s = g_heap_base s \<and>
     tiles (unat (g_heap_base s)) (unat (g_heap_base s) + unat (g_heap_size s)) bs \<and>
     unat (g_heap_base s) + unat (g_heap_size s) + 64 \<le> 2 ^ 64"

text \<open>What the operations do to the list of blocks.\<close>

definition split_blk :: "nat \<Rightarrow> blk \<Rightarrow> blk list" where
  "split_blk n b = (if b_size b \<ge> n + 48
     then [b\<lparr>b_size := n, b_free := False\<rparr>,
           \<lparr>b_addr = b_addr b + 32 + n, b_size = b_size b - n - 32, b_free = True\<rparr>]
     else [b\<lparr>b_free := False\<rparr>])"

fun alloc_blocks :: "nat \<Rightarrow> blk list \<Rightarrow> (nat \<times> blk list) option" where
  "alloc_blocks n [] = None"
| "alloc_blocks n (b # bs) =
     (if b_free b \<and> n \<le> b_size b then Some (b_addr b + 32, split_blk n b @ bs)
      else map_option (\<lambda>(p, bs'). (p, b # bs')) (alloc_blocks n bs))"

fun coalesce :: "blk list \<Rightarrow> blk list" where
  "coalesce (b # c # bs) =
     (if b_free b \<and> b_free c then coalesce (b\<lparr>b_size := b_size b + 32 + b_size c\<rparr> # bs)
      else b # coalesce (c # bs))"
| "coalesce bs = bs"

definition mark_free :: "nat \<Rightarrow> blk list \<Rightarrow> blk list" where
  "mark_free p bs = map (\<lambda>b. if b_addr b + 32 = p then b\<lparr>b_free := True\<rparr> else b) bs"

definition free_blocks :: "nat \<Rightarrow> blk list \<Rightarrow> blk list" where
  "free_blocks p bs = coalesce (mark_free p bs)"

definition round16 :: "nat \<Rightarrow> nat" where "round16 n = (n + 15) div 16 * 16"

section \<open>Refinement\<close>

lemma HEADER_SIZE_eq [simp]: "HEADER_SIZE = 32"
  by (simp add: HEADER_SIZE_def ALIGN_UP_def)

lemma hdr_set_hdr [simp]:
  "hdr (set_hdr s a h) = (hdr s)(a := h)" "g_head (set_hdr s a h) = g_head s"
  "g_heap_base (set_hdr s a h) = g_heap_base s" "g_heap_size (set_hdr s a h) = g_heap_size s"
  by (simp_all add: set_hdr_def)

lemma unat_ALIGN_UP16:
  assumes "unat x + 15 < 2 ^ 64"
  shows "unat (ALIGN_UP x 16) = round16 (unat x)"
proof -
  have "unat (x + 15) = unat x + 15" using assms by (subst unat_add_small) simp_all
  then show ?thesis by (simp add: ALIGN_UP_def word_nat round16_def)
qed

lemma tiles_le: "tiles p e bs \<Longrightarrow> p + 32 * length bs + sum_list (map b_size bs) = e"
  by (induction bs arbitrary: p) (simp, force)

lemma tiles_append: "tiles p e (bs @ cs) \<longleftrightarrow> (\<exists>q. tiles p q bs \<and> tiles q e cs)"
  by (induction bs arbitrary: p) auto

lemma tiles_addr:
  assumes "tiles p e bs" "b \<in> set bs"
  shows "p \<le> b_addr b" "b_addr b + 32 + b_size b \<le> e" "b_addr b mod 16 = 0"
  using assms by (induction bs arbitrary: p) (fastforce dest: tiles_le)+

text \<open>A header outside the list can be written without changing the list.\<close>

lemma chain_upd:
  assumes "\<forall>b \<in> set bs. b_addr b \<noteq> unat x"
  shows "chain (h(x := v)) a bs = chain h a bs"
  using assms by (induction bs arbitrary: a) auto

lemma tiles_not_in:
  assumes "tiles p e bs" "n < p"
  shows "\<forall>b \<in> set bs. b_addr b \<noteq> n"
  using tiles_addr(1) [OF assms(1)] assms(2) by fastforce

definition take_block :: "heap_state \<Rightarrow> u64 \<Rightarrow> u64 \<Rightarrow> heap_state" where
  "take_block s cur asize = (let s1 = split_block s cur asize
     in set_hdr s1 cur ((hdr s1 cur)\<lparr>bh_free := 0\<rparr>))"

lemma take_block_other: "take_block s cur asize = s\<lparr>hdr := hdr (take_block s cur asize)\<rparr>"
  by (simp add: take_block_def split_block_def set_hdr_def Let_def)

lemma take_block_ok:
  assumes ch: "chain (hdr s) cur (b # bs)" and ti: "tiles p e (b # bs)" and e: "e + 64 \<le> 2 ^ 64"
    and n: "unat asize = n" "n \<le> b_size b"
  shows "chain (hdr (take_block s cur asize)) cur (split_blk n b @ bs)"
    and "unat a < p \<Longrightarrow> hdr (take_block s cur asize) a = hdr s a"
proof -
  have c: "cur \<noteq> 0" "b_addr b = unat cur" "b_size b = unat (bh_size (hdr s cur))"
    "chain (hdr s) (bh_next (hdr s cur)) bs" using ch by simp_all
  have p: "p = unat cur" "tiles (p + 32 + b_size b) e bs" using ti c(2) by simp_all
  have le: "p + 32 + b_size b \<le> e" using tiles_le [OF p(2)] by simp
  have rest: "\<forall>q \<in> set bs. b_addr q \<noteq> unat cur"
    using tiles_not_in [OF p(2), of "unat cur"] p(1) by simp
  have nw: "unat (asize + 48) = n + 48"
    using n e le by (subst unat_add_small) simp_all
  have th: "asize + 48 \<le> bh_size (hdr s cur) \<longleftrightarrow> n + 48 \<le> b_size b"
    using nw c(3) by (simp add: word_le_nat_alt)
  show "chain (hdr (take_block s cur asize)) cur (split_blk n b @ bs)"
  proof (cases "n + 48 \<le> b_size b")
    case True
    let ?w = "cur + 32 + asize"
    have w: "unat ?w = unat cur + 32 + n"
    proof -
      have "unat (cur + 32) = unat cur + 32" using le e p(1) by (subst unat_add_small) simp_all
      then show ?thesis using le e p(1) n by (subst unat_add_small) simp_all
    qed
    have "unat ?w \<noteq> unat cur" "unat ?w \<noteq> 0" using w by auto
    then have wc: "?w \<noteq> cur" "?w \<noteq> 0" by (metis, metis unat_0)
    have wr: "\<forall>q \<in> set bs. b_addr q \<noteq> unat ?w"
      using tiles_not_in [OF p(2), of "unat ?w"] w p(1) True by simp
    have sz: "unat (bh_size (hdr s cur) - asize - 32) = b_size b - n - 32"
    proof -
      have "unat (bh_size (hdr s cur) - asize) = b_size b - n"
        using c(3) n by (subst unat_sub) (simp_all add: word_le_nat_alt)
      then show ?thesis using True by (subst unat_sub) (simp_all add: word_le_nat_alt)
    qed
    have "hdr (take_block s cur asize) = (hdr s)(?w := \<lparr>bh_size = bh_size (hdr s cur) - asize - 32,
        bh_free = 1, bh_next = bh_next (hdr s cur)\<rparr>, cur := (hdr s cur)\<lparr>bh_size := asize, bh_next := ?w, bh_free := 0\<rparr>)"
      using True th wc by (simp add: take_block_def split_block_def Let_def add.assoc fun_upd_twist)
    then show ?thesis
      using True c wc w sz n rest wr by (simp add: split_blk_def chain_upd)
  next
    case False
    then have "hdr (take_block s cur asize) = (hdr s)(cur := (hdr s cur)\<lparr>bh_free := 0\<rparr>)"
      using th by (simp add: take_block_def split_block_def Let_def add.assoc)
    then show ?thesis using False c rest by (simp add: split_blk_def chain_upd)
  qed
  show "hdr (take_block s cur asize) a = hdr s a" if "unat a < p"
  proof -
    have "a \<noteq> cur" using that p(1) by auto
    moreover have "a \<noteq> cur + 32 + asize" if t: "n + 48 \<le> b_size b"
    proof -
      have "unat (cur + 32) = unat cur + 32" using le e p(1) by (subst unat_add_small) simp_all
      then have "unat (cur + 32 + asize) = unat cur + 32 + n"
        using le e p(1) n t by (subst unat_add_small) simp_all
      then show ?thesis using \<open>unat a < p\<close> p(1) by auto
    qed
    ultimately show ?thesis using th by (simp add: take_block_def split_block_def Let_def add.assoc)
  qed
qed

lemma kmalloc_loop_ok:
  assumes "chain (hdr s) cur bs" "tiles p e bs" "e + 64 \<le> 2 ^ 64" "unat asize = n"
  shows "case alloc_blocks n bs of
      None \<Rightarrow> kmalloc_loop s asize cur = Some (s, 0)
    | Some (q, bs') \<Rightarrow> \<exists>s' w. kmalloc_loop s asize cur = Some (s', w) \<and> unat w = q \<and>
        chain (hdr s') cur bs' \<and> s' = s\<lparr>hdr := hdr s'\<rparr> \<and> (\<forall>a. unat a < p \<longrightarrow> hdr s' a = hdr s a)"
  using assms
proof (induction bs arbitrary: cur p)
  case Nil
  then show ?case by (subst kmalloc_loop.simps) simp
next
  case (Cons b bs)
  have c: "cur \<noteq> 0" "b_addr b = unat cur" "b_size b = unat (bh_size (hdr s cur))"
    "b_free b = (bh_free (hdr s cur) \<noteq> 0)" "chain (hdr s) (bh_next (hdr s cur)) bs"
    using Cons.prems(1) by simp_all
  have p: "p = unat cur" "tiles (p + 32 + b_size b) e bs" using Cons.prems(2) c(2) by simp_all
  have le: "p + 32 + b_size b \<le> e" using tiles_le [OF p(2)] by simp
  have sz: "asize \<le> bh_size (hdr s cur) \<longleftrightarrow> n \<le> b_size b"
    using c(3) Cons.prems(4) by (simp add: word_le_nat_alt)
  show ?case
  proof (cases "b_free b \<and> n \<le> b_size b")
    case True
    have "kmalloc_loop s asize cur = Some (take_block s cur asize, cur + 32)"
      using True c(1,4) sz by (subst kmalloc_loop.simps) (simp add: take_block_def Let_def)
    moreover have "unat (cur + 32) = b_addr b + 32"
      using le Cons.prems(3) p(1) c(2) by (subst unat_add_small) simp_all
    ultimately show ?thesis
      using True take_block_ok [OF Cons.prems(1-4)] take_block_other [of s cur asize] by simp
  next
    case False
    have step: "kmalloc_loop s asize cur = kmalloc_loop s asize (bh_next (hdr s cur))"
      using False c(1,4) sz by (subst kmalloc_loop.simps) auto
    note IH = Cons.IH [OF c(5) p(2) Cons.prems(3,4)]
    show ?thesis
    proof (cases "alloc_blocks n bs")
      case None
      then show ?thesis using False IH step by auto
    next
      case (Some r)
      obtain q bs' where r: "r = (q, bs')" by fastforce
      obtain s' w where s': "kmalloc_loop s asize (bh_next (hdr s cur)) = Some (s', w)" "unat w = q"
        "chain (hdr s') (bh_next (hdr s cur)) bs'" "s' = s\<lparr>hdr := hdr s'\<rparr>"
        "\<forall>a. unat a < p + 32 + b_size b \<longrightarrow> hdr s' a = hdr s a"
        using IH Some r by auto
      have "hdr s' cur = hdr s cur" using s'(5) p(1) by simp
      then have "chain (hdr s') cur (b # bs')" using c s'(3) by simp
      then show ?thesis using False Some r s' step by auto
    qed
  qed
qed

lemma chain_mark_free:
  "chain h a bs \<Longrightarrow> chain (h(x := (h x)\<lparr>bh_free := 1\<rparr>)) a (mark_free (unat x + 32) bs)"
  by (induction bs arbitrary: a) (auto simp: mark_free_def word_unat_eq_iff [symmetric])

lemma coalesce_loop_ok:
  assumes "chain (hdr s) cur bs" "tiles p e bs" "e + 64 \<le> 2 ^ 64"
  shows "\<exists>s'. coalesce_loop s cur = Some s' \<and> chain (hdr s') cur (coalesce bs) \<and>
    s' = s\<lparr>hdr := hdr s'\<rparr> \<and> (\<forall>a. unat a < p \<longrightarrow> hdr s' a = hdr s a)"
  using assms
proof (induction bs arbitrary: s cur p rule: coalesce.induct)
  case (1 b c bs)
  let ?n = "bh_next (hdr s cur)"
  have h: "cur \<noteq> 0" "b_addr b = unat cur" "b_size b = unat (bh_size (hdr s cur))"
    "b_free b = (bh_free (hdr s cur) \<noteq> 0)" "?n \<noteq> 0" "b_addr c = unat ?n"
    "b_size c = unat (bh_size (hdr s ?n))" "b_free c = (bh_free (hdr s ?n) \<noteq> 0)"
    "chain (hdr s) (bh_next (hdr s ?n)) bs" "chain (hdr s) ?n (c # bs)"
    using "1.prems"(1) by simp_all
  have p: "p = unat cur" "unat ?n = p + 32 + b_size b" "tiles (p + 32 + b_size b) e (c # bs)"
    "tiles (p + 64 + b_size b + b_size c) e bs" "p mod 16 = 0"
    using "1.prems"(2) h(2,6) by (simp_all add: algebra_simps)
  have le: "p + 64 + b_size b + b_size c \<le> e" using tiles_le [OF p(4)] by simp
  have adj: "cur + 32 + bh_size (hdr s cur) = ?n"
  proof -
    have "unat (cur + 32) = p + 32" using le "1.prems"(3) p(1) by (subst unat_add_small) simp_all
    then have "unat (cur + 32 + bh_size (hdr s cur)) = unat ?n"
      using le "1.prems"(3) p(2) h(3) by (subst unat_add_small) simp_all
    then show ?thesis by (simp only: word_unat_eq_iff)
  qed
  show ?case
  proof (cases "b_free b \<and> b_free c")
    case True
    let ?h = "(hdr s cur)\<lparr>bh_size := bh_size (hdr s cur) + (HEADER_SIZE + bh_size (hdr s ?n)),
      bh_next := bh_next (hdr s ?n)\<rparr>"
    let ?s = "set_hdr s cur ?h" and ?b = "b\<lparr>b_size := b_size b + 32 + b_size c\<rparr>"
    have sz: "unat (bh_size (hdr s cur) + (32 + bh_size (hdr s ?n))) = b_size b + 32 + b_size c"
    proof -
      have "unat (32 + bh_size (hdr s ?n)) = 32 + b_size c"
        using le "1.prems"(3) h(7) by (subst unat_add_small) simp_all
      then show ?thesis using le "1.prems"(3) h(3) by (subst unat_add_small) simp_all
    qed
    have out: "\<forall>q \<in> set bs. b_addr q \<noteq> unat cur" using tiles_not_in [OF p(4), of "unat cur"] p(1) by simp
    have "chain (hdr ?s) cur (?b # bs)" using h sz by (simp add: chain_upd [OF out])
    moreover have "tiles p e (?b # bs)" using p(1,4,5) h(2) by (simp add: algebra_simps)
    ultimately obtain s' where s': "coalesce_loop ?s cur = Some s'" "chain (hdr s') cur (coalesce (?b # bs))"
      "s' = ?s\<lparr>hdr := hdr s'\<rparr>" "\<forall>a. unat a < p \<longrightarrow> hdr s' a = hdr ?s a"
      using "1.IH"(1) [OF True, of ?s cur p] "1.prems"(3) by blast
    have "coalesce_loop s cur = Some s'"
      using True h(1,4,5,8) adj s'(1) by (subst coalesce_loop.simps) (simp add: Let_def)
    moreover have "\<forall>a. unat a < p \<longrightarrow> hdr s' a = hdr s a" using s'(4) p(1) by auto
    moreover have "s' = s\<lparr>hdr := hdr s'\<rparr>" using s'(3) by (simp add: set_hdr_def)
    ultimately show ?thesis using True s'(2) by auto
  next
    case False
    obtain s' where s': "coalesce_loop s ?n = Some s'" "chain (hdr s') ?n (coalesce (c # bs))"
      "s' = s\<lparr>hdr := hdr s'\<rparr>" "\<forall>a. unat a < p + 32 + b_size b \<longrightarrow> hdr s' a = hdr s a"
      using "1.IH"(2) [OF False h(10) p(3) "1.prems"(3)] by blast
    have "coalesce_loop s cur = Some s'"
      using False h(1,4,5,8) s'(1) by (subst coalesce_loop.simps) (auto simp: Let_def)
    moreover have "hdr s' cur = hdr s cur" using s'(4) p(1) by simp
    ultimately show ?thesis using False h s' by auto
  qed
qed (subst coalesce_loop.simps, simp)+

section \<open>The block lists\<close>

definition live :: "blk list \<Rightarrow> (nat \<times> nat) set" where
  "live bs = {(b_addr b + 32, b_size b) | b. b \<in> set bs \<and> \<not> b_free b}"

abbreviation "coalesced \<equiv> successively (\<lambda>b c. \<not> (b_free b \<and> b_free c))"

lemma live_simps [simp]:
  "live [] = {}" "live (b # bs) = (if b_free b then live bs else insert (b_addr b + 32, b_size b) (live bs))"
  "live (bs @ cs) = live bs \<union> live cs"
  by (auto simp: live_def)

lemma coalesce_live [simp]: "live (coalesce bs) = live bs"
  by (induction bs rule: coalesce.induct) auto

lemma coalesce_tiles: "tiles p e bs \<Longrightarrow> tiles p e (coalesce bs)"
  by (induction bs arbitrary: p rule: coalesce.induct) (auto simp: algebra_simps)

lemma coalesce_hd: "coalesce bs = c # cs \<Longrightarrow> \<exists>b bs'. bs = b # bs' \<and> b_free b = b_free c \<and> b_addr b = b_addr c"
  by (induction bs rule: coalesce.induct) (auto split: if_splits)

lemma coalesce_coalesced: "coalesced (coalesce bs)"
proof (induction bs rule: coalesce.induct)
  case (1 b c bs)
  show ?case
  proof (cases "b_free b \<and> b_free c")
    case False
    then show ?thesis using "1.IH"(2) coalesce_hd [of "c # bs"]
      by (cases "coalesce (c # bs)") auto
  qed (use "1.IH"(1) in simp)
qed simp_all

lemma coalesce_id: "coalesced bs \<Longrightarrow> coalesce bs = bs"
  by (induction bs rule: coalesce.induct) auto

lemma coalesce_Nil [simp]: "coalesce bs = [] \<longleftrightarrow> bs = []"
  by (induction bs rule: coalesce.induct) auto

lemma alloc_blocks_Some:
  "alloc_blocks n bs = Some (q, bs') \<Longrightarrow> \<exists>xs b ys. bs = xs @ b # ys \<and> bs' = xs @ split_blk n b @ ys \<and>
     q = b_addr b + 32 \<and> b_free b \<and> n \<le> b_size b \<and> (\<forall>x \<in> set xs. \<not> (b_free x \<and> n \<le> b_size x))"
proof (induction bs arbitrary: bs')
  case (Cons a bs)
  show ?case
  proof (cases "b_free a \<and> n \<le> b_size a")
    case True
    then show ?thesis using Cons.prems by (intro exI [of _ "[]"]) auto
  next
    case False
    then obtain cs where cs: "alloc_blocks n bs = Some (q, cs)" "bs' = a # cs"
      using Cons.prems by (auto split: if_splits)
    obtain xs b ys where "bs = xs @ b # ys" "cs = xs @ split_blk n b @ ys"
      "q = b_addr b + 32" "b_free b" "n \<le> b_size b" "\<forall>x \<in> set xs. \<not> (b_free x \<and> n \<le> b_size x)"
      using Cons.IH [OF cs(1)] by blast
    then show ?thesis using cs(2) False by (intro exI [of _ "a # xs"]) auto
  qed
qed simp

lemma alloc_blocks_None: "alloc_blocks n bs = None \<longleftrightarrow> (\<forall>b \<in> set bs. \<not> (b_free b \<and> n \<le> b_size b))"
  by (induction bs) auto

lemma split_blk_tiles:
  assumes "tiles p e (b # bs)" "n mod 16 = 0" "n \<le> b_size b"
  shows "tiles p e (split_blk n b @ bs)"
  using assms by (auto simp: split_blk_def algebra_simps mod_add_eq [symmetric])

lemma alloc_blocks_props:
  assumes "alloc_blocks n bs = Some (q, bs')" "tiles p e bs" "n mod 16 = 0"
  shows "tiles p e bs'" "\<exists>m \<ge> n. live bs' = insert (q, m) (live bs)" "p + 32 \<le> q" "q mod 16 = 0"
    "bs' \<noteq> []" "q \<le> e"
proof -
  obtain xs b ys where d: "bs = xs @ b # ys" "bs' = xs @ split_blk n b @ ys" "q = b_addr b + 32"
    "b_free b" "n \<le> b_size b" using alloc_blocks_Some [OF assms(1)] by blast
  show "tiles p e bs'" using assms(2,3) d split_blk_tiles unfolding d(1,2) tiles_append
    by (metis tiles_append)
  show "\<exists>m \<ge> n. live bs' = insert (q, m) (live bs)"
    using d by (auto simp: split_blk_def)
  show "p + 32 \<le> q" "q mod 16 = 0" "q \<le> e"
    using tiles_addr [OF assms(2), of b] d by (simp_all add: mod_add_eq [symmetric])
  show "bs' \<noteq> []" using d by (simp add: split_blk_def)
qed

lemma tiles_disjoint:
  assumes "tiles p e bs" "x \<in> set bs" "y \<in> set bs" "x \<noteq> y"
  shows "b_addr x + 32 + b_size x \<le> b_addr y \<or> b_addr y + 32 + b_size y \<le> b_addr x"
  using assms
proof (induction bs arbitrary: p)
  case (Cons b bs)
  have t: "tiles (p + 32 + b_size b) e bs" "b_addr b = p" using Cons.prems(1) by simp_all
  consider "x = b" "y \<in> set bs" | "y = b" "x \<in> set bs" | "x \<in> set bs" "y \<in> set bs"
    using Cons.prems(2-4) by auto
  then show ?case
  proof cases
    case 1
    then show ?thesis using tiles_addr(1) [OF t(1), of y] t(2) by simp
  next
    case 2
    then show ?thesis using tiles_addr(1) [OF t(1), of x] t(2) by simp
  next
    case 3
    then show ?thesis using Cons.IH [OF t(1)] Cons.prems(4) by blast
  qed
qed simp

lemma live_disjoint:
  assumes "tiles p e bs" "(a, m) \<in> live bs" "(c, k) \<in> live bs" "(a, m) \<noteq> (c, k)"
  shows "a + m + 32 \<le> c \<or> c + k + 32 \<le> a"
proof -
  obtain x y where "x \<in> set bs" "y \<in> set bs" "x \<noteq> y" "a = b_addr x + 32" "m = b_size x"
    "c = b_addr y + 32" "k = b_size y" using assms(2-4) by (auto simp: live_def)
  then show ?thesis using tiles_disjoint [OF assms(1), of x y] by auto
qed

lemma live_in_heap:
  assumes "tiles p e bs" "(a, m) \<in> live bs"
  shows "p + 32 \<le> a" "a + m \<le> e" "a mod 16 = 0"
  using assms tiles_addr [OF assms(1)] by (auto simp: live_def mod_add_eq [symmetric])

lemma mark_free_tiles [simp]: "tiles p e (mark_free q bs) = tiles p e bs"
  by (induction bs arbitrary: p) (auto simp: mark_free_def)

lemma mark_free_live: "live (mark_free q bs) = {x \<in> live bs. fst x \<noteq> q}"
proof (induction bs)
  case Nil
  then show ?case by (simp add: mark_free_def)
next
  case (Cons b bs)
  have "mark_free q (b # bs) = (if b_addr b + 32 = q then b\<lparr>b_free := True\<rparr> else b) # mark_free q bs"
    by (simp add: mark_free_def)
  moreover have "{x \<in> insert y L. fst x \<noteq> q} = (if fst y = q then {x \<in> L. fst x \<noteq> q}
      else insert y {x \<in> L. fst x \<noteq> q})" for y :: "nat \<times> nat" and L
    by auto
  ultimately show ?case using Cons.IH by (cases "b_addr b + 32 = q"; cases "b_free b") simp_all
qed

lemma live_fun:
  assumes "tiles p e bs" "(a, m) \<in> live bs"
  shows "{x \<in> live bs. fst x \<noteq> a} = live bs - {(a, m)}"
proof -
  have "k = m" if "(a, k) \<in> live bs" for k
    using live_disjoint [OF assms that] by fastforce
  then have "fst x \<noteq> a \<longleftrightarrow> x \<noteq> (a, m)" if "x \<in> live bs" for x
    using that by (metis fst_conv prod.collapse)
  then show ?thesis by blast
qed

text \<open>Freeing the block just allocated undoes the allocation in a coalesced heap.\<close>

lemma coalesce_split:
  assumes "coalesced (xs @ b # ys)" "b_free b" "b_free c" "b_free r"
    and "b = c\<lparr>b_size := b_size c + 32 + b_size r\<rparr>"
  shows "coalesce (xs @ c # r # ys) = xs @ b # ys"
  using assms(1)
proof (induction xs)
  case Nil
  have "coalesce (c # r # ys) = coalesce (b # ys)" using assms(3-5) by simp
  then show ?case using Nil coalesce_id [of "b # ys"] by simp
next
  case (Cons x xs)
  have "coalesced (xs @ b # ys)" using Cons.prems by (cases xs) auto
  then show ?case using Cons assms(2-4) by (cases xs) auto
qed

lemma alloc_free_blocks:
  assumes "alloc_blocks n bs = Some (q, bs')" "tiles p e bs" "coalesced bs"
  shows "free_blocks q bs' = bs"
proof -
  obtain xs b ys where d: "bs = xs @ b # ys" "bs' = xs @ split_blk n b @ ys" "q = b_addr b + 32"
    "b_free b" "n \<le> b_size b" using alloc_blocks_Some [OF assms(1)] by blast
  obtain a where a: "tiles p a xs" "tiles a e (b # ys)" using assms(2) d(1) by (auto simp: tiles_append)
  have "\<forall>x \<in> set xs. b_addr x \<noteq> b_addr b"
    using tiles_addr(2) [OF a(1)] a(2) by fastforce
  then have mx: "mark_free q xs = xs" using d(3) by (auto simp: mark_free_def intro!: map_idI)
  have "\<forall>y \<in> set ys. b_addr y \<noteq> b_addr b"
    using a(2) tiles_not_in [of "a + 32 + b_size b" e ys a] by simp
  then have my: "mark_free q ys = ys" using d(3) by (auto simp: mark_free_def intro!: map_idI)
  have split: "mark_free q bs' = xs @ mark_free q (split_blk n b) @ ys"
    using mx my d(2) by (simp add: mark_free_def)
  show ?thesis
  proof (cases "n + 48 \<le> b_size b")
    case True
    let ?c = "b\<lparr>b_size := n, b_free := True\<rparr>"
    let ?r = "\<lparr>b_addr = b_addr b + 32 + n, b_size = b_size b - n - 32, b_free = True\<rparr>"
    have "b = ?c\<lparr>b_size := b_size ?c + 32 + b_size ?r\<rparr>" using True d(4) by (cases b) simp
    from coalesce_split [OF assms(3) [unfolded d(1)] d(4) _ _ this] True d(1,3)
    show ?thesis unfolding free_blocks_def split by (simp add: split_blk_def mark_free_def)
  next
    case False
    then have "mark_free q bs' = bs" unfolding split using d(1,3,4) by (simp add: split_blk_def mark_free_def)
    then show ?thesis using coalesce_id [OF assms(3)] by (simp add: free_blocks_def)
  qed
qed

section \<open>The operations on the invariant\<close>

lemma heap_invD:
  assumes "heap_inv s bs"
  shows "bs \<noteq> []" "chain (hdr s) (g_head s) bs" "g_head s = g_heap_base s" "g_head s \<noteq> 0"
    "tiles (unat (g_heap_base s)) (unat (g_heap_base s) + unat (g_heap_size s)) bs"
    "unat (g_heap_base s) + unat (g_heap_size s) + 64 \<le> 2 ^ 64"
proof -
  show c: "bs \<noteq> []" "chain (hdr s) (g_head s) bs" "g_head s = g_heap_base s"
    "tiles (unat (g_heap_base s)) (unat (g_heap_base s) + unat (g_heap_size s)) bs"
    "unat (g_heap_base s) + unat (g_heap_size s) + 64 \<le> 2 ^ 64"
    using assms unfolding heap_inv_def by blast+
  show "g_head s \<noteq> 0" using c(1,2) by (cases bs) simp_all
qed

lemma heap_inv_hdr:
  assumes "heap_inv s bs" "s' = s\<lparr>hdr := hdr s'\<rparr>" "chain (hdr s') (g_head s) bs'" "bs' \<noteq> []"
    and "tiles (unat (g_heap_base s)) (unat (g_heap_base s) + unat (g_heap_size s)) bs'"
  shows "heap_inv s' bs'"
proof -
  have "g_head s' = g_head s" "g_heap_base s' = g_heap_base s" "g_heap_size s' = g_heap_size s"
    by (subst assms(2), simp)+
  then show ?thesis using assms(3-5) heap_invD(3,6) [OF assms(1)] by (simp add: heap_inv_def)
qed

lemma kmalloc_refines:
  assumes inv: "heap_inv s bs" and n: "n \<noteq> 0" "unat n + 15 < 2 ^ 64"
  shows "case alloc_blocks (round16 (unat n)) bs of
      None \<Rightarrow> kmalloc s n = Some (s, 0)
    | Some (q, bs') \<Rightarrow> \<exists>s' p. kmalloc s n = Some (s', p) \<and> p \<noteq> 0 \<and> unat p = q \<and> heap_inv s' bs'"
proof -
  note h = heap_invD [OF inv]
  have k: "kmalloc s n = kmalloc_loop s (ALIGN_UP n 16) (g_head s)"
    using n(1) h(4) by (simp add: kmalloc_def)
  have m: "round16 (unat n) mod 16 = 0" by (simp add: round16_def)
  note l = kmalloc_loop_ok [OF h(2,5,6) unat_ALIGN_UP16 [OF n(2)]]
  show ?thesis
  proof (cases "alloc_blocks (round16 (unat n)) bs")
    case None
    then show ?thesis using l k by simp
  next
    case (Some r)
    obtain q bs' where r: "r = (q, bs')" by fastforce
    note a = alloc_blocks_props [OF Some [unfolded r] h(5) m]
    obtain s' w where s': "kmalloc_loop s (ALIGN_UP n 16) (g_head s) = Some (s', w)" "unat w = q"
      "chain (hdr s') (g_head s) bs'" "s' = s\<lparr>hdr := hdr s'\<rparr>"
      using l Some r by auto
    have "heap_inv s' bs'" using heap_inv_hdr [OF inv s'(4,3) a(5,1)] .
    moreover have "w \<noteq> 0" using s'(2) a(3) by auto
    ultimately show ?thesis using Some r k s' by auto
  qed
qed

lemma kfree_refines:
  assumes inv: "heap_inv s bs" and p: "(unat p, m) \<in> live bs"
  shows "\<exists>s'. kfree s p = Some s' \<and> heap_inv s' (free_blocks (unat p) bs)"
proof -
  note h = heap_invD [OF inv]
  have ge: "32 \<le> unat p" using live_in_heap(1) [OF h(5) p] by simp
  have sub: "unat (p - 32) = unat p - 32" using ge by (subst unat_sub) (simp_all add: word_le_nat_alt)
  let ?s = "set_hdr s (p - 32) ((hdr s (p - 32))\<lparr>bh_free := 1\<rparr>)"
  let ?bs = "mark_free (unat p) bs"
  have c: "chain (hdr ?s) (g_head s) ?bs"
    using chain_mark_free [OF h(2), of "p - 32"] ge sub by simp
  have t: "tiles (unat (g_heap_base s)) (unat (g_heap_base s) + unat (g_heap_size s)) ?bs"
    using h(5) by simp
  obtain s' where s': "coalesce_loop ?s (g_head s) = Some s'" "chain (hdr s') (g_head s) (coalesce ?bs)"
    "s' = ?s\<lparr>hdr := hdr s'\<rparr>" using coalesce_loop_ok [OF c t h(6)] by blast
  have "s' = s\<lparr>hdr := hdr s'\<rparr>" using s'(3) by (simp add: set_hdr_def)
  moreover have "coalesce ?bs \<noteq> []" using h(1) by (simp add: mark_free_def)
  ultimately have "heap_inv s' (coalesce ?bs)"
    using heap_inv_hdr [OF inv _ s'(2) _ coalesce_tiles [OF t]] by blast
  moreover have "p \<noteq> 0" using ge by auto
  ultimately show ?thesis using s'(1) by (simp add: kfree_def ptr_to_hdr_def Let_def free_blocks_def)
qed

lemma free_blocks_live:
  assumes "tiles p e bs" "(a, m) \<in> live bs"
  shows "live (free_blocks a bs) = live bs - {(a, m)}" "coalesced (free_blocks a bs)"
  using mark_free_live [of a bs] live_fun [OF assms] coalesce_coalesced
  by (simp_all add: free_blocks_def)

lemma chain_size: "chain h a bs \<Longrightarrow> b \<in> set bs \<Longrightarrow> unat x = b_addr b \<Longrightarrow> unat (bh_size (h x)) = b_size b"
  by (induction bs arbitrary: a) (auto simp: word_unat_eq_iff [symmetric])

lemma usable_size:
  assumes "heap_inv s bs" "(unat p, m) \<in> live bs"
  shows "unat (kmalloc_usable_size s p) = m"
proof -
  have ge: "32 \<le> unat p" using live_in_heap(1) [OF heap_invD(5) [OF assms(1)] assms(2)] by simp
  then have sub: "unat (p - 32) = unat p - 32" by (subst unat_sub) (simp_all add: word_le_nat_alt)
  obtain b where "b \<in> set bs" "unat p = b_addr b + 32" "m = b_size b" using assms(2) by (auto simp: live_def)
  then show ?thesis
    using chain_size [OF heap_invD(2) [OF assms(1)], of b "p - 32"] sub ge
    by (auto simp: kmalloc_usable_size_def ptr_to_hdr_def)
qed

section \<open>The heap's contract\<close>

text \<open>
  What users of the heap rely on, over the set \<open>L\<close> of live blocks (address and size of the
  payload). A request must leave room for rounding up to 16 bytes.
\<close>

locale block_heap =
  fixes ok :: "'s \<Rightarrow> (nat \<times> nat) set \<Rightarrow> bool"
    and malloc :: "'s \<Rightarrow> u64 \<Rightarrow> ('s \<times> u64) option"
    and dealloc :: "'s \<Rightarrow> u64 \<Rightarrow> 's option"
  assumes malloc_returns: "ok s L \<Longrightarrow> n \<noteq> 0 \<Longrightarrow> unat n + 15 < 2 ^ 64 \<Longrightarrow>
      \<exists>s' p. malloc s n = Some (s', p) \<and> (p = 0 \<longrightarrow> s' = s)"
    and malloc_live: "ok s L \<Longrightarrow> n \<noteq> 0 \<Longrightarrow> unat n + 15 < 2 ^ 64 \<Longrightarrow> malloc s n = Some (s', p) \<Longrightarrow>
      p \<noteq> 0 \<Longrightarrow> \<exists>m \<ge> unat n. ok s' (insert (unat p, m) L) \<and> (\<forall>k. (unat p, k) \<notin> L)"
    and dealloc_live: "ok s L \<Longrightarrow> (unat p, m) \<in> L \<Longrightarrow> \<exists>s'. dealloc s p = Some s' \<and> ok s' (L - {(unat p, m)})"
    and live_apart: "ok s L \<Longrightarrow> x \<in> L \<Longrightarrow> y \<in> L \<Longrightarrow> x \<noteq> y \<Longrightarrow>
      {fst x..<fst x + snd x} \<inter> {fst y..<fst y + snd y} = {}"
    and live_aligned: "ok s L \<Longrightarrow> x \<in> L \<Longrightarrow> fst x mod 16 = 0"
begin

lemma malloc_dealloc:
  assumes "ok s L" "n \<noteq> 0" "unat n + 15 < 2 ^ 64" "malloc s n = Some (s', p)" "p \<noteq> 0"
  shows "\<exists>s''. dealloc s' p = Some s'' \<and> ok s'' L"
proof -
  obtain m where m: "ok s' (insert (unat p, m) L)" "\<forall>k. (unat p, k) \<notin> L"
    using malloc_live [OF assms] by blast
  then show ?thesis using dealloc_live [OF m(1), of p m] by auto
qed

lemma malloc_apart:
  assumes "ok s L" "n \<noteq> 0" "unat n + 15 < 2 ^ 64" "malloc s n = Some (s', p)" "p \<noteq> 0" "x \<in> L"
  shows "{unat p..<unat p + unat n} \<inter> {fst x..<fst x + snd x} = {}"
proof -
  obtain m where m: "unat n \<le> m" "ok s' (insert (unat p, m) L)" "\<forall>k. (unat p, k) \<notin> L"
    using malloc_live [OF assms(1-5)] by blast
  have "x \<noteq> (unat p, m)" using m(3) assms(6) by auto
  then show ?thesis using live_apart [OF m(2), of "(unat p, m)" x] assms(6) m(1) by fastforce
qed

end

definition heap_ok :: "heap_state \<Rightarrow> (nat \<times> nat) set \<Rightarrow> bool" where
  "heap_ok s L \<longleftrightarrow> (\<exists>bs. heap_inv s bs \<and> live bs = L)"

lemma kmalloc_live:
  assumes "heap_ok s L" "n \<noteq> 0" "unat n + 15 < 2 ^ 64" "kmalloc s n = Some (s', p)" "p \<noteq> 0"
  shows "\<exists>m \<ge> unat n. heap_ok s' (insert (unat p, m) L) \<and> (\<forall>k. (unat p, k) \<notin> L)"
proof -
  obtain bs where bs: "heap_inv s bs" "live bs = L" using assms(1) by (auto simp: heap_ok_def)
  have m: "round16 (unat n) mod 16 = 0" "unat n \<le> round16 (unat n)" by (auto simp: round16_def)
  obtain bs' where a: "alloc_blocks (round16 (unat n)) bs = Some (unat p, bs')" "heap_inv s' bs'"
    using kmalloc_refines [OF bs(1) assms(2,3)] assms(4,5)
    by (cases "alloc_blocks (round16 (unat n)) bs") auto
  note h = heap_invD [OF bs(1)]
  obtain k where k: "round16 (unat n) \<le> k" "live bs' = insert (unat p, k) L"
    using alloc_blocks_props(2) [OF a(1) h(5) m(1)] bs(2) by blast
  obtain xs b ys where d: "bs = xs @ b # ys" "unat p = b_addr b + 32" "b_free b"
    using alloc_blocks_Some [OF a(1)] by blast
  have "(unat p, j) \<notin> L" for j
  proof
    assume "(unat p, j) \<in> L"
    then obtain c where c: "c \<in> set bs" "\<not> b_free c" "b_addr c = b_addr b"
      using d(2) bs(2) by (auto simp: live_def)
    then have "c \<noteq> b" "b \<in> set bs" using d by auto
    then show False using tiles_disjoint [OF h(5) c(1)] c(3) by fastforce
  qed
  then show ?thesis using a(2) k m(2) by (auto simp: heap_ok_def intro!: exI [of _ k])
qed

interpretation kheap: block_heap heap_ok kmalloc kfree
proof
  fix s L n assume a: "heap_ok s L" "n \<noteq> (0 :: u64)" "unat n + 15 < 2 ^ 64"
  obtain bs where bs: "heap_inv s bs" using a(1) by (auto simp: heap_ok_def)
  show "\<exists>s' p. kmalloc s n = Some (s', p) \<and> (p = 0 \<longrightarrow> s' = s)"
    using kmalloc_refines [OF bs a(2,3)]
    by (cases "alloc_blocks (round16 (unat n)) bs") auto
next
  fix s L n s' p
  assume "heap_ok s L" "n \<noteq> (0 :: u64)" "unat n + 15 < 2 ^ 64" "kmalloc s n = Some (s', p)" "p \<noteq> 0"
  then show "\<exists>m \<ge> unat n. heap_ok s' (insert (unat p, m) L) \<and> (\<forall>k. (unat p, k) \<notin> L)"
    by (rule kmalloc_live)
next
  fix s L p m assume a: "heap_ok s L" "(unat (p :: u64), m) \<in> L"
  obtain bs where bs: "heap_inv s bs" "live bs = L" using a(1) by (auto simp: heap_ok_def)
  then show "\<exists>s'. kfree s p = Some s' \<and> heap_ok s' (L - {(unat p, m)})"
    using kfree_refines [OF bs(1), of p m] free_blocks_live(1) [OF heap_invD(5) [OF bs(1)], of "unat p" m] a(2)
    by (auto simp: heap_ok_def)
next
  fix s L x y assume a: "heap_ok s L" "x \<in> L" "y \<in> L" "x \<noteq> y"
  obtain bs where bs: "heap_inv s bs" "live bs = L" using a(1) by (auto simp: heap_ok_def)
  show "{fst x..<fst x + snd x} \<inter> {fst y..<fst y + snd y} = {}"
    using live_disjoint [OF heap_invD(5) [OF bs(1)], of "fst x" "snd x" "fst y" "snd y"] a bs(2) by auto
next
  fix s L x assume "heap_ok s L" "x \<in> L"
  then show "fst x mod 16 = 0"
    using live_in_heap(3) [OF heap_invD(5), of s _ "fst x" "snd x"] by (auto simp: heap_ok_def)
qed

lemma kmalloc_init_inv:
  assumes "b \<noteq> 0" "unat b mod 16 = 0" "32 \<le> unat n" "unat b + unat n + 64 \<le> 2 ^ 64"
  shows "heap_inv (kmalloc_init s b n) [\<lparr>b_addr = unat b, b_size = unat n - 32, b_free = True\<rparr>]"
proof -
  have "unat (n - 32) = unat n - 32" using assms(3) by (subst unat_sub) (simp_all add: word_le_nat_alt)
  then show ?thesis using assms by (simp add: heap_inv_def kmalloc_init_def)
qed

text \<open>The states of a heap in use: the live blocks with the requested sizes.\<close>

inductive heap_step :: "heap_state \<times> (u64 \<times> u64) set \<Rightarrow> heap_state \<times> (u64 \<times> u64) set \<Rightarrow> bool" where
  step_kmalloc: "n \<noteq> 0 \<Longrightarrow> unat n + 15 < 2 ^ 64 \<Longrightarrow> kmalloc s n = Some (s', p) \<Longrightarrow>
     heap_step (s, R) (s', if p = 0 then R else insert (p, n) R)"
| step_kfree: "(p, n) \<in> R \<Longrightarrow> kfree s p = Some s' \<Longrightarrow> heap_step (s, R) (s', R - {(p, n)})"

definition requests_ok :: "heap_state \<Rightarrow> (u64 \<times> u64) set \<Rightarrow> bool" where
  "requests_ok s R \<longleftrightarrow> (\<exists>L. heap_ok s L \<and> (\<forall>p n. (p, n) \<in> R \<longrightarrow> (\<exists>m \<ge> unat n. (unat p, m) \<in> L)) \<and>
     (\<forall>p m. (p, m) \<in> L \<longrightarrow> (\<exists>q n. (q, n) \<in> R \<and> unat q = p)) \<and>
     (\<forall>p n k. (p, n) \<in> R \<longrightarrow> (p, k) \<in> R \<longrightarrow> n = k))"

lemma heap_step_ok:
  assumes "heap_step (s, R) (s', R')" "requests_ok s R"
  shows "requests_ok s' R'"
proof -
  obtain L where L0: "heap_ok s L" and l: "\<forall>p n. (p, n) \<in> R \<longrightarrow> (\<exists>m \<ge> unat n. (unat p, m) \<in> L)"
    "\<forall>p m. (p, m) \<in> L \<longrightarrow> (\<exists>q n. (q, n) \<in> R \<and> unat q = p)"
    "\<forall>p n k. (p, n) \<in> R \<longrightarrow> (p, k) \<in> R \<longrightarrow> n = k"
    using assms(2) unfolding requests_ok_def by (elim exE conjE)
  note L = L0 l [rule_format]
  show ?thesis using assms(1)
  proof (cases rule: heap_step.cases)
    case (step_kmalloc n p)
    show ?thesis
    proof (cases "p = 0")
      case True
      then have "s' = s" using kheap.malloc_returns [OF L(1)] step_kmalloc by fastforce
      then show ?thesis using True step_kmalloc assms(2) by simp
    next
      case False
      obtain m where m: "unat n \<le> m" "heap_ok s' (insert (unat p, m) L)" "\<forall>k. (unat p, k) \<notin> L"
        using kheap.malloc_live [OF L(1)] step_kmalloc False by blast
      have new: "(p, k) \<notin> R" for k using L(2) m(3) by blast
      show ?thesis unfolding requests_ok_def
      proof (intro exI conjI)
        show "heap_ok s' (insert (unat p, m) L)" by (rule m(2))
        show "\<forall>q k. (q, k) \<in> R' \<longrightarrow> (\<exists>j \<ge> unat k. (unat q, j) \<in> insert (unat p, m) L)"
          using L(2) m(1) step_kmalloc(1) False by (auto dest: L(2))
        show "\<forall>a k. (a, k) \<in> insert (unat p, m) L \<longrightarrow> (\<exists>q j. (q, j) \<in> R' \<and> unat q = a)"
          using step_kmalloc(1) False by (auto dest!: L(3))
        show "\<forall>p n k. (p, n) \<in> R' \<longrightarrow> (p, k) \<in> R' \<longrightarrow> n = k"
          using new step_kmalloc(1) False by (auto dest: L(4))
      qed
    qed
  next
    case (step_kfree p n)
    obtain m where m: "(unat p, m) \<in> L" using L(2) step_kfree by blast
    have free: "heap_ok s' (L - {(unat p, m)})" using kheap.dealloc_live [OF L(1) m] step_kfree by auto
    have u: "k = m" if "(unat p, k) \<in> L" for k
    proof -
      obtain bs where bs: "heap_inv s bs" "live bs = L" using L(1) by (auto simp: heap_ok_def)
      show ?thesis using live_disjoint [OF heap_invD(5) [OF bs(1)]] that m bs(2) by fastforce
    qed
    show ?thesis unfolding requests_ok_def
    proof (intro exI conjI)
      show "heap_ok s' (L - {(unat p, m)})" by (rule free)
      show "\<forall>q k. (q, k) \<in> R' \<longrightarrow> (\<exists>j \<ge> unat k. (unat q, j) \<in> L - {(unat p, m)})"
      proof (intro allI impI)
        fix q k assume q: "(q, k) \<in> R'"
        then have "q \<noteq> p" using step_kfree(1,2) L(4) by blast
        then show "\<exists>j \<ge> unat k. (unat q, j) \<in> L - {(unat p, m)}"
          using q step_kfree(1) L(2) by (metis DiffD1 Diff_iff Pair_inject singletonD word_unat_eq_iff)
      qed
      show "\<forall>a k. (a, k) \<in> L - {(unat p, m)} \<longrightarrow> (\<exists>q j. (q, j) \<in> R' \<and> unat q = a)"
      proof (intro allI impI)
        fix a k assume "(a, k) \<in> L - {(unat p, m)}"
        then have a: "(a, k) \<in> L" "(a, k) \<noteq> (unat p, m)" by auto
        then obtain q j where q: "(q, j) \<in> R" "unat q = a" using L(3) by blast
        then have "q \<noteq> p" using a u by auto
        then show "\<exists>q j. (q, j) \<in> R' \<and> unat q = a" using q step_kfree(1) by auto
      qed
      show "\<forall>p n k. (p, n) \<in> R' \<longrightarrow> (p, k) \<in> R' \<longrightarrow> n = k" using step_kfree(1) L(4) by blast
    qed
  qed
qed

section \<open>Properties\<close>

text \<open>A 256-byte heap at 0x1000 for the witnesses.\<close>

definition demo_heap :: heap_state where
  "demo_heap = kmalloc_init \<lparr>g_heap_base = 0, g_heap_size = 0, g_head = 0,
     hdr = (\<lambda>_. \<lparr>bh_size = 0, bh_free = 0, bh_next = 0\<rparr>)\<rparr> 0x1000 0x100"

lemma demo_heap_inv: "heap_inv demo_heap [\<lparr>b_addr = 0x1000, b_size = 0xE0, b_free = True\<rparr>]"
  using kmalloc_init_inv [of "0x1000" "0x100"] by (simp add: demo_heap_def)

text \<open>
  C6. \<open>kmalloc\<close> is first fit over the list of blocks: it takes the first free block whose
  payload holds the request rounded up to 16 bytes, splits off the rest when at least 48 bytes
  are left, and returns the address 32 bytes past that block's header; it returns NULL and
  changes nothing exactly when no free block is large enough. The heap stays tiled by its blocks.
\<close>

theorem kmalloc_first_fit:
  assumes "heap_inv s bs" "n \<noteq> 0" "unat n + 15 < 2 ^ 64"
  shows "case alloc_blocks (round16 (unat n)) bs of
      None \<Rightarrow> kmalloc s n = Some (s, 0) \<and> (\<forall>b \<in> set bs. \<not> (b_free b \<and> round16 (unat n) \<le> b_size b))
    | Some (q, bs') \<Rightarrow> (\<exists>s' p. kmalloc s n = Some (s', p) \<and> p \<noteq> 0 \<and> unat p = q \<and> heap_inv s' bs' \<and>
        q mod 16 = 0 \<and> unat n \<le> unat (kmalloc_usable_size s' p))"
proof (cases "alloc_blocks (round16 (unat n)) bs")
  case None
  then show ?thesis using kmalloc_refines [OF assms] alloc_blocks_None [of "round16 (unat n)" bs] by simp
next
  case (Some r)
  obtain q bs' where r: "r = (q, bs')" by fastforce
  have m: "round16 (unat n) mod 16 = 0" "unat n \<le> round16 (unat n)" by (auto simp: round16_def)
  note a = alloc_blocks_props [OF Some [unfolded r] heap_invD(5) [OF assms(1)] m(1)]
  obtain s' p where s': "kmalloc s n = Some (s', p)" "p \<noteq> 0" "unat p = q" "heap_inv s' bs'"
    using kmalloc_refines [OF assms] Some r by auto
  obtain k where k: "round16 (unat n) \<le> k" "(unat p, k) \<in> live bs'" using a(2) s'(3) by auto
  then have "unat n \<le> unat (kmalloc_usable_size s' p)" using usable_size [OF s'(4) k(2)] m(2) by simp
  then show ?thesis using Some r s' a(4) by auto
qed

theorem kmalloc_first_fit_witness:
  "\<exists>s' p. kmalloc demo_heap 24 = Some (s', p) \<and> unat p = 0x1020 \<and>
     heap_inv s' [\<lparr>b_addr = 0x1000, b_size = 32, b_free = False\<rparr>, \<lparr>b_addr = 0x1040, b_size = 160, b_free = True\<rparr>]"
proof -
  have "alloc_blocks (round16 (unat (24 :: u64))) [\<lparr>b_addr = 0x1000, b_size = 0xE0, b_free = True\<rparr>] =
    Some (0x1020, [\<lparr>b_addr = 0x1000, b_size = 32, b_free = False\<rparr>, \<lparr>b_addr = 0x1040, b_size = 160, b_free = True\<rparr>])"
    by (simp add: round16_def split_blk_def)
  then show ?thesis using kmalloc_first_fit [OF demo_heap_inv, of 24] by auto
qed

text \<open>
  \<open>kfree\<close> of a live block returns, takes exactly that block out of the live ones and leaves
  no two neighbouring free blocks.
\<close>

theorem kfree_coalesces:
  assumes "heap_inv s bs" "(unat p, m) \<in> live bs"
  shows "\<exists>s' bs'. kfree s p = Some s' \<and> heap_inv s' bs' \<and> live bs' = live bs - {(unat p, m)} \<and>
    successively (\<lambda>b c. \<not> (b_free b \<and> b_free c)) bs'"
  using kfree_refines [OF assms] free_blocks_live [OF heap_invD(5) [OF assms(1)] assms(2)] by blast

theorem kfree_coalesces_witness:
  "\<exists>s p s' bs'. kmalloc demo_heap 24 = Some (s, p) \<and> kfree s p = Some s' \<and> heap_inv s' bs' \<and> live bs' = {}"
proof -
  have a: "alloc_blocks (round16 (unat (24 :: u64))) [\<lparr>b_addr = 0x1000, b_size = 0xE0, b_free = True\<rparr>] =
    Some (0x1020, [\<lparr>b_addr = 0x1000, b_size = 32, b_free = False\<rparr>, \<lparr>b_addr = 0x1040, b_size = 160, b_free = True\<rparr>])"
    by (simp add: round16_def split_blk_def)
  obtain s p where s: "kmalloc demo_heap 24 = Some (s, p)" "unat p = 0x1020"
    "heap_inv s [\<lparr>b_addr = 0x1000, b_size = 32, b_free = False\<rparr>, \<lparr>b_addr = 0x1040, b_size = 160, b_free = True\<rparr>]"
    using kmalloc_refines [OF demo_heap_inv, of 24] a by auto
  have "(unat p, 32) \<in> live [\<lparr>b_addr = 0x1000, b_size = 32, b_free = False\<rparr>,
      \<lparr>b_addr = 0x1040, b_size = 160, b_free = True\<rparr>]" using s(2) by simp
  from kfree_coalesces [OF s(3) this] show ?thesis using s(1,2) by auto
qed

text \<open>
  C7. In a heap with no two neighbouring free blocks, freeing what \<open>kmalloc\<close> returned gives
  back the very same list of blocks: an allocation followed by its release leaves no trace.
\<close>

theorem kmalloc_kfree_roundtrip:
  assumes "heap_inv s bs" "successively (\<lambda>b c. \<not> (b_free b \<and> b_free c)) bs"
    and "n \<noteq> 0" "unat n + 15 < 2 ^ 64" "kmalloc s n = Some (s', p)" "p \<noteq> 0"
  shows "\<exists>s''. kfree s' p = Some s'' \<and> heap_inv s'' bs"
proof -
  obtain bs' where a: "alloc_blocks (round16 (unat n)) bs = Some (unat p, bs')" "heap_inv s' bs'"
    using kmalloc_refines [OF assms(1,3,4)] assms(5,6)
    by (cases "alloc_blocks (round16 (unat n)) bs") auto
  note t = heap_invD(5) [OF assms(1)]
  obtain m where "(unat p, m) \<in> live bs'"
    using alloc_blocks_props(2) [OF a(1) t] by (auto simp: round16_def)
  from kfree_refines [OF a(2) this] show ?thesis using alloc_free_blocks [OF a(1) t assms(2)] by simp
qed

theorem kmalloc_kfree_roundtrip_witness:
  "\<exists>s p s'. kmalloc demo_heap 100 = Some (s, p) \<and> p \<noteq> 0 \<and> kfree s p = Some s' \<and>
     heap_inv s' [\<lparr>b_addr = 0x1000, b_size = 0xE0, b_free = True\<rparr>]"
proof -
  have a: "alloc_blocks (round16 (unat (100 :: u64))) [\<lparr>b_addr = 0x1000, b_size = 0xE0, b_free = True\<rparr>] =
    Some (0x1020, [\<lparr>b_addr = 0x1000, b_size = 112, b_free = False\<rparr>, \<lparr>b_addr = 0x1090, b_size = 80, b_free = True\<rparr>])"
    by (simp add: round16_def split_blk_def)
  obtain s p where s: "kmalloc demo_heap 100 = Some (s, p)" "p \<noteq> 0"
    using kmalloc_refines [OF demo_heap_inv, of 100] a by auto
  from kmalloc_kfree_roundtrip [OF demo_heap_inv _ _ _ s] s show ?thesis by auto
qed

text \<open>
  C8. Over every run of \<open>kmalloc\<close> and \<open>kfree\<close> of live blocks from \<open>kmalloc_init\<close>, the requested
  byte ranges of the live blocks are pairwise disjoint, 16-byte aligned and inside the heap.
\<close>

theorem kmalloc_blocks_disjoint:
  assumes "heap_step\<^sup>*\<^sup>* (kmalloc_init s0 b n, {}) (s, R)"
    and "b \<noteq> 0" "unat b mod 16 = 0" "32 \<le> unat n" "unat b + unat n + 64 \<le> 2 ^ 64"
  shows "(\<forall>(p, k) \<in> R. unat p mod 16 = 0 \<and> unat (g_heap_base s) + 32 \<le> unat p \<and>
      unat p + unat k \<le> unat (g_heap_base s) + unat (g_heap_size s)) \<and>
    (\<forall>(p, k) \<in> R. \<forall>(q, j) \<in> R. (p, k) \<noteq> (q, j) \<longrightarrow>
      {unat p..<unat p + unat k} \<inter> {unat q..<unat q + unat j} = {})"
proof -
  have "heap_ok (kmalloc_init s0 b n) {}"
    using kmalloc_init_inv [OF assms(2-5), of s0] unfolding heap_ok_def by (intro exI conjI) (assumption, subst live_simps, simp)
  then have "requests_ok (kmalloc_init s0 b n) {}"
    by (auto simp: requests_ok_def intro!: exI [of _ "{}"])
  with assms(1) have "requests_ok s R"
    by (induction rule: rtranclp_induct2) (auto dest: heap_step_ok)
  then obtain L where ok: "heap_ok s L" and l: "\<forall>p n. (p, n) \<in> R \<longrightarrow> (\<exists>m \<ge> unat n. (unat p, m) \<in> L)"
    "\<forall>p n k. (p, n) \<in> R \<longrightarrow> (p, k) \<in> R \<longrightarrow> n = k"
    unfolding requests_ok_def by (elim exE conjE)
  obtain bs where bs: "heap_inv s bs" "live bs = L" using ok by (auto simp: heap_ok_def)
  have one: "unat p mod 16 = 0 \<and> unat (g_heap_base s) + 32 \<le> unat p \<and>
      unat p + unat k \<le> unat (g_heap_base s) + unat (g_heap_size s)" if pk: "(p, k) \<in> R" for p k
  proof -
    obtain m where m: "unat k \<le> m" "(unat p, m) \<in> live bs" using l(1) pk bs(2) by blast
    show ?thesis using live_in_heap [OF heap_invD(5) [OF bs(1)] m(2)] m(1) by linarith
  qed
  have two: "{unat p..<unat p + unat k} \<inter> {unat q..<unat q + unat j} = {}"
    if r: "(p, k) \<in> R" "(q, j) \<in> R" "(p, k) \<noteq> (q, j)" for p k q j
  proof -
    obtain m i where m: "unat k \<le> m" "(unat p, m) \<in> L" "unat j \<le> i" "(unat q, i) \<in> L" using l(1) r by blast
    have "p \<noteq> q" using r l(2) by blast
    then have "(unat p, m) \<noteq> (unat q, i)" by (simp add: word_unat_eq_iff)
    then show ?thesis using kheap.live_apart [OF ok m(2,4)] m(1,3) by fastforce
  qed
  show ?thesis using one two by blast
qed

theorem kmalloc_blocks_disjoint_witness:
  "\<exists>s p. heap_step\<^sup>*\<^sup>* (demo_heap, {}) (s, {(p, 24)}) \<and> unat p mod 16 = 0"
proof -
  have a: "alloc_blocks (round16 (unat (24 :: u64))) [\<lparr>b_addr = 0x1000, b_size = 0xE0, b_free = True\<rparr>] =
    Some (0x1020, [\<lparr>b_addr = 0x1000, b_size = 32, b_free = False\<rparr>, \<lparr>b_addr = 0x1040, b_size = 160, b_free = True\<rparr>])"
    by (simp add: round16_def split_blk_def)
  obtain s p where s: "kmalloc demo_heap 24 = Some (s, p)" "p \<noteq> 0"
    using kmalloc_refines [OF demo_heap_inv, of 24] a by auto
  then have r: "heap_step\<^sup>*\<^sup>* (demo_heap, {}) (s, {(p, 24)})"
    using step_kmalloc [OF _ _ s(1), of "{}"] by auto
  have "unat p mod 16 = 0" using kmalloc_blocks_disjoint [OF r [unfolded demo_heap_def]] by simp
  with r show ?thesis by (intro exI conjI)
qed

text \<open>
  The rounding of the request wraps: a request within 15 bytes of \<open>2^64\<close> is rounded to 0,
  and \<open>kmalloc\<close> returns a non-NULL block whose payload is empty.
\<close>

theorem kmalloc_request_wraps:
  "\<exists>s' p. kmalloc demo_heap (- 8) = Some (s', p) \<and> p \<noteq> 0 \<and> kmalloc_usable_size s' p = 0"
  by (simp add: kmalloc_def demo_heap_def kmalloc_init_def ALIGN_UP_def kmalloc_loop.simps
      split_block_def set_hdr_def kmalloc_usable_size_def ptr_to_hdr_def)

end
