(* ===== verification/Vmm.thy ===== *)
theory Vmm
  imports Pmm_Correct
begin

text \<open>
  The virtual memory manager of \<open>kernel/mm/vmm.c\<close>: four-level page tables in physical memory,
  walked and extended by \<open>get_pte\<close> with frames of the frame allocator. The kernel runs with
  physical memory identity mapped, so a table's address is its physical address. \<open>invlpg\<close> has
  no effect on the model: the translations stated are those of the tables, not of a TLB.
\<close>

section \<open>State and operations\<close>

definition VMM_PRESENT :: u64 where "VMM_PRESENT = 1"
definition VMM_RW :: u64 where "VMM_RW = 2"
definition VMM_PS :: u64 where "VMM_PS = 0x80"
definition VMM_NX :: u64 where "VMM_NX = 0x8000000000000000"
definition PAGE_SIZE :: u64 where "PAGE_SIZE = 4096"

lemmas vmm_flags = VMM_PRESENT_def VMM_RW_def VMM_PS_def VMM_NX_def PAGE_SIZE_def

record vmm_state =
  vm_mem :: memory
  vm_pmm :: pmm_state
  g_cr3_phys :: u64
  cpu_cr3 :: u64

text \<open>\<open>for (i = 0; i < 512; ++i) tbl[i] = 0\<close>\<close>

definition zero_table :: "memory \<Rightarrow> u64 \<Rightarrow> memory" where
  "zero_table m tbl = foldl (\<lambda>m i. store64 m (tbl + 8 * of_nat i) 0) m [0..<512]"

text \<open>
  One level of \<open>get_pte\<close>: the entry \<open>tbl[idx]\<close>, created when absent and \<open>create\<close> is set. The
  inner option is the C result (\<open>None\<close> for the early \<open>return NULL\<close>); the outer one is \<open>None\<close> when
  the frame allocator accesses memory outside its bitmap.
\<close>

definition get_level :: "vmm_state \<Rightarrow> u64 \<Rightarrow> u64 \<Rightarrow> bool \<Rightarrow> (vmm_state \<times> u64 option) option" where
  "get_level s tbl idx create =
     (let e = load64 (vm_mem s) (tbl + 8 * idx)
      in if e AND VMM_PRESENT = 0
         then
           if \<not> create then Some (s, None)
           else do {
             (pmm', newp) \<leftarrow> pmm_alloc_frames (vm_pmm s) 1;
             if newp = 0 then Some (s\<lparr>vm_pmm := pmm'\<rparr>, None)
             else
               let m1 = zero_table (vm_mem s) newp;
                   e' = newp OR VMM_PRESENT OR VMM_RW;
                   m2 = store64 m1 (tbl + 8 * idx) e'
               in Some (s\<lparr>vm_mem := m2, vm_pmm := pmm'\<rparr>, Some e') }
         else Some (s, Some e))"

definition get_pte :: "vmm_state \<Rightarrow> u64 \<Rightarrow> u64 \<Rightarrow> bool \<Rightarrow> (vmm_state \<times> u64 option) option" where
  "get_pte s pml4 va create =
     (let idx_pml4 = drop_bit 39 va AND 0x1FF;
          idx_pdp = drop_bit 30 va AND 0x1FF;
          idx_pd = drop_bit 21 va AND 0x1FF;
          idx_pt = drop_bit 12 va AND 0x1FF
      in do {
        (s1, r1) \<leftarrow> get_level s pml4 idx_pml4 create;
        case r1 of None \<Rightarrow> Some (s1, None)
        | Some pml4e \<Rightarrow> do {
          (s2, r2) \<leftarrow> get_level s1 (pml4e AND NOT 0xFFF) idx_pdp create;
          case r2 of None \<Rightarrow> Some (s2, None)
          | Some pdpte \<Rightarrow> do {
            (s3, r3) \<leftarrow> get_level s2 (pdpte AND NOT 0xFFF) idx_pd create;
            case r3 of None \<Rightarrow> Some (s3, None)
            | Some pde \<Rightarrow> Some (s3, Some ((pde AND NOT 0xFFF) + 8 * idx_pt)) } } })"

definition vmm_load_cr3 :: "vmm_state \<Rightarrow> u64 \<Rightarrow> vmm_state" where
  "vmm_load_cr3 s pml4 = s\<lparr>g_cr3_phys := pml4, cpu_cr3 := pml4\<rparr>"

function identity_loop :: "vmm_state \<Rightarrow> u64 \<Rightarrow> u64 \<Rightarrow> vmm_state option" where
  "identity_loop s pml4 a =
     (if a < 0x100000000
      then do {
        (s1, pte) \<leftarrow> get_pte s pml4 a True;
        case pte of None \<Rightarrow> Some s1
        | Some slot \<Rightarrow> identity_loop
            (s1\<lparr>vm_mem := store64 (vm_mem s1) slot ((a AND NOT 0xFFF) OR (VMM_PRESENT OR VMM_RW))\<rparr>)
            pml4 (a + PAGE_SIZE) }
      else Some s)"
  by pat_completeness auto
termination
proof (relation "measure (\<lambda>(s, pml4, a). 0x100000000 - unat a)")
  fix s :: vmm_state and pml4 a :: u64 and x s1 pte slot
  assume "a < 0x100000000"
  then have a: "unat a < 0x100000000" by (simp add: word_less_nat_alt)
  then have "unat (a + PAGE_SIZE) = unat a + 4096"
    by (subst unat_add_small) (simp_all add: PAGE_SIZE_def)
  then show "((s1\<lparr>vm_mem := store64 (vm_mem s1) slot ((a AND NOT 0xFFF) OR (VMM_PRESENT OR VMM_RW))\<rparr>,
      pml4, a + PAGE_SIZE), (s, pml4, a)) \<in> measure (\<lambda>(s, pml4, a). 0x100000000 - unat a)"
    using a by simp
qed simp

declare identity_loop.simps [simp del]

definition vmm_init_identity :: "vmm_state \<Rightarrow> vmm_state option" where
  "vmm_init_identity s = do {
     (pmm', pml4) \<leftarrow> pmm_alloc_frames (vm_pmm s) 1;
     let s1 = s\<lparr>vm_pmm := pmm'\<rparr>;
     if pml4 = 0 then Some s1
     else do {
       s2 \<leftarrow> identity_loop (s1\<lparr>vm_mem := zero_table (vm_mem s1) pml4\<rparr>) pml4 0;
       Some (vmm_load_cr3 s2 pml4) } }"

text \<open>The mapping calls return the C status code.\<close>

definition vmm_map_page :: "vmm_state \<Rightarrow> u64 \<Rightarrow> u64 \<Rightarrow> u64 \<Rightarrow> (vmm_state \<times> int) option" where
  "vmm_map_page s virt phys flags =
     (if g_cr3_phys s = 0 then Some (s, -1)
      else do {
        (s1, pte) \<leftarrow> get_pte s (g_cr3_phys s) virt True;
        case pte of None \<Rightarrow> Some (s1, -2)
        | Some slot \<Rightarrow> Some (s1\<lparr>vm_mem := store64 (vm_mem s1) slot
            ((phys AND NOT 0xFFF) OR (flags AND NOT VMM_PS))\<rparr>, 0) })"

definition vmm_unmap_page :: "vmm_state \<Rightarrow> u64 \<Rightarrow> (vmm_state \<times> int) option" where
  "vmm_unmap_page s virt =
     (if g_cr3_phys s = 0 then Some (s, -1)
      else do {
        (s1, pte) \<leftarrow> get_pte s (g_cr3_phys s) virt False;
        case pte of None \<Rightarrow> Some (s1, -2)
        | Some slot \<Rightarrow> Some (s1\<lparr>vm_mem := store64 (vm_mem s1) slot 0\<rparr>, 0) })"

text \<open>\<open>None\<close> of the result is the return value 0; \<open>Some p\<close> is 1 with \<open>*out_phys = p\<close>. The caller's
  pointer \<open>out_phys\<close> is not NULL.\<close>

definition vmm_virt_to_phys :: "vmm_state \<Rightarrow> u64 \<Rightarrow> u64 option" where
  "vmm_virt_to_phys s virt =
     (if g_cr3_phys s = 0 then None
      else case get_pte s (g_cr3_phys s) virt False of
        Some (_, Some slot) \<Rightarrow>
          (let e = load64 (vm_mem s) slot
           in if e AND VMM_PRESENT = 0 then None
              else Some ((e AND NOT 0xFFF) OR (virt AND 0xFFF)))
      | _ \<Rightarrow> None)"

section \<open>Table entries\<close>

text \<open>Entry \<open>i\<close> of the table in page \<open>t\<close> of physical memory.\<close>

definition slot_addr :: "nat \<Rightarrow> nat \<Rightarrow> u64" where
  "slot_addr t i = of_nat (4096 * t + 8 * i)"

definition ent :: "memory \<Rightarrow> nat \<Rightarrow> nat \<Rightarrow> u64" where
  "ent m t i = load64 m (slot_addr t i)"

abbreviation "pg_max \<equiv> 1048576 :: nat"

lemma unat_slot: "t < pg_max \<Longrightarrow> i < 512 \<Longrightarrow> unat (slot_addr t i) = 4096 * t + 8 * i"
  unfolding slot_addr_def by (rule u64_of_nat_unat) simp

lemma slot_cell: "t < pg_max \<Longrightarrow> i < 512 \<Longrightarrow> cell (slot_addr t i)"
  by (simp add: cell_def unat_slot mod_add_eq [symmetric] mod_mult_left_eq [symmetric])

lemma slot_inj:
  assumes "t < pg_max" "i < 512" "u < pg_max" "j < 512"
  shows "slot_addr t i = slot_addr u j \<longleftrightarrow> t = u \<and> i = j"
proof
  assume "slot_addr t i = slot_addr u j"
  then have "4096 * t + 8 * i = 4096 * u + 8 * j"
    using unat_slot [OF assms(1,2)] unat_slot [OF assms(3,4)] by simp
  then have e: "512 * t + i = 512 * u + j" by simp
  have "(512 * t + i) div 512 = t" "(512 * u + j) div 512 = u" using assms(2,4) by simp_all
  then show "t = u \<and> i = j" using e by simp
qed simp

lemma ent_store:
  assumes "t < pg_max" "i < 512" "u < pg_max" "j < 512"
  shows "ent (store64 m (slot_addr t i) v) u j = (if u = t \<and> j = i then v else ent m u j)"
  using assms slot_cell slot_inj [of u j t i] by (auto simp: ent_def)

lemma ent_zero_table:
  assumes "t < pg_max" "u < pg_max" "j < 512" "unat a = 4096 * t"
  shows "ent (zero_table m a) u j = (if u = t then 0 else ent m u j)"
proof -
  have a: "a + 8 * of_nat i = slot_addr t i" for i
  proof -
    have "of_nat (unat a) = a" by simp
    then have "a = of_nat (4096 * t)" by (simp only: assms(4))
    then show ?thesis by (simp add: slot_addr_def)
  qed
  have "ent (foldl (\<lambda>m i. store64 m (a + 8 * of_nat i) 0) m [0..<n]) u j =
      (if u = t \<and> j < n then 0 else ent m u j)" if "n \<le> 512" for n
    using that
  proof (induction n)
    case 0
    then show ?case by simp
  next
    case (Suc n)
    then show ?case using assms(1-3) by (auto simp: a ent_store)
  qed
  from this [of 512] show ?thesis using assms(3) by (simp add: zero_table_def)
qed

section \<open>The table tree\<close>

definition present :: "u64 \<Rightarrow> bool" where "present e \<longleftrightarrow> e AND VMM_PRESENT \<noteq> 0"
definition frame_of :: "u64 \<Rightarrow> nat" where "frame_of e = unat e div 4096"

text \<open>The table reached from table \<open>t\<close> along a path of indices.\<close>

primrec tab :: "memory \<Rightarrow> nat \<Rightarrow> nat list \<Rightarrow> nat option" where
  "tab m t [] = Some t"
| "tab m t (i # is) = (if present (ent m t i) then tab m (frame_of (ent m t i)) is else None)"

definition path :: "nat list \<Rightarrow> bool" where
  "path is \<longleftrightarrow> length is \<le> 3 \<and> (\<forall>i \<in> set is. i < 512)"

text \<open>The page tables are a tree: every table is an allocated page, on one path only.\<close>

definition tree_inv :: "memory \<Rightarrow> pmm_state \<Rightarrow> nat \<Rightarrow> bool" where
  "tree_inv m p root \<longleftrightarrow>
     (\<forall>is t. path is \<longrightarrow> tab m root is = Some t \<longrightarrow> t < pg_max \<and> \<not> page_free p t) \<and>
     (\<forall>is js t. path is \<longrightarrow> path js \<longrightarrow> tab m root is = Some t \<longrightarrow> tab m root js = Some t \<longrightarrow> is = js)"

text \<open>The present leaf entry at a path of length 3 and an index.\<close>

definition xlate :: "memory \<Rightarrow> nat \<Rightarrow> nat list \<Rightarrow> nat \<Rightarrow> u64 option" where
  "xlate m root is i = (case tab m root is of None \<Rightarrow> None
     | Some t \<Rightarrow> if present (ent m t i) then Some (ent m t i) else None)"

lemma tab_snoc: "tab m t (is @ [i]) = (case tab m t is of None \<Rightarrow> None
    | Some u \<Rightarrow> if present (ent m u i) then Some (frame_of (ent m u i)) else None)"
  by (induction "is" arbitrary: t) auto

lemma path_snoc [simp]: "path (is @ [i]) \<longleftrightarrow> length is < 3 \<and> path is \<and> i < 512"
  by (auto simp: path_def)

lemma path_Nil [simp]: "path []"
  by (simp add: path_def)

lemma tree_invD:
  assumes "tree_inv m p root" "path is" "tab m root is = Some t"
  shows "t < pg_max" "\<not> page_free p t" "path js \<Longrightarrow> tab m root js = Some t \<Longrightarrow> js = is"
  using assms unfolding tree_inv_def by blast+

text \<open>A new table hung at an absent entry.\<close>

lemma tree_extend:
  assumes inv: "tree_inv m p root" and pt: "path (is @ [i])" and t: "tab m root is = Some t"
    and np: "\<not> present (ent m t i)" and f: "page_free p f" "f < pg_max" and e: "present e" "frame_of e = f"
    and ents: "\<forall>u j. u < pg_max \<longrightarrow> j < 512 \<longrightarrow>
      ent m' u j = (if u = f then 0 else if u = t \<and> j = i then e else ent m u j)"
    and p': "\<And>pg. page_free p' pg \<longleftrightarrow> page_free p pg \<and> pg \<noteq> f"
  shows "path js \<Longrightarrow> tab m' root js = (if js = is @ [i] then Some f else tab m root js)"
    and "tree_inv m' p' root"
    and "path js \<Longrightarrow> length js = 3 \<Longrightarrow> k < 512 \<Longrightarrow> xlate m' root js k = xlate m root js k"
proof -
  note m' = ents [rule_format]
  have pi: "path is" and i: "i < 512" using pt by simp_all
  have tf: "t < pg_max" "t \<noteq> f" using tree_invD [OF inv pi t] f(1) by auto
  have none: "tab m root (is @ [i]) = None" using t np by (simp add: tab_snoc)
  have z: "\<not> present 0" by (simp add: present_def)
  have tab': "tab m' root js = (if js = is @ [i] then Some f else tab m root js)" if "path js" for js
    using that
  proof (induction js rule: rev_induct)
    case Nil
    then show ?case by simp
  next
    case (snoc k js)
    then have pj: "path js" and k: "k < 512" by simp_all
    note IH = snoc.IH [OF pj]
    show ?case
    proof (cases "js = is @ [i]")
      case True
      then have "tab m' root js = Some f" "tab m root js = None" "js @ [k] \<noteq> is @ [i]"
        using IH none by simp_all
      then show ?thesis unfolding tab_snoc using m' [OF f(2) k] z by simp
    next
      case False
      show ?thesis
      proof (cases "tab m root js")
        case None
        then show ?thesis using IH False t by (auto simp: tab_snoc)
      next
        case (Some u)
        have u: "u < pg_max" "u \<noteq> f" using tree_invD [OF inv pj Some] f(1) by auto
        have "u = t \<longleftrightarrow> js = is" using tree_invD(3) [OF inv pi t pj] Some t by auto
        then show ?thesis using IH False Some u m' [OF u(1) k] e t by (auto simp: tab_snoc)
      qed
    qed
  qed
  then show "path js \<Longrightarrow> tab m' root js = (if js = is @ [i] then Some f else tab m root js)" .
  have nf: "tab m root js \<noteq> Some f" if "path js" for js using tree_invD(2) [OF inv that] f(1) by blast
  show "tree_inv m' p' root"
    unfolding tree_inv_def
  proof (intro conjI allI impI)
    fix js u assume j: "path js" "tab m' root js = Some u"
    show "u < pg_max" "\<not> page_free p' u"
      using tab' [OF j(1)] j tree_invD [OF inv j(1)] f(2) p' by (auto split: if_splits)
  next
    fix js ks u assume j: "path js" "path ks" "tab m' root js = Some u" "tab m' root ks = Some u"
    show "js = ks"
      using tab' [OF j(1)] tab' [OF j(2)] j nf tree_invD(3) [OF inv] by metis
  qed
  show "xlate m' root js k = xlate m root js k" if j: "path js" "length js = 3" "k < 512"
  proof (cases "js = is @ [i]")
    case True
    then show ?thesis using tab' [OF j(1)] none m' [OF f(2) j(3)] z by (simp add: xlate_def)
  next
    case False
    have "js \<noteq> is" using pt j(2) by auto
    then show ?thesis
      using tab' [OF j(1)] False m' [OF _ j(3)] tree_invD [OF inv j(1)] tree_invD(3) [OF inv pi t j(1)] f(1)
      by (cases "tab m root js") (auto simp: xlate_def)
  qed
qed

text \<open>A leaf entry written.\<close>

lemma tree_write:
  assumes inv: "tree_inv m p root" and pi: "path is" "length is = 3" "i < 512" and t: "tab m root is = Some t"
    and m': "m' = store64 m (slot_addr t i) v"
  shows "path js \<Longrightarrow> tab m' root js = tab m root js" and "tree_inv m' p root"
    and "path js \<Longrightarrow> length js = 3 \<Longrightarrow> k < 512 \<Longrightarrow> xlate m' root js k =
      (if js = is \<and> k = i then (if present v then Some v else None) else xlate m root js k)"
proof -
  have tm: "t < pg_max" using tree_invD [OF inv pi(1) t] by simp
  have ent': "ent m' u j = (if u = t \<and> j = i then v else ent m u j)" if "u < pg_max" "j < 512" for u j
    unfolding m' using ent_store tm pi(3) that by blast
  have tab': "tab m' root js = tab m root js" if "path js" for js
    using that
  proof (induction js rule: rev_induct)
    case (snoc k js)
    then have pj: "path js" "length js < 3" and k: "k < 512" by simp_all
    show ?case
    proof (cases "tab m root js")
      case (Some u)
      have "u \<noteq> t" using tree_invD(3) [OF inv pi(1) t pj(1)] Some pj(2) pi(2) by auto
      then show ?thesis using snoc.IH [OF pj(1)] Some ent' [OF _ k] tree_invD(1) [OF inv pj(1) Some]
        by (simp add: tab_snoc)
    qed (use snoc.IH [OF pj(1)] in \<open>simp add: tab_snoc\<close>)
  qed simp
  then show "path js \<Longrightarrow> tab m' root js = tab m root js" .
  show "tree_inv m' p root" using inv tab' unfolding tree_inv_def by simp
  show "xlate m' root js k = (if js = is \<and> k = i then (if present v then Some v else None) else xlate m root js k)"
    if j: "path js" "length js = 3" "k < 512"
    using tab' [OF j(1)] ent' [OF _ j(3)] tree_invD [OF inv j(1)] tree_invD(3) [OF inv pi(1) t j(1)] t tm
    by (cases "tab m root js") (auto simp: xlate_def)
qed

section \<open>Walking and extending the tables\<close>

definition vm_inv :: "vmm_state \<Rightarrow> nat \<Rightarrow> bool" where
  "vm_inv s root \<longleftrightarrow> pmm_ok (vm_pmm s) \<and> tree_inv (vm_mem s) (vm_pmm s) root"

text \<open>
  What a walk may do to the machine: it adds tables in pages that were free, writes to no page
  that is not a table, and changes no translation.
\<close>

definition tables :: "memory \<Rightarrow> nat \<Rightarrow> nat set" where
  "tables m root = {t. \<exists>is. path is \<and> tab m root is = Some t}"

definition paths :: "memory \<Rightarrow> nat \<Rightarrow> nat list set" where
  "paths m root = {is. path is \<and> tab m root is \<noteq> None}"

text \<open>The pages the page tables own or can still get.\<close>

definition pool :: "vmm_state \<Rightarrow> nat \<Rightarrow> nat set" where
  "pool s root = {pg. page_free (vm_pmm s) pg} \<union> tables (vm_mem s) root"

definition vm_grow :: "nat \<Rightarrow> vmm_state \<Rightarrow> vmm_state \<Rightarrow> bool" where
  "vm_grow root s s' \<longleftrightarrow> vm_inv s' root \<and> s' = s\<lparr>vm_mem := vm_mem s', vm_pmm := vm_pmm s'\<rparr> \<and>
     (\<forall>is t. path is \<longrightarrow> tab (vm_mem s) root is = Some t \<longrightarrow> tab (vm_mem s') root is = Some t) \<and>
     (\<forall>is i. path is \<longrightarrow> length is = 3 \<longrightarrow> i < 512 \<longrightarrow>
        xlate (vm_mem s') root is i = xlate (vm_mem s) root is i) \<and>
     (\<forall>u j. u < pg_max \<longrightarrow> j < 512 \<longrightarrow> u \<notin> tables (vm_mem s') root \<longrightarrow>
        ent (vm_mem s') u j = ent (vm_mem s) u j) \<and>
     (\<forall>pg. page_free (vm_pmm s') pg \<longrightarrow> page_free (vm_pmm s) pg) \<and> pool s' root = pool s root"

lemma vm_grow_refl: "vm_inv s root \<Longrightarrow> vm_grow root s s"
  by (simp add: vm_grow_def)

lemma vm_growD:
  assumes "vm_grow root s s'"
  shows "vm_inv s' root" "s' = s\<lparr>vm_mem := vm_mem s', vm_pmm := vm_pmm s'\<rparr>"
    "path is \<Longrightarrow> tab (vm_mem s) root is = Some t \<Longrightarrow> tab (vm_mem s') root is = Some t"
    "path is \<Longrightarrow> length is = 3 \<Longrightarrow> i < 512 \<Longrightarrow> xlate (vm_mem s') root is i = xlate (vm_mem s) root is i"
    "u < pg_max \<Longrightarrow> j < 512 \<Longrightarrow> u \<notin> tables (vm_mem s') root \<Longrightarrow> ent (vm_mem s') u j = ent (vm_mem s) u j"
    "page_free (vm_pmm s') pg \<Longrightarrow> page_free (vm_pmm s) pg"
    "tables (vm_mem s) root \<subseteq> tables (vm_mem s') root" "pool s' root = pool s root"
  using assms unfolding vm_grow_def tables_def by blast+

lemma vm_grow_trans [trans]:
  assumes "vm_grow root s s'" "vm_grow root s' s''"
  shows "vm_grow root s s''"
proof -
  note a = vm_growD [OF assms(1)] and b = vm_growD [OF assms(2)]
  have e: "s'' = s\<lparr>vm_mem := vm_mem s'', vm_pmm := vm_pmm s''\<rparr>"
    using a(2) b(2) by (metis vmm_state.surjective vmm_state.update_convs(1,2))
  show ?thesis unfolding vm_grow_def
  proof (intro conjI allI impI)
    fix u j :: nat assume u: "u < pg_max" "j < 512" "u \<notin> tables (vm_mem s'') root"
    then have "u \<notin> tables (vm_mem s') root" using b(7) by blast
    then show "ent (vm_mem s'') u j = ent (vm_mem s) u j" using a(5) b(5) u by simp
  qed (use a b e in \<open>auto\<close>)
qed

lemma table_addr: "unat (e AND NOT 0xFFF :: u64) = 4096 * frame_of e"
  by (simp add: frame_of_def unat_page_down [simplified])

lemma slot_of:
  assumes "unat tbl = 4096 * t"
  shows "tbl + 8 * idx = slot_addr t (unat idx)"
proof -
  have "of_nat (unat tbl) = tbl" "of_nat (unat idx) = idx" by simp_all
  then have "tbl = of_nat (4096 * t)" by (simp only: assms)
  then show ?thesis by (simp add: slot_addr_def)
qed

lemma present_bit: "present e \<longleftrightarrow> bit e 0"
  by (simp add: present_def VMM_PRESENT_def and_one_eq bit_0 even_iff_mod_2_eq_zero)

lemma new_entry:
  assumes "unat newp = 4096 * f" "newp \<noteq> 0"
  shows "present (newp OR VMM_PRESENT OR VMM_RW)" "frame_of (newp OR VMM_PRESENT OR VMM_RW) = f"
proof -
  show "present (newp OR VMM_PRESENT OR VMM_RW)"
    by (simp add: present_bit vmm_flags bit_simps)
  have "(newp OR 3) AND NOT 0xFFF = newp AND NOT 0xFFF"
    by (simp add: bit.conj_disj_distrib2)
  then have "unat ((newp OR 3) AND NOT 0xFFF) = 4096 * f"
    using assms(1) by (simp only: unat_page_down) simp
  then show "frame_of (newp OR VMM_PRESENT OR VMM_RW) = f"
    unfolding table_addr by (simp add: vmm_flags)
qed

lemma get_level_new:
  assumes inv: "vm_inv s root" and pt: "path (is @ [i])" and t: "tab (vm_mem s) root is = Some t"
    and np: "\<not> present (ent (vm_mem s) t i)"
    and al: "pmm_alloc_frames (vm_pmm s) 1 = Some (p', newp)" "newp \<noteq> 0"
    and e: "e = newp OR VMM_PRESENT OR VMM_RW"
    and s': "s' = s\<lparr>vm_mem := store64 (zero_table (vm_mem s) newp) (slot_addr t i) e, vm_pmm := p'\<rparr>"
  shows "vm_grow root s s'" "tab (vm_mem s') root (is @ [i]) = Some (frame_of e)"
    "paths (vm_mem s') root = insert (is @ [i]) (paths (vm_mem s) root)"
proof -
  have ok: "pmm_ok (vm_pmm s)" and ti: "tree_inv (vm_mem s) (vm_pmm s) root"
    using inv by (simp_all add: vm_inv_def)
  obtain f where f: "unat newp = 4096 * f" "f < pg_max" "page_free (vm_pmm s) f"
    "\<And>g. page_free p' g \<longleftrightarrow> page_free (vm_pmm s) g \<and> g \<noteq> f"
    using pmm.alloc_one_page [OF ok al] by blast
  have ok': "pmm_ok p'" using pmm.alloc_ok [OF ok _ al(1)] by simp
  have tp: "path is" "i < 512" using pt by simp_all
  have tm: "t < pg_max" "t \<noteq> f" using tree_invD [OF ti tp(1) t] f(3) by auto
  have ents: "\<forall>u j. u < pg_max \<longrightarrow> j < 512 \<longrightarrow>
      ent (vm_mem s') u j = (if u = f then 0 else if u = t \<and> j = i then e else ent (vm_mem s) u j)"
    using tm f(1,2) tp(2) by (simp add: s' ent_store ent_zero_table)
  note ent' = ents [rule_format]
  have pe: "present e" "frame_of e = f" using new_entry [OF f(1) al(2)] by (simp_all add: e)
  note x = tree_extend [OF ti pt t np f(3,2) pe ents f(4)]
  show tb: "tab (vm_mem s') root (is @ [i]) = Some (frame_of e)" using x(1) [OF pt] pe(2) by simp
  have none: "tab (vm_mem s) root (is @ [i]) = None" using t np by (simp add: tab_snoc)
  have tbl: "t \<in> tables (vm_mem s') root" "f \<in> tables (vm_mem s') root"
  proof -
    have "is \<noteq> is @ [i]" by simp
    then show "t \<in> tables (vm_mem s') root" using x(1) [OF tp(1)] tp(1) t unfolding tables_def by auto
    show "f \<in> tables (vm_mem s') root" using tb pt pe(2) unfolding tables_def by blast
  qed
  show ps: "paths (vm_mem s') root = insert (is @ [i]) (paths (vm_mem s) root)"
    using x(1) pt by (auto simp: paths_def split: if_splits)
  have "tab (vm_mem s') root js = Some u" if "path js" "tab (vm_mem s) root js = Some u" for js u
    using x(1) [OF that(1)] that none by auto
  then have "tables (vm_mem s) root \<subseteq> tables (vm_mem s') root" unfolding tables_def by blast
  moreover have "tables (vm_mem s') root \<subseteq> insert f (tables (vm_mem s) root)"
    using x(1) unfolding tables_def by (auto split: if_splits)
  ultimately have "tables (vm_mem s') root = insert f (tables (vm_mem s) root)" using tbl(2) by blast
  then have pl: "pool s' root = pool s root" using f(3,4) by (auto simp: pool_def s')
  show "vm_grow root s s'"
    unfolding vm_grow_def
  proof (intro conjI allI impI)
    show "vm_inv s' root" using x(2) ok' by (simp add: vm_inv_def s')
    show "s' = s\<lparr>vm_mem := vm_mem s', vm_pmm := vm_pmm s'\<rparr>" by (simp add: s')
  next
    fix js u assume j: "path js" "tab (vm_mem s) root js = Some u"
    then show "tab (vm_mem s') root js = Some u" using x(1) [OF j(1)] none by auto
  next
    fix js :: "nat list" and k :: nat assume "path js" "length js = 3" "k < 512"
    then show "xlate (vm_mem s') root js k = xlate (vm_mem s) root js k" by (rule x(3))
  next
    fix u j :: nat assume u: "u < pg_max" "j < 512" "u \<notin> tables (vm_mem s') root"
    then have "u \<noteq> t" "u \<noteq> f" using tbl by auto
    then show "ent (vm_mem s') u j = ent (vm_mem s) u j" using ent' [OF u(1,2)] by simp
  next
    fix pg assume "page_free (vm_pmm s') pg"
    then show "page_free (vm_pmm s) pg" using f(4) by (simp add: s')
  qed (rule pl)
qed

lemma get_level_ok:
  assumes inv: "vm_inv s root" and pt: "path (is @ [unat idx])"
    and t: "tab (vm_mem s) root is = Some t" and tbl: "unat tbl = 4096 * t"
  shows "\<exists>s' r. get_level s tbl idx create = Some (s', r) \<and> vm_grow root s s' \<and> (\<not> create \<longrightarrow> s' = s) \<and>
    paths (vm_mem s') root \<subseteq> insert (is @ [unat idx]) (paths (vm_mem s) root) \<and>
    (case r of None \<Rightarrow> s' = s \<and> tab (vm_mem s) root (is @ [unat idx]) = None \<and>
        (create \<longrightarrow> (\<forall>pg. \<not> page_free (vm_pmm s) pg))
     | Some e \<Rightarrow> tab (vm_mem s') root (is @ [unat idx]) = Some (frame_of e))"
proof -
  let ?e = "ent (vm_mem s) t (unat idx)"
  have ld: "load64 (vm_mem s) (tbl + 8 * idx) = ?e" by (simp add: slot_of [OF tbl] ent_def)
  have ok: "pmm_ok (vm_pmm s)" using inv by (simp add: vm_inv_def)
  show ?thesis
  proof (cases "present ?e")
    case True
    then have "get_level s tbl idx create = Some (s, Some ?e)"
      by (simp add: get_level_def ld present_def)
    then show ?thesis using True t vm_grow_refl [OF inv] by (simp add: tab_snoc subset_insertI)
  next
    case False
    then have none: "tab (vm_mem s) root (is @ [unat idx]) = None" using t by (simp add: tab_snoc)
    show ?thesis
    proof (cases create)
      case cr: True
      obtain p' newp where al: "pmm_alloc_frames (vm_pmm s) 1 = Some (p', newp)"
        using pmm.alloc_total [OF ok, of 1] by auto
      show ?thesis
      proof (cases "newp = 0")
        case True
        have "p' = vm_pmm s" using pmm.alloc_fail [OF ok, of 1 p'] al True by simp
        then have "get_level s tbl idx create = Some (s, None)"
          using False cr al True by (simp add: get_level_def ld present_def)
        moreover have "\<not> page_free (vm_pmm s) pg" for pg using pmm.alloc_full [OF ok] al True by simp
        ultimately show ?thesis using none vm_grow_refl [OF inv] by (simp add: subset_insertI)
      next
        case nz: False
        let ?n = "newp OR VMM_PRESENT OR VMM_RW"
        let ?s = "s\<lparr>vm_mem := store64 (zero_table (vm_mem s) newp) (slot_addr t (unat idx)) ?n, vm_pmm := p'\<rparr>"
        have "get_level s tbl idx create = Some (?s, Some ?n)"
          using False cr al nz by (simp add: get_level_def ld present_def Let_def) (simp add: slot_of [OF tbl])
        then show ?thesis using get_level_new [OF inv pt t False al nz refl refl] cr by simp
      qed
    next
      case nc: False
      then have "get_level s tbl idx create = Some (s, None)"
        using False by (simp add: get_level_def ld present_def)
      then show ?thesis using nc none vm_grow_refl [OF inv] by (simp add: subset_insertI)
    qed
  qed
qed

text \<open>The path and the leaf index of a virtual address.\<close>

definition vpath :: "u64 \<Rightarrow> nat list" where
  "vpath va = [unat va div 2 ^ 39 mod 512, unat va div 2 ^ 30 mod 512, unat va div 2 ^ 21 mod 512]"

definition vidx :: "u64 \<Rightarrow> nat" where "vidx va = unat va div 2 ^ 12 mod 512"

lemma vpath_path [simp]: "path (vpath va)" "length (vpath va) = 3" "vidx va < 512"
  by (simp_all add: vpath_def path_def vidx_def)

lemma vm_index: "unat (drop_bit n va AND 0x1FF :: u64) = unat va div 2 ^ n mod 512"
  by (simp add: unat_low9 unat_drop_bit_eq drop_bit_nat_def)

lemma get_pte_ok:
  assumes inv: "vm_inv s root" and r: "unat pml4 = 4096 * root"
  shows "\<exists>s' r. get_pte s pml4 va create = Some (s', r) \<and> vm_grow root s s' \<and> (\<not> create \<longrightarrow> s' = s) \<and>
    paths (vm_mem s') root \<subseteq> paths (vm_mem s) root \<union> {take n (vpath va) | n. True} \<and>
    (case r of None \<Rightarrow> tab (vm_mem s') root (vpath va) = None \<and>
        (create \<longrightarrow> (\<forall>pg. \<not> page_free (vm_pmm s') pg))
     | Some slot \<Rightarrow> \<exists>t. tab (vm_mem s') root (vpath va) = Some t \<and> slot = slot_addr t (vidx va))"
proof -
  let ?i = "drop_bit 39 va AND 0x1FF" and ?j = "drop_bit 30 va AND 0x1FF" and ?k = "drop_bit 21 va AND 0x1FF"
  have p: "path ([] @ [unat ?i])" "path ([unat ?i] @ [unat ?j])" "path ([unat ?i, unat ?j] @ [unat ?k])"
    "vpath va = [unat ?i, unat ?j, unat ?k]"
    by (simp_all add: vm_index vpath_def path_def)
  have pre: "[unat ?i] \<in> {take n (vpath va) | n. True}" "[unat ?i, unat ?j] \<in> {take n (vpath va) | n. True}"
    "[unat ?i, unat ?j, unat ?k] \<in> {take n (vpath va) | n. True}"
    unfolding p(4) by (auto intro: exI [of _ 1] exI [of _ 2] exI [of _ 3])
  have short: "tab m root (vpath va) = None" if "tab m root [unat ?i] = None" for m
    using that unfolding p(4) by (auto split: if_splits)
  have short2: "tab m root (vpath va) = None" if "tab m root [unat ?i, unat ?j] = None" for m
    using that unfolding p(4) by (auto split: if_splits)
  obtain s1 r1 where l1: "get_level s pml4 ?i create = Some (s1, r1)" "vm_grow root s s1" "\<not> create \<longrightarrow> s1 = s"
    "paths (vm_mem s1) root \<subseteq> insert ([] @ [unat ?i]) (paths (vm_mem s) root)"
    and c1: "case r1 of None \<Rightarrow> s1 = s \<and> tab (vm_mem s) root ([] @ [unat ?i]) = None \<and>
        (create \<longrightarrow> (\<forall>pg. \<not> page_free (vm_pmm s) pg))
     | Some e \<Rightarrow> tab (vm_mem s1) root ([] @ [unat ?i]) = Some (frame_of e)"
    using get_level_ok [OF inv p(1) _ r, of create] by auto
  show ?thesis
  proof (cases r1)
    case None
    then show ?thesis using l1 c1 short by (simp add: get_pte_def le_supI1)
  next
    case (Some e1)
    have t1: "tab (vm_mem s1) root [unat ?i] = Some (frame_of e1)" using c1 Some by simp
    obtain s2 r2 where l2: "get_level s1 (e1 AND NOT 0xFFF) ?j create = Some (s2, r2)" "vm_grow root s1 s2"
        "\<not> create \<longrightarrow> s2 = s1"
        "paths (vm_mem s2) root \<subseteq> insert ([unat ?i] @ [unat ?j]) (paths (vm_mem s1) root)"
      and c2: "case r2 of None \<Rightarrow> s2 = s1 \<and> tab (vm_mem s1) root ([unat ?i] @ [unat ?j]) = None \<and>
        (create \<longrightarrow> (\<forall>pg. \<not> page_free (vm_pmm s1) pg))
       | Some e \<Rightarrow> tab (vm_mem s2) root ([unat ?i] @ [unat ?j]) = Some (frame_of e)"
      using get_level_ok [OF vm_growD(1) [OF l1(2)] p(2) t1 table_addr, of create] by blast
    have g2: "vm_grow root s s2" using vm_grow_trans [OF l1(2) l2(2)] .
    show ?thesis
    proof (cases r2)
      case None
      have "get_pte s pml4 va create = Some (s2, None)" unfolding get_pte_def Let_def using l1(1) Some l2(1) None by simp
      moreover have "paths (vm_mem s2) root \<subseteq> paths (vm_mem s) root \<union> {take n (vpath va) | n. True}"
        using l1(4) l2(4) pre(1,2) by auto
      ultimately show ?thesis using l1(3) l2(3) c2 g2 short2 None by simp
    next
      case some2: (Some e2)
      have t2: "tab (vm_mem s2) root [unat ?i, unat ?j] = Some (frame_of e2)" using c2 some2 by simp
      obtain s3 r3 where l3: "get_level s2 (e2 AND NOT 0xFFF) ?k create = Some (s3, r3)" "vm_grow root s2 s3"
          "\<not> create \<longrightarrow> s3 = s2"
          "paths (vm_mem s3) root \<subseteq> insert ([unat ?i, unat ?j] @ [unat ?k]) (paths (vm_mem s2) root)"
        and c3: "case r3 of None \<Rightarrow> s3 = s2 \<and> tab (vm_mem s2) root ([unat ?i, unat ?j] @ [unat ?k]) = None \<and>
          (create \<longrightarrow> (\<forall>pg. \<not> page_free (vm_pmm s2) pg))
         | Some e \<Rightarrow> tab (vm_mem s3) root ([unat ?i, unat ?j] @ [unat ?k]) = Some (frame_of e)"
        using get_level_ok [OF vm_growD(1) [OF l2(2)] p(3) t2 table_addr, of create] by blast
      have g3: "vm_grow root s s3" using vm_grow_trans [OF g2 l3(2)] .
      have ps: "paths (vm_mem s3) root \<subseteq> paths (vm_mem s) root \<union> {take n (vpath va) | n. True}"
        using l1(4) l2(4) l3(4) pre by auto
      have q: "vpath va = [unat ?i, unat ?j] @ [unat ?k]" using p(4) by simp
      show ?thesis
      proof (cases r3)
        case None
        have "get_pte s pml4 va create = Some (s3, None)"
          unfolding get_pte_def Let_def using l1(1) Some l2(1) some2 l3(1) None by simp
        then show ?thesis using l1(3) l2(3) l3(3) c3 g3 None ps unfolding q by auto
      next
        case some3: (Some e3)
        have "get_pte s pml4 va create = Some (s3, Some ((e3 AND NOT 0xFFF) + 8 * (drop_bit 12 va AND 0x1FF)))"
          unfolding get_pte_def Let_def using l1(1) Some l2(1) some2 l3(1) some3 by simp
        moreover have "(e3 AND NOT 0xFFF) + 8 * (drop_bit 12 va AND 0x1FF) = slot_addr (frame_of e3) (vidx va)"
          unfolding slot_of [OF table_addr] vidx_def vm_index ..
        ultimately show ?thesis using l1(3) l2(3) l3(3) c3 g3 some3 ps unfolding q by auto
      qed
    qed
  qed
qed

text \<open>The translation the tables give, in terms of \<open>xlate\<close>.\<close>

definition root_of :: "vmm_state \<Rightarrow> nat" where "root_of s = unat (g_cr3_phys s) div 4096"

definition vmm_ok :: "vmm_state \<Rightarrow> bool" where
  "vmm_ok s \<longleftrightarrow> g_cr3_phys s \<noteq> 0 \<and> unat (g_cr3_phys s) mod 4096 = 0 \<and> vm_inv s (root_of s)"

lemma vmm_okD:
  assumes "vmm_ok s"
  shows "g_cr3_phys s \<noteq> 0" "unat (g_cr3_phys s) = 4096 * root_of s" "vm_inv s (root_of s)"
  using assms unfolding vmm_ok_def root_of_def by auto

lemma virt_to_phys_xlate:
  assumes "vmm_ok s"
  shows "vmm_virt_to_phys s va = map_option (\<lambda>e. (e AND NOT 0xFFF) OR (va AND 0xFFF))
    (xlate (vm_mem s) (root_of s) (vpath va) (vidx va))"
proof -
  note k = vmm_okD [OF assms]
  obtain s' r where g: "get_pte s (g_cr3_phys s) va False = Some (s', r)" "s' = s"
    and c: "case r of None \<Rightarrow> tab (vm_mem s') (root_of s) (vpath va) = None
     | Some slot \<Rightarrow> \<exists>t. tab (vm_mem s') (root_of s) (vpath va) = Some t \<and> slot = slot_addr t (vidx va)"
    using get_pte_ok [OF k(3,2), of va False] by (auto split: option.splits)
  show ?thesis
  proof (cases r)
    case None
    then show ?thesis using g c k(1) by (simp add: vmm_virt_to_phys_def xlate_def)
  next
    case (Some slot)
    then obtain t where "tab (vm_mem s) (root_of s) (vpath va) = Some t" "slot = slot_addr t (vidx va)"
      using c g(2) by auto
    then show ?thesis using g k(1) Some
      by (simp add: vmm_virt_to_phys_def xlate_def Let_def ent_def present_def)
  qed
qed

end
