(* ===== verification/Vmm_Correct.thy ===== *)
theory Vmm_Correct
  imports Vmm
begin

text \<open>
  Correctness of the virtual memory manager: the effect of \<open>vmm_map_page\<close>, \<open>vmm_unmap_page\<close> and
  \<open>vmm_init_identity\<close> on the translation of every virtual address.
\<close>

section \<open>Virtual pages\<close>

definition vpage :: "u64 \<Rightarrow> nat" where "vpage va = unat va div 4096 mod 2 ^ 36"

lemma digits512:
  fixes x :: nat
  shows "x mod 2 ^ 36 = x mod 512 + 512 * (x div 2 ^ 9 mod 512 + 512 * (x div 2 ^ 18 mod 512 + 512 * (x div 2 ^ 27 mod 512)))"
proof -
  have step: "y mod (512 * n) = y mod 512 + 512 * (y div 512 mod n)" for y n :: nat
    by (simp add: mod_mult2_eq)
  have "x mod (512 * (512 * (512 * 512))) = x mod 512 +
      512 * (x div 512 mod 512 + 512 * (x div 512 div 512 mod 512 + 512 * (x div 512 div 512 div 512 mod 512)))"
    by (simp only: step)
  then show ?thesis by (simp add: div_mult2_eq [symmetric])
qed

lemma same_vpage: "vpath va = vpath vb \<and> vidx va = vidx vb \<longleftrightarrow> vpage va = vpage vb"
proof -
  define x y where "x = unat va div 4096" and "y = unat vb div 4096"
  have d: "z div 2 ^ 39 = z div 4096 div 2 ^ 27" "z div 2 ^ 30 = z div 4096 div 2 ^ 18"
    "z div 2 ^ 21 = z div 4096 div 2 ^ 9" "z div 2 ^ 12 = z div 4096" for z :: nat
    by (simp_all add: div_mult2_eq [symmetric])
  have l: "vpath va = vpath vb \<and> vidx va = vidx vb \<longleftrightarrow> x div 2 ^ 27 mod 512 = y div 2 ^ 27 mod 512 \<and>
      x div 2 ^ 18 mod 512 = y div 2 ^ 18 mod 512 \<and> x div 2 ^ 9 mod 512 = y div 2 ^ 9 mod 512 \<and> x mod 512 = y mod 512"
    unfolding vpath_def vidx_def d x_def y_def by auto
  have digit: "a + 512 * m = a' + 512 * n \<longleftrightarrow> m = n \<and> a = a'" if "a < 512" "a' < 512" for a a' m n :: nat
  proof
    assume e: "a + 512 * m = a' + 512 * n"
    have "(a + 512 * m) div 512 = m" "(a' + 512 * n) div 512 = n" using that by simp_all
    then show "m = n \<and> a = a'" using e by auto
  qed simp
  have r: "a + 512 * (b + 512 * (c + 512 * e)) = a' + 512 * (b' + 512 * (c' + 512 * e')) \<longleftrightarrow>
      e = e' \<and> c = c' \<and> b = b' \<and> a = a'"
    if "a < 512" "b < 512" "c < 512" "a' < 512" "b' < 512" "c' < 512" for a b c e a' b' c' e' :: nat
    using that by (simp only: digit simp_thms conj_assoc)
  show ?thesis unfolding l vpage_def x_def [symmetric] y_def [symmetric] digits512
    by (subst r) auto
qed

section \<open>Writing a leaf\<close>

lemma write_leaf:
  assumes g: "vm_grow root s s1" and t: "tab (vm_mem s1) root (vpath va) = Some t"
    and s2: "s2 = s1\<lparr>vm_mem := store64 (vm_mem s1) (slot_addr t (vidx va)) v\<rparr>"
  shows "vm_inv s2 root"
    and "xlate (vm_mem s2) root (vpath vb) (vidx vb) = (if vpage vb = vpage va
      then (if present v then Some v else None) else xlate (vm_mem s) root (vpath vb) (vidx vb))"
    and "path js \<Longrightarrow> tab (vm_mem s2) root js = tab (vm_mem s1) root js"
    and "u < pg_max \<Longrightarrow> j < 512 \<Longrightarrow> u \<notin> tables (vm_mem s2) root \<Longrightarrow> ent (vm_mem s2) u j = ent (vm_mem s) u j"
proof -
  have i1: "vm_inv s1 root" using vm_growD(1) [OF g] .
  then have ti: "tree_inv (vm_mem s1) (vm_pmm s1) root" by (simp add: vm_inv_def)
  have m2: "vm_mem s2 = store64 (vm_mem s1) (slot_addr t (vidx va)) v" by (simp add: s2)
  note w = tree_write [OF ti vpath_path t m2]
  show "vm_inv s2 root" using w(2) i1 by (simp add: vm_inv_def s2)
  show tb: "tab (vm_mem s2) root js = tab (vm_mem s1) root js" if "path js" for js
    using w(1) [OF that] .
  show "xlate (vm_mem s2) root (vpath vb) (vidx vb) = (if vpage vb = vpage va
      then (if present v then Some v else None) else xlate (vm_mem s) root (vpath vb) (vidx vb))"
    unfolding w(3) [OF vpath_path] vm_growD(4) [OF g vpath_path] same_vpage [symmetric] ..
  have tt: "tables (vm_mem s2) root = tables (vm_mem s1) root" "t \<in> tables (vm_mem s2) root"
  proof -
    show "tables (vm_mem s2) root = tables (vm_mem s1) root" using tb unfolding tables_def by auto
    moreover have "t \<in> tables (vm_mem s1) root" using t vpath_path(1) [of va] unfolding tables_def by blast
    ultimately show "t \<in> tables (vm_mem s2) root" by simp
  qed
  show "ent (vm_mem s2) u j = ent (vm_mem s) u j"
    if u: "u < pg_max" "j < 512" "u \<notin> tables (vm_mem s2) root"
  proof -
    have "t < pg_max" using tree_invD(1) [OF ti vpath_path(1) t] .
    then have "ent (vm_mem s2) u j = ent (vm_mem s1) u j"
      using ent_store [of t "vidx va" u j "vm_mem s1" v] u tt(2) by (auto simp: m2)
    also have "\<dots> = ent (vm_mem s) u j" using vm_growD(5) [OF g] u tt(1) by simp
    finally show ?thesis .
  qed
qed

lemma vm_grow_frame:
  assumes "vm_grow root s s'"
  shows "g_cr3_phys s' = g_cr3_phys s" "cpu_cr3 s' = cpu_cr3 s"
  by (subst vm_growD(2) [OF assms], simp)+

lemma pte_value:
  assumes "flags AND NOT 0xFFF = 0"
  shows "((phys AND NOT 0xFFF) OR (flags AND NOT VMM_PS)) AND NOT 0xFFF = phys AND NOT (0xFFF :: u64)"
proof -
  have "(flags AND NOT VMM_PS) AND NOT 0xFFF = 0"
    using assms by (metis and.assoc and.commute and_zero_eq)
  then show ?thesis by (simp add: bit.conj_disj_distrib2 and.assoc)
qed

section \<open>The mapping calls\<close>

lemma vmm_ok_transfer:
  assumes "vmm_ok s" "g_cr3_phys s' = g_cr3_phys s" "vm_inv s' (root_of s)"
  shows "vmm_ok s'" "root_of s' = root_of s"
  using assms by (simp_all add: vmm_ok_def root_of_def)

lemma map_page_ok:
  assumes ok: "vmm_ok s"
  shows "\<exists>s' r. vmm_map_page s virt phys flags = Some (s', r) \<and> vmm_ok s' \<and> root_of s' = root_of s \<and>
    (r = 0 \<or> r = -2) \<and> (r = -2 \<longrightarrow> (\<forall>pg. \<not> page_free (vm_pmm s') pg)) \<and>
    (r = -2 \<longrightarrow> tab (vm_mem s') (root_of s) (vpath virt) = None) \<and>
    paths (vm_mem s') (root_of s) \<subseteq> paths (vm_mem s) (root_of s) \<union> {take n (vpath virt) | n. True} \<and>
    pool s' (root_of s) = pool s (root_of s) \<and>
    (\<forall>vb. xlate (vm_mem s') (root_of s) (vpath vb) (vidx vb) =
       (if r = 0 \<and> vpage vb = vpage virt
        then (let e = (phys AND NOT 0xFFF) OR (flags AND NOT VMM_PS) in if present e then Some e else None)
        else xlate (vm_mem s) (root_of s) (vpath vb) (vidx vb))) \<and>
    (\<forall>u j. u < pg_max \<longrightarrow> j < 512 \<longrightarrow> u \<notin> tables (vm_mem s') (root_of s) \<longrightarrow>
       ent (vm_mem s') u j = ent (vm_mem s) u j)"
proof -
  note k = vmm_okD [OF ok]
  let ?R = "root_of s" and ?v = "(phys AND NOT 0xFFF) OR (flags AND NOT VMM_PS)"
  obtain s1 r where g: "get_pte s (g_cr3_phys s) virt True = Some (s1, r)" "vm_grow ?R s s1"
    "paths (vm_mem s1) ?R \<subseteq> paths (vm_mem s) ?R \<union> {take n (vpath virt) | n. True}"
    and c: "case r of None \<Rightarrow> tab (vm_mem s1) ?R (vpath virt) = None \<and> (\<forall>pg. \<not> page_free (vm_pmm s1) pg)
     | Some slot \<Rightarrow> \<exists>t. tab (vm_mem s1) ?R (vpath virt) = Some t \<and> slot = slot_addr t (vidx virt)"
    using get_pte_ok [OF k(3,2), of virt True, unfolded simp_thms] by blast
  note gr = vm_growD [OF g(2)] and fr = vm_grow_frame [OF g(2)]
  show ?thesis
  proof (cases r)
    case None
    have "vmm_map_page s virt phys flags = Some (s1, -2)" using g(1) None k(1) by (simp add: vmm_map_page_def)
    then show ?thesis using None c g(3) gr(5,8) vmm_ok_transfer [OF ok fr(1) gr(1)] gr(4) [OF vpath_path] by simp
  next
    case (Some slot)
    then obtain t where t: "tab (vm_mem s1) ?R (vpath virt) = Some t" "slot = slot_addr t (vidx virt)" using c by auto
    let ?s = "s1\<lparr>vm_mem := store64 (vm_mem s1) (slot_addr t (vidx virt)) ?v\<rparr>"
    note w = write_leaf [OF g(2) t(1), of ?s ?v, OF refl]
    have r: "vmm_map_page s virt phys flags = Some (?s, 0)"
      using g(1) Some t(2) k(1) by (simp add: vmm_map_page_def)
    have cr: "g_cr3_phys ?s = g_cr3_phys s" using fr(1) by simp
    have pt: "paths (vm_mem ?s) ?R = paths (vm_mem s1) ?R" "tables (vm_mem ?s) ?R = tables (vm_mem s1) ?R"
      using w(3) unfolding paths_def tables_def by auto
    have pl: "pool ?s ?R = pool s ?R" using pt(2) gr(8) by (simp add: pool_def)
    show ?thesis
    proof (intro exI conjI)
      show "vmm_map_page s virt phys flags = Some (?s, 0)" by (rule r)
      show "vmm_ok ?s" "root_of ?s = ?R" using vmm_ok_transfer [OF ok cr w(1)] by simp_all
      show "paths (vm_mem ?s) ?R \<subseteq> paths (vm_mem s) ?R \<union> {take n (vpath virt) | n. True}"
        using pt(1) g(3) by simp
      show "pool ?s ?R = pool s ?R" by (rule pl)
      show "\<forall>vb. xlate (vm_mem ?s) ?R (vpath vb) (vidx vb) = (if (0 :: int) = 0 \<and> vpage vb = vpage virt
          then (let e = ?v in if present e then Some e else None) else xlate (vm_mem s) ?R (vpath vb) (vidx vb))"
        using w(2) by (simp add: Let_def)
      show "\<forall>u j. u < pg_max \<longrightarrow> j < 512 \<longrightarrow> u \<notin> tables (vm_mem ?s) ?R \<longrightarrow> ent (vm_mem ?s) u j = ent (vm_mem s) u j"
        using w(4) by blast
    qed simp_all
  qed
qed

lemma unmap_page_ok:
  assumes ok: "vmm_ok s"
  shows "\<exists>s' r. vmm_unmap_page s virt = Some (s', r) \<and> vmm_ok s' \<and> root_of s' = root_of s \<and>
    (r = 0 \<or> r = -2 \<and> s' = s) \<and> vm_pmm s' = vm_pmm s \<and>
    (\<forall>vb. xlate (vm_mem s') (root_of s) (vpath vb) (vidx vb) =
       (if vpage vb = vpage virt then None else xlate (vm_mem s) (root_of s) (vpath vb) (vidx vb)))"
proof -
  note k = vmm_okD [OF ok]
  let ?R = "root_of s"
  obtain r where g: "get_pte s (g_cr3_phys s) virt False = Some (s, r)"
    and c: "case r of None \<Rightarrow> tab (vm_mem s) ?R (vpath virt) = None
     | Some slot \<Rightarrow> \<exists>t. tab (vm_mem s) ?R (vpath virt) = Some t \<and> slot = slot_addr t (vidx virt)"
    using get_pte_ok [OF k(3,2), of virt False, unfolded simp_thms] by blast
  show ?thesis
  proof (cases r)
    case None
    have "vmm_unmap_page s virt = Some (s, -2)" using g None k(1) by (simp add: vmm_unmap_page_def)
    moreover have "xlate (vm_mem s) ?R (vpath vb) (vidx vb) = None" if "vpage vb = vpage virt" for vb
      using that c None same_vpage [of vb virt] by (simp add: xlate_def)
    ultimately show ?thesis using ok by simp
  next
    case (Some slot)
    then obtain t where t: "tab (vm_mem s) ?R (vpath virt) = Some t" "slot = slot_addr t (vidx virt)" using c by auto
    let ?s = "s\<lparr>vm_mem := store64 (vm_mem s) (slot_addr t (vidx virt)) 0\<rparr>"
    note w = write_leaf [OF vm_grow_refl [OF k(3)] t(1), of ?s 0, OF refl]
    have r: "vmm_unmap_page s virt = Some (?s, 0)" using g Some t(2) k(1) by (simp add: vmm_unmap_page_def)
    have z: "\<not> present 0" by (simp add: present_def)
    have "vmm_ok ?s" "root_of ?s = ?R" using vmm_ok_transfer [OF ok _ w(1)] by simp_all
    then show ?thesis using r w(2) z by simp
  qed
qed

section \<open>The identity map\<close>

text \<open>The paths of the addresses below 4 GiB: 2054 tables.\<close>

definition low_paths :: "nat list set" where
  "low_paths = insert [] (insert [0] ((\<lambda>i. [0, i]) ` {..<4} \<union> (\<lambda>(i, j). [0, i, j]) ` ({..<4} \<times> {..<512})))"

lemma low_paths_card: "finite low_paths" "card low_paths \<le> 2054"
proof -
  let ?A = "(\<lambda>i. [0, i :: nat]) ` {..<4}" and ?B = "(\<lambda>(i, j). [0, i, j :: nat]) ` ({..<4} \<times> {..<512})"
  show "finite low_paths" by (simp add: low_paths_def)
  have "card ?A \<le> 4" "card ?B \<le> 2048"
    using card_image_le [of "{..<4 :: nat}" "\<lambda>i. [0, i]"]
      card_image_le [of "{..<4 :: nat} \<times> {..<512 :: nat}" "\<lambda>(i, j). [0, i, j]"] by simp_all
  then have "card (?A \<union> ?B) \<le> 2052" using card_Un_le [of ?A ?B] by linarith
  then show "card low_paths \<le> 2054" unfolding low_paths_def
    using card_insert_le_m1 [of 2053 "?A \<union> ?B" "[0]"] card_insert_le_m1 [of 2054 "insert [0] (?A \<union> ?B)" "[]"]
    by simp
qed

lemma vpath_low:
  assumes "unat a < 4294967296"
  shows "take n (vpath a) \<in> low_paths"
proof -
  have z: "unat a div 2 ^ 39 mod 512 = 0" using assms by simp
  have i: "unat a div 2 ^ 30 mod 512 < 4"
  proof -
    have "unat a div 2 ^ 30 < 4" using assms by (simp add: div_less_iff_less_mult)
    then show ?thesis by simp
  qed
  have "take n (vpath a) \<in> {[], [0], [0, unat a div 2 ^ 30 mod 512],
      [0, unat a div 2 ^ 30 mod 512, unat a div 2 ^ 21 mod 512]}"
    unfolding vpath_def z
    by (cases n; cases "n - 1"; cases "n - 2") (auto simp: take_Cons split: nat.splits)
  moreover have "[] \<in> low_paths" "[0] \<in> low_paths" by (simp_all add: low_paths_def)
  moreover have "[0, unat a div 2 ^ 30 mod 512] \<in> low_paths"
    using i unfolding low_paths_def by blast
  moreover have "[0, unat a div 2 ^ 30 mod 512, unat a div 2 ^ 21 mod 512] \<in> low_paths"
    using i unfolding low_paths_def
    by (intro insertI2 UnI2 image_eqI [of _ _ "(unat a div 2 ^ 30 mod 512, unat a div 2 ^ 21 mod 512)"]) auto
  ultimately show ?thesis by (metis empty_iff insert_iff)
qed

lemma tables_card:
  assumes "paths m root \<subseteq> P" "finite P"
  shows "card (tables m root) \<le> card P"
proof -
  have "tables m root \<subseteq> (\<lambda>is. the (tab m root is)) ` paths m root"
    unfolding tables_def paths_def by (auto simp: image_iff) (metis option.distinct(1) option.sel)
  also have "\<dots> \<subseteq> (\<lambda>is. the (tab m root is)) ` P" using assms(1) by auto
  finally show ?thesis using assms(2) by (meson card_image_le card_mono finite_imageI le_trans)
qed

lemma low_pte_found:
  assumes inv: "vm_inv s root" and r: "unat pml4 = 4096 * root" and a: "unat a < 4294967296"
    and ps: "paths (vm_mem s) root \<subseteq> low_paths" and n: "2054 \<le> card (pool s root)"
  shows "\<exists>s1 t. get_pte s pml4 a True = Some (s1, Some (slot_addr t (vidx a))) \<and> vm_grow root s s1 \<and>
    tab (vm_mem s1) root (vpath a) = Some t \<and> paths (vm_mem s1) root \<subseteq> low_paths"
proof -
  obtain s1 r1 where g: "get_pte s pml4 a True = Some (s1, r1)" "vm_grow root s s1"
    "paths (vm_mem s1) root \<subseteq> paths (vm_mem s) root \<union> {take n (vpath a) | n. True}"
    and c: "case r1 of None \<Rightarrow> tab (vm_mem s1) root (vpath a) = None \<and> (\<forall>pg. \<not> page_free (vm_pmm s1) pg)
     | Some slot \<Rightarrow> \<exists>t. tab (vm_mem s1) root (vpath a) = Some t \<and> slot = slot_addr t (vidx a)"
    using get_pte_ok [OF inv r, of a True, unfolded simp_thms] by blast
  have ps1: "paths (vm_mem s1) root \<subseteq> low_paths" using g(3) ps vpath_low [OF a] by blast
  show ?thesis
  proof (cases r1)
    case None
    then have "vpath a \<notin> paths (vm_mem s1) root" using c by (simp add: paths_def)
    then have "paths (vm_mem s1) root \<subseteq> low_paths - {vpath a}" using ps1 by blast
    then have "card (tables (vm_mem s1) root) \<le> card (low_paths - {vpath a})"
      by (rule tables_card) (simp add: low_paths_card)
    also have "\<dots> \<le> 2053" using vpath_low [OF a, of 3] low_paths_card by (simp add: vpath_def)
    finally have "card (tables (vm_mem s1) root) \<le> 2053" .
    moreover have "pool s1 root = tables (vm_mem s1) root" using c None by (simp add: pool_def)
    ultimately show ?thesis using n vm_growD(8) [OF g(2)] by simp
  next
    case (Some slot)
    then show ?thesis using c g(1,2) ps1 by auto
  qed
qed

definition low_pte :: "nat \<Rightarrow> u64" where
  "low_pte pg = of_nat (4096 * pg) OR (VMM_PRESENT OR VMM_RW)"

lemma low_pte_eq:
  assumes "unat a < 4294967296" "unat a mod 4096 = 0"
  shows "(a AND NOT 0xFFF) OR (VMM_PRESENT OR VMM_RW) = low_pte (vpage a)" "vpage a = unat a div 4096"
proof -
  have "unat a div 4096 < 2 ^ 36" using assms(1) by simp
  then show v: "vpage a = unat a div 4096" by (simp add: vpage_def)
  have "of_nat (unat (a AND NOT 0xFFF)) = a AND NOT 0xFFF" by simp
  then have "a AND NOT 0xFFF = of_nat (4096 * vpage a)" unfolding unat_page_down v by (simp only: mult.commute)
  then show "(a AND NOT 0xFFF) OR (VMM_PRESENT OR VMM_RW) = low_pte (vpage a)" by (simp only: low_pte_def)
qed

lemma low_pte_present [simp]: "present (low_pte pg)"
  by (simp add: present_bit low_pte_def vmm_flags bit_simps)

lemma identity_loop_ok:
  assumes "vm_inv s root" "unat pml4 = 4096 * root" "unat a \<le> 4294967296" "unat a mod 4096 = 0"
    and "paths (vm_mem s) root \<subseteq> low_paths" "2054 \<le> card (pool s root)"
  shows "\<exists>s'. identity_loop s pml4 a = Some s' \<and> vm_inv s' root \<and>
    (\<forall>vb. xlate (vm_mem s') root (vpath vb) (vidx vb) =
       (if unat a div 4096 \<le> vpage vb \<and> vpage vb < 1048576 then Some (low_pte (vpage vb))
        else xlate (vm_mem s) root (vpath vb) (vidx vb))) \<and> pool s' root = pool s root \<and>
    (\<forall>u j. u < pg_max \<longrightarrow> j < 512 \<longrightarrow> u \<notin> pool s root \<longrightarrow> ent (vm_mem s') u j = ent (vm_mem s) u j)"
  using assms
proof (induction s pml4 a rule: identity_loop.induct)
  case (1 s pml4 a)
  show ?case
  proof (cases "a < 0x100000000")
    case True
    then have lt: "unat a < 4294967296" by (simp add: word_less_nat_alt)
    obtain s1 t where g: "get_pte s pml4 a True = Some (s1, Some (slot_addr t (vidx a)))"
      "vm_grow root s s1" "tab (vm_mem s1) root (vpath a) = Some t" "paths (vm_mem s1) root \<subseteq> low_paths"
      using low_pte_found [OF "1.prems"(1,2) lt "1.prems"(5,6)] by blast
    note e = low_pte_eq [OF lt "1.prems"(4)]
    let ?s = "s1\<lparr>vm_mem := store64 (vm_mem s1) (slot_addr t (vidx a)) (low_pte (vpage a))\<rparr>"
    note w = write_leaf [OF g(2,3), of ?s "low_pte (vpage a)", OF refl]
    have pt: "paths (vm_mem ?s) root = paths (vm_mem s1) root" "tables (vm_mem ?s) root = tables (vm_mem s1) root"
      using w(3) unfolding paths_def tables_def by auto
    have pl: "pool ?s root = pool s root" using pt(2) vm_growD(8) [OF g(2)] by (simp add: pool_def)
    have next_a: "unat (a + PAGE_SIZE) = unat a + 4096"
      using lt by (subst unat_add_small) (simp_all add: PAGE_SIZE_def)
    have dv: "unat a + 4096 \<le> 4294967296" "(unat a + 4096) mod 4096 = 0" "(unat a + 4096) div 4096 = Suc (unat a div 4096)"
    proof -
      obtain q where "unat a = 4096 * q" using page_multiple [OF "1.prems"(4)] by blast
      then show "unat a + 4096 \<le> 4294967296" using lt by simp
    qed (use "1.prems"(4) in simp_all)
    obtain s' where s': "identity_loop ?s pml4 (a + PAGE_SIZE) = Some s'" "vm_inv s' root"
      "\<forall>vb. xlate (vm_mem s') root (vpath vb) (vidx vb) =
       (if unat (a + PAGE_SIZE) div 4096 \<le> vpage vb \<and> vpage vb < 1048576 then Some (low_pte (vpage vb))
        else xlate (vm_mem ?s) root (vpath vb) (vidx vb))"
      "pool s' root = pool ?s root"
      "\<forall>u j. u < pg_max \<longrightarrow> j < 512 \<longrightarrow> u \<notin> pool ?s root \<longrightarrow> ent (vm_mem s') u j = ent (vm_mem ?s) u j"
      using "1.IH" [OF True g(1) refl refl] w(1) "1.prems"(2,6) dv(1,2) pt(1) g(4) pl next_a e(1) by auto
    have "identity_loop s pml4 a = Some s'"
      using True g(1) s'(1) e(1) by (subst identity_loop.simps) simp
    moreover have "xlate (vm_mem s') root (vpath vb) (vidx vb) =
       (if unat a div 4096 \<le> vpage vb \<and> vpage vb < 1048576 then Some (low_pte (vpage vb))
        else xlate (vm_mem s) root (vpath vb) (vidx vb))" for vb
    proof -
      have "unat a div 4096 < 1048576" using lt by (simp add: div_less_iff_less_mult)
      moreover have "xlate (vm_mem ?s) root (vpath vb) (vidx vb) = (if vpage vb = unat a div 4096
          then Some (low_pte (vpage vb)) else xlate (vm_mem s) root (vpath vb) (vidx vb))"
        using w(2) [of vb] e(2) low_pte_present by auto
      ultimately show ?thesis using s'(3) [rule_format, of vb] unfolding next_a dv(3) by auto
    qed
    moreover have "ent (vm_mem s') u j = ent (vm_mem s) u j" if u: "u < pg_max" "j < 512" "u \<notin> pool s root" for u j
    proof -
      have "u \<notin> tables (vm_mem ?s) root" using u(3) pl by (auto simp: pool_def)
      then show ?thesis using w(4) s'(5) u pl by simp
    qed
    ultimately show ?thesis using s'(2,4) pl by blast
  next
    case False
    then have "unat a = 4294967296" using "1.prems"(3) by (simp add: word_less_nat_alt)
    then have "xlate (vm_mem s) root (vpath vb) (vidx vb) =
       (if unat a div 4096 \<le> vpage vb \<and> vpage vb < 1048576 then Some (low_pte (vpage vb))
        else xlate (vm_mem s) root (vpath vb) (vidx vb))" for vb by auto
    then show ?thesis using False "1.prems"(1) by (subst identity_loop.simps) auto
  qed
qed

lemma empty_root:
  assumes "\<And>j. j < 512 \<Longrightarrow> ent m f j = 0" "f < pg_max" "\<not> page_free p f"
  shows "path is \<Longrightarrow> tab m f is = (if is = [] then Some f else None)" "tree_inv m p f"
    "paths m f = {[]}" "tables m f = {f}"
    "path is \<Longrightarrow> is \<noteq> [] \<Longrightarrow> xlate m f is i = None"
proof -
  have z: "\<not> present 0" by (simp add: present_def)
  show tb: "tab m f is = (if is = [] then Some f else None)" if "path is" for "is"
    using that assms(1) z by (cases "is") (auto simp: path_def)
  show "tree_inv m p f" unfolding tree_inv_def using tb assms(2,3) by (auto split: if_splits)
  show "paths m f = {[]}" unfolding paths_def using tb by (auto split: if_splits)
  show "tables m f = {f}" unfolding tables_def using tb by (auto split: if_splits intro: exI [of _ "[]"])
  show "xlate m f is i = None" if "path is" "is \<noteq> []" using tb [OF that(1)] that(2) by (simp add: xlate_def)
qed

lemma low_phys:
  assumes "unat va < 4294967296"
  shows "(low_pte (vpage va) AND NOT 0xFFF) OR (va AND 0xFFF) = va"
proof -
  let ?b = "va AND NOT 0xFFF"
  have b: "unat ?b < 4294967296" "unat ?b mod 4096 = 0" "vpage ?b = vpage va"
    using assms by (simp_all only: unat_page_down vpage_def) simp_all
  have "low_pte (vpage va) = (?b AND NOT 0xFFF) OR (VMM_PRESENT OR VMM_RW)"
    using low_pte_eq(1) [OF b(1,2)] b(3) by simp
  then have "low_pte (vpage va) AND NOT 0xFFF = va AND NOT 0xFFF"
    by (simp add: bit.conj_disj_distrib2 vmm_flags and.assoc)
  moreover have "(va AND NOT k) OR (va AND k) = va" for k
    by (rule bit_word_eqI) (auto simp: bit_simps)
  ultimately show ?thesis by (simp only: )
qed

lemma init_identity_ok:
  assumes ok: "pmm_ok (vm_pmm s)" and n: "2054 \<le> card {pg. page_free (vm_pmm s) pg}"
  shows "\<exists>s'. vmm_init_identity s = Some s' \<and> vmm_ok s' \<and> cpu_cr3 s' = g_cr3_phys s' \<and>
    (\<forall>vb. xlate (vm_mem s') (root_of s') (vpath vb) (vidx vb) =
       (if vpage vb < 1048576 then Some (low_pte (vpage vb)) else None)) \<and>
    (\<forall>pg. page_free (vm_pmm s') pg \<longrightarrow> page_free (vm_pmm s) pg) \<and>
    (\<forall>u j. u < pg_max \<longrightarrow> j < 512 \<longrightarrow> \<not> page_free (vm_pmm s) u \<longrightarrow> ent (vm_mem s') u j = ent (vm_mem s) u j)"
proof -
  obtain p' pml4 where al: "pmm_alloc_frames (vm_pmm s) 1 = Some (p', pml4)"
    using pmm.alloc_total [OF ok, of 1] by auto
  have nz: "pml4 \<noteq> 0"
  proof
    assume "pml4 = 0"
    then have "{pg. page_free (vm_pmm s) pg} = {}" using pmm.alloc_full [OF ok] al by simp
    then show False using n by simp
  qed
  obtain f where f: "unat pml4 = 4096 * f" "f < pg_max" "page_free (vm_pmm s) f"
    "\<And>g. page_free p' g \<longleftrightarrow> page_free (vm_pmm s) g \<and> g \<noteq> f"
    using pmm.alloc_one_page [OF ok al nz] by blast
  let ?s = "s\<lparr>vm_pmm := p', vm_mem := zero_table (vm_mem s) pml4\<rparr>"
  have z: "ent (vm_mem ?s) f j = 0" if "j < 512" for j using ent_zero_table f(1,2) that by simp
  have "\<not> page_free p' f" using f(4) by simp
  note er = empty_root [of "vm_mem ?s" f, OF z f(2) this]
  have inv: "vm_inv ?s f" using er(2) pmm.alloc_ok [OF ok _ al] by (simp add: vm_inv_def)
  have pf: "pool ?s f = {pg. page_free (vm_pmm s) pg}" using er(4) f(3,4) by (auto simp: pool_def)
  then have pl: "2054 \<le> card (pool ?s f)" using n by simp
  have low: "paths (vm_mem ?s) f \<subseteq> low_paths" using er(3) by (simp add: low_paths_def)
  obtain s2 where s2: "identity_loop ?s pml4 0 = Some s2" "vm_inv s2 f"
    "\<forall>vb. xlate (vm_mem s2) f (vpath vb) (vidx vb) =
       (if vpage vb < 1048576 then Some (low_pte (vpage vb)) else xlate (vm_mem ?s) f (vpath vb) (vidx vb))"
    "pool s2 f = pool ?s f" "\<forall>u j. u < pg_max \<longrightarrow> j < 512 \<longrightarrow> u \<notin> pool ?s f \<longrightarrow> ent (vm_mem s2) u j = ent (vm_mem ?s) u j"
    using identity_loop_ok [OF inv f(1) _ _ low pl, of 0] by auto
  let ?r = "vmm_load_cr3 s2 pml4"
  have r: "vmm_init_identity s = Some ?r" using al nz s2(1) by (simp add: vmm_init_identity_def)
  have rf: "root_of ?r = f" using f(1) by (simp add: root_of_def vmm_load_cr3_def)
  have "vpath vb \<noteq> []" for vb by (simp add: vpath_def)
  then have "xlate (vm_mem ?s) f (vpath vb) (vidx vb) = None" for vb using er(5) vpath_path(1) by blast
  moreover have "vmm_ok ?r" unfolding vmm_ok_def rf using f(1) nz s2(2) by (simp add: vmm_load_cr3_def vm_inv_def)
  moreover have "page_free (vm_pmm s) pg" if "page_free (vm_pmm s2) pg" for pg
  proof -
    have "pg \<in> pool s2 f" using that by (simp add: pool_def)
    then show ?thesis using s2(4) pf by simp
  qed
  moreover have "ent (vm_mem s2) u j = ent (vm_mem s) u j" if u: "u < pg_max" "j < 512" "\<not> page_free (vm_pmm s) u" for u j
  proof -
    have "ent (vm_mem s2) u j = ent (vm_mem ?s) u j" using s2(5) pf u by simp
    also have "\<dots> = ent (vm_mem s) u j" using ent_zero_table [OF f(2) u(1,2) f(1)] u(3) f(3) by auto
    finally show ?thesis .
  qed
  ultimately show ?thesis using r rf s2(3) by (simp add: vmm_load_cr3_def)
qed

text \<open>With three free frames a mapping cannot fail: at most three tables are missing.\<close>

lemma map_page_succeeds:
  assumes ok: "vmm_ok s" and n: "3 \<le> card {pg. page_free (vm_pmm s) pg}"
    and r: "vmm_map_page s virt phys flags = Some (s', r)"
  shows "r = 0"
proof (rule ccontr)
  assume "r \<noteq> 0"
  let ?R = "root_of s"
  have m: "vmm_ok s'" "root_of s' = ?R" "\<forall>pg. \<not> page_free (vm_pmm s') pg"
    "tab (vm_mem s') ?R (vpath virt) = None"
    "paths (vm_mem s') ?R \<subseteq> paths (vm_mem s) ?R \<union> {take n (vpath virt) | n. True}"
    "pool s' ?R = pool s ?R"
    using map_page_ok [OF ok, of virt phys flags] r \<open>r \<noteq> 0\<close> by auto
  note k = vmm_okD(3) [OF ok]
  let ?T = "\<lambda>is. the (tab (vm_mem s') ?R is)"
  let ?N = "{?T (take 1 (vpath virt)), ?T (take 2 (vpath virt))}"
  have ti: "tree_inv (vm_mem s) (vm_pmm s) ?R" using k by (simp add: vm_inv_def)
  have old: "tab (vm_mem s') ?R is = tab (vm_mem s) ?R is" if "is \<in> paths (vm_mem s) ?R" for "is"
  proof -
    obtain s1 q where g: "get_pte s (g_cr3_phys s) virt True = Some (s1, q)" "vm_grow ?R s s1"
      using get_pte_ok [OF k vmm_okD(2) [OF ok], of virt True] by blast
    have "s' = s1" using r g(1) \<open>r \<noteq> 0\<close> vmm_okD(1) [OF ok] by (auto simp: vmm_map_page_def split: option.splits)
    then show ?thesis using that vm_growD(3) [OF g(2)] by (auto simp: paths_def)
  qed
  have "u \<in> tables (vm_mem s) ?R \<union> ?N" if u: "u \<in> tables (vm_mem s') ?R" for u
  proof -
    obtain js where js: "path js" "tab (vm_mem s') ?R js = Some u" using u by (auto simp: tables_def)
    then have "js \<in> paths (vm_mem s) ?R \<or> (\<exists>n. js = take n (vpath virt))" using m(5) by (auto simp: paths_def)
    then show ?thesis
    proof (elim disjE exE)
      assume "js \<in> paths (vm_mem s) ?R"
      then show ?thesis using old js by (auto simp: tables_def)
    next
      fix n assume n: "js = take n (vpath virt)"
      have "n < 3" using n js(2) m(4) by (cases "n < 3") auto
      then consider "n = 0" | "n = 1" | "n = 2" by linarith
      then show ?thesis
      proof cases
        case 1
        then have "tab (vm_mem s) ?R [] = Some u" using n js by simp
        then show ?thesis unfolding tables_def using path_Nil by blast
      qed (use n js(2) in auto)
    qed
  qed
  then have "pool s ?R \<subseteq> tables (vm_mem s) ?R \<union> ?N" using m(3,6) unfolding pool_def by auto
  then have "{pg. page_free (vm_pmm s) pg} \<subseteq> ?N"
    unfolding pool_def tables_def using tree_invD(2) [OF ti] by blast
  then have "card {pg. page_free (vm_pmm s) pg} \<le> card ?N" by (intro card_mono) simp_all
  also have "\<dots> \<le> 2" by (simp add: card_insert_if)
  finally show False using n by simp
qed

section \<open>Properties\<close>

text \<open>An address space for the witnesses: an empty root table in page 2, four free frames.\<close>

definition demo_vmm :: vmm_state where
  "demo_vmm = \<lparr>vm_mem = (\<lambda>_. 0), vm_pmm = demo_pmm, g_cr3_phys = 0x2000, cpu_cr3 = 0x2000\<rparr>"

lemma zero_mem: "load_le k (\<lambda>_. 0) a = (0 :: 'a::len word)"
  by (induction k arbitrary: a) simp_all

lemma demo_vmm_ok: "vmm_ok demo_vmm" "3 \<le> card {pg. page_free (vm_pmm demo_vmm) pg}"
proof -
  have pf: "page_free demo_pmm pg \<longleftrightarrow> pg \<in> {256..<260}" for pg
    unfolding page_free_def page_of_frame_def demo_pmm_facts by (auto intro: exI [of _ "pg - 256"])
  have z: "ent (\<lambda>_. 0) 2 j = 0" for j by (simp add: ent_def load64_def zero_mem)
  have "\<not> page_free demo_pmm 2" by (simp add: pf)
  from empty_root(2) [of "\<lambda>_. 0" 2 demo_pmm, OF z _ this]
  show "vmm_ok demo_vmm"
    by (simp add: vmm_ok_def root_of_def vm_inv_def demo_vmm_def demo_pmm_facts)
  show "3 \<le> card {pg. page_free (vm_pmm demo_vmm) pg}" proof -
    have "{pg. page_free (vm_pmm demo_vmm) pg} = {256..<260}" by (auto simp: demo_vmm_def pf)
    then show ?thesis by simp
  qed
qed

text \<open>
  C9. Mapping a page with present low flags makes its addresses translate to the given frame,
  leaves the translation of every other page as it was, and fails (with -2) only when the frame
  allocator has run dry, in which case no translation changes; three free frames are enough.
\<close>

theorem vmm_map_page_translates:
  assumes ok: "vmm_ok s" and fl: "flags AND VMM_PRESENT \<noteq> 0" "flags AND NOT 0xFFF = 0"
  shows "\<exists>s' r. vmm_map_page s virt phys flags = Some (s', r) \<and> vmm_ok s' \<and> (r = 0 \<or> r = -2) \<and>
    (r = -2 \<longrightarrow> card {pg. page_free (vm_pmm s) pg} < 3 \<and> (\<forall>pg. \<not> page_free (vm_pmm s') pg)) \<and>
    (\<forall>va. vmm_virt_to_phys s' va = (if r = 0 \<and> vpage va = vpage virt
       then Some ((phys AND NOT 0xFFF) OR (va AND 0xFFF)) else vmm_virt_to_phys s va))"
proof -
  let ?e = "(phys AND NOT 0xFFF) OR (flags AND NOT VMM_PS)"
  obtain s' r where m: "vmm_map_page s virt phys flags = Some (s', r)" "vmm_ok s'" "root_of s' = root_of s"
    "r = 0 \<or> r = -2" "r = -2 \<longrightarrow> (\<forall>pg. \<not> page_free (vm_pmm s') pg)"
    and x: "\<forall>vb. xlate (vm_mem s') (root_of s) (vpath vb) (vidx vb) =
       (if r = 0 \<and> vpage vb = vpage virt then (let e = ?e in if present e then Some e else None)
        else xlate (vm_mem s) (root_of s) (vpath vb) (vidx vb))"
    using map_page_ok [OF ok, of virt phys flags] by blast
  have "bit flags 0" using fl(1) by (simp add: present_def [symmetric] present_bit)
  then have p: "present ?e" by (simp add: present_bit vmm_flags bit_simps)
  have "r = -2 \<longrightarrow> card {pg. page_free (vm_pmm s) pg} < 3"
    using map_page_succeeds [OF ok _ m(1)] by fastforce
  moreover have "vmm_virt_to_phys s' va = (if r = 0 \<and> vpage va = vpage virt
       then Some ((phys AND NOT 0xFFF) OR (va AND 0xFFF)) else vmm_virt_to_phys s va)" for va
    unfolding virt_to_phys_xlate [OF ok] virt_to_phys_xlate [OF m(2)] m(3) x [rule_format] Let_def
    using p by (simp add: pte_value [OF fl(2), simplified])
  ultimately show ?thesis using m by blast
qed

theorem vmm_map_page_translates_witness:
  "\<exists>s'. vmm_map_page demo_vmm 0x40000000 0xABC000 3 = Some (s', 0) \<and>
     vmm_virt_to_phys s' 0x40000123 = Some 0xABC123"
proof -
  obtain s' r where m: "vmm_map_page demo_vmm 0x40000000 0xABC000 3 = Some (s', r)"
    "\<forall>va. vmm_virt_to_phys s' va = (if r = 0 \<and> vpage va = vpage 0x40000000
       then Some ((0xABC000 AND NOT 0xFFF) OR (va AND 0xFFF)) else vmm_virt_to_phys demo_vmm va)"
    using vmm_map_page_translates [OF demo_vmm_ok(1), of 3 "0x40000000" "0xABC000"]
    by (auto simp: vmm_flags)
  have "r = 0" using map_page_succeeds [OF demo_vmm_ok m(1)] .
  then show ?thesis using m by (simp add: vpage_def)
qed

text \<open>
  C10. After \<open>vmm_unmap_page\<close> no address of the page translates, and every other page
  translates as before; no frame is taken or given back.
\<close>

theorem vmm_unmap_page_untranslates:
  assumes ok: "vmm_ok s"
  shows "\<exists>s' r. vmm_unmap_page s virt = Some (s', r) \<and> vmm_ok s' \<and> (r = 0 \<or> r = -2 \<and> s' = s) \<and>
    vm_pmm s' = vm_pmm s \<and>
    (\<forall>va. vmm_virt_to_phys s' va = (if vpage va = vpage virt then None else vmm_virt_to_phys s va))"
proof -
  obtain s' r where m: "vmm_unmap_page s virt = Some (s', r)" "vmm_ok s'" "root_of s' = root_of s"
    "r = 0 \<or> r = -2 \<and> s' = s" "vm_pmm s' = vm_pmm s"
    and x: "\<forall>vb. xlate (vm_mem s') (root_of s) (vpath vb) (vidx vb) =
       (if vpage vb = vpage virt then None else xlate (vm_mem s) (root_of s) (vpath vb) (vidx vb))"
    using unmap_page_ok [OF ok, of virt] by blast
  have "vmm_virt_to_phys s' va = (if vpage va = vpage virt then None else vmm_virt_to_phys s va)" for va
    unfolding virt_to_phys_xlate [OF ok] virt_to_phys_xlate [OF m(2)] m(3) x [rule_format] by simp
  then show ?thesis using m by blast
qed

theorem vmm_unmap_page_untranslates_witness:
  "\<exists>s' r. vmm_unmap_page demo_vmm 0x40000000 = Some (s', r) \<and> vmm_virt_to_phys s' 0x40000123 = None"
proof -
  have "vpage 0x40000123 = vpage 0x40000000" by (simp add: vpage_def)
  then show ?thesis using vmm_unmap_page_untranslates [OF demo_vmm_ok(1), of "0x40000000"] by metis
qed

text \<open>
  Mapping a page writes to no physical page below 4 GiB other than the page tables, and a
  page becomes a table only if the frame allocator had it free.
\<close>

theorem vmm_map_page_writes_tables_only:
  assumes ok: "vmm_ok s" and m: "vmm_map_page s virt phys flags = Some (s', r)"
  shows "(\<forall>u j. u < 1048576 \<longrightarrow> j < 512 \<longrightarrow> u \<notin> tables (vm_mem s') (root_of s) \<longrightarrow>
      load64 (vm_mem s') (of_nat (4096 * u + 8 * j)) = load64 (vm_mem s) (of_nat (4096 * u + 8 * j))) \<and>
    tables (vm_mem s') (root_of s) \<subseteq> tables (vm_mem s) (root_of s) \<union> {pg. page_free (vm_pmm s) pg}"
proof -
  have "\<forall>u j. u < pg_max \<longrightarrow> j < 512 \<longrightarrow> u \<notin> tables (vm_mem s') (root_of s) \<longrightarrow>
       ent (vm_mem s') u j = ent (vm_mem s) u j" "pool s' (root_of s) = pool s (root_of s)"
    using map_page_ok [OF ok, of virt phys flags] m by auto
  then show ?thesis unfolding ent_def slot_addr_def pool_def by blast
qed

theorem vmm_map_page_writes_tables_only_witness:
  "\<exists>s'. vmm_map_page demo_vmm 0 0xABC000 3 = Some (s', 0) \<and>
     tables (vm_mem s') 2 \<subseteq> tables (vm_mem demo_vmm) 2 \<union> {pg. page_free demo_pmm pg}"
proof -
  obtain s' r where m: "vmm_map_page demo_vmm 0 0xABC000 3 = Some (s', r)"
    using map_page_ok [OF demo_vmm_ok(1)] by blast
  moreover have "r = 0" using map_page_succeeds [OF demo_vmm_ok m] .
  moreover have "root_of demo_vmm = 2" "vm_pmm demo_vmm = demo_pmm"
    by (simp_all add: root_of_def demo_vmm_def)
  ultimately show ?thesis using vmm_map_page_writes_tables_only [OF demo_vmm_ok(1) m] by auto
qed

lemma identity_translates:
  assumes ok: "vmm_ok s" and x: "\<forall>vb. xlate (vm_mem s) (root_of s) (vpath vb) (vidx vb) =
       (if vpage vb < 1048576 then Some (low_pte (vpage vb)) else None)"
  shows "(\<forall>va. unat va < 2 ^ 32 \<longrightarrow> vmm_virt_to_phys s va = Some va) \<and>
    (\<forall>va. 2 ^ 32 \<le> unat va \<and> unat va < 2 ^ 48 \<longrightarrow> vmm_virt_to_phys s va = None)"
proof (intro conjI allI impI)
  fix va :: u64
  assume va: "unat va < 2 ^ 32"
  have "vpage va < 1048576" using va by (simp add: vpage_def div_less_iff_less_mult)
  then show "vmm_virt_to_phys s va = Some va" using low_phys [of va] va
    by (simp only: virt_to_phys_xlate [OF ok] x [rule_format] if_True option.map) simp
next
  fix va :: u64
  assume "2 ^ 32 \<le> unat va \<and> unat va < 2 ^ 48"
  then have va: "2 ^ 32 \<le> unat va" "unat va < 2 ^ 48" by simp_all
  have "1048576 \<le> unat va div 4096" using va(1) by simp
  then show "vmm_virt_to_phys s va = None" using va(2) by (simp add: virt_to_phys_xlate [OF ok] x vpage_def)
qed

text \<open>
  C11. With 2054 free frames \<open>vmm_init_identity\<close> succeeds: it loads a new root table under which
  every address below 4 GiB translates to itself and no page from 4 GiB to \<open>2^48\<close> is mapped.
\<close>

theorem vmm_init_identity_maps_4GiB:
  assumes "pmm_ok (vm_pmm s)" "2054 \<le> card {pg. page_free (vm_pmm s) pg}"
  shows "\<exists>s'. vmm_init_identity s = Some s' \<and> vmm_ok s' \<and> cpu_cr3 s' = g_cr3_phys s' \<and>
    (\<forall>va. unat va < 2 ^ 32 \<longrightarrow> vmm_virt_to_phys s' va = Some va) \<and>
    (\<forall>va. 2 ^ 32 \<le> unat va \<and> unat va < 2 ^ 48 \<longrightarrow> vmm_virt_to_phys s' va = None)"
  using init_identity_ok [OF assms] identity_translates by meson

text \<open>A frame pool of 4096 frames from 1 MiB.\<close>

definition demo_pool :: pmm_state where
  "demo_pool = \<lparr>g_regions = [\<lparr>r_base = 0x100000, r_len = 0x1000000\<rparr>], g_bitmap_base = 0x100000,
     g_bitmap_limit = 0x1100000, g_total_phys = 0x1000000, g_total_usable = 0x1000000,
     g_free = 0x1000000, g_bitmap = Bitmap_Storage, g_bitmap_storage = (\<lambda>_. 0)\<rparr>"

lemma demo_pool_pages: "page_free demo_pool pg \<longleftrightarrow> pg \<in> {256..<4352}" "pmm_ok demo_pool"
proof -
  have u: "used_frames demo_pool = {}" by (simp add: demo_pool_def used_frames_def frame_used_def)
  have n: "nframes demo_pool = 4096" by (simp add: demo_pool_def nframes_def)
  have b: "page_of_frame demo_pool k = 256 + k" for k by (simp add: demo_pool_def page_of_frame_def)
  show pf: "page_free demo_pool pg \<longleftrightarrow> pg \<in> {256..<4352}" for pg
    unfolding page_free_def u n b by (auto intro: exI [of _ "pg - 256"])
  have "pmm_inv demo_pool" using u n by (simp add: pmm_inv_def free_frames_def) (simp add: demo_pool_def)
  then show "pmm_ok demo_pool" by (simp add: pmm_ok_def pf)
qed

lemma demo_pool_ok: "pmm_ok demo_pool" "2054 \<le> card {pg. page_free demo_pool pg}"
proof -
  have "{pg. page_free demo_pool pg} = {256..<4352}" using demo_pool_pages(1) by blast
  then show "pmm_ok demo_pool" "2054 \<le> card {pg. page_free demo_pool pg}" using demo_pool_pages(2) by simp_all
qed

theorem vmm_init_identity_maps_4GiB_witness:
  "\<exists>s'. vmm_init_identity \<lparr>vm_mem = (\<lambda>_. 0), vm_pmm = demo_pool, g_cr3_phys = 0, cpu_cr3 = 0\<rparr> = Some s' \<and>
     vmm_virt_to_phys s' 0xFEE00030 = Some 0xFEE00030"
  using vmm_init_identity_maps_4GiB
    [of "\<lparr>vm_mem = (\<lambda>_. 0), vm_pmm = demo_pool, g_cr3_phys = 0, cpu_cr3 = 0\<rparr>"] demo_pool_ok by auto

text \<open>
  The translation keeps bit 63: for a page mapped with \<open>VMM_NX\<close>, \<open>vmm_virt_to_phys\<close>
  reports a physical address with bit 63 set, whatever the frame.
\<close>

theorem vmm_virt_to_phys_keeps_nx:
  assumes ok: "vmm_ok s" and m: "vmm_map_page s virt phys (VMM_PRESENT OR VMM_NX) = Some (s', 0)"
  shows "\<exists>p. vmm_virt_to_phys s' virt = Some p \<and> bit p 63"
proof -
  let ?e = "(phys AND NOT 0xFFF) OR ((VMM_PRESENT OR VMM_NX) AND NOT VMM_PS)"
  have ok': "vmm_ok s'" "root_of s' = root_of s"
    and x: "xlate (vm_mem s') (root_of s) (vpath virt) (vidx virt) =
      (let e = ?e in if present e then Some e else None)"
    using map_page_ok [OF ok, of virt phys "VMM_PRESENT OR VMM_NX"] m by auto
  have b: "present ?e" "bit ((?e AND NOT 0xFFF) OR (virt AND 0xFFF)) 63"
    by (simp_all add: present_bit vmm_flags bit_simps)
  then show ?thesis using x b by (simp add: virt_to_phys_xlate [OF ok'(1)] ok'(2) Let_def)
qed

theorem vmm_virt_to_phys_keeps_nx_witness:
  "\<exists>s' p. vmm_map_page demo_vmm 0x40000000 0xABC000 (VMM_PRESENT OR VMM_NX) = Some (s', 0) \<and>
     vmm_virt_to_phys s' 0x40000000 = Some p \<and> bit p 63"
proof -
  obtain s' r where m: "vmm_map_page demo_vmm 0x40000000 0xABC000 (VMM_PRESENT OR VMM_NX) = Some (s', r)"
    using map_page_ok [OF demo_vmm_ok(1)] by blast
  moreover have "r = 0" using map_page_succeeds [OF demo_vmm_ok m] .
  ultimately show ?thesis using vmm_virt_to_phys_keeps_nx [OF demo_vmm_ok(1)] by auto
qed

end
