(* ===== verification/Sched.thy ===== *)
theory Sched
  imports Phys_Mem
begin

text \<open>
  The cooperative scheduler of \<open>kernel64/sched/sched.c\<close>: a static table of threads, a run queue
  linked through the threads' \<open>next\<close> pointers, and a context switch that saves and loads the stack
  pointer and returns to the address on top of the new stack. A pointer into \<open>g_threads\<close> is an
  index, \<open>None\<close> for NULL. The walk to the end of the run queue follows pointers and is a partial
  function: a cyclic queue gives \<open>None\<close>.
\<close>

section \<open>State\<close>

record thread =
  t_next :: "nat option"
  t_rsp :: u64
  t_entry :: u64
  t_arg :: u64
  t_state :: int \<comment> \<open>0 ready, 1 running, 2 done\<close>
  t_id :: int

definition MAX_THREADS :: nat where "MAX_THREADS = 8"
definition STACK_SIZE :: u64 where "STACK_SIZE = 16 * 1024"

text \<open>The scheduler's variables, the stacks in memory at \<open>g_stacks\<close> and the processor's registers.\<close>

record sched =
  g_runq :: "nat option"
  g_current :: "nat option"
  g_threads :: "thread list"
  g_thread_count :: nat
  g_stacks :: u64
  trampoline :: u64
  s_mem :: memory
  cpu_rsp :: u64
  cpu_rip :: u64

abbreviation thr :: "sched \<Rightarrow> nat \<Rightarrow> thread" where "thr s t \<equiv> g_threads s ! t"

definition upd :: "nat \<Rightarrow> (thread \<Rightarrow> thread) \<Rightarrow> sched \<Rightarrow> sched" where
  "upd t f s = s\<lparr>g_threads := (g_threads s)[t := f (thr s t)]\<rparr>"

section \<open>Operations\<close>

partial_function (option) last_loop :: "sched \<Rightarrow> nat \<Rightarrow> nat option" where
  "last_loop s p = (case t_next (thr s p) of Some n \<Rightarrow> last_loop s n | None \<Rightarrow> Some p)"

definition enqueue :: "nat \<Rightarrow> sched \<Rightarrow> sched option" where
  "enqueue t s0 =
     (let s = upd t (\<lambda>h. h\<lparr>t_next := None\<rparr>) s0
      in case g_runq s of
           None \<Rightarrow> Some (s\<lparr>g_runq := Some t\<rparr>)
         | Some q \<Rightarrow> do {
             p \<leftarrow> last_loop s q;
             Some (upd p (\<lambda>h. h\<lparr>t_next := Some t\<rparr>) s) })"

definition dequeue :: "sched \<Rightarrow> sched \<times> nat option" where
  "dequeue s = (case g_runq s of
       None \<Rightarrow> (s, None)
     | Some t \<Rightarrow> (s\<lparr>g_runq := t_next (thr s t)\<rparr>, Some t))"

text \<open>
  \<open>sched_context_switch\<close>, called with return address \<open>ra\<close>: the call pushes \<open>ra\<close>, the stack
  pointer is saved in the thread \<open>old\<close> (in a local variable for \<open>None\<close>), the new one is loaded and
  \<open>ret\<close> pops the address to go on from. No other register is saved or restored.
\<close>

definition sched_context_switch :: "u64 \<Rightarrow> nat option \<Rightarrow> u64 \<Rightarrow> sched \<Rightarrow> sched" where
  "sched_context_switch ra old new_rsp s =
     (let sp = cpu_rsp s - 8;
          s1 = s\<lparr>s_mem := store64 (s_mem s) sp ra, cpu_rsp := sp\<rparr>;
          s2 = (case old of Some t \<Rightarrow> upd t (\<lambda>h. h\<lparr>t_rsp := sp\<rparr>) s1 | None \<Rightarrow> s1)
      in s2\<lparr>cpu_rsp := new_rsp + 8, cpu_rip := load64 (s_mem s2) new_rsp\<rparr>)"

text \<open>\<open>thread_trampoline\<close> after the thread's function has returned: \<open>None\<close> in the second component
  is the halt.\<close>

definition thread_exit :: "u64 \<Rightarrow> sched \<Rightarrow> sched \<times> nat option" where
  "thread_exit ra s0 = (case g_current s0 of
       None \<Rightarrow> (s0, None)
     | Some c \<Rightarrow>
         let s = upd c (\<lambda>h. h\<lparr>t_state := 2\<rparr>) s0;
             (s1, nxt) = dequeue s
         in case nxt of
              None \<Rightarrow> (s1, None)
            | Some n \<Rightarrow>
                let s2 = upd n (\<lambda>h. h\<lparr>t_state := 1\<rparr>) (s1\<lparr>g_current := Some n\<rparr>)
                in (sched_context_switch ra (Some c) (t_rsp (thr s2 n)) s2, Some n))"

definition sched_create :: "u64 \<Rightarrow> u64 \<Rightarrow> sched \<Rightarrow> (sched \<times> int) option" where
  "sched_create entry arg s =
     (if g_thread_count s \<ge> MAX_THREADS then Some (s, -1)
      else
        let n = g_thread_count s;
            s1 = upd n (\<lambda>h. h\<lparr>t_entry := entry, t_arg := arg, t_state := 0, t_next := None, t_id := int n\<rparr>) s;
            stack_top = (g_stacks s + of_nat n * STACK_SIZE + STACK_SIZE) AND NOT 0xF;
            sp = stack_top - 8;
            s2 = s1\<lparr>s_mem := store64 (s_mem s1) sp (trampoline s1)\<rparr>;
            s3 = upd n (\<lambda>h. h\<lparr>t_rsp := sp\<rparr>) s2
        in do {
          s4 \<leftarrow> enqueue n s3;
          Some (s4\<lparr>g_thread_count := g_thread_count s4 + 1\<rparr>, 0) })"

definition sched_yield :: "u64 \<Rightarrow> sched \<Rightarrow> sched option" where
  "sched_yield ra s = (case g_current s of
       None \<Rightarrow> Some s
     | Some c \<Rightarrow>
         let (s1, nxt) = dequeue s
         in case nxt of
              None \<Rightarrow> Some s1
            | Some n \<Rightarrow>
                if n = c then enqueue n s1
                else do {
                  s2 \<leftarrow> (if t_state (thr s1 c) = 1 then enqueue c (upd c (\<lambda>h. h\<lparr>t_state := 0\<rparr>) s1)
                         else Some s1);
                  let s3 = upd n (\<lambda>h. h\<lparr>t_state := 1\<rparr>) (s2\<lparr>g_current := Some n\<rparr>);
                  Some (sched_context_switch ra (Some c) (t_rsp (thr s3 n)) s3) })"

definition sched_start :: "u64 \<Rightarrow> sched \<Rightarrow> sched" where
  "sched_start ra s = (case g_current s of
       Some _ \<Rightarrow> s
     | None \<Rightarrow>
         let (s1, nxt) = dequeue s
         in case nxt of
              None \<Rightarrow> s1
            | Some n \<Rightarrow>
                let s2 = upd n (\<lambda>h. h\<lparr>t_state := 1\<rparr>) (s1\<lparr>g_current := Some n\<rparr>)
                in sched_context_switch ra None (t_rsp (thr s2 n)) s2)"

record sched_thread_info =
  info_id :: int
  info_state :: int
  info_rsp :: u64

definition sched_enumerate :: "sched \<Rightarrow> int \<Rightarrow> sched_thread_info list" where
  "sched_enumerate s mx =
     (if mx \<le> 0 then []
      else map (\<lambda>i. \<lparr>info_id = t_id (thr s i), info_state = t_state (thr s i), info_rsp = t_rsp (thr s i)\<rparr>)
             [0..<(if int (g_thread_count s) < mx then g_thread_count s else nat mx)])"

definition sched_current_id :: "sched \<Rightarrow> int" where
  "sched_current_id s = (case g_current s of Some c \<Rightarrow> t_id (thr s c) | None \<Rightarrow> -1)"

section \<open>The run queue as a list\<close>

text \<open>The threads linked from \<open>p\<close>.\<close>

primrec linked :: "thread list \<Rightarrow> nat option \<Rightarrow> nat list \<Rightarrow> bool" where
  "linked ts p [] \<longleftrightarrow> p = None"
| "linked ts p (t # q) \<longleftrightarrow> p = Some t \<and> t < length ts \<and> linked ts (t_next (ts ! t)) q"

lemma linked_upd:
  assumes "t \<notin> set q"
  shows "linked (ts[t := h]) p q = linked ts p q"
  using assms by (induction q arbitrary: p) auto

lemma linked_upd_next:
  assumes "t_next h = t_next (ts ! t)"
  shows "linked (ts[t := h]) p q = linked ts p q"
proof (induction q arbitrary: p)
  case (Cons x q)
  have "t_next (ts[t := h] ! x) = t_next (ts ! x)" if "x < length ts"
    using assms that by (cases "x = t") simp_all
  then show ?case using Cons.IH [of "t_next (ts ! x)"] by (cases "x < length ts") simp_all
qed simp

lemma linked_snoc:
  assumes "linked ts p (q @ [x])" "t \<notin> set (q @ [x])" "t < length ts" "distinct (q @ [x])"
  shows "linked (ts[t := h\<lparr>t_next := None\<rparr>, x := (ts ! x)\<lparr>t_next := Some t\<rparr>]) p (q @ [x, t])"
  using assms
proof (induction q arbitrary: p)
  case Nil
  then show ?case by auto
next
  case (Cons y q)
  then show ?case by auto
qed

lemma last_loop_ok:
  assumes "linked (g_threads s) (Some p) q"
  shows "last_loop s p = Some (last q)"
  using assms
proof (induction q arbitrary: p)
  case (Cons x q)
  note IH = Cons.IH
  have x: "x = p" "linked (g_threads s) (t_next (thr s p)) q" using Cons.prems by simp_all
  show ?case
  proof (cases q)
    case Nil
    then show ?thesis using x by (subst last_loop.simps) simp
  next
    case (Cons y r)
    then have "t_next (thr s p) = Some y" using x(2) by simp
    then show ?thesis using IH [of y] x Cons by (subst last_loop.simps) simp
  qed
qed simp

text \<open>States that differ in the links only.\<close>

definition same_but_links :: "sched \<Rightarrow> sched \<Rightarrow> bool" where
  "same_but_links s s' \<longleftrightarrow> s' = s\<lparr>g_runq := g_runq s', g_threads := g_threads s'\<rparr> \<and>
     length (g_threads s') = length (g_threads s) \<and>
     (\<forall>u < length (g_threads s). thr s' u = (thr s u)\<lparr>t_next := t_next (thr s' u)\<rparr>)"

lemma same_but_linksD:
  assumes "same_but_links s s'"
  shows "g_current s' = g_current s" "g_thread_count s' = g_thread_count s" "g_stacks s' = g_stacks s"
    "trampoline s' = trampoline s" "s_mem s' = s_mem s" "cpu_rsp s' = cpu_rsp s" "cpu_rip s' = cpu_rip s"
    "length (g_threads s') = length (g_threads s)"
    "u < length (g_threads s) \<Longrightarrow> t_state (thr s' u) = t_state (thr s u)"
    "u < length (g_threads s) \<Longrightarrow> t_id (thr s' u) = t_id (thr s u)"
    "u < length (g_threads s) \<Longrightarrow> t_rsp (thr s' u) = t_rsp (thr s u)"
    "u < length (g_threads s) \<Longrightarrow> t_entry (thr s' u) = t_entry (thr s u)"
    "u < length (g_threads s) \<Longrightarrow> t_arg (thr s' u) = t_arg (thr s u)"
proof -
  have e: "s' = s\<lparr>g_runq := g_runq s', g_threads := g_threads s'\<rparr>"
    and t: "\<And>u. u < length (g_threads s) \<Longrightarrow> thr s' u = (thr s u)\<lparr>t_next := t_next (thr s' u)\<rparr>"
    using assms by (simp_all add: same_but_links_def)
  show "length (g_threads s') = length (g_threads s)" using assms by (simp add: same_but_links_def)
  show "g_current s' = g_current s" "g_thread_count s' = g_thread_count s" "g_stacks s' = g_stacks s"
    "trampoline s' = trampoline s" "s_mem s' = s_mem s" "cpu_rsp s' = cpu_rsp s" "cpu_rip s' = cpu_rip s"
    by (subst e, simp)+
  assume "u < length (g_threads s)"
  note u = t [OF this]
  show "t_state (thr s' u) = t_state (thr s u)" "t_id (thr s' u) = t_id (thr s u)"
    "t_rsp (thr s' u) = t_rsp (thr s u)" "t_entry (thr s' u) = t_entry (thr s u)" "t_arg (thr s' u) = t_arg (thr s u)"
    by (subst u, simp)+
qed

lemma links_upd:
  "same_but_links s (upd t (\<lambda>h. h\<lparr>t_next := z\<rparr>) s)"
  "same_but_links s (s\<lparr>g_runq := r\<rparr>)"
proof -
  have "(g_threads s)[t := (thr s t)\<lparr>t_next := z\<rparr>] ! u =
      (thr s u)\<lparr>t_next := t_next ((g_threads s)[t := (thr s t)\<lparr>t_next := z\<rparr>] ! u)\<rparr>"
    if "u < length (g_threads s)" for u
    using that by (cases "u = t") simp_all
  then show "same_but_links s (upd t (\<lambda>h. h\<lparr>t_next := z\<rparr>) s)"
    by (simp add: same_but_links_def upd_def)
qed (simp add: same_but_links_def)

lemma links_trans [trans]:
  assumes "same_but_links s s'" "same_but_links s' s''"
  shows "same_but_links s s''"
proof -
  have "thr s'' u = (thr s u)\<lparr>t_next := t_next (thr s'' u)\<rparr>" if "u < length (g_threads s)" for u
    using assms that unfolding same_but_links_def
    by (metis thread.surjective thread.update_convs(1))
  moreover have "s'' = s\<lparr>g_runq := g_runq s'', g_threads := g_threads s''\<rparr>"
    using assms unfolding same_but_links_def by (metis sched.surjective sched.update_convs(1,3))
  ultimately show ?thesis using assms by (simp add: same_but_links_def)
qed

definition queue_rep :: "sched \<Rightarrow> nat list \<Rightarrow> bool" where
  "queue_rep s q \<longleftrightarrow> linked (g_threads s) (g_runq s) q \<and> distinct q"

lemma enqueue_ok:
  assumes rep: "queue_rep s q" and t: "t < length (g_threads s)" "t \<notin> set q"
  shows "\<exists>s'. enqueue t s = Some s' \<and> queue_rep s' (q @ [t]) \<and> same_but_links s s'"
proof -
  let ?ts = "(g_threads s)[t := (thr s t)\<lparr>t_next := None\<rparr>]"
  let ?s = "upd t (\<lambda>h. h\<lparr>t_next := None\<rparr>) s"
  have s: "g_threads ?s = ?ts" "g_runq ?s = g_runq s" by (simp_all add: upd_def)
  have l: "linked ?ts (g_runq s) q" and d: "distinct q" using rep t(2) by (simp_all add: queue_rep_def linked_upd)
  show ?thesis
  proof (cases q rule: rev_cases)
    case Nil
    then have "g_runq s = None" using l by simp
    then have "enqueue t s = Some (?s\<lparr>g_runq := Some t\<rparr>)" by (simp add: enqueue_def Let_def upd_def)
    moreover have "same_but_links s (?s\<lparr>g_runq := Some t\<rparr>)"
      using links_trans [OF links_upd(1) links_upd(2)] .
    ultimately show ?thesis using Nil t by (simp add: queue_rep_def upd_def)
  next
    case (snoc q0 x)
    obtain p where p: "g_runq s = Some p" using l snoc by (cases q0) auto
    have x: "x \<noteq> t" "x < length (g_threads s)"
    proof -
      show "x \<noteq> t" using snoc t(2) by auto
      have "linked ts a (q0 @ [x]) \<Longrightarrow> x < length ts" for ts a by (induction q0 arbitrary: a) auto
      then show "x < length (g_threads s)" using rep snoc by (auto simp: queue_rep_def)
    qed
    have "last_loop ?s p = Some x" using last_loop_ok [of ?s p q] l s p snoc by simp
    then have r: "enqueue t s = Some (upd x (\<lambda>h. h\<lparr>t_next := Some t\<rparr>) ?s)"
      using p s(2) by (simp add: enqueue_def Let_def)
    have th: "g_threads (upd x (\<lambda>h. h\<lparr>t_next := Some t\<rparr>) ?s) = ?ts[x := (thr s x)\<lparr>t_next := Some t\<rparr>]"
      using x by (simp add: upd_def)
    have "linked (?ts[x := (thr s x)\<lparr>t_next := Some t\<rparr>]) (g_runq s) (q0 @ [x, t])"
      using linked_snoc [of "g_threads s" "g_runq s" q0 x t "thr s t"] rep snoc t by (simp add: queue_rep_def)
    moreover have "g_runq (upd x (\<lambda>h. h\<lparr>t_next := Some t\<rparr>) ?s) = g_runq s" by (simp add: upd_def)
    ultimately have "queue_rep (upd x (\<lambda>h. h\<lparr>t_next := Some t\<rparr>) ?s) (q @ [t])"
      using th snoc d t(2) by (simp add: queue_rep_def)
    moreover have "same_but_links s (upd x (\<lambda>h. h\<lparr>t_next := Some t\<rparr>) ?s)"
      using links_trans [OF links_upd(1) links_upd(1)] .
    ultimately show ?thesis using r by blast
  qed
qed

lemma dequeue_ok:
  "queue_rep s [] \<Longrightarrow> dequeue s = (s, None)"
  "queue_rep s (t # q) \<Longrightarrow> \<exists>s'. dequeue s = (s', Some t) \<and> s' = s\<lparr>g_runq := g_runq s'\<rparr> \<and> queue_rep s' q \<and>
     t \<notin> set q \<and> t < length (g_threads s)"
  by (auto simp: dequeue_def queue_rep_def)

text \<open>The queue's contract: first in, first out.\<close>

locale run_queue =
  fixes rep :: "'s \<Rightarrow> nat list \<Rightarrow> bool"
    and valid :: "'s \<Rightarrow> nat \<Rightarrow> bool"
    and enq :: "nat \<Rightarrow> 's \<Rightarrow> 's option"
    and deq :: "'s \<Rightarrow> 's \<times> nat option"
  assumes enq_rep: "rep s q \<Longrightarrow> valid s t \<Longrightarrow> t \<notin> set q \<Longrightarrow>
      \<exists>s'. enq t s = Some s' \<and> rep s' (q @ [t]) \<and> (\<forall>u. valid s' u = valid s u)"
    and deq_empty: "rep s [] \<Longrightarrow> deq s = (s, None)"
    and deq_rep: "rep s (t # q) \<Longrightarrow>
      \<exists>s'. deq s = (s', Some t) \<and> rep s' q \<and> (\<forall>u. valid s' u = valid s u) \<and> t \<notin> set q \<and> valid s t"
begin

primrec turns :: "nat \<Rightarrow> 's \<Rightarrow> 's option" where
  "turns 0 s = Some s"
| "turns (Suc n) s = (case deq s of (s1, None) \<Rightarrow> Some s1
     | (s1, Some t) \<Rightarrow> (case enq t s1 of None \<Rightarrow> None | Some s2 \<Rightarrow> turns n s2))"

lemma one_turn:
  assumes "rep s (t # q)"
  shows "\<exists>s1 s2. deq s = (s1, Some t) \<and> enq t s1 = Some s2 \<and> rep s2 (q @ [t])"
proof -
  obtain s1 where s1: "deq s = (s1, Some t)" "rep s1 q" "valid s1 t" "t \<notin> set q"
    using deq_rep [OF assms] by auto
  then show ?thesis using enq_rep [OF s1(2-4)] by blast
qed

lemma turns_rotate: "rep s q \<Longrightarrow> \<exists>s'. turns n s = Some s' \<and> rep s' (rotate n q)"
proof (induction n arbitrary: s q)
  case (Suc n)
  show ?case
  proof (cases q)
    case Nil
    then show ?thesis using Suc.prems deq_empty by simp
  next
    case (Cons t r)
    then obtain s1 s2 where s: "deq s = (s1, Some t)" "enq t s1 = Some s2" "rep s2 (r @ [t])"
      using one_turn Suc.prems by blast
    have "rotate (Suc n) q = rotate n (r @ [t])" using Cons by (simp add: rotate1_rotate_swap)
    then show ?thesis using s Suc.IH [OF s(3)] by simp
  qed
qed simp

end

interpretation runq: run_queue queue_rep "\<lambda>s t. t < length (g_threads s)" enqueue dequeue
proof
  fix s q t assume "queue_rep s q" "t < length (g_threads s)" "t \<notin> set q"
  from enqueue_ok [OF this] show "\<exists>s'. enqueue t s = Some s' \<and> queue_rep s' (q @ [t]) \<and>
      (\<forall>u. (u < length (g_threads s')) = (u < length (g_threads s)))"
    by (auto simp: same_but_links_def)
next
  fix s assume "queue_rep s []"
  then show "dequeue s = (s, None)" by (rule dequeue_ok)
next
  fix s t q assume "queue_rep s (t # q)"
  from dequeue_ok(2) [OF this] show "\<exists>s'. dequeue s = (s', Some t) \<and> queue_rep s' q \<and>
      (\<forall>u. (u < length (g_threads s')) = (u < length (g_threads s))) \<and> t \<notin> set q \<and> t < length (g_threads s)"
    by (auto) (metis sched.select_convs(3) sched.surjective sched.update_convs(1))+
qed

section \<open>The scheduler's invariant\<close>

definition sched_inv :: "sched \<Rightarrow> nat list \<Rightarrow> bool" where
  "sched_inv s q \<longleftrightarrow> length (g_threads s) = MAX_THREADS \<and> g_thread_count s \<le> MAX_THREADS \<and> queue_rep s q \<and>
     (\<forall>t \<in> set q. t < g_thread_count s \<and> t_state (thr s t) = 0) \<and>
     (\<forall>c. g_current s = Some c \<longrightarrow> c < g_thread_count s \<and> c \<notin> set q \<and> t_state (thr s c) = 1) \<and>
     (\<forall>t < g_thread_count s. t \<notin> set q \<longrightarrow> g_current s \<noteq> Some t \<longrightarrow> t_state (thr s t) = 2) \<and>
     (\<forall>t < g_thread_count s. t_id (thr s t) = int t)"

text \<open>What the invariant sees of a thread change.\<close>

lemma upd_simps [simp]:
  "g_runq (upd t f s) = g_runq s" "g_current (upd t f s) = g_current s"
  "g_thread_count (upd t f s) = g_thread_count s" "length (g_threads (upd t f s)) = length (g_threads s)"
  "s_mem (upd t f s) = s_mem s" "cpu_rsp (upd t f s) = cpu_rsp s" "cpu_rip (upd t f s) = cpu_rip s"
  "trampoline (upd t f s) = trampoline s" "g_stacks (upd t f s) = g_stacks s"
  by (simp_all add: upd_def)

lemma thr_upd: "u < length (g_threads s) \<Longrightarrow> thr (upd t f s) u = (if u = t then f (thr s u) else thr s u)"
  by (simp add: upd_def nth_list_update)

lemma queue_rep_upd:
  assumes "\<And>h. t_next (f h) = t_next h"
  shows "queue_rep (upd t f s) q = queue_rep s q"
  using linked_upd_next [of "f (thr s t)" "g_threads s" t] assms by (simp add: queue_rep_def upd_def)

lemma queue_rep_fields [simp]:
  "queue_rep (s\<lparr>g_current := x\<rparr>) q = queue_rep s q" "queue_rep (s\<lparr>cpu_rsp := a\<rparr>) q = queue_rep s q"
  "queue_rep (s\<lparr>cpu_rip := a\<rparr>) q = queue_rep s q" "queue_rep (s\<lparr>s_mem := m\<rparr>) q = queue_rep s q"
  "queue_rep (s\<lparr>g_thread_count := n\<rparr>) q = queue_rep s q"
  by (simp_all add: queue_rep_def)

text \<open>The context switch changes saved stack pointers, the registers and the memory only.\<close>

lemma switch_queue: "queue_rep (sched_context_switch ra old new s) q = queue_rep s q"
  by (cases old) (simp_all add: sched_context_switch_def Let_def queue_rep_upd)

lemma switch_simps [simp]:
  "g_current (sched_context_switch ra old new s) = g_current s"
  "g_thread_count (sched_context_switch ra old new s) = g_thread_count s"
  "length (g_threads (sched_context_switch ra old new s)) = length (g_threads s)"
  "s_mem (sched_context_switch ra old new s) = store64 (s_mem s) (cpu_rsp s - 8) ra"
  "cpu_rsp (sched_context_switch ra old new s) = new + 8"
  "cpu_rip (sched_context_switch ra old new s) = load64 (store64 (s_mem s) (cpu_rsp s - 8) ra) new"
  by (cases old; simp add: sched_context_switch_def Let_def)+

lemma switch_thr:
  assumes "u < length (g_threads s)"
  shows "t_state (thr (sched_context_switch ra old new s) u) = t_state (thr s u)"
    "t_id (thr (sched_context_switch ra old new s) u) = t_id (thr s u)"
    "t_rsp (thr (sched_context_switch ra old new s) u) = (if old = Some u then cpu_rsp s - 8 else t_rsp (thr s u))"
  using assms by (cases old; simp add: sched_context_switch_def Let_def thr_upd)+

lemma switch_inv: "sched_inv (sched_context_switch ra old new s) q = sched_inv s q"
proof (cases "length (g_threads s) = MAX_THREADS \<and> g_thread_count s \<le> MAX_THREADS")
  case True
  then have "u < g_thread_count s \<Longrightarrow> u < length (g_threads s)" for u by simp
  then show ?thesis unfolding sched_inv_def
    by (auto simp: switch_queue switch_thr)
qed (auto simp: sched_inv_def)

text \<open>Dispatching the thread at the front once the previous one is filed.\<close>

lemma dispatch_inv:
  assumes len: "length (g_threads s) = MAX_THREADS" "g_thread_count s \<le> MAX_THREADS"
    and q: "queue_rep s q" "n \<notin> set q" "n < g_thread_count s"
    and ready: "\<forall>t \<in> set q. t < g_thread_count s \<and> t_state (thr s t) = 0"
    and others: "\<forall>t < g_thread_count s. t \<notin> set q \<longrightarrow> t \<noteq> n \<longrightarrow> t_state (thr s t) = 2"
    and ids: "\<forall>t < g_thread_count s. t_id (thr s t) = int t"
  shows "sched_inv (upd n (\<lambda>h. h\<lparr>t_state := 1\<rparr>) (s\<lparr>g_current := Some n\<rparr>)) q"
proof -
  have u: "u < length (g_threads (s\<lparr>g_current := Some n\<rparr>))" if "u < g_thread_count s" for u
    using that len by simp
  show ?thesis unfolding sched_inv_def
    using assms by (auto simp: thr_upd [OF u] queue_rep_upd)
qed

lemma sched_invD:
  assumes "sched_inv s q"
  shows "length (g_threads s) = MAX_THREADS" "g_thread_count s \<le> MAX_THREADS" "queue_rep s q"
    "\<forall>t \<in> set q. t < g_thread_count s \<and> t_state (thr s t) = 0"
    "\<And>c. g_current s = Some c \<Longrightarrow> c < g_thread_count s \<and> c \<notin> set q \<and> t_state (thr s c) = 1"
    "\<forall>t < g_thread_count s. t \<notin> set q \<longrightarrow> g_current s \<noteq> Some t \<longrightarrow> t_state (thr s t) = 2"
    "\<forall>t < g_thread_count s. t_id (thr s t) = int t" "distinct q"
  using assms by (auto simp: sched_inv_def queue_rep_def)

section \<open>The operations\<close>

lemma yield_idle:
  assumes "sched_inv s []" "g_current s = Some c"
  shows "sched_yield ra s = Some s"
  using dequeue_ok(1) [OF sched_invD(3) [OF assms(1)]] assms(2) by (simp add: sched_yield_def)

lemma yield_switch:
  assumes inv: "sched_inv s (n # q)" and c: "g_current s = Some c"
  shows "\<exists>s'. sched_yield ra s = Some s' \<and> sched_inv s' (q @ [c]) \<and> g_current s' = Some n \<and>
    t_rsp (thr s' c) = cpu_rsp s - 8 \<and> s_mem s' = store64 (s_mem s) (cpu_rsp s - 8) ra \<and>
    cpu_rsp s' = t_rsp (thr s n) + 8 \<and> cpu_rip s' = load64 (s_mem s') (t_rsp (thr s n)) \<and>
    (\<forall>u < MAX_THREADS. u \<noteq> c \<longrightarrow> t_rsp (thr s' u) = t_rsp (thr s u))"
proof -
  note d = sched_invD [OF inv]
  have nc: "c < g_thread_count s" "c \<notin> set (n # q)" "t_state (thr s c) = 1" "n < g_thread_count s"
    using d(5) [OF c] d(4) by auto
  obtain s1 where s1: "dequeue s = (s1, Some n)" "s1 = s\<lparr>g_runq := g_runq s1\<rparr>" "queue_rep s1 q" "n \<notin> set q"
    using dequeue_ok(2) [OF d(3)] by blast
  have e1: "g_threads s1 = g_threads s" "g_thread_count s1 = g_thread_count s" "g_current s1 = g_current s"
    "s_mem s1 = s_mem s" "cpu_rsp s1 = cpu_rsp s" by (subst s1(2), simp)+
  let ?s = "upd c (\<lambda>h. h\<lparr>t_state := 0\<rparr>) s1"
  have lc: "c < length (g_threads s)" "n < length (g_threads s)" using nc d(1,2) by simp_all
  have "queue_rep ?s q" using s1(3) by (simp add: queue_rep_upd)
  then obtain s2 where s2: "enqueue c ?s = Some s2" "queue_rep s2 (q @ [c])" "same_but_links ?s s2"
    using enqueue_ok [of ?s q c] nc lc e1 by auto
  note f = same_but_linksD [OF s2(3)]
  have st: "t_state (thr s2 u) = (if u = c then 0 else t_state (thr s u))" "t_rsp (thr s2 u) = t_rsp (thr s u)"
    "t_id (thr s2 u) = t_id (thr s u)" if "u < length (g_threads s)" for u
    using f(9-11) [of u] that e1(1) by (simp_all add: thr_upd)
  let ?d = "upd n (\<lambda>h. h\<lparr>t_state := 1\<rparr>) (s2\<lparr>g_current := Some n\<rparr>)"
  have cnt: "g_thread_count s2 = g_thread_count s" "length (g_threads s2) = length (g_threads s)"
    using f(2,8) e1(1,2) by simp_all
  have less: "u < length (g_threads s)" if "u < g_thread_count s" for u using that d(1,2) by simp
  have "sched_inv ?d (q @ [c])"
  proof (rule dispatch_inv)
    show "length (g_threads s2) = MAX_THREADS" "g_thread_count s2 \<le> MAX_THREADS" "queue_rep s2 (q @ [c])"
      "n \<notin> set (q @ [c])" "n < g_thread_count s2" using cnt d(1,2) s2(2) s1(4) nc by auto
    show "\<forall>t \<in> set (q @ [c]). t < g_thread_count s2 \<and> t_state (thr s2 t) = 0"
      using d(4) nc(1) st(1) cnt(1) less by auto
    show "\<forall>t < g_thread_count s2. t \<notin> set (q @ [c]) \<longrightarrow> t \<noteq> n \<longrightarrow> t_state (thr s2 t) = 2"
      using d(6) st(1) cnt(1) less c by auto
    show "\<forall>t < g_thread_count s2. t_id (thr s2 t) = int t" using d(7) st(3) cnt(1) less by auto
  qed
  moreover have "sched_yield ra s = Some (sched_context_switch ra (Some c) (t_rsp (thr ?d n)) ?d)"
    using c s1(1) s2(1) nc(2,3) e1(1) by (simp add: sched_yield_def Let_def)
  moreover have "t_rsp (thr ?d u) = t_rsp (thr s u)" if "u < length (g_threads s)" for u
    using st(2) [OF that] that cnt(2) by (auto simp: thr_upd)
  ultimately show ?thesis
    using lc cnt(2) f(5,6) e1(4,5) d(1) by (simp add: switch_inv switch_thr)
qed

lemma exit_switch:
  assumes inv: "sched_inv s (n # q)" and c: "g_current s = Some c"
  shows "\<exists>s'. thread_exit ra s = (s', Some n) \<and> sched_inv s' q \<and> g_current s' = Some n \<and>
    t_state (thr s' c) = 2 \<and> cpu_rsp s' = t_rsp (thr s n) + 8 \<and> cpu_rip s' = load64 (s_mem s') (t_rsp (thr s n)) \<and>
    (\<forall>u < MAX_THREADS. u \<noteq> c \<longrightarrow> t_rsp (thr s' u) = t_rsp (thr s u))"
proof -
  note d = sched_invD [OF inv]
  have nc: "c < g_thread_count s" "c \<notin> set (n # q)" "n < g_thread_count s" using d(5) [OF c] d(4) by auto
  let ?s = "upd c (\<lambda>h. h\<lparr>t_state := 2\<rparr>) s"
  have "queue_rep ?s (n # q)" using d(3) by (simp add: queue_rep_upd)
  then obtain s1 where s1: "dequeue ?s = (s1, Some n)" "s1 = ?s\<lparr>g_runq := g_runq s1\<rparr>" "queue_rep s1 q" "n \<notin> set q"
    using dequeue_ok(2) by blast
  have e1: "g_threads s1 = g_threads ?s" "g_thread_count s1 = g_thread_count s" by (subst s1(2), simp)+
  have lt: "u < length (g_threads s)" if "u < g_thread_count s" for u using that d(1,2) by simp
  let ?d = "upd n (\<lambda>h. h\<lparr>t_state := 1\<rparr>) (s1\<lparr>g_current := Some n\<rparr>)"
  have "sched_inv ?d q"
  proof (rule dispatch_inv)
    show "length (g_threads s1) = MAX_THREADS" "g_thread_count s1 \<le> MAX_THREADS" "queue_rep s1 q" "n \<notin> set q"
      "n < g_thread_count s1" using e1 d(1,2) s1(3,4) nc by simp_all
    show "\<forall>t \<in> set q. t < g_thread_count s1 \<and> t_state (thr s1 t) = 0"
      using d(4) nc(2) e1 lt by (auto simp: thr_upd)
    show "\<forall>t < g_thread_count s1. t \<notin> set q \<longrightarrow> t \<noteq> n \<longrightarrow> t_state (thr s1 t) = 2"
      using d(6) e1 lt c by (auto simp: thr_upd)
    show "\<forall>t < g_thread_count s1. t_id (thr s1 t) = int t" using d(7) e1 lt by (auto simp: thr_upd)
  qed
  moreover have "thread_exit ra s = (sched_context_switch ra (Some c) (t_rsp (thr ?d n)) ?d, Some n)"
    using c s1(1) by (simp add: thread_exit_def Let_def)
  moreover have "t_state (thr ?d c) = 2" using nc e1(1) lt by (auto simp: thr_upd)
  moreover have "t_rsp (thr ?d u) = t_rsp (thr s u)" if "u < length (g_threads s)" for u
    using that e1(1) by (auto simp: thr_upd)
  ultimately show ?thesis using lt [OF nc(1)] lt [OF nc(3)] d(1) e1(1) by (simp add: switch_inv switch_thr)
qed

lemma start_switch:
  assumes inv: "sched_inv s (n # q)" and c: "g_current s = None"
  shows "sched_inv (sched_start ra s) q \<and> g_current (sched_start ra s) = Some n \<and>
    cpu_rsp (sched_start ra s) = t_rsp (thr s n) + 8 \<and>
    cpu_rip (sched_start ra s) = load64 (store64 (s_mem s) (cpu_rsp s - 8) ra) (t_rsp (thr s n))"
proof -
  note d = sched_invD [OF inv]
  have nc: "n < g_thread_count s" using d(4) by auto
  obtain s1 where s1: "dequeue s = (s1, Some n)" "s1 = s\<lparr>g_runq := g_runq s1\<rparr>" "queue_rep s1 q" "n \<notin> set q"
    using dequeue_ok(2) [OF d(3)] by blast
  have e1: "g_threads s1 = g_threads s" "g_thread_count s1 = g_thread_count s" "s_mem s1 = s_mem s"
    "cpu_rsp s1 = cpu_rsp s" by (subst s1(2), simp)+
  let ?d = "upd n (\<lambda>h. h\<lparr>t_state := 1\<rparr>) (s1\<lparr>g_current := Some n\<rparr>)"
  have "sched_inv ?d q"
    by (rule dispatch_inv) (use e1 d s1(3,4) nc c in auto)
  moreover have "sched_start ra s = sched_context_switch ra None (t_rsp (thr ?d n)) ?d"
    using c s1(1) by (simp add: sched_start_def Let_def)
  moreover have "t_rsp (thr ?d n) = t_rsp (thr s n)" using nc d(1,2) e1(1) by (simp add: thr_upd)
  ultimately show ?thesis using e1 by (simp add: switch_inv)
qed

text \<open>The stack a new thread gets: one word, the trampoline's address, below the 16-byte aligned top.\<close>

definition stack_top :: "sched \<Rightarrow> nat \<Rightarrow> u64" where
  "stack_top s n = (g_stacks s + of_nat n * STACK_SIZE + STACK_SIZE) AND NOT 0xF"

lemma create_ok:
  assumes inv: "sched_inv s q" and n: "g_thread_count s < MAX_THREADS"
  shows "\<exists>s'. sched_create entry arg s = Some (s', 0) \<and> sched_inv s' (q @ [g_thread_count s]) \<and>
    g_current s' = g_current s \<and> g_thread_count s' = Suc (g_thread_count s) \<and>
    t_entry (thr s' (g_thread_count s)) = entry \<and> t_arg (thr s' (g_thread_count s)) = arg \<and>
    t_rsp (thr s' (g_thread_count s)) = stack_top s (g_thread_count s) - 8 \<and>
    s_mem s' = store64 (s_mem s) (stack_top s (g_thread_count s) - 8) (trampoline s) \<and> cpu_rsp s' = cpu_rsp s \<and>
    (\<forall>u < g_thread_count s. t_rsp (thr s' u) = t_rsp (thr s u))"
proof -
  note d = sched_invD [OF inv]
  let ?n = "g_thread_count s" and ?sp = "stack_top s (g_thread_count s) - 8"
  let ?s1 = "upd ?n (\<lambda>h. h\<lparr>t_entry := entry, t_arg := arg, t_state := 0, t_next := None, t_id := int ?n\<rparr>) s"
  let ?s2 = "?s1\<lparr>s_mem := store64 (s_mem ?s1) ?sp (trampoline ?s1)\<rparr>"
  let ?s3 = "upd ?n (\<lambda>h. h\<lparr>t_rsp := ?sp\<rparr>) ?s2"
  have nq: "?n \<notin> set q" using d(4) by auto
  have "queue_rep ?s1 q" using d(3) nq by (simp add: queue_rep_def upd_def linked_upd)
  then have "queue_rep ?s3 q" by (simp add: queue_rep_upd)
  then obtain s4 where s4: "enqueue ?n ?s3 = Some s4" "queue_rep s4 (q @ [?n])" "same_but_links ?s3 s4"
    using enqueue_ok [of ?s3 q ?n] nq n d(1) by auto
  note f = same_but_linksD [OF s4(3)]
  have r: "sched_create entry arg s = Some (s4\<lparr>g_thread_count := Suc ?n\<rparr>, 0)"
    using n s4(1) f(2) by (simp add: sched_create_def Let_def stack_top_def)
  have lt: "u < length (g_threads s)" if "u \<le> ?n" for u using that n d(1) by simp
  have st: "t_state (thr s4 u) = (if u = ?n then 0 else t_state (thr s u))"
    "t_id (thr s4 u) = (if u = ?n then int ?n else t_id (thr s u))" if "u \<le> ?n" for u
    using f(9,10) [of u] lt [OF that] by (simp_all add: thr_upd)
  have nf: "t_entry (thr s4 ?n) = entry" "t_arg (thr s4 ?n) = arg" "t_rsp (thr s4 ?n) = ?sp"
    using f(11-13) [of ?n] lt [of ?n] by (simp_all add: thr_upd)
  have "sched_inv (s4\<lparr>g_thread_count := Suc ?n\<rparr>) (q @ [?n])"
    unfolding sched_inv_def
  proof (intro conjI)
    show "\<forall>t \<in> set (q @ [?n]). t < g_thread_count (s4\<lparr>g_thread_count := Suc ?n\<rparr>) \<and>
        t_state (thr (s4\<lparr>g_thread_count := Suc ?n\<rparr>) t) = 0"
      using d(4) st(1) by (auto simp: less_Suc_eq_le less_imp_le)
    show "\<forall>c. g_current (s4\<lparr>g_thread_count := Suc ?n\<rparr>) = Some c \<longrightarrow> c < g_thread_count (s4\<lparr>g_thread_count := Suc ?n\<rparr>) \<and>
        c \<notin> set (q @ [?n]) \<and> t_state (thr (s4\<lparr>g_thread_count := Suc ?n\<rparr>) c) = 1"
      using d(5) st(1) f(1) by (auto simp: less_Suc_eq_le less_imp_le)
    show "\<forall>t < g_thread_count (s4\<lparr>g_thread_count := Suc ?n\<rparr>). t \<notin> set (q @ [?n]) \<longrightarrow>
        g_current (s4\<lparr>g_thread_count := Suc ?n\<rparr>) \<noteq> Some t \<longrightarrow> t_state (thr (s4\<lparr>g_thread_count := Suc ?n\<rparr>) t) = 2"
      using d(6) st(1) f(1) by (auto simp: less_Suc_eq_le)
    show "\<forall>t < g_thread_count (s4\<lparr>g_thread_count := Suc ?n\<rparr>). t_id (thr (s4\<lparr>g_thread_count := Suc ?n\<rparr>) t) = int t"
      using d(7) st(2) by (auto simp: less_Suc_eq_le)
  qed (use f(8) n s4(2) d(1) in simp_all)
  moreover have "t_rsp (thr s4 u) = t_rsp (thr s u)" if "u < ?n" for u
    using f(11) [of u] lt [of u] that by (simp add: thr_upd)
  ultimately show ?thesis using r nf f(1,5,6) by simp
qed

text \<open>
  Everything that can happen to the scheduler: the running thread computes (its registers and the
  memory change), yields, creates a thread or ends, and the boot code starts the first thread.
\<close>

inductive sched_step :: "sched \<Rightarrow> sched \<Rightarrow> bool" where
  step_run: "sched_step s (s\<lparr>s_mem := m, cpu_rsp := sp, cpu_rip := ip\<rparr>)"
| step_create: "sched_create entry arg s = Some (s', r) \<Longrightarrow> sched_step s s'"
| step_start: "sched_step s (sched_start ra s)"
| step_yield: "sched_yield ra s = Some s' \<Longrightarrow> sched_step s s'"
| step_exit: "g_current s \<noteq> None \<Longrightarrow> thread_exit ra s = (s', Some n) \<Longrightarrow> sched_step s s'"

lemma sched_step_inv:
  assumes "sched_step s s'" "sched_inv s q"
  shows "\<exists>q'. sched_inv s' q'"
  using assms
proof cases
  case (step_run m sp ip)
  then show ?thesis using assms(2) by (auto simp: sched_inv_def)
next
  case (step_create entry arg r)
  then show ?thesis
    using create_ok [OF assms(2), of entry arg] assms(2)
    by (cases "g_thread_count s < MAX_THREADS") (auto simp: sched_create_def)
next
  case (step_start ra)
  then show ?thesis
    using start_switch [of s _ _ ra] assms(2) dequeue_ok(1) [of s] sched_invD(3) [OF assms(2)]
    by (cases "g_current s"; cases q) (auto simp: sched_start_def)
next
  case (step_yield ra)
  show ?thesis
  proof (cases "g_current s")
    case None
    then show ?thesis using step_yield assms(2) by (auto simp: sched_yield_def)
  next
    case (Some c)
    then show ?thesis using step_yield yield_idle yield_switch [of s _ _ c ra] assms(2) by (cases q) fastforce+
  qed
next
  case (step_exit ra n)
  obtain c where c: "g_current s = Some c" using step_exit by auto
  show ?thesis
  proof (cases q)
    case Nil
    have "queue_rep (upd c (\<lambda>h. h\<lparr>t_state := 2\<rparr>) s) []" using assms(2) Nil sched_invD(3) by (simp add: queue_rep_upd)
    then show ?thesis using step_exit c dequeue_ok(1) by (simp add: thread_exit_def Let_def)
  next
    case (Cons m r)
    then show ?thesis using step_exit exit_switch [of s m r c ra] c assms(2) by auto
  qed
qed

text \<open>A run of yields: before each, the running thread has moved its stack pointer and changed
  memory; \<open>ra\<close> is the address it goes on from.\<close>

primrec yields :: "(u64 \<times> u64 \<times> memory) list \<Rightarrow> sched \<Rightarrow> sched option" where
  "yields [] s = Some s"
| "yields (x # xs) s = (case x of (ra, sp, m) \<Rightarrow> do {
     s' \<leftarrow> sched_yield ra (s\<lparr>cpu_rsp := sp, s_mem := m\<rparr>);
     yields xs s' })"

lemma yields_rotate:
  "sched_inv s q \<Longrightarrow> g_current s = Some c \<Longrightarrow> \<exists>s'. yields xs s = Some s' \<and>
     g_current s' = Some (hd (rotate (length xs) (c # q))) \<and> sched_inv s' (tl (rotate (length xs) (c # q)))"
proof (induction xs arbitrary: s q c)
  case (Cons x xs)
  obtain ra sp m where x: "x = (ra, sp, m)" by (cases x)
  let ?s = "s\<lparr>cpu_rsp := sp, s_mem := m\<rparr>"
  have i: "sched_inv ?s q" "g_current ?s = Some c" using Cons.prems by (auto simp: sched_inv_def)
  show ?case
  proof (cases q)
    case Nil
    then have "sched_yield ra ?s = Some ?s" using yield_idle i by simp
    then show ?thesis using Cons.IH [OF i] x Nil by simp
  next
    case (Cons n r)
    obtain s1 where s1: "sched_yield ra ?s = Some s1" "sched_inv s1 (r @ [c])" "g_current s1 = Some n"
      using yield_switch [of ?s n r c ra] i Cons by auto
    have "rotate (length (x # xs)) (c # q) = rotate (length xs) (n # r @ [c])"
      using Cons by (simp add: rotate1_rotate_swap)
    then show ?thesis using Cons.IH [OF s1(2,3)] s1(1) x by simp
  qed
qed simp

section \<open>Properties\<close>

definition sched_boot :: "u64 \<Rightarrow> u64 \<Rightarrow> memory \<Rightarrow> u64 \<Rightarrow> sched" where
  "sched_boot stacks tramp m sp = \<lparr>g_runq = None, g_current = None,
     g_threads = replicate 8 \<lparr>t_next = None, t_rsp = 0, t_entry = 0, t_arg = 0, t_state = 0, t_id = 0\<rparr>,
     g_thread_count = 0, g_stacks = stacks, trampoline = tramp, s_mem = m, cpu_rsp = sp, cpu_rip = 0\<rparr>"

lemma boot_inv: "sched_inv (sched_boot stacks tramp m sp) []"
  by (simp add: sched_inv_def sched_boot_def MAX_THREADS_def queue_rep_def)

text \<open>
  C12. In every run of the scheduler at most one thread is running and it is \<open>g_current\<close>; the run
  queue holds exactly the ready threads, each once; a thread's id is its index.
\<close>

theorem sched_states_consistent:
  assumes "sched_step\<^sup>*\<^sup>* (sched_boot stacks tramp m sp) s"
  shows "\<exists>q. queue_rep s q \<and> distinct q \<and>
    set q = {t. t < g_thread_count s \<and> t_state (thr s t) = 0} \<and>
    (\<forall>t < g_thread_count s. t_state (thr s t) = 1 \<longleftrightarrow> g_current s = Some t) \<and>
    (\<forall>t < g_thread_count s. t_id (thr s t) = int t) \<and> g_thread_count s \<le> 8"
proof -
  from assms have "\<exists>q. sched_inv s q"
    by (induction rule: rtranclp_induct) (auto intro: boot_inv dest: sched_step_inv)
  then obtain q where i: "sched_inv s q" by blast
  note d = sched_invD [OF i]
  have st: "t_state (thr s t) = (if t \<in> set q then 0 else if g_current s = Some t then 1 else 2)"
    if "t < g_thread_count s" for t
    using d(4-6) that by auto
  have "set q = {t. t < g_thread_count s \<and> t_state (thr s t) = 0}"
    using st d(4) by (auto split: if_splits)
  moreover have "t_state (thr s t) = 1 \<longleftrightarrow> g_current s = Some t" if "t < g_thread_count s" for t
    using st [OF that] d(5) [of t] by (auto split: if_splits)
  ultimately show ?thesis using d(2,3,7,8) by (auto simp: MAX_THREADS_def)
qed

theorem sched_states_consistent_witness:
  "\<exists>s. sched_step\<^sup>*\<^sup>* (sched_boot 0x10000 0x2000 (\<lambda>_. 0) 0x8000) s \<and> g_current s = Some 0 \<and>
     t_state (thr s 0) = 1"
proof -
  let ?b = "sched_boot 0x10000 0x2000 (\<lambda>_. 0) 0x8000"
  have n: "g_thread_count ?b = 0" "g_current ?b = None" by (simp_all add: sched_boot_def)
  then obtain s1 where s1: "sched_create 0x3000 7 ?b = Some (s1, 0)" "sched_inv s1 [0]" "g_current s1 = None"
    using create_ok [OF boot_inv, of "0x10000" "0x2000" "\<lambda>_. 0" "0x8000" "0x3000" 7] by (auto simp: MAX_THREADS_def)
  have st: "g_current (sched_start 0x4000 s1) = Some 0" "g_thread_count (sched_start 0x4000 s1) > 0"
    using start_switch [OF s1(2,3), of "0x4000"] sched_invD(5) [of "sched_start 0x4000 s1" "[]" 0] by auto
  have run: "sched_step\<^sup>*\<^sup>* ?b (sched_start 0x4000 s1)"
    using step_create [OF s1(1)] step_start [of s1 "0x4000"] by (meson converse_rtranclp_into_rtranclp r_into_rtranclp)
  from sched_states_consistent [OF run] have "t_state (thr (sched_start 0x4000 s1) 0) = 1" using st by auto
  then show ?thesis using run st(1) by blast
qed

text \<open>
  C13. Yielding is round robin: after any number of yields, whatever the threads do in between,
  the running thread and the run queue are the initial ones rotated by that number; no ready
  thread waits longer than the number of ready threads.
\<close>

theorem sched_yield_round_robin:
  assumes "sched_inv s q" "g_current s = Some c"
  shows "\<exists>s'. yields xs s = Some s' \<and> g_current s' = Some (hd (rotate (length xs) (c # q))) \<and>
    queue_rep s' (tl (rotate (length xs) (c # q)))"
  using yields_rotate [OF assms] sched_invD(3) by blast

text \<open>Three threads created at boot, the first started.\<close>

lemma demo_sched:
  "\<exists>s. sched_inv s [1, 2] \<and> g_current s = Some 0"
proof -
  let ?b = "sched_boot 0x10000 0x2000 (\<lambda>_. 0) 0x8000"
  have n: "g_thread_count ?b = 0" "g_current ?b = None" by (simp_all add: sched_boot_def)
  obtain s1 where s1: "sched_inv s1 [0]" "g_current s1 = None" "g_thread_count s1 = 1"
    using create_ok [OF boot_inv, of "0x10000" "0x2000" "\<lambda>_. 0" "0x8000" "0x3000" 7] n by (auto simp: MAX_THREADS_def)
  obtain s2 where s2: "sched_inv s2 [0, 1]" "g_current s2 = None" "g_thread_count s2 = 2"
    using create_ok [OF s1(1), of "0x3000" 7] s1 by (auto simp: MAX_THREADS_def)
  obtain s3 where s3: "sched_inv s3 [0, 1, 2]" "g_current s3 = None"
    using create_ok [OF s2(1), of "0x3000" 7] s2 by (auto simp: MAX_THREADS_def)
  then show ?thesis using start_switch [OF s3] by blast
qed

theorem sched_yield_round_robin_witness:
  "\<exists>s s'. yields [(0x100, 0x8000, \<lambda>_. 0), (0x200, 0x9000, \<lambda>_. 0)] s = Some s' \<and>
     g_current s = Some 0 \<and> g_current s' = Some 2"
proof -
  obtain s where s: "sched_inv s [1, 2]" "g_current s = Some 0" using demo_sched by blast
  have "rotate 2 [0, 1, 2 :: nat] = [2, 0, 1]" by (simp add: numeral_2_eq_2)
  then show ?thesis
    using sched_yield_round_robin [OF s, of "[(0x100, 0x8000, \<lambda>_. 0), (0x200, 0x9000, \<lambda>_. 0)]"] s(2)
    by (auto simp: numeral_2_eq_2)
qed

text \<open>
  Steps while the thread \<open>c\<close> does not run that leave the word at \<open>a\<close> as it is, and what they keep of
  \<open>c\<close>: it waits in the run queue with \<open>a\<close> as its saved stack pointer, until it is dispatched.
\<close>

definition away :: "nat \<Rightarrow> u64 \<Rightarrow> sched \<Rightarrow> sched \<Rightarrow> bool" where
  "away c a s s' \<longleftrightarrow> sched_step s s' \<and> g_current s \<noteq> Some c \<and> load64 (s_mem s') a = load64 (s_mem s) a"

definition parked :: "nat \<Rightarrow> u64 \<Rightarrow> sched \<Rightarrow> nat list \<Rightarrow> bool" where
  "parked c a s q \<longleftrightarrow> sched_inv s q \<and> g_current s \<noteq> None \<and>
     (if g_current s = Some c then cpu_rsp s = a + 8 \<and> cpu_rip s = load64 (s_mem s) a
      else c \<in> set q \<and> t_rsp (thr s c) = a)"

lemma parkedD:
  assumes "parked c a s q" "g_current s \<noteq> Some c"
  obtains t where "sched_inv s q" "g_current s = Some t" "t \<noteq> c" "c \<in> set q" "t_rsp (thr s c) = a" "c < g_thread_count s" "c < MAX_THREADS"
proof -
  have p: "sched_inv s q" "g_current s \<noteq> None" "c \<in> set q" "t_rsp (thr s c) = a" using assms by (simp_all add: parked_def)
  then show ?thesis using that assms(2) sched_invD(2,4) [OF p(1)] by fastforce
qed

text \<open>The thread \<open>n\<close> is dispatched, with the threads \<open>q'\<close> left in the queue.\<close>

lemma parked_dispatch:
  assumes "sched_inv s' q'" "g_current s' = Some n" "c \<in> set (n # q')" "t_rsp (thr s c) = a" "t_rsp (thr s' c) = t_rsp (thr s c)"
    and "cpu_rsp s' = t_rsp (thr s n) + 8" "cpu_rip s' = load64 (s_mem s') (t_rsp (thr s n))"
  shows "parked c a s' q'"
  using assms by (auto simp: parked_def)

lemma away_parked:
  assumes st: "away c a s s'" and p: "parked c a s q"
  shows "\<exists>q'. parked c a s' q'"
proof -
  have step: "sched_step s s'" and nc: "g_current s \<noteq> Some c" using st by (simp_all add: away_def)
  obtain t where t: "sched_inv s q" "g_current s = Some t" "t \<noteq> c" "c \<in> set q" "t_rsp (thr s c) = a" "c < g_thread_count s" "c < MAX_THREADS"
    by (rule parkedD [OF p nc])
  obtain n r where q: "q = n # r" using t(4) by (cases q) auto
  from step show ?thesis
  proof cases
    case (step_run m sp ip)
    then show ?thesis using p nc by (auto simp: parked_def sched_inv_def)
  next
    case (step_create entry arg rc)
    show ?thesis
    proof (cases "g_thread_count s < MAX_THREADS")
      case True
      then have "parked c a s' (q @ [g_thread_count s])"
        using create_ok [OF t(1) True, of entry arg] step_create t by (auto simp: parked_def)
      then show ?thesis ..
    qed (use step_create p in \<open>auto simp: sched_create_def\<close>)
  next
    case (step_start ra)
    then show ?thesis using p t(2) by (auto simp: sched_start_def)
  next
    case (step_yield ra)
    then have "parked c a s' (r @ [t])"
      using yield_switch [OF t(1) [unfolded q] t(2), of ra] t(3-5,7) q by (intro parked_dispatch [of _ _ n _ s]) auto
    then show ?thesis ..
  next
    case (step_exit ra k)
    then have "parked c a s' r"
      using exit_switch [OF t(1) [unfolded q] t(2), of ra] t(3-5,7) q by (intro parked_dispatch [of _ _ n _ s]) auto
    then show ?thesis ..
  qed
qed

lemma away_closure:
  assumes "(away c a)\<^sup>*\<^sup>* s s'" "parked c a s q"
  shows "\<exists>q'. parked c a s' q' \<and> load64 (s_mem s') a = load64 (s_mem s) a"
  using assms
proof (induction rule: rtranclp_induct)
  case (step x y)
  then show ?case using away_parked [of c a x y] by (auto simp: away_def)
qed auto

text \<open>
  C14. A thread that yields goes on where it left off. With an empty run queue \<open>sched_yield\<close> just
  returns. Otherwise the first ready thread runs; whatever the other threads then do, in any number
  and order of steps (compute, yield, create threads, end), as long as none of these steps changes the
  word in which the return address of the first thread is: once that thread is the current one again
  it has the stack pointer it had and goes on from its return address.
\<close>

theorem sched_yield_resumes:
  assumes "sched_inv s q" "g_current s = Some c"
  shows "\<exists>s1. sched_yield ra s = Some s1 \<and>
    (if q = [] then s1 = s
     else g_current s1 = Some (hd q) \<and> (\<forall>s2. (away c (cpu_rsp s - 8))\<^sup>*\<^sup>* s1 s2 \<and> g_current s2 = Some c \<longrightarrow>
       cpu_rsp s2 = cpu_rsp s \<and> cpu_rip s2 = ra))"
proof (cases q)
  case Nil
  then show ?thesis using yield_idle assms by simp
next
  case (Cons n r)
  obtain s1 where y: "sched_yield ra s = Some s1" "sched_inv s1 (r @ [c])" "g_current s1 = Some n" "t_rsp (thr s1 c) = cpu_rsp s - 8"
    "s_mem s1 = store64 (s_mem s) (cpu_rsp s - 8) ra"
    using yield_switch [OF assms(1) [unfolded Cons] assms(2), of ra] by blast
  have "n \<noteq> c" using sched_invD(5) [OF assms] Cons by auto
  then have p: "parked c (cpu_rsp s - 8) s1 (r @ [c])" using y(2-4) by (simp add: parked_def)
  have "cpu_rsp s2 = cpu_rsp s \<and> cpu_rip s2 = ra" if "(away c (cpu_rsp s - 8))\<^sup>*\<^sup>* s1 s2" "g_current s2 = Some c" for s2
    using away_closure [OF that(1) p] that(2) y(5) by (auto simp: parked_def)
  then show ?thesis using y(1,3) Cons by auto
qed

text \<open>Three threads: the first yields, the second moves its stack pointer and yields, the third yields.\<close>

theorem sched_yield_resumes_witness:
  "\<exists>s s1 s2 s3. g_current s = Some 0 \<and> cpu_rsp s = 0x8000 \<and> sched_yield 0x1234 s = Some s1 \<and> g_current s1 = Some 1 \<and>
     sched_yield 0x5678 (s1\<lparr>s_mem := s_mem s1, cpu_rsp := 0x9000, cpu_rip := 0x5678\<rparr>) = Some s2 \<and> g_current s2 = Some 2 \<and>
     sched_yield 0x9ABC (s2\<lparr>s_mem := s_mem s2, cpu_rsp := 0xA000, cpu_rip := 0x9ABC\<rparr>) = Some s3 \<and>
     g_current s3 = Some 0 \<and> cpu_rip s3 = 0x1234 \<and> cpu_rsp s3 = 0x8000"
proof -
  obtain s0 where s0: "sched_inv s0 [1, 2]" "g_current s0 = Some 0" using demo_sched by blast
  let ?s = "s0\<lparr>cpu_rsp := 0x8000\<rparr>"
  have s: "sched_inv ?s [1, 2]" "g_current ?s = Some 0" using s0 by (simp_all add: sched_inv_def)
  obtain s1 where s1: "sched_yield 0x1234 ?s = Some s1" "sched_inv s1 [2, 0]" "g_current s1 = Some 1"
    using yield_switch [OF s, of "0x1234"] by auto
  let ?s1 = "s1\<lparr>s_mem := s_mem s1, cpu_rsp := 0x9000, cpu_rip := 0x5678\<rparr>"
  have i1: "sched_inv ?s1 [2, 0]" "g_current ?s1 = Some 1" using s1 by (simp_all add: sched_inv_def)
  obtain s2 where s2: "sched_yield 0x5678 ?s1 = Some s2" "sched_inv s2 [0, 1]" "g_current s2 = Some 2"
    "s_mem s2 = store64 (s_mem s1) (0x9000 - 8) 0x5678"
    using yield_switch [OF i1, of "0x5678"] by auto
  let ?s2 = "s2\<lparr>s_mem := s_mem s2, cpu_rsp := 0xA000, cpu_rip := 0x9ABC\<rparr>"
  have i2: "sched_inv ?s2 [0, 1]" "g_current ?s2 = Some 2" using s2 by (simp_all add: sched_inv_def)
  obtain s3 where s3: "sched_yield 0x9ABC ?s2 = Some s3" "g_current s3 = Some 0" "s_mem s3 = store64 (s_mem s2) (0xA000 - 8) 0x9ABC"
    using yield_switch [OF i2, of "0x9ABC"] by auto
  have cl: "cell 0x7FF8" "cell 0x8FF8" "cell 0x9FF8" by (simp_all add: cell_def)
  have "away 0 0x7FF8 s1 ?s1" "away 0 0x7FF8 ?s1 s2" "away 0 0x7FF8 s2 ?s2" "away 0 0x7FF8 ?s2 s3"
    using step_run [where s = s1 and m = "s_mem s1" and sp = "0x9000" and ip = "0x5678"] step_yield [OF s2(1)]
      step_run [where s = s2 and m = "s_mem s2" and sp = "0xA000" and ip = "0x9ABC"] step_yield [OF s3(1)]
      s1(3) s2(3,4) s3(3) cl by (simp_all add: away_def)
  then have "(away 0 (cpu_rsp ?s - 8))\<^sup>*\<^sup>* s1 s3" by (simp add: converse_rtranclp_into_rtranclp)
  then have "cpu_rsp s3 = 0x8000" "cpu_rip s3 = 0x1234" using sched_yield_resumes [OF s, of "0x1234"] s1(1) s3(2) by auto
  then show ?thesis using s(2) s1(1,3) s2(1,3) s3(1,2) by (intro exI [of _ ?s] exI [of _ s1] exI [of _ s2] exI [of _ s3]) simp
qed

text \<open>
  The first thread to run enters the trampoline with \<open>rsp\<close> at the 16-byte aligned top of its
  stack. The System V ABI asks for \<open>rsp + 8\<close> to be a multiple of 16 at a function's entry, as
  after a call: the initial frame is 8 bytes off.
\<close>

theorem sched_first_entry_alignment:
  assumes "sched_create entry arg (sched_boot stacks tramp m sp) = Some (s, r)"
    and "cell sp" "sp \<noteq> stack_top (sched_boot stacks tramp m sp) 0"
  shows "r = 0 \<and> cpu_rip (sched_start ra s) = tramp \<and>
    cpu_rsp (sched_start ra s) = stack_top (sched_boot stacks tramp m sp) 0 \<and>
    unat (cpu_rsp (sched_start ra s)) mod 16 = 0"
proof -
  let ?b = "sched_boot stacks tramp m sp" and ?t = "stack_top (sched_boot stacks tramp m sp) 0"
  have b: "g_thread_count ?b = 0" "g_current ?b = None" "s_mem ?b = m" "cpu_rsp ?b = sp" "trampoline ?b = tramp"
    by (simp_all add: sched_boot_def)
  have c: "r = 0" "sched_inv s [0]" "g_current s = None" "t_rsp (thr s 0) = ?t - 8"
    "s_mem s = store64 m (?t - 8) tramp" "cpu_rsp s = sp"
    using create_ok [OF boot_inv, of stacks tramp m sp entry arg] assms(1) b by (auto simp: MAX_THREADS_def)
  have al: "unat ?t mod 16 = 0" by (simp add: stack_top_def word_nat)
  have "cell ?t" using al unfolding cell_def by presburger
  then have "load64 (store64 (store64 m (?t - 8) tramp) (sp - 8) ra) (?t - 8) = tramp"
    using cell_sub8 assms(2,3) by simp
  then show ?thesis using start_switch [OF c(2,3), of ra] c al by simp
qed

theorem sched_first_entry_alignment_witness:
  "\<exists>s. sched_create 0x3000 7 (sched_boot 0x10000 0x2000 (\<lambda>_. 0) 0x8000) = Some (s, 0) \<and>
     cpu_rip (sched_start 0x4000 s) = 0x2000 \<and> unat (cpu_rsp (sched_start 0x4000 s)) mod 16 = 0"
proof -
  let ?b = "sched_boot 0x10000 0x2000 (\<lambda>_. 0) 0x8000"
  have n: "g_thread_count ?b = 0" by (simp add: sched_boot_def)
  obtain s where s: "sched_create 0x3000 7 ?b = Some (s, 0)"
    using create_ok [OF boot_inv, of "0x10000" "0x2000" "\<lambda>_. 0" "0x8000" "0x3000" 7] n by (auto simp: MAX_THREADS_def)
  have "cell (0x8000 :: u64)" "(0x8000 :: u64) \<noteq> stack_top ?b 0"
    by (simp_all add: cell_def stack_top_def sched_boot_def STACK_SIZE_def)
  from sched_first_entry_alignment [OF s this, of "0x4000"] show ?thesis using s by auto
qed

end
