(* ===== verification/Block.thy ===== *)
theory Block
  imports Kmalloc Pmm_Correct
begin

text \<open>
  The block layer (\<open>kernel64/block\<close>): the registry of block devices, the memory-backed devices of
  \<open>memdisk.c\<close> and \<open>ramdisk.c\<close>, and the partitions of \<open>block.c\<close>. Device descriptors do not change once
  registered, so the model keeps them as values: \<open>priv\<close> and \<open>ops\<close> together are a datatype whose
  constructor says which driver serves the device, and a partition holds its parent. The
  registry is the list from \<open>g_head\<close>, the most recently registered device first. Console and
  serial messages are left out.
\<close>

section \<open>Devices\<close>

datatype block_device = Block_Device
  (dev_name: string) (sector_size: u32) (sector_count: u64) (dev_driver: driver)
and driver =
    Ramdisk u64 u64 \<comment> \<open>\<open>ramdisk_t\<close>: data, bytes\<close>
  | Memdisk u64 u64 bool \<comment> \<open>\<open>memdisk_priv_t\<close>: base, bytes, writable\<close>
  | Partition block_device u64 u64 \<comment> \<open>\<open>part_priv_t\<close>: parent, lba_base, lba_count\<close>
  | No_Ops

text \<open>The drivers' transfers: memory, first sector, buffer and sector count; the result is the
  memory and the C return value.\<close>

definition c_int :: "u32 \<Rightarrow> int" where "c_int n = sint n"

definition mem_read :: "u32 \<Rightarrow> u64 \<Rightarrow> u64 \<Rightarrow> memory \<Rightarrow> u64 \<Rightarrow> u64 \<Rightarrow> u32 \<Rightarrow> memory \<times> int" where
  "mem_read ss base bytes m lba buf count =
     (if buf = 0 then (m, -1)
      else
        let off = lba * ucast ss;
            need = ucast count * ucast ss
        in if off + need > bytes then (m, -1)
           else (copy_bytes m buf (base + off) (unat need), c_int count))"

definition mem_write :: "u32 \<Rightarrow> u64 \<Rightarrow> u64 \<Rightarrow> bool \<Rightarrow> memory \<Rightarrow> u64 \<Rightarrow> u64 \<Rightarrow> u32 \<Rightarrow> memory \<times> int" where
  "mem_write ss base bytes writable m lba buf count =
     (if buf = 0 \<or> \<not> writable then (m, -1)
      else
        let off = lba * ucast ss;
            need = ucast count * ucast ss
        in if off + need > bytes then (m, -1)
           else (copy_bytes m (base + off) buf (unat need), c_int count))"

definition rd_read :: "u32 \<Rightarrow> u64 \<Rightarrow> u64 \<Rightarrow> memory \<Rightarrow> u64 \<Rightarrow> u64 \<Rightarrow> u32 \<Rightarrow> memory \<times> int" where
  "rd_read ss data bytes m lba buf count =
     (if count = 0 then (m, 0)
      else
        let off = lba * ucast ss;
            len = ucast count * ucast ss
        in if off + len > bytes then (m, -1)
           else (copy_bytes m buf (data + off) (unat len), c_int count))"

definition rd_write :: "u32 \<Rightarrow> u64 \<Rightarrow> u64 \<Rightarrow> memory \<Rightarrow> u64 \<Rightarrow> u64 \<Rightarrow> u32 \<Rightarrow> memory \<times> int" where
  "rd_write ss data bytes m lba buf count =
     (let off = lba * ucast ss;
          len = ucast count * ucast ss
      in if off + len > bytes then (m, -1)
         else (copy_bytes m (data + off) buf (unat len), c_int count))"

text \<open>\<open>part_read\<close> and \<open>part_write\<close>, over the parent's transfer.\<close>

definition part_read ::
  "u64 \<Rightarrow> u64 \<Rightarrow> (memory \<Rightarrow> u64 \<Rightarrow> u64 \<Rightarrow> u32 \<Rightarrow> memory \<times> int) \<Rightarrow>
   memory \<Rightarrow> u64 \<Rightarrow> u64 \<Rightarrow> u32 \<Rightarrow> memory \<times> int" where
  "part_read lba_base lba_count parent_read m lba buf count =
     (if lba + ucast count > lba_count then (m, -1)
      else parent_read m (lba_base + lba) buf count)"

definition part_write ::
  "u64 \<Rightarrow> u64 \<Rightarrow> (memory \<Rightarrow> u64 \<Rightarrow> u64 \<Rightarrow> u32 \<Rightarrow> memory \<times> int) \<Rightarrow>
   memory \<Rightarrow> u64 \<Rightarrow> u64 \<Rightarrow> u32 \<Rightarrow> memory \<times> int" where
  "part_write lba_base lba_count parent_write m lba buf count =
     (if lba + ucast count > lba_count then (m, -1)
      else parent_write m (lba_base + lba) buf count)"

text \<open>\<open>d->ops->read\<close> and \<open>d->ops->write\<close>; a device without operations is not called.\<close>

primrec dev_read :: "block_device \<Rightarrow> memory \<Rightarrow> u64 \<Rightarrow> u64 \<Rightarrow> u32 \<Rightarrow> memory \<times> int"
  and drv_read :: "driver \<Rightarrow> u32 \<Rightarrow> memory \<Rightarrow> u64 \<Rightarrow> u64 \<Rightarrow> u32 \<Rightarrow> memory \<times> int" where
  "dev_read (Block_Device nm ss sc drv) = drv_read drv ss"
| "drv_read (Ramdisk data bytes) ss = rd_read ss data bytes"
| "drv_read (Memdisk base bytes w) ss = mem_read ss base bytes"
| "drv_read (Partition parent lb lc) ss =
     (if dev_driver parent = No_Ops then (\<lambda>m _ _ _. (m, -1)) else part_read lb lc (dev_read parent))"
| "drv_read No_Ops ss = (\<lambda>m _ _ _. (m, -1))"

primrec dev_write :: "block_device \<Rightarrow> memory \<Rightarrow> u64 \<Rightarrow> u64 \<Rightarrow> u32 \<Rightarrow> memory \<times> int"
  and drv_write :: "driver \<Rightarrow> u32 \<Rightarrow> memory \<Rightarrow> u64 \<Rightarrow> u64 \<Rightarrow> u32 \<Rightarrow> memory \<times> int" where
  "dev_write (Block_Device nm ss sc drv) = drv_write drv ss"
| "drv_write (Ramdisk data bytes) ss = rd_write ss data bytes"
| "drv_write (Memdisk base bytes w) ss = mem_write ss base bytes w"
| "drv_write (Partition parent lb lc) ss =
     (if dev_driver parent = No_Ops then (\<lambda>m _ _ _. (m, -1)) else part_write lb lc (dev_write parent))"
| "drv_write No_Ops ss = (\<lambda>m _ _ _. (m, -1))"

section \<open>The registry\<close>

record block_state =
  b_mem :: memory
  b_heap :: heap_state
  b_pmm :: pmm_state
  g_devs :: "block_device list" \<comment> \<open>from \<open>g_head\<close>\<close>

definition block_register :: "block_device \<Rightarrow> block_state \<Rightarrow> block_state" where
  "block_register dev s = s\<lparr>g_devs := dev # g_devs s\<rparr>"

text \<open>The comparison loop \<open>while (*a && *b && *a == *b)\<close> and the test after it.\<close>

fun name_eq :: "string \<Rightarrow> string \<Rightarrow> bool" where
  "name_eq (a # as) (b # bs) = (if a = b then name_eq as bs else False)"
| "name_eq [] [] = True"
| "name_eq _ _ = False"

definition block_find :: "block_state \<Rightarrow> string \<Rightarrow> block_device option" where
  "block_find s name = find (\<lambda>d. name_eq name (dev_name d)) (g_devs s)"

definition block_default_sector :: u32 where "block_default_sector = 512"

definition block_first :: "block_state \<Rightarrow> block_device option" where
  "block_first s = (case g_devs s of [] \<Rightarrow> None | d # _ \<Rightarrow> Some d)"

text \<open>\<open>sizeof\<close> of the structures allocated here.\<close>

definition SIZEOF_BLOCK_DEVICE :: u64 where "SIZEOF_BLOCK_DEVICE = 56"
definition SIZEOF_PART_PRIV :: u64 where "SIZEOF_PART_PRIV = 24"
definition SIZEOF_MEMDISK_PRIV :: u64 where "SIZEOF_MEMDISK_PRIV = 24"
definition SIZEOF_RAMDISK :: u64 where "SIZEOF_RAMDISK = 16"

definition memdisk_register ::
  "block_state \<Rightarrow> string \<Rightarrow> u64 \<Rightarrow> u64 \<Rightarrow> u32 \<Rightarrow> bool \<Rightarrow> (block_state \<times> int) option" where
  "memdisk_register s name base bytes ss writable =
     (if base = 0 \<or> bytes = 0 \<or> ss = 0 then Some (s, -1)
      else if bytes mod ucast ss \<noteq> 0 then Some (s, -1)
      else do {
        (h1, d) \<leftarrow> kmalloc (b_heap s) SIZEOF_BLOCK_DEVICE;
        if d = 0 then Some (s\<lparr>b_heap := h1\<rparr>, -1)
        else do {
          (h2, p) \<leftarrow> kmalloc h1 SIZEOF_MEMDISK_PRIV;
          if p = 0 then Some (s\<lparr>b_heap := h2\<rparr>, -1)
          else Some (block_register (Block_Device (take 15 name) ss (bytes div ucast ss)
                 (Memdisk base bytes writable)) (s\<lparr>b_heap := h2\<rparr>), 0) } })"

text \<open>The optional seeding of a partition table (\<open>RAMDISK_INIT_MBR\<close>) on a disk of \<open>rounded\<close> bytes.\<close>

definition seed_mbr :: "memory \<Rightarrow> u64 \<Rightarrow> u64 \<Rightarrow> u32 \<Rightarrow> memory" where
  "seed_mbr m mbr rounded sec =
     (if rounded \<ge> 1024
      then
        let sec_cnt = rounded div ucast sec
        in if sec_cnt > 1
           then
             let p = mbr + 446;
                 start = 1;
                 cnt = ucast (sec_cnt - 1) :: u32;
                 m1 = m(p := 0, p + 3 := 0, p + 2 := 0, p + 1 := 0, p + 4 := 7, p + 7 := 0, p + 6 := 0,
                   p + 5 := 0, mbr + 510 := 0x55, mbr + 511 := 0xAA);
                 m2 = store32 m1 (p + 8) start
             in store32 m2 (p + 12) cnt
           else m
      else m)"

definition ramdisk_create ::
  "bool \<Rightarrow> block_state \<Rightarrow> string \<Rightarrow> u64 \<Rightarrow> (block_state \<times> int) option" where
  "ramdisk_create init_mbr s name bytes =
     (if bytes = 0 then Some (s, -1)
      else do {
        let sec = block_default_sector;
        let rounded = (bytes + ucast sec - 1) div ucast sec * ucast sec;
        (h1, rd) \<leftarrow> kmalloc (b_heap s) SIZEOF_RAMDISK;
        if rd = 0 then Some (s\<lparr>b_heap := h1\<rparr>, -1)
        else do {
          let pages = (rounded + 4095) div 4096;
          (pmm', paddr) \<leftarrow> pmm_alloc_frames_below (b_pmm s) pages (2 ^ 30);
          let s1 = s\<lparr>b_heap := h1, b_pmm := pmm'\<rparr>;
          if paddr = 0 then Some (s1, -1)
          else do {
            let m1 = fill_bytes (b_mem s1) paddr 0 (unat rounded);
            let m2 = (if init_mbr then seed_mbr m1 paddr rounded sec else m1);
            (h2, bd) \<leftarrow> kmalloc (b_heap s1) SIZEOF_BLOCK_DEVICE;
            if bd = 0 then Some (s1\<lparr>b_mem := m2, b_heap := h2\<rparr>, -1)
            else Some (block_register (Block_Device (take 15 name) sec (rounded div ucast sec)
                   (Ramdisk paddr rounded)) (s1\<lparr>b_mem := m2, b_heap := h2\<rparr>), 0) } } })"

section \<open>Partitions\<close>

text \<open>The name \<open><parent>pN\<close>, built in a buffer of 16 characters.\<close>

definition part_name :: "string \<Rightarrow> nat \<Rightarrow> string" where
  "part_name parent i =
     (let nlen = min (length parent) 15
      in take (min nlen 12) parent @ [CHR ''p'', char_of (49 + i)])"

definition add_partition :: "block_device \<Rightarrow> u64 \<Rightarrow> block_state \<Rightarrow> nat \<Rightarrow> block_state option" where
  "add_partition d mbr s i =
     (let p = mbr + 446 + of_nat (16 * i);
          typ = b_mem s (p + 4);
          start = load32 (b_mem s) (p + 8);
          count = load32 (b_mem s) (p + 12)
      in if typ = 0 \<or> count = 0 then Some s
         else do {
           (h1, pd) \<leftarrow> kmalloc (b_heap s) SIZEOF_BLOCK_DEVICE;
           if pd = 0 then Some (s\<lparr>b_heap := h1\<rparr>)
           else do {
             (h2, pp) \<leftarrow> kmalloc h1 SIZEOF_PART_PRIV;
             if pp = 0 then Some (s\<lparr>b_heap := h2\<rparr>)
             else Some (block_register (Block_Device (part_name (dev_name d) i) (sector_size d) (ucast count)
                    (Partition d (ucast start) (ucast count))) (s\<lparr>b_heap := h2\<rparr>)) } })"

fun add_partitions :: "block_device \<Rightarrow> u64 \<Rightarrow> block_state \<Rightarrow> nat list \<Rightarrow> block_state option" where
  "add_partitions d mbr s [] = Some s"
| "add_partitions d mbr s (i # is) = do {
     s' \<leftarrow> add_partition d mbr s i;
     add_partitions d mbr s' is }"

definition scan_device :: "u64 \<Rightarrow> block_state \<Rightarrow> block_device \<Rightarrow> block_state option" where
  "scan_device mbr s d =
     (if dev_driver d = No_Ops \<or> sector_size d \<noteq> 512 then Some s
      else
        let (m1, r) = dev_read d (b_mem s) 0 mbr 1;
            s1 = s\<lparr>b_mem := m1\<rparr>
        in if r \<noteq> 1 then Some s1
           else if m1 (mbr + 510) \<noteq> 0x55 \<or> m1 (mbr + 511) \<noteq> 0xAA then Some s1
           else add_partitions d mbr s1 [0, 1, 2, 3])"

text \<open>The scan walks the devices registered when it starts: new ones go to the front of the list.
  \<open>mbr\<close> is the address of the local buffer.\<close>

fun scan_devices :: "u64 \<Rightarrow> block_state \<Rightarrow> block_device list \<Rightarrow> block_state option" where
  "scan_devices mbr s [] = Some s"
| "scan_devices mbr s (d # ds) = do {
     s' \<leftarrow> scan_device mbr s d;
     scan_devices mbr s' ds }"

definition block_scan_partitions :: "u64 \<Rightarrow> block_state \<Rightarrow> block_state option" where
  "block_scan_partitions mbr s = scan_devices mbr s (g_devs s)"

end
