(* ===== verification/Block_Correct.thy ===== *)
theory Block_Correct
  imports Block
begin

text \<open>
  The contract of a block device (sectors that read back what was written, transfers outside the
  device refused) and its proof for RAM disks, memory disks and partitions of any depth.
\<close>

section \<open>Well-formed devices\<close>

primrec dev_ok :: "block_device \<Rightarrow> bool" and drv_ok :: "driver \<Rightarrow> u32 \<Rightarrow> u64 \<Rightarrow> bool" where
  "dev_ok (Block_Device nm ss sc drv) = (ss \<noteq> 0 \<and> drv_ok drv ss sc)"
| "drv_ok (Ramdisk data bytes) ss sc = (unat sc * unat ss = unat bytes \<and> unat data + unat bytes \<le> 2 ^ 64)"
| "drv_ok (Memdisk base bytes w) ss sc = (unat sc * unat ss = unat bytes \<and> unat base + unat bytes \<le> 2 ^ 64)"
| "drv_ok (Partition parent lb lc) ss sc = (dev_ok parent \<and> sector_size parent = ss \<and> lc = sc \<and>
     unat lb + unat lc \<le> unat (sector_count parent))"
| "drv_ok No_Ops ss sc = False"

text \<open>The address of the device's byte \<open>k\<close>, and whether it can be written.\<close>

primrec dev_at :: "block_device \<Rightarrow> nat \<Rightarrow> u64" and drv_at :: "driver \<Rightarrow> u32 \<Rightarrow> nat \<Rightarrow> u64" where
  "dev_at (Block_Device nm ss sc drv) = drv_at drv ss"
| "drv_at (Ramdisk data bytes) ss = (\<lambda>k. data + of_nat k)"
| "drv_at (Memdisk base bytes w) ss = (\<lambda>k. base + of_nat k)"
| "drv_at (Partition parent lb lc) ss = (\<lambda>k. dev_at parent (unat lb * unat ss + k))"
| "drv_at No_Ops ss = (\<lambda>k. 0)"

primrec dev_writable :: "block_device \<Rightarrow> bool" and drv_writable :: "driver \<Rightarrow> bool" where
  "dev_writable (Block_Device nm ss sc drv) = drv_writable drv"
| "drv_writable (Ramdisk data bytes) = True"
| "drv_writable (Memdisk base bytes w) = w"
| "drv_writable (Partition parent lb lc) = dev_writable parent"
| "drv_writable No_Ops = False"

definition dev_ss :: "block_device \<Rightarrow> nat" where "dev_ss d = unat (sector_size d)"
definition dev_sectors :: "block_device \<Rightarrow> nat" where "dev_sectors d = unat (sector_count d)"
definition dev_bytes :: "block_device \<Rightarrow> u64 set" where
  "dev_bytes d = dev_at d ` {..<dev_sectors d * dev_ss d}"

section \<open>Transfers of the memory-backed drivers\<close>

lemma xfer_arith:
  assumes "unat lba + unat cnt \<le> n" "n * unat ss = unat bytes"
  shows "unat (lba * ucast (ss :: u32) :: u64) = unat lba * unat ss"
    "unat (ucast (cnt :: u32) * ucast ss :: u64) = unat cnt * unat ss"
    "\<not> bytes < lba * ucast ss + ucast cnt * ucast ss"
    "unat lba * unat ss + unat cnt * unat ss \<le> unat (bytes :: u64)"
proof -
  have le: "(unat lba + unat cnt) * unat ss \<le> unat bytes"
    using assms mult_le_mono1 [OF assms(1), of "unat ss"] by simp
  then show b: "unat lba * unat ss + unat cnt * unat ss \<le> unat bytes" by (simp add: add_mult_distrib)
  have B: "unat bytes < 2 ^ 64" using u64_bound [of bytes] by simp
  show o: "unat (lba * ucast ss :: u64) = unat lba * unat ss"
    using b B by (subst unat_mult_small) simp_all
  show n: "unat (ucast cnt * ucast ss :: u64) = unat cnt * unat ss"
    using b B by (subst unat_mult_small) simp_all
  have "unat (lba * ucast ss + ucast cnt * ucast ss) = unat lba * unat ss + unat cnt * unat ss"
    using b B o n by (subst unat_add_small) simp_all
  then show "\<not> bytes < lba * ucast ss + ucast cnt * ucast ss"
    using b by (simp add: word_less_nat_alt)
qed

lemma xfer_range:
  assumes "n < unat lba + unat cnt" "n * unat ss = unat bytes" "ss \<noteq> 0" "(unat lba + unat cnt) * unat ss < 2 ^ 64"
  shows "(bytes :: u64) < lba * ucast (ss :: u32) + ucast (cnt :: u32) * ucast ss"
proof -
  have b: "unat lba * unat ss + unat cnt * unat ss < 2 ^ 64" using assms(4) by (simp add: add_mult_distrib)
  have o: "unat (lba * ucast ss :: u64) = unat lba * unat ss" using b by (subst unat_mult_small) simp_all
  have n: "unat (ucast cnt * ucast ss :: u64) = unat cnt * unat ss" using b by (subst unat_mult_small) simp_all
  have "unat (lba * ucast ss + ucast cnt * ucast ss) = unat lba * unat ss + unat cnt * unat ss"
    using b o n by (subst unat_add_small) simp_all
  moreover have "n * unat ss < (unat lba + unat cnt) * unat ss"
    using assms(1,3) by (simp add: unat_gt_0)
  ultimately show ?thesis using assms(2) by (simp add: word_less_nat_alt add_mult_distrib)
qed

lemma c_int_small: "unat n < 2 ^ 31 \<Longrightarrow> c_int n = int (unat n)"
proof -
  assume n: "unat n < 2 ^ 31"
  have "signed_take_bit 31 (int k) = int k" if "k < 2 ^ 31" for k :: nat
    by (rule signed_take_bit_int_eq_self) (use that in simp_all)
  from this [OF n] show ?thesis unfolding c_int_def sint_uint uint_nat by simp
qed

text \<open>A linear device at \<open>base\<close>: the bytes of a run of sectors are consecutive.\<close>

lemma linear_run:
  assumes "unat off + n \<le> unat (bytes :: u64)" "unat base + unat bytes \<le> 2 ^ 64"
  shows "bytes_at (base + off) n = (\<lambda>k. base + of_nat k) ` {unat off..<unat off + n}"
    "(\<lambda>k. base + of_nat k) ` {unat off..<unat off + n} \<subseteq> (\<lambda>k. base + of_nat k) ` {..<unat bytes}"
proof -
  have "unat bytes < 2 ^ 64" using u64_bound [of bytes] by simp
  then have n: "n \<le> 2 ^ 64" using assms(1) by simp
  show "bytes_at (base + off) n = (\<lambda>k. base + of_nat k) ` {unat off..<unat off + n}"
  proof (intro set_eqI iffI)
    fix x assume "x \<in> bytes_at (base + off) n"
    then obtain i where i: "i < n" "x = base + off + of_nat i" by (rule bytes_at_E)
    then have "x = base + of_nat (unat off + i)" by (simp add: add.assoc)
    then show "x \<in> (\<lambda>k. base + of_nat k) ` {unat off..<unat off + n}"
      using i(1) by (intro image_eqI [of _ _ "unat off + i"]) simp_all
  next
    fix x assume "x \<in> (\<lambda>k. base + of_nat k) ` {unat off..<unat off + n}"
    then obtain k where k: "unat off \<le> k" "k < unat off + n" "x = base + of_nat k" by auto
    then have "x = base + off + of_nat (k - unat off)" by (simp add: of_nat_diff)
    then show "x \<in> bytes_at (base + off) n" using bytes_at_offset [OF _ n, of "k - unat off" "base + off"] k by simp
  qed
  show "(\<lambda>k. base + of_nat k) ` {unat off..<unat off + n} \<subseteq> (\<lambda>k. base + of_nat k) ` {..<unat bytes}"
    using assms(1) by auto
qed

lemma linear_inj:
  assumes "unat base + unat (bytes :: u64) \<le> 2 ^ 64"
  shows "inj_on (\<lambda>k. base + of_nat k :: u64) {..<unat bytes}"
proof (rule inj_onI)
  fix i j assume "i \<in> {..<unat bytes}" "j \<in> {..<unat bytes}" "base + of_nat i = base + of_nat j"
  then have "unat (of_nat i :: u64) = unat (of_nat j :: u64)" "i < 18446744073709551616" "j < 18446744073709551616"
    using u64_bound [of bytes] by auto
  then show "i = j" by (simp only: u64_of_nat_unat)
qed

section \<open>The contract\<close>

locale sector_device =
  fixes ok :: "'d \<Rightarrow> bool"
    and writable :: "'d \<Rightarrow> bool"
    and ss :: "'d \<Rightarrow> nat"
    and sectors :: "'d \<Rightarrow> nat"
    and addr :: "'d \<Rightarrow> nat \<Rightarrow> u64"
    and rd :: "'d \<Rightarrow> memory \<Rightarrow> u64 \<Rightarrow> u64 \<Rightarrow> u32 \<Rightarrow> memory \<times> int"
    and wr :: "'d \<Rightarrow> memory \<Rightarrow> u64 \<Rightarrow> u64 \<Rightarrow> u32 \<Rightarrow> memory \<times> int"
  assumes addr_inj: "ok d \<Longrightarrow> inj_on (addr d) {..<sectors d * ss d}"
    and size_bound: "ok d \<Longrightarrow> sectors d * ss d \<le> 2 ^ 64"
    and rd_ok: "ok d \<Longrightarrow> cnt \<noteq> 0 \<Longrightarrow> unat cnt < 2 ^ 31 \<Longrightarrow> buf \<noteq> 0 \<Longrightarrow> unat lba + unat cnt \<le> sectors d \<Longrightarrow>
      bytes_at buf (unat cnt * ss d) \<inter> addr d ` {unat lba * ss d..<(unat lba + unat cnt) * ss d} = {} \<Longrightarrow>
      rd d m lba buf cnt = (\<lambda>x. if x \<in> bytes_at buf (unat cnt * ss d)
        then m (addr d (unat lba * ss d + unat (x - buf))) else m x, int (unat cnt))"
    and wr_ok: "ok d \<Longrightarrow> writable d \<Longrightarrow> cnt \<noteq> 0 \<Longrightarrow> unat cnt < 2 ^ 31 \<Longrightarrow> buf \<noteq> 0 \<Longrightarrow>
      unat lba + unat cnt \<le> sectors d \<Longrightarrow>
      bytes_at buf (unat cnt * ss d) \<inter> addr d ` {unat lba * ss d..<(unat lba + unat cnt) * ss d} = {} \<Longrightarrow>
      \<exists>m'. wr d m lba buf cnt = (m', int (unat cnt)) \<and>
        (\<forall>k < unat cnt * ss d. m' (addr d (unat lba * ss d + k)) = m (buf + of_nat k)) \<and>
        (\<forall>x. x \<notin> addr d ` {unat lba * ss d..<(unat lba + unat cnt) * ss d} \<longrightarrow> m' x = m x)"
    and range_checked: "ok d \<Longrightarrow> cnt \<noteq> 0 \<Longrightarrow> sectors d < unat lba + unat cnt \<Longrightarrow>
      (unat lba + unat cnt) * ss d < 2 ^ 64 \<Longrightarrow> rd d m lba buf cnt = (m, -1) \<and> wr d m lba buf cnt = (m, -1)"
begin

text \<open>Reading back what was written, into any buffer off the device.\<close>

lemma write_read:
  assumes d: "ok d" "writable d" and c: "cnt \<noteq> 0" "unat cnt < 2 ^ 31" "unat lba + unat cnt \<le> sectors d"
    and b: "buf \<noteq> 0" "bytes_at buf (unat cnt * ss d) \<inter> addr d ` {unat lba * ss d..<(unat lba + unat cnt) * ss d} = {}"
    and b': "buf' \<noteq> 0" "bytes_at buf' (unat cnt * ss d) \<inter> addr d ` {unat lba * ss d..<(unat lba + unat cnt) * ss d} = {}"
    and w: "wr d m lba buf cnt = (m1, r)" and r: "rd d m1 lba buf' cnt = (m2, r')" and k: "k < unat cnt * ss d"
  shows "r = int (unat cnt) \<and> r' = int (unat cnt) \<and> m2 (buf' + of_nat k) = m (buf + of_nat k)"
proof -
  have m1: "r = int (unat cnt)" "m1 (addr d (unat lba * ss d + k)) = m (buf + of_nat k)"
    using wr_ok [OF d c(1,2) b(1) c(3) b(2), of m] w k by auto
  have le: "unat cnt * ss d \<le> 2 ^ 64"
    using size_bound [OF d(1)] c(3) mult_le_mono1 [of "unat cnt" "sectors d" "ss d"] by linarith
  have x: "buf' + of_nat k \<in> bytes_at buf' (unat cnt * ss d)" by (rule bytes_at_offset [OF k le])
  have "k < 2 ^ 64" using k le by linarith
  then have "unat (buf' + of_nat k - buf') = k" by (simp add: u64_of_nat_unat)
  then show ?thesis
    using rd_ok [OF d(1) c(1,2) b'(1) c(3) b'(2), of m1] r x m1 by auto
qed

text \<open>A write to other sectors does not show.\<close>

lemma write_other:
  assumes d: "ok d" "writable d" and c: "cnt \<noteq> 0" "unat cnt < 2 ^ 31" "unat lba + unat cnt \<le> sectors d"
    and b: "buf \<noteq> 0" "bytes_at buf (unat cnt * ss d) \<inter> addr d ` {unat lba * ss d..<(unat lba + unat cnt) * ss d} = {}"
    and w: "wr d m lba buf cnt = (m1, r)" and i: "i < sectors d" "i < unat lba \<or> unat lba + unat cnt \<le> i" "k < ss d"
  shows "m1 (addr d (i * ss d + k)) = m (addr d (i * ss d + k))"
proof -
  have m1: "\<forall>x. x \<notin> addr d ` {unat lba * ss d..<(unat lba + unat cnt) * ss d} \<longrightarrow> m1 x = m x"
    using wr_ok [OF d c(1,2) b(1) c(3) b(2), of m] w by auto
  have "Suc i * ss d \<le> sectors d * ss d" using i(1) by (intro mult_le_mono1) simp
  then have ik: "i * ss d + k < sectors d * ss d" using i(3) by simp
  have hi: "(unat lba + unat cnt) * ss d \<le> sectors d * ss d" using c(3) by (rule mult_le_mono1)
  have out: "i * ss d + k < unat lba * ss d \<or> (unat lba + unat cnt) * ss d \<le> i * ss d + k"
  proof (cases "i < unat lba")
    case True
    then have "Suc i * ss d \<le> unat lba * ss d" by (intro mult_le_mono1) simp
    then show ?thesis using i(3) by simp
  next
    case False
    then have "(unat lba + unat cnt) * ss d \<le> i * ss d" using i(2) by (intro mult_le_mono1) simp
    then show ?thesis by (intro disjI2 trans_le_add1)
  qed
  have "addr d (i * ss d + k) \<notin> addr d ` {unat lba * ss d..<(unat lba + unat cnt) * ss d}"
  proof
    assume "addr d (i * ss d + k) \<in> addr d ` {unat lba * ss d..<(unat lba + unat cnt) * ss d}"
    then obtain j where j: "unat lba * ss d \<le> j" "j < (unat lba + unat cnt) * ss d"
      "addr d (i * ss d + k) = addr d j" by auto
    then have "i * ss d + k = j" using inj_onD [OF addr_inj [OF d(1)] j(3)] ik hi by auto
    then show False using out j by auto
  qed
  then show ?thesis using m1 by blast
qed

end

section \<open>The drivers keep the contract\<close>

lemma linear_read:
  assumes ar: "unat lba + unat cnt \<le> n" "n * unat ss = unat (bytes :: u64)" and lin: "unat base + unat bytes \<le> 2 ^ 64"
    and dj: "bytes_at buf (unat cnt * unat ss) \<inter>
      (\<lambda>k. base + of_nat k) ` {unat lba * unat ss..<(unat lba + unat cnt) * unat ss} = {}"
  shows "copy_bytes m buf (base + lba * ucast (ss :: u32)) (unat (ucast (cnt :: u32) * ucast ss :: u64)) =
    (\<lambda>x. if x \<in> bytes_at buf (unat cnt * unat ss) then m (base + of_nat (unat lba * unat ss + unat (x - buf))) else m x)"
proof
  fix x
  note a = xfer_arith [OF ar]
  note l = linear_run [of "lba * ucast ss" "unat cnt * unat ss" bytes base, unfolded a(1), OF a(4) lin]
  have le: "unat cnt * unat ss \<le> 2 ^ 64" using a(4) u64_bound [of bytes] by simp
  have "bytes_at buf (unat cnt * unat ss) \<inter> bytes_at (base + lba * ucast ss) (unat cnt * unat ss) = {}"
    using dj unfolding l(1) by (auto simp: add_mult_distrib)
  from copy_bytes_apply [OF le this, of m x]
  have "copy_bytes m buf (base + lba * ucast ss) (unat cnt * unat ss) x =
      (if x \<in> bytes_at buf (unat cnt * unat ss) then m (base + lba * ucast ss + (x - buf)) else m x)" .
  moreover have "base + lba * ucast ss + (x - buf) = base + of_nat (unat lba * unat ss + unat (x - buf))"
  proof -
    have "of_nat (unat (lba * ucast ss)) = lba * ucast ss" "of_nat (unat (x - buf)) = x - buf" by simp_all
    then show ?thesis unfolding a(1) by (simp only: of_nat_add add.assoc)
  qed
  ultimately show "copy_bytes m buf (base + lba * ucast ss) (unat (ucast cnt * ucast ss :: u64)) x =
    (if x \<in> bytes_at buf (unat cnt * unat ss) then m (base + of_nat (unat lba * unat ss + unat (x - buf))) else m x)"
    by (simp only: a(2))
qed

lemma linear_write:
  assumes ar: "unat lba + unat cnt \<le> n" "n * unat ss = unat (bytes :: u64)" and lin: "unat base + unat bytes \<le> 2 ^ 64"
    and dj: "bytes_at buf (unat cnt * unat ss) \<inter>
      (\<lambda>k. base + of_nat k) ` {unat lba * unat ss..<(unat lba + unat cnt) * unat ss} = {}"
    and m': "m' = copy_bytes m (base + lba * ucast (ss :: u32)) buf (unat (ucast (cnt :: u32) * ucast ss :: u64))"
  shows "k < unat cnt * unat ss \<Longrightarrow> m' (base + of_nat (unat lba * unat ss + k)) = m (buf + of_nat k)"
    "x \<notin> (\<lambda>k. base + of_nat k) ` {unat lba * unat ss..<(unat lba + unat cnt) * unat ss} \<Longrightarrow> m' x = m x"
proof -
  note a = xfer_arith [OF ar]
  note l = linear_run [of "lba * ucast ss" "unat cnt * unat ss" bytes base, unfolded a(1), OF a(4) lin]
  have le: "unat cnt * unat ss \<le> 2 ^ 64" using a(4) u64_bound [of bytes] by simp
  have dj': "bytes_at (base + lba * ucast ss) (unat cnt * unat ss) \<inter> bytes_at buf (unat cnt * unat ss) = {}"
    using dj unfolding l(1) by (auto simp: add_mult_distrib)
  have e: "m' x = (if x \<in> bytes_at (base + lba * ucast ss) (unat cnt * unat ss)
      then m (buf + (x - (base + lba * ucast ss))) else m x)" for x
    unfolding m' a(2) by (rule copy_bytes_apply [OF le dj'])
  show "m' (base + of_nat (unat lba * unat ss + k)) = m (buf + of_nat k)" if k: "k < unat cnt * unat ss"
  proof -
    have "of_nat (unat (lba * ucast ss)) = lba * ucast ss" by simp
    then have s: "base + of_nat (unat lba * unat ss + k) = base + lba * ucast ss + of_nat k"
      unfolding a(1) by (simp only: of_nat_add add.assoc)
    show ?thesis unfolding s e using bytes_at_offset [OF k le, of "base + lba * ucast ss"] by simp
  qed
  show "m' x = m x" if "x \<notin> (\<lambda>k. base + of_nat k) ` {unat lba * unat ss..<(unat lba + unat cnt) * unat ss}"
    using that l(1) e [of x] by (simp add: add_mult_distrib)
qed

lemmas dev_geom = dev_ss_def dev_sectors_def

lemma dev_at_inj: "dev_ok d \<Longrightarrow> inj_on (dev_at d) {..<dev_sectors d * dev_ss d}"
  "drv_ok drv ss sc \<Longrightarrow> inj_on (drv_at drv ss) {..<unat sc * unat ss}"
proof (induction d and drv arbitrary: and ss sc rule: block_device.induct driver.induct)
  case (Block_Device nm ss sc drv)
  then show ?case by (simp add: dev_geom)
next
  case (Ramdisk data bytes)
  then show ?case using linear_inj [of data bytes] by simp
next
  case (Memdisk base bytes w)
  then show ?case using linear_inj [of base bytes] by simp
next
  case (Partition parent lb lc)
  then have p: "inj_on (dev_at parent) {..<dev_sectors parent * unat ss}" "sc = lc"
    "unat lb + unat lc \<le> dev_sectors parent" by (auto simp: dev_geom)
  have le: "unat lb * unat ss + unat lc * unat ss \<le> dev_sectors parent * unat ss"
    using mult_le_mono1 [OF p(3), of "unat ss"] by (simp add: add_mult_distrib)
  show ?case unfolding p(2)
    by (rule inj_onI) (use inj_onD [OF p(1)] le in fastforce)
qed simp

lemma part_shift:
  assumes "unat lb + unat lc \<le> n" "unat lba + unat cnt \<le> unat lc" "n < 2 ^ 64"
  shows "\<not> lc < lba + ucast (cnt :: u32)" "unat (lb + lba :: u64) = unat lb + unat lba"
    "unat (lb + lba) + unat cnt \<le> n"
proof -
  show e: "unat (lb + lba) = unat lb + unat lba" using assms by (subst unat_add_small) simp_all
  show "unat (lb + lba) + unat cnt \<le> n" using assms e by simp
  have "unat (lba + ucast cnt) = unat lba + unat cnt" using assms by (subst unat_add_small) simp_all
  then show "\<not> lc < lba + ucast cnt" using assms(2) by (simp add: word_less_nat_alt)
qed

lemma part_image:
  "drv_at (Partition parent lb lc) ss ` {a * unat ss..<(a + c) * unat ss} =
    dev_at parent ` {(unat lb + a) * unat ss..<(unat lb + a + c) * unat ss}"
proof -
  have "{(unat lb + a) * unat ss..<(unat lb + a + c) * unat ss} =
      (\<lambda>k. unat lb * unat ss + k) ` {a * unat ss..<(a + c) * unat ss}"
    by (simp add: algebra_simps)
  then show ?thesis by (simp only: drv_at.simps image_image)
qed

lemma dev_ok_ops: "dev_ok d \<Longrightarrow> dev_driver d \<noteq> No_Ops"
  by (cases d) auto

lemma dev_read_ok:
  assumes c: "cnt \<noteq> 0" "unat cnt < 2 ^ 31" "buf \<noteq> 0"
  shows "dev_ok d \<Longrightarrow> unat lba + unat cnt \<le> dev_sectors d \<Longrightarrow>
      bytes_at buf (unat cnt * dev_ss d) \<inter>
        dev_at d ` {unat lba * dev_ss d..<(unat lba + unat cnt) * dev_ss d} = {} \<Longrightarrow>
      dev_read d m lba buf cnt = (\<lambda>x. if x \<in> bytes_at buf (unat cnt * dev_ss d)
        then m (dev_at d (unat lba * dev_ss d + unat (x - buf))) else m x, int (unat cnt))"
    and "drv_ok drv ss sc \<Longrightarrow> unat lba + unat cnt \<le> unat sc \<Longrightarrow>
      bytes_at buf (unat cnt * unat ss) \<inter>
        drv_at drv ss ` {unat lba * unat ss..<(unat lba + unat cnt) * unat ss} = {} \<Longrightarrow>
      drv_read drv ss m lba buf cnt = (\<lambda>x. if x \<in> bytes_at buf (unat cnt * unat ss)
        then m (drv_at drv ss (unat lba * unat ss + unat (x - buf))) else m x, int (unat cnt))"
proof (induction d and drv arbitrary: lba and ss sc lba rule: block_device.induct driver.induct)
  case (Block_Device nm ss sc drv)
  then show ?case unfolding dev_geom dev_read.simps dev_at.simps dev_ok.simps block_device.sel by blast
next
  case (Ramdisk data bytes)
  then have s: "unat sc * unat ss = unat bytes" "unat data + unat bytes \<le> 2 ^ 64" by simp_all
  show ?case
    using linear_read [OF Ramdisk.prems(2) s, of buf m] Ramdisk.prems(3) xfer_arith(3) [OF Ramdisk.prems(2) s(1)] c
    unfolding drv_at.simps by (simp add: rd_read_def Let_def c_int_small)
next
  case (Memdisk base bytes w)
  then have s: "unat sc * unat ss = unat bytes" "unat base + unat bytes \<le> 2 ^ 64" by simp_all
  show ?case
    using linear_read [OF Memdisk.prems(2) s, of buf m] Memdisk.prems(3) xfer_arith(3) [OF Memdisk.prems(2) s(1)] c
    unfolding drv_at.simps by (simp add: mem_read_def Let_def c_int_small)
next
  case (Partition parent lb lc)
  have p: "dev_ok parent" "dev_ss parent = unat ss" "lc = sc" "unat lb + unat lc \<le> dev_sectors parent"
    using Partition.prems(1) by (auto simp: dev_geom)
  have n: "dev_sectors parent < 2 ^ 64" using u64_bound [of "sector_count parent"] by (simp add: dev_geom)
  note sh = part_shift [OF p(4) _ n, of lba cnt, unfolded p(3), OF Partition.prems(2)]
  have at: "drv_at (Partition parent lb lc) ss ` {unat lba * unat ss..<(unat lba + unat cnt) * unat ss} =
      dev_at parent ` {unat (lb + lba) * dev_ss parent..<(unat (lb + lba) + unat cnt) * dev_ss parent}"
    unfolding part_image sh(2) p(2) ..
  have "dev_read parent m (lb + lba) buf cnt = (\<lambda>x. if x \<in> bytes_at buf (unat cnt * dev_ss parent)
        then m (dev_at parent (unat (lb + lba) * dev_ss parent + unat (x - buf))) else m x, int (unat cnt))"
    using Partition.IH [OF p(1) sh(3)] Partition.prems(3) unfolding at p(2) by blast
  moreover have "drv_read (Partition parent lb lc) ss m lba buf cnt = dev_read parent m (lb + lba) buf cnt"
    using dev_ok_ops [OF p(1)] sh(1) p(3) by (simp add: part_read_def)
  ultimately show ?case unfolding sh(2) p(2) drv_at.simps by (simp only: add_mult_distrib add.assoc)
qed simp

lemma dev_write_ok:
  assumes c: "cnt \<noteq> 0" "unat cnt < 2 ^ 31" "buf \<noteq> 0"
  shows "dev_ok d \<Longrightarrow> dev_writable d \<Longrightarrow> unat lba + unat cnt \<le> dev_sectors d \<Longrightarrow>
      bytes_at buf (unat cnt * dev_ss d) \<inter>
        dev_at d ` {unat lba * dev_ss d..<(unat lba + unat cnt) * dev_ss d} = {} \<Longrightarrow>
      \<exists>m'. dev_write d m lba buf cnt = (m', int (unat cnt)) \<and>
        (\<forall>k < unat cnt * dev_ss d. m' (dev_at d (unat lba * dev_ss d + k)) = m (buf + of_nat k)) \<and>
        (\<forall>x. x \<notin> dev_at d ` {unat lba * dev_ss d..<(unat lba + unat cnt) * dev_ss d} \<longrightarrow> m' x = m x)"
    and "drv_ok drv ss sc \<Longrightarrow> drv_writable drv \<Longrightarrow> unat lba + unat cnt \<le> unat sc \<Longrightarrow>
      bytes_at buf (unat cnt * unat ss) \<inter>
        drv_at drv ss ` {unat lba * unat ss..<(unat lba + unat cnt) * unat ss} = {} \<Longrightarrow>
      \<exists>m'. drv_write drv ss m lba buf cnt = (m', int (unat cnt)) \<and>
        (\<forall>k < unat cnt * unat ss. m' (drv_at drv ss (unat lba * unat ss + k)) = m (buf + of_nat k)) \<and>
        (\<forall>x. x \<notin> drv_at drv ss ` {unat lba * unat ss..<(unat lba + unat cnt) * unat ss} \<longrightarrow> m' x = m x)"
proof (induction d and drv arbitrary: lba and ss sc lba rule: block_device.induct driver.induct)
  case (Block_Device nm ss sc drv)
  then show ?case unfolding dev_geom dev_write.simps dev_at.simps dev_ok.simps dev_writable.simps block_device.sel by blast
next
  case (Ramdisk data bytes)
  then have s: "unat sc * unat ss = unat bytes" "unat data + unat bytes \<le> 2 ^ 64" by simp_all
  note w = linear_write [OF Ramdisk.prems(3) s, where buf = buf and m = m, OF _ refl]
  have "drv_write (Ramdisk data bytes) ss m lba buf cnt =
      (copy_bytes m (data + lba * ucast ss) buf (unat (ucast cnt * ucast ss :: u64)), int (unat cnt))"
    using xfer_arith(3) [OF Ramdisk.prems(3) s(1)] c by (simp add: rd_write_def Let_def c_int_small)
  then show ?case using w Ramdisk.prems(4) unfolding drv_at.simps by blast
next
  case (Memdisk base bytes wf)
  then have s: "unat sc * unat ss = unat bytes" "unat base + unat bytes \<le> 2 ^ 64" by simp_all
  note w = linear_write [OF Memdisk.prems(3) s, where buf = buf and m = m, OF _ refl]
  have "drv_write (Memdisk base bytes wf) ss m lba buf cnt =
      (copy_bytes m (base + lba * ucast ss) buf (unat (ucast cnt * ucast ss :: u64)), int (unat cnt))"
    using xfer_arith(3) [OF Memdisk.prems(3) s(1)] c Memdisk.prems(2) by (simp add: mem_write_def Let_def c_int_small)
  then show ?case using w Memdisk.prems(4) unfolding drv_at.simps by blast
next
  case (Partition parent lb lc)
  have p: "dev_ok parent" "dev_ss parent = unat ss" "lc = sc" "unat lb + unat lc \<le> dev_sectors parent"
    "dev_writable parent" using Partition.prems(1,2) by (auto simp: dev_geom)
  have n: "dev_sectors parent < 2 ^ 64" using u64_bound [of "sector_count parent"] by (simp add: dev_geom)
  note sh = part_shift [OF p(4) _ n, of lba cnt, unfolded p(3), OF Partition.prems(3)]
  have at: "drv_at (Partition parent lb lc) ss ` {unat lba * unat ss..<(unat lba + unat cnt) * unat ss} =
      dev_at parent ` {unat (lb + lba) * dev_ss parent..<(unat (lb + lba) + unat cnt) * dev_ss parent}"
    unfolding part_image sh(2) p(2) ..
  obtain m' where w: "dev_write parent m (lb + lba) buf cnt = (m', int (unat cnt))"
    "\<forall>k < unat cnt * unat ss. m' (dev_at parent (unat (lb + lba) * unat ss + k)) = m (buf + of_nat k)"
    "\<forall>x. x \<notin> drv_at (Partition parent lb lc) ss ` {unat lba * unat ss..<(unat lba + unat cnt) * unat ss} \<longrightarrow> m' x = m x"
    using Partition.IH [OF p(1,5) sh(3)] Partition.prems(4) unfolding at p(2) by blast
  have "drv_write (Partition parent lb lc) ss m lba buf cnt = (m', int (unat cnt))"
    using dev_ok_ops [OF p(1)] sh(1) p(3) w(1) by (simp add: part_write_def)
  moreover have "\<forall>k < unat cnt * unat ss. m' (drv_at (Partition parent lb lc) ss (unat lba * unat ss + k)) = m (buf + of_nat k)"
    using w(2) unfolding sh(2) drv_at.simps by (simp add: add_mult_distrib add.assoc)
  ultimately show ?case using w(3) by blast
qed simp

lemma dev_range_checked:
  shows "dev_ok d \<Longrightarrow> cnt \<noteq> 0 \<Longrightarrow> dev_sectors d < unat lba + unat cnt \<Longrightarrow> (unat lba + unat cnt) * dev_ss d < 2 ^ 64 \<Longrightarrow>
      dev_read d m lba buf cnt = (m, -1) \<and> dev_write d m lba buf cnt = (m, -1)"
    and "drv_ok drv ss sc \<Longrightarrow> ss \<noteq> 0 \<Longrightarrow> cnt \<noteq> 0 \<Longrightarrow> unat sc < unat lba + unat cnt \<Longrightarrow> (unat lba + unat cnt) * unat ss < 2 ^ 64 \<Longrightarrow>
      drv_read drv ss m lba buf cnt = (m, -1) \<and> drv_write drv ss m lba buf cnt = (m, -1)"
proof (induction d and drv arbitrary: lba and ss sc lba rule: block_device.induct driver.induct)
  case (Block_Device nm ss sc drv)
  then show ?case unfolding dev_geom dev_write.simps dev_read.simps dev_ok.simps block_device.sel by blast
next
  case (Ramdisk data bytes)
  then have "bytes < lba * ucast ss + ucast cnt * ucast ss" by (intro xfer_range [of "unat sc"]) simp_all
  then show ?case using Ramdisk.prems(3) by (simp add: rd_read_def rd_write_def Let_def)
next
  case (Memdisk base bytes w)
  then have "bytes < lba * ucast ss + ucast cnt * ucast ss" by (intro xfer_range [of "unat sc"]) simp_all
  then show ?case by (simp add: mem_read_def mem_write_def Let_def)
next
  case (Partition parent lb lc)
  have "0 < unat ss" using Partition.prems(2) by (simp add: unat_gt_0)
  then have "unat lba + unat cnt \<le> (unat lba + unat cnt) * unat ss" by (cases "unat ss") simp_all
  then have "unat lba + unat cnt < 2 ^ 64" using Partition.prems(5) by (rule le_less_trans)
  then have "unat (lba + ucast cnt) = unat lba + unat cnt" by (subst unat_add_small) simp_all
  then have "lc < lba + ucast cnt" using Partition.prems(1,4) by (simp add: word_less_nat_alt)
  then show ?case by (simp add: part_read_def part_write_def)
qed simp

lemma dev_size_bound: "dev_ok d \<Longrightarrow> dev_sectors d * dev_ss d \<le> 2 ^ 64"
  "drv_ok drv ss sc \<Longrightarrow> unat sc * unat ss \<le> 2 ^ 64"
proof (induction d and drv arbitrary: and ss sc rule: block_device.induct driver.induct)
  case (Partition parent lb lc)
  then have "unat sc * unat ss \<le> dev_sectors parent * dev_ss parent" by (auto simp: dev_geom)
  moreover have "dev_sectors parent * dev_ss parent \<le> 2 ^ 64" using Partition by simp
  ultimately show ?case by (rule order_trans)
qed (auto simp: dev_geom intro: less_imp_le [OF u64_bound])

interpretation blk: sector_device dev_ok dev_writable dev_ss dev_sectors dev_at dev_read dev_write
  by unfold_locales
    (rule dev_at_inj(1) dev_size_bound(1) dev_read_ok(1) dev_write_ok(1) dev_range_checked(1); assumption)+

section \<open>Properties\<close>

text \<open>A RAM disk of 16 sectors at 2 MiB and a partition of its sectors 1 to 8.\<close>

definition demo_disk :: block_device where
  "demo_disk = Block_Device ''ram0'' 512 16 (Ramdisk 0x200000 0x2000)"

definition demo_part :: block_device where
  "demo_part = Block_Device ''ram0p1'' 512 8 (Partition demo_disk 1 8)"

lemma demo_part_facts:
  "dev_ok demo_disk" "dev_ok demo_part" "dev_writable demo_part" "dev_sectors demo_part = 8" "dev_ss demo_part = 512"
  "dev_at demo_part = (\<lambda>k. 0x200000 + of_nat (512 + k))"
  by (simp_all add: demo_disk_def demo_part_def dev_geom)

definition demo_mem :: memory where "demo_mem = (\<lambda>x. ucast x)"

lemma demo_buffer:
  assumes "unat a < 0x100000" "n \<le> 0x10000" "j \<le> 4096"
  shows "bytes_at a n \<inter> dev_at demo_part ` {i..<j} = {}"
proof -
  have False if x: "x \<in> bytes_at a n" "x = 0x200000 + of_nat (512 + k)" "k < 4096" for x k
  proof -
    obtain i where i: "i < n" "x = a + of_nat i" using bytes_at_E [OF x(1)] by blast
    have "unat x = unat a + i"
      using i assms by (subst i(2), subst unat_add_small) (simp_all add: u64_of_nat_unat)
    moreover have "unat x = 0x200000 + (512 + k)"
      using x(3) by (subst x(2), subst unat_add_small) (simp_all only: u64_of_nat_unat, simp_all)
    ultimately show False using i(1) assms x(3) by simp
  qed
  then show ?thesis unfolding demo_part_facts using assms(3) by fastforce
qed

text \<open>
  C15. Reading sectors back gives what was written there, on every well-formed device: RAM disk,
  writable memory disk or partition of any depth; both transfers return the sector count.
\<close>

theorem block_write_read_roundtrip:
  assumes "dev_ok d" "dev_writable d" "cnt \<noteq> 0" "unat cnt < 2 ^ 31" "unat lba + unat cnt \<le> dev_sectors d"
    and "buf \<noteq> 0" "bytes_at buf (unat cnt * dev_ss d) \<inter>
      dev_at d ` {unat lba * dev_ss d..<(unat lba + unat cnt) * dev_ss d} = {}"
    and "buf' \<noteq> 0" "bytes_at buf' (unat cnt * dev_ss d) \<inter>
      dev_at d ` {unat lba * dev_ss d..<(unat lba + unat cnt) * dev_ss d} = {}"
    and "dev_write d m lba buf cnt = (m1, r)" "dev_read d m1 lba buf' cnt = (m2, r')" "k < unat cnt * dev_ss d"
  shows "r = int (unat cnt) \<and> r' = int (unat cnt) \<and> m2 (buf' + of_nat k) = m (buf + of_nat k)"
  by (rule blk.write_read [OF assms])

theorem block_write_read_roundtrip_witness:
  "snd (dev_write demo_part demo_mem 3 0x1000 2) = 2 \<and>
   fst (dev_read demo_part (fst (dev_write demo_part demo_mem 3 0x1000 2)) 3 0x8000 2) (0x8000 + of_nat 700) = 0xBC"
proof -
  have b: "bytes_at 0x1000 (unat (2 :: u32) * dev_ss demo_part) \<inter> dev_at demo_part `
      {unat (3 :: u64) * dev_ss demo_part..<(unat (3 :: u64) + unat (2 :: u32)) * dev_ss demo_part} = {}"
    "bytes_at 0x8000 (unat (2 :: u32) * dev_ss demo_part) \<inter> dev_at demo_part `
      {unat (3 :: u64) * dev_ss demo_part..<(unat (3 :: u64) + unat (2 :: u32)) * dev_ss demo_part} = {}"
    by (rule demo_buffer; simp add: demo_part_facts)+
  show ?thesis
    using block_write_read_roundtrip [OF demo_part_facts(2,3) _ _ _ _ b(1) _ b(2) surjective_pairing surjective_pairing, of 700 demo_mem]
    by (simp add: demo_part_facts demo_mem_def)
qed

text \<open>
  C16. A partition is confined: whatever is written to a partition within the sector range that
  does not wrap, the sectors of the parent outside the partition keep their contents.
\<close>

theorem block_partition_confined:
  assumes ok: "dev_ok (Block_Device nm ss sc (Partition parent lb sc))" and w: "dev_writable parent"
    and c: "cnt \<noteq> 0" "unat cnt < 2 ^ 31" "buf \<noteq> 0" "(unat lba + unat cnt) * unat ss < 2 ^ 64"
    and b: "bytes_at buf (unat cnt * unat ss) \<inter> dev_bytes parent = {}"
    and i: "i < dev_sectors parent" "i < unat lb \<or> unat lb + unat sc \<le> i" "k < unat ss"
    and m': "dev_write (Block_Device nm ss sc (Partition parent lb sc)) m lba buf cnt = (m', r)"
  shows "m' (dev_at parent (i * unat ss + k)) = m (dev_at parent (i * unat ss + k))"
proof (cases "unat lba + unat cnt \<le> unat sc")
  case False
  then show ?thesis
    using blk.range_checked [OF ok c(1), of lba] c(4) m' by (simp add: dev_geom)
next
  case True
  have p: "dev_ok parent" "dev_ss parent = unat ss" "unat lb + unat sc \<le> dev_sectors parent" using ok by (auto simp: dev_geom)
  have n: "dev_sectors parent < 2 ^ 64" using u64_bound [of "sector_count parent"] by (simp add: dev_geom)
  note sh = part_shift [OF p(3) True n]
  have pw: "dev_write parent m (lb + lba) buf cnt = (m', r)"
    using m' dev_ok_ops [OF p(1)] sh(1) by (simp add: part_write_def)
  have "(unat (lb + lba) + unat cnt) * unat ss \<le> dev_sectors parent * unat ss" using sh(3) by (rule mult_le_mono1)
  then have "{unat (lb + lba) * unat ss..<(unat (lb + lba) + unat cnt) * unat ss} \<subseteq> {..<dev_sectors parent * unat ss}"
    by (meson atLeastLessThan_iff lessThan_iff less_le_trans subsetI)
  then have dj: "bytes_at buf (unat cnt * dev_ss parent) \<inter>
      dev_at parent ` {unat (lb + lba) * dev_ss parent..<(unat (lb + lba) + unat cnt) * dev_ss parent} = {}"
    using b unfolding p(2) dev_bytes_def by blast
  have "i < unat (lb + lba) \<or> unat (lb + lba) + unat cnt \<le> i" using i(2) sh(2) True by linarith
  from blk.write_other [OF p(1) w c(1,2) sh(3) c(3) dj pw i(1) this] show ?thesis using i(3) p(2) by simp
qed

theorem block_partition_confined_witness:
  "fst (dev_write demo_part demo_mem 0 0x1000 8) (0x200000 + of_nat 511) = 0xFF"
proof -
  have ok: "dev_ok (Block_Device ''ram0p1'' 512 8 (Partition demo_disk 1 8))"
    using demo_part_facts(2) by (simp add: demo_part_def)
  have at: "dev_at demo_disk = (\<lambda>k. 0x200000 + of_nat k)" "dev_writable demo_disk" "dev_sectors demo_disk = 16"
    by (simp_all add: demo_disk_def dev_geom)
  have "False" if x: "x \<in> bytes_at 0x1000 4096" "x = 0x200000 + of_nat k" "k < 8192" for x k
  proof -
    obtain i where i: "i < 4096" "x = 0x1000 + of_nat i" using bytes_at_E [OF x(1)] by blast
    have "unat x = 4096 + i" using i by (subst i(2), subst unat_add_small) (simp_all add: u64_of_nat_unat)
    moreover have "unat x = 0x200000 + k" using x(3) by (subst x(2), subst unat_add_small) (simp_all add: u64_of_nat_unat)
    ultimately show False using i(1) by simp
  qed
  then have b: "bytes_at 0x1000 (unat (8 :: u32) * unat (512 :: u32)) \<inter> dev_bytes demo_disk = {}"
    unfolding dev_bytes_def at by (auto simp: demo_disk_def dev_geom)
  show ?thesis
    using block_partition_confined [OF ok at(2) _ _ _ _ b, of 0 0 511 demo_mem "fst (dev_write demo_part demo_mem 0 0x1000 8)"
      "snd (dev_write demo_part demo_mem 0 0x1000 8)"] at by (simp add: demo_part_def demo_mem_def)
qed

text \<open>
  C17. A transfer that does not fit the device, and whose end does not wrap, is refused with -1
  and changes nothing.
\<close>

theorem block_range_refused:
  assumes "dev_ok d" "cnt \<noteq> 0" "dev_sectors d < unat lba + unat cnt" "(unat lba + unat cnt) * dev_ss d < 2 ^ 64"
  shows "dev_read d m lba buf cnt = (m, -1) \<and> dev_write d m lba buf cnt = (m, -1)"
  by (rule blk.range_checked [OF assms])

theorem block_range_refused_witness: "dev_write demo_part demo_mem 7 0x1000 2 = (demo_mem, -1)"
  using block_range_refused [OF demo_part_facts(2), of 2 7 demo_mem "0x1000"] by (simp add: demo_part_facts)

text \<open>
  The range checks wrap: with the sector number \<open>2^64 - 1\<close> a one-sector write to a partition
  goes to the sector before the partition, and a one-sector write to sector \<open>2^55\<close> of a RAM disk
  goes to its sector 0.
\<close>

theorem block_range_check_wraps:
  "part_write lb lc parent_write m (- 1) buf 1 = parent_write m (lb - 1) buf 1 \<and>
   rd_write 512 data bytes m (2 ^ 55) buf 1 = rd_write 512 data bytes m 0 buf 1"
proof -
  have "(2 ^ 55 :: u64) * 512 = 2 ^ LENGTH(64)" by simp
  then have z: "(2 ^ 55 :: u64) * 512 = 0" unfolding word_exp_length_eq_0 .
  have u: "ucast (512 :: u32) = (512 :: u64)" by simp
  have "rd_write 512 data bytes m (2 ^ 55) buf 1 = rd_write 512 data bytes m 0 buf 1"
    by (simp only: rd_write_def u z mult_zero_left)
  then show ?thesis by (simp add: part_write_def)
qed

text \<open>
  Lookup by name finds the most recently registered device of that name, and nothing else.
\<close>

lemma name_eq_iff: "name_eq a b \<longleftrightarrow> a = b"
  by (induction a b rule: name_eq.induct) auto

theorem block_find_latest:
  "block_find (block_register d s) name = (if name = dev_name d then Some d else block_find s name) \<and>
   (block_find s name = None \<longleftrightarrow> name \<notin> dev_name ` set (g_devs s))"
  by (auto simp: block_find_def block_register_def name_eq_iff find_None_iff)

end
