(* ===== verification/Block_Scan.thy ===== *)
theory Block_Scan
  imports Block_Correct
begin

text \<open>
  RAM disks from creation to partition scan: what \<open>ramdisk_create\<close> sets up with the frame
  allocator and the heap, and that \<open>block_scan_partitions\<close> finds the partition a seeded disk has.
\<close>

section \<open>Creating a RAM disk\<close>

lemma unat_numeral_512: "unat (512 :: u64) = 512"
  by simp

lemma round512:
  assumes "unat bytes + 8192 < 2 ^ 64"
  shows "unat ((bytes + ucast block_default_sector - 1) div ucast block_default_sector * ucast block_default_sector :: u64) =
      (unat bytes + 511) div 512 * 512"
    "unat (((bytes + ucast block_default_sector - 1) div ucast block_default_sector * ucast block_default_sector + 4095) div 4096 :: u64) =
      ((unat bytes + 511) div 512 * 512 + 4095) div 4096"
proof -
  have u: "ucast block_default_sector = (512 :: u64)" by (simp add: block_default_sector_def)
  have "bytes + 512 - 1 = bytes + (511 :: u64)" by simp
  moreover have "unat (bytes + 511) = unat bytes + 511" using assms by (subst unat_add_small) simp_all
  ultimately have d: "unat ((bytes + 512 - 1) div 512) = (unat bytes + 511) div 512"
    by (metis unat_div_distrib unat_numeral_512)
  have le: "(unat bytes + 511) div 512 * 512 \<le> unat bytes + 511" by simp
  show e: "unat ((bytes + ucast block_default_sector - 1) div ucast block_default_sector * ucast block_default_sector :: u64) =
      (unat bytes + 511) div 512 * 512"
    unfolding u using d assms le by (subst unat_mult_small) simp_all
  have "unat ((bytes + ucast block_default_sector - 1) div ucast block_default_sector * ucast block_default_sector + 4095 :: u64) =
      (unat bytes + 511) div 512 * 512 + 4095"
    using e assms le by (subst unat_add_small) simp_all
  then show "unat (((bytes + ucast block_default_sector - 1) div ucast block_default_sector * ucast block_default_sector + 4095) div 4096 :: u64) =
      ((unat bytes + 511) div 512 * 512 + 4095) div 4096" by (simp add: unat_div)
qed

lemma seed_mbr_outside:
  assumes d: "unat (x - mbr) < 446 \<or> 512 \<le> unat (x - mbr)"
  shows "seed_mbr m mbr rounded sec x = m x"
proof -
  have ne: "x \<noteq> mbr + k" if "446 \<le> unat k" "unat k < 512" for k using d that by auto
  have st: "\<not> unat (x - (mbr + k)) < 4" if "446 \<le> unat k" "unat k + 4 \<le> 512" for k
  proof
    assume a: "unat (x - (mbr + k)) < 4"
    have "x - mbr = x - (mbr + k) + k" by simp
    then have "unat (x - mbr) = unat (x - (mbr + k) + k)" by (rule arg_cong)
    also have "\<dots> = unat (x - (mbr + k)) + unat k" using a that by (subst unat_add_small) simp_all
    finally show False using a that d by linarith
  qed
  show ?thesis
    using st [of 454] st [of 458] ne [of 446] ne [of 447] ne [of 448] ne [of 449] ne [of 450] ne [of 451]
      ne [of 452] ne [of 453] ne [of 510] ne [of 511]
    by (simp add: seed_mbr_def Let_def store32_def store_le_apply add.assoc)
qed

lemma seed_mbr_frame: "x \<notin> bytes_at mbr 512 \<Longrightarrow> seed_mbr m mbr rounded sec x = m x"
  by (rule seed_mbr_outside) (simp add: bytes_at_def)

lemma alloc_below_ok:
  assumes "pmm_ok s" "count \<noteq> 0"
  obtains s' p where "pmm_alloc_frames_below s count mx = Some (s', p)" "pmm_ok s'"
proof -
  have inv: "pmm_inv s" using assms(1) by (simp add: pmm_ok_def)
  obtain s' p where r: "pmm_alloc_frames_below s count mx = Some (s', p)"
    "alloc_spec s (unat count) (limit_index s mx) s' p"
    using pmm_alloc_frames_below_ok [OF inv assms(2), of mx] by blast
  have "limit_index s mx \<le> nframes s" by (simp add: limit_index_def)
  then have "pmm_ok s'" using alloc_pages(1) [OF assms(1) _ _ r(2)] assms(2) by (simp add: unat_gt_0)
  then show ?thesis using that r(1) by blast
qed

text \<open>A run of \<open>n\<close> free frames that ends at or below the address \<open>lim\<close>: what the allocator needs, and all
  it needs.\<close>

definition frames_below :: "pmm_state \<Rightarrow> nat \<Rightarrow> nat \<Rightarrow> bool" where
  "frames_below s n lim \<longleftrightarrow> (\<exists>pg. (\<forall>k < n. page_free s (pg + k)) \<and> 4096 * (pg + n) \<le> lim)"

lemma alloc_below_run:
  assumes ok: "pmm_ok s" and c: "count \<noteq> 0" and run: "\<forall>k < unat count. page_free s (pg + k)" "4096 * (pg + unat count) \<le> unat mx"
  shows "\<exists>s' p. pmm_alloc_frames_below s count mx = Some (s', p) \<and> p \<noteq> 0"
proof -
  have inv: "pmm_inv s" "\<not> page_free s 0" using ok by (simp_all add: pmm_ok_def)
  obtain s' p where a: "pmm_alloc_frames_below s count mx = Some (s', p)" "alloc_spec s (unat count) (limit_index s mx) s' p"
    using pmm_alloc_frames_below_ok [OF inv(1) c] by blast
  have c0: "0 < unat count" using c by (simp add: unat_gt_0)
  define b where "b = unat (g_bitmap_base s) div 4096"
  have ub: "unat (g_bitmap_base s) = 4096 * b" using pmm_invD(2) [OF inv(1)] by (auto simp: b_def)
  have fr: "\<exists>j < nframes s. j \<notin> used_frames s \<and> pg + k = b + j" if "k < unat count" for k
    using run(1) that by (auto simp: page_free_def page_of_frame_def b_def)
  then have "b \<le> pg" using c0 by force
  then obtain r where r: "pg = b + r" using le_Suc_ex by blast
  have u: "r + k < nframes s \<and> r + k \<notin> used_frames s" if "k < unat count" for k using fr [OF that] r by auto
  have "unat count - 1 < unat count" using c0 by simp
  from u [OF this] have "r + (unat count - 1) < nframes s" ..
  then have "r + unat count \<le> nframes s" using c0 by linarith
  moreover have "r + unat count \<le> (unat mx - unat (g_bitmap_base s)) div 4096"
    using run(2) r by (simp add: ub less_eq_div_iff_mult_less_eq)
  moreover have "{r..<r + unat count} \<inter> used_frames s = {}"
    using u by (auto simp: le_iff_add)
  ultimately have "free_run (used_frames s) (limit_index s mx) (unat count) r" by (simp add: free_run_def limit_index_def)
  then obtain q where q: "first_fit (used_frames s) (limit_index s mx) (unat count) = Some q"
    using first_fit_None [OF c0] by (metis not_None_eq)
  then have up: "unat p = 4096 * (b + q)" using a(2) ub by (simp add: alloc_spec_def)
  have "p \<noteq> 0"
  proof
    assume "p = 0"
    then have z: "b = 0" "q = 0" using up by auto
    have "free_run (used_frames s) (limit_index s mx) (unat count) q" using q first_fit_Some [OF c0] by blast
    then have "0 < nframes s" "0 \<notin> used_frames s" using c0 z by (auto simp: free_run_def limit_index_def)
    then have "page_free s 0" using z unfolding page_free_def page_of_frame_def b_def by auto
    then show False using inv(2) by simp
  qed
  then show ?thesis using a(1) by blast
qed

lemma alloc_below_iff:
  assumes ok: "pmm_ok s" and c: "count \<noteq> 0" and a: "pmm_alloc_frames_below s count mx = Some (s', p)"
  shows "p \<noteq> 0 \<longleftrightarrow> frames_below s (unat count) (unat mx)"
proof
  assume "p \<noteq> 0"
  note al = alloc_below_block [OF ok c a this]
  have "4096 * (unat p div 4096 + unat count) \<le> unat mx" using al mult_div_mod_eq [of 4096 "unat p"] by (simp add: distrib_left)
  then show "frames_below s (unat count) (unat mx)" using al unfolding frames_below_def by (intro exI [of _ "unat p div 4096"]) simp
next
  assume "frames_below s (unat count) (unat mx)"
  then obtain pg where "\<forall>k < unat count. page_free s (pg + k)" "4096 * (pg + unat count) \<le> unat mx" unfolding frames_below_def by blast
  from alloc_below_run [OF ok c this] a show "p \<noteq> 0" by auto
qed

text \<open>The bytes of the partition table that \<open>RAMDISK_INIT_MBR\<close> puts on a disk of \<open>n\<close> sectors: one entry
  of type 7 for the sectors from 1 on, and the signature.\<close>

definition mbr_byte :: "nat \<Rightarrow> nat \<Rightarrow> u8" where
  "mbr_byte n k =
     (if n \<le> 1 then 0
      else if k = 450 then 7
      else if k = 454 then 1
      else if 458 \<le> k \<and> k < 462 then of_nat ((n - 1) div 256 ^ (k - 458))
      else if k = 510 then 0x55
      else if k = 511 then 0xAA
      else 0)"

lemma count_byte:
  assumes "n < 2 ^ 32" "j < 4"
  shows "ucast (drop_bit (8 * j) (of_nat n :: u32)) = (of_nat (n div 256 ^ j) :: u8)"
proof -
  have "unat (of_nat n :: u32) = n" using assms(1) by (simp add: unat_of_nat)
  then have "unat (drop_bit (8 * j) (of_nat n :: u32)) = n div 2 ^ (8 * j)" using assms(1) by (subst unsigned_drop_bit_eq) (simp add: drop_bit_eq_div take_bit_nat_eq_self)
  also have "(2 :: nat) ^ (8 * j) = 256 ^ j" by (simp add: power_mult)
  finally show ?thesis by (intro word_unat_eq_iff [THEN iffD2]) (simp add: unsigned_ucast_eq unat_of_nat take_bit_eq_mod)
qed

lemma seed_mbr_at:
  assumes z: "\<forall>k < 512. m (p + of_nat k) = 0" and n: "unat rounded = 512 * n" "n < 2 ^ 32" and k: "k < 512"
  shows "seed_mbr m p rounded 512 (p + of_nat k) = mbr_byte n k"
proof (cases "n \<le> 1")
  case True
  then have "\<not> rounded \<ge> 1024" using n by (simp add: word_le_nat_alt)
  then show ?thesis using True z k by (simp add: seed_mbr_def mbr_byte_def)
next
  case False
  have sc: "unat (rounded div 512) = n" using n(1) by (simp add: unat_div)
  have "rounded div 512 = of_nat (unat (rounded div 512))" by simp
  then have q: "rounded div 512 = of_nat n" unfolding sc .
  have big: "rounded \<ge> 1024" "rounded div 512 > 1" using False n(1) sc by (simp_all add: word_le_nat_alt word_less_nat_alt)
  have cnt: "ucast (rounded div 512 - 1) = (of_nat (n - 1) :: u32)"
  proof -
    have "rounded div 512 - 1 = of_nat (n - 1)" using False q by (simp add: of_nat_diff)
    then show ?thesis using n(2) by (simp add: word_unat_eq_iff unsigned_ucast_eq unat_of_nat take_bit_eq_mod)
  qed
  have u: "k < 2 ^ 32" using k by simp
  have e: "(p + of_nat k = p + of_nat j) = (k = j)" if "j < 512" for j using off_eq [OF u, of j p] that by simp
  have one: "ucast (drop_bit (8 * (k - 454)) (1 :: u32)) = (if k = 454 then 1 else 0 :: u8)" if "454 \<le> k" "k < 458"
  proof -
    have "k = 454 \<or> k = 455 \<or> k = 456 \<or> k = 457" using that by linarith
    then show ?thesis by auto
  qed
  let ?m = "m(p + of_nat 446 := 0, p + of_nat 449 := 0, p + of_nat 448 := 0, p + of_nat 447 := 0, p + of_nat 450 := 7,
    p + of_nat 453 := 0, p + of_nat 452 := 0, p + of_nat 451 := 0, p + of_nat 510 := 0x55, p + of_nat 511 := 0xAA)"
  have lt: "(446 :: nat) < 512" "(447 :: nat) < 512" "(448 :: nat) < 512" "(449 :: nat) < 512" "(450 :: nat) < 512" "(451 :: nat) < 512"
    "(452 :: nat) < 512" "(453 :: nat) < 512" "(510 :: nat) < 512" "(511 :: nat) < 512" by simp_all
  have pos: "(454 :: nat) < 2 ^ 32" "(458 :: nat) < 2 ^ 32" "(4 :: nat) \<le> 8" by simp_all
  have eq: "seed_mbr m p rounded 512 = store_le 4 (store_le 4 ?m (p + of_nat 454) (1 :: u32)) (p + of_nat 458) (of_nat (n - 1) :: u32)"
    using big cnt by (simp add: seed_mbr_def store32_def add.assoc)
  have "seed_mbr m p rounded 512 (p + of_nat k) =
    (if 458 \<le> k \<and> k < 462 then ucast (drop_bit (8 * (k - 458)) (of_nat (n - 1) :: u32))
     else if 454 \<le> k \<and> k < 458 then ucast (drop_bit (8 * (k - 454)) (1 :: u32))
     else if k = 511 then 0xAA else if k = 510 then 0x55 else if k = 450 then 7 else 0)"
    unfolding eq store_at [OF u pos(2,3)] store_at [OF u pos(1,3)] fun_upd_apply e [OF lt(1)] e [OF lt(2)] e [OF lt(3)] e [OF lt(4)]
      e [OF lt(5)] e [OF lt(6)] e [OF lt(7)] e [OF lt(8)] e [OF lt(9)] e [OF lt(10)] z [rule_format, OF k] by simp
  also have "\<dots> = mbr_byte n k"
    using False one count_byte [of "n - 1" "k - 458"] n(2) by (auto simp: mbr_byte_def)
  finally show ?thesis .
qed

lemma ramdisk_device:
  fixes nm :: string
  assumes R: "unat rounded mod 512 = 0" and p: "unat p + unat rounded \<le> 2 ^ 30"
  defines "d \<equiv> Block_Device nm 512 (rounded div 512) (Ramdisk p rounded)"
  shows "dev_ok d" "dev_sectors d * 512 = unat rounded" "dev_bytes d = bytes_at p (unat rounded)"
proof -
  have q: "unat (rounded div 512) * 512 = unat rounded" using R by (simp add: unat_div div_mult_mod_eq minus_mod_eq_div_mult [symmetric])
  then show s: "dev_sectors d * 512 = unat rounded" by (simp add: d_def dev_geom)
  show "dev_ok d" using q p by (simp add: d_def)
  have "unat p + unat rounded \<le> 2 ^ 64" using p by simp
  from linear_run(1) [of 0 "unat rounded" rounded p, OF _ this] show "dev_bytes d = bytes_at p (unat rounded)"
    using q by (simp add: d_def dev_bytes_def dev_geom atLeast0LessThan)
qed

lemma bytes_at_pages:
  assumes "unat p + 4096 * c \<le> 2 ^ 30" "unat p mod 4096 = 0" "R \<le> 4096 * c" "x \<in> bytes_at p R"
  shows "unat p div 4096 \<le> unat x div 4096 \<and> unat x div 4096 < unat p div 4096 + c \<and> unat x < 2 ^ 30"
proof -
  obtain i where i: "i < R" "x = p + of_nat i" using bytes_at_E [OF assms(4)] by blast
  have u: "unat (of_nat i :: u64) = i" using i(1) assms(1,3) by (intro u64_of_nat_unat) simp
  have x: "unat x = unat p + i" using i assms(1,3) u by (simp add: unat_add_small)
  obtain q where q: "unat p = 4096 * q" using assms(2) by (metis mult_div_mod_eq add.right_neutral)
  have "unat x div 4096 = q + i div 4096" unfolding x q by simp
  moreover have "i div 4096 < c" using i(1) assms(3) by (simp add: less_mult_imp_div_less mult.commute)
  ultimately show ?thesis using q x i(1) assms(1,3) by simp
qed

text \<open>A heap with a free block of \<open>R\<close> bytes: an allocation leaves it with at most its own size and 48
  bytes less.\<close>

definition heap_room :: "heap_state \<Rightarrow> nat \<Rightarrow> bool" where
  "heap_room h R \<longleftrightarrow> (\<exists>bs b. heap_inv h bs \<and> b \<in> set bs \<and> b_free b \<and> R \<le> b_size b)"

lemma alloc_blocks_room:
  "b \<in> set bs \<Longrightarrow> b_free b \<Longrightarrow> R + n + 48 \<le> b_size b \<Longrightarrow>
    \<exists>q bs'. alloc_blocks n bs = Some (q, bs') \<and> (\<exists>b \<in> set bs'. b_free b \<and> R \<le> b_size b)"
proof (induction bs)
  case (Cons c bs)
  show ?case
  proof (cases "b_free c \<and> n \<le> b_size c")
    case True
    then show ?thesis using Cons.prems by (cases "b = c") (auto simp: split_blk_def)
  next
    case False
    then have "b \<in> set bs" using Cons.prems by auto
    with Cons False show ?thesis by auto
  qed
qed simp

lemma kmalloc_room:
  assumes "heap_room h R'" "R + round16 (unat n) + 48 \<le> R'" "n \<noteq> 0" "unat n + 15 < 2 ^ 64"
  obtains h' p where "kmalloc h n = Some (h', p)" "p \<noteq> 0" "heap_room h' R"
proof -
  obtain bs b where bs: "heap_inv h bs" "b \<in> set bs" "b_free b" "R + round16 (unat n) + 48 \<le> b_size b"
    using assms(1,2) by (auto simp: heap_room_def)
  obtain q bs' where a: "alloc_blocks (round16 (unat n)) bs = Some (q, bs')" "\<exists>b \<in> set bs'. b_free b \<and> R \<le> b_size b"
    using alloc_blocks_room [OF bs(2-4)] by blast
  then show ?thesis using kmalloc_refines [OF bs(1) assms(3,4)] that by (auto simp: heap_room_def)
qed

text \<open>What a successful creation leaves.\<close>

definition ramdisk_made :: "bool \<Rightarrow> block_state \<Rightarrow> string \<Rightarrow> u64 \<Rightarrow> block_state \<Rightarrow> block_device \<Rightarrow> bool" where
  "ramdisk_made init_mbr s name bytes s' d \<longleftrightarrow>
     g_devs s' = d # g_devs s \<and> dev_ok d \<and> dev_writable d \<and> dev_name d = take 15 name \<and> dev_ss d = 512 \<and>
     unat bytes \<le> dev_sectors d * 512 \<and> dev_sectors d * 512 < unat bytes + 512 \<and>
     (\<forall>x \<in> dev_bytes d. unat x < 2 ^ 30 \<and> page_free (b_pmm s) (unat x div 4096) \<and>
       \<not> page_free (b_pmm s') (unat x div 4096)) \<and>
     (\<forall>x. x \<notin> dev_bytes d \<longrightarrow> b_mem s' x = b_mem s x) \<and>
     (\<forall>k < dev_sectors d * 512. b_mem s' (dev_at d k) = (if init_mbr then mbr_byte (dev_sectors d) k else 0))"

lemma kmalloc_small:
  assumes "heap_ok h L" "n \<noteq> 0" "unat n < 4096"
  obtains h' p where "kmalloc h n = Some (h', p)" "\<exists>L'. heap_ok h' L'"
proof -
  have n: "unat n + 15 < 2 ^ 64" using assms(3) by simp
  obtain h' p where k: "kmalloc h n = Some (h', p)" "p = 0 \<longrightarrow> h' = h"
    using kheap.malloc_returns [OF assms(1,2) n] by blast
  then have "\<exists>L'. heap_ok h' L'" using kheap.malloc_live [OF assms(1,2) n k(1)] assms(1) by blast
  then show ?thesis using that k(1) by blast
qed

lemma round_up_nat:
  fixes n :: nat
  shows "(n + 511) div 512 * 512 mod 512 = 0" "n \<le> (n + 511) div 512 * 512" "(n + 511) div 512 * 512 < n + 512"
    "n \<le> 4096 * ((n + 4095) div 4096)"
proof -
  have e: "(n + 511) div 512 * 512 + (n + 511) mod 512 = n + 511" "(n + 511) mod 512 < 512"
    "4096 * ((n + 4095) div 4096) + (n + 4095) mod 4096 = n + 4095" "(n + 4095) mod 4096 < 4096"
    by simp_all
  then show "n \<le> (n + 511) div 512 * 512" "(n + 511) div 512 * 512 < n + 512" "n \<le> 4096 * ((n + 4095) div 4096)"
    by linarith+
  show "(n + 511) div 512 * 512 mod 512 = 0" by simp
qed

lemma round512_props:
  assumes "unat bytes + 8192 < 2 ^ 64"
  defines "rounded \<equiv> (bytes + ucast block_default_sector - 1) div ucast block_default_sector * ucast block_default_sector :: u64"
  shows "unat rounded mod 512 = 0" "unat bytes \<le> unat rounded" "unat rounded < unat bytes + 512"
    "unat rounded \<le> 4096 * unat ((rounded + 4095) div 4096)"
    "bytes \<noteq> 0 \<Longrightarrow> (rounded + 4095) div 4096 \<noteq> 0"
proof -
  note r = round512 [OF assms(1), folded rounded_def]
  show "unat rounded mod 512 = 0" "unat bytes \<le> unat rounded" "unat rounded < unat bytes + 512" unfolding r(1) by (rule round_up_nat)+
  show le: "unat rounded \<le> 4096 * unat ((rounded + 4095) div 4096)" unfolding r by (rule round_up_nat)
  assume "bytes \<noteq> 0"
  then have "0 < unat bytes" by (simp add: unat_gt_0)
  then have "unat ((rounded + 4095) div 4096) \<noteq> 0" using le \<open>unat bytes \<le> unat rounded\<close> by linarith
  then show "(rounded + 4095) div 4096 \<noteq> 0" by (metis unat_0)
qed

lemma ramdisk_made_intro:
  assumes b: "unat bytes + 8192 < 2 ^ 64" "bytes \<noteq> 0" and ok: "pmm_ok (b_pmm s)"
  defines "rounded \<equiv> (bytes + ucast block_default_sector - 1) div ucast block_default_sector * ucast block_default_sector :: u64"
  assumes a: "pmm_alloc_frames_below (b_pmm s) ((rounded + 4095) div 4096) (2 ^ 30) = Some (pmm', p)" "p \<noteq> 0"
  defines "m1 \<equiv> fill_bytes (b_mem s) p 0 (unat rounded)"
  assumes s': "s' = block_register (Block_Device (take 15 name) block_default_sector
      (rounded div ucast block_default_sector) (Ramdisk p rounded))
      (s\<lparr>b_pmm := pmm', b_mem := if init_mbr then seed_mbr m1 p rounded block_default_sector else m1, b_heap := h\<rparr>)"
  shows "ramdisk_made init_mbr s name bytes s' (Block_Device (take 15 name) 512 (rounded div 512) (Ramdisk p rounded))"
proof -
  let ?d = "Block_Device (take 15 name) 512 (rounded div 512) (Ramdisk p rounded)"
  have u: "ucast block_default_sector = (512 :: u64)" "block_default_sector = 512" by (simp_all add: block_default_sector_def)
  note r = round512_props [OF b(1), folded rounded_def]
  note al = alloc_below_block [OF ok r(5) [OF b(2)] a]
  have pe: "unat p + 4096 * unat ((rounded + 4095) div 4096) \<le> 2 ^ 30" using al by simp
  then have "unat p + unat rounded \<le> 2 ^ 30" using r(4) by linarith
  note dv = ramdisk_device [OF r(1) this, of "take 15 name"]
  have R: "unat rounded \<le> 2 ^ 64" using u64_bound [of rounded] by simp
  have pages: "unat x < 2 ^ 30 \<and> page_free (b_pmm s) (unat x div 4096) \<and> \<not> page_free pmm' (unat x div 4096)"
    if "x \<in> dev_bytes ?d" for x
  proof -
    have "x \<in> bytes_at p (unat rounded)" using that dv(3) by blast
    moreover have "unat p mod 4096 = 0" using al by blast
    ultimately show ?thesis using bytes_at_pages [OF pe _ r(4), of x] al by metis
  qed
  have fill: "m1 x = (if x \<in> dev_bytes ?d then 0 else b_mem s x)" for x
    unfolding m1_def dv(3) by (rule fill_bytes_apply [OF R])
  have seed: "seed_mbr m1 p rounded 512 x = m1 x" if "x \<notin> dev_bytes ?d" for x
  proof (cases "rounded \<ge> 1024")
    case True
    then have "512 \<le> unat rounded" by (simp add: word_le_nat_alt)
    then have "x \<notin> bytes_at p 512" using that unfolding dv(3) bytes_at_def by auto
    then show ?thesis by (rule seed_mbr_frame)
  qed (simp add: seed_mbr_def)
  have cont: "(if init_mbr then seed_mbr m1 p rounded 512 else m1) (dev_at ?d k) = (if init_mbr then mbr_byte (dev_sectors ?d) k else 0)"
    if k: "k < dev_sectors ?d * 512" for k
  proof -
    have at: "dev_at ?d j = p + of_nat j" for j by (simp add: dev_geom)
    have zero: "m1 (p + of_nat j) = 0" if "j < dev_sectors ?d * 512" for j
    proof -
      have "p + of_nat j \<in> dev_bytes ?d" unfolding at [symmetric] dev_bytes_def using that by (simp add: dev_geom)
      then show ?thesis using fill by simp
    qed
    have n: "unat rounded = 512 * dev_sectors ?d" "dev_sectors ?d < 2 ^ 32" using dv(2) \<open>unat p + unat rounded \<le> 2 ^ 30\<close> by simp_all
    have "seed_mbr m1 p rounded 512 (p + of_nat k) = mbr_byte (dev_sectors ?d) k"
    proof (cases "k < 512")
      case True
      have "512 \<le> dev_sectors ?d * 512" using k by (cases "dev_sectors ?d") simp_all
      then have "m1 (p + of_nat j) = 0" if "j < 512" for j using zero [of j] that by simp
      then show ?thesis using True by (intro seed_mbr_at [OF _ n]) simp_all
    next
      case False
      have "unat (of_nat k :: u64) = k" using k n(2) by (intro u64_of_nat_unat) simp
      then show ?thesis using False zero [OF k] by (simp add: seed_mbr_outside mbr_byte_def)
    qed
    then show ?thesis using zero [OF k] at by simp
  qed
  show ?thesis
    unfolding ramdisk_made_def s' u
    using dv(1,2) r(2,3) pages fill seed cont by (auto simp: block_register_def dev_geom)
qed

lemma pages_of: "((n + 511) div 512 * 512 + 4095) div 4096 = (n + 4095) div (4096 :: nat)"
proof -
  have "(n + 511) div 512 * 512 + 4095 = ((n + 511) div 512 + 7) * 512 + 511" by simp
  then have "((n + 511) div 512 * 512 + 4095) div 4096 = (((n + 511) div 512 + 7) * 512 + 511) div 512 div 8"
    by (simp only: div_mult2_eq [symmetric]) simp
  also have "\<dots> = (n + 4095) div 512 div 8" by simp
  also have "\<dots> = (n + 4095) div 4096" by (simp only: div_mult2_eq [symmetric]) simp
  finally show ?thesis .
qed

text \<open>With room in the heap and the frames the creation succeeds.\<close>

lemma ramdisk_create_succeeds:
  assumes h: "heap_room (b_heap s) (R + 176)" and ok: "pmm_ok (b_pmm s)" and b: "bytes \<noteq> 0" "unat bytes + 8192 < 2 ^ 64"
    and fr: "frames_below (b_pmm s) ((unat bytes + 4095) div 4096) (2 ^ 30)"
  shows "\<exists>s' d. ramdisk_create init_mbr s name bytes = Some (s', 0) \<and> ramdisk_made init_mbr s name bytes s' d \<and> heap_room (b_heap s') R"
proof -
  define rounded :: u64 where
    "rounded = (bytes + ucast block_default_sector - 1) div ucast block_default_sector * ucast block_default_sector"
  note rd = round512 [OF b(2), folded rounded_def]
  obtain h1 r1 where k1: "kmalloc (b_heap s) SIZEOF_RAMDISK = Some (h1, r1)" "r1 \<noteq> 0" "heap_room h1 (R + 112)"
    by (rule kmalloc_room [OF h, of "R + 112" SIZEOF_RAMDISK]) (auto simp: SIZEOF_RAMDISK_def round16_def)
  obtain h2 r2 where k2: "kmalloc h1 SIZEOF_BLOCK_DEVICE = Some (h2, r2)" "r2 \<noteq> 0" "heap_room h2 R"
    by (rule kmalloc_room [OF k1(3), of R SIZEOF_BLOCK_DEVICE]) (auto simp: SIZEOF_BLOCK_DEVICE_def round16_def)
  have c: "(rounded + 4095) div 4096 \<noteq> 0" using round512_props(5) [OF b(2,1)] unfolding rounded_def .
  obtain pmm' p where a: "pmm_alloc_frames_below (b_pmm s) ((rounded + 4095) div 4096) (2 ^ 30) = Some (pmm', p)"
    by (rule alloc_below_ok [OF ok c])
  have "p \<noteq> 0" using alloc_below_iff [OF ok c a] fr unfolding rd(2) pages_of by simp
  note a = a this
  let ?m1 = "fill_bytes (b_mem s) p 0 (unat rounded)"
  let ?s' = "block_register (Block_Device (take 15 name) block_default_sector (rounded div ucast block_default_sector) (Ramdisk p rounded))
      (s\<lparr>b_pmm := pmm', b_mem := if init_mbr then seed_mbr ?m1 p rounded block_default_sector else ?m1, b_heap := h2\<rparr>)"
  note cr = ramdisk_create_def [of init_mbr s name bytes, unfolded Let_def, folded rounded_def]
  have "ramdisk_create init_mbr s name bytes = Some (?s', 0)" unfolding cr using k1 k2 a b(1) by simp
  moreover have "ramdisk_made init_mbr s name bytes ?s' (Block_Device (take 15 name) 512 (rounded div 512) (Ramdisk p rounded))"
    using ramdisk_made_intro [OF b(2,1) ok, folded rounded_def, OF a refl] by blast
  moreover have "heap_room (b_heap ?s') R" using k2(3) by (simp add: block_register_def)
  ultimately show ?thesis by blast
qed

text \<open>
  C18. Creating a RAM disk returns, and heap and allocator stay consistent. With room in the heap for
  its two structures it succeeds (returns 0) exactly when the requested bytes fit into a run of free
  frames below 1 GiB. On success a writable device of whole 512 byte sectors that holds the requested
  bytes is registered first; its store is made of frames that were free, lies below 1 GiB and is taken
  from the allocator; no other byte of memory changes. The disk is zero, but for the partition table
  that \<open>RAMDISK_INIT_MBR\<close> asks for: one entry of type 7 from sector 1 to the end, and the signature. The
  only other outcome is -1, with no device registered.
\<close>

theorem ramdisk_create_device:
  assumes h: "heap_ok (b_heap s) L" and ok: "pmm_ok (b_pmm s)" and b: "bytes \<noteq> 0" "unat bytes + 8192 < 2 ^ 64"
  shows "\<exists>s' r. ramdisk_create init_mbr s name bytes = Some (s', r) \<and>
    (\<exists>L'. heap_ok (b_heap s') L') \<and> pmm_ok (b_pmm s') \<and>
    (heap_room (b_heap s) 176 \<longrightarrow> (r = 0 \<longleftrightarrow> frames_below (b_pmm s) ((unat bytes + 4095) div 4096) (2 ^ 30))) \<and>
    (if r = 0 then \<exists>d. ramdisk_made init_mbr s name bytes s' d else r = -1 \<and> g_devs s' = g_devs s)"
proof -
  define rounded :: u64 where
    "rounded = (bytes + ucast block_default_sector - 1) div ucast block_default_sector * ucast block_default_sector"
  note rd = round512 [OF b(2), folded rounded_def]
  obtain h1 r1 where k1: "kmalloc (b_heap s) SIZEOF_RAMDISK = Some (h1, r1)" "\<exists>L'. heap_ok h1 L'"
    by (rule kmalloc_small [OF h, of SIZEOF_RAMDISK]) (auto simp: SIZEOF_RAMDISK_def)
  then obtain L1 where "heap_ok h1 L1" by blast
  then obtain h2 bd where k2: "kmalloc h1 SIZEOF_BLOCK_DEVICE = Some (h2, bd)" "\<exists>L'. heap_ok h2 L'"
    by (rule kmalloc_small [of h1 L1 SIZEOF_BLOCK_DEVICE]) (auto simp: SIZEOF_BLOCK_DEVICE_def)
  have c: "(rounded + 4095) div 4096 \<noteq> 0" using round512_props(5) [OF b(2,1)] unfolding rounded_def .
  obtain pmm' p where a: "pmm_alloc_frames_below (b_pmm s) ((rounded + 4095) div 4096) (2 ^ 30) = Some (pmm', p)" "pmm_ok pmm'"
    by (rule alloc_below_ok [OF ok c])
  have p0: "p \<noteq> 0 \<longleftrightarrow> frames_below (b_pmm s) ((unat bytes + 4095) div 4096) (2 ^ 30)"
    using alloc_below_iff [OF ok c a(1)] unfolding rd(2) pages_of by simp
  let ?s1 = "s\<lparr>b_pmm := pmm', b_mem := if init_mbr
    then seed_mbr (fill_bytes (b_mem s) p 0 (unat rounded)) p rounded block_default_sector
    else fill_bytes (b_mem s) p 0 (unat rounded), b_heap := h2\<rparr>"
  let ?s' = "block_register (Block_Device (take 15 name) block_default_sector
    (rounded div ucast block_default_sector) (Ramdisk p rounded)) ?s1"
  note cr = ramdisk_create_def [of init_mbr s name bytes, unfolded Let_def, folded rounded_def]
  show ?thesis
  proof (cases "r1 = 0 \<or> p = 0 \<or> bd = 0")
    case True
    then have "\<exists>s'. ramdisk_create init_mbr s name bytes = Some (s', -1) \<and> (\<exists>L'. heap_ok (b_heap s') L') \<and> pmm_ok (b_pmm s') \<and> g_devs s' = g_devs s"
      unfolding cr using k1 k2 a ok h b(1) by auto
    then obtain s' where s': "ramdisk_create init_mbr s name bytes = Some (s', -1)" "\<exists>L'. heap_ok (b_heap s') L'" "pmm_ok (b_pmm s')" "g_devs s' = g_devs s" by blast
    moreover have "\<not> frames_below (b_pmm s) ((unat bytes + 4095) div 4096) (2 ^ 30)" if "heap_room (b_heap s) 176"
      using ramdisk_create_succeeds [of s 0 bytes init_mbr name] that ok b s'(1) by auto
    ultimately show ?thesis by auto
  next
    case False
    then have "ramdisk_create init_mbr s name bytes = Some (?s', 0)" unfolding cr using k1 k2 a b(1) by simp
    moreover have "ramdisk_made init_mbr s name bytes ?s' (Block_Device (take 15 name) 512 (rounded div 512) (Ramdisk p rounded))"
      using ramdisk_made_intro [OF b(2,1) ok, folded rounded_def, OF a(1) _ refl] False by blast
    moreover have "\<exists>L'. heap_ok (b_heap ?s') L'" "pmm_ok (b_pmm ?s')"
      using k2(2) a(2) by (simp_all add: block_register_def)
    ultimately show ?thesis using p0 False by (intro exI [of _ ?s'] exI [of _ 0]) auto
  qed
qed

definition demo_blocks :: block_state where
  "demo_blocks = \<lparr>b_mem = demo_mem, b_heap = kmalloc_init demo_heap 0x10000 0x1000, b_pmm = demo_pmm, g_devs = []\<rparr>"

lemma demo_blocks_ok: "\<exists>L. heap_ok (b_heap demo_blocks) L" "pmm_ok (b_pmm demo_blocks)" "heap_room (b_heap demo_blocks) 176"
    "frames_below (b_pmm demo_blocks) 1 (2 ^ 30)"
proof -
  show "\<exists>L. heap_ok (b_heap demo_blocks) L" "heap_room (b_heap demo_blocks) 176"
    using kmalloc_init_inv [of "0x10000" "0x1000" demo_heap] by (auto simp: demo_blocks_def heap_room_def heap_ok_def)
  show "pmm_ok (b_pmm demo_blocks)" using demo_pmm_facts by (simp add: demo_blocks_def)
  show "frames_below (b_pmm demo_blocks) 1 (2 ^ 30)"
    unfolding frames_below_def demo_blocks_def page_free_def page_of_frame_def
    by (intro exI [of _ 256]) (auto simp: demo_pmm_facts)
qed

theorem ramdisk_create_device_witness:
  "\<exists>s' d. ramdisk_create True demo_blocks ''ram0'' 1000 = Some (s', 0) \<and> ramdisk_made True demo_blocks ''ram0'' 1000 s' d \<and>
     g_devs s' = [d] \<and> dev_sectors d = 2 \<and> b_mem s' (dev_at d 450) = 7 \<and> b_mem s' (dev_at d 0) = 0"
proof -
  obtain L where L: "heap_ok (b_heap demo_blocks) L" using demo_blocks_ok(1) by blast
  have b: "(1000 :: u64) \<noteq> 0" "unat (1000 :: u64) + 8192 < 2 ^ 64" by simp_all
  obtain s' r where c: "ramdisk_create True demo_blocks ''ram0'' 1000 = Some (s', r)"
    "heap_room (b_heap demo_blocks) 176 \<longrightarrow> (r = 0 \<longleftrightarrow> frames_below (b_pmm demo_blocks) ((unat (1000 :: u64) + 4095) div 4096) (2 ^ 30))"
    "if r = 0 then \<exists>d. ramdisk_made True demo_blocks ''ram0'' 1000 s' d else r = -1 \<and> g_devs s' = g_devs demo_blocks"
    using ramdisk_create_device [OF L demo_blocks_ok(2) b] by blast
  have "(unat (1000 :: u64) + 4095) div 4096 = 1" by simp
  then have "r = 0" using c(2) demo_blocks_ok(3,4) by simp
  then obtain d where r: "ramdisk_create True demo_blocks ''ram0'' 1000 = Some (s', 0)" and d: "ramdisk_made True demo_blocks ''ram0'' 1000 s' d"
    using c(1,3) by auto
  then have n: "dev_sectors d = 2" by (simp add: ramdisk_made_def)
  have "b_mem s' (dev_at d k) = mbr_byte 2 k" if "k < 1024" for k using d n that by (simp add: ramdisk_made_def)
  from this [of 450] this [of 0] show ?thesis using r d n by (auto simp: ramdisk_made_def mbr_byte_def demo_blocks_def)
qed

section \<open>Scanning for partitions\<close>

text \<open>A device's contents as a memory from 0 on, and what its partition table says.\<close>

definition disk_view :: "block_device \<Rightarrow> memory \<Rightarrow> memory" where
  "disk_view d m = (\<lambda>a. m (dev_at d (unat a)))"

definition mbr_part :: "block_device \<Rightarrow> memory \<Rightarrow> nat \<Rightarrow> block_device option" where
  "mbr_part d m i =
     (let v = disk_view d m;
          start = load32 v (of_nat (454 + 16 * i));
          count = load32 v (of_nat (458 + 16 * i))
      in if v (of_nat (450 + 16 * i)) = 0 \<or> count = 0 then None
         else Some (Block_Device (part_name (dev_name d) i) (sector_size d) (ucast count)
           (Partition d (ucast start) (ucast count))))"

definition mbr_parts :: "block_device \<Rightarrow> memory \<Rightarrow> block_device list" where
  "mbr_parts d m =
     (if disk_view d m 510 = 0x55 \<and> disk_view d m 511 = 0xAA
      then List.map_filter (mbr_part d m) [0, 1, 2, 3] else [])"

definition sector0_in :: "block_device \<Rightarrow> memory \<Rightarrow> u64 \<Rightarrow> memory \<Rightarrow> bool" where
  "sector0_in d m mbr m' \<longleftrightarrow> (\<forall>k < 512. m' (mbr + of_nat k) = disk_view d m (of_nat k))"

lemma sector0_load32:
  assumes "sector0_in d m mbr m'" "k + 4 \<le> 512"
  shows "load32 m' (mbr + of_nat k) = load32 (disk_view d m) (of_nat k)"
proof -
  have "m' (mbr + of_nat k + of_nat i) = disk_view d m (of_nat k + of_nat i)" if "i < 4" for i
  proof -
    have "k + i < 512" using that assms(2) by simp
    then have "m' (mbr + of_nat (k + i)) = disk_view d m (of_nat (k + i))"
      using assms(1) unfolding sector0_in_def by blast
    then show ?thesis by (simp add: add.assoc)
  qed
  then show ?thesis unfolding load32_def by (rule load_le_shift)
qed

lemma add_partition_ok:
  assumes s0: "sector0_in d m mbr (b_mem s)" and i: "i < 4" and room: "heap_room (b_heap s) (R + 192)"
  shows "\<exists>s'. add_partition d mbr s i = Some s' \<and> b_mem s' = b_mem s \<and> heap_room (b_heap s') R \<and>
    g_devs s' = (case mbr_part d m i of None \<Rightarrow> [] | Some p \<Rightarrow> [p]) @ g_devs s"
proof -
  have off: "mbr + 446 + of_nat (16 * i) + 8 = mbr + of_nat (454 + 16 * i)"
    "mbr + 446 + of_nat (16 * i) + 12 = mbr + of_nat (458 + 16 * i)"
    "mbr + 446 + of_nat (16 * i) + 4 = mbr + of_nat (450 + 16 * i)"
    by simp_all
  have t: "b_mem s (mbr + of_nat (450 + 16 * i)) = disk_view d m (of_nat (450 + 16 * i))"
    using i by (intro s0 [unfolded sector0_in_def, rule_format]) simp
  have l: "load32 (b_mem s) (mbr + of_nat (454 + 16 * i)) = load32 (disk_view d m) (of_nat (454 + 16 * i))"
    "load32 (b_mem s) (mbr + of_nat (458 + 16 * i)) = load32 (disk_view d m) (of_nat (458 + 16 * i))"
    using i by (intro sector0_load32 [OF s0]; simp)+
  obtain h1 pd where k1: "kmalloc (b_heap s) SIZEOF_BLOCK_DEVICE = Some (h1, pd)" "pd \<noteq> 0" "heap_room h1 (R + 80)"
    by (rule kmalloc_room [OF room, of "R + 80" SIZEOF_BLOCK_DEVICE])
      (auto simp: SIZEOF_BLOCK_DEVICE_def round16_def)
  obtain h2 pp where k2: "kmalloc h1 SIZEOF_PART_PRIV = Some (h2, pp)" "pp \<noteq> 0" "heap_room h2 R"
    by (rule kmalloc_room [OF k1(3), of R SIZEOF_PART_PRIV])
      (auto simp: SIZEOF_PART_PRIV_def round16_def)
  have "heap_room (b_heap s) R" using room unfolding heap_room_def by fastforce
  then show ?thesis
    using k1 k2 unfolding add_partition_def mbr_part_def Let_def off t l by (simp add: block_register_def)
qed

lemma add_partitions_ok:
  assumes "\<forall>i \<in> set is. i < 4" "sector0_in d m mbr (b_mem s)" "heap_room (b_heap s) (R + 192 * length is)"
  shows "\<exists>s'. add_partitions d mbr s is = Some s' \<and> b_mem s' = b_mem s \<and> heap_room (b_heap s') R \<and>
    g_devs s' = rev (List.map_filter (mbr_part d m) is) @ g_devs s"
  using assms
proof (induction "is" arbitrary: s)
  case Nil
  then show ?case by (simp add: List.map_filter_def)
next
  case (Cons i js)
  have "heap_room (b_heap s) (R + 192 * length js + 192)" using Cons.prems(3) by (simp add: algebra_simps)
  then obtain s1 where s1: "add_partition d mbr s i = Some s1" "b_mem s1 = b_mem s"
      "heap_room (b_heap s1) (R + 192 * length js)"
      "g_devs s1 = (case mbr_part d m i of None \<Rightarrow> [] | Some p \<Rightarrow> [p]) @ g_devs s"
    using add_partition_ok [OF Cons.prems(2), of i "R + 192 * length js"] Cons.prems(1) by auto
  obtain s' where "add_partitions d mbr s1 js = Some s'" "b_mem s' = b_mem s1" "heap_room (b_heap s') R"
      "g_devs s' = rev (List.map_filter (mbr_part d m) js) @ g_devs s1"
    using Cons.IH [of s1] Cons.prems s1 by auto
  then show ?case using s1 by (cases "mbr_part d m i") (auto simp: List.map_filter_def)
qed

lemma scan_device_ok:
  assumes d: "dev_ok d" "dev_ss d = 512" "0 < dev_sectors d" and mbr: "mbr \<noteq> 0" "bytes_at mbr 512 \<inter> dev_bytes d = {}"
    and room: "heap_room (b_heap s) (R + 768)"
  shows "\<exists>s'. scan_device mbr s d = Some s' \<and> heap_room (b_heap s') R \<and>
    (\<forall>x. x \<notin> bytes_at mbr 512 \<longrightarrow> b_mem s' x = b_mem s x) \<and>
    g_devs s' = rev (mbr_parts d (b_mem s)) @ g_devs s"
proof -
  let ?m1 = "\<lambda>x. if x \<in> bytes_at mbr 512 then b_mem s (dev_at d (unat (x - mbr))) else b_mem s x"
  have sub: "{0..<512} \<subseteq> {..<dev_sectors d * 512}" using d(3) by auto
  have "bytes_at mbr (unat (1 :: u32) * dev_ss d) \<inter>
      dev_at d ` {unat (0 :: u64) * dev_ss d..<(unat (0 :: u64) + unat (1 :: u32)) * dev_ss d} = {}"
    using mbr(2) sub unfolding dev_bytes_def d(2) by auto
  from blk.rd_ok [OF d(1) _ _ mbr(1) _ this] d(3) have rd: "dev_read d (b_mem s) 0 mbr 1 = (?m1, 1)"
    unfolding d(2) by (simp add: fun_eq_iff)
  have s0: "sector0_in d (b_mem s) mbr ?m1"
    unfolding sector0_in_def disk_view_def by (simp add: bytes_at_def u64_of_nat_unat)
  have sig: "?m1 (mbr + 510) = disk_view d (b_mem s) 510" "?m1 (mbr + 511) = disk_view d (b_mem s) 511"
    by (simp_all add: bytes_at_def disk_view_def)
  have nops: "dev_driver d \<noteq> No_Ops" "sector_size d = 512"
    using dev_ok_ops [OF d(1)] d(2) by (simp_all add: dev_geom word_unat_eq_iff)
  have room0: "heap_room (b_heap s) R" using room unfolding heap_room_def by fastforce
  obtain s' where s': "add_partitions d mbr (s\<lparr>b_mem := ?m1\<rparr>) [0, 1, 2, 3] = Some s'" "b_mem s' = ?m1"
      "heap_room (b_heap s') R" "g_devs s' = rev (List.map_filter (mbr_part d (b_mem s)) [0, 1, 2, 3]) @ g_devs s"
    using add_partitions_ok [of "[0, 1, 2, 3]" d "b_mem s" mbr "s\<lparr>b_mem := ?m1\<rparr>" R] s0 room by auto
  show ?thesis
  proof (cases "disk_view d (b_mem s) 510 = 0x55 \<and> disk_view d (b_mem s) 511 = 0xAA")
    case True
    then have "scan_device mbr s d = Some s'"
      using s'(1) sig nops by (simp add: scan_device_def rd)
    then show ?thesis using s' True by (simp add: mbr_parts_def)
  next
    case False
    then have "scan_device mbr s d = Some (s\<lparr>b_mem := ?m1\<rparr>)"
      using sig nops by (auto simp: scan_device_def rd)
    then show ?thesis using False room0 by (auto simp: mbr_parts_def)
  qed
qed

definition scannable :: "u64 \<Rightarrow> block_device \<Rightarrow> bool" where
  "scannable mbr d \<longleftrightarrow> dev_ok d \<and> dev_ss d = 512 \<and> 0 < dev_sectors d \<and> bytes_at mbr 512 \<inter> dev_bytes d = {}"

lemma disk_view_cong:
  assumes "scannable mbr d" "\<And>x. x \<notin> bytes_at mbr 512 \<Longrightarrow> m' x = m x" "unat a < 512"
  shows "disk_view d m' a = disk_view d m a"
proof -
  have "unat a < dev_sectors d * dev_ss d" using assms(1,3) by (auto simp: scannable_def)
  then have "dev_at d (unat a) \<in> dev_bytes d" unfolding dev_bytes_def by blast
  then show ?thesis using assms(1,2) unfolding scannable_def disk_view_def by blast
qed

lemma mbr_parts_cong:
  assumes d: "scannable mbr d" and m: "\<And>x. x \<notin> bytes_at mbr 512 \<Longrightarrow> m' x = m x"
  shows "mbr_parts d m' = mbr_parts d m"
proof -
  have v: "disk_view d m' (of_nat k) = disk_view d m (of_nat k)" if "k < 512" for k
    using that by (intro disk_view_cong [OF d m]) (simp_all add: u64_of_nat_unat)
  have l: "load32 (disk_view d m') (of_nat k) = load32 (disk_view d m) (of_nat k)" if k: "k + 4 \<le> 512" for k
    unfolding load32_def
  proof (rule load_le_shift)
    fix i :: nat assume "i < 4"
    then have "k + i < 512" using k by simp
    from v [OF this] show "disk_view d m' (of_nat k + of_nat i) = disk_view d m (of_nat k + of_nat i)" by simp
  qed
  have "mbr_part d m' i = mbr_part d m i" if i: "i < 4" for i
  proof -
    have "450 + 16 * i < 512" "454 + 16 * i + 4 \<le> 512" "458 + 16 * i + 4 \<le> 512" using i by simp_all
    then show ?thesis unfolding mbr_part_def Let_def by (simp only: v l)
  qed
  moreover have "disk_view d m' 510 = disk_view d m 510" "disk_view d m' 511 = disk_view d m 511"
    using v [of 510] v [of 511] by simp_all
  ultimately show ?thesis by (simp add: mbr_parts_def List.map_filter_def)
qed

lemma scan_devices_ok:
  assumes "mbr \<noteq> 0" "\<forall>d \<in> set ds. scannable mbr d" "heap_room (b_heap s) (768 * length ds)"
  shows "\<exists>s'. scan_devices mbr s ds = Some s' \<and> (\<forall>x. x \<notin> bytes_at mbr 512 \<longrightarrow> b_mem s' x = b_mem s x) \<and>
    g_devs s' = rev (concat (map (\<lambda>d. mbr_parts d (b_mem s)) ds)) @ g_devs s"
  using assms(2,3)
proof (induction ds arbitrary: s)
  case (Cons d ds)
  have d: "scannable mbr d" using Cons.prems(1) by simp
  obtain s1 where s1: "scan_device mbr s d = Some s1" "heap_room (b_heap s1) (768 * length ds)"
      "\<forall>x. x \<notin> bytes_at mbr 512 \<longrightarrow> b_mem s1 x = b_mem s x" "g_devs s1 = rev (mbr_parts d (b_mem s)) @ g_devs s"
    using scan_device_ok [of d mbr s "768 * length ds"] d assms(1) Cons.prems(2)
    by (auto simp: scannable_def algebra_simps)
  have "mbr_parts e (b_mem s1) = mbr_parts e (b_mem s)" if "e \<in> set ds" for e
    using Cons.prems(1) s1(3) that by (intro mbr_parts_cong [of mbr]) auto
  then have e: "map (\<lambda>d. mbr_parts d (b_mem s1)) ds = map (\<lambda>d. mbr_parts d (b_mem s)) ds" by simp
  obtain s' where "scan_devices mbr s1 ds = Some s'" "\<forall>x. x \<notin> bytes_at mbr 512 \<longrightarrow> b_mem s' x = b_mem s1 x"
      "g_devs s' = rev (concat (map (\<lambda>d. mbr_parts d (b_mem s1)) ds)) @ g_devs s1"
    using Cons.IH [of s1] Cons.prems(1) s1(2) by auto
  then show ?case using s1 e by simp
qed simp

text \<open>
  C19. The partition scan: with room in the heap it returns, changes no memory but its sector
  buffer, and registers exactly the non-empty entries of the partition tables of the devices
  registered when it starts (device by device, those with the 55 AA signature), each as a
  partition named after its device and index; an entry that lies within its device gives a
  well-formed device.
\<close>

theorem block_scan_registers_partitions:
  assumes "mbr \<noteq> 0" "\<forall>d \<in> set (g_devs s). scannable mbr d" "heap_room (b_heap s) (768 * length (g_devs s))"
  shows "\<exists>s'. block_scan_partitions mbr s = Some s' \<and> (\<forall>x. x \<notin> bytes_at mbr 512 \<longrightarrow> b_mem s' x = b_mem s x) \<and>
    g_devs s' = rev (concat (map (\<lambda>d. mbr_parts d (b_mem s)) (g_devs s))) @ g_devs s \<and>
    (\<forall>d nm ss sc lb lc. dev_ok d \<and> Block_Device nm ss sc (Partition d lb lc) \<in> set (mbr_parts d (b_mem s)) \<and>
      unat lb + unat lc \<le> dev_sectors d \<longrightarrow> dev_ok (Block_Device nm ss sc (Partition d lb lc)))"
proof -
  have "dev_ok (Block_Device nm ss sc (Partition d lb lc))"
    if "dev_ok d" "Block_Device nm ss sc (Partition d lb lc) \<in> set (mbr_parts d (b_mem s))"
      "unat lb + unat lc \<le> dev_sectors d" for d nm ss sc lb lc
  proof -
    have "sc = lc" "ss = sector_size d" using that(2)
      by (auto simp: mbr_parts_def mbr_part_def Let_def List.map_filter_def split: if_splits)
    moreover have "sector_size d \<noteq> 0" using that(1) by (cases d) simp
    ultimately show ?thesis using that by (simp add: dev_geom)
  qed
  then show ?thesis using scan_devices_ok [OF assms] unfolding block_scan_partitions_def by blast
qed

definition demo_seeded :: block_state where
  "demo_seeded = \<lparr>b_mem = seed_mbr (\<lambda>_. 0) 0x200000 0x2000 512, b_heap = kmalloc_init demo_heap 0x10000 0x1000,
     b_pmm = demo_pmm, g_devs = [demo_disk]\<rparr>"

lemma demo_seeded_parts:
  "mbr_parts demo_disk (b_mem demo_seeded) = [Block_Device ''ram0p1'' 512 15 (Partition demo_disk 1 15)]"
  by code_simp

lemma demo_scannable: "scannable 0x1000 demo_disk"
proof -
  have False if x: "x \<in> bytes_at 0x1000 512" "x = 0x200000 + of_nat k" "k < 8192" for x :: u64 and k
  proof -
    obtain i where i: "i < 512" "x = 0x1000 + of_nat i" using bytes_at_E [OF x(1)] by blast
    have "unat x = 4096 + i" using i by (subst i(2), subst unat_add_small) (simp_all add: u64_of_nat_unat)
    moreover have "unat x = 0x200000 + k" using x(3) by (subst x(2), subst unat_add_small) (simp_all add: u64_of_nat_unat)
    ultimately show False using i(1) by simp
  qed
  then show ?thesis by (auto simp: scannable_def dev_bytes_def demo_disk_def dev_geom)
qed

theorem block_scan_registers_partitions_witness:
  "\<exists>s'. block_scan_partitions 0x1000 demo_seeded = Some s' \<and>
     g_devs s' = [Block_Device ''ram0p1'' 512 15 (Partition demo_disk 1 15), demo_disk]"
proof -
  have "heap_room (b_heap demo_seeded) 768"
    using kmalloc_init_inv [of "0x10000" "0x1000" demo_heap] by (auto simp: heap_room_def demo_seeded_def)
  then show ?thesis
    using block_scan_registers_partitions [of "0x1000" demo_seeded] demo_scannable demo_seeded_parts
    by (auto simp: demo_seeded_def)
qed

end
