(* ===== verification/Vfs.thy ===== *)
theory Vfs
  imports Block_Scan
begin

text \<open>
  The virtual file system switch (\<open>kernel64/vfs\<close>): the table of registered file systems, the
  mount table, path parsing and dispatch. A table of function pointers is a record of optional
  operations (\<open>None\<close> is a NULL entry); an operation works on the kernel state below the switch
  (memory, heap, frames and block devices) and, as everywhere, \<open>None\<close> as its result is a loop
  that does not end or a fault. The tables themselves are static objects: a pointer to one is a
  value of a type \<open>'o\<close>, and \<open>tab\<close> says what it holds. The serial trace is left out.
\<close>

section \<open>State\<close>

text \<open>\<open>struct vfs_node\<close>: the operations, the file system's and the open file's private data.\<close>

record ('o, 'p, 'f) vfs_node =
  fops :: 'o
  fs_priv :: 'p
  file_priv :: 'f

record ('o, 'p, 'f) vfs_fs_ops =
  op_mount :: "(block_state \<Rightarrow> block_device option \<Rightarrow> string \<Rightarrow> (block_state \<times> int \<times> 'p) option) option"
  op_umount :: "(block_state \<Rightarrow> 'p \<Rightarrow> block_state) option"
  op_open :: "(block_state \<Rightarrow> 'p \<Rightarrow> string \<Rightarrow> (block_state \<times> ('o, 'p, 'f) vfs_node option) option) option"
  op_stat :: "(block_state \<Rightarrow> 'p \<Rightarrow> string \<Rightarrow> (block_state \<times> (u64 \<times> bool) option) option) option"
  op_read :: "(block_state \<Rightarrow> ('o, 'p, 'f) vfs_node \<Rightarrow> u64 \<Rightarrow> u64 \<Rightarrow> u64 \<Rightarrow> (block_state \<times> int) option) option"
  op_readdir :: "(block_state \<Rightarrow> ('o, 'p, 'f) vfs_node \<Rightarrow> u32 \<Rightarrow> u32 \<Rightarrow> int \<times> string) option"
  op_write :: "(block_state \<Rightarrow> ('o, 'p, 'f) vfs_node \<Rightarrow> u64 \<Rightarrow> u64 \<Rightarrow> u64 \<Rightarrow>
    (block_state \<times> ('o, 'p, 'f) vfs_node \<times> int) option) option"
  op_create :: "(block_state \<Rightarrow> 'p \<Rightarrow> string \<Rightarrow> u64 \<Rightarrow> (block_state \<times> int) option) option"
  op_unlink :: "(block_state \<Rightarrow> 'p \<Rightarrow> string \<Rightarrow> (block_state \<times> int) option) option"

record 'o fs_reg =
  fs_name :: string
  fs_ops :: 'o

record ('o, 'p) mount_rec =
  mname :: string
  m_ops :: 'o
  m_priv :: 'p

definition MAX_FS :: nat where "MAX_FS = 4"
definition MAX_MOUNTS :: nat where "MAX_MOUNTS = 4"

text \<open>The used parts of \<open>g_fs\<close> and \<open>g_mounts\<close>; \<open>g_fs_count\<close> and \<open>g_mount_count\<close> are their lengths.\<close>

record ('o, 'p) vfs_state =
  g_fs :: "'o fs_reg list"
  g_mounts :: "('o, 'p) mount_rec list"
  v_block :: block_state

section \<open>Operations\<close>

definition str_cpy :: "string \<Rightarrow> nat \<Rightarrow> string" where
  "str_cpy s n = take (n - 1) s"

definition vfs_register_fs :: "('o, 'p) vfs_state \<Rightarrow> string \<Rightarrow> 'o \<Rightarrow> ('o, 'p) vfs_state \<times> int" where
  "vfs_register_fs s name ops =
     (if length (g_fs s) \<ge> MAX_FS then (s, -1)
      else (s\<lparr>g_fs := g_fs s @ [\<lparr>fs_name = str_cpy name 8, fs_ops = ops\<rparr>]\<rparr>, 0))"

text \<open>\<open>priv1\<close> is the pointer \<open>(void*)1\<close> recorded when the file system has no mount function; an
  empty \<open>bdev_name\<close> stands for NULL too.\<close>

definition vfs_mount ::
  "('o \<Rightarrow> ('o, 'p, 'f) vfs_fs_ops) \<Rightarrow> 'p \<Rightarrow> ('o, 'p) vfs_state \<Rightarrow> string \<Rightarrow> string \<Rightarrow> string \<Rightarrow>
   (('o, 'p) vfs_state \<times> int) option" where
  "vfs_mount tab priv1 s fsn mount_name bdev_name =
     (if length (g_mounts s) \<ge> MAX_MOUNTS then Some (s, -1)
      else case find (\<lambda>f. name_eq (fs_name f) fsn) (g_fs s) of
        None \<Rightarrow> Some (s, -1)
      | Some f \<Rightarrow>
          let bdev = (if bdev_name = [] then None else block_find (v_block s) bdev_name)
          in if bdev_name \<noteq> [] \<and> bdev = None then Some (s, -1)
             else do {
               (b, rc, priv) \<leftarrow> (case op_mount (tab (fs_ops f)) of
                   None \<Rightarrow> Some (v_block s, 0, priv1)
                 | Some mnt \<Rightarrow> mnt (v_block s) bdev mount_name);
               if rc \<noteq> 0 then Some (s\<lparr>v_block := b\<rparr>, rc)
               else Some (s\<lparr>v_block := b, g_mounts := g_mounts s @
                 [\<lparr>mname = str_cpy mount_name 8, m_ops = fs_ops f, m_priv = priv\<rparr>]\<rparr>, 0) })"

text \<open>The search of \<open>vfs_umount\<close>; the entries after the one found move down by one.\<close>

fun umount_loop ::
  "('o \<Rightarrow> ('o, 'p, 'f) vfs_fs_ops) \<Rightarrow> block_state \<Rightarrow> ('o, 'p) mount_rec list \<Rightarrow> string \<Rightarrow>
   block_state \<times> ('o, 'p) mount_rec list \<times> int" where
  "umount_loop tab b [] name = (b, [], -1)"
| "umount_loop tab b (m # ms) name =
     (if name_eq (mname m) name
      then (case op_umount (tab (m_ops m)) of None \<Rightarrow> b | Some um \<Rightarrow> um b (m_priv m), ms, 0)
      else let (b', ms', rc) = umount_loop tab b ms name in (b', m # ms', rc))"

definition vfs_umount ::
  "('o \<Rightarrow> ('o, 'p, 'f) vfs_fs_ops) \<Rightarrow> ('o, 'p) vfs_state \<Rightarrow> string \<Rightarrow> ('o, 'p) vfs_state \<times> int" where
  "vfs_umount tab s mount_name =
     (let (b, ms, rc) = umount_loop tab (v_block s) (g_mounts s) mount_name
      in (s\<lparr>v_block := b, g_mounts := ms\<rparr>, rc))"

definition find_mount :: "('o, 'p) vfs_state \<Rightarrow> string \<Rightarrow> ('o, 'p) mount_rec option" where
  "find_mount s mn = find (\<lambda>m. name_eq (mname m) mn) (g_mounts s)"

text \<open>\<open>parse_mount_and_sub\<close>, whose body \<open>vfs_open\<close> and \<open>vfs_stat\<close> repeat: the mount named by the
  first 7 characters before the first colon, and what follows the colon.\<close>

definition parse_mount_and_sub :: "('o, 'p) vfs_state \<Rightarrow> string \<Rightarrow> (('o, 'p) mount_rec \<times> string) option" where
  "parse_mount_and_sub s path =
     (let p = takeWhile (\<lambda>c. c \<noteq> CHR '':'') path;
          sep = dropWhile (\<lambda>c. c \<noteq> CHR '':'') path
      in if sep = [] then None
         else let n = (if length p < 7 then length p else 7);
                  m = take n p
              in map_option (\<lambda>mt. (mt, tl sep)) (find_mount s m))"

definition vfs_open ::
  "('o \<Rightarrow> ('o, 'p, 'f) vfs_fs_ops) \<Rightarrow> ('o, 'p) vfs_state \<Rightarrow> string \<Rightarrow>
   (('o, 'p) vfs_state \<times> ('o, 'p, 'f) vfs_node option) option" where
  "vfs_open tab s path =
     (case parse_mount_and_sub s path of
        None \<Rightarrow> Some (s, None)
      | Some (mt, sub) \<Rightarrow>
          (case op_open (tab (m_ops mt)) of
             None \<Rightarrow> Some (s, None)
           | Some opn \<Rightarrow> do {
               (b, n) \<leftarrow> opn (v_block s) (m_priv mt) sub;
               Some (s\<lparr>v_block := b\<rparr>, n) }))"

definition vfs_stat ::
  "('o \<Rightarrow> ('o, 'p, 'f) vfs_fs_ops) \<Rightarrow> ('o, 'p) vfs_state \<Rightarrow> string \<Rightarrow>
   (('o, 'p) vfs_state \<times> (u64 \<times> bool) option) option" where
  "vfs_stat tab s path =
     (case parse_mount_and_sub s path of
        None \<Rightarrow> Some (s, None)
      | Some (mt, sub) \<Rightarrow>
          (case op_stat (tab (m_ops mt)) of
             None \<Rightarrow> Some (s, None)
           | Some st \<Rightarrow> do {
               (b, r) \<leftarrow> st (v_block s) (m_priv mt) sub;
               Some (s\<lparr>v_block := b\<rparr>, r) }))"

definition vfs_read ::
  "('o \<Rightarrow> ('o, 'p, 'f) vfs_fs_ops) \<Rightarrow> ('o, 'p) vfs_state \<Rightarrow> ('o, 'p, 'f) vfs_node option \<Rightarrow>
   u64 \<Rightarrow> u64 \<Rightarrow> u64 \<Rightarrow> (('o, 'p) vfs_state \<times> int) option" where
  "vfs_read tab s n off buf len =
     (case n of None \<Rightarrow> Some (s, -1)
      | Some nd \<Rightarrow> (case op_read (tab (fops nd)) of None \<Rightarrow> Some (s, -1)
          | Some rd \<Rightarrow> do { (b, r) \<leftarrow> rd (v_block s) nd off buf len; Some (s\<lparr>v_block := b\<rparr>, r) }))"

definition vfs_readdir ::
  "('o \<Rightarrow> ('o, 'p, 'f) vfs_fs_ops) \<Rightarrow> ('o, 'p) vfs_state \<Rightarrow> ('o, 'p, 'f) vfs_node option \<Rightarrow>
   u32 \<Rightarrow> u32 \<Rightarrow> int \<times> string" where
  "vfs_readdir tab s n idx maxlen =
     (case n of None \<Rightarrow> (-1, [])
      | Some nd \<Rightarrow> (case op_readdir (tab (fops nd)) of None \<Rightarrow> (-1, [])
          | Some rd \<Rightarrow> rd (v_block s) nd idx maxlen))"

definition vfs_write ::
  "('o \<Rightarrow> ('o, 'p, 'f) vfs_fs_ops) \<Rightarrow> ('o, 'p) vfs_state \<Rightarrow> ('o, 'p, 'f) vfs_node option \<Rightarrow>
   u64 \<Rightarrow> u64 \<Rightarrow> u64 \<Rightarrow> (('o, 'p) vfs_state \<times> ('o, 'p, 'f) vfs_node option \<times> int) option" where
  "vfs_write tab s n off buf len =
     (case n of None \<Rightarrow> Some (s, None, -1)
      | Some nd \<Rightarrow> (case op_write (tab (fops nd)) of None \<Rightarrow> Some (s, Some nd, -1)
          | Some wr \<Rightarrow> do {
              (b, nd', r) \<leftarrow> wr (v_block s) nd off buf len;
              Some (s\<lparr>v_block := b\<rparr>, Some nd', r) }))"

definition vfs_create ::
  "('o \<Rightarrow> ('o, 'p, 'f) vfs_fs_ops) \<Rightarrow> ('o, 'p) vfs_state \<Rightarrow> string \<Rightarrow> u64 \<Rightarrow> (('o, 'p) vfs_state \<times> int) option" where
  "vfs_create tab s path size_hint =
     (case parse_mount_and_sub s path of
        None \<Rightarrow> Some (s, -1)
      | Some (mt, sub) \<Rightarrow>
          (case op_create (tab (m_ops mt)) of None \<Rightarrow> Some (s, -1)
           | Some cr \<Rightarrow> do { (b, r) \<leftarrow> cr (v_block s) (m_priv mt) sub size_hint; Some (s\<lparr>v_block := b\<rparr>, r) }))"

definition vfs_unlink ::
  "('o \<Rightarrow> ('o, 'p, 'f) vfs_fs_ops) \<Rightarrow> ('o, 'p) vfs_state \<Rightarrow> string \<Rightarrow> (('o, 'p) vfs_state \<times> int) option" where
  "vfs_unlink tab s path =
     (case parse_mount_and_sub s path of
        None \<Rightarrow> Some (s, -1)
      | Some (mt, sub) \<Rightarrow>
          (case op_unlink (tab (m_ops mt)) of None \<Rightarrow> Some (s, -1)
           | Some ul \<Rightarrow> do { (b, r) \<leftarrow> ul (v_block s) (m_priv mt) sub; Some (s\<lparr>v_block := b\<rparr>, r) }))"

definition vfs_has_mount :: "('o, 'p) vfs_state \<Rightarrow> string \<Rightarrow> bool" where
  "vfs_has_mount s name = (name \<noteq> [] \<and> find (\<lambda>m. name_eq (mname m) name) (g_mounts s) \<noteq> None)"

definition vfs_mount_count :: "('o, 'p) vfs_state \<Rightarrow> int" where
  "vfs_mount_count s = int (length (g_mounts s))"

definition vfs_get_mount_name :: "('o, 'p) vfs_state \<Rightarrow> int \<Rightarrow> nat \<Rightarrow> string option" where
  "vfs_get_mount_name s idx outn =
     (if idx < 0 \<or> idx \<ge> int (length (g_mounts s)) \<or> outn = 0 then None
      else Some (str_cpy (mname (g_mounts s ! nat idx)) outn))"

definition vfs_list_mounts :: "('o, 'p) vfs_state \<Rightarrow> string" where
  "vfs_list_mounts s = ''Mounts:'' @ [CHR 0x0A] @ concat (map (\<lambda>m. ''  '' @ mname m @ [CHR 0x0A]) (g_mounts s))"

end
