(* ===== verification/Fs_Types.thy ===== *)
theory Fs_Types
  imports Vfs
begin

text \<open>
  The private data of the three file systems of \<open>kernel64/fs\<close>, and the type of pointers to their
  operation tables. The switch hands \<open>fs_priv\<close> and \<open>file_priv\<close> around as \<open>void*\<close>; here they are
  values of datatypes with a constructor per file system.
\<close>

text \<open>\<open>devfs_node_t\<close>: a directory node has no device.\<close>

record devfs_node =
  dn_is_dir :: bool
  dn_name :: string
  dn_size :: u64
  dn_bdev :: "block_device option"

text \<open>\<open>rootfs_node_t\<close>.\<close>

record rootfs_node =
  rn_is_dir :: bool
  rn_name :: string
  rn_size :: u64

text \<open>\<open>exfat_fs_t\<close> and \<open>exfat_node_t\<close>.\<close>

record exfat_fs =
  fs_bdev :: block_device
  fat_offset :: u32
  fat_length :: u32
  cluster_heap_off :: u32
  bytes_per_sector :: u32
  sectors_per_cluster :: u32
  cluster_size :: u32
  root_dir_cluster :: u32

record exfat_node =
  first_cluster :: u32
  en_is_dir :: bool
  en_size :: u64

datatype fs_table = Devfs_Ops | Rootfs_Ops | Exfat_Ops

datatype priv = Priv_Null | Priv_One | Priv_Exfat exfat_fs

datatype fpriv = Dev_Node devfs_node | Root_Node rootfs_node | Exfat_Node exfat_node

type_synonym node = "(fs_table, priv, fpriv) vfs_node"
type_synonym fs_ops = "(fs_table, priv, fpriv) vfs_fs_ops"

definition SIZEOF_VFS_NODE :: u64 where "SIZEOF_VFS_NODE = 24"
definition SIZEOF_DEVFS_NODE :: u64 where "SIZEOF_DEVFS_NODE = 40"
definition SIZEOF_ROOTFS_NODE :: u64 where "SIZEOF_ROOTFS_NODE = 80"
definition SIZEOF_EXFAT_FS :: u64 where "SIZEOF_EXFAT_FS = 40"
definition SIZEOF_EXFAT_NODE :: u64 where "SIZEOF_EXFAT_NODE = 24"

definition path_is_root :: "string \<Rightarrow> bool" where
  "path_is_root sub \<longleftrightarrow> sub = [] \<or> sub = ''/''"

text \<open>\<open>if (*q == '/') ++q\<close>\<close>

definition skip_slash :: "string \<Rightarrow> string" where
  "skip_slash path = (case path of c # q \<Rightarrow> if c = CHR ''/'' then q else path | [] \<Rightarrow> [])"

text \<open>The two allocations with which every \<open>open\<close> starts: the file's private structure, then the
  node; the first is freed when the second fails.\<close>

definition alloc_nodes :: "heap_state \<Rightarrow> u64 \<Rightarrow> (heap_state \<times> (u64 \<times> u64) option) option" where
  "alloc_nodes h n = do {
     (h1, fp) \<leftarrow> kmalloc h n;
     if fp = 0 then Some (h1, None)
     else do {
       (h2, vn) \<leftarrow> kmalloc h1 SIZEOF_VFS_NODE;
       if vn = 0 then do { h3 \<leftarrow> kfree h2 fp; Some (h3, None) }
       else Some (h2, Some (fp, vn)) } }"

definition free_nodes :: "heap_state \<Rightarrow> u64 \<Rightarrow> u64 \<Rightarrow> heap_state option" where
  "free_nodes h a b = do { h1 \<leftarrow> kfree h a; kfree h1 b }"

end
