(* ===== verification/Devfs.thy ===== *)
theory Devfs
  imports Fs_Types
begin

text \<open>
  The device file system (\<open>kernel64/fs/devfs.c\<close>), which shows every block device as a file of its
  bytes, and the root file system (\<open>kernel64/fs/rootfs.c\<close>), which lists two fixed names. Reads and
  writes of a device file go through whole sectors: a partial sector at either end passes
  through a sector-sized buffer from the heap.
\<close>

section \<open>Device files\<close>

definition devfs_mount :: "block_state \<Rightarrow> block_device option \<Rightarrow> string \<Rightarrow> (block_state \<times> int \<times> priv) option" where
  "devfs_mount b bdev mn = Some (b, 0, Priv_One)"

definition devfs_umount :: "block_state \<Rightarrow> priv \<Rightarrow> block_state" where
  "devfs_umount b p = b"

definition dir_node :: devfs_node where
  "dir_node = \<lparr>dn_is_dir = True, dn_name = [], dn_size = 0, dn_bdev = None\<rparr>"

definition device_node :: "block_device \<Rightarrow> devfs_node" where
  "device_node d = \<lparr>dn_is_dir = False, dn_name = take 15 (dev_name d),
     dn_size = sector_count d * ucast (sector_size d), dn_bdev = Some d\<rparr>"

definition devfs_open :: "block_state \<Rightarrow> priv \<Rightarrow> string \<Rightarrow> (block_state \<times> node option) option" where
  "devfs_open b p path = do {
     (h, r) \<leftarrow> alloc_nodes (b_heap b) SIZEOF_DEVFS_NODE;
     case r of
       None \<Rightarrow> Some (b\<lparr>b_heap := h\<rparr>, None)
     | Some (dn, vn) \<Rightarrow>
         let node = (\<lambda>n. \<lparr>fops = Devfs_Ops, fs_priv = p, file_priv = Dev_Node n\<rparr>);
             q = skip_slash path
         in if path = [] \<or> path = ''/'' \<or> q = [] then Some (b\<lparr>b_heap := h\<rparr>, Some (node dir_node))
            else (case block_find b q of
                None \<Rightarrow> do {
                  h' \<leftarrow> free_nodes h dn vn;
                  Some (b\<lparr>b_heap := h'\<rparr>, None) }
              | Some d \<Rightarrow> Some (b\<lparr>b_heap := h\<rparr>, Some (node (device_node d)))) }"

definition devfs_stat :: "block_state \<Rightarrow> priv \<Rightarrow> string \<Rightarrow> (block_state \<times> (u64 \<times> bool) option) option" where
  "devfs_stat b p path =
     (let q = skip_slash path
      in if path_is_root path \<or> q = [] then Some (b, Some (0, True))
         else case block_find b q of
           None \<Rightarrow> Some (b, None)
         | Some d \<Rightarrow> Some (b, Some (sector_count d * ucast (sector_size d), False)))"

text \<open>The result is the return value and, when that is 1, the name stored, cut to \<open>maxlen - 1\<close>
  characters.\<close>

definition devfs_readdir :: "block_state \<Rightarrow> node \<Rightarrow> u32 \<Rightarrow> u32 \<Rightarrow> int \<times> string" where
  "devfs_readdir b n idx maxlen =
     (if maxlen = 0 then (-1, [])
      else case file_priv n of
        Dev_Node dn \<Rightarrow>
          if \<not> dn_is_dir dn then (0, [])
          else if unat idx < length (g_devs b)
          then (1, take (unat maxlen - 1) (dev_name (g_devs b ! unat idx)))
          else (0, [])
      | _ \<Rightarrow> (0, []))"

section \<open>Transfers\<close>

text \<open>One sector through a buffer from the heap: \<open>read_part\<close> copies \<open>n\<close> of its bytes from \<open>at\<close> on to
  \<open>dst\<close>, \<open>write_part\<close> replaces them by those at \<open>src\<close> and writes the sector back. The boolean is
  false when the code returns -1.\<close>

definition read_part ::
  "block_device \<Rightarrow> block_state \<Rightarrow> u64 \<Rightarrow> u64 \<Rightarrow> u64 \<Rightarrow> nat \<Rightarrow> (block_state \<times> bool) option" where
  "read_part d b lba at dst n = do {
     (h1, tmp) \<leftarrow> kmalloc (b_heap b) (ucast (sector_size d));
     if tmp = 0 then Some (b\<lparr>b_heap := h1\<rparr>, False)
     else
       let (m1, r) = dev_read d (b_mem b) lba tmp 1
       in if r \<noteq> 1 then do { h2 \<leftarrow> kfree h1 tmp; Some (b\<lparr>b_mem := m1, b_heap := h2\<rparr>, False) }
          else
            let m2 = copy_bytes m1 dst (tmp + at) n
            in do { h2 \<leftarrow> kfree h1 tmp; Some (b\<lparr>b_mem := m2, b_heap := h2\<rparr>, True) } }"

definition write_part ::
  "block_device \<Rightarrow> block_state \<Rightarrow> u64 \<Rightarrow> u64 \<Rightarrow> u64 \<Rightarrow> nat \<Rightarrow> (block_state \<times> bool) option" where
  "write_part d b lba at src n = do {
     (h1, tmp) \<leftarrow> kmalloc (b_heap b) (ucast (sector_size d));
     if tmp = 0 then Some (b\<lparr>b_heap := h1\<rparr>, False)
     else
       let (m1, r) = dev_read d (b_mem b) lba tmp 1
       in if r \<noteq> 1 then do { h2 \<leftarrow> kfree h1 tmp; Some (b\<lparr>b_mem := m1, b_heap := h2\<rparr>, False) }
          else
            let m2 = copy_bytes m1 (tmp + at) src n;
                (m3, r') = dev_write d m2 lba tmp 1
            in do { h2 \<leftarrow> kfree h1 tmp; Some (b\<lparr>b_mem := m3, b_heap := h2\<rparr>, r' = 1) } }"

text \<open>The whole sectors, at most 128 at a time, with \<open>rw\<close> the driver's read or write; the result also
  has the next sector, the position and what remains. The count is cut to 32 bits before it is
  compared with 128.\<close>

partial_function (option) sector_loop ::
  "(block_device \<Rightarrow> memory \<Rightarrow> u64 \<Rightarrow> u64 \<Rightarrow> u32 \<Rightarrow> memory \<times> int) \<Rightarrow> block_device \<Rightarrow> block_state \<Rightarrow> u64 \<Rightarrow> u64 \<Rightarrow> u64 \<Rightarrow> u64 \<Rightarrow>
   (block_state \<times> (u64 \<times> u64 \<times> u64) option) option" where
  "sector_loop rw d b lba buf pos remaining =
     (let sec = ucast (sector_size d)
      in if remaining \<ge> sec
         then
           let c = ucast (remaining div sec) :: u32;
               cnt = (if c > 128 then 128 else c);
               (m1, r) = rw d (b_mem b) lba (buf + pos) cnt;
               b1 = b\<lparr>b_mem := m1\<rparr>;
               adv = ucast cnt * sec
           in if r \<noteq> c_int cnt then Some (b1, None)
              else sector_loop rw d b1 (lba + ucast cnt) buf (pos + adv) (remaining - adv)
         else Some (b, Some (lba, pos, remaining)))"

text \<open>The three phases of \<open>devfs_read\<close> and \<open>devfs_write\<close>, with \<open>part\<close> for the partial sectors and
  \<open>rw\<close> for the whole ones. The value returned is \<open>(int)pos\<close>.\<close>

definition transfer ::
  "(block_device \<Rightarrow> block_state \<Rightarrow> u64 \<Rightarrow> u64 \<Rightarrow> u64 \<Rightarrow> nat \<Rightarrow> (block_state \<times> bool) option) \<Rightarrow>
   (block_device \<Rightarrow> memory \<Rightarrow> u64 \<Rightarrow> u64 \<Rightarrow> u32 \<Rightarrow> memory \<times> int) \<Rightarrow> block_device \<Rightarrow> block_state \<Rightarrow> u64 \<Rightarrow> u64 \<Rightarrow> u64 \<Rightarrow> (block_state \<times> int) option" where
  "transfer part rw d b off buf len =
     (let sec = ucast (sector_size d) :: u64;
          first_lba = off div sec;
          head_off = off mod sec;
          n = (if head_off = 0 then 0 else if sec - head_off > len then len else sec - head_off)
      in do {
        (b1, ok) \<leftarrow> (if head_off = 0 then Some (b, True) else part d b first_lba head_off buf (unat n));
        if \<not> ok then Some (b1, -1)
        else do {
          (b2, r) \<leftarrow> sector_loop rw d b1 (if head_off = 0 then first_lba else first_lba + 1) buf n (len - n);
          case r of
            None \<Rightarrow> Some (b2, -1)
          | Some (lba, pos, remaining) \<Rightarrow>
              if remaining = 0 then Some (b2, c_int (ucast pos))
              else do {
                (b3, ok) \<leftarrow> part d b2 lba 0 (buf + pos) (unat remaining);
                if \<not> ok then Some (b3, -1)
                else Some (b3, c_int (ucast (pos + remaining))) } } })"

text \<open>The checks and the clipping to the device's size.\<close>

definition devfs_read :: "block_state \<Rightarrow> node \<Rightarrow> u64 \<Rightarrow> u64 \<Rightarrow> u64 \<Rightarrow> (block_state \<times> int) option" where
  "devfs_read b n off buf len =
     (case file_priv n of
        Dev_Node dn \<Rightarrow>
          if buf = 0 \<or> dn_is_dir dn then Some (b, -1)
          else (case dn_bdev dn of
              None \<Rightarrow> Some (b, -1)
            | Some d \<Rightarrow>
                if dev_driver d = No_Ops then Some (b, -1)
                else
                  let e = (if off + len > dn_size dn then dn_size dn else off + len)
                  in if e \<le> off then Some (b, 0)
                     else transfer read_part dev_read d b off buf (e - off))
      | _ \<Rightarrow> None)"

definition devfs_write :: "block_state \<Rightarrow> node \<Rightarrow> u64 \<Rightarrow> u64 \<Rightarrow> u64 \<Rightarrow> (block_state \<times> node \<times> int) option" where
  "devfs_write b n off buf len =
     (case file_priv n of
        Dev_Node dn \<Rightarrow>
          if buf = 0 \<or> dn_is_dir dn then Some (b, n, -1)
          else (case dn_bdev dn of
              None \<Rightarrow> None
            | Some d \<Rightarrow>
                if dev_driver d = No_Ops then None
                else
                  let e = (if off + len > dn_size dn then dn_size dn else off + len)
                  in if e \<le> off then Some (b, n, 0)
                     else do {
                       (b', r) \<leftarrow> transfer write_part dev_write d b off buf (e - off);
                       Some (b', n, r) })
      | _ \<Rightarrow> None)"

definition devfs_ops :: fs_ops where
  "devfs_ops = \<lparr>op_mount = Some devfs_mount, op_umount = Some devfs_umount, op_open = Some devfs_open,
     op_stat = Some devfs_stat, op_read = Some devfs_read, op_readdir = Some devfs_readdir,
     op_write = Some devfs_write, op_create = None, op_unlink = None\<rparr>"

definition devfs_register :: "(fs_table, priv) vfs_state \<Rightarrow> (fs_table, priv) vfs_state" where
  "devfs_register s = fst (vfs_register_fs s ''devfs'' Devfs_Ops)"

section \<open>The root file system\<close>

definition rootfs_mount :: "block_state \<Rightarrow> block_device option \<Rightarrow> string \<Rightarrow> (block_state \<times> int \<times> priv) option" where
  "rootfs_mount b bdev mn = Some (b, 0, Priv_One)"

definition rootfs_umount :: "block_state \<Rightarrow> priv \<Rightarrow> block_state" where
  "rootfs_umount b p = b"

definition rootfs_open :: "block_state \<Rightarrow> priv \<Rightarrow> string \<Rightarrow> (block_state \<times> node option) option" where
  "rootfs_open b p path = do {
     (h, r) \<leftarrow> alloc_nodes (b_heap b) SIZEOF_ROOTFS_NODE;
     case r of
       None \<Rightarrow> Some (b\<lparr>b_heap := h\<rparr>, None)
     | Some (rn, vn) \<Rightarrow>
         if path_is_root path
         then Some (b\<lparr>b_heap := h\<rparr>, Some \<lparr>fops = Rootfs_Ops, fs_priv = p,
                file_priv = Root_Node \<lparr>rn_is_dir = True, rn_name = [], rn_size = 0\<rparr>\<rparr>)
         else do {
           h' \<leftarrow> free_nodes h vn rn;
           Some (b\<lparr>b_heap := h'\<rparr>, None) } }"

definition rootfs_stat :: "block_state \<Rightarrow> priv \<Rightarrow> string \<Rightarrow> (block_state \<times> (u64 \<times> bool) option) option" where
  "rootfs_stat b p path = Some (b, if path_is_root path then Some (0, True) else None)"

definition rootfs_read :: "block_state \<Rightarrow> node \<Rightarrow> u64 \<Rightarrow> u64 \<Rightarrow> u64 \<Rightarrow> (block_state \<times> int) option" where
  "rootfs_read b n off buf len = Some (b, -1)"

definition rootfs_readdir :: "block_state \<Rightarrow> node \<Rightarrow> u32 \<Rightarrow> u32 \<Rightarrow> int \<times> string" where
  "rootfs_readdir b n idx maxlen =
     (if maxlen = 0 then (-1, [])
      else case file_priv n of
        Root_Node rn \<Rightarrow>
          if \<not> rn_is_dir rn then (-1, [])
          else if idx \<ge> 2 then (0, [])
          else (1, take (nat (c_int maxlen - 1)) ([''dev'', ''root''] ! unat idx))
      | _ \<Rightarrow> (-1, []))"

definition rootfs_write :: "block_state \<Rightarrow> node \<Rightarrow> u64 \<Rightarrow> u64 \<Rightarrow> u64 \<Rightarrow> (block_state \<times> node \<times> int) option" where
  "rootfs_write b n off buf len = Some (b, n, -1)"

definition rootfs_ops :: fs_ops where
  "rootfs_ops = \<lparr>op_mount = Some rootfs_mount, op_umount = Some rootfs_umount, op_open = Some rootfs_open,
     op_stat = Some rootfs_stat, op_read = Some rootfs_read, op_readdir = Some rootfs_readdir,
     op_write = Some rootfs_write, op_create = None, op_unlink = None\<rparr>"

definition rootfs_register :: "(fs_table, priv) vfs_state \<Rightarrow> (fs_table, priv) vfs_state" where
  "rootfs_register s = fst (vfs_register_fs s ''rootfs'' Rootfs_Ops)"

end
