(* ===== verification/Heap_Buffers.thy ===== *)
theory Heap_Buffers
  imports Block_Scan
begin

text \<open>
  Temporary buffers: the file systems take a buffer from the heap, use it and free it before they
  return. On a heap without adjacent free blocks this leaves the list of blocks as it was, and the
  buffer lies in the payload of a free block, so it meets nothing that is in use.
\<close>

definition free_bytes :: "blk list \<Rightarrow> u64 set" where
  "free_bytes bs = {x. \<exists>b \<in> set bs. b_free b \<and> b_addr b + 32 \<le> unat x \<and> unat x < b_addr b + 32 + b_size b}"

text \<open>A free block holds \<open>n\<close> bytes.\<close>

definition fits :: "blk list \<Rightarrow> nat \<Rightarrow> bool" where
  "fits bs n \<longleftrightarrow> (\<exists>b \<in> set bs. b_free b \<and> round16 n \<le> b_size b)"

definition heap_at :: "heap_state \<Rightarrow> blk list \<Rightarrow> bool" where
  "heap_at h bs \<longleftrightarrow> heap_inv h bs \<and> coalesced bs"

lemma bytes_at_sub:
  assumes "unat p + n \<le> 2 ^ 64" "x \<in> bytes_at p n"
  shows "unat p \<le> unat x" "unat x < unat p + n"
proof -
  obtain i where i: "i < n" "x = p + of_nat i" using bytes_at_E [OF assms(2)] by blast
  have u: "unat (of_nat i :: u64) = i" using i(1) assms(1) by (intro u64_of_nat_unat) simp
  have "unat x = unat p + i" using i assms(1) u by (simp add: unat_add_small)
  then show "unat p \<le> unat x" "unat x < unat p + n" using i(1) by simp_all
qed

lemma with_buffer:
  assumes h: "heap_at h bs" and n: "n \<noteq> 0" "unat n + 15 < 2 ^ 64" and f: "fits bs (unat n)"
  obtains h1 p h2 where "kmalloc h n = Some (h1, p)" "p \<noteq> 0" "kfree h1 p = Some h2" "heap_at h2 bs"
    "bytes_at p (unat n) \<subseteq> free_bytes bs"
proof -
  have inv: "heap_inv h bs" "coalesced bs" using h by (simp_all add: heap_at_def)
  note t = heap_invD(5,6) [OF inv(1)]
  have "alloc_blocks (round16 (unat n)) bs \<noteq> None" using f by (auto simp: fits_def alloc_blocks_None)
  then obtain h1 p bs' where a: "kmalloc h n = Some (h1, p)" "p \<noteq> 0" "heap_inv h1 bs'"
      "alloc_blocks (round16 (unat n)) bs = Some (unat p, bs')"
    using kmalloc_refines [OF inv(1) n] by (cases "alloc_blocks (round16 (unat n)) bs") auto
  obtain m where "(unat p, m) \<in> live bs'"
    using alloc_blocks_props(2) [OF a(4) t(1)] by (auto simp: round16_def)
  from kfree_refines [OF a(3) this] obtain h2 where h2: "kfree h1 p = Some h2" "heap_inv h2 bs"
    using alloc_free_blocks [OF a(4) t(1) inv(2)] by auto
  obtain b where b: "b \<in> set bs" "unat p = b_addr b + 32" "b_free b" "round16 (unat n) \<le> b_size b"
    using alloc_blocks_Some [OF a(4)] by (metis in_set_conv_decomp)
  have le: "unat n \<le> round16 (unat n)" by (auto simp: round16_def)
  have "unat p + unat n \<le> 2 ^ 64" using tiles_addr [OF t(1) b(1)] b t(2) le by simp
  from bytes_at_sub [OF this] have "bytes_at p (unat n) \<subseteq> free_bytes bs"
    using b le by (fastforce simp: free_bytes_def)
  then show ?thesis using that [OF a(1,2) h2(1)] h2(2) inv(2) by (simp add: heap_at_def)
qed

text \<open>The kernel state apart from memory contents, and the memory outside a set of bytes.\<close>

definition same_outside :: "u64 set \<Rightarrow> block_state \<Rightarrow> block_state \<Rightarrow> bool" where
  "same_outside X b b' \<longleftrightarrow> (\<forall>x. x \<notin> X \<longrightarrow> b_mem b' x = b_mem b x) \<and>
     g_devs b' = g_devs b \<and> b_pmm b' = b_pmm b"

lemma same_outside_refl [simp]: "same_outside X b b"
  by (simp add: same_outside_def)

lemma same_outside_trans:
  "same_outside X b b' \<Longrightarrow> same_outside Y b' b'' \<Longrightarrow> X \<subseteq> Z \<Longrightarrow> Y \<subseteq> Z \<Longrightarrow> same_outside Z b b''"
  unfolding same_outside_def by (metis subsetD)

lemma same_outside_mono: "same_outside X b b' \<Longrightarrow> X \<subseteq> Y \<Longrightarrow> same_outside Y b b'"
  by (auto simp: same_outside_def)

lemma same_outsideD: "same_outside X b b' \<Longrightarrow> x \<notin> X \<Longrightarrow> b_mem b' x = b_mem b x"
  by (auto simp: same_outside_def)

lemma dev_at_bytes: "k < dev_sectors d * dev_ss d \<Longrightarrow> dev_at d k \<in> dev_bytes d"
  by (auto simp: dev_bytes_def)

lemma sectors_image:
  assumes "lba + cnt \<le> dev_sectors d"
  shows "dev_at d ` {lba * dev_ss d..<(lba + cnt) * dev_ss d} \<subseteq> dev_bytes d"
proof -
  have "(lba + cnt) * dev_ss d \<le> dev_sectors d * dev_ss d" using assms by (rule mult_le_mono1)
  then show ?thesis unfolding dev_bytes_def
    by (meson atLeastLessThan_iff image_mono lessThan_iff less_le_trans subsetI)
qed

text \<open>Whole-sector transfers to and from buffers apart from the device.\<close>

lemma dev_read_sectors:
  assumes "dev_ok d" "cnt \<noteq> 0" "unat cnt < 2 ^ 31" "buf \<noteq> 0" "unat lba + unat cnt \<le> dev_sectors d"
    and "bytes_at buf (unat cnt * dev_ss d) \<inter> dev_bytes d = {}"
  obtains m' where "dev_read d m lba buf cnt = (m', int (unat cnt))"
    "\<And>k. k < unat cnt * dev_ss d \<Longrightarrow> m' (buf + of_nat k) = m (dev_at d (unat lba * dev_ss d + k))"
    "\<And>x. x \<notin> bytes_at buf (unat cnt * dev_ss d) \<Longrightarrow> m' x = m x"
proof -
  have "bytes_at buf (unat cnt * dev_ss d) \<inter>
      dev_at d ` {unat lba * dev_ss d..<(unat lba + unat cnt) * dev_ss d} = {}"
    using assms(6) sectors_image [OF assms(5)] by blast
  note r = blk.rd_ok [OF assms(1-5) this, of m]
  have le: "unat cnt * dev_ss d \<le> 2 ^ 64"
    using blk.size_bound [OF assms(1)] assms(5) mult_le_mono1 [of "unat cnt" "dev_sectors d" "dev_ss d"] by linarith
  have "(if buf + of_nat k \<in> bytes_at buf (unat cnt * dev_ss d)
      then m (dev_at d (unat lba * dev_ss d + unat (buf + of_nat k - buf))) else m (buf + of_nat k)) =
      m (dev_at d (unat lba * dev_ss d + k))" if "k < unat cnt * dev_ss d" for k
    using bytes_at_offset [OF that le, of buf] that le by (simp add: u64_of_nat_unat)
  then show ?thesis by (intro that [OF r]) auto
qed

lemma dev_write_sectors:
  assumes "dev_ok d" "dev_writable d" "cnt \<noteq> 0" "unat cnt < 2 ^ 31" "buf \<noteq> 0" "unat lba + unat cnt \<le> dev_sectors d"
    and "bytes_at buf (unat cnt * dev_ss d) \<inter> dev_bytes d = {}"
  obtains m' where "dev_write d m lba buf cnt = (m', int (unat cnt))"
    "\<And>k. k < unat cnt * dev_ss d \<Longrightarrow> m' (dev_at d (unat lba * dev_ss d + k)) = m (buf + of_nat k)"
    "\<And>x. x \<notin> dev_at d ` {unat lba * dev_ss d..<(unat lba + unat cnt) * dev_ss d} \<Longrightarrow> m' x = m x"
proof -
  have "bytes_at buf (unat cnt * dev_ss d) \<inter>
      dev_at d ` {unat lba * dev_ss d..<(unat lba + unat cnt) * dev_ss d} = {}"
    using assms(7) sectors_image [OF assms(6)] by blast
  from blk.wr_ok [OF assms(1-6) this, of m] show ?thesis using that by blast
qed

end
