(* ===== verification/Sector_Runs.thy ===== *)
theory Sector_Runs
  imports Heap_Buffers
begin

text \<open>
  Runs of sectors in a buffer from the heap, as the device file system (one sector) and the exFAT
  driver (one cluster) use them: a run is read into the buffer, a part of it is copied out, or a
  part is replaced and the run is written back. \<open>moved_in\<close> and \<open>moved_out\<close> say which bytes then went
  from the device to a buffer and back.
\<close>

section \<open>Buffers\<close>

text \<open>A buffer of \<open>n\<close> bytes apart from the device and from the free part of the heap.\<close>

definition clear :: "block_device \<Rightarrow> blk list \<Rightarrow> u64 \<Rightarrow> nat \<Rightarrow> bool" where
  "clear d bs a n \<longleftrightarrow> a \<noteq> 0 \<and> unat a + n \<le> 2 ^ 64 \<and> bytes_at a n \<inter> (dev_bytes d \<union> free_bytes bs) = {}"

lemma clear_part:
  assumes "clear d bs a n" "k + j \<le> n" "0 < j"
  shows "clear d bs (a + of_nat k) j"
proof -
  have n: "unat a + n \<le> 2 ^ 64" "a \<noteq> 0" using assms(1) by (simp_all add: clear_def)
  then have a: "0 < unat a" by (simp add: unat_gt_0)
  have k: "unat (of_nat k :: u64) = k" using assms(2,3) n a by (intro u64_of_nat_unat) simp
  have u: "unat (a + of_nat k) = unat a + k" using k n assms(2,3) by (subst unat_add_small) simp_all
  have "bytes_at (a + of_nat k) j \<subseteq> bytes_at a n"
    using n assms(2) k by (intro bytes_at_part) simp_all
  moreover have "a + of_nat k \<noteq> 0" using u a by (metis add_gr_0 less_irrefl unat_0)
  ultimately show ?thesis using assms(1,2) u unfolding clear_def by auto
qed

lemma clear_le: "clear d bs a n \<Longrightarrow> j \<le> n \<Longrightarrow> clear d bs a j"
proof -
  assume c: "clear d bs a n" and j: "j \<le> n"
  have "bytes_at a j \<subseteq> bytes_at a n" using j by (auto simp: bytes_at_def)
  then show ?thesis using c j unfolding clear_def by auto
qed

lemma clear_later:
  assumes "unat a + (n + n') \<le> 2 ^ 64" "k < n"
  shows "a + of_nat k \<notin> bytes_at (a + of_nat n) n'"
proof
  assume x: "a + of_nat k \<in> bytes_at (a + of_nat n) n'"
  have l: "unat (of_nat k :: u64) = k" using assms by (intro u64_of_nat_unat) simp
  have uk: "unat (a + of_nat k) = unat a + k" using l assms by (subst unat_add_small) simp_all
  show False
  proof (cases "n' = 0")
    case True
    then show False using x by (simp add: bytes_at_def)
  next
    case False
    then have ln: "unat (of_nat n :: u64) = n" using assms by (intro u64_of_nat_unat) simp
    have "unat (a + of_nat n) = unat a + n" using ln assms False by (subst unat_add_small) simp_all
    then show False using bytes_at_sub(1) [OF _ x] uk assms by simp
  qed
qed

section \<open>Bytes moved\<close>

text \<open>A well-formed device that does not lie in the free part of the heap.\<close>

definition apart :: "block_device \<Rightarrow> blk list \<Rightarrow> bool" where
  "apart d bs \<longleftrightarrow> dev_ok d \<and> dev_bytes d \<inter> free_bytes bs = {}"

definition moved_in :: "block_device \<Rightarrow> blk list \<Rightarrow> block_state \<Rightarrow> nat \<Rightarrow> u64 \<Rightarrow> nat \<Rightarrow> block_state \<Rightarrow> bool" where
  "moved_in d bs b k a n b' \<longleftrightarrow> same_outside (bytes_at a n \<union> free_bytes bs) b b' \<and>
     (\<forall>i < n. b_mem b' (a + of_nat i) = b_mem b (dev_at d (k + i)))"

definition moved_out :: "block_device \<Rightarrow> blk list \<Rightarrow> block_state \<Rightarrow> nat \<Rightarrow> u64 \<Rightarrow> nat \<Rightarrow> block_state \<Rightarrow> bool" where
  "moved_out d bs b k a n b' \<longleftrightarrow> same_outside (dev_at d ` {k..<k + n} \<union> free_bytes bs) b b' \<and>
     (\<forall>i < n. b_mem b' (dev_at d (k + i)) = b_mem b (a + of_nat i))"

lemma bytes_at_empty [simp]: "bytes_at a 0 = {}"
  by (simp add: bytes_at_def)

lemma clear_first:
  assumes "clear d bs a (n + n')" "k + n + n' \<le> dev_sectors d * dev_ss d" "i < n"
  shows "a + of_nat i \<notin> bytes_at (a + of_nat n) n'" "a + of_nat i \<notin> free_bytes bs" "a + of_nat i \<notin> dev_bytes d"
    "dev_at d (k + i) \<in> dev_bytes d"
proof -
  have le: "unat a + (n + n') \<le> 2 ^ 64" using assms(1) by (simp add: clear_def)
  then show "a + of_nat i \<notin> bytes_at (a + of_nat n) n'" using assms(3) by (rule clear_later)
  have "a + of_nat i \<in> bytes_at a (n + n')" using assms(3) le by (intro bytes_at_offset) simp_all
  then show "a + of_nat i \<notin> free_bytes bs" "a + of_nat i \<notin> dev_bytes d" using assms(1) by (auto simp: clear_def)
  show "dev_at d (k + i) \<in> dev_bytes d" using assms(2,3) by (intro dev_at_bytes) simp
qed

lemma bytes_at_append:
  assumes "unat a + (n + n') \<le> 2 ^ 64"
  shows "bytes_at a n \<union> bytes_at (a + of_nat n) n' \<subseteq> bytes_at a (n + n')"
proof (cases "n' = 0")
  case False
  then have "unat (of_nat n :: u64) = n" using assms by (intro u64_of_nat_unat) simp
  then have "bytes_at (a + of_nat n) n' \<subseteq> bytes_at a (n + n')" using assms by (intro bytes_at_part) simp_all
  moreover have "bytes_at a n \<subseteq> bytes_at a (n + n')" by (auto simp: bytes_at_def)
  ultimately show ?thesis by blast
qed simp

lemma moved_in_trans:
  assumes g: "apart d bs" and cl: "clear d bs a (n + n')" and k: "k + n + n' \<le> dev_sectors d * dev_ss d"
    and m1: "moved_in d bs b k a n b1" and m2: "moved_in d bs b1 (k + n) (a + of_nat n) n' b2"
  shows "moved_in d bs b k a (n + n') b2"
proof -
  have so: "same_outside (bytes_at a n \<union> free_bytes bs) b b1"
    "same_outside (bytes_at (a + of_nat n) n' \<union> free_bytes bs) b1 b2"
    using m1 m2 by (simp_all add: moved_in_def)
  have le: "unat a + (n + n') \<le> 2 ^ 64" using cl by (simp add: clear_def)
  have "same_outside (bytes_at a (n + n') \<union> free_bytes bs) b b2"
    using bytes_at_append [OF le] by (intro same_outside_trans [OF so]) blast+
  moreover have "b_mem b2 (a + of_nat i) = b_mem b (dev_at d (k + i))" if i: "i < n + n'" for i
  proof (cases "i < n")
    case True
    have "b_mem b2 (a + of_nat i) = b_mem b1 (a + of_nat i)"
      using clear_first(1,2) [OF cl k True] by (intro same_outsideD [OF so(2)]) simp
    then show ?thesis using m1 True by (simp add: moved_in_def)
  next
    case False
    define j where "j = i - n"
    have j: "i = n + j" "j < n'" using False i by (simp_all add: j_def)
    have "b_mem b2 (a + of_nat n + of_nat j) = b_mem b1 (dev_at d (k + n + j))"
      using m2 j(2) unfolding moved_in_def by blast
    moreover have "dev_at d (k + n + j) \<in> dev_bytes d" using k j(2) by (intro dev_at_bytes) simp
    then have "dev_at d (k + n + j) \<notin> bytes_at a n \<union> free_bytes bs"
      using cl g bytes_at_append [OF le] by (auto simp: clear_def apart_def)
    then have "b_mem b1 (dev_at d (k + n + j)) = b_mem b (dev_at d (k + n + j))" by (rule same_outsideD [OF so(1)])
    ultimately show ?thesis using j(1) by (simp add: add.assoc)
  qed
  ultimately show ?thesis by (simp add: moved_in_def)
qed

lemma moved_out_trans:
  assumes g: "apart d bs" and cl: "clear d bs a (n + n')" and k: "k + n + n' \<le> dev_sectors d * dev_ss d"
    and m1: "moved_out d bs b k a n b1" and m2: "moved_out d bs b1 (k + n) (a + of_nat n) n' b2"
  shows "moved_out d bs b k a (n + n') b2"
proof -
  have so: "same_outside (dev_at d ` {k..<k + n} \<union> free_bytes bs) b b1"
    "same_outside (dev_at d ` {k + n..<k + n + n'} \<union> free_bytes bs) b1 b2"
    using m1 m2 by (simp_all add: moved_out_def)
  have inj: "inj_on (dev_at d) {..<dev_sectors d * dev_ss d}" using g by (intro dev_at_inj) (simp add: apart_def)
  have "same_outside (dev_at d ` {k..<k + (n + n')} \<union> free_bytes bs) b b2"
    by (rule same_outside_trans [OF so]) auto
  moreover have "b_mem b2 (dev_at d (k + i)) = b_mem b (a + of_nat i)" if i: "i < n + n'" for i
  proof (cases "i < n")
    case True
    have "dev_at d (k + i) \<notin> dev_at d ` {k + n..<k + n + n'}"
    proof
      assume "dev_at d (k + i) \<in> dev_at d ` {k + n..<k + n + n'}"
      then obtain x where x: "dev_at d (k + i) = dev_at d x" "k + n \<le> x" "x < k + n + n'" by auto
      then have "k + i = x" using k True by (intro inj_onD [OF inj]) simp_all
      then show False using x True by simp
    qed
    moreover have "dev_at d (k + i) \<notin> free_bytes bs"
      using clear_first(4) [OF cl k True] g by (auto simp: apart_def)
    ultimately have "b_mem b2 (dev_at d (k + i)) = b_mem b1 (dev_at d (k + i))"
      by (intro same_outsideD [OF so(2)]) simp
    then show ?thesis using m1 True by (simp add: moved_out_def)
  next
    case False
    define j where "j = i - n"
    have j: "i = n + j" "j < n'" using False i by (simp_all add: j_def)
    have "b_mem b2 (dev_at d (k + n + j)) = b_mem b1 (a + of_nat n + of_nat j)"
      using m2 j(2) unfolding moved_out_def by blast
    moreover have "a + of_nat n + of_nat j \<notin> dev_bytes d \<union> free_bytes bs"
    proof -
      have "unat a + (n + n') \<le> 2 ^ 64" using cl by (simp add: clear_def)
      then have "a + of_nat (n + j) \<in> bytes_at a (n + n')" using j(2) by (intro bytes_at_offset) simp_all
      then show ?thesis using cl by (auto simp: clear_def add.assoc)
    qed
    then have "b_mem b1 (a + of_nat n + of_nat j) = b_mem b (a + of_nat n + of_nat j)"
      using k by (intro same_outsideD [OF so(1)]) (auto intro!: dev_at_bytes)
    ultimately show ?thesis using j(1) by (simp add: add.assoc)
  qed
  ultimately show ?thesis by (simp add: moved_out_def)
qed

section \<open>A run of sectors in a buffer\<close>

lemma run_buffer:
  assumes g: "apart d bs" and h: "heap_at (b_heap b) bs"
    and sz: "unat sz = unat cnt * dev_ss d" "sz \<noteq> 0" "unat sz + 15 < 2 ^ 64" "fits bs (unat sz)"
    and c: "unat cnt < 2 ^ 31" "unat lba + unat cnt \<le> dev_sectors d"
  obtains h1 tmp h2 m1 where "kmalloc (b_heap b) sz = Some (h1, tmp)" "tmp \<noteq> 0"
    "kfree h1 tmp = Some h2" "heap_at h2 bs" "dev_read d (b_mem b) lba tmp cnt = (m1, int (unat cnt))"
    "\<And>k. k < unat sz \<Longrightarrow> m1 (tmp + of_nat k) = b_mem b (dev_at d (unat lba * dev_ss d + k))"
    "\<And>x. x \<notin> free_bytes bs \<Longrightarrow> m1 x = b_mem b x" "bytes_at tmp (unat sz) \<subseteq> free_bytes bs"
proof -
  obtain h1 tmp h2 where t: "kmalloc (b_heap b) sz = Some (h1, tmp)" "tmp \<noteq> 0"
    "kfree h1 tmp = Some h2" "heap_at h2 bs" "bytes_at tmp (unat sz) \<subseteq> free_bytes bs"
    using with_buffer [OF h sz(2,3,4)] by blast
  have dj: "bytes_at tmp (unat cnt * dev_ss d) \<inter> dev_bytes d = {}" using t(5) g sz(1) by (auto simp: apart_def)
  have ok: "dev_ok d" using g by (simp add: apart_def)
  have cnt: "cnt \<noteq> 0" using sz(1,2) by (auto simp: unat_eq_zero)
  obtain m1 where m1: "dev_read d (b_mem b) lba tmp cnt = (m1, int (unat cnt))"
    "\<And>k. k < unat cnt * dev_ss d \<Longrightarrow> m1 (tmp + of_nat k) = b_mem b (dev_at d (unat lba * dev_ss d + k))"
    "\<And>x. x \<notin> bytes_at tmp (unat cnt * dev_ss d) \<Longrightarrow> m1 x = b_mem b x"
    using dev_read_sectors [OF ok cnt c(1) t(2) c(2) dj, of "b_mem b"] by blast
  show ?thesis using that [OF t(1-4) m1(1)] m1(2,3) t(5) sz(1) by auto
qed

text \<open>Copying a part of the run out of the buffer.\<close>

lemma copy_out:
  assumes m1: "\<And>k. k < N \<Longrightarrow> m1 (tmp + of_nat k) = b_mem b (dev_at d (base + k))" "\<And>x. x \<notin> free_bytes bs \<Longrightarrow> m1 x = b_mem b x"
    and sub: "bytes_at tmp N \<subseteq> free_bytes bs" "N < 2 ^ 64" and n: "unat at + n \<le> N" and cl: "clear d bs a n"
  shows "moved_in d bs b (base + unat at) a n (b\<lparr>b_mem := copy_bytes m1 a (tmp + at) n, b_heap := h\<rparr>)"
proof -
  have src: "bytes_at (tmp + at) n \<subseteq> free_bytes bs" using bytes_at_part [OF n] sub by fastforce
  have dj: "bytes_at a n \<inter> bytes_at (tmp + at) n = {}" using cl src unfolding clear_def by blast
  let ?m2 = "copy_bytes m1 a (tmp + at) n"
  have c: "?m2 x = (if x \<in> bytes_at a n then m1 (tmp + at + (x - a)) else m1 x)" for x
    using n sub(2) by (intro copy_bytes_apply [OF _ dj]) simp
  have data: "?m2 (a + of_nat i) = b_mem b (dev_at d (base + unat at + i))" if i: "i < n" for i
  proof -
    have "a + of_nat i \<in> bytes_at a n" using i n sub(2) by (intro bytes_at_offset) simp_all
    then have "?m2 (a + of_nat i) = m1 (tmp + of_nat (unat at + i))" unfolding c by (simp add: add.assoc)
    also have "\<dots> = b_mem b (dev_at d (base + (unat at + i)))" using i n by (intro m1(1)) simp
    finally show ?thesis by (simp only: add.assoc)
  qed
  show ?thesis unfolding moved_in_def same_outside_def using data c m1(2) by simp
qed

text \<open>Replacing a part of the run in the buffer.\<close>

lemma patch_in:
  assumes m1: "\<And>k. k < N \<Longrightarrow> m1 (tmp + of_nat k) = m (dev_at d (base + k))" "\<And>x. x \<notin> free_bytes bs \<Longrightarrow> m1 x = m x"
    and sub: "bytes_at tmp N \<subseteq> free_bytes bs" "N < 2 ^ 64" and n: "unat at + n \<le> N" and cl: "clear d bs a n"
  shows "j < N \<Longrightarrow> copy_bytes m1 (tmp + at) a n (tmp + of_nat j) =
      (if unat at \<le> j \<and> j < unat at + n then m (a + of_nat (j - unat at)) else m (dev_at d (base + j)))"
    "x \<notin> free_bytes bs \<Longrightarrow> copy_bytes m1 (tmp + at) a n x = m x"
proof -
  have dst: "bytes_at (tmp + at) n \<subseteq> free_bytes bs" using bytes_at_part [OF n] sub by fastforce
  have dj: "bytes_at (tmp + at) n \<inter> bytes_at a n = {}" using cl dst unfolding clear_def by blast
  have c: "copy_bytes m1 (tmp + at) a n x = (if x \<in> bytes_at (tmp + at) n then m1 (a + (x - (tmp + at))) else m1 x)" for x
    using n sub(2) by (intro copy_bytes_apply [OF _ dj]) simp
  show "copy_bytes m1 (tmp + at) a n x = m x" if "x \<notin> free_bytes bs" using dst that m1(2) unfolding c by auto
  assume j: "j < N"
  have u: "unat (of_nat j :: u64) = j" using j sub(2) by (intro u64_of_nat_unat) simp
  have e: "tmp + of_nat j - (tmp + at) = of_nat j - at" by simp
  show "copy_bytes m1 (tmp + at) a n (tmp + of_nat j) =
      (if unat at \<le> j \<and> j < unat at + n then m (a + of_nat (j - unat at)) else m (dev_at d (base + j)))"
  proof (cases "unat at \<le> j")
    case True
    have w: "of_nat j - at = of_nat (j - unat at)" using True by (simp add: of_nat_diff)
    have "unat (of_nat (j - unat at) :: u64) = j - unat at" using j sub(2) by (intro u64_of_nat_unat) simp
    then have "tmp + of_nat j \<in> bytes_at (tmp + at) n \<longleftrightarrow> j < unat at + n"
      using True unfolding bytes_at_def mem_Collect_eq e w by auto
    moreover have "a + of_nat (j - unat at) \<notin> free_bytes bs" if "j < unat at + n"
    proof -
      have "a + of_nat (j - unat at) \<in> bytes_at a n" using that True n sub(2) by (intro bytes_at_offset) simp_all
      then show ?thesis using cl by (auto simp: clear_def)
    qed
    ultimately show ?thesis unfolding c e w using True m1 j by simp
  next
    case False
    have "unat (of_nat j - at) = 2 ^ 64 + j - unat at" using False u j sub(2) by (simp add: unat_sub_if')
    then have "tmp + of_nat j \<notin> bytes_at (tmp + at) n" using n sub(2) False unfolding bytes_at_def mem_Collect_eq e by simp
    then show ?thesis unfolding c using False m1(1) [OF j] by simp
  qed
qed

text \<open>Writing a run back of which only \<open>n\<close> bytes from \<open>at\<close> on are new.\<close>

lemma write_back:
  assumes g: "apart d bs" "dev_writable d" and c: "cnt \<noteq> 0" "unat cnt < 2 ^ 31" "unat lba + unat cnt \<le> dev_sectors d"
    and t: "tmp \<noteq> 0" "bytes_at tmp (unat cnt * dev_ss d) \<subseteq> free_bytes bs"
    and m2: "\<And>j. j < unat cnt * dev_ss d \<Longrightarrow> m2 (tmp + of_nat j) =
      (if at \<le> j \<and> j < at + n then b_mem b (a + of_nat (j - at)) else b_mem b (dev_at d (unat lba * dev_ss d + j)))"
    "\<And>x. x \<notin> free_bytes bs \<Longrightarrow> m2 x = b_mem b x" and n: "at + n \<le> unat cnt * dev_ss d"
  obtains m3 where "dev_write d m2 lba tmp cnt = (m3, int (unat cnt))"
    "\<And>h. moved_out d bs b (unat lba * dev_ss d + at) a n (b\<lparr>b_mem := m3, b_heap := h\<rparr>)"
proof -
  let ?B = "unat lba * dev_ss d" and ?N = "unat cnt * dev_ss d"
  have ok: "dev_ok d" "bytes_at tmp ?N \<inter> dev_bytes d = {}" using g(1) t(2) by (auto simp: apart_def)
  obtain m3 where m3: "dev_write d m2 lba tmp cnt = (m3, int (unat cnt))"
    "\<And>k. k < ?N \<Longrightarrow> m3 (dev_at d (?B + k)) = m2 (tmp + of_nat k)"
    "\<And>x. x \<notin> dev_at d ` {?B..<(unat lba + unat cnt) * dev_ss d} \<Longrightarrow> m3 x = m2 x"
    using dev_write_sectors [OF ok(1) g(2) c(1,2) t(1) c(3) ok(2), of m2] by blast
  have data: "m3 (dev_at d (?B + at + i)) = b_mem b (a + of_nat i)" if i: "i < n" for i
    using m3(2) [of "at + i"] m2(1) [of "at + i"] i n by (simp add: add.assoc)
  have keep: "m3 x = b_mem b x" if x: "x \<notin> dev_at d ` {?B + at..<?B + at + n}" "x \<notin> free_bytes bs" for x
  proof (cases "x \<in> dev_at d ` {?B..<(unat lba + unat cnt) * dev_ss d}")
    case True
    then obtain k where k: "x = dev_at d k" "?B \<le> k" "k < ?B + ?N" by (auto simp: add_mult_distrib)
    define j where "j = k - ?B"
    have kj: "k = ?B + j" "j < ?N" using k by (simp_all add: j_def)
    have "\<not> (at \<le> j \<and> j < at + n)" using x(1) k(1) kj(1) by auto
    then show ?thesis using m3(2) [OF kj(2)] m2(1) [OF kj(2)] k(1) kj(1) by auto
  qed (use m3(3) m2(2) x(2) in simp)
  have "moved_out d bs b (?B + at) a n (b\<lparr>b_mem := m3, b_heap := h\<rparr>)" for h
    unfolding moved_out_def same_outside_def using data keep by simp
  then show ?thesis using that m3(1) by blast
qed

end
