(* ===== verification/Vfs_Correct.thy ===== *)
theory Vfs_Correct
  imports Vfs
begin

text \<open>
  The mount table as a map from names to mounted file systems: what a mount adds, what an
  unmount takes away, how paths are routed, and the effect of names longer than 7 characters.
\<close>

section \<open>The tables\<close>

definition vfs_ok :: "('o, 'p) vfs_state \<Rightarrow> bool" where
  "vfs_ok s \<longleftrightarrow> length (g_fs s) \<le> MAX_FS \<and> length (g_mounts s) \<le> MAX_MOUNTS \<and>
     (\<forall>f \<in> set (g_fs s). length (fs_name f) \<le> 7) \<and> (\<forall>m \<in> set (g_mounts s). length (mname m) \<le> 7)"

lemma find_mount_eq: "find_mount s k = find (\<lambda>m. mname m = k) (g_mounts s)"
  by (simp add: find_mount_def name_eq_iff)

lemma find_append: "find P (xs @ ys) = (case find P xs of None \<Rightarrow> find P ys | Some x \<Rightarrow> Some x)"
  by (induction xs) auto

lemma find_mount_None: "find_mount s k = None \<longleftrightarrow> k \<notin> mname ` set (g_mounts s)"
  by (auto simp: find_mount_eq find_None_iff)

text \<open>A successful mount: the file system found, its mount function's result, the new entry.\<close>

lemma vfs_mount_ok:
  assumes "vfs_mount tab priv1 s fsn m dev = Some (s', 0)"
  obtains f b priv where "find (\<lambda>f. fs_name f = fsn) (g_fs s) = Some f"
    "(case op_mount (tab (fs_ops f)) of None \<Rightarrow> Some (v_block s, 0, priv1)
      | Some mnt \<Rightarrow> mnt (v_block s) (if dev = [] then None else block_find (v_block s) dev) m) = Some (b, 0, priv)"
    "s' = s\<lparr>v_block := b, g_mounts := g_mounts s @ [\<lparr>mname = take 7 m, m_ops = fs_ops f, m_priv = priv\<rparr>]\<rparr>"
    "length (g_mounts s) < MAX_MOUNTS"
  using assms that
  by (fastforce simp: vfs_mount_def name_eq_iff str_cpy_def Let_def bind_eq_Some_conv
    split: if_splits option.splits)

lemma find_mname: "find (\<lambda>m. mname m = k) ms = Some m \<Longrightarrow> mname m = k"
  by (auto simp: find_Some_iff)

lemma umount_loop_eq:
  "umount_loop tab b ms k = (case find (\<lambda>m. mname m = k) ms of
      None \<Rightarrow> (b, ms, -1)
    | Some m \<Rightarrow> (case op_umount (tab (m_ops m)) of None \<Rightarrow> b | Some um \<Rightarrow> um b (m_priv m), remove1 m ms, 0))"
proof (induction ms)
  case (Cons a ms)
  show ?case
  proof (cases "mname a = k")
    case True
    then show ?thesis by (simp add: name_eq_iff)
  next
    case False
    then have "m \<noteq> a" if "find (\<lambda>m. mname m = k) ms = Some m" for m using find_mname [OF that] by metis
    then show ?thesis using Cons False by (cases "find (\<lambda>m. mname m = k) ms") (simp_all add: name_eq_iff)
  qed
qed simp

lemma find_remove1:
  assumes "find (\<lambda>m. mname m = k) ms = Some x" "j \<noteq> k"
  shows "find (\<lambda>m. mname m = j) (remove1 x ms) = find (\<lambda>m. mname m = j) ms"
  using assms find_mname [OF assms(1)] by (induction ms) (auto split: if_splits)

definition mounted :: "('o, 'p) vfs_state \<Rightarrow> string \<Rightarrow> 'o \<times> 'p \<Rightarrow> ('o, 'p) vfs_state \<Rightarrow> bool" where
  "mounted s n e s' \<longleftrightarrow> g_mounts s' = g_mounts s @ [\<lparr>mname = take 7 n, m_ops = fst e, m_priv = snd e\<rparr>]"

definition unmounted :: "('o, 'p) vfs_state \<Rightarrow> string \<Rightarrow> ('o, 'p) vfs_state \<Rightarrow> bool" where
  "unmounted s n s' \<longleftrightarrow> (\<exists>m. find_mount s n = Some m \<and> g_mounts s' = remove1 m (g_mounts s))"

definition lookup_mount :: "('o, 'p) vfs_state \<Rightarrow> string \<Rightarrow> ('o \<times> 'p) option" where
  "lookup_mount s n = map_option (\<lambda>m. (m_ops m, m_priv m)) (find_mount s n)"

section \<open>The contract of the mount table\<close>

locale mount_table =
  fixes lookup :: "'s \<Rightarrow> string \<Rightarrow> 'e option"
    and added :: "'s \<Rightarrow> string \<Rightarrow> 'e \<Rightarrow> 's \<Rightarrow> bool"
    and removed :: "'s \<Rightarrow> string \<Rightarrow> 's \<Rightarrow> bool"
    and key :: "string \<Rightarrow> string"
  assumes added_lookup: "added s n e s' \<Longrightarrow>
      lookup s' k = (case lookup s k of Some x \<Rightarrow> Some x | None \<Rightarrow> if k = key n then Some e else None)"
    and removed_other: "removed s n s' \<Longrightarrow> k \<noteq> n \<Longrightarrow> lookup s' k = lookup s k"
    and removed_undoes: "added s n e s' \<Longrightarrow> lookup s (key n) = None \<Longrightarrow> removed s' (key n) s'' \<Longrightarrow> lookup s'' k = lookup s k"
begin

lemma added_new: "added s n e s' \<Longrightarrow> lookup s (key n) = None \<Longrightarrow> lookup s' (key n) = Some e"
  using added_lookup by simp

lemma added_keeps: "added s n e s' \<Longrightarrow> lookup s k = Some x \<Longrightarrow> lookup s' k = Some x"
  using added_lookup by simp

lemma shadowed: "added s n e s' \<Longrightarrow> lookup s (key n) = Some x \<Longrightarrow> lookup s' k = lookup s k"
  using added_lookup [of s n e s' k] by (auto split: option.splits)

end

lemma mounted_lookup:
  assumes "mounted s n e s'"
  shows "lookup_mount s' k =
    (case lookup_mount s k of Some x \<Rightarrow> Some x | None \<Rightarrow> if k = take 7 n then Some e else None)"
  using assms by (cases e) (auto simp: lookup_mount_def mounted_def find_mount_eq find_append split: option.splits)

lemma remove_added:
  assumes "mounted s n e s'" "find_mount s (take 7 n) = None" "find_mount s' (take 7 n) = Some m"
  shows "remove1 m (g_mounts s') = g_mounts s"
proof -
  let ?e = "\<lparr>mname = take 7 n, m_ops = fst e, m_priv = snd e\<rparr>"
  have "m = ?e" using assms by (auto simp: mounted_def find_mount_eq find_append)
  moreover have "?e \<notin> set (g_mounts s)" using assms(2) unfolding find_mount_None by force
  ultimately show ?thesis using assms(1) by (simp add: mounted_def remove1_append)
qed

interpretation mnt: mount_table lookup_mount mounted unmounted "take 7"
proof
  fix s n e k and s' s'' :: "('o, 'p) vfs_state"
  assume m: "mounted s n e s'"
  then show "lookup_mount s' k =
      (case lookup_mount s k of Some x \<Rightarrow> Some x | None \<Rightarrow> if k = take 7 n then Some e else None)"
    by (rule mounted_lookup)
  assume "lookup_mount s (take 7 n) = None" "unmounted s' (take 7 n) s''"
  then show "lookup_mount s'' k = lookup_mount s k"
    using remove_added [OF m] by (auto simp: lookup_mount_def unmounted_def find_mount_eq)
next
  fix s n k and s' :: "('o, 'p) vfs_state"
  assume "unmounted s n s'" "k \<noteq> n"
  then show "lookup_mount s' k = lookup_mount s k"
    using find_remove1 by (fastforce simp: unmounted_def lookup_mount_def find_mount_eq)
qed

lemma vfs_mount_mounted:
  assumes "vfs_mount tab priv1 s fsn m dev = Some (s', 0)"
  obtains e where "mounted s m e s'"
proof (rule vfs_mount_ok [OF assms])
  fix f b priv
  assume "s' = s\<lparr>v_block := b, g_mounts := g_mounts s @ [\<lparr>mname = take 7 m, m_ops = fs_ops f, m_priv = priv\<rparr>]\<rparr>"
  then have "mounted s m (fs_ops f, priv) s'" by (simp add: mounted_def)
  then show thesis by (rule that)
qed

lemma vfs_umount_eq:
  "vfs_umount tab s k = (case find_mount s k of
      None \<Rightarrow> (s, -1)
    | Some m \<Rightarrow> (s\<lparr>v_block := (case op_umount (tab (m_ops m)) of None \<Rightarrow> v_block s | Some um \<Rightarrow> um (v_block s) (m_priv m)),
        g_mounts := remove1 m (g_mounts s)\<rparr>, 0))"
  by (simp add: vfs_umount_def umount_loop_eq find_mount_eq split: option.splits)

lemma parse_path:
  assumes "CHR '':'' \<notin> set m"
  shows "parse_mount_and_sub s (m @ CHR '':'' # sub) = map_option (\<lambda>mt. (mt, sub)) (find_mount s (take 7 m))"
proof -
  have "takeWhile (\<lambda>c. c \<noteq> CHR '':'') (m @ CHR '':'' # sub) = m" using assms by (subst takeWhile_append2) auto
  moreover have "dropWhile (\<lambda>c. c \<noteq> CHR '':'') (m @ CHR '':'' # sub) = CHR '':'' # sub"
    using assms by (subst dropWhile_append2) auto
  ultimately show ?thesis by (simp add: parse_mount_and_sub_def Let_def)
qed

text \<open>The sizes of the tables and of the names in them are kept by every operation.\<close>

lemma vfs_ok_ops:
  assumes "vfs_ok s"
  shows "vfs_ok (fst (vfs_register_fs s name ops))"
    and "vfs_mount tab priv1 s fsn m dev = Some (s', rc) \<Longrightarrow> vfs_ok s'"
    and "vfs_ok (fst (vfs_umount tab s k))"
proof -
  show "vfs_ok (fst (vfs_register_fs s name ops))"
    using assms by (auto simp: vfs_register_fs_def vfs_ok_def str_cpy_def)
  show "vfs_ok s'" if "vfs_mount tab priv1 s fsn m dev = Some (s', rc)"
    using assms that by (auto simp: vfs_mount_def vfs_ok_def str_cpy_def Let_def bind_eq_Some_conv
      split: if_splits option.splits)
  show "vfs_ok (fst (vfs_umount tab s k))"
    using assms by (auto simp: vfs_umount_eq vfs_ok_def length_remove1 dest: notin_set_remove1 split: option.splits)
qed

end
