(* ===== verification/Devfs_Correct.thy ===== *)
theory Devfs_Correct
  imports Devfs Sector_Runs Vfs_Correct
begin

text \<open>
  Device files as byte arrays: a read or write at any offset moves exactly the bytes of the
  device it names, whatever the sector boundaries. The three phases of a transfer are verified
  once, in a locale over the partial-sector and whole-sector steps, and the locale is interpreted
  for reading and for writing.
\<close>

section \<open>Transfers by phases\<close>

locale sector_transfer =
  fixes good :: "block_device \<Rightarrow> blk list \<Rightarrow> bool"
    and part :: "block_device \<Rightarrow> block_state \<Rightarrow> u64 \<Rightarrow> u64 \<Rightarrow> u64 \<Rightarrow> nat \<Rightarrow> (block_state \<times> bool) option"
    and rw :: "block_device \<Rightarrow> memory \<Rightarrow> u64 \<Rightarrow> u64 \<Rightarrow> u32 \<Rightarrow> memory \<times> int"
    and moved :: "block_device \<Rightarrow> blk list \<Rightarrow> block_state \<Rightarrow> nat \<Rightarrow> u64 \<Rightarrow> nat \<Rightarrow> block_state \<Rightarrow> bool"
  assumes good_dev: "good d bs \<Longrightarrow> dev_ok d" "good d bs \<Longrightarrow> dev_sectors d < 2 ^ 32"
    and moved_none: "moved d bs b k a 0 b"
    and moved_zero: "moved d bs b k a 0 b' \<Longrightarrow> moved d bs b k' a' 0 b'"
    and moved_trans: "good d bs \<Longrightarrow> clear d bs a (n + n') \<Longrightarrow> k + n + n' \<le> dev_sectors d * dev_ss d \<Longrightarrow>
      moved d bs b k a n b1 \<Longrightarrow> moved d bs b1 (k + n) (a + of_nat n) n' b2 \<Longrightarrow> moved d bs b k a (n + n') b2"
    and part_ok: "good d bs \<Longrightarrow> heap_at (b_heap b) bs \<Longrightarrow> unat lba < dev_sectors d \<Longrightarrow> unat at + n \<le> dev_ss d \<Longrightarrow> clear d bs a n \<Longrightarrow>
      \<exists>b'. part d b lba at a n = Some (b', True) \<and> heap_at (b_heap b') bs \<and> moved d bs b (unat lba * dev_ss d + unat at) a n b'"
    and rw_ok: "good d bs \<Longrightarrow> cnt \<noteq> 0 \<Longrightarrow> unat cnt < 2 ^ 31 \<Longrightarrow> unat lba + unat cnt \<le> dev_sectors d \<Longrightarrow> clear d bs a (unat cnt * dev_ss d) \<Longrightarrow>
      \<exists>m'. rw d (b_mem b) lba a cnt = (m', int (unat cnt)) \<and>
        moved d bs b (unat lba * dev_ss d) a (unat cnt * dev_ss d) (b\<lparr>b_mem := m'\<rparr>)"
begin

lemma ss_pos: "good d bs \<Longrightarrow> 0 < dev_ss d"
  using good_dev(1) [of d bs] by (cases d) (simp add: dev_ss_def unat_gt_0)

text \<open>One round of the loop: the count is at least 1, at most 128, and fits.\<close>

lemma round_count:
  fixes remaining :: u64
  assumes g: "good d bs" and "dev_ss d \<le> unat remaining" "unat remaining \<le> dev_sectors d * dev_ss d"
  defines "c \<equiv> ucast (remaining div ucast (sector_size d)) :: u32"
  defines "cnt \<equiv> if c > 128 then 128 else c"
  shows "cnt \<noteq> 0" "unat cnt < 2 ^ 31" "unat cnt * dev_ss d \<le> unat remaining"
    "unat cnt \<le> unat remaining div dev_ss d"
proof -
  have q: "unat (remaining div ucast (sector_size d)) = unat remaining div dev_ss d"
    by (simp add: unat_div dev_ss_def)
  have "unat remaining div dev_ss d \<le> dev_sectors d"
    using div_le_mono [OF assms(3), of "dev_ss d"] ss_pos [OF g] by simp
  then have "unat remaining div dev_ss d < 2 ^ 32" using good_dev(2) [OF g] by simp
  then have c: "unat c = unat remaining div dev_ss d"
    using q unfolding c_def by (simp add: unsigned_ucast_eq take_bit_nat_eq_self)
  moreover have "0 < unat remaining div dev_ss d" using assms(2) ss_pos [OF g] by (simp add: div_greater_zero_iff)
  ultimately show "cnt \<noteq> 0" by (auto simp: cnt_def)
  show "unat cnt < 2 ^ 31" by (auto simp: cnt_def word_less_nat_alt)
  show le: "unat cnt \<le> unat remaining div dev_ss d" using c by (auto simp: cnt_def word_less_nat_alt)
  then have "unat cnt * dev_ss d \<le> unat remaining div dev_ss d * dev_ss d" by (rule mult_le_mono1)
  then show "unat cnt * dev_ss d \<le> unat remaining" using div_times_less_eq_dividend le_trans by blast
qed

lemma sector_loop_ok:
  assumes g: "good d bs" and "heap_at (b_heap b) bs" "clear d bs a (unat pos + unat remaining)" "unat lba * dev_ss d + unat remaining \<le> dev_sectors d * dev_ss d"
  shows "\<exists>b' lba' pos' rem'. sector_loop rw d b lba a pos remaining = Some (b', Some (lba', pos', rem')) \<and>
    heap_at (b_heap b') bs \<and> unat rem' = unat remaining mod dev_ss d \<and>
    unat pos' + unat rem' = unat pos + unat remaining \<and> unat lba' = unat lba + unat remaining div dev_ss d \<and>
    moved d bs b (unat lba * dev_ss d) (a + pos) (unat remaining - unat rem') b'"
  using assms(2-)
proof (induction "unat remaining" arbitrary: b lba pos remaining rule: less_induct)
  case less
  show ?case
  proof (cases "dev_ss d \<le> unat remaining")
    case False
    then have "\<not> ucast (sector_size d) \<le> remaining" by (simp add: word_le_nat_alt dev_ss_def)
    then show ?thesis using False less.prems(1) moved_none by (subst sector_loop.simps) (simp add: Let_def)
  next
    case True
    define cnt :: u32 where "cnt = (let c = ucast (remaining div ucast (sector_size d)) in if c > 128 then 128 else c)"
    have rem: "unat remaining \<le> dev_sectors d * dev_ss d" using less.prems(3) by simp
    note c = round_count [OF g True rem, folded cnt_def [unfolded Let_def]]
    let ?n = "unat cnt * dev_ss d"
    have "unat lba * dev_ss d + unat cnt * dev_ss d \<le> dev_sectors d * dev_ss d" using c(3) less.prems(3) by simp
    then have fit: "unat lba + unat cnt \<le> dev_sectors d"
      using ss_pos [OF g] by (simp add: add_mult_distrib [symmetric])
    have np: "0 < ?n" using c(1) ss_pos [OF g] by (simp add: unat_gt_0)
    have cl: "clear d bs (a + pos) ?n"
      using clear_part [OF less.prems(2), of "unat pos" ?n] c(3) np by simp
    obtain m' where m': "rw d (b_mem b) lba (a + pos) cnt = (m', int (unat cnt))"
      "moved d bs b (unat lba * dev_ss d) (a + pos) ?n (b\<lparr>b_mem := m'\<rparr>)"
      using rw_ok [OF g c(1,2) fit cl, of b] by blast
    let ?adv = "ucast cnt * ucast (sector_size d) :: u64"
    have pr: "unat pos + unat remaining \<le> 2 ^ 64 - 1"
      using less.prems(2) by (auto simp: clear_def unat_gt_0 [symmetric])
    have adv: "unat ?adv = ?n"
      using c(3) u64_bound [of remaining] by (subst unat_mult_small) (simp_all add: dev_ss_def)
    have pos': "unat (pos + ?adv) = unat pos + ?n" using adv c(3) pr by (subst unat_add_small) simp_all
    have rem': "unat (remaining - ?adv) = unat remaining - ?n" using adv c(3) by (subst unat_sub) (simp_all add: word_le_nat_alt)
    have lba': "unat (lba + ucast cnt) = unat lba + unat cnt"
      using fit good_dev(2) [OF g] by (subst unat_add_small) simp_all
    have step: "sector_loop rw d b lba a pos remaining =
        sector_loop rw d (b\<lparr>b_mem := m'\<rparr>) (lba + ucast cnt) a (pos + ?adv) (remaining - ?adv)"
      using True c(2) m'(1) by (subst sector_loop.simps)
        (simp add: Let_def word_le_nat_alt dev_ss_def cnt_def [unfolded Let_def, symmetric] c_int_small)
    have bound: "unat (lba + ucast cnt) * dev_ss d + unat (remaining - ?adv) \<le> dev_sectors d * dev_ss d"
      using less.prems(3) c(3) unfolding lba' rem' by (simp add: add_mult_distrib)
    obtain b' l p r where ih: "sector_loop rw d (b\<lparr>b_mem := m'\<rparr>) (lba + ucast cnt) a (pos + ?adv) (remaining - ?adv) = Some (b', Some (l, p, r))"
      "heap_at (b_heap b') bs" "unat r = (unat remaining - ?n) mod dev_ss d"
      "unat p + unat r = unat pos + ?n + (unat remaining - ?n)" "unat l = unat lba + unat cnt + (unat remaining - ?n) div dev_ss d"
      "moved d bs (b\<lparr>b_mem := m'\<rparr>) (unat (lba + ucast cnt) * dev_ss d) (a + (pos + ?adv)) (unat remaining - ?n - unat r) b'"
    proof -
      have "unat (remaining - ?adv) < unat remaining" unfolding rem' using c(3) np by (simp only: diff_less less_le_trans)
      moreover have "heap_at (b_heap (b\<lparr>b_mem := m'\<rparr>)) bs" using less.prems(1) by simp
      moreover have "clear d bs a (unat (pos + ?adv) + unat (remaining - ?adv))"
        using less.prems(2) c(3) unfolding pos' rem' by simp
      ultimately have "\<exists>b' l p r. sector_loop rw d (b\<lparr>b_mem := m'\<rparr>) (lba + ucast cnt) a (pos + ?adv) (remaining - ?adv) = Some (b', Some (l, p, r)) \<and>
          heap_at (b_heap b') bs \<and> unat r = unat (remaining - ?adv) mod dev_ss d \<and>
          unat p + unat r = unat (pos + ?adv) + unat (remaining - ?adv) \<and>
          unat l = unat (lba + ucast cnt) + unat (remaining - ?adv) div dev_ss d \<and>
          moved d bs (b\<lparr>b_mem := m'\<rparr>) (unat (lba + ucast cnt) * dev_ss d) (a + (pos + ?adv)) (unat (remaining - ?adv) - unat r) b'"
        using bound by (rule less.hyps)
      then show ?thesis using that unfolding pos' rem' lba' by blast
    qed
    have r: "unat r = unat remaining mod dev_ss d"
      using ih(3) c(3) by (metis mod_mult_self4 le_add_diff_inverse mult.commute mod_mult_self2)
    have l: "unat l = unat lba + unat remaining div dev_ss d"
    proof -
      have "unat remaining div dev_ss d = (?n + (unat remaining - ?n)) div dev_ss d" using c(3) by simp
      also have "\<dots> = unat cnt + (unat remaining - ?n) div dev_ss d" using ss_pos [OF g] by simp
      finally show ?thesis using ih(5) by simp
    qed
    have rl: "unat r \<le> unat remaining - ?n" using ih(3) by simp
    have "moved d bs b (unat lba * dev_ss d) (a + pos) (?n + (unat remaining - ?n - unat r)) b'"
    proof (rule moved_trans [OF g _ _ m'(2)])
      show "clear d bs (a + pos) (?n + (unat remaining - ?n - unat r))"
      proof -
        have "0 < ?n + (unat remaining - ?n - unat r)" "unat pos + (?n + (unat remaining - ?n - unat r)) \<le> unat pos + unat remaining"
          using np c(3) by simp_all
        from clear_part [OF less.prems(2) this(2,1)] show ?thesis by simp
      qed
      show "unat lba * dev_ss d + ?n + (unat remaining - ?n - unat r) \<le> dev_sectors d * dev_ss d"
        using less.prems(3) c(3) by simp
      have "of_nat ?n = ?adv" using arg_cong [OF adv, of "of_nat :: nat \<Rightarrow> u64"] by simp
      then show "moved d bs (b\<lparr>b_mem := m'\<rparr>) (unat lba * dev_ss d + ?n) (a + pos + of_nat ?n) (unat remaining - ?n - unat r) b'"
        using ih(6) unfolding lba' by (simp add: add_mult_distrib add.assoc)
    qed
    then show ?thesis using ih(1,2,4) r l step c(3) rl by auto
  qed
qed

lemma transfer_ok:
  assumes g: "good d bs" and h: "heap_at (b_heap b) bs" and cl: "clear d bs a (unat len)" and len: "len \<noteq> 0" "unat len < 2 ^ 31"
    and fit: "unat off + unat len \<le> dev_sectors d * dev_ss d"
  shows "\<exists>b'. transfer part rw d b off a len = Some (b', int (unat len)) \<and> heap_at (b_heap b') bs \<and>
    moved d bs b (unat off) a (unat len) b'"
proof -
  let ?sec = "ucast (sector_size d) :: u64"
  let ?ho = "off mod ?sec" and ?l0 = "off div ?sec"
  let ?n = "if ?ho = 0 then 0 else if ?sec - ?ho > len then len else ?sec - ?ho"
  let ?l1 = "if ?ho = 0 then ?l0 else ?l0 + 1"
  have lp: "0 < unat len" using len(1) by (simp add: unat_gt_0)
  have q: "unat ?l0 = unat off div dev_ss d" "unat ?ho = unat off mod dev_ss d"
    by (simp_all add: unat_div unat_mod dev_ss_def)
  have split: "unat ?l0 * dev_ss d + unat ?ho = unat off" unfolding q by simp
  have ho: "unat ?ho < dev_ss d" unfolding q using ss_pos [OF g] by simp
  have "unat ?l0 * dev_ss d < dev_sectors d * dev_ss d" using split fit lp by linarith
  then have l0: "unat ?l0 < dev_sectors d" by simp
  have n: "unat ?n = (if ?ho = 0 then 0 else min (unat len) (dev_ss d - unat ?ho))"
    using ho by (auto simp: word_less_nat_alt unat_sub word_le_nat_alt dev_ss_def min_def)
  have nl: "unat ?n \<le> unat len" unfolding n by simp
  obtain b1 where b1: "(if ?ho = 0 then Some (b, True) else part d b ?l0 ?ho a (unat ?n)) = Some (b1, True)"
    "heap_at (b_heap b1) bs" "moved d bs b (unat off) a (unat ?n) b1"
  proof (cases "?ho = 0")
    case True
    then show ?thesis using that [of b] h moved_none by simp
  next
    case False
    then have np: "0 < unat ?n" unfolding n using lp ho by simp
    have "clear d bs a (unat ?n)" using clear_part [OF cl, of 0 "unat ?n"] nl np by simp
    moreover have "unat ?ho + unat ?n \<le> dev_ss d" unfolding n using ho by auto
    ultimately show ?thesis using part_ok [OF g h l0, of ?ho "unat ?n" a] that False split by auto
  qed
  have rest: "unat (len - ?n) = unat len - unat ?n" using nl by (subst unat_sub) (simp_all add: word_le_nat_alt)
  have l1: "unat len - unat ?n > 0 \<longrightarrow> unat ?l1 * dev_ss d = unat off + unat ?n"
  proof (cases "?ho = 0")
    case True
    then show ?thesis using split by simp
  next
    case False
    have "unat (?l0 + 1) = unat ?l0 + 1" using l0 good_dev(2) [OF g] by (subst unat_add_small) simp_all
    then show ?thesis using False split ho unfolding n by (auto simp: min_def)
  qed
  have l1b: "unat ?l1 * dev_ss d + unat (len - ?n) \<le> dev_sectors d * dev_ss d"
  proof (cases "unat len - unat ?n > 0")
    case True
    then show ?thesis using l1 fit rest by simp
  next
    case False
    have "unat ?l1 \<le> unat ?l0 + 1" using l0 good_dev(2) [OF g] by (auto simp: unat_add_small)
    then have "unat ?l1 * dev_ss d \<le> dev_sectors d * dev_ss d" using l0 by (intro mult_le_mono1) simp
    then show ?thesis using False rest by simp
  qed
  have cl1: "clear d bs a (unat ?n + unat (len - ?n))" using cl nl rest by simp
  obtain b2 lba pos r where b2: "sector_loop rw d b1 ?l1 a ?n (len - ?n) = Some (b2, Some (lba, pos, r))"
    "heap_at (b_heap b2) bs" "unat r = unat (len - ?n) mod dev_ss d" "unat pos + unat r = unat ?n + unat (len - ?n)"
    "unat lba = unat ?l1 + unat (len - ?n) div dev_ss d"
    "moved d bs b1 (unat ?l1 * dev_ss d) (a + ?n) (unat (len - ?n) - unat r) b2"
    using sector_loop_ok [OF g b1(2) cl1 l1b] by blast
  have pl: "unat pos + unat r = unat len" using b2(4) rest nl by simp
  have rr: "unat r \<le> unat len - unat ?n" using b2(3) rest by simp
  have mv2: "moved d bs b (unat off) a (unat pos) b2"
  proof -
    let ?j = "unat (len - ?n) - unat r"
    have "moved d bs b1 (unat off + unat ?n) (a + of_nat (unat ?n)) ?j b2"
    proof (cases "unat len - unat ?n > 0")
      case True
      then show ?thesis using b2(6) l1 by simp
    next
      case False
      then have "?j = 0" using rest by simp
      then show ?thesis using b2(6) moved_zero by simp
    qed
    moreover have "unat pos = unat ?n + ?j" using pl rest rr nl by simp
    moreover have "unat off + unat ?n + ?j \<le> dev_sectors d * dev_ss d" using fit rest rr nl by simp
    moreover have "clear d bs a (unat ?n + ?j)" using clear_le [OF cl] rest nl by simp
    ultimately show ?thesis using moved_trans [OF g _ _ b1(3)] by metis
  qed
  have tr: "transfer part rw d b off a len = (if r = 0 then Some (b2, c_int (ucast pos))
      else do { (b3, ok) \<leftarrow> part d b2 lba 0 (a + pos) (unat r);
        if \<not> ok then Some (b3, -1) else Some (b3, c_int (ucast (pos + r))) })"
    unfolding transfer_def Let_def b1(1) bind.bind_lunit prod.case not_True_eq_False if_False b2(1) option.case ..
  have ret: "c_int (ucast (x :: u64)) = int (unat x)" if "unat x < 2 ^ 31" for x
    using that by (subst c_int_small) (simp_all add: unsigned_ucast_eq take_bit_nat_eq_self)
  show ?thesis
  proof (cases "r = 0")
    case True
    then have "pos = len" using pl by (simp add: word_unat_eq_iff)
    then show ?thesis using tr ret [of pos] True len(2) mv2 b2(2) by simp
  next
    case False
    then have rp: "0 < unat r" by (simp add: unat_gt_0)
    have pr: "unat (pos + r) = unat len" using pl u64_bound [of len] by (subst unat_add_small) simp_all
    have "0 < unat (len - ?n)" unfolding rest using rp rr by linarith
    then have "unat ?l1 * dev_ss d = unat off + unat ?n" using l1 rest by simp
    then have "unat lba * dev_ss d = unat off + unat ?n + (unat (len - ?n) - unat r)"
      using b2(3,5) by (simp add: add_mult_distrib minus_mod_eq_div_mult)
    then have at: "unat lba * dev_ss d = unat off + unat pos" using pl rest rr nl by simp
    then have "unat lba * dev_ss d < dev_sectors d * dev_ss d" using fit pl rp by simp
    then have lb: "unat lba < dev_sectors d" by simp
    have "unat r \<le> dev_ss d" using b2(3) ss_pos [OF g] by (simp add: less_imp_le)
    then have a0: "unat (0 :: u64) + unat r \<le> dev_ss d" by simp
    have "clear d bs (a + of_nat (unat pos)) (unat r)" using pl rp by (intro clear_part [OF cl]) simp_all
    then have "clear d bs (a + pos) (unat r)" by simp
    from part_ok [OF g b2(2) lb a0 this] obtain b3 where b3: "part d b2 lba 0 (a + pos) (unat r) = Some (b3, True)"
      "heap_at (b_heap b3) bs" "moved d bs b2 (unat off + unat pos) (a + of_nat (unat pos)) (unat r) b3"
      using at by auto
    have "moved d bs b (unat off) a (unat pos + unat r) b3"
      using moved_trans [OF g _ _ mv2 b3(3)] cl fit pl by simp
    then show ?thesis using tr False b3 ret [of "pos + r"] pr pl len(2) by simp
  qed
qed

end

section \<open>Reading and writing\<close>

definition dev_good :: "block_device \<Rightarrow> blk list \<Rightarrow> bool" where
  "dev_good d bs \<longleftrightarrow> dev_ok d \<and> dev_sectors d < 2 ^ 32 \<and> dev_bytes d \<inter> free_bytes bs = {} \<and> fits bs (dev_ss d)"

lemma dev_good_apart: "dev_good d bs \<Longrightarrow> apart d bs"
  by (simp add: dev_good_def apart_def)

lemma dev_good_sector:
  assumes "dev_good d bs"
  shows "(ucast (sector_size d) :: u64) \<noteq> 0" "unat (ucast (sector_size d) :: u64) = dev_ss d"
    "unat (ucast (sector_size d) :: u64) + 15 < 2 ^ 64" "fits bs (unat (ucast (sector_size d) :: u64))"
proof -
  show s: "unat (ucast (sector_size d) :: u64) = dev_ss d" by (simp add: dev_ss_def)
  have "0 < dev_ss d" using assms by (cases d) (simp add: dev_good_def dev_ss_def unat_gt_0)
  then show "(ucast (sector_size d) :: u64) \<noteq> 0" using s by (metis less_irrefl unat_0)
  show "unat (ucast (sector_size d) :: u64) + 15 < 2 ^ 64" using u32_bound [of "sector_size d"] by simp
  show "fits bs (unat (ucast (sector_size d) :: u64))" using assms unfolding s by (simp add: dev_good_def)
qed

lemma sector_run:
  assumes "dev_good d bs" "unat lba < dev_sectors d"
  shows "unat (ucast (sector_size d) :: u64) = unat (1 :: u32) * dev_ss d" "unat (1 :: u32) < 2 ^ 31"
    "unat lba + unat (1 :: u32) \<le> dev_sectors d" "dev_ss d < 2 ^ 64"
  using dev_good_sector(2) [OF assms(1)] assms(2) u32_bound [of "sector_size d"] by (simp_all add: dev_ss_def)

lemma read_part_ok:
  assumes g: "dev_good d bs" and h: "heap_at (b_heap b) bs" and lba: "unat lba < dev_sectors d"
    and n: "unat at + n \<le> dev_ss d" and cl: "clear d bs a n"
  shows "\<exists>b'. read_part d b lba at a n = Some (b', True) \<and> heap_at (b_heap b') bs \<and>
    moved_in d bs b (unat lba * dev_ss d + unat at) a n b'"
proof -
  note s = dev_good_sector [OF g] and r = sector_run [OF g lba]
  obtain h1 tmp h2 m1 where t: "kmalloc (b_heap b) (ucast (sector_size d)) = Some (h1, tmp)" "tmp \<noteq> 0"
    "kfree h1 tmp = Some h2" "heap_at h2 bs" "dev_read d (b_mem b) lba tmp 1 = (m1, int (unat (1 :: u32)))"
    and m1: "\<And>k. k < unat (ucast (sector_size d) :: u64) \<Longrightarrow> m1 (tmp + of_nat k) = b_mem b (dev_at d (unat lba * dev_ss d + k))"
      "\<And>x. x \<notin> free_bytes bs \<Longrightarrow> m1 x = b_mem b x"
    and sub: "bytes_at tmp (unat (ucast (sector_size d) :: u64)) \<subseteq> free_bytes bs"
    using run_buffer [OF dev_good_apart [OF g] h r(1) s(1,3,4) r(2,3)] by blast
  have "read_part d b lba at a n = Some (b\<lparr>b_mem := copy_bytes m1 a (tmp + at) n, b_heap := h2\<rparr>, True)"
    unfolding read_part_def using t by simp
  then show ?thesis using copy_out [OF m1 sub _ _ cl, of at h2] n r(4) t(4) unfolding s(2) by simp
qed

lemma write_part_ok:
  assumes g: "dev_good d bs" "dev_writable d" and h: "heap_at (b_heap b) bs" and lba: "unat lba < dev_sectors d"
    and n: "unat at + n \<le> dev_ss d" and cl: "clear d bs a n"
  shows "\<exists>b'. write_part d b lba at a n = Some (b', True) \<and> heap_at (b_heap b') bs \<and>
    moved_out d bs b (unat lba * dev_ss d + unat at) a n b'"
proof -
  note s = dev_good_sector [OF g(1)] and r = sector_run [OF g(1) lba]
  obtain h1 tmp h2 m1 where t: "kmalloc (b_heap b) (ucast (sector_size d)) = Some (h1, tmp)" "tmp \<noteq> 0"
    "kfree h1 tmp = Some h2" "heap_at h2 bs" "dev_read d (b_mem b) lba tmp 1 = (m1, int (unat (1 :: u32)))"
    and m1: "\<And>k. k < unat (ucast (sector_size d) :: u64) \<Longrightarrow> m1 (tmp + of_nat k) = b_mem b (dev_at d (unat lba * dev_ss d + k))"
      "\<And>x. x \<notin> free_bytes bs \<Longrightarrow> m1 x = b_mem b x"
    and sub: "bytes_at tmp (unat (ucast (sector_size d) :: u64)) \<subseteq> free_bytes bs"
    using run_buffer [OF dev_good_apart [OF g(1)] h r(1) s(1,3,4) r(2,3)] by blast
  note m1 = m1 [unfolded s(2)] and sub = sub [unfolded s(2)]
  have p: "copy_bytes m1 (tmp + at) a n (tmp + of_nat j) = (if unat at \<le> j \<and> j < unat at + n
      then b_mem b (a + of_nat (j - unat at)) else b_mem b (dev_at d (unat lba * dev_ss d + j)))" if "j < unat (1 :: u32) * dev_ss d" for j
    by (rule patch_in(1) [OF m1 sub r(4) n cl]) (use that in simp_all)
  have q: "copy_bytes m1 (tmp + at) a n x = b_mem b x" if "x \<notin> free_bytes bs" for x
    by (rule patch_in(2) [OF m1 sub r(4) n cl that]) simp_all
  obtain m3 where m3: "dev_write d (copy_bytes m1 (tmp + at) a n) lba tmp 1 = (m3, int (unat (1 :: u32)))"
    "\<And>h. moved_out d bs b (unat lba * dev_ss d + unat at) a n (b\<lparr>b_mem := m3, b_heap := h\<rparr>)"
    by (rule write_back [OF dev_good_apart [OF g(1)] g(2) _ r(2,3) t(2) _ p q]) (use sub n in simp_all)
  have "write_part d b lba at a n = Some (b\<lparr>b_mem := m3, b_heap := h2\<rparr>, True)"
    unfolding write_part_def using t m3(1) by simp
  then show ?thesis using m3(2) t(4) by simp
qed

interpretation dev_in: sector_transfer dev_good read_part dev_read moved_in
proof
  fix d bs and b :: block_state and cnt :: u32 and lba a :: u64
  assume g: "dev_good d bs" and c: "cnt \<noteq> 0" "unat cnt < 2 ^ 31" "unat lba + unat cnt \<le> dev_sectors d"
    and cl: "clear d bs a (unat cnt * dev_ss d)"
  have ok: "dev_ok d" "a \<noteq> 0" "bytes_at a (unat cnt * dev_ss d) \<inter> dev_bytes d = {}"
    using g cl by (auto simp: dev_good_def clear_def)
  obtain m' where "dev_read d (b_mem b) lba a cnt = (m', int (unat cnt))"
    "\<And>k. k < unat cnt * dev_ss d \<Longrightarrow> m' (a + of_nat k) = b_mem b (dev_at d (unat lba * dev_ss d + k))"
    "\<And>x. x \<notin> bytes_at a (unat cnt * dev_ss d) \<Longrightarrow> m' x = b_mem b x"
    using dev_read_sectors [OF ok(1) c(1,2) ok(2) c(3) ok(3), of "b_mem b"] by blast
  then show "\<exists>m'. dev_read d (b_mem b) lba a cnt = (m', int (unat cnt)) \<and>
      moved_in d bs b (unat lba * dev_ss d) a (unat cnt * dev_ss d) (b\<lparr>b_mem := m'\<rparr>)"
    by (auto simp: moved_in_def same_outside_def)
qed ((rule moved_in_trans [OF dev_good_apart] read_part_ok; assumption) | simp add: dev_good_def moved_in_def)+

interpretation dev_out: sector_transfer "\<lambda>d bs. dev_good d bs \<and> dev_writable d" write_part dev_write moved_out
proof
  fix d bs and b :: block_state and cnt :: u32 and lba a :: u64
  assume g: "dev_good d bs \<and> dev_writable d" and c: "cnt \<noteq> 0" "unat cnt < 2 ^ 31" "unat lba + unat cnt \<le> dev_sectors d"
    and cl: "clear d bs a (unat cnt * dev_ss d)"
  have ok: "dev_ok d" "dev_writable d" "a \<noteq> 0" "bytes_at a (unat cnt * dev_ss d) \<inter> dev_bytes d = {}"
    using g cl by (auto simp: dev_good_def clear_def)
  obtain m' where "dev_write d (b_mem b) lba a cnt = (m', int (unat cnt))"
    "\<And>k. k < unat cnt * dev_ss d \<Longrightarrow> m' (dev_at d (unat lba * dev_ss d + k)) = b_mem b (a + of_nat k)"
    "\<And>x. x \<notin> dev_at d ` {unat lba * dev_ss d..<(unat lba + unat cnt) * dev_ss d} \<Longrightarrow> m' x = b_mem b x"
    using dev_write_sectors [OF ok(1,2) c(1,2) ok(3) c(3) ok(4), of "b_mem b"] by blast
  then show "\<exists>m'. dev_write d (b_mem b) lba a cnt = (m', int (unat cnt)) \<and>
      moved_out d bs b (unat lba * dev_ss d) a (unat cnt * dev_ss d) (b\<lparr>b_mem := m'\<rparr>)"
    by (auto simp: moved_out_def same_outside_def add_mult_distrib)
qed ((elim conjE, rule moved_out_trans [OF dev_good_apart] write_part_ok; assumption) | simp add: dev_good_def moved_out_def)+

section \<open>Properties\<close>

lemma device_node_size:
  assumes "dev_ok d" "dev_sectors d * dev_ss d < 2 ^ 31"
  shows "unat (dn_size (device_node d)) = dev_sectors d * dev_ss d"
  using assms by (simp add: device_node_def dev_geom) (subst unat_mult_small; simp)

text \<open>The clipped length.\<close>

lemma clip_len:
  fixes off len sz :: u64
  assumes "unat off + unat len < 2 ^ 64"
  defines "e \<equiv> if off + len > sz then sz else off + len"
  shows "e \<le> off \<longleftrightarrow> min (unat len) (unat sz - unat off) = 0"
    "\<not> e \<le> off \<Longrightarrow> unat (e - off) = min (unat len) (unat sz - unat off)"
proof -
  have u: "unat (off + len) = unat off + unat len" using assms(1) by (subst unat_add_small) simp_all
  have e: "unat e = min (unat sz) (unat off + unat len)" using u by (auto simp: e_def word_less_nat_alt)
  show "e \<le> off \<longleftrightarrow> min (unat len) (unat sz - unat off) = 0" using e by (auto simp: word_le_nat_alt)
  assume "\<not> e \<le> off"
  then show "unat (e - off) = min (unat len) (unat sz - unat off)"
    using e by (subst unat_sub) (auto simp: word_le_nat_alt)
qed

lemma dev_good_small: "dev_ok d \<Longrightarrow> dev_sectors d * dev_ss d < 2 ^ 31 \<Longrightarrow> dev_sectors d < 2 ^ 32"
proof -
  assume ok: "dev_ok d" and s: "dev_sectors d * dev_ss d < 2 ^ 31"
  have "0 < dev_ss d" using ok by (cases d) (simp add: dev_ss_def unat_gt_0)
  then have "dev_sectors d \<le> dev_sectors d * dev_ss d" by (cases "dev_ss d") simp_all
  then have "dev_sectors d < 2 ^ 31" using s by (rule le_less_trans)
  then show ?thesis by simp
qed

text \<open>The RAM disk at 2 MiB, a heap of 4 KiB at 64 KiB and a buffer at 4 KiB.\<close>

definition demo_blks :: "blk list" where
  "demo_blks = [\<lparr>b_addr = 0x10000, b_size = 0xFE0, b_free = True\<rparr>]"

definition demo_store :: block_state where
  "demo_store = \<lparr>b_mem = demo_mem, b_heap = kmalloc_init demo_heap 0x10000 0x1000, b_pmm = demo_pmm, g_devs = [demo_disk]\<rparr>"

lemma demo_disk_bytes: "x \<in> dev_bytes demo_disk \<Longrightarrow> 0x200000 \<le> unat x"
proof -
  assume "x \<in> dev_bytes demo_disk"
  then obtain k where k: "x = 0x200000 + of_nat k" "k < 8192" by (auto simp: dev_bytes_def demo_disk_def dev_geom)
  have "unat x = 0x200000 + k" using k(2) by (subst k(1), subst unat_add_small) (simp_all add: u64_of_nat_unat)
  then show ?thesis by simp
qed

lemma demo_free_bytes: "x \<in> free_bytes demo_blks \<Longrightarrow> 0x10000 \<le> unat x \<and> unat x < 0x11000"
  by (auto simp: free_bytes_def demo_blks_def)

lemma demo_clear: "n \<le> 4096 \<Longrightarrow> clear demo_disk demo_blks 0x1000 n"
proof -
  assume n: "n \<le> 4096"
  have "unat x < 0x2000" if "x \<in> bytes_at 0x1000 n" for x using bytes_at_sub(2) [OF _ that] n by simp
  then show ?thesis using n demo_disk_bytes demo_free_bytes by (fastforce simp: clear_def)
qed

lemma demo_store_ok:
  "dev_ok demo_disk" "dev_writable demo_disk" "dev_sectors demo_disk * dev_ss demo_disk < 2 ^ 31" "dev_sectors demo_disk = 16"
  "dev_ss demo_disk = 512"
  "dev_bytes demo_disk \<inter> free_bytes demo_blks = {}" "fits demo_blks (dev_ss demo_disk)"
  "heap_inv (b_heap demo_store) demo_blks" "coalesced demo_blks"
proof -
  show "heap_inv (b_heap demo_store) demo_blks"
    using kmalloc_init_inv [of "0x10000" "0x1000" demo_heap] by (simp add: demo_store_def demo_blks_def)
  show "dev_bytes demo_disk \<inter> free_bytes demo_blks = {}" using demo_disk_bytes demo_free_bytes by fastforce
qed (simp_all add: demo_disk_def dev_geom fits_def demo_blks_def round16_def)

lemma demo_len: "700 = min (unat (700 :: u64)) (dev_sectors demo_disk * dev_ss demo_disk - unat (500 :: u64))"
  by (simp add: demo_store_ok)

definition demo_file :: node where
  "demo_file = \<lparr>fops = Devfs_Ops, fs_priv = Priv_One, file_priv = Dev_Node (device_node demo_disk)\<rparr>"

text \<open>
  C20. Reading a device file is reading the device as an array of bytes: at any offset, aligned or
  not, the buffer gets the bytes of the device from there on, as many as were asked for and the
  device has, that number is returned, and nothing else changes but unused heap memory.
\<close>

theorem devfs_read_bytes:
  assumes d: "dev_ok d" "dev_sectors d * dev_ss d < 2 ^ 31" "dev_bytes d \<inter> free_bytes bs = {}" "fits bs (dev_ss d)"
    and h: "heap_inv (b_heap b) bs" "coalesced bs"
    and buf: "clear d bs buf (unat len)" "unat off + unat len < 2 ^ 64"
    and n: "file_priv n = Dev_Node (device_node d)" "k = min (unat len) (dev_sectors d * dev_ss d - unat off)"
  shows "\<exists>b'. devfs_read b n off buf len = Some (b', int k) \<and> heap_inv (b_heap b') bs \<and>
    (\<forall>i < k. b_mem b' (buf + of_nat i) = b_mem b (dev_at d (unat off + i))) \<and>
    (\<forall>x. x \<notin> bytes_at buf k \<union> free_bytes bs \<longrightarrow> b_mem b' x = b_mem b x)"
proof -
  let ?e = "if off + len > dn_size (device_node d) then dn_size (device_node d) else off + len"
  note sz = device_node_size [OF d(1,2)]
  note cl = clip_len [OF buf(2), of "dn_size (device_node d)", unfolded sz, folded n(2)]
  have g: "dev_good d bs" using d dev_good_small by (simp add: dev_good_def)
  have ha: "heap_at (b_heap b) bs" using h by (simp add: heap_at_def)
  have rd: "devfs_read b n off buf len = (if ?e \<le> off then Some (b, 0) else transfer read_part dev_read d b off buf (?e - off))"
    using n(1) buf(1) dev_ok_ops [OF d(1)] by (simp add: devfs_read_def clear_def device_node_def Let_def)
  show ?thesis
  proof (cases "?e \<le> off")
    case True
    then show ?thesis using rd cl(1) h(1) by simp
  next
    case False
    note k = cl(2) [OF False]
    have "k \<le> unat len" "0 < k" "unat off + k \<le> dev_sectors d * dev_ss d" "k < 2 ^ 31"
      using n(2) d(2) False cl(1) by auto
    then have "clear d bs buf (unat (?e - off))" "?e - off \<noteq> 0" "unat (?e - off) < 2 ^ 31"
        "unat off + unat (?e - off) \<le> dev_sectors d * dev_ss d"
      using clear_le [OF buf(1), of k] k by (auto simp: unat_gt_0 [symmetric] simp del: unat_gt_0)
    from dev_in.transfer_ok [OF g ha this, unfolded k] obtain b' where
      "transfer read_part dev_read d b off buf (?e - off) = Some (b', int k)" "heap_at (b_heap b') bs" "moved_in d bs b (unat off) buf k b'"
      by blast
    then show ?thesis using rd False by (auto simp: moved_in_def same_outside_def heap_at_def)
  qed
qed

theorem devfs_read_bytes_witness:
  "\<exists>b'. devfs_read demo_store demo_file 500 0x1000 700 = Some (b', 700) \<and> b_mem b' (0x1000 + of_nat 20) = 0x08"
proof -
  have c: "clear demo_disk demo_blks 0x1000 (unat (700 :: u64))" by (rule demo_clear) simp
  have at: "dev_at demo_disk = (\<lambda>k. 0x200000 + of_nat k)" by (simp add: demo_disk_def)
  have nw: "unat (500 :: u64) + unat (700 :: u64) < 2 ^ 64" by simp
  have f: "file_priv demo_file = Dev_Node (device_node demo_disk)" by (simp add: demo_file_def)
  obtain b' where b': "devfs_read demo_store demo_file 500 0x1000 700 = Some (b', int 700)"
    "\<forall>i < 700. b_mem b' (0x1000 + of_nat i) = b_mem demo_store (dev_at demo_disk (unat (500 :: u64) + i))"
    using devfs_read_bytes [OF demo_store_ok(1,3,6,7,8,9) c nw f demo_len] by blast
  have "b_mem b' (0x1000 + of_nat 20) = b_mem demo_store (dev_at demo_disk (unat (500 :: u64) + 20))"
    by (rule b'(2) [rule_format]) simp
  then show ?thesis using b'(1) by (simp add: at demo_store_def demo_mem_def)
qed

text \<open>
  C21. Writing a device file is the update of an array of bytes: the bytes of the device from the
  offset on become those of the buffer, as many as fit, that number is returned, and no other byte
  of the device or of the rest of memory changes, sectors written in part included.
\<close>

theorem devfs_write_bytes:
  assumes d: "dev_ok d" "dev_writable d" "dev_sectors d * dev_ss d < 2 ^ 31" "dev_bytes d \<inter> free_bytes bs = {}" "fits bs (dev_ss d)"
    and h: "heap_inv (b_heap b) bs" "coalesced bs"
    and buf: "clear d bs buf (unat len)" "unat off + unat len < 2 ^ 64"
    and n: "file_priv n = Dev_Node (device_node d)" "k = min (unat len) (dev_sectors d * dev_ss d - unat off)"
  shows "\<exists>b'. devfs_write b n off buf len = Some (b', n, int k) \<and> heap_inv (b_heap b') bs \<and>
    (\<forall>i < k. b_mem b' (dev_at d (unat off + i)) = b_mem b (buf + of_nat i)) \<and>
    (\<forall>x. x \<notin> dev_at d ` {unat off..<unat off + k} \<union> free_bytes bs \<longrightarrow> b_mem b' x = b_mem b x)"
proof -
  let ?e = "if off + len > dn_size (device_node d) then dn_size (device_node d) else off + len"
  note sz = device_node_size [OF d(1,3)]
  note cl = clip_len [OF buf(2), of "dn_size (device_node d)", unfolded sz, folded n(2)]
  have g: "dev_good d bs \<and> dev_writable d" using d dev_good_small by (simp add: dev_good_def)
  have ha: "heap_at (b_heap b) bs" using h by (simp add: heap_at_def)
  have wr: "devfs_write b n off buf len = (if ?e \<le> off then Some (b, n, 0)
      else do { (b', r) \<leftarrow> transfer write_part dev_write d b off buf (?e - off); Some (b', n, r) })"
    using n(1) buf(1) dev_ok_ops [OF d(1)] by (simp add: devfs_write_def clear_def device_node_def Let_def)
  show ?thesis
  proof (cases "?e \<le> off")
    case True
    then show ?thesis using wr cl(1) h(1) by simp
  next
    case False
    note k = cl(2) [OF False]
    have "k \<le> unat len" "0 < k" "unat off + k \<le> dev_sectors d * dev_ss d" "k < 2 ^ 31"
      using n(2) d(3) False cl(1) by auto
    then have "clear d bs buf (unat (?e - off))" "?e - off \<noteq> 0" "unat (?e - off) < 2 ^ 31"
        "unat off + unat (?e - off) \<le> dev_sectors d * dev_ss d"
      using clear_le [OF buf(1), of k] k by (auto simp: unat_gt_0 [symmetric] simp del: unat_gt_0)
    from dev_out.transfer_ok [OF g ha this, unfolded k] obtain b' where
      "transfer write_part dev_write d b off buf (?e - off) = Some (b', int k)" "heap_at (b_heap b') bs" "moved_out d bs b (unat off) buf k b'"
      by blast
    then show ?thesis using wr False by (auto simp: moved_out_def same_outside_def heap_at_def)
  qed
qed

theorem devfs_write_bytes_witness:
  "\<exists>b'. devfs_write demo_store demo_file 500 0x1000 700 = Some (b', demo_file, 700) \<and>
     b_mem b' (dev_at demo_disk (500 + 20)) = 0x14 \<and> b_mem b' (dev_at demo_disk 499) = 0xF3"
proof -
  have c: "clear demo_disk demo_blks 0x1000 (unat (700 :: u64))" by (rule demo_clear) simp
  have nw: "unat (500 :: u64) + unat (700 :: u64) < 2 ^ 64" by simp
  have f: "file_priv demo_file = Dev_Node (device_node demo_disk)" by (simp add: demo_file_def)
  have u: "unat (500 :: u64) = 500" by simp
  obtain b' where b': "devfs_write demo_store demo_file 500 0x1000 700 = Some (b', demo_file, int 700)"
    "\<forall>i < 700. b_mem b' (dev_at demo_disk (500 + i)) = b_mem demo_store (0x1000 + of_nat i)"
    "\<forall>x. x \<notin> dev_at demo_disk ` {500..<500 + 700} \<union> free_bytes demo_blks \<longrightarrow> b_mem b' x = b_mem demo_store x"
    using devfs_write_bytes [OF demo_store_ok(1,2,3,6,7,8,9) c nw f demo_len] unfolding u by blast
  have "dev_at demo_disk 499 \<notin> dev_at demo_disk ` {500..<500 + 700}"
  proof
    assume "dev_at demo_disk 499 \<in> dev_at demo_disk ` {500..<500 + 700}"
    then obtain x where x: "dev_at demo_disk 499 = dev_at demo_disk x" "500 \<le> x" "x < 1200" by auto
    then have "499 = x" using demo_store_ok by (intro inj_onD [OF dev_at_inj(1) [OF demo_store_ok(1)]]) auto
    then show False using x by simp
  qed
  moreover have "dev_at demo_disk 499 \<notin> free_bytes demo_blks"
    using demo_store_ok(4,5,6) dev_at_bytes [of 499 demo_disk] by auto
  ultimately have "b_mem b' (dev_at demo_disk 499) = b_mem demo_store (dev_at demo_disk 499)"
    using b'(3) by blast
  moreover have "b_mem b' (dev_at demo_disk (500 + 20)) = b_mem demo_store (0x1000 + of_nat 20)"
    by (rule b'(2) [rule_format]) simp
  ultimately show ?thesis using b'(1) by (simp add: demo_store_def demo_mem_def demo_disk_def)
qed

definition demo_vfs :: "(fs_table, priv) vfs_state" where
  "demo_vfs = devfs_register \<lparr>g_fs = [], g_mounts = [], v_block = demo_store\<rparr>"

definition demo_tab :: "fs_table \<Rightarrow> fs_ops" where
  "demo_tab t = (case t of Rootfs_Ops \<Rightarrow> rootfs_ops | _ \<Rightarrow> devfs_ops)"

lemma demo_vfs_eq: "demo_vfs = \<lparr>g_fs = [\<lparr>fs_name = ''devfs'', fs_ops = Devfs_Ops\<rparr>], g_mounts = [], v_block = demo_store\<rparr>"
  by (simp add: demo_vfs_def devfs_register_def vfs_register_fs_def MAX_FS_def str_cpy_def)

lemma demo_mount:
  "vfs_mount demo_tab Priv_One demo_vfs ''devfs'' m [] =
    Some (demo_vfs\<lparr>g_mounts := [\<lparr>mname = take 7 m, m_ops = Devfs_Ops, m_priv = Priv_One\<rparr>]\<rparr>, 0)"
  by (simp add: vfs_mount_def demo_vfs_eq MAX_MOUNTS_def demo_tab_def devfs_ops_def devfs_mount_def str_cpy_def)

lemma demo_vfs_empty: "find_mount demo_vfs k = None" "vfs_ok demo_vfs"
  by (simp_all add: demo_vfs_eq find_mount_def vfs_ok_def MAX_FS_def)

text \<open>An operation on a path that the switch hands to a file system: \<open>f\<close> is the entry of its table with the
  arguments, \<open>dflt\<close> the result when the entry is NULL.\<close>

definition handed :: "(block_state \<Rightarrow> (block_state \<times> 'r) option) option \<Rightarrow> 'r \<Rightarrow> ('o, 'p) vfs_state \<Rightarrow> (('o, 'p) vfs_state \<times> 'r) option" where
  "handed f dflt t = (case f of
       None \<Rightarrow> Some (t, dflt)
     | Some g \<Rightarrow> map_option (\<lambda>(b, r). (t\<lparr>v_block := b\<rparr>, r)) (g (v_block t)))"

lemma bind_handed: "do { (b, r) \<leftarrow> x; Some (t\<lparr>v_block := b\<rparr>, r) } = map_option (\<lambda>(b, r). (t\<lparr>v_block := b\<rparr>, r)) x"
  by (cases x) auto

text \<open>The operations on paths, for a path whose mount is \<open>mt\<close> or is not there.\<close>

lemma path_ops:
  assumes nc: "CHR '':'' \<notin> set m"
  shows
    "vfs_open tab t (m @ CHR '':'' # sub) = (case find_mount t (take 7 m) of None \<Rightarrow> Some (t, None)
      | Some mt \<Rightarrow> handed (map_option (\<lambda>f b. f b (m_priv mt) sub) (op_open (tab (m_ops mt)))) None t)"
    "vfs_stat tab t (m @ CHR '':'' # sub) = (case find_mount t (take 7 m) of None \<Rightarrow> Some (t, None)
      | Some mt \<Rightarrow> handed (map_option (\<lambda>f b. f b (m_priv mt) sub) (op_stat (tab (m_ops mt)))) None t)"
    "vfs_create tab t (m @ CHR '':'' # sub) hint = (case find_mount t (take 7 m) of None \<Rightarrow> Some (t, -1)
      | Some mt \<Rightarrow> handed (map_option (\<lambda>f b. f b (m_priv mt) sub hint) (op_create (tab (m_ops mt)))) (-1) t)"
    "vfs_unlink tab t (m @ CHR '':'' # sub) = (case find_mount t (take 7 m) of None \<Rightarrow> Some (t, -1)
      | Some mt \<Rightarrow> handed (map_option (\<lambda>f b. f b (m_priv mt) sub) (op_unlink (tab (m_ops mt)))) (-1) t)"
  by (simp_all add: vfs_open_def vfs_stat_def vfs_create_def vfs_unlink_def parse_path [OF nc] handed_def bind_handed split: option.splits)

text \<open>
  C22. A successful mount under a fresh name makes every path with that prefix reach the mounted
  file system: from then on, whatever the state of the devices, \<open>vfs_open\<close>, \<open>vfs_stat\<close>, \<open>vfs_create\<close> and
  \<open>vfs_unlink\<close> call the registered file system's function with the private data its mount function
  returned and the rest of the path, and give its result (NULL or -1 where the table has no such
  function). For paths to other mounts each of the four does what it did before.
\<close>

theorem vfs_mount_routes:
  assumes m: "vfs_mount tab priv1 s fsn m dev = Some (s', 0)" and fresh: "find_mount s (take 7 m) = None"
    and nc: "CHR '':'' \<notin> set m" "CHR '':'' \<notin> set m'"
  shows "\<exists>f priv. find (\<lambda>f. fs_name f = fsn) (g_fs s) = Some f \<and>
    (case op_mount (tab (fs_ops f)) of None \<Rightarrow> priv = priv1
      | Some mnt \<Rightarrow> mnt (v_block s) (if dev = [] then None else block_find (v_block s) dev) m = Some (v_block s', 0, priv)) \<and>
    (\<forall>t. g_mounts t = g_mounts s' \<longrightarrow>
      vfs_open tab t (m @ CHR '':'' # sub) = handed (map_option (\<lambda>opn b. opn b priv sub) (op_open (tab (fs_ops f)))) None t \<and>
      vfs_stat tab t (m @ CHR '':'' # sub) = handed (map_option (\<lambda>st b. st b priv sub) (op_stat (tab (fs_ops f)))) None t \<and>
      vfs_create tab t (m @ CHR '':'' # sub) hint = handed (map_option (\<lambda>cr b. cr b priv sub hint) (op_create (tab (fs_ops f)))) (-1) t \<and>
      vfs_unlink tab t (m @ CHR '':'' # sub) = handed (map_option (\<lambda>ul b. ul b priv sub) (op_unlink (tab (fs_ops f)))) (-1) t) \<and>
    (take 7 m' \<noteq> take 7 m \<longrightarrow> (\<forall>t. g_mounts t = g_mounts s \<longrightarrow>
      vfs_open tab (t\<lparr>g_mounts := g_mounts s'\<rparr>) (m' @ CHR '':'' # sub) =
        map_option (apfst (g_mounts_update (\<lambda>_. g_mounts s'))) (vfs_open tab t (m' @ CHR '':'' # sub)) \<and>
      vfs_stat tab (t\<lparr>g_mounts := g_mounts s'\<rparr>) (m' @ CHR '':'' # sub) =
        map_option (apfst (g_mounts_update (\<lambda>_. g_mounts s'))) (vfs_stat tab t (m' @ CHR '':'' # sub)) \<and>
      vfs_create tab (t\<lparr>g_mounts := g_mounts s'\<rparr>) (m' @ CHR '':'' # sub) hint =
        map_option (apfst (g_mounts_update (\<lambda>_. g_mounts s'))) (vfs_create tab t (m' @ CHR '':'' # sub) hint) \<and>
      vfs_unlink tab (t\<lparr>g_mounts := g_mounts s'\<rparr>) (m' @ CHR '':'' # sub) =
        map_option (apfst (g_mounts_update (\<lambda>_. g_mounts s'))) (vfs_unlink tab t (m' @ CHR '':'' # sub))))"
proof -
  obtain f b priv where f: "find (\<lambda>f. fs_name f = fsn) (g_fs s) = Some f"
    "(case op_mount (tab (fs_ops f)) of None \<Rightarrow> Some (v_block s, 0, priv1)
      | Some mnt \<Rightarrow> mnt (v_block s) (if dev = [] then None else block_find (v_block s) dev) m) = Some (b, 0, priv)"
    "s' = s\<lparr>v_block := b, g_mounts := g_mounts s @ [\<lparr>mname = take 7 m, m_ops = fs_ops f, m_priv = priv\<rparr>]\<rparr>"
    using vfs_mount_ok [OF m] by blast
  have fm: "find_mount s' k = (case find_mount s k of Some x \<Rightarrow> Some x
      | None \<Rightarrow> if k = take 7 m then Some \<lparr>mname = take 7 m, m_ops = fs_ops f, m_priv = priv\<rparr> else None)" for k
    unfolding f(3) by (simp add: find_mount_eq find_append split: option.splits)
  have same: "find_mount t k = find_mount u k" if "g_mounts t = g_mounts u" for t u :: "('a, 'b) vfs_state" and k
    using that by (simp add: find_mount_def)
  have new: "find_mount t (take 7 m) = Some \<lparr>mname = take 7 m, m_ops = fs_ops f, m_priv = priv\<rparr>" if "g_mounts t = g_mounts s'" for t :: "('a, 'b) vfs_state"
    using same [OF that] fm fresh by simp
  have old: "find_mount (t\<lparr>g_mounts := g_mounts s'\<rparr>) (take 7 m') = find_mount t (take 7 m')"
    if "g_mounts t = g_mounts s" "take 7 m' \<noteq> take 7 m" for t :: "('a, 'b) vfs_state"
    using same [of "t\<lparr>g_mounts := g_mounts s'\<rparr>" s' "take 7 m'"] same [OF that(1), of "take 7 m'"] fm [of "take 7 m'"] that(2) by (simp split: option.splits)
  have upd: "handed x r (t\<lparr>g_mounts := g\<rparr>) = map_option (apfst (g_mounts_update (\<lambda>_. g))) (handed x r t)" for x r g and t :: "('a, 'b) vfs_state"
    by (auto simp: handed_def option.map_comp comp_def apfst_def map_prod_def intro!: arg_cong2 [where f = map_option] split: option.splits)
  have "case op_mount (tab (fs_ops f)) of None \<Rightarrow> priv = priv1
      | Some mnt \<Rightarrow> mnt (v_block s) (if dev = [] then None else block_find (v_block s) dev) m = Some (v_block s', 0, priv)"
    using f(2,3) by (auto split: option.splits)
  then show ?thesis
    using f(1) new old by (intro exI [of _ f] exI [of _ priv]) (simp add: path_ops [OF nc(1)] path_ops [OF nc(2)] upd split: option.split)
qed

lemma demo_dev_open:
  "\<exists>b. devfs_open demo_store Priv_One ''/ram0'' = Some (b, Some demo_file)"
proof -
  have r: "heap_room (b_heap demo_store) 2048"
    using kmalloc_init_inv [of "0x10000" "0x1000" demo_heap] by (auto simp: heap_room_def demo_store_def)
  obtain h1 p1 where k1: "kmalloc (b_heap demo_store) SIZEOF_DEVFS_NODE = Some (h1, p1)" "p1 \<noteq> 0" "heap_room h1 1024"
    by (rule kmalloc_room [OF r, of 1024 SIZEOF_DEVFS_NODE]) (auto simp: SIZEOF_DEVFS_NODE_def round16_def)
  obtain h2 p2 where k2: "kmalloc h1 SIZEOF_VFS_NODE = Some (h2, p2)" "p2 \<noteq> 0" "heap_room h2 512"
    by (rule kmalloc_room [OF k1(3), of 512 SIZEOF_VFS_NODE]) (auto simp: SIZEOF_VFS_NODE_def round16_def)
  have "block_find demo_store ''ram0'' = Some demo_disk" by (simp add: block_find_def demo_store_def demo_disk_def)
  then show ?thesis using k1(1,2) k2(1,2) by (simp add: devfs_open_def alloc_nodes_def skip_slash_def demo_file_def)
qed

theorem vfs_mount_routes_witness:
  "\<exists>s' s''. vfs_mount demo_tab Priv_One demo_vfs ''devfs'' ''dev'' [] = Some (s', 0) \<and>
     vfs_open demo_tab s' ''dev:/ram0'' = Some (s'', Some demo_file) \<and> vfs_stat demo_tab s' ''dev:/ram0'' = Some (s', Some (8192, False)) \<and>
     vfs_create demo_tab s' ''dev:/ram0'' 0 = Some (s', -1)"
proof -
  let ?s' = "demo_vfs\<lparr>g_mounts := [\<lparr>mname = take 7 ''dev'', m_ops = Devfs_Ops, m_priv = Priv_One\<rparr>]\<rparr>"
  have nc: "CHR '':'' \<notin> set ''dev''" "CHR '':'' \<notin> set ''root''" by simp_all
  obtain b where b: "devfs_open demo_store Priv_One ''/ram0'' = Some (b, Some demo_file)" using demo_dev_open by blast
  have st: "devfs_stat demo_store Priv_One ''/ram0'' = Some (demo_store, Some (8192, False))"
    by (simp add: devfs_stat_def path_is_root_def skip_slash_def block_find_def demo_store_def demo_disk_def)
  have "vfs_open demo_tab ?s' (''dev'' @ CHR '':'' # ''/ram0'') = Some (?s'\<lparr>v_block := b\<rparr>, Some demo_file) \<and>
    vfs_stat demo_tab ?s' (''dev'' @ CHR '':'' # ''/ram0'') = Some (?s', Some (8192, False)) \<and>
    vfs_create demo_tab ?s' (''dev'' @ CHR '':'' # ''/ram0'') 0 = Some (?s', -1)"
    using vfs_mount_routes [OF demo_mount [of "''dev''"] demo_vfs_empty(1) nc, of "''/ram0''" 0] b st
    by (auto simp: demo_vfs_eq demo_tab_def devfs_ops_def handed_def devfs_mount_def)
  then show ?thesis using demo_mount [of "''dev''"] by auto
qed

text \<open>
  Mounting under a fresh name of at most 7 characters and unmounting it again gives back the
  mount table: every name is looked up as before.
\<close>

theorem vfs_mount_umount_restores:
  assumes m: "vfs_mount tab priv1 s fsn m dev = Some (s', 0)" and fresh: "find_mount s m = None" and len: "length m \<le> 7"
  shows "\<exists>s''. vfs_umount tab s' m = (s'', 0) \<and> g_mounts s'' = g_mounts s \<and> find_mount s'' k = find_mount s k"
proof -
  obtain e where f: "mounted s m e s'" by (rule vfs_mount_mounted [OF m])
  have k: "take 7 m = m" using len by simp
  have "lookup_mount s' (take 7 m) = Some e"
    using mnt.added_new [OF f] fresh k by (simp add: lookup_mount_def)
  then obtain x where x: "find_mount s' m = Some x" using k by (auto simp: lookup_mount_def)
  then have "remove1 x (g_mounts s') = g_mounts s" using remove_added [OF f] fresh k by simp
  then show ?thesis using x by (simp add: vfs_umount_eq find_mount_eq)
qed

theorem vfs_mount_umount_restores_witness:
  "\<exists>s' s''. vfs_mount demo_tab Priv_One demo_vfs ''devfs'' ''dev'' [] = Some (s', 0) \<and>
     vfs_umount demo_tab s' ''dev'' = (s'', 0) \<and> g_mounts s'' = []"
  using vfs_mount_umount_restores [OF demo_mount [of "''dev''"] demo_vfs_empty(1)] demo_mount [of "''dev''"]
  by (auto simp: demo_vfs_eq)

text \<open>
  Names are stored cut to 7 characters but compared in full: a mount under a longer name is
  reached by paths with that name, yet it cannot be unmounted by it and is not reported as mounted.
\<close>

theorem vfs_long_mount_name:
  assumes ok: "vfs_ok s" and m: "vfs_mount tab priv1 s fsn m dev = Some (s', 0)" and len: "7 < length m"
    and nc: "CHR '':'' \<notin> set m"
  shows "vfs_umount tab s' m = (s', -1) \<and> \<not> vfs_has_mount s' m \<and>
    parse_mount_and_sub s' (m @ CHR '':'' # sub) \<noteq> None"
proof -
  have "vfs_ok s'" using vfs_ok_ops(2) [OF ok m] .
  then have no: "find_mount s' m = None" using len by (auto simp: find_mount_None vfs_ok_def)
  obtain e where f: "mounted s m e s'" by (rule vfs_mount_mounted [OF m])
  have "lookup_mount s' (take 7 m) \<noteq> None" using mounted_lookup [OF f] by (simp split: option.splits)
  then show ?thesis using no
    by (auto simp: vfs_umount_eq vfs_has_mount_def find_mount_def parse_path [OF nc] lookup_mount_def)
qed

theorem vfs_long_mount_name_witness:
  "\<exists>s'. vfs_mount demo_tab Priv_One demo_vfs ''devfs'' ''devices0'' [] = Some (s', 0) \<and>
     vfs_umount demo_tab s' ''devices0'' = (s', -1) \<and> parse_mount_and_sub s' ''devices0:/'' \<noteq> None"
  using vfs_long_mount_name [OF demo_vfs_empty(2) demo_mount [of "''devices0''"], of "''/''"] demo_mount [of "''devices0''"]
  by auto

end
