(* ===== verification/Input.thy ===== *)
theory Input
  imports Dex_Prelude
begin

text \<open>
  Keyboard and line input (\<open>kernel64/input.c\<close>): the decoder of PS/2 set 1 scancodes, the merge with
  the serial line, and the line editor of \<open>input_readline\<close>. A read of a port is an argument: the
  byte the controller (or the UART) has ready, if any. The editor's calls of the console are
  collected as a trace.
\<close>

section \<open>Scancodes\<close>

definition MOD_SHIFT :: u32 where "MOD_SHIFT = 1"
definition MOD_CTRL :: u32 where "MOD_CTRL = 2"
definition MOD_ALT :: u32 where "MOD_ALT = 4"
definition MOD_CAPS :: u32 where "MOD_CAPS = 8"

datatype key_type = KEY_NONE | KEY_CHAR | KEY_ENTER | KEY_BACKSPACE | KEY_TAB | KEY_ESC | KEY_LEFT | KEY_RIGHT |
  KEY_UP | KEY_DOWN | KEY_HOME | KEY_END | KEY_DELETE | KEY_PGUP | KEY_PGDN

record key_event =
  ev_type :: key_type
  ev_ch :: u16
  ev_mods :: u32

record input_state =
  s_mods :: u32
  s_e0 :: bool

definition ascii :: "string \<Rightarrow> u8 list" where
  "ascii s = map (\<lambda>c. of_char c) s"

text \<open>The two layouts; entries from 0x3D on are 0.\<close>

definition base_map :: "u8 list" where
  "base_map = [0, 27] @ ascii ''1234567890-='' @ [8, 9] @ ascii ''qwertyuiop[]'' @ [10, 0] @
     ascii ''asdfghjkl;'' @ [39, 96, 0, 92] @ ascii ''zxcvbnm,./'' @ [0, 42, 0, 32, 0, 0, 0]"

definition shift_map :: "u8 list" where
  "shift_map = [0, 27] @ ascii ''!@#$%^&*()_+'' @ [8, 9] @ ascii ''QWERTYUIOP{}'' @ [10, 0] @
     ascii ''ASDFGHJKL:'' @ [34, 126, 0, 124] @ ascii ''ZXCVBNM<>?'' @ [0, 42, 0, 32, 0, 0, 0]"

definition map_at :: "u8 list \<Rightarrow> u8 \<Rightarrow> u8" where
  "map_at m code = (if unat code < length m then m ! unat code else 0)"

definition is_letter_scancode :: "u8 \<Rightarrow> bool" where
  "is_letter_scancode sc \<longleftrightarrow> 0x10 \<le> sc \<and> sc \<le> 0x19 \<or> 0x1E \<le> sc \<and> sc \<le> 0x26 \<or> 0x2C \<le> sc \<and> sc \<le> 0x32"

text \<open>Letters follow Shift and Caps Lock, other keys Shift only.\<close>

definition key_char :: "u32 \<Rightarrow> u8 \<Rightarrow> u8" where
  "key_char mods code =
     (if is_letter_scancode code
      then
        let ch = map_at base_map code;
            upper = ((mods AND MOD_SHIFT \<noteq> 0) \<noteq> (mods AND MOD_CAPS \<noteq> 0))
        in if ch = 0 then 0
           else if upper \<and> 97 \<le> ch \<and> ch \<le> 122 then ch - 97 + 65
           else if \<not> upper \<and> 65 \<le> ch \<and> ch \<le> 90 then ch - 65 + 97
           else ch
      else if mods AND MOD_SHIFT \<noteq> 0 then map_at shift_map code
      else map_at base_map code)"

definition nav_key :: "u8 \<Rightarrow> key_type option" where
  "nav_key code =
     (if code = 0x4B then Some KEY_LEFT else if code = 0x4D then Some KEY_RIGHT
      else if code = 0x48 then Some KEY_UP else if code = 0x50 then Some KEY_DOWN
      else if code = 0x47 then Some KEY_HOME else if code = 0x4F then Some KEY_END
      else if code = 0x53 then Some KEY_DELETE else if code = 0x49 then Some KEY_PGUP
      else if code = 0x51 then Some KEY_PGDN else None)"

definition plain_key :: "u8 \<Rightarrow> key_type option" where
  "plain_key code =
     (if code = 0x01 then Some KEY_ESC else if code = 0x0E then Some KEY_BACKSPACE
      else if code = 0x0F then Some KEY_TAB else if code = 0x1C then Some KEY_ENTER else None)"

text \<open>\<open>sc\<close> is the scancode ready at the controller. The boolean is the return value; the event is
  filled in only when it is 1, and \<open>ch\<close> only for characters.\<close>

definition ps2_try_read_event_internal ::
  "input_state \<Rightarrow> u8 option \<Rightarrow> key_event \<Rightarrow> input_state \<times> key_event \<times> bool" where
  "ps2_try_read_event_internal s sco ev =
     (case sco of
        None \<Rightarrow> (s, ev, False)
      | Some sc \<Rightarrow>
          if sc = 0xE0 then (s\<lparr>s_e0 := True\<rparr>, ev, False)
          else if sc = 0xE1 then (s, ev, False)
          else
            let break_code = (sc AND 0x80 \<noteq> 0);
                code = sc AND 0x7F;
                flag = (\<lambda>f. s\<lparr>s_mods := (if break_code then s_mods s AND NOT f else s_mods s OR f), s_e0 := False\<rparr>)
            in if \<not> s_e0 s \<and> (code = 0x2A \<or> code = 0x36) then (flag MOD_SHIFT, ev, False)
               else if code = 0x1D then (flag MOD_CTRL, ev, False)
               else if code = 0x38 then (flag MOD_ALT, ev, False)
               else if \<not> s_e0 s \<and> code = 0x3A \<and> \<not> break_code
               then (s\<lparr>s_mods := s_mods s XOR MOD_CAPS, s_e0 := False\<rparr>, ev, False)
               else if break_code then (s\<lparr>s_e0 := False\<rparr>, ev, False)
               else if s_e0 s
               then (case nav_key code of
                   Some k \<Rightarrow> (s\<lparr>s_e0 := False\<rparr>, ev\<lparr>ev_type := k, ev_mods := s_mods s\<rparr>, True)
                 | None \<Rightarrow> (s\<lparr>s_e0 := False\<rparr>, ev, False))
               else (case plain_key code of
                   Some k \<Rightarrow> (s, ev\<lparr>ev_type := k, ev_mods := s_mods s\<rparr>, True)
                 | None \<Rightarrow>
                     let ch = key_char (s_mods s) code
                     in if ch = 0 then (s, ev, False)
                        else (s, ev\<lparr>ev_type := KEY_CHAR, ev_ch := ucast ch, ev_mods := s_mods s\<rparr>, True)))"

text \<open>The serial line is asked only when the keyboard has no event; \<open>c\<close> is what \<open>serial_try_getc\<close>
  returns, -1 for nothing.\<close>

definition input_try_read_event ::
  "input_state \<Rightarrow> u8 option \<Rightarrow> int \<Rightarrow> key_event \<Rightarrow> input_state \<times> key_event \<times> bool" where
  "input_try_read_event s sco c ev =
     (let (s1, ev1, got) = ps2_try_read_event_internal s sco ev;
          ev2 = ev1\<lparr>ev_mods := 0, ev_ch := 0\<rparr>
      in if got then (s1, ev1, True)
         else if c \<ge> 0
         then if c = 13 \<or> c = 10 then (s1, ev2\<lparr>ev_type := KEY_ENTER\<rparr>, True)
              else if c = 8 \<or> c = 127 then (s1, ev2\<lparr>ev_type := KEY_BACKSPACE\<rparr>, True)
              else if c = 27 then (s1, ev2\<lparr>ev_type := KEY_ESC\<rparr>, True)
              else if c = 9 then (s1, ev2\<lparr>ev_type := KEY_TAB\<rparr>, True)
              else if c \<ge> 32 \<and> c < 127 then (s1, ev2\<lparr>ev_type := KEY_CHAR, ev_ch := of_int c\<rparr>, True)
              else (s1, ev2, False)
         else (s1, ev1, False))"

definition input_try_getc :: "input_state \<Rightarrow> u8 option \<Rightarrow> int \<Rightarrow> key_event \<Rightarrow> input_state \<times> int" where
  "input_try_getc s sco c ev =
     (let (s1, ev1, got) = input_try_read_event s sco c ev
      in if \<not> got then (s1, -1)
         else case ev_type ev1 of
             KEY_CHAR \<Rightarrow> (s1, uint (ev_ch ev1 AND 0xFF))
           | KEY_ENTER \<Rightarrow> (s1, 10)
           | KEY_BACKSPACE \<Rightarrow> (s1, 8)
           | _ \<Rightarrow> (s1, -1))"

text \<open>\<open>input_read_event\<close> spins over what the ports deliver, one poll after another; it waits forever
  when they deliver nothing more.\<close>

fun input_read_event ::
  "input_state \<Rightarrow> (u8 option \<times> int) list \<Rightarrow> key_event \<Rightarrow>
   (input_state \<times> key_event \<times> (u8 option \<times> int) list) option" where
  "input_read_event s [] ev = None"
| "input_read_event s ((sco, c) # polls) ev =
     (let (s1, ev1, got) = input_try_read_event s sco c ev
      in if got then Some (s1, ev1, polls) else input_read_event s1 polls ev1)"

fun input_getc ::
  "input_state \<Rightarrow> (u8 option \<times> int) list \<Rightarrow> key_event \<Rightarrow> (input_state \<times> int \<times> (u8 option \<times> int) list) option" where
  "input_getc s [] ev = None"
| "input_getc s ((sco, c) # polls) ev =
     (let (s1, r) = input_try_getc s sco c ev
      in if r < 0 then input_getc s1 polls ev else Some (s1, r, polls))"

section \<open>The line editor\<close>

datatype con_op = Putc char | Page_Up | Page_Down | Page_Home | Page_End

text \<open>The buffer is an array of \<open>max_len\<close> characters; \<open>len\<close> and \<open>cur\<close> stay below \<open>max_len\<close>, so their
  arithmetic does not wrap.\<close>

record editor =
  e_buf :: "char list"
  e_len :: nat
  e_cur :: nat

definition BS :: char where "BS = CHR 0x08"

text \<open>\<open>for (i = a; i + 1 < len; ++i) buf[i] = buf[i+1]\<close>\<close>

function move_left :: "char list \<Rightarrow> nat \<Rightarrow> nat \<Rightarrow> char list" where
  "move_left buf i len = (if i + 1 < len then move_left (buf[i := buf ! (i + 1)]) (i + 1) len else buf)"
  by pat_completeness auto
termination by (relation "measure (\<lambda>(buf, i, len). len - i)") auto

text \<open>\<open>for (i = len; i > cur; --i) buf[i] = buf[i-1]\<close>\<close>

function move_right :: "char list \<Rightarrow> nat \<Rightarrow> nat \<Rightarrow> char list" where
  "move_right buf i cur = (if i > cur then move_right (buf[i := buf ! (i - 1)]) (i - 1) cur else buf)"
  by pat_completeness auto
termination by (relation "measure (\<lambda>(buf, i, cur). i - cur)") auto

declare move_left.simps [simp del] move_right.simps [simp del]

text \<open>\<open>for (k = i; k < len; ++k) console_putc(buf[k])\<close>\<close>

definition print_range :: "char list \<Rightarrow> nat \<Rightarrow> nat \<Rightarrow> con_op list" where
  "print_range buf i len = map (\<lambda>k. Putc (buf ! k)) [i..<len]"

definition reprint_from :: "char list \<Rightarrow> nat \<Rightarrow> nat \<Rightarrow> con_op list" where
  "reprint_from buf i len = print_range buf i len @ replicate (len - i) (Putc BS)"

definition edit_key :: "nat \<Rightarrow> key_event \<Rightarrow> editor \<Rightarrow> editor \<times> con_op list" where
  "edit_key max_len ev e =
     (let buf = e_buf e; len = e_len e; cur = e_cur e
      in case ev_type ev of
        KEY_PGUP \<Rightarrow> (e, [Page_Up])
      | KEY_PGDN \<Rightarrow> (e, [Page_Down])
      | KEY_LEFT \<Rightarrow> if cur > 0 then (e\<lparr>e_cur := cur - 1\<rparr>, [Putc BS]) else (e, [])
      | KEY_RIGHT \<Rightarrow> if cur < len then (e\<lparr>e_cur := cur + 1\<rparr>, [Putc (buf ! cur)]) else (e, [])
      | KEY_HOME \<Rightarrow> if ev_mods ev AND MOD_CTRL \<noteq> 0 then (e, [Page_Home])
          else (e\<lparr>e_cur := 0\<rparr>, replicate cur (Putc BS))
      | KEY_END \<Rightarrow> if ev_mods ev AND MOD_CTRL \<noteq> 0 then (e, [Page_End])
          else (e\<lparr>e_cur := len\<rparr>, print_range buf cur len)
      | KEY_BACKSPACE \<Rightarrow>
          if cur > 0
          then
            let buf1 = move_left buf (cur - 1) len
            in (e\<lparr>e_buf := buf1, e_cur := cur - 1, e_len := len - 1\<rparr>,
                Putc BS # print_range buf1 (cur - 1) (len - 1) @ [Putc CHR '' ''] @ replicate (len - (cur - 1)) (Putc BS))
          else (e, [])
      | KEY_DELETE \<Rightarrow>
          if cur < len
          then
            let buf1 = move_left buf cur len
            in (e\<lparr>e_buf := buf1, e_len := len - 1\<rparr>,
                print_range buf1 cur (len - 1) @ [Putc CHR '' ''] @ replicate (len - cur) (Putc BS))
          else (e, [])
      | KEY_CHAR \<Rightarrow>
          if len + 1 < max_len
          then
            let c = char_of (unat (ev_ch ev));
                buf1 = (move_right buf len cur)[cur := c]
            in (e\<lparr>e_buf := buf1, e_len := len + 1, e_cur := cur + 1\<rparr>,
                Putc c # reprint_from buf1 (cur + 1) (len + 1))
          else (e, [])
      | _ \<Rightarrow> (e, []))"

text \<open>The loop over the key events that arrive, until Enter.\<close>

fun edit_loop :: "nat \<Rightarrow> key_event list \<Rightarrow> editor \<Rightarrow> (editor \<times> con_op list \<times> key_event list) option" where
  "edit_loop max_len [] e = None"
| "edit_loop max_len (ev # evs) e =
     (if ev_type ev = KEY_ENTER then Some (e, [Putc CHR 0x0A], evs)
      else let (e1, out) = edit_key max_len ev e
           in map_option (\<lambda>(e2, out2, rest). (e2, out @ out2, rest)) (edit_loop max_len evs e1))"

text \<open>The result: the buffer, the returned length, the console calls and the events not read.\<close>

definition input_readline :: "char list \<Rightarrow> nat \<Rightarrow> key_event list \<Rightarrow> (char list \<times> nat \<times> con_op list \<times> key_event list) option" where
  "input_readline buf max_len evs =
     (if max_len = 0 then Some (buf, 0, [], evs)
      else map_option (\<lambda>(e, out, rest). (e_buf e, e_len e, out, rest))
        (edit_loop max_len evs \<lparr>e_buf = buf, e_len = 0, e_cur = 0\<rparr>))"

end
