(* ===== verification/Input_Correct.thy ===== *)
theory Input_Correct
  imports Input
begin

text \<open>
  The line editor against its specification: a line is the text before and the text after the
  cursor; every key is a change of these two. The trace of console calls is replayed on a row of
  the screen and shows the line at every moment. The scancode decoder is shown to invert the
  encoding of key strokes.
\<close>

section \<open>Buffer moves\<close>

lemma move_left_nth:
  "length (move_left buf i len) = length buf"
  "len \<le> length buf \<Longrightarrow> j < length buf \<Longrightarrow> move_left buf i len ! j = (if i \<le> j \<and> j + 1 < len then buf ! (j + 1) else buf ! j)"
proof (induction buf i len rule: move_left.induct)
  case (1 buf i len)
  {
    case 1
    show ?case using "1.IH"(1) by (subst move_left.simps) simp
  next
    case 2
    show ?case using "1.IH"(2) 2 by (subst move_left.simps) (auto simp: nth_list_update le_less_Suc_eq Suc_le_eq le_less)
  }
qed

lemma move_right_nth:
  "length (move_right buf i cur) = length buf"
  "i < length buf \<Longrightarrow> j < length buf \<Longrightarrow> move_right buf i cur ! j = (if cur < j \<and> j \<le> i then buf ! (j - 1) else buf ! j)"
proof (induction buf i cur rule: move_right.induct)
  case (1 buf i cur)
  {
    case 1
    show ?case using "1.IH"(1) by (subst move_right.simps) simp
  next
    case 2
    show ?case using "1.IH"(2) 2 by (subst move_right.simps) (auto simp: nth_list_update)
  }
qed

lemma delete_at:
  assumes "i < len" "len \<le> length buf"
  shows "take (len - 1) (move_left buf i len) = take i buf @ drop (Suc i) (take len buf)"
proof (rule nth_equalityI)
  show "length (take (len - 1) (move_left buf i len)) = length (take i buf @ drop (Suc i) (take len buf))"
    using assms by (simp add: move_left_nth)
  fix j assume "j < length (take (len - 1) (move_left buf i len))"
  then have "j < len - 1" "j < length buf" using assms(2) by (simp_all add: move_left_nth)
  then show "take (len - 1) (move_left buf i len) ! j = (take i buf @ drop (Suc i) (take len buf)) ! j"
    using assms by (auto simp: move_left_nth nth_append)
qed

lemma insert_at:
  assumes "cur \<le> len" "len < length buf"
  shows "take (Suc len) ((move_right buf len cur)[cur := c]) = take cur buf @ c # drop cur (take len buf)"
proof (rule nth_equalityI)
  show "length (take (Suc len) ((move_right buf len cur)[cur := c])) = length (take cur buf @ c # drop cur (take len buf))"
    using assms by (simp add: move_right_nth)
  fix j assume "j < length (take (Suc len) ((move_right buf len cur)[cur := c]))"
  then have "j < Suc len" "j < length buf" using assms(2) by (simp_all add: move_right_nth)
  then show "take (Suc len) ((move_right buf len cur)[cur := c]) ! j = (take cur buf @ c # drop cur (take len buf)) ! j"
    using assms by (auto simp: move_right_nth nth_append nth_list_update nth_Cons')
qed

lemma move_right_take: "len < length buf \<Longrightarrow> take cur (move_right buf len cur) = take cur buf"
  by (rule nth_equalityI) (auto simp: move_right_nth)

lemma move_left_take: "len \<le> length buf \<Longrightarrow> take i (move_left buf i len) = take i buf"
  by (rule nth_equalityI) (auto simp: move_left_nth)

section \<open>The specification of the editor\<close>

type_synonym line = "string \<times> string"

fun line_key :: "nat \<Rightarrow> key_event \<Rightarrow> line \<Rightarrow> line" where
  "line_key max_len ev (l, r) =
     (case ev_type ev of
        KEY_LEFT \<Rightarrow> if l = [] then (l, r) else (butlast l, last l # r)
      | KEY_RIGHT \<Rightarrow> (case r of [] \<Rightarrow> (l, r) | c # r' \<Rightarrow> (l @ [c], r'))
      | KEY_HOME \<Rightarrow> if ev_mods ev AND MOD_CTRL \<noteq> 0 then (l, r) else ([], l @ r)
      | KEY_END \<Rightarrow> if ev_mods ev AND MOD_CTRL \<noteq> 0 then (l, r) else (l @ r, [])
      | KEY_BACKSPACE \<Rightarrow> (butlast l, r)
      | KEY_DELETE \<Rightarrow> (l, tl r)
      | KEY_CHAR \<Rightarrow> if length l + length r + 1 < max_len then (l @ [char_of (unat (ev_ch ev))], r) else (l, r)
      | _ \<Rightarrow> (l, r))"

definition line_of :: "editor \<Rightarrow> line" where
  "line_of e = (take (e_cur e) (e_buf e), drop (e_cur e) (take (e_len e) (e_buf e)))"

definition editor_ok :: "nat \<Rightarrow> editor \<Rightarrow> bool" where
  "editor_ok max_len e \<longleftrightarrow> length (e_buf e) = max_len \<and> e_len e < max_len \<and> e_cur e \<le> e_len e"

lemma edit_key_refines:
  assumes "editor_ok max_len e"
  shows "editor_ok max_len (fst (edit_key max_len ev e))"
    and "line_of (fst (edit_key max_len ev e)) = line_key max_len ev (line_of e)"
proof -
  obtain buf len cur where e: "e_buf e = buf" "e_len e = len" "e_cur e = cur" by simp
  have b: "length buf = max_len" "len < max_len" "cur \<le> len" using assms e by (simp_all add: editor_ok_def)
  have lens: "length (take cur buf) = cur" "length (drop cur (take len buf)) = len - cur"
    using b by simp_all
  have dc: "drop k (take len buf) = buf ! k # drop (Suc k) (take len buf)" if "k < len" for k
    using Cons_nth_drop_Suc [of k "take len buf"] that b by simp
  have tt: "take cur buf @ drop cur (take len buf) = take len buf"
    using b(3) by (metis append_take_drop_id min.absorb1 take_take)
  have z: "line_of e = (take cur buf, drop cur (take len buf))" using e by (simp add: line_of_def)
  show "editor_ok max_len (fst (edit_key max_len ev e))"
    using b e by (cases "ev_type ev") (auto simp: edit_key_def editor_ok_def Let_def move_left_nth move_right_nth)
  show "line_of (fst (edit_key max_len ev e)) = line_key max_len ev (line_of e)"
  proof (cases "ev_type ev")
    case KEY_CHAR
    then show ?thesis unfolding z using b e insert_at [OF b(3), of buf "char_of (unat (ev_ch ev))"] lens
      by (auto simp: edit_key_def line_of_def Let_def take_Suc_conv_app_nth move_right_nth move_right_take)
  next
    case KEY_BACKSPACE
    then show ?thesis unfolding z using b e delete_at [of "cur - 1" len buf] lens
      by (cases cur) (auto simp: edit_key_def line_of_def Let_def butlast_take move_left_take)
  next
    case KEY_DELETE
    then show ?thesis unfolding z using b e delete_at [of cur len buf] lens
      by (auto simp: edit_key_def line_of_def Let_def tl_drop drop_Suc move_left_take)
  next
    case KEY_LEFT
    then show ?thesis unfolding z using b e
      by (cases cur) (auto simp: edit_key_def line_of_def Let_def butlast_take take_Suc_conv_app_nth dc)
  next
    case KEY_RIGHT
    then show ?thesis unfolding z using b e
      by (cases "cur < len") (auto simp: edit_key_def line_of_def Let_def take_Suc_conv_app_nth dc)
  next
    case KEY_HOME
    then show ?thesis unfolding z using b e tt by (auto simp: edit_key_def line_of_def Let_def)
  next
    case KEY_END
    then show ?thesis unfolding z using b e tt by (auto simp: edit_key_def line_of_def Let_def)
  qed (simp_all add: edit_key_def Let_def z)
qed

section \<open>The screen\<close>

text \<open>A row of the screen wide enough for the line: its characters and the cursor's column. The
  calls that move the view leave it alone.\<close>

type_synonym row = "(nat \<Rightarrow> char) \<times> nat"

fun row_op :: "con_op \<Rightarrow> row \<Rightarrow> row" where
  "row_op (Putc c) (cells, col) = (if c = BS then (cells, col - 1) else (cells(col := c), col + 1))"
| "row_op _ r = r"

definition replay :: "con_op list \<Rightarrow> row \<Rightarrow> row" where
  "replay ops r = fold row_op ops r"

lemma replay_simps [simp]:
  "replay [] r = r" "replay (op # ops) r = replay ops (row_op op r)" "replay (xs @ ys) r = replay ys (replay xs r)"
  by (simp_all add: replay_def)

lemma replay_back [simp]: "replay (replicate k (Putc BS)) (cells, col) = (cells, col - k)"
  by (induction k arbitrary: col) simp_all

lemma replay_print:
  assumes "BS \<notin> set (take (len - i) (drop i buf))" "len \<le> length buf"
  shows "replay (print_range buf i len) (cells, col) =
    (\<lambda>x. if col \<le> x \<and> x < col + (len - i) then buf ! (i + (x - col)) else cells x, col + (len - i))"
  using assms
proof (induction "len - i" arbitrary: i cells col)
  case 0
  then show ?case by (auto simp: print_range_def fun_eq_iff)
next
  case (Suc n)
  then have i: "i < len" "i < length buf" by simp_all
  have c: "buf ! i \<noteq> BS" "BS \<notin> set (take (len - Suc i) (drop (Suc i) buf))"
    using Suc.prems(1) i by (auto simp: take_Cons' Cons_nth_drop_Suc [symmetric] split: if_splits)
  have p: "print_range buf i len = Putc (buf ! i) # print_range buf (Suc i) len"
    using i by (simp add: print_range_def upt_conv_Cons)
  have n: "len - i = Suc (len - Suc i)" using i by simp
  have "n = len - Suc i" using Suc.hyps(2) by simp
  from Suc.hyps(1) [OF this c(2) Suc.prems(2), of "cells(col := buf ! i)" "Suc col"]
  show ?case unfolding p n using c(1)
    by (auto simp: fun_eq_iff not_le less_Suc_eq_le intro!: arg_cong [of _ _ "nth buf"])
qed

text \<open>From column \<open>p\<close> on the row shows \<open>l @ r\<close> and then blanks, with the cursor between \<open>l\<close> and \<open>r\<close>.\<close>

definition shows_line :: "nat \<Rightarrow> line \<Rightarrow> row \<Rightarrow> bool" where
  "shows_line p z row \<longleftrightarrow> snd row = p + length (fst z) \<and>
     (\<forall>i. fst row (p + i) = (if i < length (fst z @ snd z) then (fst z @ snd z) ! i else CHR '' ''))"

definition printable :: "key_event \<Rightarrow> bool" where
  "printable ev \<longleftrightarrow> ev_type ev = KEY_CHAR \<longrightarrow> char_of (unat (ev_ch ev)) \<noteq> BS"

text \<open>Printing the rest of a text over the old one.\<close>

lemma redraw:
  assumes t: "t = take n buf" "n \<le> length buf" "BS \<notin> set t" and q: "q \<le> n"
    and old: "\<forall>i < q. cells (p + i) = t ! i"
  obtains cells' where "replay (print_range buf q n) (cells, p + q) = (cells', p + n)"
    "\<forall>i < n. cells' (p + i) = t ! i" "\<forall>i \<ge> n. cells' (p + i) = cells (p + i)"
proof -
  have "set (take (n - q) (drop q buf)) \<subseteq> set t" unfolding t(1) by (metis drop_take set_drop_subset)
  then have "BS \<notin> set (take (n - q) (drop q buf))" using t(3) by blast
  from replay_print [OF this t(2), of cells "p + q"] show ?thesis
    using that q old t by (auto simp: add.commute)
qed

lemma line_text: "editor_ok max_len e \<Longrightarrow> fst (line_of e) @ snd (line_of e) = take (e_len e) (e_buf e)"
  by (simp add: line_of_def editor_ok_def) (metis append_take_drop_id min.absorb1 take_take)

lemma shows_line_iff:
  assumes "editor_ok max_len e"
  shows "shows_line p (line_of e) (cells, col) \<longleftrightarrow> col = p + e_cur e \<and>
    (\<forall>i < e_len e. cells (p + i) = e_buf e ! i) \<and> (\<forall>i \<ge> e_len e. cells (p + i) = CHR '' '')"
proof -
  have "length (fst (line_of e)) = e_cur e" "length (take (e_len e) (e_buf e)) = e_len e"
    using assms by (simp_all add: line_of_def editor_ok_def)
  then show ?thesis unfolding shows_line_def line_text [OF assms] by (auto simp: not_less)
qed

text \<open>The keys that change the text.\<close>

lemma char_shown:
  assumes ok: "editor_ok max_len e" and row: "shows_line p (line_of e) (cells, col)"
    and ev: "ev_type ev = KEY_CHAR" "char_of (unat (ev_ch ev)) \<noteq> BS" and bs: "BS \<notin> set (take (e_len e) (e_buf e))"
  shows "shows_line p (line_of (fst (edit_key max_len ev e))) (replay (snd (edit_key max_len ev e)) (cells, col))"
proof (cases "e_len e + 1 < max_len")
  case False
  then show ?thesis using row ev(1) by (simp add: edit_key_def Let_def)
next
  case True
  obtain buf len cur where e: "e_buf e = buf" "e_len e = len" "e_cur e = cur" by simp
  have b: "length buf = max_len" "len < max_len" "cur \<le> len" using ok e by (simp_all add: editor_ok_def)
  let ?c = "char_of (unat (ev_ch ev)) :: char"
  let ?b1 = "(move_right buf len cur)[cur := ?c]"
  have r: "col = p + cur" "\<forall>i < len. cells (p + i) = buf ! i" "\<forall>i \<ge> len. cells (p + i) = CHR '' ''"
    using row e unfolding shows_line_iff [OF ok] by simp_all
  have lb: "length ?b1 = max_len" using b by (simp add: move_right_nth)
  have t: "take (Suc len) ?b1 = take cur buf @ ?c # drop cur (take len buf)" using b by (intro insert_at) simp_all
  have "set (take (Suc len) ?b1) \<subseteq> insert ?c (set (take len buf))"
    unfolding t using b(3) by (auto dest: in_set_dropD intro: set_take_subset_set_take [THEN subsetD])
  then have nb: "BS \<notin> set (take (Suc len) ?b1)" using ev(2) bs e by auto
  have old: "\<forall>i < Suc cur. (cells(p + cur := ?c)) (p + i) = take (Suc len) ?b1 ! i"
  proof (intro allI impI)
    fix i assume "i < Suc cur"
    then show "(cells(p + cur := ?c)) (p + i) = take (Suc len) ?b1 ! i"
      using r(2) b by (cases "i = cur") (simp_all add: move_right_nth)
  qed
  obtain cells' where c': "replay (print_range ?b1 (Suc cur) (Suc len)) (cells(p + cur := ?c), p + Suc cur) = (cells', p + Suc len)"
    "\<forall>i < Suc len. cells' (p + i) = take (Suc len) ?b1 ! i" "\<forall>i \<ge> Suc len. cells' (p + i) = (cells(p + cur := ?c)) (p + i)"
    using redraw [OF refl _ nb _ old] b lb by (metis Suc_le_eq Suc_le_mono)
  have ek: "edit_key max_len ev e = (e\<lparr>e_buf := ?b1, e_len := len + 1, e_cur := cur + 1\<rparr>, Putc ?c # reprint_from ?b1 (cur + 1) (len + 1))"
    using ev(1) e True by (simp add: edit_key_def Let_def)
  have "editor_ok max_len (fst (edit_key max_len ev e))" by (rule edit_key_refines(1) [OF ok])
  then show ?thesis unfolding ek using ev(2) r(1,3) c' b
    by (simp add: shows_line_iff reprint_from_def)
qed

lemma removal_shown:
  assumes ok: "editor_ok max_len e" and r: "\<forall>i < e_len e. cells (p + i) = e_buf e ! i" "\<forall>i \<ge> e_len e. cells (p + i) = CHR '' ''"
    and q: "q < e_len e" and bs: "BS \<notin> set (take (e_len e) (e_buf e))"
    and e': "e' = e\<lparr>e_buf := move_left (e_buf e) q (e_len e), e_cur := q, e_len := e_len e - 1\<rparr>"
  shows "shows_line p (line_of e') (replay (print_range (e_buf e') q (e_len e') @ [Putc CHR '' ''] @
    replicate (e_len e - q) (Putc BS)) (cells, p + q))"
proof -
  obtain buf len where e: "e_buf e = buf" "e_len e = len" by simp
  have b: "length buf = max_len" "len < max_len" "q < len" using ok e q by (simp_all add: editor_ok_def)
  let ?b1 = "move_left buf q len"
  have t: "take (len - 1) ?b1 = take q buf @ drop (Suc q) (take len buf)" using b by (intro delete_at) simp_all
  have "set (take (len - 1) ?b1) \<subseteq> set (take len buf)"
    unfolding t using b(3) set_take_subset_set_take [of q len buf] by (auto dest: in_set_dropD)
  then have nb: "BS \<notin> set (take (len - 1) ?b1)" using bs e by auto
  have le: "len - 1 \<le> length ?b1" "q \<le> len - 1" using b by (auto simp: move_left_nth)
  have old: "\<forall>i < q. cells (p + i) = take (len - 1) ?b1 ! i" using r(1) b e by (auto simp: move_left_nth)
  obtain cells' where c': "replay (print_range ?b1 q (len - 1)) (cells, p + q) = (cells', p + (len - 1))"
    "\<forall>i < len - 1. cells' (p + i) = take (len - 1) ?b1 ! i" "\<forall>i \<ge> len - 1. cells' (p + i) = cells (p + i)"
    using redraw [OF refl _ nb _ old] le by blast
  have ok': "editor_ok max_len e'" using b e by (auto simp: e' editor_ok_def move_left_nth)
  have sp: "CHR '' '' \<noteq> BS" by (simp add: BS_def)
  have "p + Suc (len - 1) - (len - q) = p + q" using b by simp
  then have row: "replay (print_range (e_buf e') q (e_len e') @ [Putc CHR '' ''] @ replicate (e_len e - q) (Putc BS)) (cells, p + q) =
      (cells'(p + (len - 1) := CHR '' ''), p + q)"
    using c'(1) sp e unfolding e' by simp
  have "(cells'(p + (len - 1) := CHR '' '')) (p + i) = CHR '' ''" if "len - 1 \<le> i" for i
    using c'(3) r(2) e that by (cases "i = len - 1") auto
  then show ?thesis unfolding row shows_line_iff [OF ok'] using c'(2) e by (auto simp: e')
qed

lemma edit_key_shown:
  assumes ok: "editor_ok max_len e" and row: "shows_line p (line_of e) (cells, col)" and ev: "printable ev"
    and bs: "BS \<notin> set (take (e_len e) (e_buf e))"
  shows "shows_line p (line_of (fst (edit_key max_len ev e))) (replay (snd (edit_key max_len ev e)) (cells, col))"
proof -
  have b: "length (e_buf e) = max_len" "e_len e < max_len" "e_cur e \<le> e_len e" using ok by (simp_all add: editor_ok_def)
  note r = row [unfolded shows_line_iff [OF ok]]
  have nb: "e_buf e ! i \<noteq> BS" if "i < e_len e" for i
  proof -
    have "e_buf e ! i \<in> set (take (e_len e) (e_buf e))" using that b by (auto simp: in_set_conv_nth)
    then show ?thesis using bs by metis
  qed
  have ok': "editor_ok max_len (fst (edit_key max_len ev e))" by (rule edit_key_refines(1) [OF ok])
  show ?thesis
  proof (cases "ev_type ev")
    case KEY_CHAR
    then show ?thesis using char_shown [OF ok row _ _ bs] ev by (simp add: printable_def)
  next
    case KEY_BACKSPACE
    show ?thesis
    proof (cases "e_cur e = 0")
      case False
      then have "e_cur e - 1 < e_len e" using b by simp
      from removal_shown [OF ok _ _ this bs refl, of cells p] show ?thesis
        using r False KEY_BACKSPACE by (simp add: edit_key_def Let_def)
    qed (use row KEY_BACKSPACE in \<open>simp add: edit_key_def Let_def\<close>)
  next
    case KEY_DELETE
    show ?thesis
    proof (cases "e_cur e < e_len e")
      case True
      from removal_shown [OF ok _ _ True bs refl, of cells p] show ?thesis
        using r True KEY_DELETE by (simp add: edit_key_def Let_def)
    qed (use row KEY_DELETE in \<open>simp add: edit_key_def Let_def\<close>)
  next
    case KEY_LEFT
    then show ?thesis using r row shows_line_iff [OF ok', of p]
      by (cases "e_cur e") (auto simp: edit_key_def Let_def)
  next
    case KEY_RIGHT
    then show ?thesis using r nb [of "e_cur e"] row shows_line_iff [OF ok', of p]
      by (cases "e_cur e < e_len e") (auto simp: edit_key_def Let_def)
  next
    case KEY_HOME
    then show ?thesis using r row shows_line_iff [OF ok', of p] by (auto simp: edit_key_def Let_def)
  next
    case KEY_END
    have "\<forall>i < e_cur e. cells (p + i) = take (e_len e) (e_buf e) ! i" using r b by simp
    then obtain cells' where "replay (print_range (e_buf e) (e_cur e) (e_len e)) (cells, p + e_cur e) = (cells', p + e_len e)"
      "\<forall>i < e_len e. cells' (p + i) = take (e_len e) (e_buf e) ! i" "\<forall>i \<ge> e_len e. cells' (p + i) = cells (p + i)"
      using redraw [OF refl _ bs b(3), of cells p] b(1,2) by (metis less_imp_le)
    then show ?thesis using KEY_END r row shows_line_iff [OF ok', of p] by (auto simp: edit_key_def Let_def)
  qed (use row in \<open>simp_all add: edit_key_def Let_def\<close>)
qed

lemma line_key_chars:
  assumes "BS \<notin> set (fst z) \<union> set (snd z)" "printable ev"
  shows "BS \<notin> set (fst (line_key max_len ev z)) \<union> set (snd (line_key max_len ev z))"
proof -
  have "x \<in> set (tl xs) \<Longrightarrow> x \<in> set xs" for x :: char and xs by (cases xs) simp_all
  moreover have "xs \<noteq> [] \<Longrightarrow> x \<notin> set xs \<Longrightarrow> x \<noteq> last xs" for x :: char and xs by auto
  ultimately show ?thesis using assms
    by (cases z; cases "ev_type ev") (auto simp: printable_def dest: in_set_butlastD split: list.splits)
qed

lemma edit_loop_ok:
  assumes "editor_ok max_len e" "\<forall>ev \<in> set evs. printable ev \<and> ev_type ev \<noteq> KEY_ENTER" "ev_type en = KEY_ENTER"
    and "BS \<notin> set (take (e_len e) (e_buf e))" "shows_line p (line_of e) row"
  shows "\<exists>e' out. edit_loop max_len (evs @ en # rest) e = Some (e', out @ [Putc CHR 0x0A], rest) \<and> editor_ok max_len e' \<and>
    line_of e' = fold (line_key max_len) evs (line_of e) \<and> shows_line p (line_of e') (replay out row)"
  using assms
proof (induction evs arbitrary: e row)
  case Nil
  then show ?case by (intro exI [of _ e] exI [of _ "[]"]) simp
next
  case (Cons ev evs)
  let ?e1 = "fst (edit_key max_len ev e)" and ?out = "snd (edit_key max_len ev e)"
  have ev: "printable ev" "ev_type ev \<noteq> KEY_ENTER" using Cons.prems(2) by simp_all
  have ok1: "editor_ok max_len ?e1" and l1: "line_of ?e1 = line_key max_len ev (line_of e)"
    by (rule edit_key_refines [OF Cons.prems(1)])+
  have row1: "shows_line p (line_of ?e1) (replay ?out row)"
    using edit_key_shown [OF Cons.prems(1) _ ev(1) Cons.prems(4), of p "fst row" "snd row"] Cons.prems(5) by simp
  have "BS \<notin> set (fst (line_of e)) \<union> set (snd (line_of e))"
    using Cons.prems(4) unfolding line_text [OF Cons.prems(1), symmetric] by simp
  then have "BS \<notin> set (take (e_len ?e1) (e_buf ?e1))"
    using line_key_chars [OF _ ev(1), of "line_of e" max_len] unfolding line_text [OF ok1, symmetric] l1 by simp
  from Cons.IH [OF ok1 _ Cons.prems(3) this row1] obtain e' out where
    "edit_loop max_len (evs @ en # rest) ?e1 = Some (e', out @ [Putc CHR 0x0A], rest)" "editor_ok max_len e'"
    "line_of e' = fold (line_key max_len) evs (line_of ?e1)" "shows_line p (line_of e') (replay out (replay ?out row))"
    using Cons.prems(2) by auto
  then show ?case using ev(2) l1
    by (intro exI [of _ e'] exI [of _ "?out @ out"]) (simp add: split_beta)
qed

text \<open>
  C23. Reading a line: once Enter arrives \<open>input_readline\<close> returns. The characters stored and the
  length returned are those of the line that the keys before Enter make when each of them is
  applied to a line with a cursor (insert, delete, move); at most \<open>max_len - 1\<close> characters are
  taken and nothing is stored outside the buffer. Replayed on a blank row the console calls show
  exactly that line, with the cursor at its place.
\<close>

theorem input_readline_edits:
  assumes buf: "length buf = max_len" "0 < max_len"
    and evs: "\<forall>ev \<in> set evs. printable ev \<and> ev_type ev \<noteq> KEY_ENTER" "ev_type en = KEY_ENTER"
    and line: "fold (line_key max_len) evs ([], []) = (l, r)"
    and blank: "\<forall>i. cells (p + i) = CHR '' ''"
  shows "\<exists>buf' out. input_readline buf max_len (evs @ en # rest) = Some (buf', length (l @ r), out @ [Putc CHR 0x0A], rest) \<and>
    length buf' = max_len \<and> take (length (l @ r)) buf' = l @ r \<and> length (l @ r) < max_len \<and>
    shows_line p (l, r) (replay out (cells, p))"
proof -
  let ?e = "\<lparr>e_buf = buf, e_len = 0, e_cur = 0\<rparr>"
  have ok: "editor_ok max_len ?e" using buf by (simp add: editor_ok_def)
  have z: "line_of ?e = ([], [])" by (simp add: line_of_def)
  have row: "shows_line p (line_of ?e) (cells, p)" using blank z by (simp add: shows_line_def)
  obtain e' out where e': "edit_loop max_len (evs @ en # rest) ?e = Some (e', out @ [Putc CHR 0x0A], rest)" "editor_ok max_len e'"
    "line_of e' = (l, r)" "shows_line p (l, r) (replay out (cells, p))"
    using edit_loop_ok [OF ok evs _ row, of rest] line z by auto
  have t: "take (e_len e') (e_buf e') = l @ r" using line_text [OF e'(2)] e'(3) by simp
  moreover have "length (take (e_len e') (e_buf e')) = e_len e'" using e'(2) by (simp add: editor_ok_def)
  ultimately have "e_len e' = length (l @ r)" by simp
  then show ?thesis using e' t buf by (auto simp: input_readline_def editor_ok_def)
qed

theorem input_readline_edits_witness:
  "\<exists>buf' out. input_readline (replicate 8 CHR ''?'') 8
     (map (\<lambda>c. \<lparr>ev_type = KEY_CHAR, ev_ch = c, ev_mods = 0\<rparr>) [0x61, 0x63] @
      [\<lparr>ev_type = KEY_LEFT, ev_ch = 0, ev_mods = 0\<rparr>, \<lparr>ev_type = KEY_CHAR, ev_ch = 0x62, ev_mods = 0\<rparr>] @
      [\<lparr>ev_type = KEY_ENTER, ev_ch = 0, ev_mods = 0\<rparr>]) = Some (buf', 3, out, []) \<and> take 3 buf' = ''abc''"
proof -
  let ?evs = "[\<lparr>ev_type = KEY_CHAR, ev_ch = 0x61, ev_mods = 0\<rparr>, \<lparr>ev_type = KEY_CHAR, ev_ch = 0x63, ev_mods = 0\<rparr>,
    \<lparr>ev_type = KEY_LEFT, ev_ch = 0, ev_mods = 0\<rparr>, \<lparr>ev_type = KEY_CHAR, ev_ch = 0x62, ev_mods = 0\<rparr>]"
  have c: "char_of (97 :: nat) = CHR ''a''" "char_of (98 :: nat) = CHR ''b''" "char_of (99 :: nat) = CHR ''c''"
    by code_simp+
  have p: "\<forall>ev \<in> set ?evs. printable ev \<and> ev_type ev \<noteq> KEY_ENTER" by (simp add: printable_def BS_def c)
  have l: "fold (line_key 8) ?evs ([], []) = (''ab'', ''c'')" by (simp add: c)
  show ?thesis
    using input_readline_edits [OF _ _ p _ l, of "replicate 8 CHR ''?''" "\<lparr>ev_type = KEY_ENTER, ev_ch = 0, ev_mods = 0\<rparr>"
      "\<lambda>_. CHR '' ''" 0 "[]"] by (auto simp: eval_nat_numeral)
qed

section \<open>Key strokes\<close>

text \<open>Keys as the user sees them, the scancodes a keyboard sends for them, and what pressing and
  releasing them means: the modifiers held or locked, and the events.\<close>

datatype key = Shift bool | Ctrl bool | Alt bool | Caps | Nav u8 | Plain u8

datatype stroke = Press key | Release key

fun key_ok :: "key \<Rightarrow> bool" where
  "key_ok (Nav c) \<longleftrightarrow> c < 0x80 \<and> c \<noteq> 0x1D \<and> c \<noteq> 0x38 \<and> c \<noteq> 0x60 \<and> c \<noteq> 0x61"
| "key_ok (Plain c) \<longleftrightarrow> c < 0x60 \<and> c \<notin> {0x2A, 0x36, 0x1D, 0x38, 0x3A}"
| "key_ok _ = True"

text \<open>The flag of a two-sided modifier key says whether it is the right one.\<close>

fun make_code :: "key \<Rightarrow> u8 list" where
  "make_code (Shift r) = [if r then 0x36 else 0x2A]"
| "make_code (Ctrl r) = (if r then [0xE0, 0x1D] else [0x1D])"
| "make_code (Alt r) = (if r then [0xE0, 0x38] else [0x38])"
| "make_code Caps = [0x3A]"
| "make_code (Nav c) = [0xE0, c]"
| "make_code (Plain c) = [c]"

text \<open>A release sends the same codes with the top bit set in the last one.\<close>

fun stroke_codes :: "stroke \<Rightarrow> u8 list" where
  "stroke_codes (Press k) = make_code k"
| "stroke_codes (Release k) = butlast (make_code k) @ [last (make_code k) OR 0x80]"

record mods =
  shift :: bool
  ctrl :: bool
  alt :: bool
  caps :: bool

definition mods_word :: "mods \<Rightarrow> u32" where
  "mods_word m = (if shift m then 1 else 0) OR (if ctrl m then 2 else 0) OR (if alt m then 4 else 0) OR (if caps m then 8 else 0)"

fun stroke_mods :: "stroke \<Rightarrow> mods \<Rightarrow> mods" where
  "stroke_mods (Press (Shift r)) m = m\<lparr>shift := True\<rparr>"
| "stroke_mods (Release (Shift r)) m = m\<lparr>shift := False\<rparr>"
| "stroke_mods (Press (Ctrl r)) m = m\<lparr>ctrl := True\<rparr>"
| "stroke_mods (Release (Ctrl r)) m = m\<lparr>ctrl := False\<rparr>"
| "stroke_mods (Press (Alt r)) m = m\<lparr>alt := True\<rparr>"
| "stroke_mods (Release (Alt r)) m = m\<lparr>alt := False\<rparr>"
| "stroke_mods (Press Caps) m = m\<lparr>caps := \<not> caps m\<rparr>"
| "stroke_mods _ m = m"

text \<open>The event of a stroke: its type and character.\<close>

fun stroke_event :: "stroke \<Rightarrow> mods \<Rightarrow> (key_type \<times> u8) option" where
  "stroke_event (Press (Nav c)) m = map_option (\<lambda>k. (k, 0)) (nav_key c)"
| "stroke_event (Press (Plain c)) m =
     (case plain_key c of Some k \<Rightarrow> Some (k, 0)
      | None \<Rightarrow>
          let u = map_at base_map c; s = map_at shift_map c;
              ch = (if is_letter_scancode c then if shift m \<noteq> caps m then s else u else if shift m then s else u)
          in if ch = 0 then None else Some (KEY_CHAR, ch))"
| "stroke_event _ m = None"

text \<open>The decoder run over scancodes, with the events it reports.\<close>

fun decode :: "u8 list \<Rightarrow> input_state \<Rightarrow> input_state \<times> (key_type \<times> u8 \<times> u32) list" where
  "decode [] s = (s, [])"
| "decode (sc # scs) s =
     (let (s1, ev, got) = ps2_try_read_event_internal s (Some sc) \<lparr>ev_type = KEY_NONE, ev_ch = 0, ev_mods = 0\<rparr>;
          (s2, evs) = decode scs s1
      in (s2, (if got then [(ev_type ev, ucast (ev_ch ev), ev_mods ev)] else []) @ evs))"

lemma decode_append:
  "decode (xs @ ys) s = (let (s1, e1) = decode xs s; (s2, e2) = decode ys s1 in (s2, e1 @ e2))"
  by (induction xs arbitrary: s) (simp_all add: Let_def split_beta)

lemma mods_word_flags:
  "mods_word m OR MOD_SHIFT = mods_word (m\<lparr>shift := True\<rparr>)" "mods_word m AND NOT MOD_SHIFT = mods_word (m\<lparr>shift := False\<rparr>)"
  "mods_word m OR MOD_CTRL = mods_word (m\<lparr>ctrl := True\<rparr>)" "mods_word m AND NOT MOD_CTRL = mods_word (m\<lparr>ctrl := False\<rparr>)"
  "mods_word m OR MOD_ALT = mods_word (m\<lparr>alt := True\<rparr>)" "mods_word m AND NOT MOD_ALT = mods_word (m\<lparr>alt := False\<rparr>)"
  "mods_word m XOR MOD_CAPS = mods_word (m\<lparr>caps := \<not> caps m\<rparr>)"
  "mods_word m AND MOD_SHIFT \<noteq> 0 \<longleftrightarrow> shift m" "mods_word m AND MOD_CAPS \<noteq> 0 \<longleftrightarrow> caps m"
  by (cases "shift m"; cases "ctrl m"; cases "alt m"; cases "caps m";
    simp add: mods_word_def MOD_SHIFT_def MOD_CTRL_def MOD_ALT_def MOD_CAPS_def)+

lemma release_bits:
  fixes c :: u8
  assumes "c < 0x80"
  shows "c AND 0x80 = 0" "c AND 0x7F = c" "(c OR 0x80) AND 0x80 = 0x80" "(c OR 0x80) AND 0x7F = c"
    "c \<noteq> 0xE0" "c \<noteq> 0xE1" "c \<noteq> 0x60 \<Longrightarrow> c OR 0x80 \<noteq> 0xE0" "c \<noteq> 0x61 \<Longrightarrow> c OR 0x80 \<noteq> 0xE1"
proof -
  have t: "take_bit 7 c = c" 
  proof -
    have "unat c < 2 ^ 7" using assms by (simp add: word_less_nat_alt)
    then have "unat (take_bit 7 c) = unat c" by (simp add: unsigned_take_bit_eq take_bit_nat_eq_self)
    then show ?thesis by (simp add: word_unat_eq_iff)
  qed
  have m: "(0x7F :: u8) = mask 7" "(0x80 :: u8) = 2 ^ 7" by (simp_all add: mask_eq_exp_minus_1)
  have nb: "\<not> bit c 7" using t by (metis bit_take_bit_iff less_irrefl)
  show a: "c AND 0x80 = 0" unfolding m(2) by (simp only: and_exp_eq_0_iff_not_bit nb simp_thms)
  show b: "c AND 0x7F = c" unfolding m(1) using t by (simp add: take_bit_eq_mask)
  show "(c OR 0x80) AND 0x80 = 0x80" by (rule bit_eqI) (auto simp: bit_and_iff bit_or_iff)
  show d: "(c OR 0x80) AND 0x7F = c" using b by (simp add: bit.conj_disj_distrib2)
  show "c \<noteq> 0xE0" "c \<noteq> 0xE1" using assms by auto
  show "c OR 0x80 \<noteq> 0xE0" if "c \<noteq> 0x60" using d that by auto
  show "c OR 0x80 \<noteq> 0xE1" if "c \<noteq> 0x61" using d that by auto
qed

lemma ucast_back: "ucast (ucast (x :: u8) :: u16) = x"
  by (rule bit_word_eqI) (auto simp: bit_simps)

lemma letter_table:
  "\<forall>n \<in> set [0..<128]. is_letter_scancode (word_of_nat n) \<longrightarrow>
     97 \<le> map_at base_map (word_of_nat n) \<and> map_at base_map (word_of_nat n) \<le> 122 \<and>
     map_at shift_map (word_of_nat n) = map_at base_map (word_of_nat n) - 97 + 65"
  by code_simp

lemma key_char_stroke:
  assumes "c < 0x80"
  shows "key_char (mods_word m) c =
    (if is_letter_scancode c then if shift m \<noteq> caps m then map_at shift_map c else map_at base_map c
     else if shift m then map_at shift_map c else map_at base_map c)"
proof (cases "is_letter_scancode c")
  case True
  have "unat c \<in> set [0..<128]" using assms by (simp add: word_less_nat_alt)
  from letter_table [rule_format, OF this] True
  have "97 \<le> map_at base_map c" "map_at base_map c \<le> 122" "map_at shift_map c = map_at base_map c - 97 + 65" by simp_all
  moreover from this(1) have "\<not> map_at base_map c \<le> 90" by (auto simp: word_le_nat_alt)
  ultimately show ?thesis using True by (auto simp: key_char_def Let_def mods_word_flags)
qed (simp add: key_char_def mods_word_flags)

lemma stroke_decoded:
  assumes "case st of Press k \<Rightarrow> key_ok k | Release k \<Rightarrow> key_ok k"
  shows "decode (stroke_codes st) \<lparr>s_mods = mods_word m, s_e0 = False\<rparr> =
    (\<lparr>s_mods = mods_word (stroke_mods st m), s_e0 = False\<rparr>,
     case stroke_event st m of None \<Rightarrow> [] | Some (k, ch) \<Rightarrow> [(k, ch, mods_word m)])"
proof (cases st)
  case (Press k)
  show ?thesis
  proof (cases k)
    case (Nav c)
    then have c: "c < 0x80" "c \<noteq> 0x1D" "c \<noteq> 0x38" using assms Press by simp_all
    show ?thesis using Press Nav c release_bits [OF c(1)]
      by (simp add: ps2_try_read_event_internal_def split: option.split)
  next
    case (Plain c)
    then have c: "c < 0x80" "c \<notin> {0x2A, 0x36, 0x1D, 0x38, 0x3A}" using assms Press by (auto simp: word_less_nat_alt)
    show ?thesis using Press Plain c release_bits [OF c(1)] key_char_stroke [OF c(1), of m]
      by (simp add: ps2_try_read_event_internal_def Let_def ucast_back split: option.split)
  qed (simp_all add: Press ps2_try_read_event_internal_def mods_word_flags)
next
  case (Release k)
  show ?thesis
  proof (cases k)
    case (Nav c)
    then have c: "c < 0x80" "c \<noteq> 0x1D" "c \<noteq> 0x38" "c \<noteq> 0x60" "c \<noteq> 0x61" using assms Release by simp_all
    show ?thesis using Release Nav c release_bits [OF c(1)] by (simp add: ps2_try_read_event_internal_def)
  next
    case (Plain c)
    then have c: "c < 0x80" "c \<notin> {0x2A, 0x36, 0x1D, 0x38, 0x3A, 0x60, 0x61}" using assms Release by (auto simp: word_less_nat_alt)
    show ?thesis using Release Plain c release_bits [OF c(1)] by (simp add: ps2_try_read_event_internal_def)
  qed (simp_all add: Release ps2_try_read_event_internal_def mods_word_flags)
qed

text \<open>The events of a sequence of strokes, each with the modifiers in force.\<close>

fun stroke_events :: "stroke list \<Rightarrow> mods \<Rightarrow> (key_type \<times> u8 \<times> u32) list" where
  "stroke_events [] m = []"
| "stroke_events (st # sts) m =
     (case stroke_event st m of None \<Rightarrow> [] | Some (k, ch) \<Rightarrow> [(k, ch, mods_word m)]) @ stroke_events sts (stroke_mods st m)"

text \<open>
  C24. The decoder inverts the keyboard's encoding: on the scancodes of any sequence of key
  strokes, prefixed keys included, it reports exactly the events of the keys pressed, each with
  the modifiers then held and Caps Lock, letters in the case Shift and Caps Lock give, and ends
  with the modifiers of the sequence and no pending prefix.
\<close>

theorem keyboard_decodes_strokes:
  assumes "\<forall>st \<in> set sts. (case st of Press k \<Rightarrow> key_ok k | Release k \<Rightarrow> key_ok k)"
  shows "decode (concat (map stroke_codes sts)) \<lparr>s_mods = mods_word m, s_e0 = False\<rparr> =
    (\<lparr>s_mods = mods_word (fold stroke_mods sts m), s_e0 = False\<rparr>, stroke_events sts m)"
  using assms
proof (induction sts arbitrary: m)
  case (Cons st sts)
  then show ?case using stroke_decoded [of st m] by (simp add: decode_append)
qed simp

theorem keyboard_decodes_strokes_witness:
  "decode [0x2A, 0x1E, 0xAA, 0x30, 0xE0, 0x4B] \<lparr>s_mods = 0, s_e0 = False\<rparr> =
    (\<lparr>s_mods = 0, s_e0 = False\<rparr>, [(KEY_CHAR, 0x41, 1), (KEY_CHAR, 0x62, 0), (KEY_LEFT, 0, 0)])"
proof -
  let ?m = "\<lparr>shift = False, ctrl = False, alt = False, caps = False\<rparr>"
  let ?sts = "[Press (Shift False), Press (Plain 0x1E), Release (Shift False), Press (Plain 0x30), Press (Nav 0x4B)]"
  have c: "concat (map stroke_codes ?sts) = [0x2A, 0x1E, 0xAA, 0x30, 0xE0, 0x4B]" by simp
  have e: "stroke_events ?sts ?m = [(KEY_CHAR, 0x41, 1), (KEY_CHAR, 0x62, 0), (KEY_LEFT, 0, 0)]" by code_simp
  have m: "mods_word ?m = 0" "fold stroke_mods ?sts ?m = ?m" by (simp_all add: mods_word_def)
  show ?thesis using keyboard_decodes_strokes [of ?sts ?m] unfolding c e m by simp
qed

end
