(* ===== verification/Console.thy ===== *)
theory Console
  imports Mb2
begin

text \<open>
  The text console (\<open>kernel64/console.c\<close> and the progress bar of \<open>console.h\<close>): up to four consoles
  with a cursor, a cell buffer and a scrollback ring, one of them shown in text video memory; every
  character also goes to the serial line. The geometry and the cursor are 16-bit fields; they are
  natural numbers here since no increment wraps while the cursor is inside the window. The nested
  loops over rows and columns are folds over the cell numbers in the order the loops visit them.
  \<open>None\<close> is an access outside the cell or scrollback arrays.
\<close>

section \<open>State\<close>

definition VGA_MEM_DEFAULT :: u64 where "VGA_MEM_DEFAULT = 0xB8000"
definition VGA_DEFAULT_COLS :: nat where "VGA_DEFAULT_COLS = 80"
definition VGA_DEFAULT_ROWS :: nat where "VGA_DEFAULT_ROWS = 25"
definition CONSOLE_SCROLLBACK_ROWS :: nat where "CONSOLE_SCROLLBACK_ROWS = 512"

record console =
  cols :: nat
  rows :: nat
  c_row :: nat
  c_col :: nat
  color :: u8
  vram :: u64
  vram_pitch_chars :: nat
  cells :: "u16 list"
  sbuf :: "u16 list"
  sbuf_rows :: nat
  sbuf_head :: nat
  sbuf_count :: nat
  view_offset_rows :: nat

text \<open>The consoles, the active one, the text video memory by cell address, the position written to
  the CRT controller's cursor registers, and what went to the serial line.\<close>

record con_sys =
  s_consoles :: "console list"
  s_active :: "nat option"
  vmem :: "u64 \<Rightarrow> u16"
  hw_cursor :: u16
  serial_out :: string

definition con :: "con_sys \<Rightarrow> nat \<Rightarrow> console" where
  "con s i = s_consoles s ! i"

definition set_con :: "con_sys \<Rightarrow> nat \<Rightarrow> console \<Rightarrow> con_sys" where
  "set_con s i c = s\<lparr>s_consoles := (s_consoles s)[i := c]\<rparr>"

section \<open>Output\<close>

text \<open>\<open>char\<close> is signed: a character above 0x7F is extended with ones over the colour byte.\<close>

definition vga_entry :: "char \<Rightarrow> u8 \<Rightarrow> u16" where
  "vga_entry c clr = scast (of_char c :: u8) OR push_bit 8 (ucast clr)"

definition vga_move_hw_cursor :: "con_sys \<Rightarrow> nat \<Rightarrow> nat \<Rightarrow> nat \<Rightarrow> con_sys" where
  "vga_move_hw_cursor s r c n = s\<lparr>hw_cursor := of_nat (r * n + c)\<rparr>"

text \<open>The video cell \<open>j\<close> characters after the console's base.\<close>

definition vaddr :: "console \<Rightarrow> nat \<Rightarrow> u64" where
  "vaddr c j = vram c + of_nat (2 * j)"

text \<open>Copying the cells \<open>src\<close> of \<open>n\<close> rows to the screen from row \<open>r0\<close> on.\<close>

definition draw_rows :: "console \<Rightarrow> (nat \<Rightarrow> u16) \<Rightarrow> nat \<Rightarrow> nat \<Rightarrow> (u64 \<Rightarrow> u16) \<Rightarrow> u64 \<Rightarrow> u16" where
  "draw_rows c src r0 n v =
     fold (\<lambda>k v. v(vaddr c ((r0 + k div cols c) * vram_pitch_chars c + k mod cols c) := src k)) [0..<n * cols c] v"

definition render_view :: "con_sys \<Rightarrow> nat \<Rightarrow> con_sys option" where
  "render_view s i =
     (if s_active s \<noteq> Some i then Some s
      else
        let c = con s i;
            off = (if view_offset_rows c > sbuf_count c then sbuf_count c else view_offset_rows c);
            hist_to_show = (if off > rows c then rows c else off);
            idx0 = int (sbuf_head c) - 1 - (int hist_to_show - 1);
            idx = nat (if idx0 < 0 then idx0 mod int (sbuf_rows c) else idx0);
            v1 = draw_rows c (\<lambda>k. sbuf c ! ((idx + k div cols c) mod sbuf_rows c * cols c + k mod cols c)) 0 hist_to_show (vmem s);
            v2 = draw_rows c (\<lambda>k. cells c ! k) hist_to_show (rows c - hist_to_show) v1;
            s1 = s\<lparr>vmem := v2\<rparr>
        in if sbuf_rows c * cols c > length (sbuf c) \<or> rows c * cols c > length (cells c) then None
           else if view_offset_rows c \<noteq> 0 then Some (vga_move_hw_cursor s1 (rows c - 1) 0 (cols c))
           else Some (vga_move_hw_cursor s1 (c_row c) (c_col c) (cols c)))"

definition vga_flush :: "con_sys \<Rightarrow> nat \<Rightarrow> con_sys option" where
  "vga_flush s i =
     (if s_active s \<noteq> Some i then Some s
      else
        let c = con s i
        in if view_offset_rows c \<noteq> 0 then render_view s i
           else if rows c * cols c > length (cells c) then None
           else Some (vga_move_hw_cursor (s\<lparr>vmem := draw_rows c (\<lambda>k. cells c ! k) 0 (rows c) (vmem s)\<rparr>)
                  (c_row c) (c_col c) (cols c)))"

definition vga_clear :: "con_sys \<Rightarrow> nat \<Rightarrow> con_sys option" where
  "vga_clear s i =
     (let c = con s i;
          fill = vga_entry CHR '' '' (color c);
          c1 = c\<lparr>cells := fold (\<lambda>k xs. xs[k := fill]) [0..<rows c * cols c] (cells c), c_row := 0, c_col := 0,
                 sbuf_rows := CONSOLE_SCROLLBACK_ROWS, sbuf_head := 0, sbuf_count := 0, view_offset_rows := 0\<rparr>;
          s1 = set_con s i c1
      in if rows c * cols c > length (cells c) then None
         else if s_active s = Some i then vga_flush s1 i else Some s1)"

text \<open>On one console: the top row goes to the ring, the others move up, the last is cleared.\<close>

definition vga_scroll_up :: "console \<Rightarrow> console option" where
  "vga_scroll_up c =
     (let n = cols c;
          base = sbuf_head c mod sbuf_rows c * n;
          sb = fold (\<lambda>k xs. xs[base + k := cells c ! k]) [0..<n] (sbuf c);
          head = (sbuf_head c + 1) mod sbuf_rows c;
          cnt = (if sbuf_count c < sbuf_rows c then sbuf_count c + 1 else sbuf_count c);
          vo = (if view_offset_rows c > 0 \<and> view_offset_rows c < cnt
                then if view_offset_rows c + 1 > cnt then cnt else view_offset_rows c + 1
                else view_offset_rows c);
          xs1 = fold (\<lambda>k xs. xs[k := xs ! (k + n)]) [0..<(rows c - 1) * n] (cells c);
          fill = vga_entry CHR '' '' (color c);
          xs2 = fold (\<lambda>k xs. xs[(rows c - 1) * n + k := fill]) [0..<n] xs1
      in if base + n > length (sbuf c) \<or> rows c * n > length (cells c) \<or> rows c = 0 then None
         else Some (c\<lparr>sbuf := sb, sbuf_head := head, sbuf_count := cnt, view_offset_rows := vo, cells := xs2\<rparr>))"

text \<open>\<open>if (++c->row >= c->rows) { vga_scroll_up(c); c->row = c->rows - 1; scrolled = 1; }\<close>\<close>

definition next_row :: "console \<Rightarrow> (console \<times> bool) option" where
  "next_row c =
     (if c_row c + 1 \<ge> rows c
      then do { c1 \<leftarrow> vga_scroll_up (c\<lparr>c_row := c_row c + 1\<rparr>); Some (c1\<lparr>c_row := rows c - 1\<rparr>, True) }
      else Some (c\<lparr>c_row := c_row c + 1\<rparr>, False))"

text \<open>The change of the console's own state by a character, and whether it scrolled.\<close>

definition put_cell :: "console \<Rightarrow> char \<Rightarrow> (console \<times> bool) option" where
  "put_cell c ch =
     (if ch = CHR 0x0A then next_row (c\<lparr>c_col := 0\<rparr>)
      else if ch = CHR 0x0D then Some (c\<lparr>c_col := 0\<rparr>, False)
      else if ch = CHR 0x08 then Some (if c_col c > 0 then c\<lparr>c_col := c_col c - 1\<rparr> else c, False)
      else
        let p = c_row c * cols c + c_col c;
            c1 = c\<lparr>cells := (cells c)[p := vga_entry ch (color c)], c_col := c_col c + 1\<rparr>
        in if p \<ge> length (cells c) then None
           else if c_col c1 \<ge> cols c then next_row (c1\<lparr>c_col := 0\<rparr>)
           else Some (c1, False))"

definition vga_putc :: "con_sys \<Rightarrow> nat \<Rightarrow> char \<Rightarrow> con_sys option" where
  "vga_putc s i ch = do {
     let c = con s i;
     (c1, scrolled) \<leftarrow> put_cell c ch;
     let s1 = set_con s i c1;
     s2 \<leftarrow> (if ch \<in> {CHR 0x0A, CHR 0x0D, CHR 0x08} \<or> s_active s \<noteq> Some i then Some s1
            else if scrolled \<or> view_offset_rows c1 \<noteq> 0 then vga_flush s1 i
            else Some (s1\<lparr>vmem := (vmem s1)(vaddr c1 (c_row c * vram_pitch_chars c1 + c_col c) :=
                   cells c1 ! (c_row c * cols c1 + c_col c))\<rparr>));
     if s_active s = Some i then Some (vga_move_hw_cursor s2 (c_row c1) (c_col c1) (cols c1)) else Some s2 }"

section \<open>Interface\<close>

definition bind_backend_defaults :: "console \<Rightarrow> u64 \<Rightarrow> nat \<Rightarrow> console" where
  "bind_backend_defaults c v pitch = c\<lparr>vram := v, vram_pitch_chars := (if pitch \<noteq> 0 then pitch else cols c)\<rparr>"

definition console_init :: "con_sys \<Rightarrow> con_sys option" where
  "console_init s =
     (let c0 = con s 0
      in if cols c0 = 0
         then do {
           s1 \<leftarrow> vga_clear (set_con s 0 (bind_backend_defaults
             (c0\<lparr>cols := VGA_DEFAULT_COLS, rows := VGA_DEFAULT_ROWS, color := 0x0F, c_row := 0, c_col := 0\<rparr>)
             VGA_MEM_DEFAULT VGA_DEFAULT_COLS)) 0;
           Some (s1\<lparr>s_active := Some 0\<rparr>) }
         else do { s1 \<leftarrow> vga_flush s 0; Some (s1\<lparr>s_active := Some 0\<rparr>) })"

definition console_create_vga_text :: "con_sys \<Rightarrow> nat \<Rightarrow> nat \<Rightarrow> (con_sys \<times> nat option) option" where
  "console_create_vga_text s ncols nrows =
     (case find (\<lambda>i. cols (con s i) = 0) [0..<length (s_consoles s)] of
        None \<Rightarrow> Some (s, None)
      | Some i \<Rightarrow> do {
          let c = (con s i)\<lparr>cols := (if ncols \<noteq> 0 then ncols else VGA_DEFAULT_COLS),
                     rows := (if nrows \<noteq> 0 then nrows else VGA_DEFAULT_ROWS), color := 0x0F, c_row := 0, c_col := 0\<rparr>;
          s1 \<leftarrow> vga_clear (set_con s i (bind_backend_defaults c VGA_MEM_DEFAULT (cols c))) i;
          Some (s1, Some i) })"

definition console_set_active :: "con_sys \<Rightarrow> nat option \<Rightarrow> con_sys option" where
  "console_set_active s ci = (case ci of None \<Rightarrow> Some s | Some i \<Rightarrow> vga_flush (s\<lparr>s_active := Some i\<rparr>) i)"

definition console_get_active :: "con_sys \<Rightarrow> nat option" where
  "console_get_active s = s_active s"

text \<open>A NULL console is the active one.\<close>

definition pick :: "con_sys \<Rightarrow> nat option \<Rightarrow> nat option" where
  "pick s ci = (case ci of None \<Rightarrow> s_active s | Some i \<Rightarrow> Some i)"

definition serial_putc :: "con_sys \<Rightarrow> char \<Rightarrow> con_sys" where
  "serial_putc s ch = s\<lparr>serial_out := serial_out s @ [ch]\<rparr>"

definition console_clear_ex :: "con_sys \<Rightarrow> nat option \<Rightarrow> con_sys option" where
  "console_clear_ex s ci = (case pick s ci of None \<Rightarrow> Some s | Some i \<Rightarrow> vga_clear s i)"

definition console_putc_ex :: "con_sys \<Rightarrow> nat option \<Rightarrow> char \<Rightarrow> con_sys option" where
  "console_putc_ex s ci ch =
     (case pick s ci of None \<Rightarrow> Some s
      | Some i \<Rightarrow> do { s1 \<leftarrow> vga_putc s i ch; Some (serial_putc s1 ch) })"

fun write_chars :: "con_sys \<Rightarrow> nat \<Rightarrow> string \<Rightarrow> con_sys option" where
  "write_chars s i [] = Some s"
| "write_chars s i (ch # str) = do { s1 \<leftarrow> vga_putc s i ch; write_chars (serial_putc s1 ch) i str }"

definition console_write_ex :: "con_sys \<Rightarrow> nat option \<Rightarrow> string \<Rightarrow> con_sys option" where
  "console_write_ex s ci str = (case pick s ci of None \<Rightarrow> Some s | Some i \<Rightarrow> write_chars s i str)"

definition console_set_color_ex :: "con_sys \<Rightarrow> nat option \<Rightarrow> u8 \<Rightarrow> u8 \<Rightarrow> con_sys" where
  "console_set_color_ex s ci fg bg =
     (case pick s ci of None \<Rightarrow> s
      | Some i \<Rightarrow> set_con s i ((con s i)\<lparr>color := push_bit 4 bg OR (fg AND 0x0F)\<rparr>))"

definition console_clear :: "con_sys \<Rightarrow> con_sys option" where "console_clear s = console_clear_ex s None"
definition console_putc :: "con_sys \<Rightarrow> char \<Rightarrow> con_sys option" where "console_putc s ch = console_putc_ex s None ch"
definition console_write :: "con_sys \<Rightarrow> string \<Rightarrow> con_sys option" where "console_write s str = console_write_ex s None str"
definition console_set_color :: "con_sys \<Rightarrow> u8 \<Rightarrow> u8 \<Rightarrow> con_sys" where "console_set_color s fg bg = console_set_color_ex s None fg bg"

fun put_chars :: "con_sys \<Rightarrow> string \<Rightarrow> con_sys option" where
  "put_chars s [] = Some s"
| "put_chars s (ch # str) = do { s1 \<leftarrow> console_putc s ch; put_chars s1 str }"

definition hex_digit :: "u64 \<Rightarrow> char" where
  "hex_digit n = ''0123456789ABCDEF'' ! unat n"

definition hex_digits :: "u64 \<Rightarrow> string" where
  "hex_digits v = map (\<lambda>i. hex_digit (drop_bit (i * 4) v AND 0xF)) (rev [0..<16])"

definition console_write_hex64 :: "con_sys \<Rightarrow> u64 \<Rightarrow> con_sys option" where
  "console_write_hex64 s v = do { s1 \<leftarrow> console_write s ''0x''; put_chars s1 (hex_digits v) }"

text \<open>The digits, least significant first, at most \<open>n\<close> of them (the buffer has 32).\<close>

fun dec_loop :: "nat \<Rightarrow> u64 \<Rightarrow> string" where
  "dec_loop 0 v = []"
| "dec_loop (Suc n) v = (if v > 0 then char_of (48 + unat (v mod 10)) # dec_loop n (v div 10) else [])"

text \<open>Zero is printed by its own branch, which also calls \<open>serial_putc\<close> itself.\<close>

definition console_write_dec :: "con_sys \<Rightarrow> u64 \<Rightarrow> con_sys option" where
  "console_write_dec s v =
     (if v = 0 then do { s1 \<leftarrow> console_putc s CHR ''0''; Some (serial_putc s1 CHR ''0'') }
      else put_chars s (rev (dec_loop 32 v)))"

section \<open>The console of the boot information\<close>

text \<open>The tag loop; the memory of the boot information is \<open>m\<close>. The result is the framebuffer tag, if
  there is one.\<close>

partial_function (option) find_framebuffer :: "memory \<Rightarrow> u64 \<Rightarrow> u64 option option" where
  "find_framebuffer m t =
     (if t = 0 \<or> tag_type m t = MB2_TAG_END then Some None
      else if tag_type m t = MB2_TAG_FRAMEBUFFER then Some (Some t)
      else find_framebuffer m (mb2_next_tag m t))"

text \<open>Only an EGA text framebuffer replaces the default; width and height are cut to 16 bits.\<close>

definition console_init_from_mb2 :: "memory \<Rightarrow> con_sys \<Rightarrow> u64 \<Rightarrow> con_sys option" where
  "console_init_from_mb2 m s mb2_addr = do {
     s1 \<leftarrow> console_init s;
     if mb2_addr = 0 then Some s1
     else do {
       fb \<leftarrow> find_framebuffer m (mb2_first_tag mb2_addr);
       case fb of
         None \<Rightarrow> Some s1
       | Some t \<Rightarrow>
           if framebuffer_type m t = 2 \<and> framebuffer_bpp m t = 16
           then
             let c = (con s1 0)\<lparr>cols := unat (ucast (framebuffer_width m t) :: u16),
                       rows := unat (ucast (framebuffer_height m t) :: u16)\<rparr>;
                 c1 = bind_backend_defaults c (framebuffer_addr m t) (unat (ucast (framebuffer_pitch m t div 2) :: u16))
             in do { s2 \<leftarrow> vga_clear (set_con s1 0 c1) 0; Some (s2\<lparr>s_active := Some 0\<rparr>) }
           else Some s1 } }"

section \<open>Progress bar\<close>

definition CONSOLE_COLS :: u64 where "CONSOLE_COLS = 80"

text \<open>The percentage, its number of digits, the part of the label that fits, the width of the bar and
  the part of it that is filled.\<close>

definition progress_pct :: "u64 \<Rightarrow> u64 \<Rightarrow> u64" where
  "progress_pct n tot =
     (let pct = (n * 100) div (if tot = 0 then 1 else tot) in if pct > 100 then 100 else pct)"

definition progress_reserved :: "u64 \<Rightarrow> u64" where
  "progress_reserved pct = 1 + 1 + 1 + 1 + (if pct \<ge> 100 then 3 else if pct \<ge> 10 then 2 else 1) + 1"

definition progress_label :: "u64 \<Rightarrow> u64 \<Rightarrow> u64" where
  "progress_label reserved lbl_len =
     (let max_lbl = (if CONSOLE_COLS > reserved + 10 + 1 then CONSOLE_COLS - 1 - reserved - 10 else 0)
      in if lbl_len > max_lbl then max_lbl else lbl_len)"

definition progress_width :: "u64 \<Rightarrow> u64 \<Rightarrow> u64" where
  "progress_width reserved lbl_len =
     (let w = CONSOLE_COLS - 1 - reserved - lbl_len; w1 = (if w > 50 then 50 else w)
      in if w1 < 10 then 10 else w1)"

text \<open>A NULL label has length 0, like the empty one.\<close>

definition console_progress :: "con_sys \<Rightarrow> string \<Rightarrow> u64 \<Rightarrow> u64 \<Rightarrow> con_sys option" where
  "console_progress s label n tot =
     (let pct = progress_pct n tot;
          reserved = progress_reserved pct;
          lbl_len = progress_label reserved (of_nat (length label));
          bar_width = progress_width reserved lbl_len;
          bars = (pct * bar_width) div 100
      in do {
        s1 \<leftarrow> put_chars s ([CHR 0x0D] @ replicate (unat (CONSOLE_COLS - 1)) CHR '' '' @ [CHR 0x0D]);
        s2 \<leftarrow> put_chars s1 (take (unat lbl_len) label @ '' ['' @
          map (\<lambda>i. if i < unat bars then CHR ''#'' else CHR ''.'') [0..<unat bar_width] @ ''] '');
        s3 \<leftarrow> console_write_dec s2 pct;
        console_putc s3 CHR ''%'' })"

section \<open>Scrollback view\<close>

definition page_size :: "console \<Rightarrow> nat" where
  "page_size c = (if rows c > 1 then rows c - 1 else 1)"

definition console_page_up :: "con_sys \<Rightarrow> con_sys option" where
  "console_page_up s =
     (case s_active s of None \<Rightarrow> Some s
      | Some i \<Rightarrow>
          let c = con s i; page = page_size c; max_off = sbuf_count c;
              vo = (if view_offset_rows c + page > max_off then max_off else view_offset_rows c + page)
          in render_view (set_con s i (c\<lparr>view_offset_rows := vo\<rparr>)) i)"

definition console_page_down :: "con_sys \<Rightarrow> con_sys option" where
  "console_page_down s =
     (case s_active s of None \<Rightarrow> Some s
      | Some i \<Rightarrow>
          let c = con s i; page = page_size c;
              vo = (if view_offset_rows c \<le> page then 0 else view_offset_rows c - page)
          in render_view (set_con s i (c\<lparr>view_offset_rows := vo\<rparr>)) i)"

definition console_page_home :: "con_sys \<Rightarrow> con_sys option" where
  "console_page_home s =
     (case s_active s of None \<Rightarrow> Some s
      | Some i \<Rightarrow> let c = con s i in render_view (set_con s i (c\<lparr>view_offset_rows := sbuf_count c\<rparr>)) i)"

definition console_page_end :: "con_sys \<Rightarrow> con_sys option" where
  "console_page_end s =
     (case s_active s of None \<Rightarrow> Some s
      | Some i \<Rightarrow> let c = con s i in render_view (set_con s i (c\<lparr>view_offset_rows := 0\<rparr>)) i)"

end
