(* ===== verification/Console_Correct.thy ===== *)
theory Console_Correct
  imports Console
begin

text \<open>
  The console against a terminal with an unbounded history: the cells are the terminal's window and
  the scrollback ring holds its last 512 lines. Further: when the screen shows the window and when
  it does not, and numbers printed in hexadecimal and decimal.
\<close>

section \<open>Loops over cells\<close>

lemma fold_fill:
  "length (fold (\<lambda>k xs. xs[b + k := f k]) [0..<n] xs) = length xs"
  "j < length xs \<Longrightarrow> fold (\<lambda>k xs. xs[b + k := f k]) [0..<n] xs ! j = (if b \<le> j \<and> j < b + n then f (j - b) else xs ! j)"
  by (induction n) (auto simp: nth_list_update less_Suc_eq)

lemma fold_shift:
  "length (fold (\<lambda>k xs. xs[k := xs ! (k + n)]) [0..<m] xs) = length xs"
  "m + n \<le> length xs \<Longrightarrow> j < length xs \<Longrightarrow> fold (\<lambda>k xs. xs[k := xs ! (k + n)]) [0..<m] xs ! j = (if j < m then xs ! (j + n) else xs ! j)"
proof (induction m arbitrary: j)
  case (Suc m)
  case 2
  let ?ys = "fold (\<lambda>k xs. xs[k := xs ! (k + n)]) [0..<m] xs"
  have "?ys ! (m + n) = xs ! (m + n)" "?ys ! j = (if j < m then xs ! (j + n) else xs ! j)"
    using Suc.IH(2) [of "m + n"] Suc.IH(2) [of j] 2 by simp_all
  then show ?case using Suc.IH(1) 2 by (auto simp: nth_list_update less_Suc_eq)
qed auto

section \<open>The terminal\<close>

text \<open>Lines scrolled off the window, oldest first; the window's rows; the cursor.\<close>

record tty =
  t_hist :: "u16 list list"
  t_win :: "u16 list list"
  t_row :: nat
  t_col :: nat

definition tty_newline :: "nat \<Rightarrow> u16 \<Rightarrow> tty \<Rightarrow> tty" where
  "tty_newline n blank t =
     (if t_row t + 1 < length (t_win t) then t\<lparr>t_row := t_row t + 1\<rparr>
      else t\<lparr>t_hist := t_hist t @ [hd (t_win t)], t_win := tl (t_win t) @ [replicate n blank]\<rparr>)"

definition tty_putc :: "nat \<Rightarrow> u8 \<Rightarrow> char \<Rightarrow> tty \<Rightarrow> tty" where
  "tty_putc n clr ch t =
     (let blank = vga_entry CHR '' '' clr
      in if ch = CHR 0x0A then tty_newline n blank (t\<lparr>t_col := 0\<rparr>)
         else if ch = CHR 0x0D then t\<lparr>t_col := 0\<rparr>
         else if ch = CHR 0x08 then t\<lparr>t_col := t_col t - 1\<rparr>
         else
           let t1 = t\<lparr>t_win := (t_win t)[t_row t := (t_win t ! t_row t)[t_col t := vga_entry ch clr]]\<rparr>
           in if t_col t + 1 < n then t1\<lparr>t_col := t_col t + 1\<rparr>
              else tty_newline n blank (t1\<lparr>t_col := 0\<rparr>))"

section \<open>The console as a terminal\<close>

definition slice :: "u16 list \<Rightarrow> nat \<Rightarrow> nat \<Rightarrow> u16 list" where
  "slice xs n r = map (\<lambda>k. xs ! (r * n + k)) [0..<n]"

definition window :: "console \<Rightarrow> u16 list list" where
  "window c = map (slice (cells c) (cols c)) [0..<rows c]"

text \<open>The rows of the ring, oldest first.\<close>

definition history :: "console \<Rightarrow> u16 list list" where
  "history c = map (\<lambda>j. slice (sbuf c) (cols c) ((sbuf_head c + sbuf_rows c - sbuf_count c + j) mod sbuf_rows c)) [0..<sbuf_count c]"

definition con_geom :: "console \<Rightarrow> bool" where
  "con_geom c \<longleftrightarrow> 0 < cols c \<and> 0 < rows c \<and> rows c * cols c \<le> length (cells c) \<and> 0 < sbuf_rows c \<and>
     sbuf_rows c * cols c \<le> length (sbuf c) \<and> sbuf_head c < sbuf_rows c \<and> sbuf_count c \<le> sbuf_rows c \<and>
     (sbuf_count c < sbuf_rows c \<longrightarrow> sbuf_head c = sbuf_count c) \<and> view_offset_rows c \<le> sbuf_count c"

definition con_ok :: "console \<Rightarrow> bool" where
  "con_ok c \<longleftrightarrow> con_geom c \<and> c_row c < rows c \<and> c_col c < cols c"

definition last_n :: "nat \<Rightarrow> 'a list \<Rightarrow> 'a list" where
  "last_n n xs = drop (length xs - n) xs"

definition is_tty :: "console \<Rightarrow> tty \<Rightarrow> bool" where
  "is_tty c t \<longleftrightarrow> con_ok c \<and> t_win t = window c \<and> t_row t = c_row c \<and> t_col t = c_col c \<and>
     last_n (sbuf_rows c) (t_hist t) = history c"

lemma slice_length [simp]: "length (slice xs n r) = n"
  by (simp add: slice_def)

lemma slice_nth [simp]: "k < n \<Longrightarrow> slice xs n r ! k = xs ! (r * n + k)"
  by (simp add: slice_def)

lemma window_length [simp]: "length (window c) = rows c"
  by (simp add: window_def)

lemma cell_index:
  assumes "r < m" "k < n"
  shows "r * n + k < m * (n :: nat)"
proof -
  have "r * n + k < Suc r * n" using assms(2) by simp
  also have "\<dots> \<le> m * n" using assms(1) by (intro mult_le_mono1) simp
  finally show ?thesis .
qed

lemma cell_index_inj: "k < n \<Longrightarrow> k' < n \<Longrightarrow> r * n + k = r' * n + k' \<longleftrightarrow> r = r' \<and> k = (k' :: nat)"
  by (metis div_mult_self3 mod_mult_self3 div_less mod_less add.right_neutral gr_implies_not0)

lemma slice_update:
  assumes "r < m" "k < n" "m * n \<le> length xs" "r' < m"
  shows "slice (xs[r * n + k := v]) n r' = (if r' = r then (slice xs n r)[k := v] else slice xs n r')"
proof (rule nth_equalityI)
  fix j assume "j < length (slice (xs[r * n + k := v]) n r')"
  then have j: "j < n" by simp
  have "r' * n + j < length xs" using cell_index [OF assms(4) j] assms(3) by simp
  then show "slice (xs[r * n + k := v]) n r' ! j = (if r' = r then (slice xs n r)[k := v] else slice xs n r') ! j"
    using j assms(2) cell_index_inj [OF assms(2) j, of r r'] by (auto simp: nth_list_update)
qed simp

lemma window_update:
  assumes "con_geom c" "r < rows c" "k < cols c"
  shows "window (c\<lparr>cells := (cells c)[r * cols c + k := v]\<rparr>) = (window c)[r := (window c ! r)[k := v]]"
proof (rule nth_equalityI)
  fix j assume "j < length (window (c\<lparr>cells := (cells c)[r * cols c + k := v]\<rparr>))"
  then have j: "j < rows c" by simp
  then show "window (c\<lparr>cells := (cells c)[r * cols c + k := v]\<rparr>) ! j = (window c)[r := (window c ! r)[k := v]] ! j"
    using slice_update [OF assms(2,3), of "cells c" j v] assms by (simp add: window_def con_geom_def nth_list_update)
qed simp

text \<open>Scrolling.\<close>

lemma scroll_cells:
  fixes f :: u16
  assumes "con_geom c"
  defines "xs \<equiv> fold (\<lambda>k xs. xs[(rows c - 1) * cols c + k := f]) [0..<cols c]
    (fold (\<lambda>k xs. xs[k := xs ! (k + cols c)]) [0..<(rows c - 1) * cols c] (cells c))"
  shows "length xs = length (cells c)" "r < rows c \<Longrightarrow>
    slice xs (cols c) r = (if r + 1 < rows c then slice (cells c) (cols c) (r + 1) else replicate (cols c) f)"
proof -
  show l: "length xs = length (cells c)" by (simp add: xs_def fold_fill fold_shift)
  have fits: "(rows c - 1) * cols c + cols c \<le> length (cells c)"
    using assms(1) by (cases "rows c") (auto simp: con_geom_def)
  assume r: "r < rows c"
  show "slice xs (cols c) r = (if r + 1 < rows c then slice (cells c) (cols c) (r + 1) else replicate (cols c) f)"
  proof (rule nth_equalityI)
    fix j assume "j < length (slice xs (cols c) r)"
    then have j: "j < cols c" by simp
    have i: "r * cols c + j < length (cells c)" using cell_index [OF r j] assms(1) by (simp add: con_geom_def)
    show "slice xs (cols c) r ! j = (if r + 1 < rows c then slice (cells c) (cols c) (r + 1) else replicate (cols c) f) ! j"
    proof (cases "r + 1 < rows c")
      case True
      then have "r * cols c + j < (rows c - 1) * cols c" using j by (intro cell_index) simp_all
      moreover have "(r + 1) * cols c + j = r * cols c + j + cols c" by simp
      ultimately show ?thesis using True i j fits by (simp only: slice_nth if_True) (simp add: xs_def fold_fill fold_shift)
    next
      case False
      then have "r = rows c - 1" using r by simp
      then show ?thesis using False i j by (simp add: xs_def fold_fill fold_shift)
    qed
  qed simp
qed

lemma scroll_ring:
  assumes g: "con_geom c" and c1: "sbuf c1 = fold (\<lambda>k xs. xs[sbuf_head c * cols c + k := cells c ! k]) [0..<cols c] (sbuf c)"
    "sbuf_head c1 = (sbuf_head c + 1) mod sbuf_rows c" "sbuf_rows c1 = sbuf_rows c" "cols c1 = cols c"
    "sbuf_count c1 = (if sbuf_count c < sbuf_rows c then sbuf_count c + 1 else sbuf_count c)"
  shows "history c1 = last_n (sbuf_rows c) (history c @ [slice (cells c) (cols c) 0])"
proof -
  let ?R = "sbuf_rows c" and ?n = "cols c" and ?h = "sbuf_head c"
  have R: "?h < ?R" "?R * ?n \<le> length (sbuf c)" "sbuf_count c \<le> ?R" "sbuf_count c < ?R \<Longrightarrow> ?h = sbuf_count c"
    using g by (auto simp: con_geom_def)
  have sl: "slice (sbuf c1) ?n i = (if i = ?h then slice (cells c) ?n 0 else slice (sbuf c) ?n i)" if i: "i < ?R" for i
  proof (rule nth_equalityI)
    fix j assume "j < length (slice (sbuf c1) ?n i)"
    then have j: "j < ?n" by simp
    have a: "i * ?n + j < length (sbuf c)" using cell_index [OF i j] R(2) by simp
    have "?h * ?n \<le> i * ?n + j \<and> i * ?n + j < ?h * ?n + ?n \<longleftrightarrow> i = ?h"
    proof
      assume b: "?h * ?n \<le> i * ?n + j \<and> i * ?n + j < ?h * ?n + ?n"
      show "i = ?h"
      proof (rule ccontr)
        assume "i \<noteq> ?h"
        then consider "i < ?h" | "?h < i" by linarith
        then show False
        proof cases
          case 1
          then show False using b cell_index [OF 1 j] by simp
        next
          case 2
          then have "Suc ?h * ?n \<le> i * ?n" by (intro mult_le_mono1) simp
          then show False using b by simp
        qed
      qed
    qed (use j in simp)
    then show "slice (sbuf c1) ?n i ! j = (if i = ?h then slice (cells c) ?n 0 else slice (sbuf c) ?n i) ! j"
      using a j by (auto simp: c1(1) fold_fill)
  qed simp
  show ?thesis
  proof (cases "sbuf_count c < ?R")
    case True
    have h: "?h = sbuf_count c" using R(4) True .
    have "(Suc ?h mod ?R + ?R - Suc ?h + j) mod ?R = j" if "j < Suc ?h" for j
      using that True h by (cases "Suc ?h = ?R") auto
    then have "history c1 = map (slice (sbuf c1) ?n) [0..<Suc ?h]"
      using True h c1 by (simp add: history_def del: upt_Suc)
    also have "\<dots> = history c @ [slice (cells c) ?n 0]"
      using True h sl by (simp add: history_def)
    finally show ?thesis using True by (simp add: last_n_def history_def)
  next
    case False
    then have full: "sbuf_count c = ?R" using R(3) by simp
    show ?thesis
    proof (rule nth_equalityI)
      show "length (history c1) = length (last_n ?R (history c @ [slice (cells c) ?n 0]))"
        using full c1 by (simp add: history_def last_n_def)
      fix j assume "j < length (history c1)"
      then have j: "j < ?R" using full c1 by (simp add: history_def)
      have e: "history c1 ! j = slice (sbuf c1) ?n ((?h + 1 + j) mod ?R)"
        using j full c1 by (simp add: history_def mod_simps)
      show "history c1 ! j = last_n ?R (history c @ [slice (cells c) ?n 0]) ! j"
      proof (cases "j + 1 < ?R")
        case True
        have ne: "(?h + 1 + j) mod ?R \<noteq> ?h"
        proof
          assume a: "(?h + 1 + j) mod ?R = ?h"
          show False
          proof (cases "?h + 1 + j < ?R")
            case False
            then have "(?h + 1 + j) mod ?R = ?h + 1 + j - ?R" using R(1) True by (simp add: le_mod_geq)
            then show False using a True False by simp
          qed (use a in simp)
        qed
        then show ?thesis using True full c1 e sl [of "(?h + 1 + j) mod ?R"] R(1)
          by (simp add: last_n_def nth_append history_def add.assoc less_diff_conv)
      next
        case F: False
        then have "?h + 1 + j = ?h + ?R" using j by simp
        then have "(?h + 1 + j) mod ?R = ?h" using R(1) by (simp only:) simp
        then show ?thesis using e sl [OF R(1)] F j full by (simp add: last_n_def nth_append history_def less_diff_conv)
      qed
    qed
  qed
qed


abbreviation blank_of :: "console \<Rightarrow> u16" where
  "blank_of c \<equiv> vga_entry CHR '' '' (color c)"

definition same_face :: "console \<Rightarrow> console \<Rightarrow> bool" where
  "same_face c c1 \<longleftrightarrow> cols c1 = cols c \<and> rows c1 = rows c \<and> sbuf_rows c1 = sbuf_rows c \<and> color c1 = color c \<and>
     vram c1 = vram c \<and> vram_pitch_chars c1 = vram_pitch_chars c"

lemma vga_scroll_up_ok:
  assumes g: "con_geom c"
  obtains c1 where "vga_scroll_up c = Some c1" "con_geom c1" "same_face c c1" "c_row c1 = c_row c" "c_col c1 = c_col c"
    "window c1 = tl (window c) @ [replicate (cols c) (blank_of c)]"
    "history c1 = last_n (sbuf_rows c) (history c @ [hd (window c)])" "view_offset_rows c = 0 \<longrightarrow> view_offset_rows c1 = 0"
proof -
  let ?n = "cols c"
  let ?cnt = "if sbuf_count c < sbuf_rows c then sbuf_count c + 1 else sbuf_count c"
  let ?vo = "if view_offset_rows c > 0 \<and> view_offset_rows c < ?cnt
    then if view_offset_rows c + 1 > ?cnt then ?cnt else view_offset_rows c + 1 else view_offset_rows c"
  let ?xs = "fold (\<lambda>k xs. xs[(rows c - 1) * ?n + k := blank_of c]) [0..<?n]
    (fold (\<lambda>k xs. xs[k := xs ! (k + ?n)]) [0..<(rows c - 1) * ?n] (cells c))"
  let ?sb = "fold (\<lambda>k xs. xs[sbuf_head c * ?n + k := cells c ! k]) [0..<?n] (sbuf c)"
  let ?c1 = "c\<lparr>sbuf := ?sb, sbuf_head := (sbuf_head c + 1) mod sbuf_rows c, sbuf_count := ?cnt,
    view_offset_rows := ?vo, cells := ?xs\<rparr>"
  have h: "sbuf_head c < sbuf_rows c" "0 < rows c" "0 < sbuf_rows c" "rows c * ?n \<le> length (cells c)"
    "sbuf_rows c * ?n \<le> length (sbuf c)" "0 < ?n" using g by (simp_all add: con_geom_def)
  have "Suc (sbuf_head c) * ?n \<le> sbuf_rows c * ?n" using h(1) by (intro mult_le_mono1) simp
  then have b: "\<not> sbuf_head c * ?n + ?n > length (sbuf c)" using h(5) by simp
  have "vga_scroll_up c = Some ?c1"
    using b h by (simp add: vga_scroll_up_def Let_def del: upt_Suc)
  moreover have "con_geom ?c1" using g by (auto simp: con_geom_def fold_fill fold_shift mod_Suc)
  moreover have "window ?c1 = tl (window c) @ [replicate ?n (blank_of c)]"
  proof (rule nth_equalityI)
    fix r assume "r < length (window ?c1)"
    then have r: "r < rows c" by simp
    then have "window ?c1 ! r = (if r + 1 < rows c then slice (cells c) ?n (r + 1) else replicate ?n (blank_of c))"
      using scroll_cells(2) [OF g r, of "blank_of c"] by (simp add: window_def)
    then show "window ?c1 ! r = (tl (window c) @ [replicate ?n (blank_of c)]) ! r"
      using r by (simp add: nth_append nth_tl window_def less_diff_conv)
  qed (use h in simp)
  moreover have "history ?c1 = last_n (sbuf_rows c) (history c @ [slice (cells c) ?n 0])"
    by (rule scroll_ring [OF g]) simp_all
  moreover have "slice (cells c) ?n 0 = hd (window c)" using h by (simp add: window_def hd_map)
  ultimately show ?thesis using that [of ?c1] by (simp add: same_face_def)
qed


section \<open>Characters\<close>

lemma last_n_append: "last_n n (last_n n xs @ ys) = last_n n (xs @ ys)"
  by (cases "length xs \<le> n") (auto simp: last_n_def add.commute)

lemma same_face_simps:
  assumes "same_face c c1"
  shows "cols c1 = cols c" "rows c1 = rows c" "sbuf_rows c1 = sbuf_rows c" "color c1 = color c" "vram c1 = vram c"
    "vram_pitch_chars c1 = vram_pitch_chars c"
  using assms by (simp_all add: same_face_def)

lemma next_row_tty:
  assumes "is_tty c t"
  obtains c1 sc where "next_row c = Some (c1, sc)" "is_tty c1 (tty_newline (cols c) (blank_of c) t)" "same_face c c1"
    "sc \<longleftrightarrow> c_row c + 1 = rows c" "view_offset_rows c = 0 \<longrightarrow> view_offset_rows c1 = 0"
proof -
  note t = assms [unfolded is_tty_def]
  show ?thesis
  proof (cases "c_row c + 1 < rows c")
    case True
    then have "is_tty (c\<lparr>c_row := c_row c + 1\<rparr>) (tty_newline (cols c) (blank_of c) t)"
      using t by (simp add: is_tty_def con_ok_def con_geom_def tty_newline_def window_def history_def)
    then show ?thesis using True that [of "c\<lparr>c_row := c_row c + 1\<rparr>" False] by (simp add: next_row_def same_face_def)
  next
    case False
    let ?c = "c\<lparr>c_row := c_row c + 1\<rparr>"
    have g: "con_geom ?c" using t by (simp add: con_ok_def con_geom_def)
    obtain c1 where c1: "vga_scroll_up ?c = Some c1" "con_geom c1" "same_face ?c c1" "c_row c1 = c_row ?c" "c_col c1 = c_col ?c"
      "window c1 = tl (window ?c) @ [replicate (cols ?c) (blank_of ?c)]"
      "history c1 = last_n (sbuf_rows ?c) (history ?c @ [hd (window ?c)])" "view_offset_rows ?c = 0 \<longrightarrow> view_offset_rows c1 = 0"
      by (rule vga_scroll_up_ok [OF g])
    note f = same_face_simps [OF c1(3)]
    let ?d = "c1\<lparr>c_row := rows c - 1\<rparr>"
    have w: "window ?c = window c" "history ?c = history c" "window ?d = window c1" "history ?d = history c1"
      by (simp_all add: window_def history_def)
    have r: "c_row c = rows c - 1" "0 < rows c" using t False by (auto simp: con_ok_def con_geom_def)
    have ok: "con_ok ?d" using c1 t f r by (simp add: con_ok_def con_geom_def)
    have "last_n (sbuf_rows c) (t_hist t @ [hd (window c)]) = last_n (sbuf_rows c) (history c @ [hd (window c)])"
      using t last_n_append [of "sbuf_rows c" "t_hist t" "[hd (window c)]"] by simp
    then have "is_tty ?d (tty_newline (cols c) (blank_of c) t)"
      using ok t False c1 f r w by (simp add: is_tty_def tty_newline_def)
    then show ?thesis using False c1(1,3,8) r that [of ?d True] by (simp add: next_row_def same_face_def)
  qed
qed

lemma put_cell_tty:
  assumes "is_tty c t"
  obtains c1 sc where "put_cell c ch = Some (c1, sc)" "is_tty c1 (tty_putc (cols c) (color c) ch t)" "same_face c c1"
    "sc \<longleftrightarrow> (ch = CHR 0x0A \<or> ch \<notin> {CHR 0x0D, CHR 0x08} \<and> c_col c + 1 = cols c) \<and> c_row c + 1 = rows c"
    "view_offset_rows c = 0 \<longrightarrow> view_offset_rows c1 = 0"
proof -
  note t = assms [unfolded is_tty_def]
  have tt: "is_tty (c\<lparr>c_col := 0\<rparr>) (t\<lparr>t_col := 0\<rparr>)" "is_tty (c\<lparr>c_col := c_col c - 1\<rparr>) (t\<lparr>t_col := c_col c - 1\<rparr>)"
    using t by (auto simp: is_tty_def con_ok_def con_geom_def window_def history_def)
  consider (nl) "ch = CHR 0x0A" | (cr) "ch = CHR 0x0D" | (bs) "ch = CHR 0x08" | (pr) "ch \<notin> {CHR 0x0A, CHR 0x0D, CHR 0x08}"
    by auto
  then show ?thesis
  proof cases
    case nl
    then show ?thesis using next_row_tty [OF tt(1)] that by (auto simp: put_cell_def tty_putc_def same_face_def)
  next
    case cr
    then show ?thesis using tt(1) that [of "c\<lparr>c_col := 0\<rparr>" False] by (simp add: put_cell_def tty_putc_def same_face_def)
  next
    case bs
    have "c_col c = 0 \<Longrightarrow> c\<lparr>c_col := 0\<rparr> = c" by (cases c) simp
    then have "put_cell c ch = Some (c\<lparr>c_col := c_col c - 1\<rparr>, False)" using bs by (simp add: put_cell_def)
    then show ?thesis using bs tt(2) t that [of "c\<lparr>c_col := c_col c - 1\<rparr>" False] by (simp add: tty_putc_def same_face_def)
  next
    case pr
    let ?v = "vga_entry ch (color c)" and ?p = "c_row c * cols c + c_col c"
    let ?c1 = "c\<lparr>cells := (cells c)[?p := ?v]\<rparr>"
    let ?t1 = "t\<lparr>t_win := (t_win t)[t_row t := (t_win t ! t_row t)[t_col t := ?v]]\<rparr>"
    have g: "con_geom c" "c_row c < rows c" "c_col c < cols c" using t by (simp_all add: con_ok_def)
    have p: "?p < length (cells c)" using cell_index [OF g(2,3)] g(1) by (simp add: con_geom_def)
    have w: "window ?c1 = (window c)[c_row c := (window c ! c_row c)[c_col c := ?v]]" by (rule window_update [OF g])
    have u: "is_tty (?c1\<lparr>c_col := k\<rparr>) (?t1\<lparr>t_col := k\<rparr>)" if "k < cols c" for k
      using t w that by (simp add: is_tty_def con_ok_def con_geom_def window_def history_def)
    show ?thesis
    proof (cases "c_col c + 1 < cols c")
      case True
      then show ?thesis using u [OF True] pr p t that [of "?c1\<lparr>c_col := c_col c + 1\<rparr>" False]
        by (simp add: put_cell_def tty_putc_def same_face_def)
    next
      case False
      then show ?thesis using next_row_tty [OF u [of 0]] pr p t g that
        by (auto simp: put_cell_def tty_putc_def same_face_def Let_def)
    qed
  qed
qed


section \<open>The screen\<close>

text \<open>The console's rows of video memory do not overlap and do not wrap.\<close>

definition vram_ok :: "console \<Rightarrow> bool" where
  "vram_ok c \<longleftrightarrow> cols c \<le> vram_pitch_chars c \<and> 2 * (rows c * vram_pitch_chars c) \<le> 2 ^ 64"

definition screen :: "console \<Rightarrow> (u64 \<Rightarrow> u16) \<Rightarrow> u16 list list" where
  "screen c v = map (\<lambda>r. map (\<lambda>k. v (vaddr c (r * vram_pitch_chars c + k))) [0..<cols c]) [0..<rows c]"

lemma vaddr_inj:
  assumes "vram_ok c" "r < rows c" "k < cols c" "r' < rows c" "k' < cols c"
  shows "vaddr c (r * vram_pitch_chars c + k) = vaddr c (r' * vram_pitch_chars c + k') \<longleftrightarrow> r = r' \<and> k = k'"
proof -
  let ?p = "vram_pitch_chars c"
  have k: "k < ?p" "k' < ?p" using assms by (auto simp: vram_ok_def)
  have b: "2 * (r * ?p + k) < 2 ^ 64" "2 * (r' * ?p + k') < 2 ^ 64"
    using cell_index [OF assms(2) k(1)] cell_index [OF assms(4) k(2)] assms(1) by (simp_all add: vram_ok_def)
  have "vaddr c (r * ?p + k) = vaddr c (r' * ?p + k') \<longleftrightarrow> (of_nat (2 * (r * ?p + k)) :: u64) = of_nat (2 * (r' * ?p + k'))"
    by (simp only: vaddr_def add_left_cancel)
  also have "\<dots> \<longleftrightarrow> 2 * (r * ?p + k) = 2 * (r' * ?p + k')"
    using b by (simp only: word_of_nat_eq_iff take_bit_nat_eq_self len_of_numeral_defs) (simp add: take_bit_nat_eq_self)
  also have "\<dots> \<longleftrightarrow> r * ?p + k = r' * ?p + k'" by (rule nat_mult_eq_cancel1) simp
  finally show ?thesis using cell_index_inj [OF k, of r r'] by simp
qed

lemma draw_fold_at:
  assumes "vram_ok c" "r < rows c" "k < cols c" "m \<le> n * cols c" "r0 + n \<le> rows c"
  shows "fold (\<lambda>j v. v(vaddr c ((r0 + j div cols c) * vram_pitch_chars c + j mod cols c) := src j)) [0..<m] v
      (vaddr c (r * vram_pitch_chars c + k)) =
    (if r0 \<le> r \<and> (r - r0) * cols c + k < m then src ((r - r0) * cols c + k) else v (vaddr c (r * vram_pitch_chars c + k)))"
  using assms(4)
proof (induction m)
  case (Suc m)
  have m: "m mod cols c < cols c" "m div cols c < n"
    using Suc.prems assms(3) by (simp_all add: less_mult_imp_div_less)
  have i: "vaddr c (r * vram_pitch_chars c + k) = vaddr c ((r0 + m div cols c) * vram_pitch_chars c + m mod cols c) \<longleftrightarrow>
      r = r0 + m div cols c \<and> k = m mod cols c"
    using vaddr_inj [OF assms(1,2,3) _ m(1), of "r0 + m div cols c"] m(2) assms(5) by simp
  have e: "r = r0 + m div cols c \<and> k = m mod cols c \<longleftrightarrow> r0 \<le> r \<and> (r - r0) * cols c + k = m"
    using assms(3) by auto
  show ?case using Suc i e by (auto simp: less_Suc_eq)
qed simp

lemma draw_rows_at:
  assumes "vram_ok c" "r < rows c" "k < cols c" "r0 + n \<le> rows c"
  shows "draw_rows c src r0 n v (vaddr c (r * vram_pitch_chars c + k)) =
    (if r0 \<le> r \<and> r < r0 + n then src ((r - r0) * cols c + k) else v (vaddr c (r * vram_pitch_chars c + k)))"
proof -
  have "(r - r0) * cols c + k < n * cols c \<longleftrightarrow> r - r0 < n"
  proof
    assume "(r - r0) * cols c + k < n * cols c"
    then have "(r - r0) * cols c < n * cols c" by (rule le_less_trans [OF le_add1])
    then show "r - r0 < n" by simp
  qed (rule cell_index [OF _ assms(3)])
  then show ?thesis unfolding draw_rows_def draw_fold_at [OF assms(1,2,3) order_refl assms(4)]
    using assms(3) by (auto simp: less_diff_conv2 not_le)
qed

lemma screen_eqI:
  assumes "\<And>r k. r < rows c \<Longrightarrow> k < cols c \<Longrightarrow> v (vaddr c (r * vram_pitch_chars c + k)) = xs ! r ! k"
    and "length xs = rows c" "\<And>x. x \<in> set xs \<Longrightarrow> length x = cols c"
  shows "screen c v = xs"
proof (rule nth_equalityI)
  fix r assume "r < length (screen c v)"
  then have r: "r < rows c" by (simp add: screen_def)
  then have l: "length (xs ! r) = cols c" using assms(2,3) by (metis nth_mem)
  show "screen c v ! r = xs ! r"
    by (rule nth_equalityI) (use r l assms(1) in \<open>simp_all add: screen_def\<close>)
qed (simp add: screen_def assms(2))


lemma set_con_simps [simp]:
  "i < length (s_consoles s) \<Longrightarrow> con (set_con s i c) i = c" "i \<noteq> j \<Longrightarrow> con (set_con s i c) j = con s j"
  "s_active (set_con s i c) = s_active s" "vmem (set_con s i c) = vmem s" "serial_out (set_con s i c) = serial_out s"
  "length (s_consoles (set_con s i c)) = length (s_consoles s)"
  by (simp_all add: con_def set_con_def)

text \<open>What the operations that only draw leave as it is.\<close>

definition drawn :: "con_sys \<Rightarrow> con_sys \<Rightarrow> bool" where
  "drawn s s1 \<longleftrightarrow> s_consoles s1 = s_consoles s \<and> s_active s1 = s_active s \<and> serial_out s1 = serial_out s"

lemma drawn_con: "drawn s s1 \<Longrightarrow> con s1 j = con s j"
  by (simp add: drawn_def con_def)

lemma window_nth: "r < rows c \<Longrightarrow> k < cols c \<Longrightarrow> window c ! r ! k = cells c ! (r * cols c + k)"
  by (simp add: window_def)

lemma window_row [simp]: "r < rows c \<Longrightarrow> length (window c ! r) = cols c"
  by (simp add: window_def)

lemma window_row_length: "x \<in> set (window c) \<Longrightarrow> length x = cols c"
  by (auto simp: window_def)

lemma history_row_length: "x \<in> set (history c) \<Longrightarrow> length x = cols c"
  by (auto simp: history_def)

lemma history_length [simp]: "length (history c) = sbuf_count c"
  by (simp add: history_def)

text \<open>The rows shown when the view is \<open>off\<close> rows back: never more than a screenful of history.\<close>

definition view :: "console \<Rightarrow> nat \<Rightarrow> u16 list list" where
  "view c off = take (rows c) (last_n (min off (rows c)) (history c) @ window c)"

lemma view_0 [simp]: "view c 0 = window c"
  by (simp add: view_def last_n_def)

lemma ring_index:
  assumes "con_geom c" "k < h" "h \<le> sbuf_count c"
  defines "idx0 \<equiv> int (sbuf_head c) - 1 - (int h - 1)"
  shows "(nat (if idx0 < 0 then idx0 mod int (sbuf_rows c) else idx0) + k) mod sbuf_rows c =
    (sbuf_head c + sbuf_rows c - sbuf_count c + (sbuf_count c - h + k)) mod sbuf_rows c"
proof -
  let ?R = "sbuf_rows c" and ?H = "sbuf_head c"
  have R: "?H < ?R" "h \<le> ?R" using assms(1-3) by (auto simp: con_geom_def)
  have e: "?H + ?R - sbuf_count c + (sbuf_count c - h + k) = ?H + ?R - h + k"
    using assms(1-3) by (simp add: con_geom_def)
  show ?thesis
  proof (cases "idx0 < 0")
    case True
    have "idx0 mod int ?R = (idx0 + int ?R) mod int ?R" by simp
    also have "\<dots> = idx0 + int ?R" using True R by (intro mod_pos_pos_trivial) (auto simp: idx0_def)
    also have "\<dots> = int (?H + ?R - h)" using R by (simp add: idx0_def)
    finally show ?thesis unfolding e using True by simp
  next
    case False
    then have "nat idx0 = ?H - h" "h \<le> ?H" by (auto simp: idx0_def)
    moreover from this have "?H + ?R - h + k = (?H - h + k) + ?R" using R by simp
    then have "(?H + ?R - h + k) mod ?R = (?H - h + k) mod ?R" by (simp only: mod_add_self2)
    ultimately show ?thesis unfolding e using False by simp
  qed
qed


lemma view_nth:
  assumes "r < rows c" "k < cols c" "h = min off (rows c)" "off \<le> sbuf_count c"
  shows "view c off ! r ! k = (if r < h
    then sbuf c ! ((sbuf_head c + sbuf_rows c - sbuf_count c + (sbuf_count c - h + r)) mod sbuf_rows c * cols c + k)
    else cells c ! ((r - h) * cols c + k))"
proof -
  have "min h (sbuf_count c) = h" using assms by simp
  then have l: "length (last_n h (history c)) = h" by (simp add: last_n_def)
  show ?thesis
  proof (cases "r < h")
    case True
    then have "view c off ! r = history c ! (sbuf_count c - h + r)"
      using l assms by (simp add: view_def nth_append last_n_def)
    moreover have "sbuf_count c - h + r < sbuf_count c" using True assms by simp
    ultimately show ?thesis using True assms by (simp add: history_def)
  next
    case False
    then have "view c off ! r = window c ! (r - h)" using l assms by (simp add: view_def nth_append)
    then show ?thesis using False assms by (simp add: window_nth)
  qed
qed

lemma view_shape: "off \<le> sbuf_count c \<Longrightarrow> length (view c off) = rows c" "x \<in> set (view c off) \<Longrightarrow> length x = cols c"
  by (auto simp: view_def last_n_def dest!: in_set_takeD in_set_dropD intro: window_row_length history_row_length)

lemma render_view_ok:
  assumes a: "s_active s = Some i" and c: "c = con s i" "con_geom c"
  obtains s1 where "render_view s i = Some s1" "drawn s s1" "vram_ok c \<Longrightarrow> screen c (vmem s1) = view c (view_offset_rows c)"
proof -
  let ?off = "view_offset_rows c"
  let ?h = "min ?off (rows c)"
  let ?idx0 = "int (sbuf_head c) - 1 - (int ?h - 1)"
  let ?idx = "nat (if ?idx0 < 0 then ?idx0 mod int (sbuf_rows c) else ?idx0)"
  let ?v1 = "draw_rows c (\<lambda>k. sbuf c ! ((?idx + k div cols c) mod sbuf_rows c * cols c + k mod cols c)) 0 ?h (vmem s)"
  let ?v2 = "draw_rows c (\<lambda>k. cells c ! k) ?h (rows c - ?h) ?v1"
  have off: "?off \<le> sbuf_count c" using c(2) by (simp add: con_geom_def)
  then have h: "(if (if ?off > sbuf_count c then sbuf_count c else ?off) > rows c then rows c
    else if ?off > sbuf_count c then sbuf_count c else ?off) = ?h" by simp
  obtain s1 where s1: "render_view s i = Some s1" "drawn s s1" "vmem s1 = ?v2"
    using a c h unfolding render_view_def Let_def c(1) [symmetric]
    by (cases "?off = 0") (simp_all add: con_geom_def drawn_def vga_move_hw_cursor_def not_less)
  moreover have "screen c (vmem s1) = view c ?off" if v: "vram_ok c"
  proof (rule screen_eqI)
    fix r k assume r: "r < rows c" "k < cols c"
    show "vmem s1 (vaddr c (r * vram_pitch_chars c + k)) = view c ?off ! r ! k"
      unfolding s1(3) view_nth [OF r refl off] using draw_rows_at [OF v r] r off ring_index [OF c(2), of r ?h]
      by (auto simp: min_le_iff_disj)
  qed (use view_shape off in auto)
  ultimately show ?thesis using that by blast
qed

lemma vga_flush_ok:
  assumes a: "s_active s = Some i" and c: "c = con s i" "con_geom c"
  obtains s1 where "vga_flush s i = Some s1" "drawn s s1" "vram_ok c \<Longrightarrow> screen c (vmem s1) = view c (view_offset_rows c)"
proof (cases "view_offset_rows c = 0")
  case True
  let ?v = "draw_rows c (\<lambda>k. cells c ! k) 0 (rows c) (vmem s)"
  obtain s1 where s1: "vga_flush s i = Some s1" "drawn s s1" "vmem s1 = ?v"
    using a c True unfolding vga_flush_def Let_def c(1) [symmetric]
    by (simp add: con_geom_def drawn_def vga_move_hw_cursor_def not_less)
  have "screen c (vmem s1) = window c" if v: "vram_ok c"
    by (rule screen_eqI) (use v s1 draw_rows_at [OF v] window_row_length in \<open>simp_all add: window_nth\<close>)
  then show ?thesis using that s1 True by simp
next
  case False
  then have "vga_flush s i = render_view s i" using a c by (simp add: vga_flush_def)
  then show ?thesis using render_view_ok [OF assms] that by auto
qed


lemma vga_putc_cases:
  assumes "s_active s = Some i" "put_cell (con s i) ch = Some (c1, sc)"
  shows "vga_putc s i ch = map_option (\<lambda>s2. vga_move_hw_cursor s2 (c_row c1) (c_col c1) (cols c1))
    (if ch \<in> {CHR 0x0A, CHR 0x0D, CHR 0x08} then Some (set_con s i c1)
     else if sc \<or> view_offset_rows c1 \<noteq> 0 then vga_flush (set_con s i c1) i
     else Some ((set_con s i c1)\<lparr>vmem := (vmem s)(vaddr c1 (c_row (con s i) * vram_pitch_chars c1 + c_col (con s i)) :=
       cells c1 ! (c_row (con s i) * cols c1 + c_col (con s i)))\<rparr>))"
  using assms by (cases "vga_flush (set_con s i c1) i") (auto simp: vga_putc_def Let_def)

lemma vga_putc_ok:
  assumes a: "s_active s = Some i" "i < length (s_consoles s)" and c: "c = con s i" "is_tty c t"
  obtains s1 where "vga_putc s i ch = Some s1" "is_tty (con s1 i) (tty_putc (cols c) (color c) ch t)" "same_face c (con s1 i)"
    "s_active s1 = Some i" "length (s_consoles s1) = length (s_consoles s)" "serial_out s1 = serial_out s"
    "\<And>j. j \<noteq> i \<Longrightarrow> con s1 j = con s j"
proof -
  obtain c1 sc where c1: "put_cell c ch = Some (c1, sc)" "is_tty c1 (tty_putc (cols c) (color c) ch t)" "same_face c c1"
    by (rule put_cell_tty [OF c(2)])
  have g: "con_geom c1" using c1(2) by (simp add: is_tty_def con_ok_def)
  let ?s1 = "set_con s i c1"
  obtain s2 where s2: "vga_flush ?s1 i = Some s2" "drawn ?s1 s2"
    using vga_flush_ok [of ?s1 i c1] a g by auto
  note p = vga_putc_cases [OF a(1) c1(1) [unfolded c(1)]]
  have "\<exists>s3. vga_putc s i ch = Some s3 \<and> drawn ?s1 s3"
  proof (cases "ch \<notin> {CHR 0x0A, CHR 0x0D, CHR 0x08} \<and> (sc \<or> view_offset_rows c1 \<noteq> 0)")
    case True
    then show ?thesis using s2 by (auto simp: p drawn_def vga_move_hw_cursor_def)
  qed (auto simp: p drawn_def vga_move_hw_cursor_def)
  then obtain s3 where s3: "vga_putc s i ch = Some s3" "drawn ?s1 s3" by blast
  show ?thesis using that [OF s3(1)] s3(2) drawn_con [OF s3(2)] a c1(2,3) by (simp add: drawn_def)
qed

lemma write_chars_ok:
  assumes "s_active s = Some i" "i < length (s_consoles s)" "is_tty (con s i) t"
  shows "\<exists>s1. write_chars s i str = Some s1 \<and>
    is_tty (con s1 i) (fold (tty_putc (cols (con s i)) (color (con s i))) str t) \<and> same_face (con s i) (con s1 i) \<and>
    s_active s1 = Some i \<and> length (s_consoles s1) = length (s_consoles s) \<and> serial_out s1 = serial_out s @ str \<and>
    (\<forall>j. j \<noteq> i \<longrightarrow> con s1 j = con s j)"
  using assms
proof (induction str arbitrary: s t)
  case Nil
  then show ?case by (simp add: same_face_def)
next
  case (Cons ch str)
  obtain s1 where s1: "vga_putc s i ch = Some s1" "is_tty (con s1 i) (tty_putc (cols (con s i)) (color (con s i)) ch t)"
    "same_face (con s i) (con s1 i)" "s_active s1 = Some i" "length (s_consoles s1) = length (s_consoles s)"
    "serial_out s1 = serial_out s" "\<And>j. j \<noteq> i \<Longrightarrow> con s1 j = con s j"
    using vga_putc_ok [OF Cons.prems(1,2) refl Cons.prems(3)] by blast
  let ?s1 = "serial_putc s1 ch"
  have e: "con ?s1 j = con s1 j" for j by (simp add: serial_putc_def con_def)
  show ?case
    using Cons.IH [of ?s1 "tty_putc (cols (con s i)) (color (con s i)) ch t"] s1 Cons.prems
    by (auto simp: e same_face_def) (simp_all add: serial_putc_def)
qed

lemma put_chars_write:
  assumes "s_active s = Some i" "i < length (s_consoles s)" "is_tty (con s i) t"
  shows "put_chars s str = write_chars s i str"
  using assms
proof (induction str arbitrary: s t)
  case (Cons ch str)
  obtain s1 where s1: "vga_putc s i ch = Some s1" "is_tty (con s1 i) (tty_putc (cols (con s i)) (color (con s i)) ch t)"
    "s_active s1 = Some i" "length (s_consoles s1) = length (s_consoles s)"
    using vga_putc_ok [OF Cons.prems(1,2) refl Cons.prems(3)] by blast
  then show ?case using Cons.IH [of "serial_putc s1 ch"] Cons.prems
    by (simp add: console_putc_def console_putc_ex_def pick_def serial_putc_def con_def)
qed simp


section \<open>Output as on a terminal\<close>

text \<open>\<open>s1\<close> is \<open>s\<close> after \<open>str\<close> went to console \<open>i\<close>, showing the terminal \<open>t\<close> before, and to the serial line.\<close>

definition written :: "con_sys \<Rightarrow> nat \<Rightarrow> tty \<Rightarrow> string \<Rightarrow> con_sys \<Rightarrow> bool" where
  "written s i t str s1 \<longleftrightarrow>
     is_tty (con s1 i) (fold (tty_putc (cols (con s i)) (color (con s i))) str t) \<and> same_face (con s i) (con s1 i) \<and>
     s_active s1 = Some i \<and> length (s_consoles s1) = length (s_consoles s) \<and> serial_out s1 = serial_out s @ str \<and>
     (\<forall>j. j \<noteq> i \<longrightarrow> con s1 j = con s j)"

lemma put_chars_written:
  assumes "s_active s = Some i" "i < length (s_consoles s)" "is_tty (con s i) t"
  obtains s1 where "put_chars s str = Some s1" "written s i t str s1"
  using write_chars_ok [OF assms, of str] put_chars_write [OF assms, of str] unfolding written_def by auto

lemma written_trans: "written s i t xs s1 \<Longrightarrow> written s1 i (fold (tty_putc (cols (con s i)) (color (con s i))) xs t) ys s2 \<Longrightarrow>
    written s i t (xs @ ys) s2"
  by (auto simp: written_def same_face_def)

text \<open>A console as \<open>console_init\<close> makes it.\<close>

definition blank_tty :: "nat \<Rightarrow> nat \<Rightarrow> u8 \<Rightarrow> tty" where
  "blank_tty n m clr = \<lparr>t_hist = [], t_win = replicate m (replicate n (vga_entry CHR '' '' clr)), t_row = 0, t_col = 0\<rparr>"

lemma cleared_window:
  assumes "rows c * cols c \<le> length (cells c)"
  shows "window (c\<lparr>cells := fold (\<lambda>k xs. xs[k := f]) [0..<rows c * cols c] (cells c)\<rparr>) = replicate (rows c) (replicate (cols c) f)"
proof (rule nth_equalityI)
  fix r assume "r < length (window (c\<lparr>cells := fold (\<lambda>k xs. xs[k := f]) [0..<rows c * cols c] (cells c)\<rparr>))"
  then have r: "r < rows c" by simp
  have "fold (\<lambda>k xs. xs[k := f]) [0..<rows c * cols c] (cells c) ! (r * cols c + k) = f" if "k < cols c" for k
    using fold_fill(2) [of "r * cols c + k" "cells c" 0 "\<lambda>_. f" "rows c * cols c"] cell_index [OF r that] assms by simp
  then show "window (c\<lparr>cells := fold (\<lambda>k xs. xs[k := f]) [0..<rows c * cols c] (cells c)\<rparr>) ! r =
      replicate (rows c) (replicate (cols c) f) ! r"
    using r by (auto simp: window_def slice_def intro!: nth_equalityI)
qed simp

definition boot_console :: console where
  "boot_console = \<lparr>cols = 0, rows = 0, c_row = 0, c_col = 0, color = 0, vram = 0, vram_pitch_chars = 0,
     cells = replicate 2000 0, sbuf = replicate 40960 0, sbuf_rows = 0, sbuf_head = 0, sbuf_count = 0, view_offset_rows = 0\<rparr>"

definition boot_sys :: con_sys where
  "boot_sys = \<lparr>s_consoles = replicate 4 boot_console, s_active = None, vmem = (\<lambda>_. 0), hw_cursor = 0, serial_out = []\<rparr>"

lemma console_init_tty:
  assumes "s_active s = None" "0 < length (s_consoles s)" "cols (con s 0) = 0" "length (cells (con s 0)) = 2000"
    "length (sbuf (con s 0)) = 40960"
  obtains s1 where "console_init s = Some s1" "s_active s1 = Some 0" "is_tty (con s1 0) (blank_tty 80 25 0x0F)" "vram_ok (con s1 0)"
    "length (s_consoles s1) = length (s_consoles s)" "serial_out s1 = serial_out s" "vmem s1 = vmem s" "cols (con s1 0) = 80"
    "color (con s1 0) = 0x0F"
proof -
  let ?c = "bind_backend_defaults ((con s 0)\<lparr>cols := 80, rows := 25, color := 0x0F, c_row := 0, c_col := 0\<rparr>) 0xB8000 80"
  let ?f = "vga_entry CHR '' '' 0x0F"
  let ?d = "?c\<lparr>cells := fold (\<lambda>k xs. xs[k := ?f]) [0..<rows ?c * cols ?c] (cells ?c)\<rparr>"
  let ?e = "?d\<lparr>c_row := 0, c_col := 0, sbuf_rows := 512, sbuf_head := 0, sbuf_count := 0, view_offset_rows := 0\<rparr>"
  let ?s = "(set_con s 0 ?e)\<lparr>s_active := Some 0\<rparr>"
  have l: "length (fold (\<lambda>k xs. xs[k := ?f]) [0..<n] xs) = length xs" for n xs
    using fold_fill(1) [of 0 "\<lambda>_. ?f"] by simp
  have "console_init s = Some ?s"
    using assms by (simp add: console_init_def vga_clear_def VGA_DEFAULT_COLS_def VGA_DEFAULT_ROWS_def VGA_MEM_DEFAULT_def
      CONSOLE_SCROLLBACK_ROWS_def Let_def set_con_def con_def bind_backend_defaults_def del: upt_Suc upt_rec_numeral)
  moreover have c: "con ?s 0 = ?e" using assms by (simp add: con_def set_con_def)
  moreover have "window ?d = replicate 25 (replicate 80 ?f)"
    using cleared_window [of ?c ?f] assms(4) by (simp add: bind_backend_defaults_def del: upt_rec_numeral)
  then have "is_tty ?e (blank_tty 80 25 0x0F)"
    using assms(4,5) by (simp add: is_tty_def con_ok_def con_geom_def blank_tty_def history_def last_n_def window_def l
      bind_backend_defaults_def del: upt_rec_numeral)
  ultimately show ?thesis
    using that [of ?s] assms by (simp add: vram_ok_def bind_backend_defaults_def del: upt_rec_numeral)
qed


section \<open>Numbers\<close>

text \<open>The value of a string of digits in base \<open>b\<close>.\<close>

definition digit :: "char \<Rightarrow> nat" where
  "digit c = (let n = of_char c in if n < 58 then n - 48 else n - 55)"

definition numeral_value :: "nat \<Rightarrow> string \<Rightarrow> nat" where
  "numeral_value b str = foldl (\<lambda>a c. b * a + digit c) 0 str"

definition dec_alphabet :: string where "dec_alphabet = ''0123456789''"
definition hex_alphabet :: string where "hex_alphabet = ''0123456789ABCDEF''"

lemma dec_digit:
  assumes "d < 10"
  shows "char_of (48 + d) \<in> set dec_alphabet \<and> digit (char_of (48 + d)) = d \<and> (char_of (48 + d) = CHR ''0'' \<longleftrightarrow> d = 0)"
proof -
  have "\<forall>d \<in> set [0..<10]. char_of (48 + d) \<in> set dec_alphabet \<and> digit (char_of (48 + d)) = d \<and> (char_of (48 + d) = CHR ''0'' \<longleftrightarrow> d = 0)"
    by code_simp
  then show ?thesis using assms by (metis atLeastLessThan_iff set_upt zero_le)
qed

lemma hex_digit_value:
  assumes "d < 16"
  shows "digit (''0123456789ABCDEF'' ! d) = d \<and> ''0123456789ABCDEF'' ! d \<in> set hex_alphabet"
proof -
  have "\<forall>d \<in> set [0..<16]. digit (''0123456789ABCDEF'' ! d) = d \<and> ''0123456789ABCDEF'' ! d \<in> set hex_alphabet" by code_simp
  then show ?thesis using assms by (metis atLeastLessThan_iff set_upt zero_le)
qed

lemma dec_loop_value: "unat v < 10 ^ n \<Longrightarrow> foldr (\<lambda>c a. 10 * a + digit c) (dec_loop n v) 0 = unat v"
proof (induction n arbitrary: v)
  case (Suc n)
  have "unat (v div 10) < 10 ^ n" using Suc.prems by (simp add: unat_div less_mult_imp_div_less mult.commute)
  then show ?case using Suc.IH [of "v div 10"] dec_digit [of "unat v mod 10"]
    by (auto simp: unat_div unat_mod word_gt_0 simp flip: word_unat_eq_iff)
qed simp

lemma dec_loop_digits: "set (dec_loop n v) \<subseteq> set dec_alphabet"
proof (induction n v rule: dec_loop.induct)
  case (2 n v)
  then show ?case using dec_digit [of "unat v mod 10"] by (auto simp: unat_mod)
qed simp

lemma dec_loop_last: "0 < v \<Longrightarrow> unat v < 10 ^ n \<Longrightarrow> dec_loop n v \<noteq> [] \<and> last (dec_loop n v) \<noteq> CHR ''0''"
proof (induction n arbitrary: v)
  case (Suc n)
  have u: "unat (v div 10) < 10 ^ n" using Suc.prems by (simp add: unat_div less_mult_imp_div_less mult.commute)
  show ?case
  proof (cases "v div 10 = 0")
    case True
    then have "unat (v div 10) = 0" by simp
    then have "unat v div 10 = 0" by (simp add: unat_div)
    then have "unat v mod 10 = unat v" "unat v mod 10 \<noteq> 0" using Suc.prems(1) by (auto simp: word_gt_0 unat_eq_0)
    moreover have "dec_loop n (v div 10) = []" using True by (cases n) simp_all
    ultimately show ?thesis using Suc.prems(1) dec_digit [of "unat v mod 10"] by (simp add: unat_mod)
  next
    case False
    then show ?thesis using Suc.IH [OF _ u] Suc.prems(1) by (simp add: word_gt_0)
  qed
qed (simp add: word_less_nat_alt)

lemma hex_fold:
  "foldl (\<lambda>a c. 16 * a + digit c) a (map (\<lambda>i. hex_digit (drop_bit (i * 4) v AND 0xF)) (rev [0..<n])) = a * 16 ^ n + unat v mod 16 ^ n"
proof (induction n arbitrary: a)
  case (Suc n)
  have "unat (drop_bit (n * 4) v AND 0xF) = unat (drop_bit (n * 4) v) mod 16"
    using unat_and_mask [of "drop_bit (n * 4) v" 4] by (simp add: mask_eq_exp_minus_1)
  also have "unat (drop_bit (n * 4) v) = unat v div 16 ^ n"
    by (simp only: unat_drop_bit_eq) (simp add: drop_bit_eq_div mult.commute [of n] power_mult)
  finally have "unat (drop_bit (n * 4) v AND 0xF) = unat v div 16 ^ n mod 16" .
  moreover from this have "digit (hex_digit (drop_bit (n * 4) v AND 0xF)) = unat v div 16 ^ n mod 16"
    using hex_digit_value [of "unat v div 16 ^ n mod 16"] by (simp add: hex_digit_def)
  moreover have "unat v mod 16 ^ Suc n = 16 ^ n * (unat v div 16 ^ n mod 16) + unat v mod 16 ^ n"
    by (simp add: mod_mult2_eq mult.commute [of 16])
  ultimately show ?case using Suc.IH by (simp add: algebra_simps)
qed simp


lemma hex_digits_set: "set (hex_digits v) \<subseteq> set hex_alphabet"
proof -
  have "hex_digit (x AND 0xF) \<in> set hex_alphabet" for x
    using hex_digit_value [of "unat (x AND 0xF)"] unat_and_mask [of x 4] by (simp add: hex_digit_def mask_eq_exp_minus_1)
  then show ?thesis by (auto simp: hex_digits_def)
qed

lemma hex_digits_value: "numeral_value 16 (hex_digits v) = unat v"
  using hex_fold [of 0 v 16] unsigned_less [of v, where 'a = nat] by (simp add: numeral_value_def hex_digits_def del: upt_rec_numeral)

lemma dec_digits_value: "numeral_value 10 (rev (dec_loop 32 v)) = unat v"
proof -
  have "unat v < 10 ^ 32" using unsigned_less [of v, where 'a = nat] by simp
  then show ?thesis using dec_loop_value [of v 32] by (simp add: numeral_value_def foldl_conv_foldr)
qed

lemma boot_tty:
  obtains s where "console_init boot_sys = Some s" "s_active s = Some 0" "0 < length (s_consoles s)" "is_tty (con s 0) (blank_tty 80 25 0x0F)"
    "vram_ok (con s 0)" "cols (con s 0) = 80"
proof -
  obtain s where "console_init boot_sys = Some s" "s_active s = Some 0" "is_tty (con s 0) (blank_tty 80 25 0x0F)" "vram_ok (con s 0)"
    "cols (con s 0) = 80" "length (s_consoles s) = length (s_consoles boot_sys)"
    by (rule console_init_tty [of boot_sys]) (simp_all add: boot_sys_def boot_console_def con_def)
  moreover from this have "0 < length (s_consoles s)" by (simp add: boot_sys_def)
  ultimately show ?thesis using that by blast
qed

lemma screen_face: "same_face c c1 \<Longrightarrow> screen c1 = screen c" "same_face c c1 \<Longrightarrow> vaddr c1 = vaddr c"
  by (simp_all add: fun_eq_iff same_face_def screen_def vaddr_def)

lemma put_screen:
  assumes v: "vram_ok c" "screen c v = window c" and r: "r < rows c" "k < cols c"
  shows "screen c (v(vaddr c (r * vram_pitch_chars c + k) := x)) = (window c)[r := (window c ! r)[k := x]]"
proof (rule screen_eqI)
  fix r' k' assume r': "r' < rows c" "k' < cols c"
  have "v (vaddr c (r' * vram_pitch_chars c + k')) = window c ! r' ! k'"
    using arg_cong [OF v(2), of "\<lambda>x. x ! r' ! k'"] r' by (simp add: screen_def)
  then show "(v(vaddr c (r * vram_pitch_chars c + k) := x)) (vaddr c (r' * vram_pitch_chars c + k')) =
      (window c)[r := (window c ! r)[k := x]] ! r' ! k'"
    using vaddr_inj [OF v(1) r' r] r r' by (auto simp: nth_list_update)
next
  fix y assume "y \<in> set ((window c)[r := (window c ! r)[k := x]])"
  then show "length y = cols c" using window_row_length [of _ c] r
    by (auto simp: in_set_conv_nth nth_list_update split: if_splits)
qed simp

section \<open>Properties\<close>

text \<open>
  C25. The console is a terminal. From any state in which its buffers hold a terminal's window and
  the last lines of its history (as many as the ring has), writing a string ends in the state
  that holds the terminal after those characters: newline, carriage return, backspace, wrapping at
  the right margin and scrolling included, at every fill of the ring. The same characters go to
  the serial line and no other console changes. After \<open>console_init\<close> the console holds a blank
  terminal of 25 rows of 80 columns.
\<close>

theorem console_write_terminal:
  assumes "s_active s = Some i" "i < length (s_consoles s)" "is_tty (con s i) t"
  shows "(\<exists>s1. console_write s str = Some s1 \<and> written s i t str s1) \<and>
    (\<exists>s0. console_init boot_sys = Some s0 \<and> s_active s0 = Some 0 \<and> is_tty (con s0 0) (blank_tty 80 25 0x0F))"
  using write_chars_ok [OF assms, of str] assms(1) boot_tty
  by (auto simp: console_write_def console_write_ex_def pick_def written_def)

theorem console_write_terminal_witness:
  "\<exists>s s1. console_init boot_sys = Some s \<and> console_write s ''dex'' = Some s1 \<and> written s 0 (blank_tty 80 25 0x0F) ''dex'' s1"
  using boot_tty console_write_terminal [where str = "''dex''" and t = "blank_tty 80 25 0x0F"] by metis

text \<open>
  C26. What the screen shows, at the live view. A character keeps the screen equal to the console's
  window, whether it is drawn alone or the screen is redrawn after scrolling, with one
  exception: a newline on the bottom row scrolls the window but writes nothing to video memory, so
  the screen still has the rows from before the scroll.
\<close>

theorem console_putc_screen:
  assumes "s_active s = Some i" "i < length (s_consoles s)" "c = con s i" "is_tty c t" "vram_ok c"
    "view_offset_rows c = 0" "screen c (vmem s) = window c"
  shows "\<exists>s1. console_putc s ch = Some s1 \<and> same_face c (con s1 i) \<and>
    (if ch = CHR 0x0A \<and> c_row c + 1 = rows c
     then vmem s1 = vmem s \<and> window (con s1 i) = tl (window c) @ [replicate (cols c) (blank_of c)]
     else screen (con s1 i) (vmem s1) = window (con s1 i))"
proof -
  note a = assms(1,2) and c = assms(3) and t = assms(4)
  obtain c1 sc where c1: "put_cell c ch = Some (c1, sc)" "is_tty c1 (tty_putc (cols c) (color c) ch t)" "same_face c c1"
    "sc \<longleftrightarrow> (ch = CHR 0x0A \<or> ch \<notin> {CHR 0x0D, CHR 0x08} \<and> c_col c + 1 = cols c) \<and> c_row c + 1 = rows c"
    "view_offset_rows c = 0 \<longrightarrow> view_offset_rows c1 = 0"
    by (rule put_cell_tty [OF t])
  note p = vga_putc_cases [OF a(1) c1(1) [unfolded c], folded c]
  note f = same_face_simps [OF c1(3)]
  have w: "window c1 = t_win (tty_putc (cols c) (color c) ch t)" "t_win t = window c" "t_row t = c_row c" "t_col t = c_col c"
    "c_row c < rows c" "c_col c < cols c" using c1(2) t by (simp_all add: is_tty_def con_ok_def)
  show ?thesis
  proof (cases "ch \<in> {CHR 0x0A, CHR 0x0D, CHR 0x08}")
    case True
    then show ?thesis using p a w c f assms(7) c1(3)
      by (auto simp: console_putc_def console_putc_ex_def pick_def tty_putc_def tty_newline_def serial_putc_def con_def set_con_def vga_move_hw_cursor_def screen_face [OF c1(3)])
  next
    case F: False
    let ?s1 = "set_con s i c1" and ?v = "vga_entry ch (color c)" and ?a = "c_row c * vram_pitch_chars c + c_col c"
    have "\<exists>s2. vga_putc s i ch = Some s2 \<and> drawn ?s1 s2 \<and> screen c (vmem s2) = window c1"
    proof (cases sc)
      case True
      have g: "con_geom c1" "vram_ok c1" using c1(2) assms(5) f by (simp_all add: is_tty_def con_ok_def vram_ok_def)
      obtain s2 where s2: "vga_flush ?s1 i = Some s2" "drawn ?s1 s2" "vram_ok c1 \<longrightarrow> screen c1 (vmem s2) = view c1 (view_offset_rows c1)"
        using vga_flush_ok [of ?s1 i c1] a g by auto
      then show ?thesis using p F True c1(5) g assms(6)
        by (auto simp: drawn_def vga_move_hw_cursor_def screen_face [OF c1(3)])
    next
      case False
      then have w1: "window c1 = (window c)[c_row c := (window c ! c_row c)[c_col c := ?v]]"
        using F w c1(4) by (auto simp: tty_putc_def tty_newline_def Let_def split: if_splits)
      then have "window c1 ! c_row c ! c_col c = ?v" using w(5,6) by simp
      then have e: "cells c1 ! (c_row c * cols c1 + c_col c) = ?v"
        using window_nth [of "c_row c" c1 "c_col c"] w(5,6) f by simp
      have "screen c ((vmem s)(vaddr c ?a := ?v)) = window c1"
        unfolding w1 by (rule put_screen [OF assms(5,7) w(5,6)])
      then show ?thesis using p F False c1(5) assms(6) e f
        by (simp add: drawn_def vga_move_hw_cursor_def screen_face [OF c1(3)])
    qed
    then obtain s2 where "vga_putc s i ch = Some s2" "drawn ?s1 s2" "screen c (vmem s2) = window c1" by blast
    moreover from this have "con (serial_putc s2 ch) i = c1" using drawn_con [of ?s1 s2 i] a by (simp add: serial_putc_def con_def set_con_def)
    ultimately show ?thesis using F a c1(3)
      by (simp add: console_putc_def console_putc_ex_def pick_def screen_face [OF c1(3)]) (simp add: serial_putc_def)
  qed
qed


theorem console_putc_screen_witness:
  "\<exists>s s0 s1. console_init boot_sys = Some s0 \<and> s = s0\<lparr>vmem := (\<lambda>_. 0x0F20)\<rparr> \<and> console_putc s CHR ''x'' = Some s1 \<and>
     screen (con s1 0) (vmem s1) = window (con s1 0)"
proof -
  obtain s0 where s0: "console_init boot_sys = Some s0" "s_active s0 = Some 0" "0 < length (s_consoles s0)"
    "is_tty (con s0 0) (blank_tty 80 25 0x0F)" "vram_ok (con s0 0)" "cols (con s0 0) = 80" by (rule boot_tty)
  let ?s = "s0\<lparr>vmem := (\<lambda>_. 0x0F20)\<rparr>"
  have w: "window (con s0 0) = replicate 25 (replicate 80 0x0F20)" using s0(4) by (simp add: is_tty_def blank_tty_def vga_entry_def)
  then have "rows (con s0 0) = 25" using window_length [of "con s0 0"] by simp
  then have sc: "screen (con s0 0) (\<lambda>_. 0x0F20) = window (con s0 0)" using w s0(6) by (simp add: screen_def map_replicate_const)
  have "history (con s0 0) = []" using s0(4) by (simp add: is_tty_def blank_tty_def last_n_def)
  then have "sbuf_count (con s0 0) = 0" using history_length [of "con s0 0"] by simp
  then have v: "view_offset_rows (con s0 0) = 0" using s0(4) by (simp add: is_tty_def con_ok_def con_geom_def)
  have c: "con s0 0 = con ?s 0" by (simp add: con_def)
  have "s_active ?s = Some 0" "0 < length (s_consoles ?s)" "screen (con s0 0) (vmem ?s) = window (con s0 0)" using s0 sc by simp_all
  then show ?thesis using console_putc_screen [OF _ _ c s0(4,5) v, of "CHR ''x''"] s0(1) by fastforce
qed


text \<open>
  The scrollback view. Page up and down, home and end move the view within the history kept and
  redraw the screen; the console's window, history and cursor stay. The screen shows the rows that
  start as many rows before the window as the view is back, but never more than a screenful: from
  there on paging up moves the offset and no longer the picture, so older rows of the ring cannot
  be seen.
\<close>

theorem console_scrollback_view:
  assumes "s_active s = Some i" "i < length (s_consoles s)" "c = con s i" "is_tty c t" "vram_ok c"
    and "(op, off) \<in> {(console_page_up, min (view_offset_rows c + page_size c) (length (history c))),
      (console_page_down, view_offset_rows c - page_size c), (console_page_home, length (history c)), (console_page_end, 0)}"
  shows "\<exists>s1. op s = Some s1 \<and> con s1 i = c\<lparr>view_offset_rows := off\<rparr> \<and> is_tty (con s1 i) t \<and>
    screen c (vmem s1) = take (rows c) (drop (length (history c) - min off (rows c)) (history c @ window c))"
proof -
  let ?c = "c\<lparr>view_offset_rows := off\<rparr>"
  let ?s = "set_con s i ?c"
  have vo: "view_offset_rows c \<le> sbuf_count c" using assms(4) by (simp add: is_tty_def con_ok_def con_geom_def)
  have op: "op s = render_view ?s i"
    using assms(1,3,6) by (auto simp: console_page_up_def console_page_down_def console_page_home_def console_page_end_def Let_def min_def)
  have off: "off \<le> sbuf_count c" using assms(6) vo by auto
  have tty: "is_tty ?c t" using assms(4) off by (simp add: is_tty_def con_ok_def con_geom_def window_def history_def)
  then have g: "con_geom ?c" by (simp add: is_tty_def con_ok_def)
  obtain s1 where s1: "render_view ?s i = Some s1" "drawn ?s s1" "vram_ok ?c \<longrightarrow> screen ?c (vmem s1) = view ?c (view_offset_rows ?c)"
    using render_view_ok [of ?s i ?c] g assms(1,2) by auto
  have e: "vram_ok ?c" "screen ?c = screen c" "view ?c off = view c off"
    using assms(5) by (simp_all add: vram_ok_def screen_def view_def window_def history_def vaddr_def fun_eq_iff)
  have "view c off = take (rows c) (drop (length (history c) - min off (rows c)) (history c @ window c))"
    by (simp add: view_def last_n_def)
  then show ?thesis using s1 e op tty drawn_con [OF s1(2), of i] assms(2) by simp
qed

theorem console_scrollback_view_witness:
  "\<exists>s0 s1. console_init boot_sys = Some s0 \<and> console_page_end s0 = Some s1 \<and>
     screen (con s0 0) (vmem s1) = replicate 25 (replicate 80 0x0F20)"
proof -
  obtain s0 where s0: "console_init boot_sys = Some s0" "s_active s0 = Some 0" "0 < length (s_consoles s0)"
    "is_tty (con s0 0) (blank_tty 80 25 0x0F)" "vram_ok (con s0 0)" by (rule boot_tty)
  have w: "window (con s0 0) = replicate 25 (replicate 80 0x0F20)" using s0(4) by (simp add: is_tty_def blank_tty_def vga_entry_def)
  then have "rows (con s0 0) = 25" using window_length [of "con s0 0"] by simp
  then show ?thesis using console_scrollback_view [OF s0(2,3) refl s0(4,5), of console_page_end 0] s0(1) w by auto
qed

text \<open>
  Numbers. \<open>console_write_dec\<close> of a number other than zero prints its decimal numeral without
  leading zeros, and \<open>console_write_hex64\<close> prints \<open>0x\<close> and sixteen hexadecimal digits: read back, the
  digits give the number. Zero is one digit on the console but reaches the serial line twice.
\<close>

theorem console_write_numbers:
  assumes "s_active s = Some i" "i < length (s_consoles s)" "is_tty (con s i) t"
  shows "(v \<noteq> 0 \<longrightarrow> (\<exists>s1 str. console_write_dec s v = Some s1 \<and> written s i t str s1 \<and>
      set str \<subseteq> set dec_alphabet \<and> hd str \<noteq> CHR ''0'' \<and> numeral_value 10 str = unat v)) \<and>
    (\<exists>s1 str. console_write_hex64 s v = Some s1 \<and> written s i t (''0x'' @ str) s1 \<and>
      length str = 16 \<and> set str \<subseteq> set hex_alphabet \<and> numeral_value 16 str = unat v) \<and>
    (\<exists>s1. console_write_dec s 0 = Some (serial_putc s1 CHR ''0'') \<and> written s i t ''0'' s1)"
proof (intro conjI impI)
  note w = put_chars_written [OF assms]
  assume v: "v \<noteq> 0"
  let ?str = "rev (dec_loop 32 v)"
  have "dec_loop 32 v \<noteq> [] \<and> last (dec_loop 32 v) \<noteq> CHR ''0''"
    using dec_loop_last [of v 32] v unsigned_less [of v, where 'a = nat] by (simp add: word_gt_0)
  moreover obtain s1 where "put_chars s ?str = Some s1" "written s i t ?str s1" by (rule w)
  ultimately show "\<exists>s1 str. console_write_dec s v = Some s1 \<and> written s i t str s1 \<and>
      set str \<subseteq> set dec_alphabet \<and> hd str \<noteq> CHR ''0'' \<and> numeral_value 10 str = unat v"
    using v dec_digits_value [of v] dec_loop_digits [of 32 v] by (intro exI [of _ s1] exI [of _ ?str]) (simp add: console_write_dec_def hd_rev)
next
  obtain s1 where s1: "write_chars s i ''0x'' = Some s1" "written s i t ''0x'' s1"
    using write_chars_ok [OF assms, of "''0x''"] by (auto simp: written_def)
  let ?t = "fold (tty_putc (cols (con s i)) (color (con s i))) ''0x'' t"
  have a: "s_active s1 = Some i" "i < length (s_consoles s1)" "is_tty (con s1 i) ?t" using s1(2) assms(2) by (simp_all add: written_def)
  obtain s2 where s2: "put_chars s1 (hex_digits v) = Some s2" "written s1 i ?t (hex_digits v) s2" by (rule put_chars_written [OF a])
  have "console_write_hex64 s v = Some s2"
    using s1(1) s2(1) assms(1) by (simp add: console_write_hex64_def console_write_def console_write_ex_def pick_def)
  then show "\<exists>s1 str. console_write_hex64 s v = Some s1 \<and> written s i t (''0x'' @ str) s1 \<and>
      length str = 16 \<and> set str \<subseteq> set hex_alphabet \<and> numeral_value 16 str = unat v"
    using written_trans [OF s1(2) s2(2)] hex_digits_set [of v] hex_digits_value [of v]
    by (intro exI [of _ s2] exI [of _ "hex_digits v"]) (simp add: hex_digits_def)
next
  obtain s1 where "put_chars s ''0'' = Some s1" "written s i t ''0'' s1" by (rule put_chars_written [OF assms])
  then show "\<exists>s1. console_write_dec s 0 = Some (serial_putc s1 CHR ''0'') \<and> written s i t ''0'' s1"
    by (auto simp: console_write_dec_def split: bind_splits)
qed


theorem console_write_numbers_witness:
  "\<exists>s0 s1 str. console_init boot_sys = Some s0 \<and> console_write_dec s0 1024 = Some s1 \<and>
     written s0 0 (blank_tty 80 25 0x0F) str s1 \<and> numeral_value 10 str = 1024"
proof -
  obtain s0 where s0: "console_init boot_sys = Some s0" "s_active s0 = Some 0" "0 < length (s_consoles s0)"
    "is_tty (con s0 0) (blank_tty 80 25 0x0F)" by (rule boot_tty)
  then show ?thesis using console_write_numbers [OF s0(2,3,4), of 1024] by auto
qed

end
