(* ===== verification/Console_Progress.thy ===== *)
theory Console_Progress
  imports Console_Correct
begin

text \<open>
  The progress bar of \<open>console.h\<close> on an 80 column console: one row is rewritten in place and never
  wraps, whatever the label.
\<close>

section \<open>Plain text on a terminal\<close>

definition plain :: "char \<Rightarrow> bool" where
  "plain ch \<longleftrightarrow> ch \<notin> {CHR 0x0A, CHR 0x0D, CHR 0x08}"

definition cells_of :: "u8 \<Rightarrow> string \<Rightarrow> u16 list" where
  "cells_of clr str = map (\<lambda>ch. vga_entry ch clr) str"

text \<open>The row with \<open>xs\<close> from column \<open>k\<close> on.\<close>

definition overwrite :: "'a list \<Rightarrow> nat \<Rightarrow> 'a list \<Rightarrow> 'a list" where
  "overwrite row k xs = take k row @ xs @ drop (k + length xs) row"

definition set_row :: "tty \<Rightarrow> u16 list \<Rightarrow> tty" where
  "set_row t row = t\<lparr>t_win := (t_win t)[t_row t := row]\<rparr>"

lemma set_row_twice [simp]: "set_row (set_row t a) b = set_row t b"
  by (simp add: set_row_def)

lemma overwrite_step:
  assumes "k + 1 + length xs \<le> length row"
  shows "overwrite (row[k := x]) (Suc k) xs = overwrite row k (x # xs)"
  using assms by (simp add: overwrite_def take_Suc_conv_app_nth drop_update_cancel)

lemma tty_plain:
  assumes "\<forall>ch \<in> set str. plain ch" "length (t_win t ! t_row t) = n" "t_row t < length (t_win t)" "t_col t + length str < n"
  shows "fold (tty_putc n clr) str t = (set_row t (overwrite (t_win t ! t_row t) (t_col t) (cells_of clr str)))\<lparr>t_col := t_col t + length str\<rparr>"
  using assms
proof (induction str arbitrary: t)
  case Nil
  then show ?case by (simp add: set_row_def overwrite_def cells_of_def)
next
  case (Cons ch str)
  let ?x = "vga_entry ch clr" and ?row = "t_win t ! t_row t"
  let ?t = "(set_row t (?row[t_col t := ?x]))\<lparr>t_col := t_col t + 1\<rparr>"
  have "tty_putc n clr ch t = ?t"
    using Cons.prems by (simp add: tty_putc_def plain_def set_row_def)
  moreover have "fold (tty_putc n clr) str ?t =
      (set_row ?t (overwrite (t_win ?t ! t_row ?t) (t_col ?t) (cells_of clr str)))\<lparr>t_col := t_col ?t + length str\<rparr>"
    using Cons.prems by (intro Cons.IH) (simp_all add: set_row_def)
  moreover have "overwrite (?row[t_col t := ?x]) (Suc (t_col t)) (cells_of clr str) = overwrite ?row (t_col t) (cells_of clr (ch # str))"
    using Cons.prems by (subst overwrite_step) (simp_all add: cells_of_def)
  ultimately show ?case using Cons.prems by (simp add: set_row_def)
qed

lemma tty_rewrite_row:
  assumes "\<forall>ch \<in> set line. plain ch" "length (t_win t ! t_row t) = n" "t_row t < length (t_win t)" "length line \<le> m" "m < n"
  shows "fold (tty_putc n clr) ([CHR 0x0D] @ replicate m CHR '' '' @ [CHR 0x0D] @ line) t =
    (set_row t (cells_of clr (line @ replicate (m - length line) CHR '' '') @ drop m (t_win t ! t_row t)))\<lparr>t_col := length line\<rparr>"
proof -
  let ?sp = "replicate m CHR '' ''" and ?row = "t_win t ! t_row t"
  let ?r = "cells_of clr ?sp @ drop m ?row"
  have cr: "tty_putc n clr CHR 0x0D u = u\<lparr>t_col := 0\<rparr>" for u by (simp add: tty_putc_def)
  have "fold (tty_putc n clr) ?sp (t\<lparr>t_col := 0\<rparr>) = (set_row (t\<lparr>t_col := 0\<rparr>) ?r)\<lparr>t_col := m\<rparr>"
    using assms by (subst tty_plain [where n = n]) (simp_all add: plain_def overwrite_def cells_of_def)
  then have e: "fold (tty_putc n clr) ([CHR 0x0D] @ ?sp @ [CHR 0x0D] @ line) t = fold (tty_putc n clr) line ((set_row t ?r)\<lparr>t_col := 0\<rparr>)"
    by (simp add: cr set_row_def)
  have "drop (length line) ?r = cells_of clr (replicate (m - length line) CHR '' '') @ drop m ?row"
    using assms by (simp add: cells_of_def)
  then have "overwrite ?r 0 (cells_of clr line) = cells_of clr (line @ replicate (m - length line) CHR '' '') @ drop m ?row"
    by (simp add: overwrite_def cells_of_def)
  then show ?thesis unfolding e using assms
    by (subst tty_plain [where n = n]) (simp_all add: set_row_def cells_of_def)
qed

section \<open>The sizes\<close>

lemma progress_sizes:
  assumes "pct \<le> 100" "length label < 2 ^ 64"
  defines "r \<equiv> progress_reserved pct"
  defines "l \<equiv> progress_label r (of_nat (length label))"
  defines "w \<equiv> progress_width r l"
  shows "unat l = min (length label) (69 - unat r)" "unat r = 5 + (if 100 \<le> pct then 3 else if 10 \<le> pct then 2 else 1)"
    "10 \<le> unat w" "unat w \<le> 50" "unat l + unat w + unat r \<le> 79" "unat ((pct * w) div 100) = unat pct * unat w div 100"
proof -
  show r: "unat r = 5 + (if 100 \<le> pct then 3 else if 10 \<le> pct then 2 else 1)"
    by (simp add: r_def progress_reserved_def)
  then have rb: "6 \<le> unat r" "unat r \<le> 8" by simp_all
  have a: "unat (r + 10 + 1) = unat r + 11" "unat (80 - 1 - r - 10 :: u64) = 69 - unat r"
    using rb by (simp_all add: unat_sub_if_size unat_plus_if_size word_size word_less_nat_alt word_le_nat_alt)
  have n: "unat (of_nat (length label) :: u64) = length label" using assms(2) by (intro u64_of_nat_unat) simp
  show l: "unat l = min (length label) (69 - unat r)"
    using a n rb by (auto simp: l_def progress_label_def CONSOLE_COLS_def word_less_nat_alt Let_def)
  then have lb: "unat l \<le> 69 - unat r" by simp
  have b: "unat (80 - 1 - r - l :: u64) = 79 - unat r - unat l"
    using rb l by (simp add: unat_sub_if_size word_size word_less_nat_alt word_le_nat_alt)
  show "10 \<le> unat w" "unat w \<le> 50" "unat l + unat w + unat r \<le> 79"
    using b rb lb by (auto simp: w_def progress_width_def CONSOLE_COLS_def word_less_nat_alt Let_def)
  then have "unat pct * unat w \<le> 100 * 50" using assms(1) by (intro mult_le_mono) (simp_all add: word_le_nat_alt)
  then have "unat (pct * w) = unat pct * unat w" by (simp add: unat_mult_small)
  then show "unat ((pct * w) div 100) = unat pct * unat w div 100" by (simp add: unat_div)
qed


definition dec_string :: "u64 \<Rightarrow> string" where
  "dec_string v = (if v = 0 then ''0'' else rev (dec_loop 32 v))"

lemma dec_string_value: "numeral_value 10 (dec_string v) = unat v" "set (dec_string v) \<subseteq> set dec_alphabet"
proof -
  have "numeral_value 10 ''0'' = 0" "set ''0'' \<subseteq> set dec_alphabet" by code_simp+
  then show "numeral_value 10 (dec_string v) = unat v" "set (dec_string v) \<subseteq> set dec_alphabet"
    using dec_digits_value [of v] dec_loop_digits [of 32 v] by (auto simp: dec_string_def)
qed

lemma dec_string_length:
  assumes "pct \<le> 100"
  shows "length (dec_string pct) = (if 100 \<le> pct then 3 else if 10 \<le> pct then 2 else 1)"
proof -
  have "list_all (\<lambda>k. length (dec_string (of_nat k)) = (if 100 \<le> k then 3 else if 10 \<le> k then 2 else 1)) [0..<101]"
    by code_simp
  moreover have "unat pct \<in> set [0..<101]" using assms by (simp add: word_le_nat_alt del: upt_rec_numeral)
  ultimately have "length (dec_string (of_nat (unat pct))) = (if 100 \<le> unat pct then 3 else if 10 \<le> unat pct then 2 else 1)"
    unfolding list_all_iff by blast
  then show ?thesis by (simp add: word_le_nat_alt)
qed

lemma dec_string_plain: "\<forall>ch \<in> set (dec_string v). plain ch"
proof -
  have "\<forall>ch \<in> set dec_alphabet. plain ch" by code_simp
  then show ?thesis using dec_string_value(2) by blast
qed

text \<open>The state after output to the console, whatever went to the serial line.\<close>

definition shown :: "con_sys \<Rightarrow> nat \<Rightarrow> tty \<Rightarrow> string \<Rightarrow> con_sys \<Rightarrow> bool" where
  "shown s i t str s1 \<longleftrightarrow> s_active s1 = Some i \<and> i < length (s_consoles s1) \<and> same_face (con s i) (con s1 i) \<and>
     is_tty (con s1 i) (fold (tty_putc (cols (con s i)) (color (con s i))) str t)"

lemma shown_trans:
  "shown s i t xs s1 \<Longrightarrow> shown s1 i (fold (tty_putc (cols (con s i)) (color (con s i))) xs t) ys s2 \<Longrightarrow> shown s i t (xs @ ys) s2"
  by (auto simp: shown_def same_face_def)

lemma put_chars_shown:
  assumes "s_active s = Some i" "i < length (s_consoles s)" "is_tty (con s i) t"
  shows "\<exists>s1. put_chars s str = Some s1 \<and> shown s i t str s1"
  using put_chars_written [OF assms, of str] assms(2) unfolding written_def shown_def by metis

lemma write_dec_shown:
  assumes "s_active s = Some i" "i < length (s_consoles s)" "is_tty (con s i) t"
  shows "\<exists>s1. console_write_dec s v = Some s1 \<and> shown s i t (dec_string v) s1"
proof (cases "v = 0")
  case True
  obtain s1 where s1: "put_chars s ''0'' = Some s1" "shown s i t ''0'' s1" using put_chars_shown [OF assms] by blast
  then have "console_write_dec s v = Some (serial_putc s1 CHR ''0'')" using True
    by (auto simp: console_write_dec_def split: bind_splits)
  then show ?thesis using s1(2) True by (simp add: shown_def dec_string_def serial_putc_def con_def)
next
  case False
  then show ?thesis using put_chars_shown [OF assms] by (simp add: console_write_dec_def dec_string_def)
qed

lemma progress_shown:
  assumes a: "s_active s = Some i" "i < length (s_consoles s)" "is_tty (con s i) t"
    and pct: "pct = progress_pct n tot" "r = progress_reserved pct" "l = progress_label r (of_nat (length label))"
      "w = progress_width r l"
  shows "\<exists>s1. console_progress s label n tot = Some s1 \<and>
    shown s i t ([CHR 0x0D] @ replicate 79 CHR '' '' @ [CHR 0x0D] @ take (unat l) label @ '' ['' @
      map (\<lambda>i. if i < unat ((pct * w) div 100) then CHR ''#'' else CHR ''.'') [0..<unat w] @ ''] '' @ dec_string pct @ ''%'') s1"
proof -
  let ?f = "\<lambda>str. fold (tty_putc (cols (con s i)) (color (con s i))) str t"
  let ?a = "[CHR 0x0D] @ replicate (unat (CONSOLE_COLS - 1)) CHR '' '' @ [CHR 0x0D]"
  let ?b = "take (unat l) label @ '' ['' @ map (\<lambda>i. if i < unat ((pct * w) div 100) then CHR ''#'' else CHR ''.'') [0..<unat w] @ ''] ''"
  obtain s1 where s1: "put_chars s ?a = Some s1" "shown s i t ?a s1" using put_chars_shown [OF a] by blast
  then have a1: "s_active s1 = Some i" "i < length (s_consoles s1)" "is_tty (con s1 i) (?f ?a)" by (simp_all add: shown_def)
  obtain s2 where s2: "put_chars s1 ?b = Some s2" "shown s1 i (?f ?a) ?b s2" using put_chars_shown [OF a1] by blast
  have t2: "shown s i t (?a @ ?b) s2" by (rule shown_trans [OF s1(2) s2(2)])
  then have a2: "s_active s2 = Some i" "i < length (s_consoles s2)" "is_tty (con s2 i) (?f (?a @ ?b))" by (simp_all add: shown_def)
  obtain s3 where s3: "console_write_dec s2 pct = Some s3" "shown s2 i (?f (?a @ ?b)) (dec_string pct) s3"
    using write_dec_shown [OF a2] by blast
  have t3: "shown s i t ((?a @ ?b) @ dec_string pct) s3" by (rule shown_trans [OF t2 s3(2)])
  then have a3: "s_active s3 = Some i" "i < length (s_consoles s3)" "is_tty (con s3 i) (?f ((?a @ ?b) @ dec_string pct))"
    by (simp_all add: shown_def)
  obtain s4 where s4: "put_chars s3 ''%'' = Some s4" "shown s3 i (?f ((?a @ ?b) @ dec_string pct)) ''%'' s4"
    using put_chars_shown [OF a3] by blast
  have t4: "shown s i t (((?a @ ?b) @ dec_string pct) @ ''%'') s4" by (rule shown_trans [OF t3 s4(2)])
  have "console_putc s3 CHR ''%'' = Some s4" using s4(1) by (cases "console_putc s3 CHR ''%''") simp_all
  then have "console_progress s label n tot = Some s4"
    using s1(1) s2(1) s3(1) by (simp add: console_progress_def Let_def pct del: append_assoc)
  then show ?thesis using t4 by (simp add: CONSOLE_COLS_def)
qed


lemma progress_pct_value:
  assumes "unat n * 100 < 2 ^ 64"
  shows "unat (progress_pct n tot) = min 100 (unat n * 100 div max 1 (unat tot))" "progress_pct n tot \<le> 100"
proof -
  let ?d = "if tot = 0 then 1 else tot"
  have "unat ?d = max 1 (unat tot)" using unat_gt_0 [of tot] by auto
  moreover have "unat (n * 100) = unat n * 100" using assms by (simp add: unat_mult_small)
  ultimately have "unat ((n * 100) div ?d) = unat n * 100 div max 1 (unat tot)" by (simp add: unat_div)
  then show "unat (progress_pct n tot) = min 100 (unat n * 100 div max 1 (unat tot))"
    by (simp add: progress_pct_def Let_def word_less_nat_alt min_def)
  show "progress_pct n tot \<le> 100" by (simp add: progress_pct_def Let_def not_less)
qed

section \<open>Property\<close>

text \<open>
  C27. The progress bar on an 80 column console rewrites the cursor's row in place and never wraps
  or scrolls, for any label: the row becomes the label cut to what fits, the bar with as many
  marks as the percentage of its width, the percentage, and blanks up to the last column, which
  keeps its cell; no other row and no line of the history changes, and the cursor stays on the
  row. The percentage is exact as long as the amount done times 100 does not overflow.
\<close>

theorem console_progress_one_row:
  assumes a: "s_active s = Some i" "i < length (s_consoles s)" "is_tty (con s i) t" and c: "cols (con s i) = 80"
    and label: "\<forall>ch \<in> set label. plain ch" "length label < 2 ^ 64" and n: "unat n * 100 < 2 ^ 64"
    and pct: "pct = min 100 (unat n * 100 div max 1 (unat tot))"
  shows "\<exists>s1 w num. console_progress s label n tot = Some s1 \<and> 10 \<le> w \<and> w \<le> 50 \<and> numeral_value 10 num = pct \<and>
    (let line = take (64 - length num) label @ '' ['' @
           map (\<lambda>k. if k < pct * w div 100 then CHR ''#'' else CHR ''.'') [0..<w] @ ''] '' @ num @ ''%'';
         row = cells_of (color (con s i)) (line @ replicate (79 - length line) CHR '' '') @ drop 79 (t_win t ! t_row t)
     in length line \<le> 79 \<and> is_tty (con s1 i) ((set_row t row)\<lparr>t_col := length line\<rparr>))"
proof -
  define p r l w where "p = progress_pct n tot" and "r = progress_reserved p" and "l = progress_label r (of_nat (length label))"
    and "w = progress_width r l"
  note p = progress_pct_value [OF n, of tot, folded p_def pct]
  note z = progress_sizes [OF p(2) label(2), folded r_def, folded l_def, folded w_def]
  have num: "unat r = 5 + length (dec_string p)" using z(2) dec_string_length [OF p(2)] by simp
  have l: "take (unat l) label = take (64 - length (dec_string p)) label" using z(1) num by (simp add: min_def)
  define line where "line = take (64 - length (dec_string p)) label @ '' ['' @
    map (\<lambda>k. if k < pct * unat w div 100 then CHR ''#'' else CHR ''.'') [0..<unat w] @ ''] '' @ dec_string p @ ''%''"
  obtain s1 where s1: "console_progress s label n tot = Some s1"
    "shown s i t ([CHR 0x0D] @ replicate 79 CHR '' '' @ [CHR 0x0D] @ line) s1"
    using progress_shown [OF a p_def r_def l_def w_def] unfolding z(6) p(1) l line_def by auto
  have len: "length line \<le> 79" using z(1,5) num by (simp add: line_def min_def)
  have "\<forall>ch \<in> set line. plain ch"
    using label(1) dec_string_plain [of p] by (auto simp: line_def plain_def dest: in_set_takeD)
  moreover have "t_row t < length (t_win t)" "length (t_win t ! t_row t) = 80"
    using a(3) c by (simp_all add: is_tty_def con_ok_def)
  ultimately have "is_tty (con s1 i) ((set_row t (cells_of (color (con s i)) (line @ replicate (79 - length line) CHR '' '') @
      drop 79 (t_win t ! t_row t)))\<lparr>t_col := length line\<rparr>)"
    using s1(2) tty_rewrite_row [of line t 80 79 "color (con s i)"] len c by (simp add: shown_def)
  then show ?thesis
    by (intro exI [of _ s1] exI [of _ "unat w"] exI [of _ "dec_string p"])
      (simp only: Let_def line_def [symmetric] s1(1) z(3,4) dec_string_value(1) p(1) len simp_thms)
qed

theorem console_progress_one_row_witness:
  "\<exists>s0 s1. console_init boot_sys = Some s0 \<and> console_progress s0 ''Testing'' 512 1024 = Some s1 \<and> con_ok (con s1 0)"
proof -
  obtain s0 where s0: "console_init boot_sys = Some s0" "s_active s0 = Some 0" "0 < length (s_consoles s0)"
    "is_tty (con s0 0) (blank_tty 80 25 0x0F)" "vram_ok (con s0 0)" "cols (con s0 0) = 80" by (rule boot_tty)
  have "\<forall>ch \<in> set ''Testing''. plain ch" by code_simp
  then show ?thesis using console_progress_one_row [OF s0(2,3,4,6) _ _ _ refl, of "''Testing''" 512 1024] s0(1)
    by (auto simp: Let_def is_tty_def)
qed

end
