(* ===== verification/Exfat.thy ===== *)
theory Exfat
  imports Fs_Types
begin

text \<open>
  The exFAT-like file system (\<open>kernel64/fs/exfat.c\<close>): the volume's geometry, the FAT, the root
  directory (one cluster, the only directory), files as chains of clusters, creating and removing
  them. A volume is the \<open>exfat_fs\<close> that \<open>exfat_mount\<close> allocates; it does not change afterwards, so
  it is a value, and an open node's \<open>fs\<close> is the node's \<open>fs_priv\<close>. The local sector buffer of a
  function is memory at the address \<open>sec\<close>, an argument. Console messages are left out. \<open>None\<close> is a
  fault or a loop that does not end.
\<close>

section \<open>Clusters and the FAT\<close>

definition EOC :: u32 where "EOC = 0xFFFFFFFF"

definition fat_is_eoc :: "u32 \<Rightarrow> bool" where "fat_is_eoc v \<longleftrightarrow> v = EOC"

definition cl_to_lba :: "exfat_fs \<Rightarrow> u32 \<Rightarrow> u32" where
  "cl_to_lba fs cl = cluster_heap_off fs + (cl - 2) * sectors_per_cluster fs"

text \<open>The boolean: all sectors were transferred.\<close>

definition read_cluster :: "exfat_fs \<Rightarrow> block_state \<Rightarrow> u32 \<Rightarrow> u64 \<Rightarrow> block_state \<times> bool" where
  "read_cluster fs b cl buf =
     (let (m, r) = dev_read (fs_bdev fs) (b_mem b) (ucast (cl_to_lba fs cl)) buf (sectors_per_cluster fs)
      in (b\<lparr>b_mem := m\<rparr>, r = c_int (sectors_per_cluster fs)))"

definition write_cluster :: "exfat_fs \<Rightarrow> block_state \<Rightarrow> u32 \<Rightarrow> u64 \<Rightarrow> block_state \<times> bool" where
  "write_cluster fs b cl buf =
     (let (m, r) = dev_write (fs_bdev fs) (b_mem b) (ucast (cl_to_lba fs cl)) buf (sectors_per_cluster fs)
      in (b\<lparr>b_mem := m\<rparr>, r = c_int (sectors_per_cluster fs)))"

text \<open>The sector of a FAT entry and the entry's offset in it.\<close>

definition fat_sector :: "exfat_fs \<Rightarrow> u32 \<Rightarrow> u32" where
  "fat_sector fs cl = fat_offset fs + cl * 4 div bytes_per_sector fs"

definition fat_sect_off :: "exfat_fs \<Rightarrow> u32 \<Rightarrow> u32" where
  "fat_sect_off fs cl = cl * 4 mod bytes_per_sector fs"

definition fat_get :: "u64 \<Rightarrow> exfat_fs \<Rightarrow> block_state \<Rightarrow> u32 \<Rightarrow> block_state \<times> u32" where
  "fat_get sec fs b cl =
     (let (m, r) = dev_read (fs_bdev fs) (b_mem b) (ucast (fat_sector fs cl)) sec 1;
          b1 = b\<lparr>b_mem := m\<rparr>
      in if r < 1 then (b1, 0) else (b1, load32 m (sec + ucast (fat_sect_off fs cl))))"

definition fat_set :: "u64 \<Rightarrow> exfat_fs \<Rightarrow> block_state \<Rightarrow> u32 \<Rightarrow> u32 \<Rightarrow> block_state \<times> int" where
  "fat_set sec fs b cl val =
     (let (m, r) = dev_read (fs_bdev fs) (b_mem b) (ucast (fat_sector fs cl)) sec 1
      in if r < 1 then (b\<lparr>b_mem := m\<rparr>, -1)
         else
           let m1 = store32 m (sec + ucast (fat_sect_off fs cl)) val;
               (m2, r') = dev_write (fs_bdev fs) m1 (ucast (fat_sector fs cl)) sec 1
           in (b\<lparr>b_mem := m2\<rparr>, if r' = 1 then 0 else -1))"

section \<open>Mounting\<close>

definition is_exfat_vbr :: "memory \<Rightarrow> u64 \<Rightarrow> bool" where
  "is_exfat_vbr m vbr \<longleftrightarrow> map (\<lambda>k. m (vbr + of_nat (3 + k))) [0..<8] = map of_char ''EXFAT   ''"

text \<open>\<open>1u << bps_shift\<close> is undefined from 32 on.\<close>

definition vbr_geometry :: "memory \<Rightarrow> u64 \<Rightarrow> block_device \<Rightarrow> exfat_fs option" where
  "vbr_geometry m vbr d =
     (let bps_shift = m (vbr + 0x6C);
          bps = push_bit (unat bps_shift) 1 :: u32;
          spc = ucast (m (vbr + 0x6D)) :: u32
      in if bps_shift \<ge> 32 then None
         else Some \<lparr>fs_bdev = d, fat_offset = load32 m (vbr + 0x80), fat_length = load32 m (vbr + 0x84),
           cluster_heap_off = load32 m (vbr + 0x88), bytes_per_sector = bps, sectors_per_cluster = spc,
           cluster_size = bps * spc, root_dir_cluster = load32 m (vbr + 0xA0)\<rparr>)"

definition default_geometry :: "block_device \<Rightarrow> exfat_fs" where
  "default_geometry d = \<lparr>fs_bdev = d, fat_offset = 128, fat_length = 1024, cluster_heap_off = 1152,
     bytes_per_sector = 512, sectors_per_cluster = 1, cluster_size = 512, root_dir_cluster = 2\<rparr>"

text \<open>Without a device the first access to \<open>bdev\<close> faults.\<close>

definition exfat_mount :: "u64 \<Rightarrow> block_state \<Rightarrow> block_device option \<Rightarrow> string \<Rightarrow> (block_state \<times> int \<times> priv) option" where
  "exfat_mount sec b bdev mn =
     (case bdev of
        None \<Rightarrow> None
      | Some d \<Rightarrow>
          if sector_size d \<noteq> 512 then Some (b, -1, Priv_Null)
          else do {
            (h, fs) \<leftarrow> kmalloc (b_heap b) SIZEOF_EXFAT_FS;
            if fs = 0 then Some (b\<lparr>b_heap := h\<rparr>, -1, Priv_Null)
            else if dev_driver d = No_Ops then None
            else
              let (m, r) = dev_read d (b_mem b) 0 sec 1;
                  b1 = b\<lparr>b_mem := m, b_heap := h\<rparr>
              in if r = 1 \<and> is_exfat_vbr m sec
                 then do { g \<leftarrow> vbr_geometry m sec d; Some (b1, 0, Priv_Exfat g) }
                 else Some (b1, 0, Priv_Exfat (default_geometry d)) })"

definition exfat_umount :: "block_state \<Rightarrow> priv \<Rightarrow> block_state" where
  "exfat_umount b p = b"

section \<open>The root directory\<close>

record exfat_dirent =
  de_first_cluster :: u32
  de_size :: u64
  de_is_dir :: bool
  de_name :: string

text \<open>The 15 characters of a file name entry; those outside ASCII become question marks.\<close>

definition entry_units :: "memory \<Rightarrow> u64 \<Rightarrow> u16 list" where
  "entry_units m a = map (\<lambda>k. load16 m (a + 2 + of_nat (2 * k))) [0..<15]"

definition unit_char :: "u16 \<Rightarrow> char" where
  "unit_char ch = (if ch < 128 then char_of (unat ch) else CHR ''?'')"

text \<open>The file name entries from \<open>j\<close> on and the position after them; \<open>units\<close> is what an entry gives.\<close>

function name_run :: "(u16 list \<Rightarrow> u16 list) \<Rightarrow> memory \<Rightarrow> u64 \<Rightarrow> nat \<Rightarrow> nat \<Rightarrow> string \<times> nat" where
  "name_run units m buf csz j =
     (if j + 32 \<le> csz \<and> m (buf + of_nat j) = 0xC1
      then
        let (s, e) = name_run units m buf csz (j + 32)
        in (map unit_char (units (entry_units m (buf + of_nat j))) @ s, e)
      else ([], j))"
  by pat_completeness auto
termination by (relation "measure (\<lambda>(units, m, buf, csz, j). csz - j)") auto

declare name_run.simps [simp del]

lemma name_run_ge: "j \<le> snd (name_run units m buf csz j)"
proof (induction units m buf csz j rule: name_run.induct)
  case (1 units m buf csz j)
  show ?case
    using 1 by (subst name_run.simps) (auto split: prod.splits simp: case_prod_beta dest: order_trans [rotated])
qed

text \<open>The entries from offset \<open>i\<close> of the directory cluster at \<open>buf\<close>. Padding is skipped in names; a
  name has at most 63 characters.\<close>

function dir_entries :: "memory \<Rightarrow> u64 \<Rightarrow> nat \<Rightarrow> nat \<Rightarrow> exfat_dirent list" where
  "dir_entries m buf csz i =
     (if i + 32 \<le> csz
      then
        let et = m (buf + of_nat i)
        in if et = 0 then []
           else if et AND 0x7F = 0x05
           then
             let attr = load16 m (buf + of_nat (i + 4));
                 j = i + 32;
                 stream = (j + 32 \<le> csz \<and> m (buf + of_nat j) = 0xC0);
                 nr = name_run (filter (\<lambda>ch. ch \<noteq> 0)) m buf csz (if stream then j + 32 else j)
             in \<lparr>de_first_cluster = (if stream then load32 m (buf + of_nat (j + 20)) else 0),
                 de_size = (if stream then load64 m (buf + of_nat (j + 24)) else 0),
                 de_is_dir = (attr AND 0x10 \<noteq> 0), de_name = take 63 (fst nr)\<rparr> # dir_entries m buf csz (snd nr)
           else dir_entries m buf csz (i + 32)
      else [])"
  by pat_completeness auto
termination
proof (relation "measure (\<lambda>(m, buf, csz, i). csz - i)", goal_cases)
  case (2 m buf csz i et attr j stream nr)
  then have "j \<le> snd nr" using name_run_ge [of "if stream then j + 32 else j" "filter (\<lambda>ch. ch \<noteq> 0)" m buf csz]
    by (auto split: if_splits)
  then show ?case using 2 by auto
qed auto

declare dir_entries.simps [simp del]

definition csize :: "exfat_fs \<Rightarrow> nat" where
  "csize fs = nat (c_int (cluster_size fs))"

definition dir_scan_root :: "exfat_fs \<Rightarrow> block_state \<Rightarrow> nat \<Rightarrow> (block_state \<times> exfat_dirent list) option" where
  "dir_scan_root fs b max_ents = do {
     (h, clbuf) \<leftarrow> kmalloc (b_heap b) (ucast (cluster_size fs));
     if clbuf = 0 then Some (b\<lparr>b_heap := h\<rparr>, [])
     else
       let (b1, ok) = read_cluster fs (b\<lparr>b_heap := h\<rparr>) (root_dir_cluster fs) clbuf;
           ents = (if ok then take max_ents (dir_entries (b_mem b1) clbuf (csize fs) 0) else [])
       in do {
         h2 \<leftarrow> kfree (b_heap b1) clbuf;
         Some (b1\<lparr>b_heap := h2\<rparr>, ents) } }"

section \<open>Opening\<close>

definition exfat_open :: "block_state \<Rightarrow> priv \<Rightarrow> string \<Rightarrow> (block_state \<times> node option) option" where
  "exfat_open b p path =
     (case p of
        Priv_Exfat fs \<Rightarrow> do {
          (h, r) \<leftarrow> alloc_nodes (b_heap b) SIZEOF_EXFAT_NODE;
          case r of
            None \<Rightarrow> Some (b\<lparr>b_heap := h\<rparr>, None)
          | Some (n, vn) \<Rightarrow>
              let node = (\<lambda>e. \<lparr>fops = Exfat_Ops, fs_priv = p, file_priv = Exfat_Node e\<rparr>)
              in if path_is_root path
                 then Some (b\<lparr>b_heap := h\<rparr>, Some (node \<lparr>first_cluster = root_dir_cluster fs, en_is_dir = True, en_size = 0\<rparr>))
                 else do {
                   (b1, ents) \<leftarrow> dir_scan_root fs (b\<lparr>b_heap := h\<rparr>) 32;
                   case find (\<lambda>e. name_eq (skip_slash path) (de_name e)) ents of
                     Some e \<Rightarrow> Some (b1, Some (node \<lparr>first_cluster = de_first_cluster e, en_is_dir = de_is_dir e, en_size = de_size e\<rparr>))
                   | None \<Rightarrow> do {
                       h' \<leftarrow> free_nodes (b_heap b1) n vn;
                       Some (b1\<lparr>b_heap := h'\<rparr>, None) } } }
      | _ \<Rightarrow> None)"

definition exfat_stat :: "block_state \<Rightarrow> priv \<Rightarrow> string \<Rightarrow> (block_state \<times> (u64 \<times> bool) option) option" where
  "exfat_stat b p path =
     (case p of
        Priv_Exfat fs \<Rightarrow>
          if path_is_root path then Some (b, Some (0, True))
          else do {
            (b1, ents) \<leftarrow> dir_scan_root fs b 32;
            Some (b1, map_option (\<lambda>e. (de_size e, de_is_dir e)) (find (\<lambda>e. name_eq (skip_slash path) (de_name e)) ents)) }
      | _ \<Rightarrow> None)"

definition exfat_readdir :: "block_state \<Rightarrow> node \<Rightarrow> u32 \<Rightarrow> u32 \<Rightarrow> int \<times> string" where
  "exfat_readdir b n idx maxlen =
     (if maxlen = 0 then (-1, [])
      else case file_priv n of
        Exfat_Node en \<Rightarrow>
          if \<not> en_is_dir en then (0, [])
          else if idx = 0 then (1, if maxlen > 1 then ''.'' else [])
          else (0, [])
      | _ \<Rightarrow> (-1, []))"


section \<open>Reading\<close>

text \<open>Following the FAT for \<open>n\<close> clusters, or to the end of the chain.\<close>

fun fat_skip :: "u64 \<Rightarrow> exfat_fs \<Rightarrow> block_state \<Rightarrow> u32 \<Rightarrow> nat \<Rightarrow> block_state \<times> u32" where
  "fat_skip sec fs b cl 0 = (b, cl)"
| "fat_skip sec fs b cl (Suc n) =
     (let (b1, nxt) = fat_get sec fs b cl
      in if nxt = EOC \<or> nxt = 0 then (b1, cl) else fat_skip sec fs b1 nxt n)"

text \<open>One cluster through a buffer from the heap: \<open>n\<close> of its bytes from \<open>at\<close> on to \<open>dst\<close>. The boolean is
  false when the buffer or the cluster cannot be had.\<close>

definition read_part_cluster ::
  "exfat_fs \<Rightarrow> block_state \<Rightarrow> u32 \<Rightarrow> u64 \<Rightarrow> u64 \<Rightarrow> nat \<Rightarrow> (block_state \<times> bool) option" where
  "read_part_cluster fs b cl at dst n = do {
     (h, tmp) \<leftarrow> kmalloc (b_heap b) (ucast (cluster_size fs));
     if tmp = 0 then Some (b\<lparr>b_heap := h\<rparr>, False)
     else
       let (b1, ok) = read_cluster fs (b\<lparr>b_heap := h\<rparr>) cl tmp;
           b2 = (if ok then b1\<lparr>b_mem := copy_bytes (b_mem b1) dst (tmp + at) n\<rparr> else b1)
       in do { h2 \<leftarrow> kfree (b_heap b2) tmp; Some (b2\<lparr>b_heap := h2\<rparr>, ok) } }"

text \<open>The bytes to take from the cluster, at most \<open>len - done\<close>.\<close>

definition take_bytes :: "exfat_fs \<Rightarrow> u64 \<Rightarrow> u64 \<Rightarrow> u64 \<Rightarrow> u64" where
  "take_bytes fs skip_in len dn =
     (let avail = ucast (cluster_size fs) - skip_in in if len - dn < avail then len - dn else avail)"

partial_function (option) read_loop ::
  "u64 \<Rightarrow> exfat_fs \<Rightarrow> block_state \<Rightarrow> u32 \<Rightarrow> u64 \<Rightarrow> u64 \<Rightarrow> u64 \<Rightarrow> u64 \<Rightarrow> (block_state \<times> u64) option" where
  "read_loop sec fs b cl buf skip_in len dn =
     (if dn < len \<and> cl \<ge> 2
      then
        let n = take_bytes fs skip_in len dn
        in do {
          (b1, ok) \<leftarrow> read_part_cluster fs b cl skip_in (buf + dn) (unat n);
          if \<not> ok then Some (b1, dn)
          else if dn + n \<ge> len then Some (b1, dn + n)
          else
            let (b2, nxt) = fat_get sec fs b1 cl
            in if nxt = 0 \<or> nxt = EOC then Some (b2, dn + n)
               else read_loop sec fs b2 nxt buf 0 len (dn + n) }
      else Some (b, dn))"

text \<open>A cluster size of 0 is a division by zero.\<close>

definition exfat_read :: "u64 \<Rightarrow> block_state \<Rightarrow> node \<Rightarrow> u64 \<Rightarrow> u64 \<Rightarrow> u64 \<Rightarrow> (block_state \<times> int) option" where
  "exfat_read sec b n off buf len =
     (case (file_priv n, fs_priv n) of
        (Exfat_Node en, Priv_Exfat fs) \<Rightarrow>
          if buf = 0 \<or> en_is_dir en then Some (b, -1)
          else if off \<ge> en_size en then Some (b, 0)
          else if cluster_size fs = 0 then None
          else
            let remaining = en_size en - off;
                len1 = (if len > remaining then remaining else len);
                csz = ucast (cluster_size fs) :: u64;
                (b1, cl) = fat_skip sec fs b (first_cluster en) (unat (off div csz))
            in do {
              (b2, dn) \<leftarrow> read_loop sec fs b1 cl buf (off mod csz) len1 0;
              Some (b2, c_int (ucast dn)) }
      | _ \<Rightarrow> None)"

section \<open>Writing\<close>

partial_function (option) alloc_scan :: "u64 \<Rightarrow> exfat_fs \<Rightarrow> block_state \<Rightarrow> u32 \<Rightarrow> u32 \<Rightarrow> (block_state \<times> u32) option" where
  "alloc_scan sec fs b cl entries =
     (if cl < entries
      then
        let (b1, v) = fat_get sec fs b cl
        in if v = 0
           then
             let (b2, rc) = fat_set sec fs b1 cl EOC
             in if rc \<noteq> 0 then Some (b2, 0)
                else do {
                  (h, z) \<leftarrow> kmalloc (b_heap b2) (ucast (cluster_size fs));
                  if z = 0 then Some (b2\<lparr>b_heap := h\<rparr>, 0)
                  else
                    let b3 = b2\<lparr>b_heap := h, b_mem := fill_bytes (b_mem b2) z 0 (unat (cluster_size fs))\<rparr>;
                        b4 = fst (write_cluster fs b3 cl z)
                    in do { h2 \<leftarrow> kfree (b_heap b4) z; Some (b4\<lparr>b_heap := h2\<rparr>, cl) } }
           else alloc_scan sec fs b1 (cl + 1) entries
      else Some (b, 0))"

text \<open>0 is failure.\<close>

definition fat_alloc :: "u64 \<Rightarrow> exfat_fs \<Rightarrow> block_state \<Rightarrow> (block_state \<times> u32) option" where
  "fat_alloc sec fs b = alloc_scan sec fs b 2 (fat_length fs * bytes_per_sector fs div 4)"

text \<open>A new cluster after \<open>cl\<close>.\<close>

definition append_cluster :: "u64 \<Rightarrow> exfat_fs \<Rightarrow> block_state \<Rightarrow> u32 \<Rightarrow> (block_state \<times> u32) option" where
  "append_cluster sec fs b cl = do {
     (b1, ncl) \<leftarrow> fat_alloc sec fs b;
     if ncl = 0 then Some (b1, 0)
     else
       let b2 = fst (fat_set sec fs b1 cl ncl)
       in Some (fst (fat_set sec fs b2 ncl EOC), ncl) }"

partial_function (option) chain_end ::
  "u64 \<Rightarrow> exfat_fs \<Rightarrow> block_state \<Rightarrow> u32 \<Rightarrow> u32 \<Rightarrow> u64 \<Rightarrow> (block_state \<times> u32 \<times> u64) option" where
  "chain_end sec fs b cur nxt count =
     (if \<not> fat_is_eoc nxt \<and> nxt \<noteq> 0
      then let (b1, n) = fat_get sec fs b nxt in chain_end sec fs b1 nxt n (count + 1)
      else Some (b, cur, count))"

partial_function (option) extend_chain ::
  "u64 \<Rightarrow> exfat_fs \<Rightarrow> block_state \<Rightarrow> u32 \<Rightarrow> u64 \<Rightarrow> u64 \<Rightarrow> (block_state \<times> u32) option" where
  "extend_chain sec fs b cur count needed =
     (if count < needed
      then do {
        (b1, ncl) \<leftarrow> append_cluster sec fs b cur;
        if ncl = 0 then Some (b1, 0) else extend_chain sec fs b1 ncl (count + 1) needed }
      else Some (b, cur))"

text \<open>The result: the state, the first cluster of the chain (allocated when there was none) and the
  last, or 0.\<close>

definition ensure_chain_length ::
  "u64 \<Rightarrow> exfat_fs \<Rightarrow> block_state \<Rightarrow> u32 \<Rightarrow> u64 \<Rightarrow> (block_state \<times> u32 \<times> u32) option" where
  "ensure_chain_length sec fs b first needed = do {
     (b1, first1) \<leftarrow> (if first < 2 then fat_alloc sec fs b else Some (b, first));
     if first < 2 \<and> first1 = 0 then Some (b1, first, 0)
     else
       let (b2, nxt) = fat_get sec fs b1 first1
       in do {
         (b3, cur, count) \<leftarrow> chain_end sec fs b2 first1 nxt 1;
         (b4, last) \<leftarrow> extend_chain sec fs b3 cur count needed;
         Some (b4, first1, last) } }"

text \<open>The next cluster, allocated when the chain ends at \<open>cl\<close>; 0 is failure.\<close>

definition next_cluster :: "u64 \<Rightarrow> exfat_fs \<Rightarrow> block_state \<Rightarrow> u32 \<Rightarrow> (block_state \<times> u32) option" where
  "next_cluster sec fs b cl =
     (let (b1, nxt) = fat_get sec fs b cl
      in if fat_is_eoc nxt \<or> nxt = 0 then append_cluster sec fs b1 cl else Some (b1, nxt))"

fun write_seek :: "u64 \<Rightarrow> exfat_fs \<Rightarrow> block_state \<Rightarrow> u32 \<Rightarrow> nat \<Rightarrow> (block_state \<times> u32) option" where
  "write_seek sec fs b cl 0 = Some (b, cl)"
| "write_seek sec fs b cl (Suc n) = do {
     (b1, nxt) \<leftarrow> next_cluster sec fs b cl;
     if nxt = 0 then Some (b1, 0) else write_seek sec fs b1 nxt n }"

definition write_part_cluster ::
  "exfat_fs \<Rightarrow> block_state \<Rightarrow> u32 \<Rightarrow> u64 \<Rightarrow> u64 \<Rightarrow> nat \<Rightarrow> (block_state \<times> bool) option" where
  "write_part_cluster fs b cl at src n = do {
     (h, tmp) \<leftarrow> kmalloc (b_heap b) (ucast (cluster_size fs));
     if tmp = 0 then Some (b\<lparr>b_heap := h\<rparr>, False)
     else
       let (b1, ok) = read_cluster fs (b\<lparr>b_heap := h\<rparr>) cl tmp
       in if \<not> ok then do { h2 \<leftarrow> kfree (b_heap b1) tmp; Some (b1\<lparr>b_heap := h2\<rparr>, False) }
          else
            let b2 = b1\<lparr>b_mem := copy_bytes (b_mem b1) (tmp + at) src n\<rparr>;
                (b3, ok') = write_cluster fs b2 cl tmp
            in do { h2 \<leftarrow> kfree (b_heap b3) tmp; Some (b3\<lparr>b_heap := h2\<rparr>, ok') } }"

text \<open>The boolean is false when the code returns -1.\<close>

partial_function (option) write_loop ::
  "u64 \<Rightarrow> exfat_fs \<Rightarrow> block_state \<Rightarrow> u32 \<Rightarrow> u64 \<Rightarrow> u64 \<Rightarrow> u64 \<Rightarrow> u64 \<Rightarrow> (block_state \<times> bool) option" where
  "write_loop sec fs b cl buf skip_in len dn =
     (if dn < len
      then
        let n = take_bytes fs skip_in len dn
        in do {
          (b1, ok) \<leftarrow> write_part_cluster fs b cl skip_in (buf + dn) (unat n);
          if \<not> ok then Some (b1, False)
          else if dn + n \<ge> len then Some (b1, True)
          else do {
            (b2, nxt) \<leftarrow> next_cluster sec fs b1 cl;
            if nxt = 0 then Some (b2, False)
            else write_loop sec fs b2 nxt buf 0 len (dn + n) } }
      else Some (b, True))"

text \<open>The offset of the first entry set whose stream entry has the given first cluster.\<close>

function find_stream :: "memory \<Rightarrow> u64 \<Rightarrow> nat \<Rightarrow> u32 \<Rightarrow> nat \<Rightarrow> nat option" where
  "find_stream m dir csz first i =
     (if i + 64 \<le> csz \<and> m (dir + of_nat i) \<noteq> 0
      then if m (dir + of_nat i) AND 0x7F = 0x05 \<and> m (dir + of_nat (i + 32)) = 0xC0 \<and> load32 m (dir + of_nat (i + 52)) = first
           then Some i
           else find_stream m dir csz first (i + 32)
      else None)"
  by pat_completeness auto
termination by (relation "measure (\<lambda>(m, dir, csz, first, i). csz - i)") auto

declare find_stream.simps [simp del]

definition dir_update_stream_by_first_cluster ::
  "exfat_fs \<Rightarrow> block_state \<Rightarrow> u32 \<Rightarrow> u32 \<Rightarrow> u64 \<Rightarrow> (block_state \<times> int) option" where
  "dir_update_stream_by_first_cluster fs b old_first new_first new_size = do {
     (h, dir) \<leftarrow> kmalloc (b_heap b) (ucast (cluster_size fs));
     if dir = 0 then Some (b\<lparr>b_heap := h\<rparr>, -1)
     else
       let (b1, ok) = read_cluster fs (b\<lparr>b_heap := h\<rparr>) (root_dir_cluster fs) dir
       in if \<not> ok then do { h2 \<leftarrow> kfree (b_heap b1) dir; Some (b1\<lparr>b_heap := h2\<rparr>, -1) }
          else (case find_stream (b_mem b1) dir (csize fs) old_first 0 of
              None \<Rightarrow> do { h2 \<leftarrow> kfree (b_heap b1) dir; Some (b1\<lparr>b_heap := h2\<rparr>, -1) }
            | Some i \<Rightarrow>
                let m1 = (if new_first \<ge> 2 \<and> new_first \<noteq> old_first then store32 (b_mem b1) (dir + of_nat (i + 52)) new_first
                          else b_mem b1);
                    m2 = store64 m1 (dir + of_nat (i + 56)) new_size;
                    (b2, ok') = write_cluster fs (b1\<lparr>b_mem := m2\<rparr>) (root_dir_cluster fs) dir
                in do { h2 \<leftarrow> kfree (b_heap b2) dir; Some (b2\<lparr>b_heap := h2\<rparr>, if ok' then 0 else -1) }) }"

definition exfat_write :: "u64 \<Rightarrow> block_state \<Rightarrow> node \<Rightarrow> u64 \<Rightarrow> u64 \<Rightarrow> u64 \<Rightarrow> (block_state \<times> node \<times> int) option" where
  "exfat_write sec b n off buf len =
     (case (file_priv n, fs_priv n) of
        (Exfat_Node en, Priv_Exfat fs) \<Rightarrow>
          if buf = 0 \<or> en_is_dir en then Some (b, n, -1)
          else if len = 0 then Some (b, n, 0)
          else if cluster_size fs = 0 then None
          else
            let end_pos = off + len;
                csz = ucast (cluster_size fs) :: u64;
                needed = (end_pos + csz - 1) div csz;
                old_first = first_cluster en
            in do {
              (b1, first1, last) \<leftarrow> ensure_chain_length sec fs b old_first needed;
              let en1 = en\<lparr>first_cluster := first1\<rparr>;
              let n1 = n\<lparr>file_priv := Exfat_Node en1\<rparr>;
              if last = 0 then Some (b1, n1, -1)
              else do {
                (b2, cl) \<leftarrow> write_seek sec fs b1 first1 (unat (off div csz));
                if cl = 0 then Some (b2, n1, -1)
                else do {
                  (b3, ok) \<leftarrow> write_loop sec fs b2 cl buf (off mod csz) len 0;
                  if \<not> ok then Some (b3, n1, -1)
                  else do {
                    let en2 = en1\<lparr>en_size := (if end_pos > en_size en1 then end_pos else en_size en1)\<rparr>;
                    (b4, rc) \<leftarrow> dir_update_stream_by_first_cluster fs b3 (if old_first \<noteq> 0 then old_first else first1) first1 (en_size en2);
                    Some (b4, n1\<lparr>file_priv := Exfat_Node en2\<rparr>, c_int (ucast len)) } } } }
      | _ \<Rightarrow> None)"


section \<open>Creating and removing\<close>

text \<open>The end marker, or the end of the cluster.\<close>

function dir_end :: "memory \<Rightarrow> u64 \<Rightarrow> nat \<Rightarrow> nat \<Rightarrow> nat" where
  "dir_end m dir csz di = (if di + 32 \<le> csz \<and> m (dir + of_nat di) \<noteq> 0 then dir_end m dir csz (di + 32) else di)"
  by pat_completeness auto
termination by (relation "measure (\<lambda>(m, dir, csz, di). csz - di)") auto

declare dir_end.simps [simp del]

text \<open>A file name entry at \<open>a\<close> with the characters of \<open>q\<close> from \<open>15 * e\<close> on.\<close>

definition put_name_entry :: "string \<Rightarrow> u64 \<Rightarrow> nat \<Rightarrow> memory \<Rightarrow> memory" where
  "put_name_entry q a e m =
     fold (\<lambda>k m. store16 m (a + of_nat (2 + k * 2)) (if 15 * e + k < length q then of_char (q ! (15 * e + k)) else 0)) [0..<15]
       ((fill_bytes m a 0 32)(a := 0xC1))"

text \<open>The primary entry, the stream entry and the name entries of an empty file, from \<open>a\<close> on.\<close>

definition put_entries :: "string \<Rightarrow> u32 \<Rightarrow> u64 \<Rightarrow> memory \<Rightarrow> memory" where
  "put_entries q cl a m =
     (let name_entries = (length q + 14) div 15;
          total_secs = 1 + name_entries;
          m1 = store16 ((fill_bytes m a 0 32)(a := 0x85, a + 1 := of_nat total_secs)) (a + 4) 0x20;
          m2 = (fill_bytes m1 (a + 32) 0 32)(a + 32 := 0xC0, a + 35 := of_nat (length q));
          m3 = store64 (store32 m2 (a + 52) cl) (a + 56) 0
      in fold (\<lambda>e. put_name_entry q (a + of_nat (64 + e * 32)) e) [0..<name_entries] m3)"

definition exfat_create :: "u64 \<Rightarrow> block_state \<Rightarrow> priv \<Rightarrow> string \<Rightarrow> u64 \<Rightarrow> (block_state \<times> int) option" where
  "exfat_create sec b p path size_hint =
     (case p of
        Priv_Exfat fs \<Rightarrow>
          let q = skip_slash path
          in if q = [] then Some (b, -1)
             else do {
               (h, dir) \<leftarrow> kmalloc (b_heap b) (ucast (cluster_size fs));
               if dir = 0 then Some (b\<lparr>b_heap := h\<rparr>, -1)
               else
                 let (b1, ok) = read_cluster fs (b\<lparr>b_heap := h\<rparr>) (root_dir_cluster fs) dir;
                     di = dir_end (b_mem b1) dir (csize fs) 0;
                     endpos = di + (2 + (length q + 14) div 15) * 32
                 in if \<not> ok \<or> endpos > csize fs
                    then do { h2 \<leftarrow> kfree (b_heap b1) dir; Some (b1\<lparr>b_heap := h2\<rparr>, -1) }
                    else do {
                      (b2, cl) \<leftarrow> fat_alloc sec fs b1;
                      if cl = 0 then do { h2 \<leftarrow> kfree (b_heap b2) dir; Some (b2\<lparr>b_heap := h2\<rparr>, -1) }
                      else
                        let m3 = put_entries q cl (dir + of_nat di) (b_mem b2);
                            m4 = (if endpos < csize fs then m3(dir + of_nat endpos := 0) else m3);
                            (b3, ok') = write_cluster fs (b2\<lparr>b_mem := m4\<rparr>) (root_dir_cluster fs) dir
                        in do { h2 \<leftarrow> kfree (b_heap b3) dir; Some (b3\<lparr>b_heap := h2\<rparr>, if ok' then 0 else -1) } } }
      | _ \<Rightarrow> None)"

text \<open>The entry set whose name is \<open>q\<close>: its offset and its end. Here a name entry ends at its first
  padding character.\<close>

function unlink_scan :: "memory \<Rightarrow> u64 \<Rightarrow> nat \<Rightarrow> string \<Rightarrow> nat \<Rightarrow> (nat \<times> nat) option" where
  "unlink_scan m dir csz q i =
     (if i + 32 \<le> csz \<and> m (dir + of_nat i) \<noteq> 0
      then
        let (name, j) = name_run (takeWhile (\<lambda>ch. ch \<noteq> 0)) m dir csz (i + 64)
        in if m (dir + of_nat i) AND 0x7F = 0x05 \<and> i + 64 \<le> csz \<and> m (dir + of_nat (i + 32)) = 0xC0 \<and> name_eq q (take 63 name)
           then Some (i, j)
           else unlink_scan m dir csz q (i + 32)
      else None)"
  by pat_completeness auto
termination by (relation "measure (\<lambda>(m, dir, csz, q, i). csz - i)") auto

declare unlink_scan.simps [simp del]

partial_function (option) free_chain :: "u64 \<Rightarrow> exfat_fs \<Rightarrow> block_state \<Rightarrow> u32 \<Rightarrow> block_state option" where
  "free_chain sec fs b cl =
     (if cl \<ge> 2
      then
        let (b1, nxt) = fat_get sec fs b cl;
            b2 = fst (fat_set sec fs b1 cl 0)
        in if nxt = 0 \<or> nxt = EOC then Some b2 else free_chain sec fs b2 nxt
      else Some b)"

definition exfat_unlink :: "u64 \<Rightarrow> block_state \<Rightarrow> priv \<Rightarrow> string \<Rightarrow> (block_state \<times> int) option" where
  "exfat_unlink sec b p path =
     (case p of
        Priv_Exfat fs \<Rightarrow>
          let q = skip_slash path
          in if q = [] then Some (b, -1)
             else do {
               (h, dir) \<leftarrow> kmalloc (b_heap b) (ucast (cluster_size fs));
               if dir = 0 then Some (b\<lparr>b_heap := h\<rparr>, -1)
               else
                 let (b1, ok) = read_cluster fs (b\<lparr>b_heap := h\<rparr>) (root_dir_cluster fs) dir
                 in case (if ok then unlink_scan (b_mem b1) dir (csize fs) q 0 else None) of
                      None \<Rightarrow> do { h2 \<leftarrow> kfree (b_heap b1) dir; Some (b1\<lparr>b_heap := h2\<rparr>, -1) }
                    | Some (i, j) \<Rightarrow> do {
                        b2 \<leftarrow> free_chain sec fs b1 (load32 (b_mem b1) (dir + of_nat (i + 52)));
                        let m3 = (fill_bytes (b_mem b2) (dir + of_nat i) 0 (j - i))(dir + of_nat i := 0);
                        let (b3, ok') = write_cluster fs (b2\<lparr>b_mem := m3\<rparr>) (root_dir_cluster fs) dir;
                        h2 \<leftarrow> kfree (b_heap b3) dir;
                        Some (b3\<lparr>b_heap := h2\<rparr>, if ok' then 0 else -1) } }
      | _ \<Rightarrow> None)"

section \<open>Registration and formatting\<close>

definition exfat_ops :: "u64 \<Rightarrow> fs_ops" where
  "exfat_ops sec = \<lparr>op_mount = Some (exfat_mount sec), op_umount = Some exfat_umount, op_open = Some exfat_open,
     op_stat = Some exfat_stat, op_read = Some (exfat_read sec), op_readdir = Some exfat_readdir,
     op_write = Some (exfat_write sec), op_create = Some (exfat_create sec), op_unlink = Some (exfat_unlink sec)\<rparr>"

definition exfat_register :: "(fs_table, priv) vfs_state \<Rightarrow> (fs_table, priv) vfs_state" where
  "exfat_register s = fst (vfs_register_fs s ''exfat'' Exfat_Ops)"

definition exfat_format_device :: "block_state \<Rightarrow> string \<Rightarrow> string \<Rightarrow> block_state \<times> int" where
  "exfat_format_device b name label = (b, 0)"

end
