(* ===== verification/Exfat_Correct.thy ===== *)
theory Exfat_Correct
  imports Exfat Devfs_Correct
begin

text \<open>
  Files on a volume: what a well-formed volume is, the FAT as a function of the device's bytes, and
  reading a file as following its chain of clusters.
\<close>

section \<open>Well-formed volumes\<close>

text \<open>The device as a memory of its own, by byte number.\<close>

definition image :: "block_device \<Rightarrow> memory \<Rightarrow> memory" where
  "image d m = (\<lambda>x. m (dev_at d (unat x)))"

definition csz :: "exfat_fs \<Rightarrow> nat" where
  "csz fs = 512 * unat (sectors_per_cluster fs)"

definition fat_pos :: "exfat_fs \<Rightarrow> u32 \<Rightarrow> nat" where
  "fat_pos fs cl = 512 * unat (fat_offset fs) + 4 * unat cl"

definition fat_at :: "exfat_fs \<Rightarrow> memory \<Rightarrow> u32 \<Rightarrow> u32" where
  "fat_at fs m cl = load32 (image (fs_bdev fs) m) (of_nat (fat_pos fs cl))"

definition clus_pos :: "exfat_fs \<Rightarrow> u32 \<Rightarrow> nat" where
  "clus_pos fs cl = 512 * (unat (cluster_heap_off fs) + (unat cl - 2) * unat (sectors_per_cluster fs))"

definition has_entry :: "exfat_fs \<Rightarrow> u32 \<Rightarrow> bool" where
  "has_entry fs cl \<longleftrightarrow> 4 * unat cl + 4 \<le> 512 * unat (fat_length fs)"

definition has_cluster :: "exfat_fs \<Rightarrow> u32 \<Rightarrow> bool" where
  "has_cluster fs cl \<longleftrightarrow> 2 \<le> unat cl \<and>
     unat (cluster_heap_off fs) + (unat cl - 1) * unat (sectors_per_cluster fs) \<le> dev_sectors (fs_bdev fs)"

text \<open>\<open>sec\<close> is the local sector buffer, \<open>bs\<close> the blocks of the heap.\<close>

definition vol_ok :: "exfat_fs \<Rightarrow> blk list \<Rightarrow> u64 \<Rightarrow> bool" where
  "vol_ok fs bs sec \<longleftrightarrow> apart (fs_bdev fs) bs \<and> dev_ss (fs_bdev fs) = 512 \<and> dev_sectors (fs_bdev fs) < 2 ^ 32 \<and>
     bytes_per_sector fs = 512 \<and> 0 < unat (sectors_per_cluster fs) \<and> unat (sectors_per_cluster fs) < 256 \<and>
     unat (cluster_size fs) = csz fs \<and> fits bs (csz fs) \<and> clear (fs_bdev fs) bs sec 512 \<and>
     unat (fat_offset fs) + unat (fat_length fs) \<le> dev_sectors (fs_bdev fs) \<and> unat (fat_length fs) < 2 ^ 23"

lemma vol_okD:
  assumes "vol_ok fs bs sec"
  shows "apart (fs_bdev fs) bs" "dev_ok (fs_bdev fs)" "dev_bytes (fs_bdev fs) \<inter> free_bytes bs = {}" "dev_ss (fs_bdev fs) = 512"
    "0 < csz fs" "csz fs < 2 ^ 17" "fits bs (csz fs)" "clear (fs_bdev fs) bs sec 512"
    "unat (ucast (cluster_size fs) :: u64) = csz fs" "bytes_per_sector fs = 512" "csize fs = csz fs"
proof -
  show c: "csz fs < 2 ^ 17" using assms by (simp add: vol_ok_def csz_def)
  have u: "unat (cluster_size fs) = csz fs" using assms by (simp add: vol_ok_def)
  then show "csize fs = csz fs" using c c_int_small [of "cluster_size fs"] by (simp add: csize_def)
qed (use assms in \<open>auto simp: vol_ok_def apart_def csz_def\<close>)

lemma dev_bytes_512: "dev_ss d = 512 \<Longrightarrow> k < 512 * dev_sectors d \<Longrightarrow> dev_at d k \<in> dev_bytes d"
  by (intro dev_at_bytes) simp

text \<open>Positions inside the device.\<close>

lemma fat_range:
  assumes "vol_ok fs bs sec" "has_entry fs cl"
  shows "fat_pos fs cl + 4 \<le> 512 * dev_sectors (fs_bdev fs)" "unat (cl * 4) = 4 * unat cl" "fat_pos fs cl < 2 ^ 41"
proof -
  have f: "unat (fat_offset fs) + unat (fat_length fs) \<le> dev_sectors (fs_bdev fs)" "unat (fat_length fs) < 2 ^ 23"
    "dev_sectors (fs_bdev fs) < 2 ^ 32" using assms(1) by (simp_all add: vol_ok_def)
  then show a: "fat_pos fs cl + 4 \<le> 512 * dev_sectors (fs_bdev fs)" using assms(2) by (simp add: fat_pos_def has_entry_def)
  then show "fat_pos fs cl < 2 ^ 41" using f(3) by simp
  show "unat (cl * 4) = 4 * unat cl" using assms(2) f(2) by (subst unat_mult_small) (simp_all add: has_entry_def)
qed

lemma cluster_range:
  assumes "vol_ok fs bs sec" "has_cluster fs cl"
  shows "unat (cl_to_lba fs cl) = unat (cluster_heap_off fs) + (unat cl - 2) * unat (sectors_per_cluster fs)"
    "unat (cl_to_lba fs cl) + unat (sectors_per_cluster fs) \<le> dev_sectors (fs_bdev fs)"
    "clus_pos fs cl + csz fs \<le> 512 * dev_sectors (fs_bdev fs)"
    "unat (cl_to_lba fs cl) * 512 = clus_pos fs cl"
proof -
  let ?s = "unat (sectors_per_cluster fs)" and ?h = "unat (cluster_heap_off fs)"
  have d: "dev_sectors (fs_bdev fs) < 2 ^ 32" using assms(1) by (simp add: vol_ok_def)
  have c: "2 \<le> unat cl" "?h + (unat cl - 1) * ?s \<le> dev_sectors (fs_bdev fs)" using assms(2) by (simp_all add: has_cluster_def)
  have e: "(unat cl - 1) * ?s = (unat cl - 2) * ?s + ?s" using c(1) by (metis Suc_diff_Suc Suc_1 Suc_le_lessD add.commute mult_Suc)
  have "unat (cl - 2) = unat cl - 2" using c(1) by (subst unat_sub) (simp_all add: word_le_nat_alt)
  then have "unat ((cl - 2) * sectors_per_cluster fs) = (unat cl - 2) * ?s"
    using c(2) d e by (subst unat_mult_small) simp_all
  then show l: "unat (cl_to_lba fs cl) = ?h + (unat cl - 2) * ?s"
    unfolding cl_to_lba_def using c(2) d e by (subst unat_add_small) simp_all
  show "unat (cl_to_lba fs cl) + ?s \<le> dev_sectors (fs_bdev fs)" using l c(2) e by simp
  then show "clus_pos fs cl + csz fs \<le> 512 * dev_sectors (fs_bdev fs)" using l by (simp add: clus_pos_def csz_def)
  show "unat (cl_to_lba fs cl) * 512 = clus_pos fs cl" using l by (simp add: clus_pos_def)
qed

text \<open>Memories in which the device, or its FAT, holds the same bytes.\<close>

definition same_disk :: "exfat_fs \<Rightarrow> memory \<Rightarrow> memory \<Rightarrow> bool" where
  "same_disk fs m m' \<longleftrightarrow> (\<forall>x \<in> dev_bytes (fs_bdev fs). m' x = m x)"

definition same_fat :: "exfat_fs \<Rightarrow> memory \<Rightarrow> memory \<Rightarrow> bool" where
  "same_fat fs m m' \<longleftrightarrow> (\<forall>i. 512 * unat (fat_offset fs) \<le> i \<and> i < 512 * (unat (fat_offset fs) + unat (fat_length fs)) \<longrightarrow>
     m' (dev_at (fs_bdev fs) i) = m (dev_at (fs_bdev fs) i))"

lemma same_disk_fat: "vol_ok fs bs sec \<Longrightarrow> same_disk fs m m' \<Longrightarrow> same_fat fs m m'"
  using vol_okD(4) by (auto simp: same_disk_def same_fat_def vol_ok_def intro!: dev_bytes_512)

lemma fat_at_same:
  assumes "vol_ok fs bs sec" "has_entry fs cl" "same_fat fs m m'"
  shows "fat_at fs m' cl = fat_at fs m cl"
proof -
  note r = fat_range [OF assms(1,2)]
  have "image (fs_bdev fs) m' (of_nat (fat_pos fs cl) + of_nat i) = image (fs_bdev fs) m (of_nat (fat_pos fs cl) + of_nat i)" if "i < 4" for i
  proof -
    have "unat (of_nat (fat_pos fs cl) + of_nat i :: u64) = fat_pos fs cl + i"
      using r(3) that u64_of_nat_unat [of "fat_pos fs cl + i"] by simp
    then show ?thesis using assms(2,3) that by (simp add: image_def same_fat_def fat_pos_def has_entry_def)
  qed
  then show ?thesis unfolding fat_at_def load32_def by (rule load_le_cong)
qed

text \<open>The sector of the FAT that holds an entry, and the entry's place in it.\<close>

lemma fat_sector_pos:
  assumes v: "vol_ok fs bs sec" and c: "has_entry fs cl"
  shows "unat (fat_sector fs cl) * 512 + unat (fat_sect_off fs cl) = fat_pos fs cl" "unat (fat_sect_off fs cl) + 4 \<le> 512"
    "unat (ucast (fat_sector fs cl) :: u64) + unat (1 :: u32) \<le> dev_sectors (fs_bdev fs)"
proof -
  let ?d = "fs_bdev fs" and ?o = "unat (fat_sect_off fs cl)" and ?s = "unat (fat_sector fs cl)"
  note r = fat_range [OF v c] and o = vol_okD [OF v]
  have f: "unat (fat_offset fs) + unat (fat_length fs) \<le> dev_sectors ?d" "unat (fat_length fs) < 2 ^ 23"
    "dev_sectors ?d < 2 ^ 32" using v by (simp_all add: vol_ok_def)
  have off: "?o = 4 * unat cl mod 512" using r(2) o(10) by (simp add: fat_sect_off_def unat_mod)
  have d4: "4 * unat cl div 512 < unat (fat_length fs)" using c by (simp add: has_entry_def div_less_iff_less_mult)
  have s: "?s = unat (fat_offset fs) + 4 * unat cl div 512"
    unfolding fat_sector_def o(10) using r(2) d4 f by (subst unat_add_small) (simp_all add: unat_div)
  have "(a + b div 512) * 512 + b mod 512 = 512 * a + b" for a b :: nat by (simp add: add_mult_distrib)
  then show "?s * 512 + ?o = fat_pos fs cl" unfolding s off fat_pos_def .
  have "4 * x mod 512 + 4 \<le> 512" for x :: nat
    using mult_mod_right [of 4 x 128] mod_less_divisor [of 128 x] by simp
  then show "?o + 4 \<le> 512" unfolding off .
  show "unat (ucast (fat_sector fs cl) :: u64) + unat (1 :: u32) \<le> dev_sectors ?d" using s d4 f(1) by simp
qed

lemma fat_get_ok:
  assumes v: "vol_ok fs bs sec" and c: "has_entry fs cl"
  obtains m' where "fat_get sec fs b cl = (b\<lparr>b_mem := m'\<rparr>, fat_at fs (b_mem b) cl)"
    "\<And>x. x \<notin> bytes_at sec 512 \<Longrightarrow> m' x = b_mem b x"
proof -
  let ?d = "fs_bdev fs" and ?o = "unat (fat_sect_off fs cl)" and ?s = "unat (fat_sector fs cl)"
  note r = fat_range [OF v c] and o = vol_okD [OF v] and pos = fat_sector_pos(1) [OF v c] and m4 = fat_sector_pos(2) [OF v c]
    and lba = fat_sector_pos(3) [OF v c]
  have u: "unat (ucast (fat_sector fs cl) :: u64) = ?s" "unat (ucast (fat_sect_off fs cl) :: u64) = ?o" by simp_all
  have sec: "sec \<noteq> 0" "bytes_at sec (unat (1 :: u32) * dev_ss ?d) \<inter> dev_bytes ?d = {}" using o(4,8) by (auto simp: clear_def)
  obtain m' where m': "dev_read ?d (b_mem b) (ucast (fat_sector fs cl)) sec 1 = (m', int (unat (1 :: u32)))"
    "\<And>k. k < unat (1 :: u32) * dev_ss ?d \<Longrightarrow> m' (sec + of_nat k) = b_mem b (dev_at ?d (unat (ucast (fat_sector fs cl) :: u64) * dev_ss ?d + k))"
    "\<And>x. x \<notin> bytes_at sec (unat (1 :: u32) * dev_ss ?d) \<Longrightarrow> m' x = b_mem b x"
    using dev_read_sectors [OF o(2) _ _ sec(1) lba sec(2), of "b_mem b"] by auto
  have "m' (sec + ucast (fat_sect_off fs cl) + of_nat i) = image ?d (b_mem b) (of_nat (fat_pos fs cl) + of_nat i)" if i: "i < 4" for i
  proof -
    have "sec + ucast (fat_sect_off fs cl) + of_nat i = sec + of_nat (?o + i)" by (simp add: add.assoc)
    moreover have "unat (of_nat (fat_pos fs cl) + of_nat i :: u64) = fat_pos fs cl + i"
      using r(3) i u64_of_nat_unat [of "fat_pos fs cl + i"] by simp
    ultimately show ?thesis using m'(2) [of "?o + i"] m4 i pos u(1) o(4) by (simp add: image_def flip: add.assoc)
  qed
  then have "load32 m' (sec + ucast (fat_sect_off fs cl)) = fat_at fs (b_mem b) cl"
    unfolding fat_at_def load32_def by (rule load_le_shift)
  then have "fat_get sec fs b cl = (b\<lparr>b_mem := m'\<rparr>, fat_at fs (b_mem b) cl)" using m'(1) by (simp add: fat_get_def)
  then show ?thesis using that m'(3) o(4) by simp
qed


section \<open>Clusters\<close>

lemma cluster_run:
  assumes v: "vol_ok fs bs sec" and c: "has_cluster fs cl"
  shows "unat (ucast (cluster_size fs) :: u64) = unat (sectors_per_cluster fs) * dev_ss (fs_bdev fs)"
    "(ucast (cluster_size fs) :: u64) \<noteq> 0" "unat (ucast (cluster_size fs) :: u64) + 15 < 2 ^ 64"
    "fits bs (unat (ucast (cluster_size fs) :: u64))" "unat (sectors_per_cluster fs) < 2 ^ 31"
    "unat (ucast (cl_to_lba fs cl) :: u64) + unat (sectors_per_cluster fs) \<le> dev_sectors (fs_bdev fs)"
    "unat (ucast (cl_to_lba fs cl) :: u64) * dev_ss (fs_bdev fs) = clus_pos fs cl" "sectors_per_cluster fs \<noteq> 0"
    "c_int (sectors_per_cluster fs) = int (unat (sectors_per_cluster fs))"
proof -
  note o = vol_okD [OF v] and r = cluster_range [OF v c]
  show "(ucast (cluster_size fs) :: u64) \<noteq> 0" using o(5,9) by (metis less_irrefl unat_0)
  show "unat (ucast (cluster_size fs) :: u64) + 15 < 2 ^ 64" "fits bs (unat (ucast (cluster_size fs) :: u64))"
    unfolding o(9) using o(6,7) by simp_all
  show s: "unat (sectors_per_cluster fs) < 2 ^ 31" "sectors_per_cluster fs \<noteq> 0" using v by (auto simp: vol_ok_def)
  show "c_int (sectors_per_cluster fs) = int (unat (sectors_per_cluster fs))" using c_int_small [OF s(1)] .
  show "unat (ucast (cluster_size fs) :: u64) = unat (sectors_per_cluster fs) * dev_ss (fs_bdev fs)"
    unfolding o(4,9) by (simp add: csz_def)
  have u: "unat (ucast (cl_to_lba fs cl) :: u64) = unat (cl_to_lba fs cl)" by simp
  show "unat (ucast (cl_to_lba fs cl) :: u64) + unat (sectors_per_cluster fs) \<le> dev_sectors (fs_bdev fs)"
    "unat (ucast (cl_to_lba fs cl) :: u64) * dev_ss (fs_bdev fs) = clus_pos fs cl"
    unfolding u o(4) using r(2,4) by simp_all
qed

lemma read_part_cluster_ok:
  assumes v: "vol_ok fs bs sec" and c: "has_cluster fs cl" and h: "heap_at (b_heap b) bs"
    and n: "unat at + n \<le> csz fs" and a: "clear (fs_bdev fs) bs a n"
  shows "\<exists>b'. read_part_cluster fs b cl at a n = Some (b', True) \<and> heap_at (b_heap b') bs \<and>
    moved_in (fs_bdev fs) bs b (clus_pos fs cl + unat at) a n b'"
proof -
  note o = vol_okD [OF v] and r = cluster_run [OF v c]
  let ?N = "unat (ucast (cluster_size fs) :: u64)"
  obtain h1 tmp h2 m1 where t: "kmalloc (b_heap b) (ucast (cluster_size fs)) = Some (h1, tmp)" "tmp \<noteq> 0"
    "kfree h1 tmp = Some h2" "heap_at h2 bs"
    "dev_read (fs_bdev fs) (b_mem b) (ucast (cl_to_lba fs cl)) tmp (sectors_per_cluster fs) = (m1, int (unat (sectors_per_cluster fs)))"
    and m1: "\<And>k. k < ?N \<Longrightarrow> m1 (tmp + of_nat k) = b_mem b (dev_at (fs_bdev fs) (clus_pos fs cl + k))"
      "\<And>x. x \<notin> free_bytes bs \<Longrightarrow> m1 x = b_mem b x"
    and sub: "bytes_at tmp ?N \<subseteq> free_bytes bs"
    using run_buffer [OF o(1) h r(1-6)] unfolding r(7) by blast
  have "read_part_cluster fs b cl at a n = Some (b\<lparr>b_mem := copy_bytes m1 a (tmp + at) n, b_heap := h2\<rparr>, True)"
    using t r(9) by (simp add: read_part_cluster_def read_cluster_def)
  then show ?thesis using copy_out [OF m1 sub _ _ a, of at h2] n o(6,9) t(4) by simp
qed

section \<open>Chains\<close>

text \<open>The clusters of a file, in order: each names the next in the FAT.\<close>

fun fchain :: "exfat_fs \<Rightarrow> memory \<Rightarrow> u32 list \<Rightarrow> bool" where
  "fchain fs m [] \<longleftrightarrow> False"
| "fchain fs m [c] \<longleftrightarrow> has_cluster fs c \<and> has_entry fs c"
| "fchain fs m (c # c' # cs) \<longleftrightarrow> has_cluster fs c \<and> has_entry fs c \<and> fat_at fs m c = c' \<and> fchain fs m (c' # cs)"

text \<open>Where the file's byte \<open>k\<close> is on the device.\<close>

definition file_at :: "exfat_fs \<Rightarrow> u32 list \<Rightarrow> nat \<Rightarrow> u64" where
  "file_at fs cls k = dev_at (fs_bdev fs) (clus_pos fs (cls ! (k div csz fs)) + k mod csz fs)"

lemma fchain_same: "vol_ok fs bs sec \<Longrightarrow> same_fat fs m m' \<Longrightarrow> fchain fs m cls \<Longrightarrow> fchain fs m' cls"
  by (induction fs m cls rule: fchain.induct) (auto simp: fat_at_same)

lemma fchain_first: "fchain fs m (c # cs) \<Longrightarrow> has_cluster fs c \<and> has_entry fs c"
  by (cases cs) auto

lemma fchain_nth: "fchain fs m cls \<Longrightarrow> i < length cls \<Longrightarrow> has_cluster fs (cls ! i) \<and> has_entry fs (cls ! i)"
proof (induction fs m cls arbitrary: i rule: fchain.induct)
  case (3 fs m c c' cs)
  then show ?case by (cases i) auto
qed auto

lemma fchain_drop: "fchain fs m cls \<Longrightarrow> i < length cls \<Longrightarrow> fchain fs m (drop i cls)"
proof (induction fs m cls arbitrary: i rule: fchain.induct)
  case (3 fs m c c' cs)
  then show ?case by (cases i) auto
qed auto

lemma has_cluster_not_end: "vol_ok fs bs sec \<Longrightarrow> has_cluster fs c \<Longrightarrow> has_entry fs c \<Longrightarrow> c \<noteq> 0 \<and> c \<noteq> EOC \<and> c \<ge> 2"
  using unat_eq_0 [of c] by (auto simp: has_cluster_def has_entry_def vol_ok_def EOC_def word_le_nat_alt)

lemma file_at_dev:
  assumes "vol_ok fs bs sec" "fchain fs m cls" "k < csz fs * length cls"
  shows "file_at fs cls k \<in> dev_bytes (fs_bdev fs)"
proof -
  have z: "0 < csz fs" using vol_okD(5) [OF assms(1)] .
  have "k div csz fs < length cls" using assms(3) by (simp add: less_mult_imp_div_less mult.commute)
  then have "clus_pos fs (cls ! (k div csz fs)) + csz fs \<le> 512 * dev_sectors (fs_bdev fs)"
    using fchain_nth [OF assms(2)] cluster_range(3) [OF assms(1)] by blast
  then show ?thesis unfolding file_at_def using z mod_less_divisor [OF z, of k]
    by (intro dev_bytes_512 [OF vol_okD(4) [OF assms(1)]]) linarith
qed

lemma file_at_Cons: "k < csz fs \<Longrightarrow> file_at fs (c # cs) k = dev_at (fs_bdev fs) (clus_pos fs c + k)"
  "0 < csz fs \<Longrightarrow> file_at fs (c # cs) (csz fs + k) = file_at fs cs k"
  by (simp_all add: file_at_def div_add_self1 less_not_refl2)


lemma file_at_drop:
  assumes "0 < csz fs" "k div csz fs < length cls"
  shows "file_at fs (drop (k div csz fs) cls) (k mod csz fs + j) = file_at fs cls (k + j)"
proof -
  have "k + j = (k mod csz fs + j) + csz fs * (k div csz fs)" by simp
  then have "(k + j) div csz fs = k div csz fs + (k mod csz fs + j) div csz fs" "(k + j) mod csz fs = (k mod csz fs + j) mod csz fs"
    using assms(1) by (metis div_mult_self2 less_not_refl2 add.commute, metis mod_mult_self2)
  then show ?thesis using assms(2) by (simp add: file_at_def)
qed

lemma room_drop:
  assumes "k div n < length cls" "sz \<le> n * length cls" "k < sz"
  shows "k mod n + (sz - k) \<le> n * length (drop (k div n) cls)"
proof -
  have "k = k mod n + n * (k div n)" by simp
  moreover have "n * length (drop (k div n) cls) + n * (k div n) = n * length cls"
    using assms(1) by (simp add: diff_mult_distrib2)
  ultimately show ?thesis using assms(2,3) by linarith
qed

section \<open>Reading\<close>

text \<open>\<open>n\<close> bytes of the file from \<open>k\<close> on are at \<open>a\<close>; else only the sector buffer and free heap memory changed.\<close>

definition got :: "exfat_fs \<Rightarrow> blk list \<Rightarrow> u64 \<Rightarrow> u32 list \<Rightarrow> block_state \<Rightarrow> nat \<Rightarrow> u64 \<Rightarrow> nat \<Rightarrow> block_state \<Rightarrow> bool" where
  "got fs bs sec cls b k a n b' \<longleftrightarrow> same_outside (bytes_at a n \<union> bytes_at sec 512 \<union> free_bytes bs) b b' \<and>
     (\<forall>i < n. b_mem b' (a + of_nat i) = b_mem b (file_at fs cls (k + i)))"

text \<open>The reader's buffer: off the device, the heap's free memory and the sector buffer.\<close>

definition user_buf :: "exfat_fs \<Rightarrow> blk list \<Rightarrow> u64 \<Rightarrow> u64 \<Rightarrow> nat \<Rightarrow> bool" where
  "user_buf fs bs sec a n \<longleftrightarrow> clear (fs_bdev fs) bs a n \<and> bytes_at a n \<inter> bytes_at sec 512 = {}"

lemma user_buf_part:
  assumes "user_buf fs bs sec a n" "k + j \<le> n" "0 < j"
  shows "user_buf fs bs sec (a + of_nat k) j"
proof -
  have "unat a + n \<le> 2 ^ 64" "unat a \<noteq> 0" using assms(1) by (auto simp: user_buf_def clear_def unat_eq_zero)
  then have "unat (of_nat k :: u64) = k" using assms(2,3) by (intro u64_of_nat_unat) simp
  then have "bytes_at (a + of_nat k) j \<subseteq> bytes_at a n" using assms(2) \<open>unat a + n \<le> 2 ^ 64\<close> by (intro bytes_at_part) simp_all
  then show ?thesis using assms clear_part [of "fs_bdev fs" bs a n k j] by (auto simp: user_buf_def)
qed

lemma got_disk:
  assumes "vol_ok fs bs sec" "user_buf fs bs sec a n" "same_outside (bytes_at a n \<union> bytes_at sec 512 \<union> free_bytes bs) b b'"
  shows "same_disk fs (b_mem b) (b_mem b')"
  using assms(2) vol_okD(3,8) [OF assms(1)] same_outsideD [OF assms(3)]
  unfolding same_disk_def user_buf_def clear_def by blast

lemma sec_disk:
  assumes "vol_ok fs bs sec" "\<And>x. x \<notin> bytes_at sec 512 \<Longrightarrow> m' x = m x"
  shows "same_disk fs m m'"
  using vol_okD(8) [OF assms(1)] assms(2) unfolding same_disk_def clear_def by blast

lemma fat_skip_ok:
  assumes "vol_ok fs bs sec" "fchain fs (b_mem b) cls" "n < length cls"
  shows "\<exists>m'. fat_skip sec fs b (cls ! 0) n = (b\<lparr>b_mem := m'\<rparr>, cls ! n) \<and> (\<forall>x. x \<notin> bytes_at sec 512 \<longrightarrow> m' x = b_mem b x)"
  using assms(2,3)
proof (induction n arbitrary: b cls)
  case 0
  have "b = b\<lparr>b_mem := b_mem b\<rparr>" by simp
  then show ?case by (metis fat_skip.simps(1))
next
  case (Suc n)
  then obtain c c' cs where cls: "cls = c # c' # cs" by (cases cls; cases "tl cls") auto
  have c: "has_entry fs c" "fat_at fs (b_mem b) c = c'" "fchain fs (b_mem b) (c' # cs)" using Suc.prems(1) by (simp_all add: cls)
  obtain m' where m': "fat_get sec fs b c = (b\<lparr>b_mem := m'\<rparr>, c')" "\<And>x. x \<notin> bytes_at sec 512 \<Longrightarrow> m' x = b_mem b x"
    using fat_get_ok [OF assms(1) c(1)] c(2) by metis
  have ne: "c' \<noteq> 0" "c' \<noteq> EOC" using has_cluster_not_end [OF assms(1)] fchain_first [OF c(3)] by auto
  have "fchain fs m' (c' # cs)"
    by (rule fchain_same [OF assms(1) same_disk_fat [OF assms(1) sec_disk [OF assms(1) m'(2)]] c(3)])
  then have "\<exists>m''. fat_skip sec fs (b\<lparr>b_mem := m'\<rparr>) c' n = (b\<lparr>b_mem := m''\<rparr>, (c' # cs) ! n) \<and> (\<forall>x. x \<notin> bytes_at sec 512 \<longrightarrow> m'' x = m' x)"
    using Suc.IH [of "b\<lparr>b_mem := m'\<rparr>" "c' # cs"] Suc.prems(2) by (simp add: cls)
  then show ?case using m' ne by (auto simp: cls)
qed

lemma take_bytes_unat:
  assumes "vol_ok fs bs sec" "unat skip < csz fs" "dn < len"
  shows "unat (take_bytes fs skip len dn) = min (unat (len - dn)) (csz fs - unat skip)"
proof -
  have "unat (ucast (cluster_size fs) - skip) = csz fs - unat skip"
    using vol_okD(9) [OF assms(1)] assms(2) by (subst unat_sub) (simp_all add: word_le_nat_alt)
  then show ?thesis by (simp add: take_bytes_def Let_def word_less_nat_alt min_def)
qed


lemma add_within:
  assumes "dn < len" "unat n \<le> unat (len - dn)"
  shows "unat (dn + n) = unat dn + unat n" "unat (len - (dn + n)) = unat (len - dn) - unat n"
    "unat n \<noteq> unat (len - dn) \<Longrightarrow> dn + n < (len :: u64)"
proof -
  have s: "unat (len - dn) = unat len - unat dn" using assms(1) by (subst unat_sub) simp_all
  then have le: "unat dn + unat n \<le> unat len" using assms by (simp add: word_less_nat_alt)
  then show a: "unat (dn + n) = unat dn + unat n" using u64_bound [of len] by (subst unat_add_small) simp_all
  then show "unat (len - (dn + n)) = unat (len - dn) - unat n" using s le by (subst unat_sub) (simp_all add: word_le_nat_alt)
  show "dn + n < len" if "unat n \<noteq> unat (len - dn)" using that a s le assms(1) by (simp add: word_less_nat_alt)
qed

lemma moved_in_got:
  assumes "moved_in (fs_bdev fs) bs b (clus_pos fs c + k) a n b'" "k + n \<le> csz fs"
  shows "got fs bs sec (c # cs) b k a n b'"
proof -
  have "b_mem b' (a + of_nat i) = b_mem b (file_at fs (c # cs) (k + i))" if "i < n" for i
    using assms that by (simp add: file_at_Cons moved_in_def add.assoc)
  then show ?thesis using assms(1) unfolding moved_in_def got_def by (blast intro: same_outside_mono)
qed

lemma got_trans:
  assumes v: "vol_ok fs bs sec" and u: "user_buf fs bs sec a (n + n')" and k: "k + n = csz fs" and ch: "fchain fs (b_mem b) (c # cs)"
    and g1: "got fs bs sec (c # cs) b k a n b1" and so: "same_outside (bytes_at sec 512) b1 b2"
    and g2: "got fs bs sec cs b2 0 (a + of_nat n) n' b3" and n': "n' \<le> csz fs * length cs"
  shows "got fs bs sec (c # cs) b k a (n + n') b3"
proof -
  have le: "unat a + (n + n') \<le> 2 ^ 64" using u by (simp add: user_buf_def clear_def)
  have s1: "same_outside (bytes_at a n \<union> bytes_at sec 512 \<union> free_bytes bs) b b1"
    and s3: "same_outside (bytes_at (a + of_nat n) n' \<union> bytes_at sec 512 \<union> free_bytes bs) b2 b3"
    using g1 g2 by (simp_all add: got_def)
  have s12: "same_outside (bytes_at a n \<union> bytes_at sec 512 \<union> free_bytes bs) b b2"
    using same_outside_trans [OF s1 so] by blast
  have "same_outside (bytes_at a (n + n') \<union> bytes_at sec 512 \<union> free_bytes bs) b b3"
    using bytes_at_append [OF le] by (intro same_outside_trans [OF s12 s3]) blast+
  moreover have "b_mem b3 (a + of_nat i) = b_mem b (file_at fs (c # cs) (k + i))" if i: "i < n + n'" for i
  proof (cases "i < n")
    case True
    have x: "a + of_nat i \<in> bytes_at a (n + n')" using i le by (intro bytes_at_offset) simp_all
    have "a + of_nat i \<notin> bytes_at (a + of_nat n) n' \<union> bytes_at sec 512 \<union> free_bytes bs"
      using clear_later [OF le True] x u by (auto simp: user_buf_def clear_def)
    then have "b_mem b3 (a + of_nat i) = b_mem b1 (a + of_nat i)"
      using same_outsideD [OF s3] same_outsideD [OF so] by simp
    then show ?thesis using g1 True by (simp add: got_def)
  next
    case False
    define j where "j = i - n"
    have j: "i = n + j" "j < n'" using False i by (simp_all add: j_def)
    have z: "0 < csz fs" using vol_okD(5) [OF v] .
    have e: "file_at fs (c # cs) (k + i) = file_at fs cs j" using file_at_Cons(2) [OF z, of c cs j] k j(1) by (simp add: add.assoc [symmetric])
    have "k + i < csz fs * length (c # cs)" using j n' k by simp
    then have "file_at fs cs j \<in> dev_bytes (fs_bdev fs)" using file_at_dev [OF v ch] e by metis
    moreover have "bytes_at a n \<subseteq> bytes_at a (n + n')" by (auto simp: bytes_at_def)
    ultimately have "file_at fs cs j \<notin> bytes_at a n \<union> bytes_at sec 512 \<union> free_bytes bs"
      using u vol_okD(3,8) [OF v] by (auto simp: user_buf_def clear_def)
    then have "b_mem b2 (file_at fs cs j) = b_mem b (file_at fs cs j)" by (rule same_outsideD [OF s12])
    moreover have "b_mem b3 (a + of_nat n + of_nat j) = b_mem b2 (file_at fs cs j)" using g2 j(2) by (simp add: got_def)
    ultimately show ?thesis using e j(1) by (simp add: add.assoc)
  qed
  ultimately show ?thesis by (simp add: got_def)
qed

lemma read_loop_part:
  assumes v: "vol_ok fs bs sec" and h: "heap_at (b_heap b) bs" and ch: "fchain fs (b_mem b) (c # cs)" and sk: "unat skip < csz fs"
    and dn: "dn < len" and u: "user_buf fs bs sec (buf + dn) (unat (len - dn))" and n: "n = take_bytes fs skip len dn"
  obtains b1 where "read_part_cluster fs b c skip (buf + dn) (unat n) = Some (b1, True)" "heap_at (b_heap b1) bs"
    "got fs bs sec (c # cs) b (unat skip) (buf + dn) (unat n) b1" "unat n = min (unat (len - dn)) (csz fs - unat skip)"
    "dn < len \<and> c \<ge> 2" "unat n \<le> unat (len - dn)" "0 < unat n"
proof -
  have c: "has_cluster fs c" "c \<ge> 2" using fchain_first [OF ch] has_cluster_not_end [OF v] by auto
  have n': "unat n = min (unat (len - dn)) (csz fs - unat skip)" unfolding n by (rule take_bytes_unat [OF v sk dn])
  have "0 < unat (len - dn)" using dn by (simp add: unat_gt_0)
  then have pos: "0 < unat n" using n' sk by simp
  have cl: "clear (fs_bdev fs) bs (buf + dn) (unat n)" using u n' clear_le [of "fs_bdev fs" bs "buf + dn"] by (auto simp: user_buf_def)
  have le: "unat skip + unat n \<le> csz fs" using n' sk by simp
  obtain b1 where "read_part_cluster fs b c skip (buf + dn) (unat n) = Some (b1, True)" "heap_at (b_heap b1) bs"
    "moved_in (fs_bdev fs) bs b (clus_pos fs c + unat skip) (buf + dn) (unat n) b1"
    using read_part_cluster_ok [OF v c(1) h le cl] by blast
  then show ?thesis using that moved_in_got [OF _ le] n' dn c(2) pos by auto
qed

lemma read_loop_ok:
  assumes v: "vol_ok fs bs sec" and h: "heap_at (b_heap b) bs" and ch: "fchain fs (b_mem b) (c # cs)" and sk: "unat skip < csz fs"
    and dn: "dn < len" and room: "unat skip + unat (len - dn) \<le> csz fs * length (c # cs)"
    and u: "user_buf fs bs sec (buf + dn) (unat (len - dn))"
  shows "\<exists>b'. read_loop sec fs b c buf skip len dn = Some (b', len) \<and> heap_at (b_heap b') bs \<and>
    got fs bs sec (c # cs) b (unat skip) (buf + dn) (unat (len - dn)) b'"
  using h ch sk dn room u
proof (induction cs arbitrary: b c skip dn)
  case Nil
  let ?n = "take_bytes fs skip len dn"
  obtain b1 where b1: "read_part_cluster fs b c skip (buf + dn) (unat ?n) = Some (b1, True)" "heap_at (b_heap b1) bs"
    "got fs bs sec [c] b (unat skip) (buf + dn) (unat ?n) b1" "unat ?n = min (unat (len - dn)) (csz fs - unat skip)" "dn < len \<and> c \<ge> 2"
    using read_loop_part [OF v Nil.prems(1-4,6) refl] by metis
  have "unat ?n = unat (len - dn)" using b1(4) Nil.prems(5) by simp
  then have "?n = len - dn" by (simp only: word_unat_eq_iff)
  then show ?case using b1 by (subst read_loop.simps) simp
next
  case (Cons c' cs)
  let ?n = "take_bytes fs skip len dn"
  obtain b1 where b1: "read_part_cluster fs b c skip (buf + dn) (unat ?n) = Some (b1, True)" "heap_at (b_heap b1) bs"
    "got fs bs sec (c # c' # cs) b (unat skip) (buf + dn) (unat ?n) b1" "unat ?n = min (unat (len - dn)) (csz fs - unat skip)"
    "dn < len \<and> c \<ge> 2" "unat ?n \<le> unat (len - dn)" "0 < unat ?n"
    using read_loop_part [OF v Cons.prems(1-4,6) refl] by metis
  show ?case
  proof (cases "unat ?n = unat (len - dn)")
    case True
    then have "?n = len - dn" by (simp only: word_unat_eq_iff)
    then show ?thesis using b1 by (subst read_loop.simps) simp
  next
    case False
    let ?u = "user_buf fs bs sec"
    have n: "unat skip + unat ?n = csz fs" using False b1(4) Cons.prems(3) by simp
    have w: "unat (dn + ?n) = unat dn + unat ?n" "unat (len - (dn + ?n)) = unat (len - dn) - unat ?n" "dn + ?n < len"
      using add_within [OF Cons.prems(4) b1(6)] False by auto
    have e: "fat_at fs (b_mem b) c = c'" "fchain fs (b_mem b) (c' # cs)" "has_entry fs c" using Cons.prems(2) by simp_all
    have so1: "same_outside (bytes_at (buf + dn) (unat ?n) \<union> bytes_at sec 512 \<union> free_bytes bs) b b1" using b1(3) by (simp add: got_def)
    have un: "?u (buf + dn) (unat ?n)" using user_buf_part [OF Cons.prems(6), of 0 "unat ?n"] b1(6,7) by simp
    have d1: "same_disk fs (b_mem b) (b_mem b1)" by (rule got_disk [OF v un so1])
    obtain m2 where m2: "fat_get sec fs b1 c = (b1\<lparr>b_mem := m2\<rparr>, c')" "\<And>x. x \<notin> bytes_at sec 512 \<Longrightarrow> m2 x = b_mem b1 x"
      using fat_get_ok [OF v e(3), of b1] fat_at_same [OF v e(3) same_disk_fat [OF v d1]] e(1) by metis
    let ?b2 = "b1\<lparr>b_mem := m2\<rparr>"
    have so2: "same_outside (bytes_at sec 512) b1 ?b2" using m2(2) by (simp add: same_outside_def)
    have ch2: "fchain fs (b_mem ?b2) (c' # cs)"
      using fchain_same [OF v same_disk_fat [OF v sec_disk [OF v m2(2)]] fchain_same [OF v same_disk_fat [OF v d1] e(2)]] by simp
    have ne: "c' \<noteq> 0" "c' \<noteq> EOC" using has_cluster_not_end [OF v] fchain_first [OF e(2)] by auto
    have u2: "?u (buf + (dn + ?n)) (unat (len - (dn + ?n)))"
      using user_buf_part [OF Cons.prems(6), of "unat ?n" "unat (len - (dn + ?n))"] w(2,3) b1(6) False by (simp add: add.assoc)
    have room2: "unat (0 :: u64) + unat (len - (dn + ?n)) \<le> csz fs * length (c' # cs)" using Cons.prems(5) n w(2) b1(6) by simp
    obtain b3 where b3: "read_loop sec fs ?b2 c' buf 0 len (dn + ?n) = Some (b3, len)" "heap_at (b_heap b3) bs"
      "got fs bs sec (c' # cs) ?b2 (unat (0 :: u64)) (buf + (dn + ?n)) (unat (len - (dn + ?n))) b3"
      using Cons.IH [OF _ ch2 _ w(3) room2 u2] b1(2) vol_okD(5) [OF v] by auto
    have "got fs bs sec (c # c' # cs) b (unat skip) (buf + dn) (unat ?n + unat (len - (dn + ?n))) b3"
      by (rule got_trans [OF v _ n Cons.prems(2) b1(3) so2])
        (use Cons.prems(5,6) b1(6) w(2) b3(3) n in \<open>auto simp: add.assoc\<close>)
    moreover have "read_loop sec fs b c buf skip len dn = Some (b3, len)"
      using b1(1,5) w(3) [unfolded not_le [symmetric]] m2(1) ne b3(1) by (subst read_loop.simps) (simp add: Let_def)
    ultimately show ?thesis using b3(2) w(2) b1(6) by simp
  qed
qed


section \<open>Reading a file\<close>

text \<open>An open file of \<open>sz\<close> bytes whose clusters are \<open>cls\<close>.\<close>

definition open_file :: "exfat_fs \<Rightarrow> memory \<Rightarrow> node \<Rightarrow> u32 list \<Rightarrow> nat \<Rightarrow> bool" where
  "open_file fs m n cls sz \<longleftrightarrow> fs_priv n = Priv_Exfat fs \<and> fchain fs m cls \<and> sz \<le> csz fs * length cls \<and>
     (\<exists>en. file_priv n = Exfat_Node en \<and> first_cluster en = cls ! 0 \<and> \<not> en_is_dir en \<and> unat (en_size en) = sz)"

lemma u64_to_int: "unat (x :: u64) < 2 ^ 31 \<Longrightarrow> c_int (ucast x) = int (unat x)"
  by (subst c_int_small) (simp_all add: unsigned_ucast_eq take_bit_nat_eq_self)

lemma exfat_read_ok:
  assumes v: "vol_ok fs bs sec" and h: "heap_at (b_heap b) bs" and f: "open_file fs (b_mem b) n cls sz" "sz < 2 ^ 31"
    and k: "k = min (unat len) (sz - unat off)" and u: "user_buf fs bs sec buf k"
  shows "\<exists>b'. exfat_read sec b n off buf len = Some (b', int k) \<and> heap_at (b_heap b') bs \<and>
    (\<forall>i < k. b_mem b' (buf + of_nat i) = b_mem b (file_at fs cls (unat off + i))) \<and>
    same_outside (bytes_at buf k \<union> bytes_at sec 512 \<union> free_bytes bs) b b'"
proof -
  obtain en where en: "file_priv n = Exfat_Node en" "first_cluster en = cls ! 0" "\<not> en_is_dir en" "unat (en_size en) = sz"
    "fs_priv n = Priv_Exfat fs" "fchain fs (b_mem b) cls" "sz \<le> csz fs * length cls" using f(1) by (auto simp: open_file_def)
  note o = vol_okD [OF v]
  have buf: "buf \<noteq> 0" "cluster_size fs \<noteq> 0" using u o(5) v by (auto simp: user_buf_def clear_def vol_ok_def)
  show ?thesis
  proof (cases "sz \<le> unat off")
    case True
    then have "exfat_read sec b n off buf len = Some (b, 0)"
      using en buf by (simp add: exfat_read_def word_le_nat_alt)
    then show ?thesis using True k h by simp
  next
    case False
    let ?z = "ucast (cluster_size fs) :: u64"
    let ?i = "unat (off div ?z)" and ?r = "en_size en - off"
    let ?len = "if len > ?r then ?r else len"
    have i: "?i = unat off div csz fs" "unat (off mod ?z) = unat off mod csz fs" using o(9) by (simp_all add: unat_div unat_mod)
    have il: "unat off div csz fs < length cls"
      using False en(7) by (simp add: less_mult_imp_div_less mult.commute)
    have r: "unat ?r = sz - unat off" using False en(4) by (subst unat_sub) (simp_all add: word_le_nat_alt)
    then have len: "unat ?len = k" using k by (simp add: word_less_nat_alt min_def)
    obtain m1 where m1: "fat_skip sec fs b (cls ! 0) ?i = (b\<lparr>b_mem := m1\<rparr>, cls ! (unat off div csz fs))"
      "\<And>x. x \<notin> bytes_at sec 512 \<Longrightarrow> m1 x = b_mem b x" using fat_skip_ok [OF v en(6) il] unfolding i(1) by blast
    let ?b1 = "b\<lparr>b_mem := m1\<rparr>"
    have d1: "same_disk fs (b_mem b) m1" by (rule sec_disk [OF v m1(2)])
    have so1: "same_outside (bytes_at sec 512) b ?b1" using m1(2) by (simp add: same_outside_def)
    obtain cs where cs: "drop (unat off div csz fs) cls = cls ! (unat off div csz fs) # cs" using Cons_nth_drop_Suc [OF il] by metis
    have ch: "fchain fs (b_mem ?b1) (cls ! (unat off div csz fs) # cs)"
      using fchain_same [OF v same_disk_fat [OF v d1] fchain_drop [OF en(6) il]] by (simp add: cs)
    have at: "file_at fs (cls ! (unat off div csz fs) # cs) (unat off mod csz fs + j) = file_at fs cls (unat off + j)" for j
      using file_at_drop [OF o(5) il, of j] by (simp add: cs)
    have "\<exists>b2. read_loop sec fs ?b1 (cls ! (unat off div csz fs)) buf (off mod ?z) ?len 0 = Some (b2, ?len) \<and> heap_at (b_heap b2) bs \<and>
        got fs bs sec (cls ! (unat off div csz fs) # cs) ?b1 (unat off mod csz fs) buf k b2"
    proof (cases "k = 0")
      case True
      then have "?len = 0" using len by (simp only: unat_eq_zero)
      then show ?thesis using True h by (subst read_loop.simps) (simp add: got_def)
    next
      case False
      then have pos: "0 < ?len" using len by (simp add: word_less_nat_alt)
      have "unat off mod csz fs + k \<le> csz fs * length (cls ! (unat off div csz fs) # cs)"
        using room_drop [OF il en(7)] k \<open>\<not> sz \<le> unat off\<close> unfolding cs by simp
      then show ?thesis using read_loop_ok [OF v _ ch _ pos, of "off mod ?z" buf] h i(2) o(5) u len by simp
    qed
    then obtain b2 where b2: "read_loop sec fs ?b1 (cls ! (unat off div csz fs)) buf (off mod ?z) ?len 0 = Some (b2, ?len)"
      "heap_at (b_heap b2) bs" "got fs bs sec (cls ! (unat off div csz fs) # cs) ?b1 (unat off mod csz fs) buf k b2" by blast
    have ret: "c_int (ucast ?len) = int k" using u64_to_int [of ?len] k f(2) unfolding len by simp
    have "exfat_read sec b n off buf len = Some (b2, int k)"
      using en buf False m1(1) b2(1) ret by (simp add: exfat_read_def word_le_nat_alt Let_def)
    moreover have "same_outside (bytes_at buf k \<union> bytes_at sec 512 \<union> free_bytes bs) b b2"
      using b2(3) so1 unfolding got_def by (blast intro: same_outside_trans)
    moreover have "b_mem b2 (buf + of_nat j) = b_mem b (file_at fs cls (unat off + j))" if j: "j < k" for j
    proof -
      have "unat off + j < sz" using j k by (simp add: less_diff_conv add.commute)
      then have "file_at fs cls (unat off + j) \<in> dev_bytes (fs_bdev fs)"
        using en(7) by (intro file_at_dev [OF v en(6)]) linarith
      then show ?thesis using b2(3) j d1 at by (simp add: got_def same_disk_def)
    qed
    ultimately show ?thesis using b2(2) by blast
  qed
qed

end
