(* ===== verification/Exfat_Write.thy ===== *)
theory Exfat_Write
  imports Exfat_Correct
begin

text \<open>
  Writing a file whose chain is long enough: the bytes written, and only those, change in the file;
  the FAT and every other cluster but the directory's stay.
\<close>

section \<open>The bytes of a file are different bytes\<close>

lemma clus_pos_eq: "clus_pos fs c = 512 * unat (cluster_heap_off fs) + (unat c - 2) * csz fs"
  by (simp add: clus_pos_def csz_def algebra_simps)

lemma clus_pos_inj:
  assumes "has_cluster fs c" "has_cluster fs c'" "r < csz fs" "r' < csz fs" "clus_pos fs c + r = clus_pos fs c' + r'"
  shows "c = c' \<and> r = r'"
proof -
  have "(unat c - 2) * csz fs + r = (unat c' - 2) * csz fs + r'" using assms(5) by (simp add: clus_pos_eq)
  then have "unat c - 2 = unat c' - 2 \<and> r = r'" using assms(3,4)
    by (metis add.right_neutral div_less div_mult_self3 gr_implies_not0 mod_less mod_mult_self3)
  then show ?thesis using assms(1,2) by (auto simp: has_cluster_def word_unat_eq_iff)
qed

definition disk_pos :: "exfat_fs \<Rightarrow> u32 list \<Rightarrow> nat \<Rightarrow> nat" where
  "disk_pos fs cls k = clus_pos fs (cls ! (k div csz fs)) + k mod csz fs"

lemma file_at_pos: "file_at fs cls k = dev_at (fs_bdev fs) (disk_pos fs cls k)"
  by (simp add: file_at_def disk_pos_def)

lemma disk_pos_bound:
  assumes "vol_ok fs bs sec" "fchain fs m cls" "k < csz fs * length cls"
  shows "disk_pos fs cls k < 512 * dev_sectors (fs_bdev fs)"
proof -
  have z: "0 < csz fs" using vol_okD(5) [OF assms(1)] .
  have "k div csz fs < length cls" using assms(3) by (simp add: less_mult_imp_div_less mult.commute)
  then have "clus_pos fs (cls ! (k div csz fs)) + csz fs \<le> 512 * dev_sectors (fs_bdev fs)"
    using fchain_nth [OF assms(2)] cluster_range(3) [OF assms(1)] by blast
  then show ?thesis unfolding disk_pos_def using mod_less_divisor [OF z, of k] by linarith
qed

lemma dev_at_eq:
  assumes "vol_ok fs bs sec" "i < 512 * dev_sectors (fs_bdev fs)" "j < 512 * dev_sectors (fs_bdev fs)"
  shows "dev_at (fs_bdev fs) i = dev_at (fs_bdev fs) j \<longleftrightarrow> i = j"
  using inj_onD [OF dev_at_inj(1) [OF vol_okD(2) [OF assms(1)]]] assms(2,3) vol_okD(4) [OF assms(1)] by auto

lemma file_at_inj:
  assumes v: "vol_ok fs bs sec" and ch: "fchain fs m cls" "distinct cls" and k: "k < csz fs * length cls" "k' < csz fs * length cls"
    and e: "file_at fs cls k = file_at fs cls k'"
  shows "k = k'"
proof -
  have z: "0 < csz fs" using vol_okD(5) [OF v] .
  have l: "k div csz fs < length cls" "k' div csz fs < length cls" using k by (simp_all add: less_mult_imp_div_less mult.commute)
  have "disk_pos fs cls k = disk_pos fs cls k'"
    using e dev_at_eq [OF v disk_pos_bound [OF v ch(1) k(1)] disk_pos_bound [OF v ch(1) k(2)]] by (simp add: file_at_pos)
  then have "cls ! (k div csz fs) = cls ! (k' div csz fs) \<and> k mod csz fs = k' mod csz fs"
    unfolding disk_pos_def using fchain_nth [OF ch(1)] l z by (intro clus_pos_inj) simp_all
  then have "k div csz fs = k' div csz fs \<and> k mod csz fs = k' mod csz fs" using nth_eq_iff_index_eq [OF ch(2) l] by simp
  then show ?thesis by (metis div_mult_mod_eq)
qed

section \<open>One cluster\<close>

lemma write_part_cluster_ok:
  assumes v: "vol_ok fs bs sec" "dev_writable (fs_bdev fs)" and c: "has_cluster fs cl" and h: "heap_at (b_heap b) bs"
    and n: "unat at + n \<le> csz fs" and a: "clear (fs_bdev fs) bs a n"
  shows "\<exists>b'. write_part_cluster fs b cl at a n = Some (b', True) \<and> heap_at (b_heap b') bs \<and>
    moved_out (fs_bdev fs) bs b (clus_pos fs cl + unat at) a n b'"
proof -
  let ?d = "fs_bdev fs" and ?s = "sectors_per_cluster fs" and ?lba = "ucast (cl_to_lba fs cl) :: u64"
  note o = vol_okD [OF v(1)] and r = cluster_run [OF v(1) c]
  let ?N = "unat (ucast (cluster_size fs) :: u64)"
  obtain h1 tmp h2 m1 where t: "kmalloc (b_heap b) (ucast (cluster_size fs)) = Some (h1, tmp)" "tmp \<noteq> 0"
    "kfree h1 tmp = Some h2" "heap_at h2 bs" "dev_read ?d (b_mem b) ?lba tmp ?s = (m1, int (unat ?s))"
    and m1: "\<And>k. k < ?N \<Longrightarrow> m1 (tmp + of_nat k) = b_mem b (dev_at ?d (unat ?lba * dev_ss ?d + k))"
      "\<And>x. x \<notin> free_bytes bs \<Longrightarrow> m1 x = b_mem b x"
    and sub: "bytes_at tmp ?N \<subseteq> free_bytes bs"
    using run_buffer [OF o(1) h r(1-6)] by blast
  let ?m2 = "copy_bytes m1 (tmp + at) a n"
  have N: "?N < 2 ^ 64" "unat at + n \<le> ?N" using o(6,9) n by simp_all
  have p: "?m2 (tmp + of_nat j) = (if unat at \<le> j \<and> j < unat at + n
      then b_mem b (a + of_nat (j - unat at)) else b_mem b (dev_at ?d (unat ?lba * dev_ss ?d + j)))" if "j < unat ?s * dev_ss ?d" for j
    by (rule patch_in(1) [OF m1 sub N a]) (use that r(1) in simp_all)
  have q: "?m2 x = b_mem b x" if "x \<notin> free_bytes bs" for x
    by (rule patch_in(2) [OF m1 sub N a that]) simp_all
  obtain m3 where m3: "dev_write ?d ?m2 ?lba tmp ?s = (m3, int (unat ?s))"
    "\<And>h. moved_out ?d bs b (unat ?lba * dev_ss ?d + unat at) a n (b\<lparr>b_mem := m3, b_heap := h\<rparr>)"
    by (rule write_back [OF o(1) v(2) r(8,5,6) t(2) _ p q]) (use sub r(1) N(2) in simp_all)
  have "write_part_cluster fs b cl at a n = Some (b\<lparr>b_mem := m3, b_heap := h2\<rparr>, True)"
    using t m3(1) r(9) by (simp add: write_part_cluster_def read_cluster_def write_cluster_def)
  then show ?thesis using m3(2) t(4) unfolding r(7) by simp
qed


section \<open>Writing along the chain\<close>

text \<open>The clusters lie after the FAT.\<close>

definition fat_first :: "exfat_fs \<Rightarrow> bool" where
  "fat_first fs \<longleftrightarrow> unat (fat_offset fs) + unat (fat_length fs) \<le> unat (cluster_heap_off fs)"

definition put :: "exfat_fs \<Rightarrow> blk list \<Rightarrow> u64 \<Rightarrow> u32 list \<Rightarrow> block_state \<Rightarrow> nat \<Rightarrow> u64 \<Rightarrow> nat \<Rightarrow> block_state \<Rightarrow> bool" where
  "put fs bs sec cls b k a n b' \<longleftrightarrow> same_outside (file_at fs cls ` {k..<k + n} \<union> bytes_at sec 512 \<union> free_bytes bs) b b' \<and>
     (\<forall>i < n. b_mem b' (file_at fs cls (k + i)) = b_mem b (a + of_nat i))"

text \<open>The bytes of the device after the FAT: no write to them changes the FAT.\<close>

definition heap_bytes :: "exfat_fs \<Rightarrow> u64 set" where
  "heap_bytes fs = dev_at (fs_bdev fs) ` {512 * unat (cluster_heap_off fs)..<512 * dev_sectors (fs_bdev fs)}"

lemma fat_keep:
  assumes v: "vol_ok fs bs sec" "fat_first fs" and so: "same_outside (heap_bytes fs \<union> bytes_at sec 512 \<union> free_bytes bs) b b'"
  shows "same_fat fs (b_mem b) (b_mem b')"
proof -
  let ?d = "fs_bdev fs"
  have "b_mem b' (dev_at ?d i) = b_mem b (dev_at ?d i)" if i: "i < 512 * (unat (fat_offset fs) + unat (fat_length fs))" for i
  proof -
    have ib: "i < 512 * dev_sectors ?d" "i < 512 * unat (cluster_heap_off fs)" using i v by (auto simp: vol_ok_def fat_first_def)
    have "dev_at ?d i \<in> dev_bytes ?d" by (rule dev_bytes_512 [OF vol_okD(4) [OF v(1)] ib(1)])
    then have "dev_at ?d i \<notin> bytes_at sec 512 \<union> free_bytes bs" using vol_okD(3,8) [OF v(1)] by (auto simp: clear_def)
    moreover have "dev_at ?d i \<noteq> dev_at ?d j" if "512 * unat (cluster_heap_off fs) \<le> j" "j < 512 * dev_sectors ?d" for j
      using dev_at_eq [OF v(1) ib(1) that(2)] ib(2) that(1) by auto
    then have "dev_at ?d i \<notin> heap_bytes fs" by (fastforce simp: heap_bytes_def)
    ultimately show ?thesis by (intro same_outsideD [OF so]) simp
  qed
  then show ?thesis by (simp add: same_fat_def)
qed

lemma file_heap_bytes:
  assumes "vol_ok fs bs sec" "fchain fs m cls" "k < csz fs * length cls"
  shows "file_at fs cls k \<in> heap_bytes fs"
  using disk_pos_bound [OF assms] by (auto simp: file_at_pos heap_bytes_def disk_pos_def clus_pos_def)

lemma put_fat:
  assumes v: "vol_ok fs bs sec" "fat_first fs" and ch: "fchain fs m cls" "k + n \<le> csz fs * length cls"
    and so: "same_outside (file_at fs cls ` {k..<k + n} \<union> bytes_at sec 512 \<union> free_bytes bs) b b'"
  shows "same_fat fs (b_mem b) (b_mem b')"
  using ch(2) file_heap_bytes [OF v(1) ch(1)] by (intro fat_keep [OF v] same_outside_mono [OF so]) fastforce

lemma moved_out_put:
  assumes "moved_out (fs_bdev fs) bs b (clus_pos fs c + k) a n b'" "k + n \<le> csz fs"
  shows "put fs bs sec (c # cs) b k a n b'"
proof -
  have e: "file_at fs (c # cs) (k + i) = dev_at (fs_bdev fs) (clus_pos fs c + k + i)" if "i < n" for i
    using file_at_Cons(1) [of "k + i" fs c cs] assms(2) that by (simp add: add.assoc)
  have "dev_at (fs_bdev fs) ` {clus_pos fs c + k..<clus_pos fs c + k + n} \<subseteq> file_at fs (c # cs) ` {k..<k + n}"
  proof
    fix x assume "x \<in> dev_at (fs_bdev fs) ` {clus_pos fs c + k..<clus_pos fs c + k + n}"
    then obtain i where i: "x = dev_at (fs_bdev fs) i" "clus_pos fs c + k \<le> i" "i < clus_pos fs c + k + n" by auto
    define j where "j = i - (clus_pos fs c + k)"
    have j: "x = dev_at (fs_bdev fs) (clus_pos fs c + k + j)" "j < n" using i by (simp_all add: j_def)
    then show "x \<in> file_at fs (c # cs) ` {k..<k + n}" using e [OF j(2)] by (intro image_eqI [of _ _ "k + j"]) simp_all
  qed
  then have "same_outside (file_at fs (c # cs) ` {k..<k + n} \<union> bytes_at sec 512 \<union> free_bytes bs) b b'"
    using assms(1) unfolding moved_out_def by (blast intro: same_outside_mono)
  then show ?thesis using assms(1) e by (simp add: moved_out_def put_def)
qed

lemma put_trans:
  assumes v: "vol_ok fs bs sec" and u: "user_buf fs bs sec a (n + n')" and k: "k + n = csz fs"
    and ch: "fchain fs (b_mem b) (c # cs)" "distinct (c # cs)"
    and p1: "put fs bs sec (c # cs) b k a n b1" and so: "same_outside (bytes_at sec 512) b1 b2"
    and p2: "put fs bs sec cs b2 0 (a + of_nat n) n' b3" and n': "n' \<le> csz fs * length cs"
  shows "put fs bs sec (c # cs) b k a (n + n') b3"
proof -
  let ?F = "file_at fs (c # cs)" and ?S = "bytes_at sec 512 \<union> free_bytes bs"
  have z: "0 < csz fs" using vol_okD(5) [OF v] .
  have le: "unat a + (n + n') \<le> 2 ^ 64" using u by (simp add: user_buf_def clear_def)
  have tl: "file_at fs cs j = ?F (k + n + j)" for j using file_at_Cons(2) [OF z, of c cs j] k by simp
  have im: "file_at fs cs ` {0..<0 + n'} = ?F ` {k + n..<k + n + n'}"
  proof -
    have "file_at fs cs = ?F \<circ> (+) (k + n)" using tl by (simp add: fun_eq_iff)
    then show ?thesis by (simp only: image_comp [symmetric] image_add_atLeastLessThan) (simp add: add.commute)
  qed
  have s1: "same_outside (?F ` {k..<k + n} \<union> bytes_at sec 512 \<union> free_bytes bs) b b1"
    and s3: "same_outside (?F ` {k + n..<k + n + n'} \<union> bytes_at sec 512 \<union> free_bytes bs) b2 b3"
    using p1 p2 unfolding im [symmetric] by (simp_all add: put_def)
  have s12: "same_outside (?F ` {k..<k + n} \<union> bytes_at sec 512 \<union> free_bytes bs) b b2"
    using same_outside_trans [OF s1 so] by blast
  have inF: "?F j \<in> dev_bytes (fs_bdev fs)" "?F j \<notin> ?S" if "j < k + n + n'" for j
    using file_at_dev [OF v ch(1), of j] that k n' vol_okD(3,8) [OF v] by (auto simp: clear_def)
  have "same_outside (?F ` {k..<k + (n + n')} \<union> bytes_at sec 512 \<union> free_bytes bs) b b3"
    by (rule same_outside_trans [OF s12 s3]) auto
  moreover have "b_mem b3 (?F (k + i)) = b_mem b (a + of_nat i)" if i: "i < n + n'" for i
  proof (cases "i < n")
    case True
    have "?F (k + i) \<noteq> ?F j" if "k + n \<le> j" "j < k + n + n'" for j
      using file_at_inj [OF v ch, of "k + i" j] that True k n' by auto
    then have "?F (k + i) \<notin> ?F ` {k + n..<k + n + n'}" by fastforce
    then have "b_mem b3 (?F (k + i)) = b_mem b1 (?F (k + i))"
      using same_outsideD [OF s3] same_outsideD [OF so] inF(2) [of "k + i"] True by simp
    then show ?thesis using p1 True by (simp add: put_def)
  next
    case False
    define j where "j = i - n"
    have j: "i = n + j" "j < n'" using False i by (simp_all add: j_def)
    have "b_mem b3 (?F (k + n + j)) = b_mem b2 (a + of_nat n + of_nat j)" using p2 j(2) unfolding put_def by (simp flip: tl)
    moreover have x: "a + of_nat (n + j) \<in> bytes_at a (n + n')" using j le by (intro bytes_at_offset) simp_all
    have "a + of_nat (n + j) \<notin> ?F ` {k..<k + n} \<union> bytes_at sec 512 \<union> free_bytes bs"
      using x u inF(1) by (auto simp: user_buf_def clear_def)
    then have "b_mem b2 (a + of_nat (n + j)) = b_mem b (a + of_nat (n + j))" by (rule same_outsideD [OF s12])
    ultimately show ?thesis using j(1) by (simp add: add.assoc)
  qed
  ultimately show ?thesis by (simp add: put_def)
qed


lemma next_cluster_ok:
  assumes "vol_ok fs bs sec" "fchain fs (b_mem b) (c # c' # cs)"
  obtains m' where "next_cluster sec fs b c = Some (b\<lparr>b_mem := m'\<rparr>, c')" "\<And>x. x \<notin> bytes_at sec 512 \<Longrightarrow> m' x = b_mem b x" "c' \<noteq> 0"
proof -
  have e: "has_entry fs c" "fat_at fs (b_mem b) c = c'" "c' \<noteq> 0" "c' \<noteq> EOC"
    using assms(2) has_cluster_not_end [OF assms(1)] fchain_first [of fs "b_mem b" c' cs] by auto
  obtain m' where "fat_get sec fs b c = (b\<lparr>b_mem := m'\<rparr>, c')" "\<And>x. x \<notin> bytes_at sec 512 \<Longrightarrow> m' x = b_mem b x"
    using fat_get_ok [OF assms(1) e(1)] e(2) by metis
  then show ?thesis using that e(3,4) by (simp add: next_cluster_def fat_is_eoc_def)
qed

lemma write_loop_part:
  assumes v: "vol_ok fs bs sec" "dev_writable (fs_bdev fs)" and h: "heap_at (b_heap b) bs" and ch: "fchain fs (b_mem b) (c # cs)"
    and sk: "unat skip < csz fs" and dn: "dn < len" and u: "user_buf fs bs sec (buf + dn) (unat (len - dn))"
    and n: "n = take_bytes fs skip len dn"
  obtains b1 where "write_part_cluster fs b c skip (buf + dn) (unat n) = Some (b1, True)" "heap_at (b_heap b1) bs"
    "put fs bs sec (c # cs) b (unat skip) (buf + dn) (unat n) b1" "unat n = min (unat (len - dn)) (csz fs - unat skip)"
    "unat n \<le> unat (len - dn)" "0 < unat n"
proof -
  have c: "has_cluster fs c" using fchain_first [OF ch] by simp
  have n': "unat n = min (unat (len - dn)) (csz fs - unat skip)" unfolding n by (rule take_bytes_unat [OF v(1) sk dn])
  have "0 < unat (len - dn)" using dn by (simp add: unat_gt_0)
  then have pos: "0 < unat n" using n' sk by simp
  have cl: "clear (fs_bdev fs) bs (buf + dn) (unat n)" using u n' clear_le [of "fs_bdev fs" bs "buf + dn"] by (auto simp: user_buf_def)
  have le: "unat skip + unat n \<le> csz fs" using n' sk by simp
  obtain b1 where "write_part_cluster fs b c skip (buf + dn) (unat n) = Some (b1, True)" "heap_at (b_heap b1) bs"
    "moved_out (fs_bdev fs) bs b (clus_pos fs c + unat skip) (buf + dn) (unat n) b1"
    using write_part_cluster_ok [OF v c h le cl] by blast
  then show ?thesis using that moved_out_put [OF _ le] n' pos by auto
qed

lemma write_loop_ok:
  assumes v: "vol_ok fs bs sec" "fat_first fs" "dev_writable (fs_bdev fs)" and h: "heap_at (b_heap b) bs"
    and ch: "fchain fs (b_mem b) (c # cs)" "distinct (c # cs)" and sk: "unat skip < csz fs"
    and dn: "dn < len" and room: "unat skip + unat (len - dn) \<le> csz fs * length (c # cs)"
    and u: "user_buf fs bs sec (buf + dn) (unat (len - dn))"
  shows "\<exists>b'. write_loop sec fs b c buf skip len dn = Some (b', True) \<and> heap_at (b_heap b') bs \<and>
    put fs bs sec (c # cs) b (unat skip) (buf + dn) (unat (len - dn)) b'"
  using h ch sk dn room u
proof (induction cs arbitrary: b c skip dn)
  case Nil
  let ?n = "take_bytes fs skip len dn"
  obtain b1 where b1: "write_part_cluster fs b c skip (buf + dn) (unat ?n) = Some (b1, True)" "heap_at (b_heap b1) bs"
    "put fs bs sec [c] b (unat skip) (buf + dn) (unat ?n) b1" "unat ?n = min (unat (len - dn)) (csz fs - unat skip)"
    using write_loop_part [OF v(1,3) Nil.prems(1,2,4,5,7) refl] by metis
  have "unat ?n = unat (len - dn)" using b1(4) Nil.prems(6) by simp
  then have "?n = len - dn" by (simp only: word_unat_eq_iff)
  then show ?case using b1 Nil.prems(5) by (subst write_loop.simps) simp
next
  case (Cons c' cs)
  let ?n = "take_bytes fs skip len dn"
  obtain b1 where b1: "write_part_cluster fs b c skip (buf + dn) (unat ?n) = Some (b1, True)" "heap_at (b_heap b1) bs"
    "put fs bs sec (c # c' # cs) b (unat skip) (buf + dn) (unat ?n) b1" "unat ?n = min (unat (len - dn)) (csz fs - unat skip)"
    "unat ?n \<le> unat (len - dn)" "0 < unat ?n"
    using write_loop_part [OF v(1,3) Cons.prems(1,2,4,5,7) refl] by metis
  show ?case
  proof (cases "unat ?n = unat (len - dn)")
    case True
    then have "?n = len - dn" by (simp only: word_unat_eq_iff)
    then show ?thesis using b1 Cons.prems(5) by (subst write_loop.simps) simp
  next
    case False
    let ?u = "user_buf fs bs sec"
    have n: "unat skip + unat ?n = csz fs" using False b1(4) Cons.prems(4) by simp
    have w: "unat (dn + ?n) = unat dn + unat ?n" "unat (len - (dn + ?n)) = unat (len - dn) - unat ?n" "dn + ?n < len"
      using add_within [OF Cons.prems(5) b1(5)] False by auto
    have so1: "same_outside (file_at fs (c # c' # cs) ` {unat skip..<unat skip + unat ?n} \<union> bytes_at sec 512 \<union> free_bytes bs) b b1"
      using b1(3) by (simp add: put_def)
    have f1: "same_fat fs (b_mem b) (b_mem b1)" using n by (intro put_fat [OF v(1,2) Cons.prems(2) _ so1]) simp
    have ch1: "fchain fs (b_mem b1) (c # c' # cs)" by (rule fchain_same [OF v(1) f1 Cons.prems(2)])
    obtain m2 where m2: "next_cluster sec fs b1 c = Some (b1\<lparr>b_mem := m2\<rparr>, c')" "\<And>x. x \<notin> bytes_at sec 512 \<Longrightarrow> m2 x = b_mem b1 x" "c' \<noteq> 0"
      using next_cluster_ok [OF v(1) ch1] by blast
    let ?b2 = "b1\<lparr>b_mem := m2\<rparr>"
    have so2: "same_outside (bytes_at sec 512) b1 ?b2" using m2(2) by (simp add: same_outside_def)
    have "fchain fs (b_mem ?b2) (c # c' # cs)" using fchain_same [OF v(1) same_disk_fat [OF v(1) sec_disk [OF v(1) m2(2)]] ch1] by simp
    then have ch2: "fchain fs (b_mem ?b2) (c' # cs)" "distinct (c' # cs)" using Cons.prems(3) by simp_all
    have u2: "?u (buf + (dn + ?n)) (unat (len - (dn + ?n)))"
      using user_buf_part [OF Cons.prems(7), of "unat ?n" "unat (len - (dn + ?n))"] w(2,3) b1(5) False by (simp add: add.assoc)
    have room2: "unat (0 :: u64) + unat (len - (dn + ?n)) \<le> csz fs * length (c' # cs)" using Cons.prems(6) n w(2) b1(5) by simp
    obtain b3 where b3: "write_loop sec fs ?b2 c' buf 0 len (dn + ?n) = Some (b3, True)" "heap_at (b_heap b3) bs"
      "put fs bs sec (c' # cs) ?b2 (unat (0 :: u64)) (buf + (dn + ?n)) (unat (len - (dn + ?n))) b3"
      using Cons.IH [OF _ ch2 _ w(3) room2 u2] b1(2) vol_okD(5) [OF v(1)] by auto
    have "put fs bs sec (c # c' # cs) b (unat skip) (buf + dn) (unat ?n + unat (len - (dn + ?n))) b3"
      by (rule put_trans [OF v(1) _ n Cons.prems(2,3) b1(3) so2])
        (use Cons.prems(6,7) b1(5) w(2) b3(3) n in \<open>auto simp: add.assoc\<close>)
    moreover have "write_loop sec fs b c buf skip len dn = Some (b3, True)"
      using b1(1) Cons.prems(5) w(3) [unfolded not_le [symmetric]] m2(1,3) b3(1) by (subst write_loop.simps) (simp add: Let_def)
    ultimately show ?thesis using b3(2) w(2) b1(5) by simp
  qed
qed

lemma chain_end_ok:
  assumes v: "vol_ok fs bs sec" and ch: "fchain fs (b_mem b) (c # cs)" "fat_at fs (b_mem b) (last (c # cs)) \<in> {0, EOC}"
  shows "\<exists>m'. chain_end sec fs b c (fat_at fs (b_mem b) c) count = Some (b\<lparr>b_mem := m'\<rparr>, last (c # cs), count + of_nat (length cs)) \<and>
    (\<forall>x. x \<notin> bytes_at sec 512 \<longrightarrow> m' x = b_mem b x)"
  using ch
proof (induction cs arbitrary: b c count)
  case Nil
  then have "chain_end sec fs b c (fat_at fs (b_mem b) c) count = Some (b, c, count)"
    by (subst chain_end.simps) (auto simp: fat_is_eoc_def)
  then show ?case by (intro exI [of _ "b_mem b"]) simp
next
  case (Cons c' cs)
  have c': "fat_at fs (b_mem b) c = c'" "fchain fs (b_mem b) (c' # cs)" "has_entry fs c'" "c' \<noteq> 0" "c' \<noteq> EOC"
    using Cons.prems(1) has_cluster_not_end [OF v] fchain_first [of fs "b_mem b" c' cs] by auto
  obtain m1 where m1: "fat_get sec fs b c' = (b\<lparr>b_mem := m1\<rparr>, fat_at fs (b_mem b) c')"
    "\<And>x. x \<notin> bytes_at sec 512 \<Longrightarrow> m1 x = b_mem b x" using fat_get_ok [OF v c'(3)] by metis
  have sf: "same_fat fs (b_mem b) m1" by (rule same_disk_fat [OF v sec_disk [OF v m1(2)]])
  have "has_entry fs (last (c' # cs))" using fchain_nth [OF c'(2), of "length cs"] last_conv_nth [of "c' # cs"] by simp
  then have l: "fat_at fs m1 (last (c' # cs)) \<in> {0, EOC}" "fat_at fs m1 c' = fat_at fs (b_mem b) c'"
    using fat_at_same [OF v _ sf] Cons.prems(2) c'(3) by auto
  have "\<exists>m'. chain_end sec fs (b\<lparr>b_mem := m1\<rparr>) c' (fat_at fs m1 c') (count + 1) =
      Some (b\<lparr>b_mem := m'\<rparr>, last (c' # cs), count + 1 + of_nat (length cs)) \<and> (\<forall>x. x \<notin> bytes_at sec 512 \<longrightarrow> m' x = m1 x)"
    using Cons.IH [of "b\<lparr>b_mem := m1\<rparr>" c' "count + 1"] fchain_same [OF v sf c'(2)] l(1) by simp
  then obtain m2 where m2: "chain_end sec fs (b\<lparr>b_mem := m1\<rparr>) c' (fat_at fs (b_mem b) c') (count + 1) =
      Some (b\<lparr>b_mem := m2\<rparr>, last (c' # cs), count + 1 + of_nat (length cs))" "\<forall>x. x \<notin> bytes_at sec 512 \<longrightarrow> m2 x = m1 x"
    unfolding l(2) by blast
  then have "chain_end sec fs b c c' count = Some (b\<lparr>b_mem := m2\<rparr>, last (c # c' # cs), count + of_nat (length (c' # cs)))"
    using m1(1) c'(4,5) by (subst chain_end.simps) (simp add: fat_is_eoc_def add.assoc)
  moreover have "\<forall>x. x \<notin> bytes_at sec 512 \<longrightarrow> m2 x = b_mem b x" using m2(2) m1(2) by simp
  ultimately show ?case unfolding c'(1) by blast
qed


lemma ensure_chain_ok:
  assumes v: "vol_ok fs bs sec" and ch: "fchain fs (b_mem b) (c # cs)" "fat_at fs (b_mem b) (last (c # cs)) \<in> {0, EOC}"
    and n: "unat needed \<le> length (c # cs)" "length (c # cs) < 2 ^ 64"
  shows "\<exists>m'. ensure_chain_length sec fs b c needed = Some (b\<lparr>b_mem := m'\<rparr>, c, last (c # cs)) \<and>
    (\<forall>x. x \<notin> bytes_at sec 512 \<longrightarrow> m' x = b_mem b x)"
proof -
  have c: "has_entry fs c" "\<not> c < 2" using fchain_first [OF ch(1)] has_cluster_not_end [OF v] by (auto simp: not_less)
  obtain m1 where m1: "fat_get sec fs b c = (b\<lparr>b_mem := m1\<rparr>, fat_at fs (b_mem b) c)" "\<And>x. x \<notin> bytes_at sec 512 \<Longrightarrow> m1 x = b_mem b x"
    using fat_get_ok [OF v c(1)] by metis
  have sf: "same_fat fs (b_mem b) m1" by (rule same_disk_fat [OF v sec_disk [OF v m1(2)]])
  have "has_entry fs (last (c # cs))" using fchain_nth [OF ch(1), of "length cs"] last_conv_nth [of "c # cs"] by simp
  then have l: "fat_at fs m1 (last (c # cs)) \<in> {0, EOC}" "fat_at fs m1 c = fat_at fs (b_mem b) c"
    using fat_at_same [OF v _ sf] ch(2) c(1) by auto
  have "\<exists>m'. chain_end sec fs (b\<lparr>b_mem := m1\<rparr>) c (fat_at fs m1 c) 1 = Some (b\<lparr>b_mem := m'\<rparr>, last (c # cs), 1 + of_nat (length cs)) \<and>
      (\<forall>x. x \<notin> bytes_at sec 512 \<longrightarrow> m' x = m1 x)"
    using chain_end_ok [OF v, of "b\<lparr>b_mem := m1\<rparr>" c cs 1] fchain_same [OF v sf ch(1)] l(1) by simp
  then obtain m2 where m2: "chain_end sec fs (b\<lparr>b_mem := m1\<rparr>) c (fat_at fs (b_mem b) c) 1 =
      Some (b\<lparr>b_mem := m2\<rparr>, last (c # cs), 1 + of_nat (length cs))" "\<forall>x. x \<notin> bytes_at sec 512 \<longrightarrow> m2 x = m1 x" unfolding l(2) by blast
  have "unat (1 + of_nat (length cs) :: u64) = length (c # cs)" using n(2) u64_of_nat_unat [of "length (c # cs)"] by simp
  then have "extend_chain sec fs (b\<lparr>b_mem := m2\<rparr>) (last (c # cs)) (1 + of_nat (length cs)) needed = Some (b\<lparr>b_mem := m2\<rparr>, last (c # cs))"
    using n(1) by (subst extend_chain.simps) (simp add: word_less_nat_alt)
  then have "ensure_chain_length sec fs b c needed = Some (b\<lparr>b_mem := m2\<rparr>, c, last (c # cs))"
    using c(2) m1(1) m2(1) by (simp add: ensure_chain_length_def)
  moreover have "\<forall>x. x \<notin> bytes_at sec 512 \<longrightarrow> m2 x = b_mem b x" using m2(2) m1(2) by simp
  ultimately show ?thesis by blast
qed

lemma write_seek_ok:
  assumes "vol_ok fs bs sec" "fchain fs (b_mem b) cls" "n < length cls"
  shows "\<exists>m'. write_seek sec fs b (cls ! 0) n = Some (b\<lparr>b_mem := m'\<rparr>, cls ! n) \<and> (\<forall>x. x \<notin> bytes_at sec 512 \<longrightarrow> m' x = b_mem b x)"
  using assms(2,3)
proof (induction n arbitrary: b cls)
  case 0
  show ?case by (intro exI [of _ "b_mem b"]) simp
next
  case (Suc n)
  then obtain c c' cs where cls: "cls = c # c' # cs" by (cases cls; cases "tl cls") auto
  obtain m1 where m1: "next_cluster sec fs b c = Some (b\<lparr>b_mem := m1\<rparr>, c')" "\<And>x. x \<notin> bytes_at sec 512 \<Longrightarrow> m1 x = b_mem b x" "c' \<noteq> 0"
    using next_cluster_ok [OF assms(1)] Suc.prems(1) unfolding cls by blast
  have "fchain fs m1 (c' # cs)"
    using fchain_same [OF assms(1) same_disk_fat [OF assms(1) sec_disk [OF assms(1) m1(2)]] Suc.prems(1)] by (simp add: cls)
  then have "\<exists>m'. write_seek sec fs (b\<lparr>b_mem := m1\<rparr>) c' n = Some (b\<lparr>b_mem := m'\<rparr>, (c' # cs) ! n) \<and> (\<forall>x. x \<notin> bytes_at sec 512 \<longrightarrow> m' x = m1 x)"
    using Suc.IH [of "b\<lparr>b_mem := m1\<rparr>" "c' # cs"] Suc.prems(2) by (simp add: cls)
  then show ?case using m1 by (auto simp: cls)
qed

section \<open>The directory entry\<close>

definition clus_bytes :: "exfat_fs \<Rightarrow> u32 \<Rightarrow> u64 set" where
  "clus_bytes fs c = dev_at (fs_bdev fs) ` {clus_pos fs c..<clus_pos fs c + csz fs}"

lemma find_stream_bound: "find_stream m dir n first i = Some j \<Longrightarrow> j + 64 \<le> n"
proof (induction m dir n first i rule: find_stream.induct)
  case (1 m dir n first i)
  show ?case using 1(2) by (subst (asm) find_stream.simps) (auto split: if_splits intro: 1(1))
qed

lemma store_outside:
  assumes "x \<notin> bytes_at a N" "unat k + n \<le> N" "N < 2 ^ 64"
  shows "store_le n m (a + k) v x = m x"
  using bytes_at_part [OF assms(2), of a] assms by (subst store_le_apply) (auto simp: bytes_at_def)


text \<open>Writing back the directory's cluster from a buffer of the free heap.\<close>

lemma write_cluster_ok:
  assumes v: "vol_ok fs bs sec" "dev_writable (fs_bdev fs)" and c: "has_cluster fs cl"
    and t: "tmp \<noteq> 0" "bytes_at tmp (csz fs) \<subseteq> free_bytes bs"
  shows "\<exists>m3. write_cluster fs b cl tmp = (b\<lparr>b_mem := m3\<rparr>, True) \<and>
    (\<forall>j < csz fs. m3 (dev_at (fs_bdev fs) (clus_pos fs cl + j)) = b_mem b (tmp + of_nat j)) \<and>
    (\<forall>x. x \<notin> clus_bytes fs cl \<longrightarrow> m3 x = b_mem b x)"
proof -
  let ?d = "fs_bdev fs" and ?s = "sectors_per_cluster fs" and ?lba = "ucast (cl_to_lba fs cl) :: u64"
  note o = vol_okD [OF v(1)] and r = cluster_run [OF v(1) c]
  have s: "unat ?s * dev_ss ?d = csz fs" using o(4) by (simp add: csz_def)
  have dj: "bytes_at tmp (unat ?s * dev_ss ?d) \<inter> dev_bytes ?d = {}" using t(2) o(3) s by auto
  obtain m3 where m3: "dev_write ?d (b_mem b) ?lba tmp ?s = (m3, int (unat ?s))"
    "\<And>k. k < unat ?s * dev_ss ?d \<Longrightarrow> m3 (dev_at ?d (unat ?lba * dev_ss ?d + k)) = b_mem b (tmp + of_nat k)"
    "\<And>x. x \<notin> dev_at ?d ` {unat ?lba * dev_ss ?d..<(unat ?lba + unat ?s) * dev_ss ?d} \<Longrightarrow> m3 x = b_mem b x"
    using dev_write_sectors [OF o(2) v(2) r(8,5) t(1) r(6) dj, of "b_mem b"] by blast
  have "(unat ?lba + unat ?s) * dev_ss ?d = clus_pos fs cl + csz fs" using r(7) s by (simp add: add_mult_distrib)
  then have keep: "m3 x = b_mem b x" if "x \<notin> clus_bytes fs cl" for x
    using m3(3) [of x] that r(7) by (simp add: clus_bytes_def)
  have data: "m3 (dev_at ?d (clus_pos fs cl + j)) = b_mem b (tmp + of_nat j)" if "j < csz fs" for j
    using m3(2) [of j] that s r(7) by simp
  have "write_cluster fs b cl tmp = (b\<lparr>b_mem := m3\<rparr>, True)" using m3(1) r(9) by (simp add: write_cluster_def)
  then show ?thesis using keep data by blast
qed

lemma dir_update_ok:
  assumes v: "vol_ok fs bs sec" "dev_writable (fs_bdev fs)" and c: "has_cluster fs (root_dir_cluster fs)" and h: "heap_at (b_heap b) bs"
  shows "\<exists>b' rc. dir_update_stream_by_first_cluster fs b old new sz = Some (b', rc) \<and> heap_at (b_heap b') bs \<and>
    same_outside (clus_bytes fs (root_dir_cluster fs) \<union> free_bytes bs) b b'"
proof -
  let ?d = "fs_bdev fs" and ?s = "sectors_per_cluster fs" and ?cl = "root_dir_cluster fs"
  let ?lba = "ucast (cl_to_lba fs ?cl) :: u64"
  note o = vol_okD [OF v(1)] and r = cluster_run [OF v(1) c]
  obtain h1 tmp h2 m1 where t: "kmalloc (b_heap b) (ucast (cluster_size fs)) = Some (h1, tmp)" "tmp \<noteq> 0"
    "kfree h1 tmp = Some h2" "heap_at h2 bs" "dev_read ?d (b_mem b) ?lba tmp ?s = (m1, int (unat ?s))"
    and rd0: "\<And>k. k < unat (ucast (cluster_size fs) :: u64) \<Longrightarrow> m1 (tmp + of_nat k) = b_mem b (dev_at ?d (unat ?lba * dev_ss ?d + k))"
    and m1: "\<And>x. x \<notin> free_bytes bs \<Longrightarrow> m1 x = b_mem b x"
    and sub0: "bytes_at tmp (unat (ucast (cluster_size fs) :: u64)) \<subseteq> free_bytes bs"
    using run_buffer [OF o(1) h r(1-6)] by blast
  note sub = sub0 [unfolded o(9)]
  have rd: "read_cluster fs (b\<lparr>b_heap := h1\<rparr>) ?cl tmp = (b\<lparr>b_heap := h1, b_mem := m1\<rparr>, True)"
    using t(5) r(9) by (simp add: read_cluster_def)
  show ?thesis
  proof (cases "find_stream m1 tmp (csize fs) old 0")
    case None
    then have "dir_update_stream_by_first_cluster fs b old new sz = Some (b\<lparr>b_heap := h2, b_mem := m1\<rparr>, -1)"
      using t(1-3) rd by (simp add: dir_update_stream_by_first_cluster_def)
    then show ?thesis using t(4) m1 by (auto simp: same_outside_def)
  next
    case (Some i)
    have i: "i + 64 \<le> csz fs" using find_stream_bound [OF Some] o(11) by simp
    define m2 where "m2 = store64 (if new \<ge> 2 \<and> new \<noteq> old then store32 m1 (tmp + of_nat (i + 52)) new else m1) (tmp + of_nat (i + 56)) sz"
    have u: "unat (of_nat (i + 52) :: u64) = i + 52" "unat (of_nat (i + 56) :: u64) = i + 56"
      using i o(6) by (intro u64_of_nat_unat; simp)+
    have m2: "m2 x = b_mem b x" if "x \<notin> free_bytes bs" for x
    proof -
      have "x \<notin> bytes_at tmp (csz fs)" using that sub by blast
      then show ?thesis unfolding m2_def store64_def store32_def using i o(6) u m1 [OF that]
        by (simp add: store_outside [of x tmp "csz fs"])
    qed
    obtain m3 where m3: "write_cluster fs (b\<lparr>b_heap := h1, b_mem := m2\<rparr>) ?cl tmp = (b\<lparr>b_heap := h1, b_mem := m3\<rparr>, True)"
      "\<forall>x. x \<notin> clus_bytes fs ?cl \<longrightarrow> m3 x = m2 x"
      using write_cluster_ok [OF v c t(2) sub, of "b\<lparr>b_heap := h1, b_mem := m2\<rparr>"] by auto
    have "dir_update_stream_by_first_cluster fs b old new sz = Some (b\<lparr>b_heap := h2, b_mem := m3\<rparr>, 0)"
      using t(1-3) rd m3(1) Some unfolding m2_def
      by (cases "new \<ge> 2 \<and> new \<noteq> old") (auto simp: dir_update_stream_by_first_cluster_def Let_def)
    then show ?thesis using t(4) m3(2) m2 by (auto simp: same_outside_def)
  qed
qed


section \<open>Writing a file\<close>

lemma clus_bytes_heap: "vol_ok fs bs sec \<Longrightarrow> has_cluster fs c \<Longrightarrow> clus_bytes fs c \<subseteq> heap_bytes fs"
  using cluster_range(3) [of fs bs sec c] by (force simp: clus_bytes_def heap_bytes_def clus_pos_def)

lemma file_not_root:
  assumes v: "vol_ok fs bs sec" and ch: "fchain fs m cls" "k < csz fs * length cls" and r: "has_cluster fs r" "r \<notin> set cls"
  shows "file_at fs cls k \<notin> clus_bytes fs r"
proof
  assume "file_at fs cls k \<in> clus_bytes fs r"
  then obtain j where j: "dev_at (fs_bdev fs) (disk_pos fs cls k) = dev_at (fs_bdev fs) j" "clus_pos fs r \<le> j" "j < clus_pos fs r + csz fs"
    by (auto simp: clus_bytes_def file_at_pos)
  have "j < 512 * dev_sectors (fs_bdev fs)" using j(3) cluster_range(3) [OF v r(1)] by linarith
  then have e: "clus_pos fs (cls ! (k div csz fs)) + k mod csz fs = clus_pos fs r + (j - clus_pos fs r)"
    using dev_at_eq [OF v disk_pos_bound [OF v ch]] j(1,2) by (simp add: disk_pos_def)
  have l: "k div csz fs < length cls" using ch(2) by (simp add: less_mult_imp_div_less mult.commute)
  have "cls ! (k div csz fs) = r"
    using clus_pos_inj [OF _ r(1) _ _ e] fchain_nth [OF ch(1) l] vol_okD(5) [OF v] j(2,3) by auto
  then show False using nth_mem [OF l] r(2) by simp
qed

lemma clusters_needed:
  assumes "x \<le> z * L" "0 < z"
  shows "(x + z - 1) div z \<le> (L :: nat)"
proof -
  have "(x + z - 1) div z \<le> (z * L + (z - 1)) div z" using assms by (intro div_le_mono) simp
  also have "\<dots> = L" using assms(2) by (subst div_mult_self4) simp_all
  finally show ?thesis .
qed

text \<open>Sizes stay far from the end of the 64-bit range: a volume has less than \<open>2 ^ 32\<close> clusters.\<close>

lemma chain_bytes:
  assumes "vol_ok fs bs sec" "distinct (cls :: u32 list)"
  shows "length cls \<le> 2 ^ 32" "csz fs * length cls < 2 ^ 50"
proof -
  have "card (set cls) \<le> CARD(u32)" by (rule card_mono) simp_all
  then show l: "length cls \<le> 2 ^ 32" using distinct_card [OF assms(2)] by (simp add: card_word)
  have "csz fs * length cls \<le> 2 ^ 17 * 2 ^ 32" using vol_okD(6) [OF assms(1)] l by (intro mult_le_mono) simp_all
  then show "csz fs * length cls < 2 ^ 50" by simp
qed

lemma write_end:
  assumes v: "vol_ok fs bs sec" "distinct (cls :: u32 list)" and e: "unat (off :: u64) + unat len \<le> csz fs * length cls"
  shows "unat (off + len) = unat off + unat len" "unat ((off + len + ucast (cluster_size fs) - 1) div ucast (cluster_size fs)) \<le> length cls"
proof -
  let ?z = "ucast (cluster_size fs) :: u64"
  note o = vol_okD [OF v(1)] and c = chain_bytes [OF v]
  show s: "unat (off + len) = unat off + unat len" using e c(2) by (subst unat_add_small) simp_all
  have s2: "unat (off + len + ?z) = unat off + unat len + csz fs" using e c(2) s o(6,9) by (subst unat_add_small) simp_all
  then have "unat (off + len + ?z - 1) = unat off + unat len + csz fs - 1"
    using o(5) by (subst unat_sub) (simp_all add: word_le_nat_alt)
  then show "unat ((off + len + ?z - 1) div ?z) \<le> length cls"
    using clusters_needed [OF e o(5)] o(9) by (simp add: unat_div)
qed


text \<open>Finding the first cluster and writing along the chain.\<close>

lemma write_data_ok:
  assumes v: "vol_ok fs bs sec" "fat_first fs" "dev_writable (fs_bdev fs)" and h: "heap_at (b_heap b) bs"
    and ch: "fchain fs (b_mem b) cls" "distinct cls"
    and e: "unat off + unat len \<le> csz fs * length cls" "0 < len" and u: "user_buf fs bs sec buf (unat len)"
  obtains b2 b3 where
    "write_seek sec fs b (cls ! 0) (unat (off div ucast (cluster_size fs))) = Some (b2, cls ! (unat off div csz fs))"
    "write_loop sec fs b2 (cls ! (unat off div csz fs)) buf (off mod ucast (cluster_size fs)) len 0 = Some (b3, True)"
    "heap_at (b_heap b3) bs" "put fs bs sec cls b (unat off) buf (unat len) b3"
proof -
  let ?z = "ucast (cluster_size fs) :: u64" and ?i = "unat off div csz fs"
  note o = vol_okD [OF v(1)]
  have len: "0 < unat len" using e(2) by (simp add: word_less_nat_alt)
  have il: "?i < length cls" using e len by (simp add: less_mult_imp_div_less mult.commute)
  have q: "unat (off div ?z) = ?i" "unat (off mod ?z) = unat off mod csz fs" using o(9) by (simp_all add: unat_div unat_mod)
  obtain m2 where m2: "write_seek sec fs b (cls ! 0) ?i = Some (b\<lparr>b_mem := m2\<rparr>, cls ! ?i)"
    "\<forall>x. x \<notin> bytes_at sec 512 \<longrightarrow> m2 x = b_mem b x" using write_seek_ok [OF v(1) ch(1) il] by auto
  have c2: "fchain fs m2 cls" using fchain_same [OF v(1) same_disk_fat [OF v(1) sec_disk [OF v(1)]] ch(1)] m2(2) by blast
  have so: "same_outside (bytes_at sec 512) b (b\<lparr>b_mem := m2\<rparr>)" using m2(2) by (simp add: same_outside_def)
  obtain ds where ds: "drop ?i cls = cls ! ?i # ds" using Cons_nth_drop_Suc [OF il] by metis
  have at: "file_at fs (cls ! ?i # ds) (unat off mod csz fs + j) = file_at fs cls (unat off + j)" for j
    using file_at_drop [OF o(5) il, of j] by (simp add: ds)
  have c3: "fchain fs (b_mem (b\<lparr>b_mem := m2\<rparr>)) (cls ! ?i # ds)" "distinct (cls ! ?i # ds)"
    using fchain_drop [OF c2 il] distinct_drop [OF ch(2), of ?i] by (simp_all add: ds)
  have room: "unat (off mod ?z) + unat (len - 0) \<le> csz fs * length (cls ! ?i # ds)"
    using room_drop [OF il e(1)] len unfolding ds q(2) by simp
  obtain b3 where b3: "write_loop sec fs (b\<lparr>b_mem := m2\<rparr>) (cls ! ?i) buf (off mod ?z) len 0 = Some (b3, True)" "heap_at (b_heap b3) bs"
    "put fs bs sec (cls ! ?i # ds) (b\<lparr>b_mem := m2\<rparr>) (unat off mod csz fs) buf (unat len) b3"
    using write_loop_ok [OF v _ c3 _ e(2) room, of buf] h u q(2) o(5) by auto
  have im: "file_at fs (cls ! ?i # ds) ` {unat off mod csz fs..<unat off mod csz fs + unat len} = file_at fs cls ` {unat off..<unat off + unat len}"
  proof -
    have "file_at fs (cls ! ?i # ds) \<circ> (+) (unat off mod csz fs) = file_at fs cls \<circ> (+) (unat off)" using at by (simp add: fun_eq_iff)
    then have "file_at fs (cls ! ?i # ds) ` ((+) (unat off mod csz fs) ` {0..<unat len}) = file_at fs cls ` ((+) (unat off) ` {0..<unat len})"
      by (simp only: image_comp)
    then show ?thesis by (simp only: image_add_atLeastLessThan) (simp add: add.commute)
  qed
  have so3: "same_outside (file_at fs cls ` {unat off..<unat off + unat len} \<union> bytes_at sec 512 \<union> free_bytes bs) (b\<lparr>b_mem := m2\<rparr>) b3"
    using b3(3) unfolding put_def im by simp
  have "b_mem b3 (file_at fs cls (unat off + i)) = b_mem b (buf + of_nat i)" if i: "i < unat len" for i
  proof -
    have "buf + of_nat i \<in> bytes_at buf (unat len)" using i u64_bound [of len] by (intro bytes_at_offset) simp_all
    then have "buf + of_nat i \<notin> bytes_at sec 512" using u by (auto simp: user_buf_def)
    then show ?thesis using b3(3) i same_outsideD [OF so] at by (simp add: put_def)
  qed
  moreover have "same_outside (file_at fs cls ` {unat off..<unat off + unat len} \<union> bytes_at sec 512 \<union> free_bytes bs) b b3"
    by (rule same_outside_trans [OF so so3]) auto
  ultimately have "put fs bs sec cls b (unat off) buf (unat len) b3" by (simp add: put_def)
  then show ?thesis using that [of "b\<lparr>b_mem := m2\<rparr>" b3] m2(1) b3(1,2) q(1) by simp
qed

text \<open>Writing once the chain is long enough: \<open>b1\<close> is the state then.\<close>

lemma exfat_write_from:
  assumes v: "vol_ok fs bs sec" "fat_first fs" "dev_writable (fs_bdev fs)" and h: "heap_at (b_heap b1) bs"
    and r: "has_cluster fs (root_dir_cluster fs)" "root_dir_cluster fs \<notin> set cls"
    and en: "file_priv n = Exfat_Node en" "first_cluster en = cls ! 0" "\<not> en_is_dir en" "unat (en_size en) = sz"
      "fs_priv n = Priv_Exfat fs" "sz \<le> csz fs * length cls"
    and f: "fchain fs (b_mem b1) cls" "distinct cls" "fat_at fs (b_mem b1) (last cls) = t"
    and ens: "ensure_chain_length sec fs b (cls ! 0) ((off + len + ucast (cluster_size fs) - 1) div ucast (cluster_size fs)) = Some (b1, cls ! 0, last cls)"
    and e: "unat off + unat len \<le> csz fs * length cls" "0 < len" "unat len < 2 ^ 31" and u: "user_buf fs bs sec buf (unat len)"
  shows "\<exists>b' n'. exfat_write sec b n off buf len = Some (b', n', int (unat len)) \<and> heap_at (b_heap b') bs \<and>
    open_file fs (b_mem b') n' cls (max sz (unat off + unat len)) \<and> fat_at fs (b_mem b') (last cls) = t \<and>
    (\<forall>i < unat len. b_mem b' (file_at fs cls (unat off + i)) = b_mem b1 (buf + of_nat i)) \<and>
    same_outside (file_at fs cls ` {unat off..<unat off + unat len} \<union> clus_bytes fs (root_dir_cluster fs) \<union> bytes_at sec 512 \<union> free_bytes bs) b1 b' \<and>
    (\<exists>b3 sz' rc. unat sz' = max sz (unat off + unat len) \<and> heap_at (b_heap b3) bs \<and>
      same_outside (file_at fs cls ` {unat off..<unat off + unat len} \<union> bytes_at sec 512 \<union> free_bytes bs) b1 b3 \<and>
      dir_update_stream_by_first_cluster fs b3 (cls ! 0) (cls ! 0) sz' = Some (b', rc))"
proof -
  let ?W = "file_at fs cls ` {unat off..<unat off + unat len}" and ?R = "clus_bytes fs (root_dir_cluster fs)"
  obtain b2 b3 where st:
    "write_seek sec fs b1 (cls ! 0) (unat (off div ucast (cluster_size fs))) = Some (b2, cls ! (unat off div csz fs))"
    "write_loop sec fs b2 (cls ! (unat off div csz fs)) buf (off mod ucast (cluster_size fs)) len 0 = Some (b3, True)"
    "heap_at (b_heap b3) bs" and p: "put fs bs sec cls b1 (unat off) buf (unat len) b3"
    by (rule write_data_ok [OF v h f(1,2) e(1,2) u])
  define sz' where "sz' = (if off + len > en_size en then off + len else en_size en)"
  have sz': "unat sz' = max sz (unat off + unat len)"
    using write_end(1) [OF v(1) f(2) e(1)] en(4) by (simp add: sz'_def word_less_nat_alt max_def)
  obtain b4 rc where b4: "dir_update_stream_by_first_cluster fs b3 (cls ! 0) (cls ! 0) sz' = Some (b4, rc)" "heap_at (b_heap b4) bs"
    "same_outside (?R \<union> free_bytes bs) b3 b4" using dir_update_ok [OF v(1,3) r(1) st(3)] by metis
  have so3: "same_outside (?W \<union> bytes_at sec 512 \<union> free_bytes bs) b1 b3" using p by (simp add: put_def)
  have so: "same_outside (?W \<union> ?R \<union> bytes_at sec 512 \<union> free_bytes bs) b1 b4"
    by (rule same_outside_trans [OF so3 b4(3)]) blast+
  have W: "?W \<subseteq> heap_bytes fs" using e(1) file_heap_bytes [OF v(1) f(1)] by fastforce
  have sf: "same_fat fs (b_mem b1) (b_mem b4)"
    using W clus_bytes_heap [OF v(1) r(1)] by (intro fat_keep [OF v(1,2) same_outside_mono [OF so]]) blast
  have ne: "cls \<noteq> []" using f(1) by (cases cls) simp_all
  then have l: "has_entry fs (last cls)" using fchain_nth [OF f(1)] last_conv_nth [OF ne] by simp
  have il: "unat off div csz fs < length cls" using e by (simp add: less_mult_imp_div_less mult.commute word_less_nat_alt)
  have ends: "cls ! i \<noteq> 0" if "i < length cls" for i using fchain_nth [OF f(1) that] has_cluster_not_end [OF v(1)] by blast
  have nz: "cls ! 0 \<noteq> 0" "last cls \<noteq> 0" "cls ! (unat off div csz fs) \<noteq> 0"
    using ends [of 0] ends [OF il] ends [of "length cls - 1"] ne by (simp_all add: last_conv_nth)
  have z: "buf \<noteq> 0" "cluster_size fs \<noteq> 0" "len \<noteq> 0" using u vol_okD(5) [OF v(1)] v(1) e(2) by (auto simp: user_buf_def clear_def vol_ok_def)
  let ?n = "n\<lparr>file_priv := Exfat_Node (en\<lparr>first_cluster := cls ! 0, en_size := sz'\<rparr>)\<rparr>"
  have "exfat_write sec b n off buf len = Some (b4, ?n, int (unat len))"
    using en(1-3,5) z ens st(1,2) nz b4(1) u64_to_int [OF e(3)]
    by (cases "off + len > en_size en") (simp_all add: exfat_write_def Let_def sz'_def)
  moreover have "open_file fs (b_mem b4) ?n cls (max sz (unat off + unat len))"
    using en(3,5,6) e(1) sz' fchain_same [OF v(1) sf f(1)] by (simp add: open_file_def)
  moreover have "b_mem b4 (file_at fs cls (unat off + i)) = b_mem b1 (buf + of_nat i)" if i: "i < unat len" for i
  proof -
    have k: "unat off + i < csz fs * length cls" using i e(1) by simp
    have "file_at fs cls (unat off + i) \<notin> ?R \<union> free_bytes bs"
      using file_not_root [OF v(1) f(1) k r] file_at_dev [OF v(1) f(1) k] vol_okD(3) [OF v(1)] by blast
    then show ?thesis using same_outsideD [OF b4(3)] p i by (simp add: put_def)
  qed
  moreover have "fat_at fs (b_mem b4) (last cls) = t" using fat_at_same [OF v(1) l sf] f(3) by simp
  ultimately show ?thesis using so so3 st(3) b4(1,2) sz' by blast
qed

lemma exfat_write_ok:
  assumes v: "vol_ok fs bs sec" "fat_first fs" "dev_writable (fs_bdev fs)" and h: "heap_at (b_heap b) bs"
    and r: "has_cluster fs (root_dir_cluster fs)" "root_dir_cluster fs \<notin> set cls"
    and f: "open_file fs (b_mem b) n cls sz" "distinct cls" "fat_at fs (b_mem b) (last cls) \<in> {0, EOC}"
    and e: "unat off + unat len \<le> csz fs * length cls" "0 < len" "unat len < 2 ^ 31" and u: "user_buf fs bs sec buf (unat len)"
  shows "\<exists>b' n'. exfat_write sec b n off buf len = Some (b', n', int (unat len)) \<and> heap_at (b_heap b') bs \<and>
    open_file fs (b_mem b') n' cls (max sz (unat off + unat len)) \<and> fat_at fs (b_mem b') (last cls) \<in> {0, EOC} \<and>
    (\<forall>i < unat len. b_mem b' (file_at fs cls (unat off + i)) = b_mem b (buf + of_nat i)) \<and>
    same_outside (file_at fs cls ` {unat off..<unat off + unat len} \<union> clus_bytes fs (root_dir_cluster fs) \<union> bytes_at sec 512 \<union> free_bytes bs) b b'"
proof -
  obtain en where en: "file_priv n = Exfat_Node en" "first_cluster en = cls ! 0" "\<not> en_is_dir en" "unat (en_size en) = sz"
    "fs_priv n = Priv_Exfat fs" "sz \<le> csz fs * length cls" and ch: "fchain fs (b_mem b) cls" using f(1) by (auto simp: open_file_def)
  obtain c cs where cls: "cls = c # cs" using ch by (cases cls) auto
  have lb: "length (c # cs) < 2 ^ 64" using chain_bytes(1) [OF v(1) f(2)] unfolding cls by simp
  obtain m1 where m1: "ensure_chain_length sec fs b (cls ! 0) ((off + len + ucast (cluster_size fs) - 1) div ucast (cluster_size fs)) = Some (b\<lparr>b_mem := m1\<rparr>, cls ! 0, last cls)"
    "\<forall>x. x \<notin> bytes_at sec 512 \<longrightarrow> m1 x = b_mem b x"
    using ensure_chain_ok [OF v(1) ch [unfolded cls] f(3) [unfolded cls] write_end(2) [OF v(1) f(2) e(1), unfolded cls] lb] unfolding cls by auto
  let ?b1 = "b\<lparr>b_mem := m1\<rparr>"
  have sf: "same_fat fs (b_mem b) m1" using same_disk_fat [OF v(1) sec_disk [OF v(1)]] m1(2) by blast
  have l: "has_entry fs (last cls)" using fchain_nth [OF ch, of "length cs"] last_conv_nth [of cls] by (simp add: cls)
  have b1: "heap_at (b_heap ?b1) bs" "fchain fs (b_mem ?b1) cls" "fat_at fs (b_mem ?b1) (last cls) = fat_at fs (b_mem b) (last cls)"
    using h fchain_same [OF v(1) sf ch] fat_at_same [OF v(1) l sf] by simp_all
  obtain b' n' where w: "exfat_write sec b n off buf len = Some (b', n', int (unat len))" "heap_at (b_heap b') bs"
    "open_file fs (b_mem b') n' cls (max sz (unat off + unat len))" "fat_at fs (b_mem b') (last cls) = fat_at fs (b_mem b) (last cls)"
    "\<forall>i < unat len. b_mem b' (file_at fs cls (unat off + i)) = b_mem ?b1 (buf + of_nat i)"
    and so: "same_outside (file_at fs cls ` {unat off..<unat off + unat len} \<union> clus_bytes fs (root_dir_cluster fs) \<union> bytes_at sec 512 \<union> free_bytes bs) ?b1 b'"
    using exfat_write_from [OF v b1(1) r en b1(2) f(2) b1(3) m1(1) e u] by blast
  have s1: "same_outside (bytes_at sec 512) b ?b1" using m1(2) by (simp add: same_outside_def)
  have "m1 (buf + of_nat i) = b_mem b (buf + of_nat i)" if i: "i < unat len" for i
  proof -
    have "buf + of_nat i \<in> bytes_at buf (unat len)" using i u64_bound [of len] by (intro bytes_at_offset) simp_all
    then show ?thesis using m1(2) u by (auto simp: user_buf_def)
  qed
  then have "\<forall>i < unat len. b_mem b' (file_at fs cls (unat off + i)) = b_mem b (buf + of_nat i)" using w(5) by simp
  moreover have "same_outside (file_at fs cls ` {unat off..<unat off + unat len} \<union> clus_bytes fs (root_dir_cluster fs) \<union> bytes_at sec 512 \<union> free_bytes bs) b b'"
    by (rule same_outside_trans [OF s1 so]) auto
  ultimately show ?thesis using w(1-4) f(3) by auto
qed

end
