(* ===== verification/Exfat_Dir.thy ===== *)
theory Exfat_Dir
  imports Exfat_Write
begin

text \<open>
  The root directory as a sequence of 32 byte entries: what the scan reads depends on the entries up to
  the end marker only, and a set of entries put at the marker is what the scan finds next.
\<close>

section \<open>Scans up to the end marker\<close>

text \<open>The first \<open>n\<close> bytes at two places are the same.\<close>

definition same_bytes :: "memory \<Rightarrow> u64 \<Rightarrow> memory \<Rightarrow> u64 \<Rightarrow> nat \<Rightarrow> bool" where
  "same_bytes m a m' a' n \<longleftrightarrow> (\<forall>k < n. m' (a' + of_nat k) = m (a + of_nat k))"

lemma same_load:
  assumes "same_bytes m a m' a' n" "i + k \<le> n"
  shows "load_le k m' (a' + of_nat i) = load_le k m (a + of_nat i)"
proof (rule load_le_shift)
  fix j assume "j < k"
  then have "m' (a' + of_nat (i + j)) = m (a + of_nat (i + j))" using assms unfolding same_bytes_def by (metis add_less_le_mono le_less_trans nat_add_left_cancel_less less_le_trans)
  then show "m' (a' + of_nat i + of_nat j) = m (a + of_nat i + of_nat j)" by (simp add: add.assoc)
qed

lemma same_byte: "same_bytes m a m' a' n \<Longrightarrow> i < n \<Longrightarrow> m' (a' + of_nat i) = m (a + of_nat i)"
  by (simp add: same_bytes_def)

lemma same_units:
  assumes "same_bytes m a m' a' n" "i + 32 \<le> n"
  shows "entry_units m' (a' + of_nat i) = entry_units m (a + of_nat i)"
proof -
  have "load16 m' (a' + of_nat i + 2 + of_nat (2 * k)) = load16 m (a + of_nat i + 2 + of_nat (2 * k))" if "k < 15" for k
  proof -
    have e: "x + of_nat i + 2 + of_nat (2 * k) = x + of_nat (i + 2 + 2 * k)" for x :: u64 by (simp add: add.assoc)
    show ?thesis unfolding e load16_def by (rule same_load [OF assms(1)]) (use that assms(2) in simp)
  qed
  then show ?thesis by (simp add: entry_units_def)
qed

lemma dir_end_ge: "i \<le> dir_end m dir n i"
proof (induction m dir n i rule: dir_end.induct)
  case (1 m dir n i)
  then show ?case by (subst dir_end.simps) (auto dest: le_trans [rotated])
qed

lemma dir_end_step: "i + 32 \<le> n \<Longrightarrow> m (dir + of_nat i) \<noteq> 0 \<Longrightarrow> dir_end m dir n i = dir_end m dir n (i + 32)"
  by (subst dir_end.simps) simp

lemma dir_end_stop: "dir_end m dir n i = i \<Longrightarrow> i + 32 \<le> n \<Longrightarrow> m (dir + of_nat i) = 0"
  using dir_end_step [of i n m dir] dir_end_ge [of "i + 32" m dir n] by fastforce

lemma dir_end_cases:
  assumes "dir_end m dir n i = di" "di + 32 \<le> n"
  obtains "i = di" "m (dir + of_nat i) = 0" | "i + 32 \<le> di" "i + 32 \<le> n" "m (dir + of_nat i) \<noteq> 0" "dir_end m dir n (i + 32) = di"
proof (cases "i = di")
  case True
  then show ?thesis using that(1) dir_end_stop assms by metis
next
  case False
  then have "i + 32 \<le> n \<and> m (dir + of_nat i) \<noteq> 0" using assms(1) by (subst (asm) dir_end.simps) (auto split: if_splits)
  moreover from this have "dir_end m dir n (i + 32) = di" using assms(1) dir_end_step by metis
  moreover from this have "i + 32 \<le> di" using dir_end_ge by metis
  ultimately show ?thesis using that(2) by blast
qed

lemma name_run_extend:
  assumes "dir_end m a n j = di" "di + 32 \<le> n" "same_bytes m a m' a' di" "m' (a' + of_nat di) = 0x85"
  shows "name_run units m' a' n j = name_run units m a n j \<and> dir_end m a n (snd (name_run units m a n j)) = di"
  using assms
proof (induction units m a n j rule: name_run.induct)
  case (1 units m a n j)
  show ?case
  proof (cases rule: dir_end_cases [OF "1.prems"(1,2)])
    case 1
    then show ?thesis using "1.prems" by (subst (1 2 3) name_run.simps) simp
  next
    case 2
    note b = same_byte [OF "1.prems"(3), of j] same_units [OF "1.prems"(3), of j]
    show ?thesis
    proof (cases "m (a + of_nat j) = 0xC1")
      case True
      then have "name_run units m' a' n (j + 32) = name_run units m a n (j + 32) \<and> dir_end m a n (snd (name_run units m a n (j + 32))) = di"
        using "1.IH" 2 "1.prems" by blast
      then show ?thesis using True 2 b by (subst (1 2 3) name_run.simps) (simp add: case_prod_beta)
    next
      case False
      then show ?thesis using 2 b "1.prems"(1) by (subst (1 2 3) name_run.simps) simp
    qed
  qed
qed

lemma dir_entries_extend:
  assumes "dir_end m a n i = di" "di + 32 \<le> n" "same_bytes m a m' a' di" "m' (a' + of_nat di) = 0x85"
  shows "dir_entries m' a' n i = dir_entries m a n i @ dir_entries m' a' n di"
  using assms
proof (induction m a n i rule: dir_entries.induct)
  case (1 m a n i)
  show ?case
  proof (cases rule: dir_end_cases [OF "1.prems"(1,2)])
    case 1
    then show ?thesis using "1.prems"(2) by (subst (2) dir_entries.simps) simp
  next
    case 2
    note s = "1.prems"(3)
    note b = same_byte [OF s, of i]
    show ?thesis
    proof (cases "m (a + of_nat i) AND 0x7F = 0x05")
      case False
      then have "dir_entries m' a' n (i + 32) = dir_entries m a n (i + 32) @ dir_entries m' a' n di"
        using "1.IH"(2) 2 "1.prems" by blast
      then show ?thesis using False 2 b by (subst (1 2) dir_entries.simps) (simp add: Let_def)
    next
      case True
      define st where "st = (i + 32 + 32 \<le> n \<and> m (a + of_nat (i + 32)) = 0xC0)"
      define nr where "nr = name_run (filter (\<lambda>ch. ch \<noteq> 0)) m a n (if st then i + 32 + 32 else i + 32)"
      have st: "(i + 32 + 32 \<le> n \<and> m' (a' + of_nat (i + 32)) = 0xC0) = st"
        "st \<Longrightarrow> load32 m' (a' + of_nat (i + 32 + 20)) = load32 m (a + of_nat (i + 32 + 20)) \<and> load64 m' (a' + of_nat (i + 32 + 24)) = load64 m (a + of_nat (i + 32 + 24))"
        "dir_end m a n (if st then i + 32 + 32 else i + 32) = di"
      proof (atomize (full), cases rule: dir_end_cases [OF 2(4) "1.prems"(2)])
        case 1
        then have "\<not> st" "m' (a' + of_nat (i + 32)) \<noteq> 0xC0" using "1.prems"(4) by (auto simp: st_def)
        then show "((i + 32 + 32 \<le> n \<and> m' (a' + of_nat (i + 32)) = 0xC0) = st) \<and>
          (st \<longrightarrow> load32 m' (a' + of_nat (i + 32 + 20)) = load32 m (a + of_nat (i + 32 + 20)) \<and> load64 m' (a' + of_nat (i + 32 + 24)) = load64 m (a + of_nat (i + 32 + 24))) \<and>
          dir_end m a n (if st then i + 32 + 32 else i + 32) = di" using 2(4) by simp
      next
        case j: 2
        have "m' (a' + of_nat (i + 32)) = m (a + of_nat (i + 32))" using same_byte [OF s, of "i + 32"] j(1) by simp
        moreover have "load32 m' (a' + of_nat (i + 32 + 20)) = load32 m (a + of_nat (i + 32 + 20))"
          "load64 m' (a' + of_nat (i + 32 + 24)) = load64 m (a + of_nat (i + 32 + 24))"
          unfolding load32_def load64_def by (rule same_load [OF s]; use j(1) in simp)+
        moreover have "dir_end m a n (if st then i + 32 + 32 else i + 32) = di" using j(4) 2(4) by simp
        ultimately show "((i + 32 + 32 \<le> n \<and> m' (a' + of_nat (i + 32)) = 0xC0) = st) \<and>
          (st \<longrightarrow> load32 m' (a' + of_nat (i + 32 + 20)) = load32 m (a + of_nat (i + 32 + 20)) \<and> load64 m' (a' + of_nat (i + 32 + 24)) = load64 m (a + of_nat (i + 32 + 24))) \<and>
          dir_end m a n (if st then i + 32 + 32 else i + 32) = di" unfolding st_def by simp
      qed
      have nr: "name_run (filter (\<lambda>ch. ch \<noteq> 0)) m' a' n (if st then i + 32 + 32 else i + 32) = nr" "dir_end m a n (snd nr) = di"
        using name_run_extend [OF st(3) "1.prems"(2-4), of "filter (\<lambda>ch. ch \<noteq> 0)"] by (simp_all add: nr_def)
      have IH: "dir_entries m' a' n (snd nr) = dir_entries m a n (snd nr) @ dir_entries m' a' n di"
        using "1.IH"(1) [OF 2(2) refl 2(3) True refl refl _ _ nr(2) "1.prems"(2-4)] by (simp add: st_def nr_def)
      have e: "dir_entries m0 a0 n i = \<lparr>de_first_cluster = (if st then load32 m0 (a0 + of_nat (i + 32 + 20)) else 0),
          de_size = (if st then load64 m0 (a0 + of_nat (i + 32 + 24)) else 0),
          de_is_dir = (load16 m0 (a0 + of_nat (i + 4)) AND 0x10 \<noteq> 0), de_name = take 63 (fst nr)\<rparr> # dir_entries m0 a0 n (snd nr)"
        if "m0 (a0 + of_nat i) = m (a + of_nat i)" "(i + 32 + 32 \<le> n \<and> m0 (a0 + of_nat (i + 32)) = 0xC0) = st"
          "name_run (filter (\<lambda>ch. ch \<noteq> 0)) m0 a0 n (if st then i + 32 + 32 else i + 32) = nr" for m0 a0
        using that 2(2,3) True by (subst dir_entries.simps) (simp only: if_True if_False Let_def simp_thms)
      have l: "load16 m' (a' + of_nat (i + 4)) = load16 m (a + of_nat (i + 4))"
        unfolding load16_def by (rule same_load [OF s]) (use 2(1) in simp)
      have "m' (a' + of_nat i) = m (a + of_nat i)" using b 2(1) by simp
      note e1 = e [OF this st(1) nr(1)] and e2 = e [OF refl _ nr_def [symmetric], of]
      show ?thesis unfolding e1 e2 [OF st_def [symmetric]] IH l using st(2) by (cases st) simp_all
    qed
  qed
qed

text \<open>The scan from \<open>i\<close> on depends on the bytes of the directory from there on only.\<close>

definition same_from :: "memory \<Rightarrow> u64 \<Rightarrow> memory \<Rightarrow> u64 \<Rightarrow> nat \<Rightarrow> nat \<Rightarrow> bool" where
  "same_from m a m' a' n i \<longleftrightarrow> (\<forall>k. i \<le> k \<and> k < n \<longrightarrow> m' (a' + of_nat k) = m (a + of_nat k))"

lemma same_from_le: "same_from m a m' a' n i \<Longrightarrow> i \<le> j \<Longrightarrow> same_from m a m' a' n j"
  by (simp add: same_from_def)

lemma same_bytes_from: "same_bytes m a m' a' n \<Longrightarrow> same_from m a m' a' n i"
  by (simp add: same_from_def same_bytes_def)

lemma from_load:
  assumes "same_from m a m' a' n i" "i \<le> j" "j + k \<le> n"
  shows "load_le k m' (a' + of_nat j) = load_le k m (a + of_nat j)"
proof (rule load_le_shift)
  fix l assume "l < k"
  then have "m' (a' + of_nat (j + l)) = m (a + of_nat (j + l))"
    using assms(2,3) by (intro assms(1) [unfolded same_from_def, rule_format]) simp
  then show "m' (a' + of_nat j + of_nat l) = m (a + of_nat j + of_nat l)" by (simp add: add.assoc)
qed

lemma from_units:
  assumes "same_from m a m' a' n i" "i \<le> j" "j + 32 \<le> n"
  shows "entry_units m' (a' + of_nat j) = entry_units m (a + of_nat j)"
proof -
  have "load16 m' (a' + of_nat j + 2 + of_nat (2 * k)) = load16 m (a + of_nat j + 2 + of_nat (2 * k))" if "k < 15" for k
    using from_load [OF assms(1), of "j + 2 + 2 * k" 2] that assms(2,3) by (simp add: load16_def ac_simps)
  then show ?thesis by (simp add: entry_units_def)
qed

lemma name_run_from:
  assumes "same_from m a m' a' n j"
  shows "name_run units m' a' n j = name_run units m a n j"
  using assms
proof (induction units m a n j rule: name_run.induct)
  case (1 units m a n j)
  show ?case
  proof (cases "j + 32 \<le> n")
    case True
    then have b: "m' (a' + of_nat j) = m (a + of_nat j)" "entry_units m' (a' + of_nat j) = entry_units m (a + of_nat j)"
      using "1.prems" from_units [OF "1.prems", of j] by (simp_all add: same_from_def)
    show ?thesis
    proof (cases "m (a + of_nat j) = 0xC1")
      case True
      then have "name_run units m' a' n (j + 32) = name_run units m a n (j + 32)"
        using "1.IH" \<open>j + 32 \<le> n\<close> same_from_le [OF "1.prems", of "j + 32"] by simp
      then show ?thesis using b by (subst (1 2) name_run.simps) simp
    qed (use b in \<open>subst (1 2) name_run.simps, simp\<close>)
  qed (subst (1 2) name_run.simps, simp)
qed

text \<open>What the entry at \<open>i\<close> gives, with \<open>st\<close> for the presence of its stream entry and \<open>nr\<close> for its name.\<close>

lemma dir_entries_primary:
  assumes "i + 32 \<le> n" "m (a + of_nat i) \<noteq> 0" "m (a + of_nat i) AND 0x7F = 0x05"
    and "st = (i + 32 + 32 \<le> n \<and> m (a + of_nat (i + 32)) = 0xC0)"
    and "nr = name_run (filter (\<lambda>ch. ch \<noteq> 0)) m a n (if st then i + 32 + 32 else i + 32)"
  shows "dir_entries m a n i = \<lparr>de_first_cluster = (if st then load32 m (a + of_nat (i + 32 + 20)) else 0),
      de_size = (if st then load64 m (a + of_nat (i + 32 + 24)) else 0),
      de_is_dir = (load16 m (a + of_nat (i + 4)) AND 0x10 \<noteq> 0), de_name = take 63 (fst nr)\<rparr> # dir_entries m a n (snd nr)"
  using assms by (subst dir_entries.simps) (simp only: if_True if_False Let_def simp_thms)

lemma dir_entries_other:
  "i + 32 \<le> n \<Longrightarrow> m (a + of_nat i) \<noteq> 0 \<Longrightarrow> m (a + of_nat i) AND 0x7F \<noteq> 0x05 \<Longrightarrow> dir_entries m a n i = dir_entries m a n (i + 32)"
  by (subst dir_entries.simps) (simp add: Let_def)

lemma dir_entries_end: "\<not> (i + 32 \<le> n \<and> m (a + of_nat i) \<noteq> 0) \<Longrightarrow> dir_entries m a n i = []"
  by (subst dir_entries.simps) (auto simp: Let_def)

lemma dir_entries_cases [case_names End Other Primary]:
  assumes "\<And>m a n i. \<not> (i + 32 \<le> n \<and> m (a + of_nat i) \<noteq> 0) \<Longrightarrow> P m a n i"
    "\<And>m a n i. i + 32 \<le> n \<Longrightarrow> m (a + of_nat i) \<noteq> 0 \<Longrightarrow> m (a + of_nat i) AND 0x7F \<noteq> 0x05 \<Longrightarrow> P m a n (i + 32) \<Longrightarrow> P m a n i"
    "\<And>m a n i st nr. i + 32 \<le> n \<Longrightarrow> m (a + of_nat i) \<noteq> 0 \<Longrightarrow> m (a + of_nat i) AND 0x7F = 0x05 \<Longrightarrow>
      st = (i + 32 + 32 \<le> n \<and> m (a + of_nat (i + 32)) = 0xC0) \<Longrightarrow>
      nr = name_run (filter (\<lambda>ch. ch \<noteq> 0)) m a n (if st then i + 32 + 32 else i + 32) \<Longrightarrow> P m a n (snd nr) \<Longrightarrow> P m a n i"
  shows "P m a n i"
proof (induction m a n i rule: dir_entries.induct)
  case (1 m a n i)
  show ?case
  proof (cases "i + 32 \<le> n \<and> m (a + of_nat i) \<noteq> 0")
    case True
    then have t: "i + 32 \<le> n" "m (a + of_nat i) \<noteq> 0" by simp_all
    show ?thesis
    proof (cases "m (a + of_nat i) AND 0x7F = 0x05")
      case True
      show ?thesis
        by (rule assms(3) [where m = m and a = a and n = n and i = i, OF t True refl refl]) (rule "1.IH"(1) [OF t(1) refl t(2) True refl refl refl refl])
    next
      case False
      show ?thesis by (rule assms(2) [where m = m and a = a and n = n and i = i, OF t False]) (rule "1.IH"(2) [OF t(1) refl t(2) False])
    qed
  qed (rule assms(1))
qed

lemma dir_entries_from:
  assumes "same_from m a m' a' n i"
  shows "dir_entries m' a' n i = dir_entries m a n i"
  using assms
proof (induction m a n i rule: dir_entries_cases)
  case (End m a n i)
  have "\<not> (i + 32 \<le> n \<and> m' (a' + of_nat i) \<noteq> 0)" using End by (auto simp: same_from_def)
  then show ?case using End by (simp add: dir_entries_end)
next
  case (Other m a n i)
  have "m' (a' + of_nat i) = m (a + of_nat i)" using Other(1,5) by (simp add: same_from_def)
  then show ?case using Other same_from_le [OF Other(5), of "i + 32"] by (simp add: dir_entries_other)
next
  case (Primary m a n i st nr)
  note s = Primary(7)
  have b: "m' (a' + of_nat i) = m (a + of_nat i)" using Primary(1) s by (simp add: same_from_def)
  have "m' (a' + of_nat (i + 32)) = m (a + of_nat (i + 32))" if "i + 32 + 32 \<le> n"
    using that by (intro s [unfolded same_from_def, rule_format]) simp
  then have st: "st = (i + 32 + 32 \<le> n \<and> m' (a' + of_nat (i + 32)) = 0xC0)" using Primary(4) by auto
  have nr: "nr = name_run (filter (\<lambda>ch. ch \<noteq> 0)) m' a' n (if st then i + 32 + 32 else i + 32)"
    unfolding Primary(5) by (rule name_run_from [symmetric]) (rule same_from_le [OF s], simp)
  have "i + 32 \<le> snd nr" using name_run_ge [of "if st then i + 32 + 32 else i + 32" "filter (\<lambda>ch. ch \<noteq> 0)" m a n] Primary(5) by (auto split: if_splits)
  then have IH: "dir_entries m' a' n (snd nr) = dir_entries m a n (snd nr)" using Primary(6) same_from_le [OF s] by simp
  have l: "load16 m' (a' + of_nat (i + 4)) = load16 m (a + of_nat (i + 4))"
    "st \<Longrightarrow> load32 m' (a' + of_nat (i + 32 + 20)) = load32 m (a + of_nat (i + 32 + 20))"
    "st \<Longrightarrow> load64 m' (a' + of_nat (i + 32 + 24)) = load64 m (a + of_nat (i + 32 + 24))"
    unfolding load16_def load32_def load64_def using Primary(1,4) by (intro from_load [OF s]; simp)+
  show ?case
    unfolding dir_entries_primary [OF Primary(1-5)] dir_entries_primary [OF Primary(1) Primary(2,3) [folded b] st nr] IH using l by (cases st) simp_all
qed

lemma dir_entries_same: "same_bytes m a m' a' n \<Longrightarrow> dir_entries m' a' n i = dir_entries m a n i"
  by (rule dir_entries_from [OF same_bytes_from])

lemma name_run_same: "same_bytes m a m' a' n \<Longrightarrow> name_run units m' a' n j = name_run units m a n j"
  by (rule name_run_from [OF same_bytes_from])

section \<open>The entries of a new file\<close>

definition name_unit :: "string \<Rightarrow> nat \<Rightarrow> nat \<Rightarrow> u16" where
  "name_unit q e k = (if 15 * e + k < length q then of_char (q ! (15 * e + k)) else 0)"

lemma fold_units_at:
  assumes "p + 2 + 2 * n < 2 ^ 32" "j < 2 ^ 32"
  shows "fold (\<lambda>k m. store16 m (a + of_nat (p + 2 + k * 2)) (f k)) [0..<n] m (a + of_nat j) =
    (if p + 2 \<le> j \<and> j < p + 2 + 2 * n then ucast (drop_bit (8 * ((j - p - 2) mod 2)) (f ((j - p - 2) div 2))) else m (a + of_nat j))"
  using assms
proof (induction n)
  case (Suc n)
  have s: "p + 2 + n * 2 < 2 ^ 32" using Suc.prems by simp
  let ?F = "\<lambda>n. fold (\<lambda>k m. store16 m (a + of_nat (p + 2 + k * 2)) (f k)) [0..<n] m (a + of_nat j)"
  have step: "?F (Suc n) = (if p + 2 + n * 2 \<le> j \<and> j < p + 2 + n * 2 + 2 then ucast (drop_bit (8 * (j - (p + 2 + n * 2))) (f n)) else ?F n)"
    using store_at [OF Suc.prems(2) s, of 2 _ a "f n"] by (simp add: store16_def del: of_nat_add of_nat_mult of_nat_Suc)
  show ?case
  proof (cases "p + 2 + n * 2 \<le> j \<and> j < p + 2 + n * 2 + 2")
    case True
    then have "j - p - 2 = 2 * n + (j - (p + 2 + n * 2))" "j - (p + 2 + n * 2) < 2" by auto
    then have "(j - p - 2) div 2 = n" "(j - p - 2) mod 2 = j - (p + 2 + n * 2)" by simp_all
    then show ?thesis unfolding step using True by simp
  next
    case False
    then have "?F (Suc n) = ?F n" unfolding step by (rule if_not_P)
    also have "\<dots> = (if p + 2 \<le> j \<and> j < p + 2 + 2 * n then ucast (drop_bit (8 * ((j - p - 2) mod 2)) (f ((j - p - 2) div 2))) else m (a + of_nat j))"
      using Suc by simp
    finally show ?thesis using False by auto
  qed
qed auto

lemma put_name_entry_at:
  assumes "p + 32 < 2 ^ 32" "j < 2 ^ 32"
  shows "put_name_entry q (a + of_nat p) e m (a + of_nat j) =
    (if p + 2 \<le> j \<and> j < p + 32 then ucast (drop_bit (8 * ((j - p - 2) mod 2)) (name_unit q e ((j - p - 2) div 2)))
     else if j = p then 0xC1 else if j = p + 1 then 0 else m (a + of_nat j))"
proof -
  have e: "a + of_nat p + of_nat (2 + k * 2) = a + of_nat (p + 2 + k * 2)" for k by (simp add: add.assoc)
  have m0: "((fill_bytes m (a + of_nat p) 0 32)(a + of_nat p := 0xC1)) (a + of_nat j) =
      (if j = p then 0xC1 else if p \<le> j \<and> j < p + 32 then 0 else m (a + of_nat j))"
    using off_eq [of j p a] fill_at [of j p 32 m a 0] assms by (simp only: fun_upd_apply)
  have "put_name_entry q (a + of_nat p) e m (a + of_nat j) =
      (if p + 2 \<le> j \<and> j < p + 2 + 2 * 15 then ucast (drop_bit (8 * ((j - p - 2) mod 2)) (name_unit q e ((j - p - 2) div 2)))
       else if j = p then 0xC1 else if p \<le> j \<and> j < p + 32 then 0 else m (a + of_nat j))"
    unfolding put_name_entry_def e name_unit_def [symmetric] m0 [symmetric] by (rule fold_units_at) (use assms in simp_all)
  then show ?thesis by auto
qed

lemma load16_bytes:
  assumes "m x = ucast v" "m (x + 1) = ucast (drop_bit 8 v)"
  shows "load16 m x = v"
proof -
  have "load16 m x = ucast (m x) OR push_bit 8 (ucast (m (x + 1)))" by (simp add: load16_def numeral_2_eq_2)
  also have "\<dots> = v"
  proof (rule bit_word_eqI)
    fix n assume "n < LENGTH(16)"
    then show "bit (ucast (m x) OR push_bit 8 (ucast (m (x + 1))) :: u16) n = bit v n"
      unfolding assms by (cases "n < 8") (auto simp: bit_simps)
  qed
  finally show ?thesis .
qed

lemma name_entry_units:
  assumes p: "p + 32 < 2 ^ 32" and b: "\<forall>j. p + 2 \<le> j \<and> j < p + 32 \<longrightarrow>
    m (a + of_nat j) = ucast (drop_bit (8 * ((j - p - 2) mod 2)) (name_unit q e ((j - p - 2) div 2)))"
  shows "entry_units m (a + of_nat p) = map (name_unit q e) [0..<15]"
proof -
  have "load16 m (a + of_nat p + 2 + of_nat (2 * k)) = name_unit q e k" if k: "k < 15" for k
  proof -
    have b0: "m (a + of_nat p + 2 + of_nat (2 * k)) = ucast (name_unit q e k)"
      using b [rule_format, of "p + 2 + 2 * k"] k by (simp add: ac_simps)
    have odd: "Suc (k * 2) mod 2 = 1" by presburger
    have b1: "m (a + of_nat p + 2 + of_nat (2 * k) + 1) = ucast (drop_bit 8 (name_unit q e k))"
      using b [rule_format, of "p + 3 + 2 * k"] k odd by (simp add: ac_simps)
    show ?thesis by (rule load16_bytes [OF b0 b1])
  qed
  then show ?thesis by (simp add: entry_units_def)
qed

definition name_byte :: "string \<Rightarrow> nat \<Rightarrow> nat \<Rightarrow> u8" where
  "name_byte q e i = (if 2 \<le> i then ucast (drop_bit (8 * ((i - 2) mod 2)) (name_unit q e ((i - 2) div 2))) else if i = 0 then 0xC1 else 0)"

lemma put_names_at:
  assumes "p + 32 * n < 2 ^ 32" "j < 2 ^ 32"
  shows "fold (\<lambda>e. put_name_entry q (a + of_nat (p + e * 32)) e) [0..<n] m (a + of_nat j) =
    (if p \<le> j \<and> j < p + 32 * n then name_byte q ((j - p) div 32) ((j - p) mod 32) else m (a + of_nat j))"
  using assms
proof (induction n)
  case (Suc n)
  let ?F = "\<lambda>n. fold (\<lambda>e. put_name_entry q (a + of_nat (p + e * 32)) e) [0..<n] m"
  have s: "p + n * 32 + 32 < 2 ^ 32" using Suc.prems by simp
  have step: "?F (Suc n) (a + of_nat j) = put_name_entry q (a + of_nat (p + n * 32)) n (?F n) (a + of_nat j)" by simp
  show ?case
  proof (cases "p + n * 32 \<le> j \<and> j < p + n * 32 + 32")
    case True
    then have "j - p = 32 * n + (j - (p + n * 32))" "j - (p + n * 32) < 32" by auto
    then have d: "(j - p) div 32 = n" "(j - p) mod 32 = j - (p + n * 32)" by simp_all
    show ?thesis unfolding step put_name_entry_at [OF s Suc.prems(2)] using True by (auto simp: d name_byte_def)
  next
    case False
    then have "?F (Suc n) (a + of_nat j) = ?F n (a + of_nat j)" unfolding step put_name_entry_at [OF s Suc.prems(2)] by auto
    then show ?thesis using Suc False by auto
  qed
qed auto

text \<open>The first two entries.\<close>

definition head_entries :: "nat \<Rightarrow> nat \<Rightarrow> u32 \<Rightarrow> u64 \<Rightarrow> memory \<Rightarrow> memory" where
  "head_entries t l cl a m =
     (let m1 = store16 ((fill_bytes m a 0 32)(a := 0x85, a + 1 := of_nat t)) (a + 4) 0x20;
          m2 = (fill_bytes m1 (a + 32) 0 32)(a + 32 := 0xC0, a + 35 := of_nat l)
      in store64 (store32 m2 (a + 52) cl) (a + 56) 0)"

lemma head_entries_at:
  assumes "d + 64 < 2 ^ 32" "j < 2 ^ 32"
  shows "head_entries t l cl (a + of_nat d) m (a + of_nat j) =
    (if d + 56 \<le> j \<and> j < d + 64 then 0 else if d + 52 \<le> j \<and> j < d + 56 then ucast (drop_bit (8 * (j - (d + 52))) cl)
     else if j = d + 35 then of_nat l else if j = d + 32 then 0xC0 else if d + 32 \<le> j \<and> j < d + 64 then 0
     else if d + 4 \<le> j \<and> j < d + 6 then ucast (drop_bit (8 * (j - (d + 4))) (0x20 :: u16)) else if j = d + 1 then of_nat t
     else if j = d then 0x85 else if d \<le> j \<and> j < d + 32 then 0 else m (a + of_nat j))"
proof -
  have w: "a + of_nat d + 1 = a + of_nat (d + 1)" "a + of_nat d + 4 = a + of_nat (d + 4)" "a + of_nat d + 32 = a + of_nat (d + 32)"
    "a + of_nat d + 35 = a + of_nat (d + 35)" "a + of_nat d + 52 = a + of_nat (d + 52)" "a + of_nat d + 56 = a + of_nat (d + 56)"
    by simp_all
  have b: "d < 2 ^ 32" "d + 1 < 2 ^ 32" "d + 4 < 2 ^ 32" "d + 32 < 2 ^ 32" "d + 35 < 2 ^ 32" "d + 52 < 2 ^ 32" "d + 56 < 2 ^ 32" using assms(1) by simp_all
  have c: "(2 :: nat) \<le> 8" "(4 :: nat) \<le> 8" "(8 :: nat) \<le> 8" "(32 :: nat) \<le> 2 ^ 32" by simp_all
  show ?thesis
    unfolding head_entries_def Let_def w store16_def store32_def store64_def
      store_at [OF assms(2) b(7) c(3)] store_at [OF assms(2) b(6) c(2)] fun_upd_apply off_eq [OF assms(2) b(5)] off_eq [OF assms(2) b(4)]
      fill_at [OF assms(2) b(4) c(4)] store_at [OF assms(2) b(3) c(1)] off_eq [OF assms(2) b(2)] off_eq [OF assms(2) b(1)] fill_at [OF assms(2) b(1) c(4)]
    by auto
qed

lemma put_entries_at:
  assumes "d + 64 + 32 * n < 2 ^ 32" "j < 2 ^ 32" "n = (length q + 14) div 15"
  shows "put_entries q cl (a + of_nat d) m (a + of_nat j) =
    (if d + 64 \<le> j \<and> j < d + 64 + 32 * n then name_byte q ((j - (d + 64)) div 32) ((j - (d + 64)) mod 32)
     else head_entries (1 + n) (length q) cl (a + of_nat d) m (a + of_nat j))"
proof -
  have w: "a + of_nat d + of_nat (64 + e * 32) = a + of_nat (d + 64 + e * 32)" for e by (simp add: add.assoc)
  show ?thesis unfolding put_entries_def Let_def assms(3) [symmetric] w head_entries_def [unfolded Let_def, symmetric]
    by (rule put_names_at [OF assms(1,2)])
qed

section \<open>What the scan reads there\<close>

definition plain_name :: "string \<Rightarrow> bool" where
  "plain_name q \<longleftrightarrow> q \<noteq> [] \<and> (\<forall>c \<in> set q. 0 < (of_char c :: nat) \<and> (of_char c :: nat) < 128)"

lemma chunks: "concat (map (\<lambda>e. take k (drop (k * e) q)) [0..<n]) = take (k * n) q"
  by (induction n) (simp_all add: take_add [symmetric] algebra_simps)

lemma pad_units: "map (\<lambda>k. if k < length r then f (r ! k) else 0) [0..<n] = map f (take n r) @ replicate (n - length r) 0"
  by (rule nth_equalityI) (auto simp: nth_append)

lemma plain_unit:
  assumes "0 < (of_char c :: nat)" "(of_char c :: nat) < 128"
  shows "(of_char c :: u16) \<noteq> 0" "unit_char (of_char c) = c"
proof -
  have "unat (of_nat (of_char c) :: u16) = of_char c" using assms(2) by (simp add: unat_of_nat take_bit_nat_eq_self del: of_nat_of_char)
  then have u: "unat (of_char c :: u16) = of_char c" by (simp only: of_nat_of_char)
  then show "(of_char c :: u16) \<noteq> 0" using assms(1) by (metis less_irrefl unat_0)
  show "unit_char (of_char c) = c" using u assms(2) by (simp add: unit_char_def word_less_nat_alt)
qed

lemma units_chunk:
  assumes "plain_name q"
  shows "map unit_char (filter (\<lambda>ch. ch \<noteq> 0) (map (name_unit q e) [0..<15])) = take 15 (drop (15 * e) q)"
    "map unit_char (takeWhile (\<lambda>ch. ch \<noteq> 0) (map (name_unit q e) [0..<15])) = take 15 (drop (15 * e) q)"
proof -
  let ?r = "drop (15 * e) q"
  have "map (name_unit q e) [0..<15] = map (\<lambda>k. if k < length ?r then of_char (?r ! k) else 0) [0..<15]"
    by (auto simp: name_unit_def)
  also have "\<dots> = map of_char (take 15 ?r) @ replicate (15 - length ?r) 0" by (rule pad_units)
  finally have m: "map (name_unit q e) [0..<15] = map of_char (take 15 ?r) @ replicate (15 - length ?r) 0" .
  have r: "\<forall>c \<in> set (take 15 ?r). (of_char c :: u16) \<noteq> 0 \<and> unit_char (of_char c) = c"
  proof
    fix c assume "c \<in> set (take 15 ?r)"
    then have "c \<in> set q" by (meson in_set_dropD in_set_takeD)
    then show "(of_char c :: u16) \<noteq> 0 \<and> unit_char (of_char c) = c" using plain_unit assms by (auto simp: plain_name_def)
  qed
  then have f: "filter (\<lambda>ch. ch \<noteq> 0) (map of_char (take 15 ?r) :: u16 list) = map of_char (take 15 ?r)"
    by (auto simp: filter_id_conv)
  have "filter (\<lambda>ch. ch \<noteq> 0) (replicate n (0 :: u16)) = []" for n by simp
  then show "map unit_char (filter (\<lambda>ch. ch \<noteq> 0) (map (name_unit q e) [0..<15])) = take 15 (drop (15 * e) q)"
    unfolding m filter_append f using r by (simp add: map_idI)
  have "takeWhile (\<lambda>ch. ch \<noteq> 0) (replicate n (0 :: u16)) = []" for n by (cases n) simp_all
  moreover have "takeWhile (\<lambda>ch. ch \<noteq> 0) (map of_char (take 15 ?r) @ replicate n (0 :: u16)) =
      map of_char (take 15 ?r) @ takeWhile (\<lambda>ch. ch \<noteq> 0) (replicate n 0)" for n using r by (intro takeWhile_append2) auto
  ultimately show "map unit_char (takeWhile (\<lambda>ch. ch \<noteq> 0) (map (name_unit q e) [0..<15])) = take 15 (drop (15 * e) q)"
    unfolding m using r by (simp add: map_idI)
qed

lemma name_run_new:
  assumes e: "\<forall>e < n. m (a + of_nat (p + 32 * e)) = 0xC1 \<and> entry_units m (a + of_nat (p + 32 * e)) = us e"
    and s: "p + 32 * n \<le> sz" "p + 32 * n + 32 \<le> sz \<longrightarrow> m (a + of_nat (p + 32 * n)) \<noteq> 0xC1" and k: "k \<le> n"
  shows "name_run units m a sz (p + 32 * k) = (concat (map (\<lambda>e. map unit_char (units (us e))) [k..<n]), p + 32 * n)"
  using k
proof (induction "n - k" arbitrary: k)
  case 0
  then have "k = n" by simp
  then show ?case using s(2) by (subst name_run.simps) auto
next
  case (Suc d)
  then have k: "k < n" by simp
  have IH: "name_run units m a sz (p + 32 * Suc k) = (concat (map (\<lambda>e. map unit_char (units (us e))) [Suc k..<n]), p + 32 * n)"
    using Suc by (intro Suc.hyps) auto
  have "p + 32 * k + 32 \<le> sz" using k s(1) by simp
  then show ?case using e k IH by (subst name_run.simps) (simp add: upt_conv_Cons ac_simps)
qed

text \<open>The directory after a file was created, and what the scan makes of the new entries.\<close>

definition new_dir :: "string \<Rightarrow> u32 \<Rightarrow> nat \<Rightarrow> nat \<Rightarrow> u64 \<Rightarrow> memory \<Rightarrow> memory" where
  "new_dir q cl d sz a m =
     (let m' = put_entries q cl (a + of_nat d) m; e = d + (2 + (length q + 14) div 15) * 32
      in if e < sz then m'(a + of_nat e := 0) else m')"

definition new_entry :: "string \<Rightarrow> u32 \<Rightarrow> exfat_dirent" where
  "new_entry q cl = \<lparr>de_first_cluster = cl, de_size = 0, de_is_dir = False, de_name = take 63 q\<rparr>"

lemma new_dir_at:
  assumes "n = (length q + 14) div 15" "d + 64 + 32 * n \<le> sz" "sz < 2 ^ 31" "j < sz"
  shows "new_dir q cl d sz a m (a + of_nat j) = (if j = d + 64 + 32 * n then 0
    else if d + 64 \<le> j \<and> j < d + 64 + 32 * n then name_byte q ((j - (d + 64)) div 32) ((j - (d + 64)) mod 32)
    else head_entries (1 + n) (length q) cl (a + of_nat d) m (a + of_nat j))"
proof -
  have e: "d + (2 + (length q + 14) div 15) * 32 = d + 64 + 32 * n" using assms(1) by simp
  have b: "d + 64 + 32 * n < 2 ^ 32" "j < 2 ^ 32" using assms(2-4) by simp_all
  show ?thesis
    unfolding new_dir_def Let_def e if_distribR fun_upd_apply off_eq [OF b(2,1)] put_entries_at [OF b assms(1)] using assms(2,4) by auto
qed

text \<open>What the two scans read from the new entries; \<open>units\<close> is how they read the padding of a name entry.\<close>

lemma new_dir_entries:
  assumes "n = (length q + 14) div 15" "d + 64 + 32 * n \<le> sz" "sz < 2 ^ 31"
    and m': "m' = new_dir q cl d sz a m"
  shows "m' (a + of_nat d) = 0x85" "m' (a + of_nat (d + 32)) = 0xC0" "load16 m' (a + of_nat (d + 4)) = 0x20"
    "load32 m' (a + of_nat (d + 52)) = cl" "load64 m' (a + of_nat (d + 56)) = 0"
    "name_run units m' a sz (d + 64) =
      (concat (map (\<lambda>e. map unit_char (units (map (name_unit q e) [0..<15]))) [0..<n]), d + 64 + 32 * n)"
    "dir_entries m' a sz (d + 64 + 32 * n) = []"
proof -
  let ?m = "new_dir q cl d sz a m" and ?h = "head_entries (1 + n) (length q) cl (a + of_nat d) m"
  note at = new_dir_at [OF assms(1-3), of _ cl a m]
  have b: "d + 64 < 2 ^ 32" using assms(2,3) by simp
  have hd: "?m (a + of_nat (d + i)) = ?h (a + of_nat (d + i))" if "i < 64" for i using at [of "d + i"] that assms(2) by simp
  have ld: "load_le k ?m (a + of_nat (d + i)) = load_le k ?h (a + of_nat (d + i))" if "i + k \<le> 64" for i k
  proof (rule load_le_shift)
    fix j assume "j < k"
    then have "i + j < 64" using that by simp
    from hd [OF this] show "?m (a + of_nat (d + i) + of_nat j) = ?h (a + of_nat (d + i) + of_nat j)" by (simp add: ac_simps)
  qed
  have t: "?m (a + of_nat d) = 0x85" "?m (a + of_nat (d + 32)) = 0xC0"
    using hd [of 0] hd [of 32] head_entries_at [OF b, of d] head_entries_at [OF b, of "d + 32"] b by simp_all
  have l16: "load16 ?m (a + of_nat (d + 4)) = 0x20"
  proof (rule load16_bytes)
    show "?m (a + of_nat (d + 4)) = ucast (0x20 :: u16)" using hd [of 4] head_entries_at [OF b, of "d + 4"] b by simp
    have "?m (a + of_nat (d + 5)) = ucast (drop_bit 8 (0x20 :: u16))" using hd [of 5] head_entries_at [OF b, of "d + 5"] b by simp
    then show "?m (a + of_nat (d + 4) + 1) = ucast (drop_bit 8 (0x20 :: u16))" by (simp add: ac_simps)
  qed
  have w: "a + of_nat d + 52 = a + of_nat (d + 52)" "a + of_nat d + 56 = a + of_nat (d + 56)" by simp_all
  have l64: "load64 ?m (a + of_nat (d + 56)) = 0"
  proof -
    have "load_le 8 ?m (a + of_nat (d + 56)) = (load_le 8 ?h (a + of_nat (d + 56)) :: u64)" by (rule ld) simp
    then show ?thesis unfolding load64_def head_entries_def Let_def w store64_def by (simp add: load_store_same del: of_nat_add)
  qed
  have l32: "load32 ?m (a + of_nat (d + 52)) = cl"
  proof -
    have "(load_le 4 ?h (a + of_nat (d + 52)) :: u32) = load_le 4 (store_le 4 m (a + of_nat (d + 52)) cl) (a + of_nat (d + 52))"
    proof (rule load_le_cong)
      fix i :: nat assume i: "i < 4"
      have x: "a + of_nat (d + 52) + of_nat i = a + of_nat (d + 52 + i)" by simp
      show "?h (a + of_nat (d + 52) + of_nat i) = store_le 4 m (a + of_nat (d + 52)) cl (a + of_nat (d + 52) + of_nat i)"
        unfolding x using i b head_entries_at [OF b, of "d + 52 + i"] store_at [of "d + 52 + i" "d + 52" 4 m a cl] by simp
    qed
    moreover have "(load_le 4 ?m (a + of_nat (d + 52)) :: u32) = load_le 4 ?h (a + of_nat (d + 52))" by (rule ld) simp
    ultimately show ?thesis unfolding load32_def by (simp add: load_store_same del: of_nat_add)
  qed
  have nm: "?m (a + of_nat (d + 64 + 32 * e + i)) = name_byte q e i" if "e < n" "i < 32" for e i
  proof -
    have "d + 64 + 32 * e + i < d + 64 + 32 * n" using that by auto
    then show ?thesis using at [of "d + 64 + 32 * e + i"] assms(2) that by (simp add: add.assoc)
  qed
  have "?m (a + of_nat (d + 64 + 32 * e)) = 0xC1 \<and> entry_units ?m (a + of_nat (d + 64 + 32 * e)) = map (name_unit q e) [0..<15]" if e: "e < n" for e
  proof
    show "?m (a + of_nat (d + 64 + 32 * e)) = 0xC1" using nm [OF e, of 0] by (simp add: name_byte_def)
    show "entry_units ?m (a + of_nat (d + 64 + 32 * e)) = map (name_unit q e) [0..<15]"
    proof (rule name_entry_units)
      have "d + 64 + 32 * e + 32 \<le> d + 64 + 32 * n" using e by simp
      then show "d + 64 + 32 * e + 32 < 2 ^ 32" using assms(2,3) by simp
      show "\<forall>j. d + 64 + 32 * e + 2 \<le> j \<and> j < d + 64 + 32 * e + 32 \<longrightarrow>
        ?m (a + of_nat j) = ucast (drop_bit (8 * ((j - (d + 64 + 32 * e) - 2) mod 2)) (name_unit q e ((j - (d + 64 + 32 * e) - 2) div 2)))"
      proof (intro allI impI)
        fix j assume j: "d + 64 + 32 * e + 2 \<le> j \<and> j < d + 64 + 32 * e + 32"
        then obtain i where i: "j = d + 64 + 32 * e + i" "2 \<le> i" "i < 32" by (metis add.assoc add_leD1 le_Suc_ex nat_add_left_cancel_le nat_add_left_cancel_less)
        then show "?m (a + of_nat j) = ucast (drop_bit (8 * ((j - (d + 64 + 32 * e) - 2) mod 2)) (name_unit q e ((j - (d + 64 + 32 * e) - 2) div 2)))"
          using nm [OF e, of i] by (simp add: name_byte_def)
      qed
    qed
  qed
  moreover have "d + 64 + 32 * n + 32 \<le> sz \<longrightarrow> ?m (a + of_nat (d + 64 + 32 * n)) \<noteq> 0xC1" using at [of "d + 64 + 32 * n"] by simp
  ultimately have "name_run units ?m a sz (d + 64 + 32 * 0) =
      (concat (map (\<lambda>e. map unit_char (units (map (name_unit q e) [0..<15]))) [0..<n]), d + 64 + 32 * n)"
    by (intro name_run_new) (use assms(2) in simp_all)
  then show "name_run units m' a sz (d + 64) =
      (concat (map (\<lambda>e. map unit_char (units (map (name_unit q e) [0..<15]))) [0..<n]), d + 64 + 32 * n)" by (simp add: m')
  show "dir_entries m' a sz (d + 64 + 32 * n) = []"
    unfolding m' using at [of "d + 64 + 32 * n"] by (subst dir_entries.simps) simp
  show "m' (a + of_nat d) = 0x85" "m' (a + of_nat (d + 32)) = 0xC0" "load16 m' (a + of_nat (d + 4)) = 0x20"
    "load32 m' (a + of_nat (d + 52)) = cl" "load64 m' (a + of_nat (d + 56)) = 0"
    unfolding m' using t l16 l32 l64 by blast+
qed

lemma dir_entries_new:
  assumes "plain_name q" "n = (length q + 14) div 15" "d + 64 + 32 * n \<le> sz" "sz < 2 ^ 31"
  shows "dir_entries (new_dir q cl d sz a m) a sz d = [new_entry q cl]"
proof -
  let ?m = "new_dir q cl d sz a m"
  note e = new_dir_entries [OF assms(2-4) refl, where cl = cl and a = a and m = m]
  have "length q \<le> 15 * n" using assms(2) by simp
  then have nr: "name_run (filter (\<lambda>ch. ch \<noteq> 0)) ?m a sz (d + 32 + 32) = (q, d + 64 + 32 * n)"
    using e(6) [where units = "filter (\<lambda>ch. ch \<noteq> 0)"] unfolding units_chunk [OF assms(1)] chunks by (simp add: add.commute)
  have k: "(0x85 :: u8) \<noteq> 0" "(0x85 :: u8) AND 0x7F = 0x05" "(0x20 :: u16) AND 0x10 = 0" by simp_all
  have c: "d + 32 \<le> sz" "d + 32 + 32 \<le> sz" using assms(3) by simp_all
  have p: "d + 32 + 20 = d + 52" "d + 32 + 24 = d + 56" by simp_all
  have "dir_entries ?m a sz d = \<lparr>de_first_cluster = cl, de_size = 0, de_is_dir = False, de_name = take 63 q\<rparr> #
      dir_entries ?m a sz (d + 64 + 32 * n)"
    by (subst dir_entries.simps) (simp only: c e(1-5) k p nr Let_def if_True if_False simp_thms fst_conv snd_conv)
  then show ?thesis by (simp only: e(7) new_entry_def)
qed

text \<open>Creating a file adds its entry at the end of what the scan finds.\<close>

lemma dir_entries_create:
  assumes q: "plain_name q" and d: "d = dir_end m a sz 0" "d + (2 + (length q + 14) div 15) * 32 \<le> sz" "sz < 2 ^ 31"
    and s: "same_bytes (new_dir q cl d sz a m) a m' a' sz"
  shows "dir_entries m' a' sz 0 = dir_entries m a sz 0 @ [new_entry q cl]"
proof -
  define n where "n = (length q + 14) div 15"
  let ?m = "new_dir q cl d sz a m"
  have le: "d + 64 + 32 * n \<le> sz" using d(2) by (simp add: n_def)
  note at = new_dir_at [OF n_def le d(3), of _ cl a m]
  have b: "d + 64 < 2 ^ 32" using le d(3) by simp
  have "same_bytes m a ?m a d" unfolding same_bytes_def
    using at le head_entries_at [OF b] b by simp
  moreover have "?m (a + of_nat d) = 0x85" using at [of d] le head_entries_at [OF b, of d] b by simp
  ultimately have "dir_entries ?m a sz 0 = dir_entries m a sz 0 @ dir_entries ?m a sz d"
    using le d(1) by (intro dir_entries_extend) simp_all
  also have "dir_entries ?m a sz d = [new_entry q cl]" by (rule dir_entries_new [OF q n_def le d(3)])
  finally have "dir_entries ?m a sz 0 = dir_entries m a sz 0 @ [new_entry q cl]" .
  moreover have "dir_entries m' a' sz 0 = dir_entries ?m a sz 0" by (rule dir_entries_same [OF s])
  ultimately show ?thesis by simp
qed

end
