(* ===== verification/Exfat_Alloc.thy ===== *)
theory Exfat_Alloc
  imports Exfat_Dir
begin

text \<open>
  Allocation on a volume: buffers of the heap that are held while others are taken, setting an entry
  of the FAT, and the first free cluster.
\<close>

section \<open>Buffers held\<close>

lemma successively_mid: "successively P (xs @ b # ys) \<Longrightarrow> P = (\<lambda>b c. \<not> (b_free b \<and> b_free c)) \<Longrightarrow> b_free b \<Longrightarrow>
    successively P (xs @ split_blk n b @ ys)"
  by (auto simp: successively_append_iff successively_Cons split_blk_def)

text \<open>A block taken from the heap and kept: what is free afterwards lies in what was free before and
  apart from the block; once it is given back the heap is as before.\<close>

lemma keep_buffer:
  assumes h: "heap_at h bs" and n: "n \<noteq> 0" "unat n + 15 < 2 ^ 64" and f: "fits bs (R + unat n + 63)"
  obtains h1 p bs' where "kmalloc h n = Some (h1, p)" "p \<noteq> 0" "heap_at h1 bs'" "fits bs' R"
    "bytes_at p (unat n) \<subseteq> free_bytes bs" "bytes_at p (unat n) \<inter> free_bytes bs' = {}" "free_bytes bs' \<subseteq> free_bytes bs"
    "\<And>h'. heap_at h' bs' \<Longrightarrow> \<exists>h2. kfree h' p = Some h2 \<and> heap_at h2 bs"
proof -
  have inv: "heap_inv h bs" "coalesced bs" using h by (simp_all add: heap_at_def)
  note t = heap_invD(5,6) [OF inv(1)]
  obtain c where c: "c \<in> set bs" "b_free c" "round16 (R + unat n + 63) \<le> b_size c" using f by (auto simp: fits_def)
  have "((R + 15) div 16 + (unat n + 15) div 16 + 3) * 16 \<le> R + unat n + 63 + 15"
    using div_times_less_eq_dividend [of "R + 15" 16] div_times_less_eq_dividend [of "unat n + 15" 16] by simp
  then have "(R + 15) div 16 + (unat n + 15) div 16 + 3 \<le> (R + unat n + 63 + 15) div 16" by (subst less_eq_div_iff_mult_less_eq) simp_all
  from mult_le_mono1 [OF this, of 16] have "round16 R + round16 (unat n) + 48 \<le> round16 (R + unat n + 63)"
    unfolding round16_def by (simp only: add_mult_distrib)
  then have "round16 R + round16 (unat n) + 48 \<le> b_size c" using c(3) by simp
  from alloc_blocks_room [OF c(1,2) this] obtain q bs' where q: "alloc_blocks (round16 (unat n)) bs = Some (q, bs')"
    "\<exists>b \<in> set bs'. b_free b \<and> round16 R \<le> b_size b" by blast
  then obtain h1 p where a: "kmalloc h n = Some (h1, p)" "p \<noteq> 0" "heap_inv h1 bs'" "unat p = q"
    using kmalloc_refines [OF inv(1) n] by auto
  obtain xs b ys where d: "bs = xs @ b # ys" "bs' = xs @ split_blk (round16 (unat n)) b @ ys" "unat p = b_addr b + 32" "b_free b"
    "round16 (unat n) \<le> b_size b" using alloc_blocks_Some [OF q(1)] a(4) by metis
  have co: "coalesced bs'" using successively_mid [OF _ refl d(4)] inv(2) unfolding d(1,2) by blast
  have le: "unat n \<le> round16 (unat n)" by (auto simp: round16_def)
  have "unat p + unat n \<le> 2 ^ 64" using tiles_addr [OF t(1), of b] d t(2) le by simp
  note in_p = bytes_at_sub [OF this]
  obtain m where m: "(q, m) \<in> live bs'" using alloc_blocks_props(2) [OF q(1) t(1)] by (auto simp: round16_def)
  have ret: "\<exists>h2. kfree h' p = Some h2 \<and> heap_at h2 bs" if "heap_at h' bs'" for h'
    using kfree_refines [of h' bs' p m] that m a(4) alloc_free_blocks [OF q(1) t(1) inv(2)] inv(2) by (auto simp: heap_at_def)
  have fr: "free_bytes bs' \<subseteq> free_bytes bs" unfolding d(1,2) free_bytes_def using d(4) by (auto simp: split_blk_def)
  have sub: "bytes_at p (unat n) \<subseteq> free_bytes bs" using in_p d le by (fastforce simp: free_bytes_def)
  have out: "x \<notin> free_bytes bs'" if x: "x \<in> bytes_at p (unat n)" for x
  proof
    assume "x \<in> free_bytes bs'"
    then obtain c where c: "c \<in> set bs'" "b_free c" "b_addr c + 32 \<le> unat x" "unat x < b_addr c + 32 + b_size c" by (auto simp: free_bytes_def)
    define u where "u = hd (split_blk (round16 (unat n)) b)"
    have u: "u \<in> set bs'" "\<not> b_free u" "b_addr u = b_addr b" "round16 (unat n) \<le> b_size u"
      unfolding u_def d(2) split_blk_def using d(5) by simp_all
    have "tiles (unat (g_heap_base h1)) (unat (g_heap_base h1) + unat (g_heap_size h1)) bs'" by (rule heap_invD(5) [OF a(3)])
    moreover have "c \<noteq> u" using c(2) u(2) by blast
    ultimately have "b_addr c + 32 + b_size c \<le> b_addr u \<or> b_addr u + 32 + b_size u \<le> b_addr c" by (rule tiles_disjoint [OF _ c(1) u(1)])
    then show False using c(3,4) u(3,4) in_p [OF x] d(3) le by linarith
  qed
  show ?thesis by (rule that [OF a(1,2) _ _ sub _ fr ret]) (use a(3) co q(2) out in \<open>auto simp: heap_at_def fits_def\<close>)
qed

text \<open>A volume stays well formed when less of the heap is free.\<close>

lemma vol_ok_less: "vol_ok fs bs sec \<Longrightarrow> free_bytes bs' \<subseteq> free_bytes bs \<Longrightarrow> fits bs' (csz fs) \<Longrightarrow> vol_ok fs bs' sec"
  by (auto simp: vol_ok_def apart_def clear_def)

section \<open>Setting an entry of the FAT\<close>

definition fat_bytes :: "exfat_fs \<Rightarrow> u32 \<Rightarrow> u64 set" where
  "fat_bytes fs cl = dev_at (fs_bdev fs) ` {fat_pos fs cl..<fat_pos fs cl + 4}"

lemma image_at: "p + k < 2 ^ 64 \<Longrightarrow> image d m (of_nat p + of_nat k) = m (dev_at d (p + k))"
  using u64_of_nat_unat [of "p + k"] by (simp add: image_def)

lemma fat_set_ok:
  assumes v: "vol_ok fs bs sec" "dev_writable (fs_bdev fs)" and c: "has_entry fs cl"
  obtains m' where "fat_set sec fs b cl val = (b\<lparr>b_mem := m'\<rparr>, 0)" "fat_at fs m' cl = val"
    "\<And>x. x \<notin> fat_bytes fs cl \<union> bytes_at sec 512 \<Longrightarrow> m' x = b_mem b x"
proof -
  let ?d = "fs_bdev fs" and ?o = "unat (fat_sect_off fs cl)" and ?s = "unat (fat_sector fs cl)" and ?l = "ucast (fat_sector fs cl) :: u64"
  note r = fat_range [OF v(1) c] and o = vol_okD [OF v(1)] and pos = fat_sector_pos(1) [OF v(1) c]
    and m4 = fat_sector_pos(2) [OF v(1) c] and lba = fat_sector_pos(3) [OF v(1) c]
  have u: "unat ?l = ?s" "(ucast (fat_sect_off fs cl) :: u64) = of_nat ?o" by simp_all
  have sec: "sec \<noteq> 0" "bytes_at sec (unat (1 :: u32) * dev_ss ?d) \<inter> dev_bytes ?d = {}" using o(4,8) by (auto simp: clear_def)
  obtain m where m: "dev_read ?d (b_mem b) ?l sec 1 = (m, int (unat (1 :: u32)))"
    "\<And>k. k < unat (1 :: u32) * dev_ss ?d \<Longrightarrow> m (sec + of_nat k) = b_mem b (dev_at ?d (unat ?l * dev_ss ?d + k))"
    "\<And>x. x \<notin> bytes_at sec (unat (1 :: u32) * dev_ss ?d) \<Longrightarrow> m x = b_mem b x"
    using dev_read_sectors [OF o(2) _ _ sec(1) lba sec(2), of "b_mem b"] by auto
  define m1 where "m1 = store32 m (sec + of_nat ?o) val"
  obtain m2 where m2: "dev_write ?d m1 ?l sec 1 = (m2, int (unat (1 :: u32)))"
    "\<And>k. k < unat (1 :: u32) * dev_ss ?d \<Longrightarrow> m2 (dev_at ?d (unat ?l * dev_ss ?d + k)) = m1 (sec + of_nat k)"
    "\<And>x. x \<notin> dev_at ?d ` {unat ?l * dev_ss ?d..<(unat ?l + unat (1 :: u32)) * dev_ss ?d} \<Longrightarrow> m2 x = m1 x"
    using dev_write_sectors [OF o(2) v(2) _ _ sec(1) lba sec(2), of m1] by auto
  have "fat_set sec fs b cl val = (b\<lparr>b_mem := m2\<rparr>, 0)" unfolding fat_set_def u(2) using m(1) m2(1) by (simp add: m1_def)
  moreover have "fat_at fs m2 cl = val"
  proof -
    have "image ?d m2 (of_nat (fat_pos fs cl) + of_nat i) = m1 (sec + of_nat ?o + of_nat i)" if i: "i < 4" for i
      using m2(2) [of "?o + i"] i m4 r(3) pos o(4) by (simp add: image_at add.assoc [symmetric])
    then have "fat_at fs m2 cl = load32 m1 (sec + of_nat ?o)" unfolding fat_at_def load32_def by (rule load_le_shift)
    then show ?thesis by (simp add: m1_def load32_def store32_def load_store_same)
  qed
  moreover have "m2 x = b_mem b x" if x: "x \<notin> fat_bytes fs cl \<union> bytes_at sec 512" for x
  proof (cases "x \<in> dev_at ?d ` {unat ?l * dev_ss ?d..<(unat ?l + unat (1 :: u32)) * dev_ss ?d}")
    case True
    then obtain j where j: "x = dev_at ?d j" "?s * 512 \<le> j" "j < ?s * 512 + 512" using o(4) by auto
    define k where "k = j - ?s * 512"
    have k: "x = dev_at ?d (?s * 512 + k)" "k < 512" using j by (simp_all add: k_def)
    have "\<not> (?o \<le> k \<and> k < ?o + 4)" using x k(1) pos by (auto simp: fat_bytes_def)
    then have "m1 (sec + of_nat k) = m (sec + of_nat k)" unfolding m1_def store32_def using k(2) m4 by (subst store_at) auto
    then show ?thesis using m2(2) [of k] m(2) [of k] k o(4) by simp
  next
    case False
    have "unat (of_nat ?o :: u64) + 4 \<le> 512" using m4 by simp
    then have "m1 x = m x" unfolding m1_def store32_def using x by (intro store_outside [of x sec 512]) simp_all
    then show ?thesis using m2(3) [OF False] m(3) x o(4) by simp
  qed
  ultimately show ?thesis by (rule that)
qed

lemma fat_bytes_dev: "vol_ok fs bs sec \<Longrightarrow> has_entry fs cl \<Longrightarrow> fat_bytes fs cl \<subseteq> dev_bytes (fs_bdev fs)"
  using fat_range(1) [of fs bs sec cl] vol_okD(4) [of fs bs sec] by (auto simp: fat_bytes_def intro!: dev_bytes_512)

text \<open>Changes outside an entry's bytes do not change it.\<close>

lemma fat_at_keep:
  assumes v: "vol_ok fs bs sec" and e: "has_entry fs c" and k: "\<And>x. x \<in> fat_bytes fs c \<Longrightarrow> m' x = m x"
  shows "fat_at fs m' c = fat_at fs m c"
proof -
  have "image (fs_bdev fs) m' (of_nat (fat_pos fs c) + of_nat i) = image (fs_bdev fs) m (of_nat (fat_pos fs c) + of_nat i)" if i: "i < 4" for i
    using k [of "dev_at (fs_bdev fs) (fat_pos fs c + i)"] fat_range(3) [OF v e] i by (simp add: image_at fat_bytes_def)
  then show ?thesis unfolding fat_at_def load32_def by (rule load_le_cong)
qed

lemma fat_bytes_disjoint:
  assumes v: "vol_ok fs bs sec" and e: "has_entry fs c" "has_entry fs c'" "c \<noteq> c'"
  shows "fat_bytes fs c \<inter> fat_bytes fs c' = {}"
proof (rule ccontr)
  assume "fat_bytes fs c \<inter> fat_bytes fs c' \<noteq> {}"
  then obtain i j where ij: "dev_at (fs_bdev fs) (fat_pos fs c + i) = dev_at (fs_bdev fs) (fat_pos fs c' + j)" "i < 4" "j < 4"
    unfolding fat_bytes_def by (auto simp: le_iff_add)
  then have "fat_pos fs c + i = fat_pos fs c' + j"
    using dev_at_eq [OF v, of "fat_pos fs c + i" "fat_pos fs c' + j"] fat_range(1) [OF v e(1)] fat_range(1) [OF v e(2)] by simp
  then have "4 * unat c + i = 4 * unat c' + j" by (simp add: fat_pos_def)
  then have "unat c = unat c'" using ij(2,3) by arith
  then show False using e(3) by (simp add: word_unat_eq_iff)
qed

section \<open>The first free cluster\<close>

definition first_free :: "exfat_fs \<Rightarrow> memory \<Rightarrow> u32 \<Rightarrow> bool" where
  "first_free fs m cl \<longleftrightarrow> has_cluster fs cl \<and> has_entry fs cl \<and> fat_at fs m cl = 0 \<and>
     (\<forall>c. 2 \<le> c \<and> c < cl \<longrightarrow> fat_at fs m c \<noteq> 0)"

text \<open>What the allocation of \<open>cl\<close> changes.\<close>

definition new_cluster :: "exfat_fs \<Rightarrow> blk list \<Rightarrow> u64 \<Rightarrow> u32 \<Rightarrow> block_state \<Rightarrow> block_state \<Rightarrow> bool" where
  "new_cluster fs bs sec cl b b' \<longleftrightarrow> fat_at fs (b_mem b') cl = EOC \<and>
     (\<forall>k < csz fs. b_mem b' (dev_at (fs_bdev fs) (clus_pos fs cl + k)) = 0) \<and>
     same_outside (fat_bytes fs cl \<union> clus_bytes fs cl \<union> bytes_at sec 512 \<union> free_bytes bs) b b'"

lemma fat_heap_disjoint:
  assumes v: "vol_ok fs bs sec" "fat_first fs" and e: "has_entry fs c"
  shows "fat_bytes fs c \<inter> heap_bytes fs = {}"
proof (rule ccontr)
  assume "fat_bytes fs c \<inter> heap_bytes fs \<noteq> {}"
  then obtain i j where ij: "dev_at (fs_bdev fs) i = dev_at (fs_bdev fs) j" "fat_pos fs c \<le> i" "i < fat_pos fs c + 4"
    "512 * unat (cluster_heap_off fs) \<le> j" "j < 512 * dev_sectors (fs_bdev fs)" by (auto simp: fat_bytes_def heap_bytes_def)
  then have "i = j" using dev_at_eq [OF v(1)] fat_range(1) [OF v(1) e] by simp
  then show False using ij(3,4) v(2) e by (simp add: fat_pos_def has_entry_def fat_first_def)
qed

lemma take_cluster_ok:
  assumes v: "vol_ok fs bs sec" "dev_writable (fs_bdev fs)" "fat_first fs" and h: "heap_at (b_heap b) bs"
    and c: "has_cluster fs cl" "has_entry fs cl" "fat_at fs (b_mem b) cl = 0" "cl < entries"
  shows "\<exists>b'. alloc_scan sec fs b cl entries = Some (b', cl) \<and> heap_at (b_heap b') bs \<and> new_cluster fs bs sec cl b b'"
proof -
  note o = vol_okD [OF v(1)] and r = cluster_run [OF v(1) c(1)]
  obtain m1 where m1: "fat_get sec fs b cl = (b\<lparr>b_mem := m1\<rparr>, 0)" "\<And>x. x \<notin> bytes_at sec 512 \<Longrightarrow> m1 x = b_mem b x"
    using fat_get_ok [OF v(1) c(2)] c(3) by metis
  obtain m2 where m2: "fat_set sec fs (b\<lparr>b_mem := m1\<rparr>) cl EOC = (b\<lparr>b_mem := m2\<rparr>, 0)" "fat_at fs m2 cl = EOC"
    "\<And>x. x \<notin> fat_bytes fs cl \<union> bytes_at sec 512 \<Longrightarrow> m2 x = m1 x"
    using fat_set_ok [OF v(1,2) c(2), of "b\<lparr>b_mem := m1\<rparr>" EOC] by auto
  obtain h1 z h2 where z: "kmalloc (b_heap b) (ucast (cluster_size fs)) = Some (h1, z)" "z \<noteq> 0" "kfree h1 z = Some h2" "heap_at h2 bs"
    "bytes_at z (csz fs) \<subseteq> free_bytes bs" using with_buffer [OF h r(2,3,4)] unfolding o(9) by blast
  have cs: "unat (cluster_size fs) = csz fs" using v(1) by (simp add: vol_ok_def)
  define m3 where "m3 = fill_bytes m2 z 0 (unat (cluster_size fs))"
  have f3: "m3 x = (if x \<in> bytes_at z (csz fs) then 0 else m2 x)" for x
    unfolding m3_def cs using o(6) by (subst fill_bytes_apply) simp_all
  obtain m4 where m4: "write_cluster fs (b\<lparr>b_heap := h1, b_mem := m3\<rparr>) cl z = (b\<lparr>b_heap := h1, b_mem := m4\<rparr>, True)"
    "\<forall>j < csz fs. m4 (dev_at (fs_bdev fs) (clus_pos fs cl + j)) = m3 (z + of_nat j)" "\<forall>x. x \<notin> clus_bytes fs cl \<longrightarrow> m4 x = m3 x"
    using write_cluster_ok [OF v(1,2) c(1) z(2,5), of "b\<lparr>b_heap := h1, b_mem := m3\<rparr>"] by auto
  have "alloc_scan sec fs b cl entries = Some (b\<lparr>b_mem := m4, b_heap := h2\<rparr>, cl)"
    using c(4) m1(1) m2(1) z(1-3) m4(1) by (subst alloc_scan.simps) (simp add: m3_def)
  moreover have "m4 (dev_at (fs_bdev fs) (clus_pos fs cl + k)) = 0" if "k < csz fs" for k
    using m4(2) f3 bytes_at_offset [OF that, of z] o(6) that by simp
  moreover have "same_outside (fat_bytes fs cl \<union> clus_bytes fs cl \<union> bytes_at sec 512 \<union> free_bytes bs) b (b\<lparr>b_mem := m4, b_heap := h2\<rparr>)"
    using m4(3) f3 m2(3) m1(2) z(5) by (auto simp: same_outside_def)
  moreover have "fat_at fs m4 cl = fat_at fs m2 cl"
  proof (rule fat_at_keep [OF v(1) c(2)])
    fix x assume x: "x \<in> fat_bytes fs cl"
    then have "x \<notin> clus_bytes fs cl" using fat_heap_disjoint [OF v(1,3) c(2)] clus_bytes_heap [OF v(1) c(1)] by blast
    moreover have "x \<notin> bytes_at z (csz fs)" using x z(5) fat_bytes_dev [OF v(1) c(2)] o(3) by blast
    ultimately show "m4 x = m2 x" using m4(3) f3 by simp
  qed
  ultimately show ?thesis using m2(2) z(4) by (intro exI [of _ "b\<lparr>b_mem := m4, b_heap := h2\<rparr>"]) (simp add: new_cluster_def)
qed

lemma alloc_scan_ok:
  assumes v: "vol_ok fs bs sec" "dev_writable (fs_bdev fs)" "fat_first fs" and h: "heap_at (b_heap b) bs"
    and f: "first_free fs (b_mem b) cl" "cl < entries" "2 \<le> c" "c \<le> cl"
  shows "\<exists>b'. alloc_scan sec fs b c entries = Some (b', cl) \<and> heap_at (b_heap b') bs \<and> new_cluster fs bs sec cl b b'"
  using h f
proof (induction "unat cl - unat c" arbitrary: b c)
  case 0
  then have "c = cl" by (simp add: word_le_nat_alt word_unat_eq_iff)
  then show ?case using take_cluster_ok [OF v "0.prems"(1)] 0 by (simp add: first_free_def)
next
  case (Suc d)
  have lt: "c < cl" using Suc.hyps(2) by (simp add: word_less_nat_alt)
  then have nx: "unat (c + 1) = unat c + 1" using unat_add_small [of c 1] word_less_nat_alt [of c cl] u32_bound [of cl] by simp
  have le: "c + 1 \<le> cl" "2 \<le> c + 1" "d = unat cl - unat (c + 1)" using lt nx Suc.hyps(2) Suc.prems(4) by (simp_all add: word_le_nat_alt word_less_nat_alt)
  have e: "has_entry fs c" "has_entry fs cl" using lt Suc.prems(2) by (auto simp: first_free_def has_entry_def word_less_nat_alt)
  obtain m1 where m1: "fat_get sec fs b c = (b\<lparr>b_mem := m1\<rparr>, fat_at fs (b_mem b) c)" "\<And>x. x \<notin> bytes_at sec 512 \<Longrightarrow> m1 x = b_mem b x"
    using fat_get_ok [OF v(1) e(1)] by metis
  have nz: "fat_at fs (b_mem b) c \<noteq> 0" using Suc.prems(2,4) lt by (simp add: first_free_def)
  have sd: "same_fat fs (b_mem b) m1" by (rule same_disk_fat [OF v(1) sec_disk [OF v(1) m1(2)]])
  have "first_free fs m1 cl"
    using Suc.prems(2) fat_at_same [OF v(1) _ sd] by (auto simp: first_free_def has_entry_def word_less_nat_alt)
  then obtain b' where b': "alloc_scan sec fs (b\<lparr>b_mem := m1\<rparr>) (c + 1) entries = Some (b', cl)" "heap_at (b_heap b') bs"
    "new_cluster fs bs sec cl (b\<lparr>b_mem := m1\<rparr>) b'" using Suc.hyps(1) [of "c + 1" "b\<lparr>b_mem := m1\<rparr>"] le Suc.prems(1,3) by auto
  have "c < entries" using lt Suc.prems(3) by simp
  then have "alloc_scan sec fs b c entries = Some (b', cl)" using b'(1) m1(1) nz by (subst alloc_scan.simps) simp
  moreover have "same_outside (bytes_at sec 512) b (b\<lparr>b_mem := m1\<rparr>)" using m1(2) by (simp add: same_outside_def)
  then have "new_cluster fs bs sec cl b b'" using b'(3) unfolding new_cluster_def by (blast intro: same_outside_trans)
  ultimately show ?case using b'(2) by blast
qed

lemma fat_alloc_ok:
  assumes v: "vol_ok fs bs sec" "dev_writable (fs_bdev fs)" "fat_first fs" and h: "heap_at (b_heap b) bs" and f: "first_free fs (b_mem b) cl"
  shows "\<exists>b'. fat_alloc sec fs b = Some (b', cl) \<and> heap_at (b_heap b') bs \<and> new_cluster fs bs sec cl b b'"
proof -
  have l: "unat (fat_length fs) < 2 ^ 23" "bytes_per_sector fs = 512" using v(1) by (simp_all add: vol_ok_def)
  then have "unat (fat_length fs * bytes_per_sector fs div 4) = unat (fat_length fs) * 128"
    using unat_mult_small [of "fat_length fs" 512] by (simp add: unat_div)
  moreover have c: "has_cluster fs cl" "4 * unat cl + 4 \<le> 512 * unat (fat_length fs)" using f by (simp_all add: first_free_def has_entry_def)
  ultimately have "cl < fat_length fs * bytes_per_sector fs div 4" by (simp add: word_less_nat_alt)
  moreover have "2 \<le> cl" using c(1) by (simp add: has_cluster_def word_le_nat_alt)
  ultimately show ?thesis unfolding fat_alloc_def by (intro alloc_scan_ok [OF v h f]) simp_all
qed

end
