(* ===== verification/Exfat_Files.thy ===== *)
theory Exfat_Files
  imports Exfat_Write
begin

text \<open>
  What reading and writing an open file of an exFAT volume do to the file's bytes.
\<close>

section \<open>A small volume\<close>

text \<open>The RAM disk of 16 sectors: the FAT in sector 1, clusters of one sector from sector 2 on, the
  directory in cluster 2 and a file of 600 bytes in the clusters 3 and 4.\<close>

definition demo_vol :: exfat_fs where
  "demo_vol = \<lparr>fs_bdev = demo_disk, fat_offset = 1, fat_length = 1, cluster_heap_off = 2, bytes_per_sector = 512,
     sectors_per_cluster = 1, cluster_size = 512, root_dir_cluster = 2\<rparr>"

definition demo_image :: memory where
  "demo_image = store32 (store32 demo_mem 0x20020C 4) 0x200210 EOC"

definition demo_fs_store :: block_state where
  "demo_fs_store = demo_store\<lparr>b_mem := demo_image\<rparr>"

definition demo_exfat_file :: node where
  "demo_exfat_file = \<lparr>fops = Exfat_Ops, fs_priv = Priv_Exfat demo_vol,
     file_priv = Exfat_Node \<lparr>first_cluster = 3, en_is_dir = False, en_size = 600\<rparr>\<rparr>"

lemma demo_vol_geometry:
  "fs_bdev demo_vol = demo_disk" "csz demo_vol = 512" "csize demo_vol = 512" "root_dir_cluster demo_vol = 2"
  "has_cluster demo_vol 2" "has_cluster demo_vol 3" "has_cluster demo_vol 4" "has_entry demo_vol 3" "has_entry demo_vol 4"
  "fat_first demo_vol" "clus_pos demo_vol 3 = 1536" "clus_pos demo_vol 4 = 2048"
  by (simp_all add: demo_vol_def csz_def csize_def has_cluster_def has_entry_def fat_first_def clus_pos_def c_int_def demo_store_ok)

lemma demo_low_clear:
  assumes "0x1000 \<le> unat a" "unat a + n \<le> 0x10000"
  shows "clear demo_disk demo_blks a n"
proof -
  have "unat x < 0x10000" if "x \<in> bytes_at a n" for x using bytes_at_sub(2) [OF _ that] assms by simp
  then show ?thesis using assms demo_disk_bytes demo_free_bytes by (fastforce simp: clear_def)
qed

lemma demo_vol_ok: "vol_ok demo_vol demo_blks 0x3000" "heap_at (b_heap demo_fs_store) demo_blks" "dev_writable (fs_bdev demo_vol)"
proof -
  have "fits demo_blks 512" using demo_store_ok by simp
  then show "vol_ok demo_vol demo_blks 0x3000" unfolding vol_ok_def demo_vol_geometry
    using demo_low_clear [of "0x3000" 512] demo_store_ok by (simp add: apart_def demo_vol_def)
  show "heap_at (b_heap demo_fs_store) demo_blks" using demo_store_ok by (simp add: heap_at_def demo_fs_store_def)
  show "dev_writable (fs_bdev demo_vol)" using demo_store_ok by (simp add: demo_vol_geometry)
qed

lemma demo_fat: "fat_at demo_vol demo_image 3 = 4" "fat_at demo_vol demo_image 4 = EOC"
  by code_simp+

lemma demo_open: "open_file demo_vol (b_mem demo_fs_store) demo_exfat_file [3, 4] 600"
  using demo_fat by (simp add: open_file_def demo_exfat_file_def demo_fs_store_def demo_vol_geometry)

lemma demo_user_buf:
  assumes "0x4000 \<le> unat a" "unat a + n \<le> 0x10000"
  shows "user_buf demo_vol demo_blks 0x3000 a n"
proof -
  have "0x4000 \<le> unat x" if "x \<in> bytes_at a n" for x using bytes_at_sub(1) [OF _ that] assms by simp
  moreover have "unat x < 0x3200" if "x \<in> bytes_at 0x3000 512" for x using bytes_at_sub(2) [OF _ that] by simp
  ultimately have "bytes_at a n \<inter> bytes_at 0x3000 512 = {}" by fastforce
  then show ?thesis using demo_low_clear [of a n] assms by (simp add: user_buf_def demo_vol_geometry)
qed

lemma demo_image_at:
  "file_at demo_vol [3, 4] 510 = 0x2007FE" "file_at demo_vol [3, 4] 513 = 0x200801" "demo_image 0x200801 = 1" "demo_image 0x4001 = 1"
  by (simp_all add: file_at_def demo_vol_geometry demo_disk_def dev_geom) code_simp+

lemma file_kept:
  assumes v: "vol_ok fs bs sec" and ch: "fchain fs m cls" "distinct cls" and r: "has_cluster fs r" "r \<notin> set cls"
    and k: "k < csz fs * length cls" "\<not> (p \<le> k \<and> k < p + n)" "p + n \<le> csz fs * length cls"
  shows "file_at fs cls k \<notin> file_at fs cls ` {p..<p + n} \<union> clus_bytes fs r \<union> bytes_at sec 512 \<union> free_bytes bs"
proof -
  have "file_at fs cls k \<noteq> file_at fs cls j" if "p \<le> j" "j < p + n" for j
    using file_at_inj [OF v ch k(1), of j] that k(2,3) by auto
  then have "file_at fs cls k \<notin> file_at fs cls ` {p..<p + n}" by fastforce
  moreover have "file_at fs cls k \<notin> clus_bytes fs r \<union> bytes_at sec 512 \<union> free_bytes bs"
    using file_not_root [OF v ch(1) k(1) r] file_at_dev [OF v ch(1) k(1)] vol_okD(3,8) [OF v] by (auto simp: clear_def)
  ultimately show ?thesis by blast
qed

section \<open>Reading and writing\<close>

text \<open>
  C28. Reading an open file follows its chain of clusters: at any offset the buffer gets the bytes of
  the file from there on, as many as were asked for and the file has, across cluster boundaries;
  that number is returned, the heap is as before and nothing else changes but the buffer, the local
  sector buffer and unused heap memory.
\<close>

theorem exfat_read_bytes:
  assumes v: "vol_ok fs bs sec" and h: "heap_at (b_heap b) bs" and f: "open_file fs (b_mem b) n cls sz" "sz < 2 ^ 31"
    and k: "k = min (unat len) (sz - unat off)" and u: "user_buf fs bs sec buf k"
  shows "\<exists>b'. exfat_read sec b n off buf len = Some (b', int k) \<and> heap_at (b_heap b') bs \<and>
    (\<forall>i < k. b_mem b' (buf + of_nat i) = b_mem b (file_at fs cls (unat off + i))) \<and>
    (\<forall>x. x \<notin> bytes_at buf k \<union> bytes_at sec 512 \<union> free_bytes bs \<longrightarrow> b_mem b' x = b_mem b x)"
  using exfat_read_ok [OF assms] by (auto dest: same_outsideD)

theorem exfat_read_bytes_witness:
  "\<exists>b'. exfat_read 0x3000 demo_fs_store demo_exfat_file 500 0x4000 200 = Some (b', 100) \<and> b_mem b' 0x400D = 1"
proof -
  have u: "user_buf demo_vol demo_blks 0x3000 0x4000 100" by (rule demo_user_buf) simp_all
  obtain b' where b': "exfat_read 0x3000 demo_fs_store demo_exfat_file 500 0x4000 200 = Some (b', int 100)"
    "\<forall>i < 100. b_mem b' (0x4000 + of_nat i) = b_mem demo_fs_store (file_at demo_vol [3, 4] (unat (500 :: u64) + i))"
    using exfat_read_bytes [OF demo_vol_ok(1,2) demo_open _ _ u, of 200 500] by auto
  have "b_mem b' (0x4000 + of_nat 13) = b_mem demo_fs_store (file_at demo_vol [3, 4] (unat (500 :: u64) + 13))"
    by (rule b'(2) [rule_format]) simp
  then show ?thesis using b'(1) demo_image_at by (simp add: demo_fs_store_def)
qed

text \<open>
  Writing within an open file's chain puts the buffer's bytes at the offset, across cluster
  boundaries, and returns their number; the file is as long as before or reaches to the end of what was written;
  every other byte of the file, of the FAT and of the other clusters stays, the directory's apart; the
  chain is still the file's, and the heap is as before.
\<close>

theorem exfat_write_bytes:
  assumes v: "vol_ok fs bs sec" "fat_first fs" "dev_writable (fs_bdev fs)" and h: "heap_at (b_heap b) bs"
    and r: "has_cluster fs (root_dir_cluster fs)" "root_dir_cluster fs \<notin> set cls"
    and f: "open_file fs (b_mem b) n cls sz" "distinct cls" "fat_at fs (b_mem b) (last cls) \<in> {0, EOC}"
    and e: "unat off + unat len \<le> csz fs * length cls" "0 < len" "unat len < 2 ^ 31" and u: "user_buf fs bs sec buf (unat len)"
  shows "\<exists>b' n'. exfat_write sec b n off buf len = Some (b', n', int (unat len)) \<and> heap_at (b_heap b') bs \<and>
    open_file fs (b_mem b') n' cls (max sz (unat off + unat len)) \<and>
    (\<forall>k < csz fs * length cls. b_mem b' (file_at fs cls k) =
       b_mem b (if unat off \<le> k \<and> k < unat off + unat len then buf + of_nat (k - unat off) else file_at fs cls k)) \<and>
    (\<forall>x. x \<notin> file_at fs cls ` {unat off..<unat off + unat len} \<union> clus_bytes fs (root_dir_cluster fs) \<union> bytes_at sec 512 \<union> free_bytes bs \<longrightarrow>
       b_mem b' x = b_mem b x)"
proof -
  obtain b' n' where w: "exfat_write sec b n off buf len = Some (b', n', int (unat len))" "heap_at (b_heap b') bs"
    "open_file fs (b_mem b') n' cls (max sz (unat off + unat len))"
    "\<forall>i < unat len. b_mem b' (file_at fs cls (unat off + i)) = b_mem b (buf + of_nat i)"
    and so: "same_outside (file_at fs cls ` {unat off..<unat off + unat len} \<union> clus_bytes fs (root_dir_cluster fs) \<union> bytes_at sec 512 \<union> free_bytes bs) b b'"
    using exfat_write_ok [OF assms] by blast
  have ch: "fchain fs (b_mem b) cls" using f(1) by (auto simp: open_file_def)
  have "b_mem b' (file_at fs cls k) =
       b_mem b (if unat off \<le> k \<and> k < unat off + unat len then buf + of_nat (k - unat off) else file_at fs cls k)"
    if k: "k < csz fs * length cls" for k
  proof (cases "unat off \<le> k \<and> k < unat off + unat len")
    case True
    then show ?thesis using w(4) [rule_format, of "k - unat off"] by (simp add: less_diff_conv2)
  next
    case False
    have "b_mem b' (file_at fs cls k) = b_mem b (file_at fs cls k)"
      by (rule same_outsideD [OF so file_kept [OF v(1) ch f(2) r k False e(1)]])
    then show ?thesis using False by auto
  qed
  then show ?thesis using w(1-3) same_outsideD [OF so] by blast
qed

theorem exfat_write_bytes_witness:
  "\<exists>b' n'. exfat_write 0x3000 demo_fs_store demo_exfat_file 500 0x4000 300 = Some (b', n', 300) \<and>
     b_mem b' 0x200801 = demo_image 0x400D \<and> open_file demo_vol (b_mem b') n' [3, 4] 800"
proof -
  have u: "user_buf demo_vol demo_blks 0x3000 0x4000 (unat (300 :: u64))" by (rule demo_user_buf) simp_all
  have f: "fat_at demo_vol (b_mem demo_fs_store) (last [3, 4]) \<in> {0, EOC}" using demo_fat by (simp add: demo_fs_store_def)
  obtain b' n' where w: "exfat_write 0x3000 demo_fs_store demo_exfat_file 500 0x4000 300 = Some (b', n', int (unat (300 :: u64)))"
    "open_file demo_vol (b_mem b') n' [3, 4] (max 600 (unat (500 :: u64) + unat (300 :: u64)))"
    "\<forall>k < csz demo_vol * length [3 :: u32, 4]. b_mem b' (file_at demo_vol [3, 4] k) = b_mem demo_fs_store
      (if unat (500 :: u64) \<le> k \<and> k < unat (500 :: u64) + unat (300 :: u64) then 0x4000 + of_nat (k - unat (500 :: u64)) else file_at demo_vol [3, 4] k)"
    using exfat_write_bytes [OF demo_vol_ok(1) demo_vol_geometry(10) demo_vol_ok(3,2) _ _ demo_open _ f _ _ _ u, of 500]
    by (auto simp: demo_vol_geometry)
  have "b_mem b' (file_at demo_vol [3, 4] 513) = demo_image (0x4000 + of_nat (513 - unat (500 :: u64)))"
    using w(3) [rule_format, of 513] by (simp add: demo_vol_geometry demo_fs_store_def)
  then show ?thesis using w(1,2) demo_image_at by simp
qed

text \<open>
  What was written is read back: a read of the range just written returns its length and
  delivers the bytes the write took from its buffer.
\<close>

theorem exfat_write_read:
  assumes v: "vol_ok fs bs sec" "fat_first fs" "dev_writable (fs_bdev fs)" and h: "heap_at (b_heap b) bs"
    and r: "has_cluster fs (root_dir_cluster fs)" "root_dir_cluster fs \<notin> set cls"
    and f: "open_file fs (b_mem b) n cls sz" "distinct cls" "fat_at fs (b_mem b) (last cls) \<in> {0, EOC}"
    and e: "unat off + unat len \<le> csz fs * length cls" "0 < len" "max sz (unat off + unat len) < 2 ^ 31"
    and u: "user_buf fs bs sec buf (unat len)" "user_buf fs bs sec dst (unat len)"
  shows "\<exists>b' n' b''. exfat_write sec b n off buf len = Some (b', n', int (unat len)) \<and>
    exfat_read sec b' n' off dst len = Some (b'', int (unat len)) \<and>
    (\<forall>i < unat len. b_mem b'' (dst + of_nat i) = b_mem b (buf + of_nat i))"
proof -
  obtain b' n' where w: "exfat_write sec b n off buf len = Some (b', n', int (unat len))" "heap_at (b_heap b') bs"
    "open_file fs (b_mem b') n' cls (max sz (unat off + unat len))"
    "\<forall>i < unat len. b_mem b' (file_at fs cls (unat off + i)) = b_mem b (buf + of_nat i)"
    using exfat_write_ok [OF v h r f e(1,2) _ u(1)] e(3) by auto
  have "unat len = min (unat len) (max sz (unat off + unat len) - unat off)" by simp
  then obtain b'' where "exfat_read sec b' n' off dst len = Some (b'', int (unat len))"
    "\<forall>i < unat len. b_mem b'' (dst + of_nat i) = b_mem b' (file_at fs cls (unat off + i))"
    using exfat_read_ok [OF v(1) w(2,3) e(3) _ u(2)] by blast
  then show ?thesis using w(1,4) by auto
qed

theorem exfat_write_read_witness:
  "\<exists>b' n' b''. exfat_write 0x3000 demo_fs_store demo_exfat_file 500 0x4000 300 = Some (b', n', 300) \<and>
     exfat_read 0x3000 b' n' 500 0x6000 300 = Some (b'', 300) \<and> b_mem b'' 0x6001 = 1"
proof -
  have u: "user_buf demo_vol demo_blks 0x3000 0x4000 (unat (300 :: u64))" "user_buf demo_vol demo_blks 0x3000 0x6000 (unat (300 :: u64))"
    by (rule demo_user_buf; simp)+
  have f: "fat_at demo_vol (b_mem demo_fs_store) (last [3, 4]) \<in> {0, EOC}" using demo_fat by (simp add: demo_fs_store_def)
  obtain b' n' b'' where w: "exfat_write 0x3000 demo_fs_store demo_exfat_file 500 0x4000 300 = Some (b', n', int (unat (300 :: u64)))"
    "exfat_read 0x3000 b' n' 500 0x6000 300 = Some (b'', int (unat (300 :: u64)))"
    "\<forall>i < unat (300 :: u64). b_mem b'' (0x6000 + of_nat i) = b_mem demo_fs_store (0x4000 + of_nat i)"
    using exfat_write_read [OF demo_vol_ok(1) demo_vol_geometry(10) demo_vol_ok(3,2) _ _ demo_open _ f _ _ _ u, of 500]
    by (auto simp: demo_vol_geometry)
  show ?thesis using w(1,2) w(3) [rule_format, of 1] demo_image_at by (simp add: demo_fs_store_def)
qed

end
