(* ===== verification/Exfat_Create.thy ===== *)
theory Exfat_Create
  imports Exfat_Alloc Exfat_Files
begin

text \<open>
  Creating a file and opening it: the new entry is appended to the directory, the file gets the first
  free cluster, and the scan of \<open>exfat_open\<close> finds it.
\<close>

section \<open>The root directory on the device\<close>

definition root_pos :: "exfat_fs \<Rightarrow> u64" where
  "root_pos fs = of_nat (clus_pos fs (root_dir_cluster fs))"

definition root_entries :: "exfat_fs \<Rightarrow> memory \<Rightarrow> exfat_dirent list" where
  "root_entries fs m = dir_entries (image (fs_bdev fs) m) (root_pos fs) (csz fs) 0"

definition root_end :: "exfat_fs \<Rightarrow> memory \<Rightarrow> nat" where
  "root_end fs m = dir_end (image (fs_bdev fs) m) (root_pos fs) (csz fs) 0"

lemma dir_end_same:
  assumes "same_bytes m a m' a' n"
  shows "dir_end m' a' n i = dir_end m a n i"
  using assms
proof (induction m a n i rule: dir_end.induct)
  case (1 m a n i)
  then show ?case using same_byte [OF "1.prems", of i] by (subst (1 2) dir_end.simps) auto
qed

lemma root_image:
  assumes "vol_ok fs bs sec" "has_cluster fs (root_dir_cluster fs)" "k < csz fs"
  shows "image (fs_bdev fs) m (root_pos fs + of_nat k) = m (dev_at (fs_bdev fs) (clus_pos fs (root_dir_cluster fs) + k))"
proof -
  have "dev_sectors (fs_bdev fs) < 2 ^ 32" using assms(1) by (simp add: vol_ok_def)
  then show ?thesis unfolding root_pos_def using cluster_range(3) [OF assms(1,2)] assms(3) by (intro image_at) simp
qed

lemma read_cluster_ok:
  assumes v: "vol_ok fs bs sec" and c: "has_cluster fs cl" and t: "tmp \<noteq> 0" "bytes_at tmp (csz fs) \<subseteq> free_bytes bs"
  shows "\<exists>m1. read_cluster fs b cl tmp = (b\<lparr>b_mem := m1\<rparr>, True) \<and>
    (\<forall>k < csz fs. m1 (tmp + of_nat k) = b_mem b (dev_at (fs_bdev fs) (clus_pos fs cl + k))) \<and>
    (\<forall>x. x \<notin> bytes_at tmp (csz fs) \<longrightarrow> m1 x = b_mem b x)"
proof -
  let ?d = "fs_bdev fs" and ?s = "sectors_per_cluster fs" and ?lba = "ucast (cl_to_lba fs cl) :: u64"
  note o = vol_okD [OF v] and r = cluster_run [OF v c]
  have s: "unat ?s * dev_ss ?d = csz fs" using o(4) by (simp add: csz_def)
  have dj: "bytes_at tmp (unat ?s * dev_ss ?d) \<inter> dev_bytes ?d = {}" using t(2) o(3) s by auto
  obtain m1 where m1: "dev_read ?d (b_mem b) ?lba tmp ?s = (m1, int (unat ?s))"
    "\<And>k. k < unat ?s * dev_ss ?d \<Longrightarrow> m1 (tmp + of_nat k) = b_mem b (dev_at ?d (unat ?lba * dev_ss ?d + k))"
    "\<And>x. x \<notin> bytes_at tmp (unat ?s * dev_ss ?d) \<Longrightarrow> m1 x = b_mem b x"
    using dev_read_sectors [OF o(2) r(8,5) t(1) r(6) dj, of "b_mem b"] by blast
  show ?thesis using m1 r(7,9) s by (intro exI [of _ m1]) (simp add: read_cluster_def)
qed

text \<open>The new entries are put inside the buffer.\<close>

lemma fill_outside:
  assumes "x \<notin> bytes_at a N" "unat k + n \<le> N" "N < 2 ^ 64"
  shows "fill_bytes m (a + k) v n x = m x"
proof -
  have "x \<notin> bytes_at (a + k) n" using bytes_at_part [OF assms(2), of a] assms(1,3) by auto
  then show ?thesis using assms(2,3) by (subst fill_bytes_apply) simp_all
qed

lemma upd_outside:
  assumes "x \<notin> bytes_at a N" "unat k < N" "N < 2 ^ 64"
  shows "x \<noteq> a + k"
  using bytes_at_part [of k 1 N a] assms by (auto simp: bytes_at_def)

lemma put_name_outside:
  assumes x: "x \<notin> bytes_at a N" and p: "p + 32 \<le> N" "N < 2 ^ 31"
  shows "put_name_entry q (a + of_nat p) e m x = m x"
proof -
  have u: "unat (of_nat p :: u64) = p" using p by (intro u64_of_nat_unat) simp
  have "fold (\<lambda>k m. store16 m (a + of_nat p + of_nat (2 + k * 2)) (f k)) [0..<n] m0 x = m0 x" if "n \<le> 15" for n m0 f
    using that
  proof (induction n)
    case (Suc n)
    have "unat (of_nat (p + 2 + n * 2) :: u64) = p + 2 + n * 2" using p Suc.prems by (intro u64_of_nat_unat) simp
    then have "store_le 2 m1 (a + of_nat (p + 2 + n * 2)) (f n) x = m1 x" for m1
      using p Suc.prems by (intro store_outside [OF x]) simp_all
    then show ?case using Suc by (simp add: store16_def ac_simps)
  qed simp
  then show ?thesis unfolding put_name_entry_def
    using upd_outside [OF x, of "of_nat p"] fill_outside [OF x, of "of_nat p" 32] u p by simp
qed

lemma new_dir_outside:
  assumes x: "x \<notin> bytes_at a sz" and n: "d + (2 + (length q + 14) div 15) * 32 \<le> sz" "sz < 2 ^ 31"
  shows "new_dir q cl d sz a m x = m x"
proof -
  let ?n = "(length q + 14) div 15"
  have u: "unat (of_nat k :: u64) = k" if "k \<le> sz" for k using that n by (intro u64_of_nat_unat) simp
  have N: "sz < 2 ^ 64" using n by simp
  note st = store_outside [OF x _ N] and fo = fill_outside [OF x _ N] and up = upd_outside [OF x _ N]
  have b: "d + 64 \<le> sz" using n(1) by simp
  have w: "a + of_nat d + 1 = a + of_nat (d + 1)" "a + of_nat d + 4 = a + of_nat (d + 4)" "a + of_nat d + 32 = a + of_nat (d + 32)"
    "a + of_nat d + 35 = a + of_nat (d + 35)" "a + of_nat d + 52 = a + of_nat (d + 52)" "a + of_nat d + 56 = a + of_nat (d + 56)"
    "a + of_nat d + of_nat (64 + e * 32) = a + of_nat (d + 64 + e * 32)" for e
    by (simp_all add: ac_simps)
  have ne: "x \<noteq> a + of_nat k" if "k < sz" for k using up u that by simp
  have ne: "x \<noteq> a + of_nat d" "x \<noteq> a + of_nat (d + 1)" "x \<noteq> a + of_nat (d + 32)" "x \<noteq> a + of_nat (d + 35)"
    using b by (intro ne; simp)+
  have s4: "unat (of_nat (d + 4) :: u64) + 2 \<le> sz" "unat (of_nat (d + 52) :: u64) + 4 \<le> sz" "unat (of_nat (d + 56) :: u64) + 8 \<le> sz"
    "unat (of_nat d :: u64) + 32 \<le> sz" "unat (of_nat (d + 32) :: u64) + 32 \<le> sz" using b u [of "d + 4"] u [of "d + 52"] u [of "d + 56"] u [of d] u [of "d + 32"]
    by (simp_all del: of_nat_add)
  have hd: "head_entries t l cl (a + of_nat d) m x = m x" for t l
    unfolding head_entries_def Let_def w store16_def store32_def store64_def
    by (simp only: st [OF s4(1)] st [OF s4(2)] st [OF s4(3)] fo [OF s4(4)] fo [OF s4(5)] fun_upd_apply ne if_False)
  have "fold (\<lambda>e. put_name_entry q (a + of_nat (d + 64 + e * 32)) e) [0..<k] m0 x = m0 x" if "k \<le> ?n" for k m0
    using that
  proof (induction k)
    case (Suc k)
    have "put_name_entry q (a + of_nat (d + 64 + k * 32)) k m1 x = m1 x" for m1
      using Suc.prems n by (intro put_name_outside [OF x _ n(2)]) simp
    then show ?case using Suc by simp
  qed simp
  moreover have "put_entries q cl (a + of_nat d) m = fold (\<lambda>e. put_name_entry q (a + of_nat d + of_nat (64 + e * 32)) e) [0..<?n]
      (head_entries (1 + ?n) (length q) cl (a + of_nat d) m)" by (simp only: put_entries_def head_entries_def Let_def)
  ultimately have "put_entries q cl (a + of_nat d) m x = m x" unfolding w using hd by (simp del: of_nat_add)
  then show ?thesis unfolding new_dir_def Let_def using up [of "of_nat (d + (2 + ?n) * 32)"] u n by (simp del: of_nat_add of_nat_mult)
qed

section \<open>Creating a file\<close>

text \<open>The directory of \<open>m'\<close> is that of \<open>m\<close> with the entries of the file at its end.\<close>

definition added :: "exfat_fs \<Rightarrow> string \<Rightarrow> u32 \<Rightarrow> memory \<Rightarrow> memory \<Rightarrow> bool" where
  "added fs q cl m m' \<longleftrightarrow> (\<exists>m0 a. same_bytes (image (fs_bdev fs) m) (root_pos fs) m0 a (csz fs) \<and>
     same_bytes (new_dir q cl (root_end fs m) (csz fs) a m0) a (image (fs_bdev fs) m') (root_pos fs) (csz fs))"

text \<open>The volume after the file \<open>q\<close> was created with the cluster \<open>cl\<close>.\<close>

definition created :: "exfat_fs \<Rightarrow> blk list \<Rightarrow> u64 \<Rightarrow> string \<Rightarrow> u32 \<Rightarrow> block_state \<Rightarrow> block_state \<Rightarrow> bool" where
  "created fs bs sec q cl b b' \<longleftrightarrow> root_entries fs (b_mem b') = root_entries fs (b_mem b) @ [new_entry q cl] \<and> added fs q cl (b_mem b) (b_mem b') \<and>
     fat_at fs (b_mem b') cl = EOC \<and> (\<forall>k < csz fs. b_mem b' (dev_at (fs_bdev fs) (clus_pos fs cl + k)) = 0) \<and>
     same_outside (clus_bytes fs (root_dir_cluster fs) \<union> clus_bytes fs cl \<union> fat_bytes fs cl \<union> bytes_at sec 512 \<union> free_bytes bs) b b'"

lemma first_free_same:
  assumes v: "vol_ok fs bs sec" and s: "same_disk fs m m'" and f: "first_free fs m cl"
  shows "first_free fs m' cl"
  using f fat_at_same [OF v _ same_disk_fat [OF v s]] by (auto simp: first_free_def has_entry_def word_less_nat_alt)

text \<open>Writing the directory back from its buffer.\<close>

lemma created_write:
  assumes v: "vol_ok fs bs sec" "dev_writable (fs_bdev fs)" "fat_first fs" and r: "has_cluster fs (root_dir_cluster fs)"
    and c: "has_cluster fs cl" "has_entry fs cl" "cl \<noteq> root_dir_cluster fs"
    and t: "dir \<noteq> 0" "bytes_at dir (csz fs) \<subseteq> free_bytes bs"
    and q: "plain_name q" "d = root_end fs (b_mem b)" "d + (2 + (length q + 14) div 15) * 32 \<le> csz fs"
    and s: "same_bytes (image (fs_bdev fs) (b_mem b)) (root_pos fs) (b_mem b2) dir (csz fs)"
    and n: "new_cluster fs bs' sec cl b b2" "free_bytes bs' \<subseteq> free_bytes bs"
  shows "\<exists>m5. write_cluster fs (b2\<lparr>b_mem := new_dir q cl d (csz fs) dir (b_mem b2)\<rparr>) (root_dir_cluster fs) dir = (b2\<lparr>b_mem := m5\<rparr>, True) \<and>
    (\<forall>h. created fs bs sec q cl b (b2\<lparr>b_mem := m5, b_heap := h\<rparr>))"
proof -
  let ?r = "root_dir_cluster fs" and ?d = "fs_bdev fs" and ?m4 = "new_dir q cl d (csz fs) dir (b_mem b2)"
  note o = vol_okD [OF v(1)]
  have z: "csz fs < 2 ^ 31" using o(6) by simp
  obtain m5 where m5: "write_cluster fs (b2\<lparr>b_mem := ?m4\<rparr>) ?r dir = (b2\<lparr>b_mem := m5\<rparr>, True)"
    "\<forall>j < csz fs. m5 (dev_at ?d (clus_pos fs ?r + j)) = ?m4 (dir + of_nat j)" "\<forall>x. x \<notin> clus_bytes fs ?r \<longrightarrow> m5 x = ?m4 x"
    using write_cluster_ok [OF v(1,2) r t, of "b2\<lparr>b_mem := ?m4\<rparr>"] by auto
  have out: "?m4 x = b_mem b2 x" if "x \<notin> bytes_at dir (csz fs)" for x by (rule new_dir_outside [OF that q(3) z])
  have keep: "m5 x = b_mem b2 x" if "x \<in> dev_bytes ?d" "x \<notin> clus_bytes fs ?r" for x
    using m5(3) out that t(2) o(3) by (metis disjoint_iff subsetD)
  have s5: "same_bytes ?m4 dir (image ?d m5) (root_pos fs) (csz fs)"
    unfolding same_bytes_def using m5(2) root_image [OF v(1) r] by simp
  then have ad: "added fs q cl (b_mem b) m5" unfolding added_def using s q(2) by blast
  have "d = dir_end (b_mem b2) dir (csz fs) 0" using q(2) dir_end_same [OF s] by (simp add: root_end_def)
  then have "root_entries fs m5 = dir_entries (b_mem b2) dir (csz fs) 0 @ [new_entry q cl]"
    unfolding root_entries_def using dir_entries_create [OF q(1) _ q(3) z s5] by blast
  also have "dir_entries (b_mem b2) dir (csz fs) 0 = root_entries fs (b_mem b)"
    unfolding root_entries_def by (rule dir_entries_same [OF s])
  finally have ents: "root_entries fs m5 = root_entries fs (b_mem b) @ [new_entry q cl]" .
  have fat: "fat_at fs m5 cl = EOC"
  proof -
    have "m5 x = b_mem b2 x" if "x \<in> fat_bytes fs cl" for x
      using that keep fat_bytes_dev [OF v(1) c(2)] fat_heap_disjoint [OF v(1,3) c(2)] clus_bytes_heap [OF v(1) r] by blast
    then have "fat_at fs m5 cl = fat_at fs (b_mem b2) cl" by (rule fat_at_keep [OF v(1) c(2)])
    then show ?thesis using n(1) by (simp add: new_cluster_def)
  qed
  have zero: "m5 (dev_at ?d (clus_pos fs cl + k)) = 0" if k: "k < csz fs" for k
  proof -
    have "file_at fs [cl] k = dev_at ?d (clus_pos fs cl + k)" by (rule file_at_Cons(1) [OF k])
    moreover have ch: "fchain fs (b_mem b) [cl]" "k < csz fs * length [cl]" "?r \<notin> set [cl]" using c k by auto
    have "file_at fs [cl] k \<notin> clus_bytes fs ?r" "file_at fs [cl] k \<in> dev_bytes ?d"
      by (rule file_not_root [OF v(1) ch(1,2) r ch(3)], rule file_at_dev [OF v(1) ch(1,2)])
    ultimately show ?thesis using keep n(1) k by (simp add: new_cluster_def)
  qed
  let ?W = "clus_bytes fs ?r \<union> clus_bytes fs cl \<union> fat_bytes fs cl \<union> bytes_at sec 512 \<union> free_bytes bs"
  have "same_outside ?W b b2" using n unfolding new_cluster_def by (blast intro: same_outside_mono)
  moreover have "m5 x = b_mem b2 x" if "x \<notin> ?W" for x using that m5(3) out t(2) by (metis UnCI subsetD)
  ultimately have "same_outside ?W b (b2\<lparr>b_mem := m5, b_heap := h\<rparr>)" for h by (auto simp: same_outside_def)
  then show ?thesis using m5(1) ents ad fat zero by (intro exI [of _ m5]) (simp add: created_def)
qed

lemma clus_bytes_dev: "vol_ok fs bs sec \<Longrightarrow> has_cluster fs cl \<Longrightarrow> clus_bytes fs cl \<subseteq> dev_bytes (fs_bdev fs)"
  using cluster_range(3) [of fs bs sec cl] vol_okD(4) [of fs bs sec] by (auto simp: clus_bytes_def intro!: dev_bytes_512)

lemma exfat_create_ok:
  assumes v: "vol_ok fs bs sec" "dev_writable (fs_bdev fs)" "fat_first fs" and r: "has_cluster fs (root_dir_cluster fs)"
    and h: "heap_at (b_heap b) bs" "fits bs (2 * csz fs + 63)"
    and c: "first_free fs (b_mem b) cl" "cl \<noteq> root_dir_cluster fs"
    and q: "q = skip_slash path" "plain_name q" "root_end fs (b_mem b) + (2 + (length q + 14) div 15) * 32 \<le> csz fs"
  shows "\<exists>b'. exfat_create sec b (Priv_Exfat fs) path hint = Some (b', 0) \<and> heap_at (b_heap b') bs \<and> created fs bs sec q cl b b'"
proof -
  let ?r = "root_dir_cluster fs" and ?d = "fs_bdev fs"
  note o = vol_okD [OF v(1)] and rr = cluster_run [OF v(1) r]
  have "fits bs (csz fs + unat (ucast (cluster_size fs) :: u64) + 63)" using h(2) unfolding o(9) by (simp flip: mult_2)
  note kb = keep_buffer [OF h(1) rr(2,3) this, unfolded o(9)]
  obtain h1 dir bs' where t: "kmalloc (b_heap b) (ucast (cluster_size fs)) = Some (h1, dir)"
    "dir \<noteq> 0" "heap_at h1 bs'" "fits bs' (csz fs)" and sub: "bytes_at dir (csz fs) \<subseteq> free_bytes bs"
    and dj: "bytes_at dir (csz fs) \<inter> free_bytes bs' = {}" and fr: "free_bytes bs' \<subseteq> free_bytes bs"
    and ret: "\<And>h'. heap_at h' bs' \<Longrightarrow> \<exists>h2. kfree h' dir = Some h2 \<and> heap_at h2 bs" by (rule kb) blast
  note v' = vol_ok_less [OF v(1) fr t(4)]
  obtain m1 where m1: "read_cluster fs (b\<lparr>b_heap := h1\<rparr>) ?r dir = (b\<lparr>b_heap := h1, b_mem := m1\<rparr>, True)"
    "\<forall>k < csz fs. m1 (dir + of_nat k) = b_mem b (dev_at ?d (clus_pos fs ?r + k))" "\<forall>x. x \<notin> bytes_at dir (csz fs) \<longrightarrow> m1 x = b_mem b x"
    using read_cluster_ok [OF v(1) r t(2) sub, of "b\<lparr>b_heap := h1\<rparr>"] by auto
  have sd: "same_disk fs (b_mem b) m1" using m1(3) sub o(3) unfolding same_disk_def by blast
  let ?b1 = "b\<lparr>b_heap := h1, b_mem := m1\<rparr>"
  obtain b2 where b2: "fat_alloc sec fs ?b1 = Some (b2, cl)" "heap_at (b_heap b2) bs'" "new_cluster fs bs' sec cl ?b1 b2"
    using fat_alloc_ok [OF v' v(2,3), of ?b1 cl] first_free_same [OF v(1) sd c(1)] t(3) by auto
  have cl: "has_cluster fs cl" "has_entry fs cl" "cl \<noteq> 0" using c(1) by (auto simp: first_free_def has_cluster_def)
  have s1: "same_bytes (image ?d (b_mem b)) (root_pos fs) m1 dir (csz fs)"
    unfolding same_bytes_def using m1(2) root_image [OF v(1) r] by simp
  have "b_mem b2 x = m1 x" if "x \<in> bytes_at dir (csz fs)" for x
  proof -
    have "x \<notin> dev_bytes ?d" "x \<notin> bytes_at sec 512" "x \<notin> free_bytes bs'" using that sub o(3,8) dj by (auto simp: clear_def)
    then have "x \<notin> fat_bytes fs cl \<union> clus_bytes fs cl \<union> bytes_at sec 512 \<union> free_bytes bs'"
      using fat_bytes_dev [OF v(1) cl(2)] clus_bytes_dev [OF v(1) cl(1)] by blast
    then show ?thesis using same_outsideD b2(3) unfolding new_cluster_def by fastforce
  qed
  then have s2: "same_bytes (image ?d (b_mem b)) (root_pos fs) (b_mem b2) dir (csz fs)"
    using s1 bytes_at_offset [of _ "csz fs" dir] o(6) by (simp add: same_bytes_def)
  have "same_outside (free_bytes bs) b ?b1" using m1(3) sub by (auto simp: same_outside_def)
  then have nc: "new_cluster fs bs sec cl b b2" using b2(3) fr unfolding new_cluster_def by (blast intro: same_outside_trans)
  define d where "d = root_end fs (b_mem b)"
  have d: "dir_end m1 dir (csz fs) 0 = d" using dir_end_same [OF s1] by (simp add: d_def root_end_def)
  obtain m5 where m5: "write_cluster fs (b2\<lparr>b_mem := new_dir q cl d (csz fs) dir (b_mem b2)\<rparr>) ?r dir = (b2\<lparr>b_mem := m5\<rparr>, True)"
    "\<forall>h. created fs bs sec q cl b (b2\<lparr>b_mem := m5, b_heap := h\<rparr>)"
    using created_write [OF v r cl(1,2) c(2) t(2) sub q(2) d_def _ s2 nc subset_refl] q(3) by (auto simp: d_def)
  obtain h2 where h2: "kfree (b_heap b2) dir = Some h2" "heap_at h2 bs" using ret [OF b2(2)] by blast
  have "skip_slash path \<noteq> []" using q(1,2) by (auto simp: plain_name_def)
  then have "exfat_create sec b (Priv_Exfat fs) path hint = Some (b2\<lparr>b_mem := m5, b_heap := h2\<rparr>, 0)"
    using t(1,2) m1(1) q(3) b2(1) cl(3) m5(1) h2(1)
    by (cases "d + (2 + (length q + 14) div 15) * 32 < csz fs")
      (simp_all add: exfat_create_def Let_def o(11) q(1) [symmetric] d new_dir_def d_def [symmetric] del: of_nat_add of_nat_mult)
  then show ?thesis using m5(2) h2(2) by auto
qed

section \<open>Finding it\<close>

lemma dir_scan_ok:
  assumes v: "vol_ok fs bs sec" and r: "has_cluster fs (root_dir_cluster fs)" and h: "heap_at (b_heap b) bs"
  shows "\<exists>b'. dir_scan_root fs b n = Some (b', take n (root_entries fs (b_mem b))) \<and> heap_at (b_heap b') bs \<and> same_outside (free_bytes bs) b b'"
proof -
  let ?r = "root_dir_cluster fs" and ?d = "fs_bdev fs"
  note o = vol_okD [OF v] and rr = cluster_run [OF v r]
  obtain h1 buf h2 where t: "kmalloc (b_heap b) (ucast (cluster_size fs)) = Some (h1, buf)" "buf \<noteq> 0" "kfree h1 buf = Some h2" "heap_at h2 bs"
    "bytes_at buf (csz fs) \<subseteq> free_bytes bs" using with_buffer [OF h rr(2,3,4)] unfolding o(9) by blast
  obtain m1 where m1: "read_cluster fs (b\<lparr>b_heap := h1\<rparr>) ?r buf = (b\<lparr>b_heap := h1, b_mem := m1\<rparr>, True)"
    "\<forall>k < csz fs. m1 (buf + of_nat k) = b_mem b (dev_at ?d (clus_pos fs ?r + k))" "\<forall>x. x \<notin> bytes_at buf (csz fs) \<longrightarrow> m1 x = b_mem b x"
    using read_cluster_ok [OF v r t(2,5), of "b\<lparr>b_heap := h1\<rparr>"] by auto
  have "same_bytes (image ?d (b_mem b)) (root_pos fs) m1 buf (csz fs)"
    unfolding same_bytes_def using m1(2) root_image [OF v r] by simp
  then have "dir_entries m1 buf (csz fs) 0 = root_entries fs (b_mem b)" unfolding root_entries_def by (rule dir_entries_same)
  then have "dir_scan_root fs b n = Some (b\<lparr>b_heap := h2, b_mem := m1\<rparr>, take n (root_entries fs (b_mem b)))"
    using t(1-3) m1(1) by (simp add: dir_scan_root_def o(11))
  moreover have "same_outside (free_bytes bs) b (b\<lparr>b_heap := h2, b_mem := m1\<rparr>)" using m1(3) t(5) by (auto simp: same_outside_def)
  ultimately show ?thesis using t(4) by auto
qed

lemma alloc_nodes_ok:
  assumes h: "heap_at h bs" and n: "n \<noteq> 0" "unat n + 15 < 2 ^ 64" and f: "fits bs (R + 24 + 63 + unat n + 63)"
  obtains h2 fp vn bs2 where "alloc_nodes h n = Some (h2, Some (fp, vn))" "heap_at h2 bs2" "fits bs2 R" "free_bytes bs2 \<subseteq> free_bytes bs"
proof -
  obtain h1 fp bs1 where a: "kmalloc h n = Some (h1, fp)" "fp \<noteq> 0" "heap_at h1 bs1" "fits bs1 (R + 24 + 63)" "free_bytes bs1 \<subseteq> free_bytes bs"
    by (rule keep_buffer [OF h n f]) blast
  have s: "SIZEOF_VFS_NODE \<noteq> 0" "unat SIZEOF_VFS_NODE + 15 < 2 ^ 64" "fits bs1 (R + unat SIZEOF_VFS_NODE + 63)"
    using a(4) by (simp_all add: SIZEOF_VFS_NODE_def)
  obtain h2 vn bs2 where "kmalloc h1 SIZEOF_VFS_NODE = Some (h2, vn)" "vn \<noteq> 0" "heap_at h2 bs2" "fits bs2 R" "free_bytes bs2 \<subseteq> free_bytes bs1"
    by (rule keep_buffer [OF a(3) s]) blast
  then show ?thesis using that a(1,2,5) by (simp add: alloc_nodes_def)
qed

lemma fits_mono:
  assumes "fits bs n" "k \<le> n"
  shows "fits bs k"
proof -
  have "round16 k \<le> round16 n" unfolding round16_def using assms(2) by (intro mult_le_mono1 div_le_mono) simp
  then show ?thesis using assms(1) order_trans unfolding fits_def by blast
qed

text \<open>Opening a name the directory has: the node of its first entry.\<close>

lemma exfat_open_ok:
  assumes v: "vol_ok fs bs sec" and r: "has_cluster fs (root_dir_cluster fs)" and h: "heap_at (b_heap b) bs" "fits bs (2 * csz fs + 63)"
    and f: "skip_slash path \<noteq> []" "find (\<lambda>e. skip_slash path = de_name e) (take 32 (root_entries fs (b_mem b))) = Some e"
  shows "\<exists>b' bs'. exfat_open b (Priv_Exfat fs) path = Some (b', Some \<lparr>fops = Exfat_Ops, fs_priv = Priv_Exfat fs,
      file_priv = Exfat_Node \<lparr>first_cluster = de_first_cluster e, en_is_dir = de_is_dir e, en_size = de_size e\<rparr>\<rparr>) \<and>
    heap_at (b_heap b') bs' \<and> fits bs' (csz fs) \<and> free_bytes bs' \<subseteq> free_bytes bs \<and> same_outside (free_bytes bs) b b'"
proof -
  note o = vol_okD [OF v]
  have "512 \<le> csz fs" using o(5) by (simp add: csz_def)
  then have "fits bs (csz fs + 24 + 63 + unat SIZEOF_EXFAT_NODE + 63)" using fits_mono [OF h(2)] by (simp add: SIZEOF_EXFAT_NODE_def)
  moreover have "SIZEOF_EXFAT_NODE \<noteq> 0" "unat SIZEOF_EXFAT_NODE + 15 < 2 ^ 64" by (simp_all add: SIZEOF_EXFAT_NODE_def)
  ultimately obtain h2 fp vn bs2 where a: "alloc_nodes (b_heap b) SIZEOF_EXFAT_NODE = Some (h2, Some (fp, vn))" "heap_at h2 bs2"
    "fits bs2 (csz fs)" "free_bytes bs2 \<subseteq> free_bytes bs" using alloc_nodes_ok [OF h(1)] by blast
  obtain b' where b': "dir_scan_root fs (b\<lparr>b_heap := h2\<rparr>) 32 = Some (b', take 32 (root_entries fs (b_mem b)))"
    "heap_at (b_heap b') bs2" "same_outside (free_bytes bs2) (b\<lparr>b_heap := h2\<rparr>) b'"
    using dir_scan_ok [OF vol_ok_less [OF v a(4,3)] r, of "b\<lparr>b_heap := h2\<rparr>" 32] a(2) by auto
  have so: "same_outside (free_bytes bs) b b'" using b'(3) a(4) by (auto simp: same_outside_def)
  have "\<not> path_is_root path" using f(1) by (auto simp: path_is_root_def skip_slash_def)
  then show ?thesis using a b'(1,2) f(2) so
    by (intro exI [of _ b'] exI [of _ bs2]) (simp add: exfat_open_def name_eq_iff)
qed

lemma find_new:
  assumes "\<forall>e \<in> set es. de_name e \<noteq> q" "length es < 32" "length q \<le> 63"
  shows "find (\<lambda>e. q = de_name e) (take 32 (es @ [new_entry q cl])) = Some (new_entry q cl)"
proof -
  have "take 32 (es @ [new_entry q cl]) = es @ [new_entry q cl]" using assms(2) by simp
  moreover have "find (\<lambda>e. q = de_name e) es = None" using assms(1) by (auto simp: find_None_iff)
  ultimately show ?thesis using assms(3) by (simp add: find_append new_entry_def)
qed

text \<open>A name that is not in the directory and for which there is room: in the heap for the buffers, on
  the volume for the file's first cluster and in the directory for the entries.\<close>

definition can_create :: "exfat_fs \<Rightarrow> blk list \<Rightarrow> memory \<Rightarrow> string \<Rightarrow> u32 \<Rightarrow> bool" where
  "can_create fs bs m q cl \<longleftrightarrow> has_cluster fs (root_dir_cluster fs) \<and> fits bs (2 * csz fs + 63) \<and>
     first_free fs m cl \<and> cl \<noteq> root_dir_cluster fs \<and> plain_name q \<and> length q \<le> 63 \<and>
     root_end fs m + (2 + (length q + 14) div 15) * 32 \<le> csz fs \<and>
     length (root_entries fs m) < 32 \<and> (\<forall>e \<in> set (root_entries fs m). de_name e \<noteq> q)"

lemma create_open_ok:
  assumes v: "vol_ok fs bs sec" "dev_writable (fs_bdev fs)" "fat_first fs" and h: "heap_at (b_heap b) bs"
    and c: "can_create fs bs (b_mem b) (skip_slash path) cl"
  shows "\<exists>b' b'' n bs'. exfat_create sec b (Priv_Exfat fs) path hint = Some (b', 0) \<and> created fs bs sec (skip_slash path) cl b b' \<and>
    exfat_open b' (Priv_Exfat fs) path = Some (b'', Some n) \<and> open_file fs (b_mem b'') n [cl] 0 \<and> fat_at fs (b_mem b'') cl = EOC \<and>
    heap_at (b_heap b'') bs' \<and> vol_ok fs bs' sec \<and> free_bytes bs' \<subseteq> free_bytes bs \<and> same_outside (free_bytes bs) b' b''"
proof -
  let ?q = "skip_slash path"
  have c': "has_cluster fs (root_dir_cluster fs)" "fits bs (2 * csz fs + 63)" "first_free fs (b_mem b) cl" "cl \<noteq> root_dir_cluster fs"
    "plain_name ?q" "length ?q \<le> 63" "root_end fs (b_mem b) + (2 + (length ?q + 14) div 15) * 32 \<le> csz fs"
    "length (root_entries fs (b_mem b)) < 32" "\<forall>e \<in> set (root_entries fs (b_mem b)). de_name e \<noteq> ?q"
    using c unfolding can_create_def by blast+
  obtain b' where b': "exfat_create sec b (Priv_Exfat fs) path hint = Some (b', 0)" "heap_at (b_heap b') bs" "created fs bs sec ?q cl b b'"
    using exfat_create_ok [OF v c'(1) h c'(2-4) refl c'(5,7)] by blast
  have "?q \<noteq> []" using c'(5) by (simp add: plain_name_def)
  moreover have "find (\<lambda>e. ?q = de_name e) (take 32 (root_entries fs (b_mem b'))) = Some (new_entry ?q cl)"
    using b'(3) find_new [OF c'(9,8,6)] by (simp add: created_def)
  ultimately obtain b'' bs' where b'': "exfat_open b' (Priv_Exfat fs) path = Some (b'', Some \<lparr>fops = Exfat_Ops, fs_priv = Priv_Exfat fs,
      file_priv = Exfat_Node \<lparr>first_cluster = cl, en_is_dir = False, en_size = 0\<rparr>\<rparr>)" "heap_at (b_heap b'') bs'" "fits bs' (csz fs)"
    "free_bytes bs' \<subseteq> free_bytes bs" "same_outside (free_bytes bs) b' b''"
    using exfat_open_ok [OF v(1) c'(1) b'(2) c'(2), of path "new_entry ?q cl"] by (auto simp: new_entry_def)
  have cl: "has_cluster fs cl" "has_entry fs cl" using c'(3) by (simp_all add: first_free_def)
  have "same_disk fs (b_mem b') (b_mem b'')" using same_outsideD [OF b''(5)] vol_okD(3) [OF v(1)] unfolding same_disk_def by blast
  then have "fat_at fs (b_mem b'') cl = EOC" using b'(3) fat_at_same [OF v(1) cl(2) same_disk_fat [OF v(1)]] by (simp add: created_def)
  moreover have "open_file fs (b_mem b'') \<lparr>fops = Exfat_Ops, fs_priv = Priv_Exfat fs,
      file_priv = Exfat_Node \<lparr>first_cluster = cl, en_is_dir = False, en_size = 0\<rparr>\<rparr> [cl] 0" using cl by (simp add: open_file_def)
  ultimately show ?thesis using b' b'' vol_ok_less [OF v(1) b''(4,3)] by blast
qed

section \<open>New files\<close>

text \<open>The small volume with cluster 5 free; its directory is empty.\<close>

definition demo_new_store :: block_state where
  "demo_new_store = demo_fs_store\<lparr>b_mem := store32 demo_image 0x200214 0\<rparr>"


lemma demo_new:
  "first_free demo_vol (b_mem demo_new_store) 5" "root_entries demo_vol (b_mem demo_new_store) = []" "root_end demo_vol (b_mem demo_new_store) = 0"
  "heap_at (b_heap demo_new_store) demo_blks" "fits demo_blks (2 * csz demo_vol + 63)"
proof -
  have f: "fat_at demo_vol (b_mem demo_new_store) 5 = 0" "fat_at demo_vol (b_mem demo_new_store) 2 \<noteq> 0"
    "fat_at demo_vol (b_mem demo_new_store) 3 \<noteq> 0" "fat_at demo_vol (b_mem demo_new_store) 4 \<noteq> 0" by code_simp+
  have "c = 2 \<or> c = 3 \<or> c = 4" if "2 \<le> c" "c < 5" for c :: u32
  proof -
    have "unat c = 2 \<or> unat c = 3 \<or> unat c = 4" using that by (simp add: word_le_nat_alt word_less_nat_alt) linarith
    then show ?thesis by (auto simp: word_unat_eq_iff)
  qed
  then show "first_free demo_vol (b_mem demo_new_store) 5" using f
    by (auto simp: first_free_def has_cluster_def has_entry_def demo_vol_def demo_store_ok)
  have p: "root_pos demo_vol = 1024" by (simp add: root_pos_def clus_pos_def demo_vol_def)
  have "image demo_disk (b_mem demo_new_store) 1024 = 0" by code_simp
  then show "root_entries demo_vol (b_mem demo_new_store) = []" "root_end demo_vol (b_mem demo_new_store) = 0"
    unfolding root_entries_def root_end_def p demo_vol_geometry by (subst dir_entries.simps dir_end.simps, simp)+
  show "heap_at (b_heap demo_new_store) demo_blks" using demo_vol_ok(2) by (simp add: demo_new_store_def)
  show "fits demo_blks (2 * csz demo_vol + 63)" by (simp add: fits_def demo_blks_def demo_vol_geometry round16_def)
qed

lemma demo_can_create: "can_create demo_vol demo_blks (b_mem demo_new_store) (skip_slash ''/a.txt'') 5"
  unfolding can_create_def demo_new using demo_new(1,5) by (simp add: demo_vol_geometry skip_slash_def plain_name_def)


text \<open>
  A new file keeps what is put into it: after creating and opening it, a write of up to a cluster
  returns its length, and reading the range back delivers the bytes that were written.
\<close>

theorem exfat_create_write_read:
  assumes v: "vol_ok fs bs sec" "dev_writable (fs_bdev fs)" "fat_first fs" and h: "heap_at (b_heap b) bs"
    and c: "can_create fs bs (b_mem b) (skip_slash path) cl"
    and e: "unat off + unat len \<le> csz fs" "0 < len" and u: "user_buf fs bs sec buf (unat len)" "user_buf fs bs sec dst (unat len)"
  shows "\<exists>b1 b2 n b3 n' b4. exfat_create sec b (Priv_Exfat fs) path hint = Some (b1, 0) \<and>
    exfat_open b1 (Priv_Exfat fs) path = Some (b2, Some n) \<and>
    exfat_write sec b2 n off buf len = Some (b3, n', int (unat len)) \<and>
    exfat_read sec b3 n' off dst len = Some (b4, int (unat len)) \<and>
    (\<forall>i < unat len. b_mem b4 (dst + of_nat i) = b_mem b (buf + of_nat i))"
proof -
  obtain b1 b2 n bs' where b: "exfat_create sec b (Priv_Exfat fs) path hint = Some (b1, 0)" "created fs bs sec (skip_slash path) cl b b1"
    "exfat_open b1 (Priv_Exfat fs) path = Some (b2, Some n)" and o: "open_file fs (b_mem b2) n [cl] 0" "fat_at fs (b_mem b2) cl = EOC"
    "heap_at (b_heap b2) bs'" "vol_ok fs bs' sec" "free_bytes bs' \<subseteq> free_bytes bs" "same_outside (free_bytes bs) b1 b2"
    using create_open_ok [OF v h c, of hint] by blast
  have cl: "has_cluster fs (root_dir_cluster fs)" "cl \<noteq> root_dir_cluster fs" "has_cluster fs cl" "has_entry fs cl"
    using c by (auto simp: can_create_def first_free_def)
  have u': "user_buf fs bs' sec buf (unat len)" "user_buf fs bs' sec dst (unat len)" using u o(5) by (auto simp: user_buf_def clear_def)
  have "csz fs < 2 ^ 31" using vol_okD(6) [OF v(1)] by simp
  then obtain b3 n' b4 where w: "exfat_write sec b2 n off buf len = Some (b3, n', int (unat len))"
    "exfat_read sec b3 n' off dst len = Some (b4, int (unat len))" "\<forall>i < unat len. b_mem b4 (dst + of_nat i) = b_mem b2 (buf + of_nat i)"
    using exfat_write_read [where off = off, OF o(4) v(3,2) o(3) cl(1) _ o(1) _ _ _ e(2) _ u'] cl(2) o(2) e(1) by auto
  have "b_mem b2 (buf + of_nat i) = b_mem b (buf + of_nat i)" if i: "i < unat len" for i
  proof -
    have "buf + of_nat i \<in> bytes_at buf (unat len)" using i u64_bound [of len] by (intro bytes_at_offset) simp_all
    then have "buf + of_nat i \<notin> free_bytes bs \<union> dev_bytes (fs_bdev fs) \<union> bytes_at sec 512" using u(1) by (auto simp: user_buf_def clear_def)
    then have "buf + of_nat i \<notin> clus_bytes fs (root_dir_cluster fs) \<union> clus_bytes fs cl \<union> fat_bytes fs cl \<union> bytes_at sec 512 \<union> free_bytes bs"
      and nf: "buf + of_nat i \<notin> free_bytes bs"
      using clus_bytes_dev [OF v(1) cl(1)] clus_bytes_dev [OF v(1) cl(3)] fat_bytes_dev [OF v(1) cl(4)] by auto
    then have "b_mem b1 (buf + of_nat i) = b_mem b (buf + of_nat i)" using b(2) same_outsideD unfolding created_def by blast
    then show ?thesis using same_outsideD [OF o(6) nf] by simp
  qed
  then show ?thesis using b(1,3) w by auto
qed

theorem exfat_create_write_read_witness:
  "\<exists>b1 b2 n b3 n' b4. exfat_create 0x3000 demo_new_store (Priv_Exfat demo_vol) ''/a.txt'' 0 = Some (b1, 0) \<and>
     exfat_open b1 (Priv_Exfat demo_vol) ''/a.txt'' = Some (b2, Some n) \<and>
     exfat_write 0x3000 b2 n 100 0x4000 300 = Some (b3, n', 300) \<and>
     exfat_read 0x3000 b3 n' 100 0x6000 300 = Some (b4, 300) \<and> b_mem b4 0x6001 = 1"
proof -
  have u: "user_buf demo_vol demo_blks 0x3000 0x4000 (unat (300 :: u64))" "user_buf demo_vol demo_blks 0x3000 0x6000 (unat (300 :: u64))"
    by (rule demo_user_buf; simp)+
  have e: "unat (100 :: u64) + unat (300 :: u64) \<le> csz demo_vol" "0 < (300 :: u64)" by (simp_all add: demo_vol_geometry)
  obtain b1 b2 n b3 n' b4 where w: "exfat_create 0x3000 demo_new_store (Priv_Exfat demo_vol) ''/a.txt'' 0 = Some (b1, 0)"
    "exfat_open b1 (Priv_Exfat demo_vol) ''/a.txt'' = Some (b2, Some n)"
    "exfat_write 0x3000 b2 n 100 0x4000 300 = Some (b3, n', int (unat (300 :: u64)))"
    "exfat_read 0x3000 b3 n' 100 0x6000 300 = Some (b4, int (unat (300 :: u64)))"
    "\<forall>i < unat (300 :: u64). b_mem b4 (0x6000 + of_nat i) = b_mem demo_new_store (0x4000 + of_nat i)"
    using exfat_create_write_read [OF demo_vol_ok(1,3) demo_vol_geometry(10) demo_new(4) demo_can_create e u, of 0] by blast
  have "b_mem demo_new_store 0x4001 = 1" by code_simp
  then show ?thesis using w(1-4) w(5) [rule_format, of 1] by auto
qed

end
