(* ===== verification/Exfat_Resize.thy ===== *)
theory Exfat_Resize
  imports Exfat_Create
begin

text \<open>
  Storing a new size in the directory: \<open>dir_update_stream_by_first_cluster\<close> changes the eight bytes of
  the size in the stream entry it finds and nothing else, and for the scan of the directory that is a
  new size of the first file with that cluster.
\<close>

section \<open>Finding the stream entry\<close>

lemma find_stream_from:
  assumes "same_from m a m' a' n i"
  shows "find_stream m' a' n f i = find_stream m a n f i"
  using assms
proof (induction m a n f i rule: find_stream.induct)
  case (1 m a n f i)
  show ?case
  proof (cases "i + 64 \<le> n")
    case True
    note s = "1.prems" [unfolded same_from_def, rule_format]
    have b: "m' (a' + of_nat i) = m (a + of_nat i)" "m' (a' + of_nat (i + 32)) = m (a + of_nat (i + 32))"
      using True by (intro s; simp)+
    have l: "load32 m' (a' + of_nat (i + 52)) = load32 m (a + of_nat (i + 52))"
      unfolding load32_def using True by (intro from_load [OF "1.prems"]) simp_all
    show ?thesis
      using "1.IH" same_from_le [OF "1.prems", of "i + 32"] True by (subst (1 2) find_stream.simps) (simp only: b l split: if_split, blast)
  qed (subst (1 2) find_stream.simps, simp)
qed

lemma find_stream_miss:
  assumes "m (a + of_nat i) \<noteq> 0"
    "\<not> (i + 64 \<le> n \<and> m (a + of_nat i) AND 0x7F = 0x05 \<and> m (a + of_nat (i + 32)) = 0xC0 \<and> load32 m (a + of_nat (i + 52)) = f)"
  shows "find_stream m a n f i = find_stream m a n f (i + 32)"
proof (cases "i + 64 \<le> n")
  case True
  then show ?thesis using assms by (subst find_stream.simps) (auto simp del: of_nat_add)
next
  case False
  then show ?thesis by (subst (1 2) find_stream.simps) simp
qed

lemma find_stream_hit:
  "i + 64 \<le> n \<Longrightarrow> m (a + of_nat i) \<noteq> 0 \<Longrightarrow> m (a + of_nat i) AND 0x7F = 0x05 \<Longrightarrow> m (a + of_nat (i + 32)) = 0xC0 \<Longrightarrow>
    load32 m (a + of_nat (i + 52)) = f \<Longrightarrow> find_stream m a n f i = Some i"
  by (subst find_stream.simps) (simp del: of_nat_add)

lemma find_stream_names: "find_stream m a n f (snd (name_run units m a n j)) = find_stream m a n f j"
proof (induction units m a n j rule: name_run.induct)
  case (1 units m a n j)
  show ?case
  proof (cases "j + 32 \<le> n \<and> m (a + of_nat j) = 0xC1")
    case True
    then have "find_stream m a n f (snd (name_run units m a n (j + 32))) = find_stream m a n f (j + 32)" using 1 by blast
    also have "\<dots> = find_stream m a n f j" using True by (intro find_stream_miss [symmetric]) simp_all
    finally show ?thesis using True by (subst name_run.simps) (simp add: case_prod_beta)
  qed (subst name_run.simps, auto)
qed

lemma find_stream_ge: "find_stream m a n f i = Some k \<Longrightarrow> i \<le> k"
proof (induction m a n f i rule: find_stream.induct)
  case (1 m a n f i)
  show ?case using 1(2) 1(1) by (subst (asm) find_stream.simps) (auto split: if_splits)
qed

section \<open>The directory with the new size\<close>

primrec resize_first :: "u32 \<Rightarrow> u64 \<Rightarrow> exfat_dirent list \<Rightarrow> exfat_dirent list" where
  "resize_first c sz [] = []"
| "resize_first c sz (e # es) = (if de_first_cluster e = c then e\<lparr>de_size := sz\<rparr> # es else e # resize_first c sz es)"

lemma name_run_prefix:
  assumes "\<forall>k. j \<le> k \<and> k < n \<and> k \<le> snd (name_run units m a n j) \<longrightarrow> m' (a' + of_nat k) = m (a + of_nat k)"
  shows "name_run units m' a' n j = name_run units m a n j"
  using assms
proof (induction units m a n j rule: name_run.induct)
  case (1 units m a n j)
  show ?case
  proof (cases "j + 32 \<le> n")
    case True
    have b: "m' (a' + of_nat j) = m (a + of_nat j)" using True name_run_ge [of j units m a n] by (intro "1.prems" [rule_format]) simp
    show ?thesis
    proof (cases "m (a + of_nat j) = 0xC1")
      case c1: True
      have e: "snd (name_run units m a n j) = snd (name_run units m a n (j + 32))"
        using True c1 by (subst name_run.simps) (simp add: case_prod_beta)
      have ge: "j + 32 \<le> snd (name_run units m a n j)" unfolding e by (rule name_run_ge)
      have "same_from m a m' a' (j + 32) j" unfolding same_from_def using "1.prems" True ge by auto
      then have u: "entry_units m' (a' + of_nat j) = entry_units m (a + of_nat j)" by (rule from_units) simp_all
      have "name_run units m' a' n (j + 32) = name_run units m a n (j + 32)"
        using "1.IH" True c1 "1.prems" unfolding e by simp
      then show ?thesis using b u by (subst (1 2) name_run.simps) simp
    qed (use b in \<open>subst (1 2) name_run.simps, simp\<close>)
  qed (subst (1 2) name_run.simps, simp)
qed

text \<open>The bytes from \<open>i\<close> on are the same but for the size that \<open>find_stream\<close> leads to.\<close>

definition resized :: "u32 \<Rightarrow> u64 \<Rightarrow> memory \<Rightarrow> u64 \<Rightarrow> memory \<Rightarrow> u64 \<Rightarrow> nat \<Rightarrow> nat \<Rightarrow> bool" where
  "resized c sz m a m' a' n i \<longleftrightarrow>
     (\<forall>k. i \<le> k \<and> k < n \<and> (\<forall>j. find_stream m a n c i = Some j \<longrightarrow> \<not> (j + 56 \<le> k \<and> k < j + 64)) \<longrightarrow> m' (a' + of_nat k) = m (a + of_nat k)) \<and>
     (\<forall>j. find_stream m a n c i = Some j \<longrightarrow> load64 m' (a' + of_nat (j + 56)) = sz)"

lemma resized_byte:
  assumes "resized c sz m a m' a' n i" "i \<le> k" "k < n" "\<And>j. find_stream m a n c i = Some j \<Longrightarrow> k < j + 56"
  shows "m' (a' + of_nat k) = m (a + of_nat k)"
  using assms unfolding resized_def by (meson not_le)

lemma resized_from: "resized c sz m a m' a' n i \<Longrightarrow> find_stream m a n c i = find_stream m a n c j \<Longrightarrow> i \<le> j \<Longrightarrow> resized c sz m a m' a' n j"
  unfolding resized_def by (metis le_trans)

lemma dir_entries_resize:
  assumes "resized c sz m a m' a' n i" "c \<noteq> 0"
  shows "dir_entries m' a' n i = resize_first c sz (dir_entries m a n i)"
  using assms(1)
proof (induction m a n i rule: dir_entries_cases)
  case (End m a n i)
  have "find_stream m a n c i = None" using End(1) by (subst find_stream.simps) auto
  then have "i < n \<Longrightarrow> m' (a' + of_nat i) = m (a + of_nat i)" using End(2) by (intro resized_byte) auto
  then have "\<not> (i + 32 \<le> n \<and> m' (a' + of_nat i) \<noteq> 0)" using End(1) by auto
  then show ?case using End(1) by (simp add: dir_entries_end)
next
  case (Other m a n i)
  have e: "find_stream m a n c i = find_stream m a n c (i + 32)" using Other(2,3) by (intro find_stream_miss) auto
  have "m' (a' + of_nat i) = m (a + of_nat i)" using Other(1) find_stream_ge by (intro resized_byte [OF Other(5)]) fastforce+
  then show ?case using Other resized_from [OF Other(5) e] by (simp add: dir_entries_other)
next
  case (Primary m a n i st nr)
  note r = Primary(7)
  have low: "m' (a' + of_nat k) = m (a + of_nat k)" if "i \<le> k" "k < n" "k < i + 56" for k
    using that find_stream_ge by (intro resized_byte [OF r]) fastforce+
  have b: "m' (a' + of_nat i) = m (a + of_nat i)" using Primary(1) by (intro low) simp_all
  have "i + 32 + 32 \<le> n \<Longrightarrow> m' (a' + of_nat (i + 32)) = m (a + of_nat (i + 32))" by (intro low) simp_all
  then have st: "st = (i + 32 + 32 \<le> n \<and> m' (a' + of_nat (i + 32)) = 0xC0)" using Primary(4) by auto
  have "same_from m a m' a' (min n (i + 56)) i" unfolding same_from_def using low by simp
  note ld = from_load [OF this]
  have l: "load16 m' (a' + of_nat (i + 4)) = load16 m (a + of_nat (i + 4))"
    "st \<Longrightarrow> load32 m' (a' + of_nat (i + 32 + 20)) = load32 m (a + of_nat (i + 32 + 20))"
    unfolding load16_def load32_def using Primary(1,4) by (intro ld; simp)+
  have ge: "(if st then i + 32 + 32 else i + 32) \<le> snd nr" unfolding Primary(5) by (rule name_run_ge)
  note e = dir_entries_primary [OF Primary(1-5)] and e' = dir_entries_primary [OF Primary(1) Primary(2,3) [folded b] st]
  show ?case
  proof (cases "st \<and> load32 m (a + of_nat (i + 52)) = c")
    case True
    then have hit: "find_stream m a n c i = Some i" using Primary(2-4) by (intro find_stream_hit) simp_all
    have s: "same_from m a m' a' n (i + 64)" unfolding same_from_def using r hit by (auto simp: resized_def)
    have nr: "nr = name_run (filter (\<lambda>ch. ch \<noteq> 0)) m' a' n (if st then i + 32 + 32 else i + 32)"
      unfolding Primary(5) using True name_run_from [OF s, of "filter (\<lambda>ch. ch \<noteq> 0)"] by (simp add: add.commute)
    have "dir_entries m' a' n (snd nr) = dir_entries m a n (snd nr)" using ge True same_from_le [OF s] by (intro dir_entries_from) simp
    moreover have "load64 m' (a' + of_nat (i + 32 + 24)) = sz" using r hit by (simp add: resized_def add.assoc)
    ultimately show ?thesis unfolding e e' [OF nr] using True l by (simp add: add.commute)
  next
    case False
    have "find_stream m a n c i = find_stream m a n c (i + 32)"
      using False Primary(2,4) by (intro find_stream_miss) (auto simp: add.assoc)
    also have "\<dots> = find_stream m a n c (if st then i + 32 + 32 else i + 32)"
      using Primary(4) by (cases st) (simp_all add: find_stream_miss [of m a "i + 32"] del: of_nat_add)
    also have "\<dots> = find_stream m a n c (snd nr)" unfolding Primary(5) by (rule find_stream_names [symmetric])
    finally have fs: "find_stream m a n c i = find_stream m a n c (snd nr)" .
    have far: "snd nr \<le> j" if "find_stream m a n c i = Some j" for j using that find_stream_ge fs by metis
    have "m' (a' + of_nat k) = m (a + of_nat k)" if "i \<le> k" "k < n" "k \<le> snd nr" for k
      using that by (intro resized_byte [OF r]) (auto dest!: far)
    then have nr: "nr = name_run (filter (\<lambda>ch. ch \<noteq> 0)) m' a' n (if st then i + 32 + 32 else i + 32)"
      unfolding Primary(5) by (intro name_run_prefix [symmetric]) auto
    have sz: "load64 m' (a' + of_nat (i + 32 + 24)) = load64 m (a + of_nat (i + 32 + 24))" if st
    proof -
      have "same_from m a m' a' (i + 64) i" unfolding same_from_def
      proof (intro allI impI)
        fix k assume k: "i \<le> k \<and> k < i + 64"
        show "m' (a' + of_nat k) = m (a + of_nat k)"
          using k that ge Primary(4) by (intro resized_byte [OF r]) (auto dest!: far)
      qed
      then show ?thesis unfolding load64_def by (rule from_load) simp_all
    qed
    have "dir_entries m' a' n (snd nr) = resize_first c sz (dir_entries m a n (snd nr))"
      using Primary(6) resized_from [OF r fs] ge by (simp split: if_splits)
    then show ?thesis unfolding e e' [OF nr] using False l sz assms(2) by (cases st) (auto simp: add.assoc)
  qed
qed

section \<open>The directory on the device\<close>

definition stream_of :: "exfat_fs \<Rightarrow> memory \<Rightarrow> u32 \<Rightarrow> nat option" where
  "stream_of fs m c = find_stream (image (fs_bdev fs) m) (root_pos fs) (csz fs) c 0"

text \<open>The eight bytes of the size in the stream entry of the first file with the cluster \<open>c\<close>; none when
  there is no such file.\<close>

definition size_bytes :: "exfat_fs \<Rightarrow> memory \<Rightarrow> u32 \<Rightarrow> u64 set" where
  "size_bytes fs m c = (case stream_of fs m c of None \<Rightarrow> {}
     | Some i \<Rightarrow> (\<lambda>k. dev_at (fs_bdev fs) (clus_pos fs (root_dir_cluster fs) + k)) ` {i + 56..<i + 64})"

lemma dir_update_exact:
  assumes v: "vol_ok fs bs sec" "dev_writable (fs_bdev fs)" and r: "has_cluster fs (root_dir_cluster fs)" and h: "heap_at (b_heap b) bs"
    and c: "c \<noteq> 0" and u: "dir_update_stream_by_first_cluster fs b c c sz = Some (b', rc)"
  shows "root_entries fs (b_mem b') = resize_first c sz (root_entries fs (b_mem b)) \<and>
    same_outside (size_bytes fs (b_mem b) c \<union> free_bytes bs) b b'"
proof -
  let ?r = "root_dir_cluster fs" and ?d = "fs_bdev fs" and ?i = "image (fs_bdev fs) (b_mem b)"
  note o = vol_okD [OF v(1)] and rr = cluster_run [OF v(1) r]
  obtain h1 dir h2 where t: "kmalloc (b_heap b) (ucast (cluster_size fs)) = Some (h1, dir)" "dir \<noteq> 0" "kfree h1 dir = Some h2" "heap_at h2 bs"
    "bytes_at dir (csz fs) \<subseteq> free_bytes bs" using with_buffer [OF h rr(2,3,4)] unfolding o(9) by blast
  obtain m1 where m1: "read_cluster fs (b\<lparr>b_heap := h1\<rparr>) ?r dir = (b\<lparr>b_heap := h1, b_mem := m1\<rparr>, True)"
    "\<forall>k < csz fs. m1 (dir + of_nat k) = b_mem b (dev_at ?d (clus_pos fs ?r + k))" "\<forall>x. x \<notin> bytes_at dir (csz fs) \<longrightarrow> m1 x = b_mem b x"
    using read_cluster_ok [OF v(1) r t(2,5), of "b\<lparr>b_heap := h1\<rparr>"] by auto
  have s1: "same_bytes ?i (root_pos fs) m1 dir (csz fs)" unfolding same_bytes_def using m1(2) root_image [OF v(1) r] by simp
  have f: "find_stream m1 dir (csize fs) c 0 = stream_of fs (b_mem b) c"
    unfolding stream_of_def o(11) by (rule find_stream_from [OF same_bytes_from [OF s1]])
  have so1: "m1 x = b_mem b x" if "x \<notin> free_bytes bs" for x using m1(3) t(5) that by blast
  have fin: "?thesis" if b': "b' = b\<lparr>b_heap := h2, b_mem := m'\<rparr>"
    and ex: "\<And>k. k < csz fs \<Longrightarrow> \<forall>i. stream_of fs (b_mem b) c = Some i \<longrightarrow> \<not> (i + 56 \<le> k \<and> k < i + 64) \<Longrightarrow>
        m' (dev_at ?d (clus_pos fs ?r + k)) = b_mem b (dev_at ?d (clus_pos fs ?r + k))"
    and sz: "\<And>i. stream_of fs (b_mem b) c = Some i \<Longrightarrow> load64 (image ?d m') (root_pos fs + of_nat (i + 56)) = sz"
    and out: "\<And>x. x \<notin> clus_bytes fs ?r \<Longrightarrow> x \<notin> free_bytes bs \<Longrightarrow> m' x = b_mem b x" for m'
  proof -
    have "resized c sz ?i (root_pos fs) (image ?d m') (root_pos fs) (csz fs) 0"
      unfolding resized_def stream_of_def [symmetric]
    proof (intro conjI allI impI)
      fix k assume k: "0 \<le> k \<and> k < csz fs \<and> (\<forall>j. stream_of fs (b_mem b) c = Some j \<longrightarrow> \<not> (j + 56 \<le> k \<and> k < j + 64))"
      then have l: "k < csz fs" by simp
      show "image ?d m' (root_pos fs + of_nat k) = ?i (root_pos fs + of_nat k)"
        unfolding root_image [OF v(1) r l] by (rule ex [OF l]) (use k in blast)
    qed (rule sz)
    then have "root_entries fs m' = resize_first c sz (root_entries fs (b_mem b))"
      unfolding root_entries_def by (rule dir_entries_resize [OF _ c])
    moreover have "m' x = b_mem b x" if x: "x \<notin> size_bytes fs (b_mem b) c \<union> free_bytes bs" for x
    proof (cases "x \<in> clus_bytes fs ?r")
      case True
      then obtain k where k: "x = dev_at ?d (clus_pos fs ?r + k)" "k < csz fs" by (auto simp: clus_bytes_def le_iff_add)
      have "\<not> (i + 56 \<le> k \<and> k < i + 64)" if "stream_of fs (b_mem b) c = Some i" for i using x k(1) that by (auto simp: size_bytes_def)
      then show ?thesis using ex [OF k(2)] k(1) by blast
    qed (use out x in blast)
    ultimately show ?thesis using b' by (simp add: same_outside_def)
  qed
  show ?thesis
  proof (cases "stream_of fs (b_mem b) c")
    case None
    then have "b' = b\<lparr>b_heap := h2, b_mem := m1\<rparr>" using u t(1-3) m1(1) f by (auto simp: dir_update_stream_by_first_cluster_def)
    moreover have "m1 (dev_at ?d (clus_pos fs ?r + k)) = b_mem b (dev_at ?d (clus_pos fs ?r + k))" if "k < csz fs" for k
    proof -
      have "dev_at ?d (clus_pos fs ?r + k) \<in> clus_bytes fs ?r" using that by (auto simp: clus_bytes_def)
      then show ?thesis using clus_bytes_dev [OF v(1) r] o(3) by (intro so1) auto
    qed
    ultimately show ?thesis using None so1 by (intro fin [of m1]) auto
  next
    case (Some i)
    have i: "i + 64 \<le> csz fs" using find_stream_bound Some unfolding stream_of_def by blast
    define m2 where "m2 = store64 m1 (dir + of_nat (i + 56)) sz"
    have p: "i + 56 < 2 ^ 32" "(8 :: nat) \<le> 8" using i o(6) by simp_all
    have at: "m2 (dir + of_nat k) = (if i + 56 \<le> k \<and> k < i + 56 + 8 then ucast (drop_bit (8 * (k - (i + 56))) sz) else m1 (dir + of_nat k))" if "k < csz fs" for k
      unfolding m2_def store64_def by (rule store_at [OF _ p]) (use that o(6) in simp)
    have m2: "m2 x = b_mem b x" if "x \<notin> free_bytes bs" for x
    proof -
      have "unat (of_nat (i + 56) :: u64) = i + 56" using i o(6) by (intro u64_of_nat_unat) simp
      moreover have "x \<notin> bytes_at dir (csz fs)" using that t(5) by blast
      ultimately show ?thesis unfolding m2_def store64_def using i o(6) so1 [OF that] by (simp add: store_outside [of x dir "csz fs"])
    qed
    obtain m3 where m3: "write_cluster fs (b\<lparr>b_heap := h1, b_mem := m2\<rparr>) ?r dir = (b\<lparr>b_heap := h1, b_mem := m3\<rparr>, True)"
      "\<forall>j < csz fs. m3 (dev_at ?d (clus_pos fs ?r + j)) = m2 (dir + of_nat j)" "\<forall>x. x \<notin> clus_bytes fs ?r \<longrightarrow> m3 x = m2 x"
      using write_cluster_ok [OF v r t(2,5), of "b\<lparr>b_heap := h1, b_mem := m2\<rparr>"] by auto
    have "b' = b\<lparr>b_heap := h2, b_mem := m3\<rparr>"
      using u t(1-3) m1(1) f Some m3(1) unfolding m2_def by (auto simp: dir_update_stream_by_first_cluster_def Let_def)
    moreover have "load64 (image ?d m3) (root_pos fs + of_nat (i + 56)) = sz"
    proof -
      have "load64 (image ?d m3) (root_pos fs + of_nat (i + 56)) = load64 m2 (dir + of_nat (i + 56))" unfolding load64_def
      proof (rule load_le_shift)
        fix l :: nat assume l: "l < 8"
        then have k: "i + 56 + l < csz fs" using i by simp
        have "image ?d m3 (root_pos fs + of_nat (i + 56 + l)) = m2 (dir + of_nat (i + 56 + l))" using root_image [OF v(1) r k] m3(2) k by simp
        then show "image ?d m3 (root_pos fs + of_nat (i + 56) + of_nat l) = m2 (dir + of_nat (i + 56) + of_nat l)" by (simp add: add.assoc)
      qed
      then show ?thesis by (simp add: m2_def del: of_nat_add)
    qed
    moreover have "m3 (dev_at ?d (clus_pos fs ?r + k)) = b_mem b (dev_at ?d (clus_pos fs ?r + k))"
      if "k < csz fs" "\<not> (i + 56 \<le> k \<and> k < i + 64)" for k
      using m3(2) at m1(2) that by (auto simp: add.commute)
    ultimately show ?thesis using Some m3(3) m2 by (intro fin [of m3]) auto
  qed
qed

text \<open>All that depends on the bytes of the directory's cluster only.\<close>

lemma root_keep:
  assumes v: "vol_ok fs bs sec" and r: "has_cluster fs (root_dir_cluster fs)" and s: "\<forall>x \<in> clus_bytes fs (root_dir_cluster fs). m' x = m x"
  shows "root_entries fs m' = root_entries fs m" "size_bytes fs m' c = size_bytes fs m c"
proof -
  have "m' (dev_at (fs_bdev fs) (clus_pos fs (root_dir_cluster fs) + k)) = m (dev_at (fs_bdev fs) (clus_pos fs (root_dir_cluster fs) + k))"
    if "k < csz fs" for k using s that by (auto simp: clus_bytes_def)
  then have b: "same_bytes (image (fs_bdev fs) m) (root_pos fs) (image (fs_bdev fs) m') (root_pos fs) (csz fs)"
    unfolding same_bytes_def using root_image [OF v r] by simp
  show "root_entries fs m' = root_entries fs m" unfolding root_entries_def by (rule dir_entries_same [OF b])
  have "stream_of fs m' c = stream_of fs m c" unfolding stream_of_def by (rule find_stream_from [OF same_bytes_from [OF b]])
  then show "size_bytes fs m' c = size_bytes fs m c" by (simp add: size_bytes_def)
qed

end
