(* ===== verification/Exfat_Grow.thy ===== *)
theory Exfat_Grow
  imports Exfat_Resize
begin

text \<open>
  Writing past the end of a file's chain: the chain gets new clusters, taken from the free ones and
  filled with zeros, until it is long enough.
\<close>

section \<open>Free clusters\<close>

definition free_set :: "exfat_fs \<Rightarrow> memory \<Rightarrow> u32 set" where
  "free_set fs m = {c. 2 \<le> c \<and> has_entry fs c \<and> fat_at fs m c = 0}"

text \<open>The clusters that are free according to the FAT are on the device.\<close>

definition fat_backed :: "exfat_fs \<Rightarrow> memory \<Rightarrow> bool" where
  "fat_backed fs m \<longleftrightarrow> (\<forall>c \<in> free_set fs m. has_cluster fs c)"

lemma free_first:
  assumes "fat_backed fs m" "free_set fs m \<noteq> {}"
  obtains cl where "first_free fs m cl" "cl \<in> free_set fs m"
proof -
  define cl where "cl = Min (free_set fs m)"
  have c: "cl \<in> free_set fs m" unfolding cl_def by (rule Min_in [OF finite assms(2)])
  have "fat_at fs m c \<noteq> 0" if "2 \<le> c" "c < cl" for c
  proof
    assume "fat_at fs m c = 0"
    then have "c \<in> free_set fs m" using c that by (auto simp: free_set_def has_entry_def word_less_nat_alt)
    then show False using that(2) Min_le [OF finite, of c "free_set fs m"] by (simp add: cl_def not_le [symmetric])
  qed
  then have "first_free fs m cl" using c assms(1) by (auto simp: first_free_def free_set_def fat_backed_def)
  then show ?thesis using that c by blast
qed

lemma clus_bytes_disjoint:
  assumes v: "vol_ok fs bs sec" and c: "has_cluster fs c" "has_cluster fs c'" "c \<noteq> c'"
  shows "clus_bytes fs c \<inter> clus_bytes fs c' = {}"
proof (rule ccontr)
  assume "clus_bytes fs c \<inter> clus_bytes fs c' \<noteq> {}"
  then obtain r r' where r: "dev_at (fs_bdev fs) (clus_pos fs c + r) = dev_at (fs_bdev fs) (clus_pos fs c' + r')" "r < csz fs" "r' < csz fs"
    unfolding clus_bytes_def by (auto simp: le_iff_add)
  then have "clus_pos fs c + r = clus_pos fs c' + r'"
    using dev_at_eq [OF v] cluster_range(3) [OF v c(1)] cluster_range(3) [OF v c(2)] by simp
  then show False using clus_pos_inj [OF c(1,2) r(2,3)] c(3) by blast
qed

text \<open>The bytes of one cluster and of all entries of the FAT are apart, and apart from the buffers.\<close>

lemma clus_bytes_apart:
  assumes v: "vol_ok fs bs sec" "fat_first fs" and c: "has_cluster fs c"
  shows "has_entry fs e \<Longrightarrow> clus_bytes fs c \<inter> fat_bytes fs e = {}" "clus_bytes fs c \<inter> (bytes_at sec 512 \<union> free_bytes bs) = {}"
  using fat_heap_disjoint [OF v] clus_bytes_heap [OF v(1) c] clus_bytes_dev [OF v(1) c] vol_okD(3,8) [OF v(1)] by (auto simp: clear_def)

lemma fat_bytes_apart:
  assumes v: "vol_ok fs bs sec" and e: "has_entry fs e"
  shows "fat_bytes fs e \<inter> (bytes_at sec 512 \<union> free_bytes bs) = {}"
  using fat_bytes_dev [OF v e] vol_okD(3,8) [OF v] by (auto simp: clear_def)

section \<open>One more cluster\<close>

text \<open>What linking the clusters \<open>new\<close> behind \<open>l\<close> may change.\<close>

definition grow_bytes :: "exfat_fs \<Rightarrow> u32 \<Rightarrow> u32 set \<Rightarrow> u64 set" where
  "grow_bytes fs l new = fat_bytes fs l \<union> (\<Union>c \<in> new. fat_bytes fs c \<union> clus_bytes fs c)"

definition zeroed :: "exfat_fs \<Rightarrow> memory \<Rightarrow> u32 \<Rightarrow> bool" where
  "zeroed fs m c \<longleftrightarrow> (\<forall>x \<in> clus_bytes fs c. m x = 0)"

lemma fat_others:
  assumes v: "vol_ok fs bs sec" "fat_first fs" and so: "same_outside (grow_bytes fs l new \<union> bytes_at sec 512 \<union> free_bytes bs) b b'"
    and e: "has_entry fs l" "\<forall>c \<in> new. has_entry fs c \<and> has_cluster fs c" and c: "has_entry fs c" "c \<noteq> l" "c \<notin> new"
  shows "fat_at fs (b_mem b') c = fat_at fs (b_mem b) c"
proof (rule fat_at_keep [OF v(1) c(1)])
  fix x assume x: "x \<in> fat_bytes fs c"
  have "x \<notin> fat_bytes fs e" if "has_entry fs e" "e \<noteq> c" for e using fat_bytes_disjoint [OF v(1) c(1) that(1)] that(2) x by blast
  moreover have "x \<notin> clus_bytes fs e" if "has_cluster fs e" for e using clus_bytes_apart(1) [OF v that c(1)] x by blast
  ultimately have "x \<notin> grow_bytes fs l new" using e c(2,3) unfolding grow_bytes_def by blast
  moreover have "x \<notin> bytes_at sec 512 \<union> free_bytes bs" using fat_bytes_apart [OF v(1) c(1)] x by blast
  ultimately show "b_mem b' x = b_mem b x" by (intro same_outsideD [OF so]) simp
qed

lemma append_cluster_ok:
  assumes v: "vol_ok fs bs sec" "dev_writable (fs_bdev fs)" "fat_first fs" and g: "fat_backed fs (b_mem b)" "free_set fs (b_mem b) \<noteq> {}"
    and h: "heap_at (b_heap b) bs" and l: "has_entry fs l" "fat_at fs (b_mem b) l \<noteq> 0"
  obtains b' ncl where "append_cluster sec fs b l = Some (b', ncl)" "ncl \<in> free_set fs (b_mem b)" "heap_at (b_heap b') bs"
    "fat_at fs (b_mem b') l = ncl" "fat_at fs (b_mem b') ncl = EOC" "zeroed fs (b_mem b') ncl"
    "same_outside (grow_bytes fs l {ncl} \<union> bytes_at sec 512 \<union> free_bytes bs) b b'"
proof -
  obtain cl where cl: "first_free fs (b_mem b) cl" "cl \<in> free_set fs (b_mem b)" using free_first [OF g] by blast
  have c: "has_cluster fs cl" "has_entry fs cl" "cl \<noteq> 0" "cl \<noteq> l" using cl(1) l(2) by (auto simp: first_free_def has_cluster_def)
  obtain b1 where b1: "fat_alloc sec fs b = Some (b1, cl)" "heap_at (b_heap b1) bs" "new_cluster fs bs sec cl b b1"
    using fat_alloc_ok [OF v h cl(1)] by blast
  obtain m2 where m2: "fat_set sec fs b1 l cl = (b1\<lparr>b_mem := m2\<rparr>, 0)" "fat_at fs m2 l = cl"
    "\<And>x. x \<notin> fat_bytes fs l \<union> bytes_at sec 512 \<Longrightarrow> m2 x = b_mem b1 x" using fat_set_ok [OF v(1,2) l(1), of b1 cl] by metis
  obtain m3 where m3: "fat_set sec fs (b1\<lparr>b_mem := m2\<rparr>) cl EOC = (b1\<lparr>b_mem := m3\<rparr>, 0)" "fat_at fs m3 cl = EOC"
    "\<And>x. x \<notin> fat_bytes fs cl \<union> bytes_at sec 512 \<Longrightarrow> m3 x = m2 x" using fat_set_ok [OF v(1,2) c(2), of "b1\<lparr>b_mem := m2\<rparr>" EOC] by auto
  have "append_cluster sec fs b l = Some (b1\<lparr>b_mem := m3\<rparr>, cl)" using b1(1) c(3) m2(1) m3(1) by (simp add: append_cluster_def)
  moreover have "fat_at fs m3 l = cl"
  proof -
    have "fat_at fs m3 l = fat_at fs m2 l"
    proof (rule fat_at_keep [OF v(1) l(1)])
      fix x assume "x \<in> fat_bytes fs l"
      then have "x \<notin> fat_bytes fs cl \<union> bytes_at sec 512"
        using fat_bytes_disjoint [OF v(1) l(1) c(2) c(4) [symmetric]] fat_bytes_apart [OF v(1) l(1)] by blast
      then show "m3 x = m2 x" by (rule m3(3))
    qed
    then show ?thesis using m2(2) by simp
  qed
  moreover have "zeroed fs m3 cl" unfolding zeroed_def
  proof
    fix x assume x: "x \<in> clus_bytes fs cl"
    then obtain k where k: "x = dev_at (fs_bdev fs) (clus_pos fs cl + k)" "k < csz fs" by (auto simp: clus_bytes_def le_iff_add)
    have "x \<notin> fat_bytes fs l \<union> bytes_at sec 512" "x \<notin> fat_bytes fs cl \<union> bytes_at sec 512"
      using x clus_bytes_apart(1) [OF v(1,3) c(1) l(1)] clus_bytes_apart(1) [OF v(1,3) c(1) c(2)] clus_bytes_apart(2) [OF v(1,3) c(1)] by auto
    then have "m3 x = b_mem b1 x" using m2(3) [of x] m3(3) [of x] by simp
    then show "m3 x = 0" using b1(3) k by (simp add: new_cluster_def)
  qed
  moreover have "same_outside (grow_bytes fs l {cl} \<union> bytes_at sec 512 \<union> free_bytes bs) b (b1\<lparr>b_mem := m3\<rparr>)"
  proof -
    have s1: "same_outside (fat_bytes fs cl \<union> clus_bytes fs cl \<union> bytes_at sec 512 \<union> free_bytes bs) b b1" using b1(3) by (simp add: new_cluster_def)
    have s2: "same_outside (fat_bytes fs l \<union> fat_bytes fs cl \<union> bytes_at sec 512) b1 (b1\<lparr>b_mem := m3\<rparr>)" using m2(3) m3(3) by (auto simp: same_outside_def)
    show ?thesis by (rule same_outside_trans [OF s1 s2]) (auto simp: grow_bytes_def)
  qed
  ultimately show ?thesis using that [of "b1\<lparr>b_mem := m3\<rparr>" cl] cl(2) b1(2) m3(2) by simp
qed

section \<open>A longer chain\<close>

lemma fchain_butlast: "fchain fs m cls \<Longrightarrow> \<forall>c \<in> set (butlast cls). fat_at fs m' c = fat_at fs m c \<Longrightarrow> fchain fs m' cls"
  by (induction fs m cls rule: fchain.induct) auto

lemma fchain_snoc: "fchain fs m cls \<Longrightarrow> fat_at fs m (last cls) = c \<Longrightarrow> has_cluster fs c \<Longrightarrow> has_entry fs c \<Longrightarrow> fchain fs m (cls @ [c])"
  by (induction fs m cls rule: fchain.induct) auto

lemma chain_used: "fchain fs m cls \<Longrightarrow> fat_at fs m (last cls) \<noteq> 0 \<Longrightarrow> c \<in> set cls \<Longrightarrow> fat_at fs m c \<noteq> 0 \<and> has_entry fs c \<and> has_cluster fs c"
proof (induction fs m cls rule: fchain.induct)
  case (3 fs m d d' cs)
  have "d' \<noteq> 0" using 3(2) fchain_first [of fs m d' cs] by (auto simp: has_cluster_def)
  then show ?case using 3 by auto
qed auto

lemma free_cluster: "fat_backed fs m \<Longrightarrow> c \<in> free_set fs m \<Longrightarrow> has_cluster fs c \<and> has_entry fs c \<and> fat_at fs m c = 0"
  by (auto simp: free_set_def fat_backed_def)

lemma chain_append:
  assumes v: "vol_ok fs bs sec" "fat_first fs" "fat_backed fs (b_mem b)" and ch: "fchain fs (b_mem b) cls" "distinct cls" "fat_at fs (b_mem b) (last cls) = EOC"
    and n: "ncl \<in> free_set fs (b_mem b)" "fat_at fs (b_mem b') (last cls) = ncl" "fat_at fs (b_mem b') ncl = EOC"
    and so: "same_outside (grow_bytes fs (last cls) {ncl} \<union> bytes_at sec 512 \<union> free_bytes bs) b b'"
  shows "fchain fs (b_mem b') (cls @ [ncl])" "distinct (cls @ [ncl])" "free_set fs (b_mem b') = free_set fs (b_mem b) - {ncl}"
proof -
  have E: "EOC \<noteq> 0" by (simp add: EOC_def)
  have ne: "cls \<noteq> []" using ch(1) by auto
  have c: "has_cluster fs ncl" "has_entry fs ncl" "fat_at fs (b_mem b) ncl = 0" using free_cluster [OF v(3) n(1)] by simp_all
  have used: "fat_at fs (b_mem b) x \<noteq> 0" "has_entry fs x" if "x \<in> set cls" for x using chain_used [OF ch(1) _ that] ch(3) E by auto
  have l: "has_entry fs (last cls)" "last cls \<in> set cls" using used(2) ne by simp_all
  have nz: "ncl \<noteq> 0" using c(1) by (auto simp: has_cluster_def)
  show "distinct (cls @ [ncl])" using ch(2) used(1) c(3) by auto
  have other: "fat_at fs (b_mem b') x = fat_at fs (b_mem b) x" if "has_entry fs x" "x \<noteq> last cls" "x \<noteq> ncl" for x
    using fat_others [OF v(1,2) so l(1) _ that(1,2)] c(1,2) that(3) by simp
  have "last cls \<notin> set (butlast cls)" using ch(2) append_butlast_last_id [OF ne] by (metis distinct_append not_distinct_conv_prefix)
  then have "\<forall>x \<in> set (butlast cls). fat_at fs (b_mem b') x = fat_at fs (b_mem b) x"
    using other used c(3) by (metis in_set_butlastD)
  then show "fchain fs (b_mem b') (cls @ [ncl])" using fchain_snoc [OF fchain_butlast [OF ch(1)] n(2) c(1,2)] by blast
  show "free_set fs (b_mem b') = free_set fs (b_mem b) - {ncl}"
  proof (rule set_eqI)
    fix x show "x \<in> free_set fs (b_mem b') \<longleftrightarrow> x \<in> free_set fs (b_mem b) - {ncl}"
      using other [of x] n(2,3) ch(3) E nz by (cases "x = last cls \<or> x = ncl") (auto simp: free_set_def)
  qed
qed

lemma extend_chain_ok:
  assumes v: "vol_ok fs bs sec" "dev_writable (fs_bdev fs)" "fat_first fs" and v4: "fat_backed fs (b_mem b)" and h: "heap_at (b_heap b) bs"
    and ch: "fchain fs (b_mem b) cls" "distinct cls" "fat_at fs (b_mem b) (last cls) = EOC"
    and k: "k \<le> card (free_set fs (b_mem b))" "unat needed = length cls + k"
  shows "\<exists>b' new. extend_chain sec fs b (last cls) (of_nat (length cls)) needed = Some (b', last (cls @ new)) \<and> heap_at (b_heap b') bs \<and>
    length new = k \<and> set new \<subseteq> free_set fs (b_mem b) \<and> distinct (cls @ new) \<and> fchain fs (b_mem b') (cls @ new) \<and>
    fat_at fs (b_mem b') (last (cls @ new)) = EOC \<and> (\<forall>c \<in> set new. zeroed fs (b_mem b') c) \<and>
    same_outside (grow_bytes fs (last cls) (set new) \<union> bytes_at sec 512 \<union> free_bytes bs) b b'"
  using v4 h ch k
proof (induction k arbitrary: b cls)
  case 0
  have u: "unat (of_nat (length cls) :: u64) = length cls" using "0.prems"(7) u64_bound [of needed] by (intro u64_of_nat_unat) simp
  have "extend_chain sec fs b (last cls) (of_nat (length cls)) needed = Some (b, last cls)"
    using u "0.prems"(7) by (subst extend_chain.simps) (simp add: word_less_nat_alt)
  then show ?case using 0 by (intro exI [of _ b] exI [of _ "[]"]) simp
next
  case (Suc k)
  have ne: "cls \<noteq> []" using Suc.prems(3) by auto
  have l: "has_entry fs (last cls)" "fat_at fs (b_mem b) (last cls) \<noteq> 0"
    using chain_used [OF Suc.prems(3), of "last cls"] Suc.prems(5) ne by (auto simp: EOC_def)
  have fr: "free_set fs (b_mem b) \<noteq> {}" using Suc.prems(6) by auto
  obtain b1 ncl where a: "append_cluster sec fs b (last cls) = Some (b1, ncl)" "ncl \<in> free_set fs (b_mem b)" "heap_at (b_heap b1) bs"
    "fat_at fs (b_mem b1) (last cls) = ncl" "fat_at fs (b_mem b1) ncl = EOC" "zeroed fs (b_mem b1) ncl"
    "same_outside (grow_bytes fs (last cls) {ncl} \<union> bytes_at sec 512 \<union> free_bytes bs) b b1"
    by (rule append_cluster_ok [OF v Suc.prems(1) fr Suc.prems(2) l])
  note c = chain_append [OF v(1,3) Suc.prems(1) Suc.prems(3-5) a(2,4,5,7)] and nc = free_cluster [OF Suc.prems(1) a(2)]
  have fb: "fat_backed fs (b_mem b1)" using Suc.prems(1) c(3) by (simp add: fat_backed_def)
  have nz: "ncl \<noteq> 0" using nc by (auto simp: has_cluster_def)
  have cd: "k \<le> card (free_set fs (b_mem b1))" using Suc.prems(6) a(2) unfolding c(3) by (simp add: card_Diff_singleton)
  obtain b' new where IH: "extend_chain sec fs b1 ncl (of_nat (length (cls @ [ncl]))) needed = Some (b', last ((cls @ [ncl]) @ new))"
    "heap_at (b_heap b') bs" "length new = k" "set new \<subseteq> free_set fs (b_mem b1)" "distinct ((cls @ [ncl]) @ new)" "fchain fs (b_mem b') ((cls @ [ncl]) @ new)"
    "fat_at fs (b_mem b') (last ((cls @ [ncl]) @ new)) = EOC" "\<forall>c \<in> set new. zeroed fs (b_mem b') c"
    and so: "same_outside (grow_bytes fs ncl (set new) \<union> bytes_at sec 512 \<union> free_bytes bs) b1 b'"
    using Suc.IH [of b1 "cls @ [ncl]"] fb a(3,5) c(1,2) cd Suc.prems(7) by auto
  have u: "unat (of_nat (length cls) :: u64) = length cls" using Suc.prems(7) u64_bound [of needed] by (intro u64_of_nat_unat) simp
  have "extend_chain sec fs b (last cls) (of_nat (length cls)) needed = Some (b', last (cls @ ncl # new))"
    using a(1) nz IH(1) u Suc.prems(7) by (subst extend_chain.simps) (simp add: word_less_nat_alt add.commute)
  moreover have "set (ncl # new) \<subseteq> free_set fs (b_mem b)" using IH(4) a(2) c(3) by auto
  moreover have "zeroed fs (b_mem b') ncl" unfolding zeroed_def
  proof
    fix x assume x: "x \<in> clus_bytes fs ncl"
    have "x \<notin> fat_bytes fs ncl" using x clus_bytes_apart(1) [OF v(1,3)] nc by blast
    moreover have "x \<notin> fat_bytes fs d \<union> clus_bytes fs d" if d: "d \<in> set new" for d
    proof -
      have d': "has_cluster fs d" "has_entry fs d" "d \<noteq> ncl" using free_cluster [OF fb, of d] IH(4,5) d by auto
      show ?thesis using x clus_bytes_apart(1) [OF v(1,3) _ d'(2), of ncl] clus_bytes_disjoint [OF v(1) _ d'(1), of ncl] d'(3) nc by blast
    qed
    moreover have "x \<notin> bytes_at sec 512 \<union> free_bytes bs" using x clus_bytes_apart(2) [OF v(1,3)] nc by blast
    ultimately have "b_mem b' x = b_mem b1 x" by (intro same_outsideD [OF so]) (auto simp: grow_bytes_def)
    then show "b_mem b' x = 0" using a(6) x by (simp add: zeroed_def)
  qed
  moreover have "same_outside (grow_bytes fs (last cls) (set (ncl # new)) \<union> bytes_at sec 512 \<union> free_bytes bs) b b'"
    by (rule same_outside_trans [OF a(7) so]) (auto simp: grow_bytes_def)
  ultimately show ?case using IH(2,3,5-8) by (intro exI [of _ b'] exI [of _ "ncl # new"]) simp
qed

lemma free_set_same: "vol_ok fs bs sec \<Longrightarrow> same_fat fs m m' \<Longrightarrow> free_set fs m' = free_set fs m"
  by (auto simp: free_set_def fat_at_same)

text \<open>What growing the chain \<open>cls\<close> by \<open>new\<close> makes of the state.\<close>

definition grown :: "exfat_fs \<Rightarrow> blk list \<Rightarrow> u64 \<Rightarrow> u32 list \<Rightarrow> u32 list \<Rightarrow> block_state \<Rightarrow> block_state \<Rightarrow> bool" where
  "grown fs bs sec cls new b b' \<longleftrightarrow> heap_at (b_heap b') bs \<and> set new \<subseteq> free_set fs (b_mem b) \<and> distinct (cls @ new) \<and>
     fchain fs (b_mem b') (cls @ new) \<and> fat_at fs (b_mem b') (last (cls @ new)) = EOC \<and> (\<forall>c \<in> set new. zeroed fs (b_mem b') c) \<and>
     same_outside (grow_bytes fs (last cls) (set new) \<union> bytes_at sec 512 \<union> free_bytes bs) b b'"

lemma ensure_chain_grows:
  assumes v: "vol_ok fs bs sec" "dev_writable (fs_bdev fs)" "fat_first fs" and g: "fat_backed fs (b_mem b)" and h: "heap_at (b_heap b) bs"
    and ch: "fchain fs (b_mem b) cls" "distinct cls" "fat_at fs (b_mem b) (last cls) = EOC"
    and k: "unat needed - length cls \<le> card (free_set fs (b_mem b))"
  shows "\<exists>b' new. ensure_chain_length sec fs b (cls ! 0) needed = Some (b', cls ! 0, last (cls @ new)) \<and>
    length new = unat needed - length cls \<and> grown fs bs sec cls new b b'"
proof -
  obtain c cs where cls: "cls = c # cs" using ch(1) by (cases cls) auto
  have c: "has_entry fs c" "\<not> c < 2" using fchain_first [OF ch(1) [unfolded cls]] has_cluster_not_end [OF v(1)] by (auto simp: not_less)
  have l: "has_entry fs (last cls)" using chain_used [OF ch(1), of "last cls"] ch(3) by (auto simp: cls EOC_def)
  have keep: "fchain fs m cls \<and> fat_at fs m (last cls) = EOC \<and> fat_at fs m c = fat_at fs (b_mem b) c \<and> free_set fs m = free_set fs (b_mem b) \<and> fat_backed fs m"
    if "\<forall>x. x \<notin> bytes_at sec 512 \<longrightarrow> m x = b_mem b x" for m
  proof -
    have sf: "same_fat fs (b_mem b) m" using same_disk_fat [OF v(1) sec_disk [OF v(1)]] that by blast
    show ?thesis using fchain_same [OF v(1) sf ch(1)] fat_at_same [OF v(1) l sf] fat_at_same [OF v(1) c(1) sf] ch(3) free_set_same [OF v(1) sf] g
      by (simp add: fat_backed_def)
  qed
  obtain m1 where m1: "fat_get sec fs b c = (b\<lparr>b_mem := m1\<rparr>, fat_at fs (b_mem b) c)" "\<And>x. x \<notin> bytes_at sec 512 \<Longrightarrow> m1 x = b_mem b x"
    using fat_get_ok [OF v(1) c(1)] by metis
  have k1: "fchain fs m1 cls" "fat_at fs m1 (last cls) = EOC" "fat_at fs m1 c = fat_at fs (b_mem b) c" using keep [of m1] m1(2) by simp_all
  have "\<exists>m'. chain_end sec fs (b\<lparr>b_mem := m1\<rparr>) c (fat_at fs m1 c) 1 = Some (b\<lparr>b_mem := m'\<rparr>, last cls, 1 + of_nat (length cs)) \<and>
      (\<forall>x. x \<notin> bytes_at sec 512 \<longrightarrow> m' x = m1 x)"
    using chain_end_ok [OF v(1), of "b\<lparr>b_mem := m1\<rparr>" c cs 1] k1(1,2) by (simp add: cls)
  then obtain m2 where m2: "chain_end sec fs (b\<lparr>b_mem := m1\<rparr>) c (fat_at fs (b_mem b) c) 1 =
      Some (b\<lparr>b_mem := m2\<rparr>, last cls, of_nat (length cls))" "\<forall>x. x \<notin> bytes_at sec 512 \<longrightarrow> m2 x = m1 x" unfolding k1(3) by (auto simp: cls)
  have m2b: "\<forall>x. x \<notin> bytes_at sec 512 \<longrightarrow> m2 x = b_mem b x" using m2(2) m1(2) by simp
  note k2 = keep [OF m2b]
  let ?b2 = "b\<lparr>b_mem := m2\<rparr>"
  have s2: "same_outside (bytes_at sec 512) b ?b2" using m2b by (simp add: same_outside_def)
  have ens: "ensure_chain_length sec fs b (cls ! 0) needed = Some (b', cls ! 0, t)"
    if "extend_chain sec fs ?b2 (last cls) (of_nat (length cls)) needed = Some (b', t)" for b' t
    using c(2) m1(1) m2(1) that by (simp add: ensure_chain_length_def cls)
  show ?thesis
  proof (cases "length cls < unat needed")
    case True
    then have n: "unat needed = length cls + (unat needed - length cls)" by simp
    obtain b' new where e: "extend_chain sec fs ?b2 (last cls) (of_nat (length cls)) needed = Some (b', last (cls @ new))"
      "length new = unat needed - length cls" and gr: "grown fs bs sec cls new ?b2 b'"
      using extend_chain_ok [OF v, of ?b2 cls "unat needed - length cls" needed] k2 h ch(2) k n unfolding grown_def by auto
    have "same_outside (grow_bytes fs (last cls) (set new) \<union> bytes_at sec 512 \<union> free_bytes bs) b b'"
      by (rule same_outside_trans [OF s2]) (use gr in \<open>auto simp: grown_def\<close>)
    then have "grown fs bs sec cls new b b'" using gr k2 by (simp add: grown_def)
    then show ?thesis using ens [OF e(1)] e(2) by blast
  next
    case False
    have "length cls \<le> 2 ^ 32" by (rule chain_bytes(1) [OF v(1) ch(2)])
    then have "unat (of_nat (length cls) :: u64) = length cls" by (intro u64_of_nat_unat) simp
    then have "extend_chain sec fs ?b2 (last cls) (of_nat (length cls)) needed = Some (?b2, last cls)"
      using False by (subst extend_chain.simps) (simp add: word_less_nat_alt)
    moreover have "same_outside (grow_bytes fs (last cls) (set []) \<union> bytes_at sec 512 \<union> free_bytes bs) b ?b2"
      by (rule same_outside_mono [OF s2]) auto
    then have "grown fs bs sec cls [] b ?b2" using k2 h ch(2) by (simp add: grown_def)
    ultimately show ?thesis using ens False by (intro exI [of _ ?b2] exI [of _ "[]"]) simp
  qed
qed

section \<open>The bytes of a grown file\<close>

lemma file_at_append:
  assumes "k < csz fs * length cls"
  shows "file_at fs (cls @ ds) k = file_at fs cls k"
proof -
  have "k div csz fs < length cls" using assms by (simp add: less_mult_imp_div_less mult.commute)
  then show ?thesis by (simp add: file_at_def nth_append)
qed

lemma file_at_cluster:
  assumes "0 < csz fs"
  shows "file_at fs cls k \<in> clus_bytes fs (cls ! (k div csz fs))"
  unfolding file_at_def clus_bytes_def using mod_less_divisor [OF assms, of k] by simp

lemma grow_bytes_dev:
  assumes v: "vol_ok fs bs sec" and l: "has_entry fs l" "\<forall>c \<in> new. has_cluster fs c \<and> has_entry fs c"
  shows "grow_bytes fs l new \<subseteq> dev_bytes (fs_bdev fs)"
  using fat_bytes_dev [OF v] clus_bytes_dev [OF v] l unfolding grow_bytes_def by blast

lemma grown_file:
  assumes v: "vol_ok fs bs sec" "fat_first fs" and g: "fat_backed fs (b_mem b)" and ch: "fchain fs (b_mem b) cls" "fat_at fs (b_mem b) (last cls) = EOC"
    and gr: "grown fs bs sec cls new b b'" and k: "k < csz fs * length (cls @ new)"
  shows "b_mem b' (file_at fs (cls @ new) k) = (if k < csz fs * length cls then b_mem b (file_at fs cls k) else 0)"
proof -
  have z: "0 < csz fs" using vol_okD(5) [OF v(1)] .
  define i where "i = k div csz fs"
  have i: "i < length (cls @ new)" using k by (simp add: i_def less_mult_imp_div_less mult.commute)
  have x: "file_at fs (cls @ new) k \<in> clus_bytes fs ((cls @ new) ! i)" unfolding i_def by (rule file_at_cluster [OF z])
  have nw: "\<forall>c \<in> set new. has_cluster fs c \<and> has_entry fs c" using gr free_cluster [OF g] unfolding grown_def by blast
  have lt: "k < csz fs * length cls \<longleftrightarrow> i < length cls" unfolding i_def using z by (metis div_less_iff_less_mult mult.commute)
  show ?thesis
  proof (cases "i < length cls")
    case True
    have c: "has_cluster fs (cls ! i)" "cls ! i \<in> set cls" using fchain_nth [OF ch(1) True] True by simp_all
    have l: "has_entry fs (last cls)" using chain_used [OF ch(1), of "last cls"] ch(2) c(2) by (cases cls) (auto simp: EOC_def)
    have "(cls @ new) ! i = cls ! i" using True by (simp add: nth_append)
    then have xc: "file_at fs (cls @ new) k \<in> clus_bytes fs (cls ! i)" using x by simp
    have "file_at fs (cls @ new) k \<notin> fat_bytes fs d \<union> clus_bytes fs d" if d: "d \<in> set new" for d
    proof -
      have d': "has_cluster fs d" "has_entry fs d" "cls ! i \<noteq> d" using nw gr c(2) d unfolding grown_def by auto
      show ?thesis using xc clus_bytes_apart(1) [OF v c(1) d'(2)] clus_bytes_disjoint [OF v(1) c(1) d'(1,3)] by blast
    qed
    moreover have "file_at fs (cls @ new) k \<notin> fat_bytes fs (last cls)" using xc clus_bytes_apart(1) [OF v c(1) l] by blast
    moreover have "file_at fs (cls @ new) k \<notin> bytes_at sec 512 \<union> free_bytes bs" using xc clus_bytes_apart(2) [OF v c(1)] by blast
    ultimately have "file_at fs (cls @ new) k \<notin> grow_bytes fs (last cls) (set new) \<union> bytes_at sec 512 \<union> free_bytes bs"
      unfolding grow_bytes_def by blast
    then show ?thesis using gr same_outsideD True lt file_at_append [of k fs cls new] unfolding grown_def by auto
  next
    case False
    then have "(cls @ new) ! i \<in> set new" using i by (simp add: nth_append)
    then show ?thesis using gr x False lt unfolding grown_def zeroed_def by auto
  qed
qed

lemma needed_clusters:
  assumes v: "vol_ok fs bs sec" and L: "L \<le> 2 ^ 33" and e: "unat (off :: u64) + unat len \<le> csz fs * L"
  shows "unat ((off + len + ucast (cluster_size fs) - 1) div ucast (cluster_size fs)) = (unat off + unat len + csz fs - 1) div csz fs"
proof -
  let ?z = "ucast (cluster_size fs) :: u64"
  note o = vol_okD [OF v]
  have "csz fs * L \<le> 2 ^ 17 * 2 ^ 33" using o(6) L by (intro mult_le_mono) simp_all
  then have b: "unat off + unat len + csz fs < 2 ^ 64" using e o(6) by simp
  have s: "unat (off + len) = unat off + unat len" using b by (subst unat_add_small) simp_all
  have s2: "unat (off + len + ?z) = unat off + unat len + csz fs" using b s o(9) by (subst unat_add_small) simp_all
  then have "unat (off + len + ?z - 1) = unat off + unat len + csz fs - 1"
    using o(5) by (subst unat_sub) (simp_all add: word_le_nat_alt)
  then show ?thesis using o(9) by (simp add: unat_div)
qed

lemma clusters_enough: "0 < z \<Longrightarrow> (x + z - 1) div z \<le> L \<Longrightarrow> x \<le> z * (L :: nat)"
proof -
  assume z: "0 < z" and L: "(x + z - 1) div z \<le> L"
  have "x + z - 1 < z * ((x + z - 1) div z + 1)" using z by (simp add: dividend_less_times_div)
  also have "\<dots> \<le> z * (L + 1)" using L by (intro mult_le_mono2) simp
  finally show "x \<le> z * L" by simp
qed

text \<open>What growing a file and writing to it leaves of the directory, and what storing the size then does.\<close>

lemma grown_dir:
  assumes v: "vol_ok fs bs sec" "dev_writable (fs_bdev fs)" "fat_first fs" and r: "has_cluster fs (root_dir_cluster fs)"
    and l: "has_entry fs (last cls)" "\<forall>c \<in> set new. has_cluster fs c \<and> has_entry fs c \<and> fat_at fs (b_mem b) c = 0"
    and r2: "root_dir_cluster fs \<notin> set (cls @ new)" and ch: "fchain fs (b_mem b1) (cls @ new)" "cls \<noteq> []"
    and room: "unat off + unat len \<le> csz fs * length (cls @ new)"
    and s1: "same_outside (grow_bytes fs (last cls) (set new) \<union> bytes_at sec 512 \<union> free_bytes bs) b b1"
    and up: "\<exists>b3 sz' rc. unat sz' = n \<and> heap_at (b_heap b3) bs \<and>
      same_outside (file_at fs (cls @ new) ` {unat off..<unat off + unat len} \<union> bytes_at sec 512 \<union> free_bytes bs) b1 b3 \<and>
      dir_update_stream_by_first_cluster fs b3 (cls ! 0) (cls ! 0) sz' = Some (b', rc)"
  shows "root_entries fs (b_mem b') = resize_first (cls ! 0) (of_nat n) (root_entries fs (b_mem b)) \<and>
    (\<forall>x. x \<notin> file_at fs (cls @ new) ` {unat off..<unat off + unat len} \<union> size_bytes fs (b_mem b) (cls ! 0) \<union>
       grow_bytes fs (last cls) (set new) \<union> bytes_at sec 512 \<union> free_bytes bs \<longrightarrow> b_mem b' x = b_mem b x)"
proof -
  let ?r = "root_dir_cluster fs" and ?W = "file_at fs (cls @ new) ` {unat off..<unat off + unat len}"
  obtain b3 sz' rc where u: "unat sz' = n" "heap_at (b_heap b3) bs" "same_outside (?W \<union> bytes_at sec 512 \<union> free_bytes bs) b1 b3"
    "dir_update_stream_by_first_cluster fs b3 (cls ! 0) (cls ! 0) sz' = Some (b', rc)" using up by blast
  have "cls ! 0 \<noteq> 0" using fchain_nth [OF ch(1), of 0] has_cluster_not_end [OF v(1)] ch(2) by (simp add: nth_append)
  note d = dir_update_exact [OF v(1,2) r u(2) this u(4)]
  have "b_mem b3 x = b_mem b x" if x: "x \<in> clus_bytes fs ?r" for x
  proof -
    have "x \<notin> ?W" using file_not_root [OF v(1) ch(1) _ r r2] room x by fastforce
    moreover have "x \<notin> bytes_at sec 512 \<union> free_bytes bs" using clus_bytes_apart(2) [OF v(1,3) r] x by blast
    moreover have "x \<notin> fat_bytes fs c" if "has_entry fs c" for c using clus_bytes_apart(1) [OF v(1,3) r that] x by blast
    moreover have "x \<notin> clus_bytes fs c" if "c \<in> set new" for c
      using clus_bytes_disjoint [OF v(1) r, of c] l(2) that r2 x by auto
    ultimately show ?thesis using same_outsideD [OF u(3), of x] same_outsideD [OF s1, of x] l by (auto simp: grow_bytes_def)
  qed
  then have keep: "root_entries fs (b_mem b3) = root_entries fs (b_mem b)" "size_bytes fs (b_mem b3) (cls ! 0) = size_bytes fs (b_mem b) (cls ! 0)"
    by (intro root_keep [OF v(1) r]; blast)+
  have "sz' = of_nat (unat sz')" by simp
  then have "sz' = of_nat n" unfolding u(1) .
  then have "root_entries fs (b_mem b') = resize_first (cls ! 0) (of_nat n) (root_entries fs (b_mem b))" using d keep(1) by simp
  moreover have "b_mem b' x = b_mem b x" if "x \<notin> ?W \<union> size_bytes fs (b_mem b) (cls ! 0) \<union>
       grow_bytes fs (last cls) (set new) \<union> bytes_at sec 512 \<union> free_bytes bs" for x
    using that d keep(2) same_outsideD [OF u(3), of x] same_outsideD [OF s1, of x] same_outsideD [of _ b3 b' x] by auto
  ultimately show ?thesis by blast
qed

section \<open>Writing past the end\<close>

text \<open>
  C29. A write to an open file, inside it or past its end, returns its length. When the chain is too
  short it gets as many free clusters as are needed. The file is then as long as before or reaches
  to the end of what was written; it holds the written bytes at the offset, its old bytes elsewhere,
  and zeros in the rest of the new clusters. The directory lists the same entries as before, with the
  new size in the first one whose file starts at this file's first cluster. Nothing else changes: of
  the directory the eight bytes of that size, of the FAT the entries of the old end of the chain and of
  the new clusters, and the sector buffer and unused heap memory.
\<close>

theorem exfat_write_grows:
  assumes v: "vol_ok fs bs sec" "dev_writable (fs_bdev fs)" "fat_first fs" and g: "fat_backed fs (b_mem b)" and h: "heap_at (b_heap b) bs"
    and r: "has_cluster fs (root_dir_cluster fs)" "root_dir_cluster fs \<notin> set cls" "fat_at fs (b_mem b) (root_dir_cluster fs) \<noteq> 0"
    and f: "open_file fs (b_mem b) n cls sz" "distinct cls" "fat_at fs (b_mem b) (last cls) = EOC"
    and e: "unat off + unat len \<le> csz fs * (length cls + card (free_set fs (b_mem b)))" "0 < len" "unat len < 2 ^ 31"
    and u: "user_buf fs bs sec buf (unat len)"
  shows "\<exists>b' n' new. exfat_write sec b n off buf len = Some (b', n', int (unat len)) \<and> heap_at (b_heap b') bs \<and>
    set new \<subseteq> free_set fs (b_mem b) \<and> length new = (unat off + unat len + csz fs - 1) div csz fs - length cls \<and>
    distinct (cls @ new) \<and> open_file fs (b_mem b') n' (cls @ new) (max sz (unat off + unat len)) \<and>
    fat_at fs (b_mem b') (last (cls @ new)) = EOC \<and>
    (\<forall>k < csz fs * length (cls @ new). b_mem b' (file_at fs (cls @ new) k) =
       (if unat off \<le> k \<and> k < unat off + unat len then b_mem b (buf + of_nat (k - unat off))
        else if k < csz fs * length cls then b_mem b (file_at fs cls k) else 0)) \<and>
    root_entries fs (b_mem b') = resize_first (cls ! 0) (of_nat (max sz (unat off + unat len))) (root_entries fs (b_mem b)) \<and>
    (\<forall>x. x \<notin> file_at fs (cls @ new) ` {unat off..<unat off + unat len} \<union> size_bytes fs (b_mem b) (cls ! 0) \<union>
       grow_bytes fs (last cls) (set new) \<union> bytes_at sec 512 \<union> free_bytes bs \<longrightarrow> b_mem b' x = b_mem b x)"
proof -
  let ?r = "root_dir_cluster fs" and ?z = "ucast (cluster_size fs) :: u64"
  note o = vol_okD [OF v(1)]
  obtain en where en: "file_priv n = Exfat_Node en" "first_cluster en = cls ! 0" "\<not> en_is_dir en" "unat (en_size en) = sz"
    "fs_priv n = Priv_Exfat fs" "sz \<le> csz fs * length cls" and ch: "fchain fs (b_mem b) cls" using f(1) by (auto simp: open_file_def)
  have ne: "cls \<noteq> []" using ch by auto
  have "card (free_set fs (b_mem b)) \<le> CARD(u32)" by (rule card_mono) simp_all
  then have "length cls + card (free_set fs (b_mem b)) \<le> 2 ^ 33" using chain_bytes(1) [OF v(1) f(2)] by (simp add: card_word)
  note nd = needed_clusters [OF v(1) this e(1)] and le = clusters_needed [OF e(1) o(5)]
  have few: "unat ((off + len + ?z - 1) div ?z) - length cls \<le> card (free_set fs (b_mem b))" unfolding nd using le by linarith
  obtain b1 new where b1: "ensure_chain_length sec fs b (cls ! 0) ((off + len + ?z - 1) div ?z) = Some (b1, cls ! 0, last (cls @ new))"
    "length new = (unat off + unat len + csz fs - 1) div csz fs - length cls" and gr: "grown fs bs sec cls new b b1"
    using ensure_chain_grows [OF v g h ch f(2,3) few] unfolding nd by blast
  have hd: "(cls @ new) ! 0 = cls ! 0" using ne by (simp add: nth_append)
  have nw: "\<forall>c \<in> set new. has_cluster fs c \<and> has_entry fs c \<and> fat_at fs (b_mem b) c = 0" using gr free_cluster [OF g] unfolding grown_def by blast
  have r2: "?r \<notin> set (cls @ new)" using r(2,3) nw by auto
  have grD: "heap_at (b_heap b1) bs" "fchain fs (b_mem b1) (cls @ new)" "distinct (cls @ new)" "fat_at fs (b_mem b1) (last (cls @ new)) = EOC"
    "set new \<subseteq> free_set fs (b_mem b)" and s1: "same_outside (grow_bytes fs (last cls) (set new) \<union> bytes_at sec 512 \<union> free_bytes bs) b b1"
    using gr unfolding grown_def by blast+
  have room: "unat off + unat len \<le> csz fs * length (cls @ new)" using b1(2) by (intro clusters_enough [OF o(5)]) simp
  have sz: "sz \<le> csz fs * length (cls @ new)" using en(6) by (simp add: add_mult_distrib2)
  obtain b' n' where w: "exfat_write sec b n off buf len = Some (b', n', int (unat len))" "heap_at (b_heap b') bs"
    "open_file fs (b_mem b') n' (cls @ new) (max sz (unat off + unat len))" "fat_at fs (b_mem b') (last (cls @ new)) = EOC"
    and data: "\<forall>i < unat len. b_mem b' (file_at fs (cls @ new) (unat off + i)) = b_mem b1 (buf + of_nat i)"
    and so: "same_outside (file_at fs (cls @ new) ` {unat off..<unat off + unat len} \<union> clus_bytes fs ?r \<union> bytes_at sec 512 \<union> free_bytes bs) b1 b'"
    and up: "\<exists>b3 sz' rc. unat sz' = max sz (unat off + unat len) \<and> heap_at (b_heap b3) bs \<and>
      same_outside (file_at fs (cls @ new) ` {unat off..<unat off + unat len} \<union> bytes_at sec 512 \<union> free_bytes bs) b1 b3 \<and>
      dir_update_stream_by_first_cluster fs b3 ((cls @ new) ! 0) ((cls @ new) ! 0) sz' = Some (b', rc)"
    using exfat_write_from [OF v(1,3,2) grD(1) r(1) r2 en(1) en(2) [folded hd] en(3-5) sz grD(2-4) b1(1) [folded hd] room e(2,3) u] by blast
  have l: "has_entry fs (last cls)" using chain_used [OF ch, of "last cls"] f(3) ne by (simp add: EOC_def)
  have ub: "b_mem b1 (buf + of_nat i) = b_mem b (buf + of_nat i)" if i: "i < unat len" for i
  proof -
    have "buf + of_nat i \<in> bytes_at buf (unat len)" using i u64_bound [of len] by (intro bytes_at_offset) simp_all
    then have "buf + of_nat i \<notin> dev_bytes (fs_bdev fs) \<union> bytes_at sec 512 \<union> free_bytes bs" using u by (auto simp: user_buf_def clear_def)
    then show ?thesis using grow_bytes_dev [OF v(1) l, of "set new"] nw by (intro same_outsideD [OF s1]) auto
  qed
  have "b_mem b' (file_at fs (cls @ new) k) =
       (if unat off \<le> k \<and> k < unat off + unat len then b_mem b (buf + of_nat (k - unat off))
        else if k < csz fs * length cls then b_mem b (file_at fs cls k) else 0)" if k: "k < csz fs * length (cls @ new)" for k
  proof (cases "unat off \<le> k \<and> k < unat off + unat len")
    case True
    then have "k - unat off < unat len" by (simp add: less_diff_conv2)
    then show ?thesis using data [rule_format, of "k - unat off"] ub [of "k - unat off"] True by simp
  next
    case False
    have "b_mem b' (file_at fs (cls @ new) k) = b_mem b1 (file_at fs (cls @ new) k)"
      by (rule same_outsideD [OF so file_kept [OF v(1) grD(2,3) r(1) r2 k False room]])
    then show ?thesis unfolding grown_file [OF v(1,3) g ch f(3) gr k] if_not_P [OF False] .
  qed
  moreover have "root_entries fs (b_mem b') = resize_first (cls ! 0) (of_nat (max sz (unat off + unat len))) (root_entries fs (b_mem b)) \<and>
    (\<forall>x. x \<notin> file_at fs (cls @ new) ` {unat off..<unat off + unat len} \<union> size_bytes fs (b_mem b) (cls ! 0) \<union>
       grow_bytes fs (last cls) (set new) \<union> bytes_at sec 512 \<union> free_bytes bs \<longrightarrow> b_mem b' x = b_mem b x)"
    using grown_dir [OF v r(1) l nw r2 grD(2) ne room s1] up unfolding hd by blast
  ultimately show ?thesis using w grD(3,5) b1(2) by (intro exI [of _ b'] exI [of _ n'] exI [of _ new]) simp
qed

text \<open>The small volume with its file of two clusters; only cluster 5 is free.\<close>

lemma demo_fat_used:
  assumes "unat c < 128" "unat c \<notin> {3, 4, 5}"
  shows "fat_at demo_vol (b_mem demo_new_store) c \<noteq> 0"
proof -
  define j where "j = 513 + 4 * unat c"
  have j: "j < 2 ^ 32" "odd j" "\<not> (524 \<le> j \<and> j < 536)" using assms by (auto simp: j_def)
  have st: "b_mem demo_new_store = store_le 4 (store_le 4 (store_le 4 demo_mem (0x200000 + of_nat 524) (4 :: u32)) (0x200000 + of_nat 528) EOC) (0x200000 + of_nat 532) (0 :: u32)"
    by (simp add: demo_new_store_def demo_image_def store32_def)
  have bt: "bit (0x200000 + j) 0" using j(2) by (simp add: bit_0)
  have p: "(524 :: nat) < 2 ^ 32" "(528 :: nat) < 2 ^ 32" "(532 :: nat) < 2 ^ 32" "(4 :: nat) \<le> 8" by simp_all
  have "b_mem demo_new_store (0x200000 + of_nat j) = demo_mem (0x200000 + of_nat j)"
    unfolding st store_at [OF j(1) p(3,4)] store_at [OF j(1) p(2,4)] store_at [OF j(1) p(1,4)] using j(3) by auto
  also have "\<dots> = ucast (of_nat (0x200000 + j) :: u64)" by (simp add: demo_mem_def)
  finally have "bit (b_mem demo_new_store (0x200000 + of_nat j)) 0" using bt by (simp add: bit_simps del: of_nat_add)
  moreover have "image demo_disk (b_mem demo_new_store) (of_nat (fat_pos demo_vol c) + 1) = b_mem demo_new_store (0x200000 + of_nat j)"
  proof -
    have "of_nat (fat_pos demo_vol c) + 1 = (of_nat j :: u64)" by (simp add: fat_pos_def demo_vol_def j_def)
    then show ?thesis using u64_of_nat_unat [of j] j(1) by (simp add: image_def demo_disk_def dev_geom)
  qed
  ultimately have "bit (fat_at demo_vol (b_mem demo_new_store) c) 8"
    unfolding fat_at_def load32_def bit_load_le demo_vol_geometry by simp
  then show ?thesis by auto
qed

lemma demo_free: "free_set demo_vol (b_mem demo_new_store) = {5}"
proof -
  have o: "fat_at demo_vol (b_mem demo_new_store) 3 \<noteq> 0" "fat_at demo_vol (b_mem demo_new_store) 4 \<noteq> 0" by code_simp+
  have "c = 5" if c: "c \<in> free_set demo_vol (b_mem demo_new_store)" for c
  proof -
    have f: "unat c < 128" "fat_at demo_vol (b_mem demo_new_store) c = 0" using c by (auto simp: free_set_def has_entry_def demo_vol_def)
    then have "unat c = 3 \<or> unat c = 4 \<or> unat c = 5" using demo_fat_used [OF f(1)] by auto
    then have "c = 3 \<or> c = 4 \<or> c = 5" by (simp add: word_unat_eq_iff)
    then show ?thesis using f(2) o by auto
  qed
  moreover have "5 \<in> free_set demo_vol (b_mem demo_new_store)" using demo_new(1) by (simp add: first_free_def free_set_def)
  ultimately show ?thesis by blast
qed

text \<open>The same volume with the file in its directory.\<close>

definition demo_dir_store :: block_state where
  "demo_dir_store = demo_new_store\<lparr>b_mem := store64 (new_dir ''a'' 3 0 512 0x200400 (b_mem demo_new_store)) (0x200400 + of_nat 56) 600\<rparr>"

lemma demo_dir_outside:
  assumes x: "x \<notin> bytes_at 0x200400 512"
  shows "b_mem demo_dir_store x = b_mem demo_new_store x"
proof -
  have "new_dir ''a'' 3 0 512 0x200400 (b_mem demo_new_store) x = b_mem demo_new_store x" by (rule new_dir_outside [OF x]) simp_all
  moreover have "store_le 8 m (0x200400 + of_nat 56) (600 :: u64) x = m x" for m by (rule store_outside [OF x]) simp_all
  ultimately show ?thesis by (simp add: demo_dir_store_def store64_def)
qed

lemma demo_dir:
  "same_fat demo_vol (b_mem demo_new_store) (b_mem demo_dir_store)" "heap_at (b_heap demo_dir_store) demo_blks"
  "root_entries demo_vol (b_mem demo_dir_store) = [\<lparr>de_first_cluster = 3, de_size = 600, de_is_dir = False, de_name = ''a''\<rparr>]"
proof -
  have sub: "bytes_at 0x200400 512 \<subseteq> heap_bytes demo_vol"
  proof
    fix x assume "x \<in> bytes_at 0x200400 512"
    then obtain i where i: "i < 512" "x = 0x200400 + of_nat i" using bytes_at_E by blast
    then have "x = dev_at (fs_bdev demo_vol) (1024 + i)" by (simp add: demo_vol_def demo_disk_def dev_geom)
    moreover have "clus_pos demo_vol 2 = 1024" by (simp add: clus_pos_def demo_vol_def)
    ultimately have "x \<in> clus_bytes demo_vol 2" using i(1) by (auto simp: clus_bytes_def demo_vol_geometry)
    then show "x \<in> heap_bytes demo_vol" using clus_bytes_heap [OF demo_vol_ok(1), of 2] demo_vol_geometry by blast
  qed
  have "same_outside (heap_bytes demo_vol \<union> bytes_at 0x3000 512 \<union> free_bytes demo_blks) demo_new_store demo_dir_store"
    using sub demo_dir_outside unfolding same_outside_def by (auto simp: demo_dir_store_def)
  then show "same_fat demo_vol (b_mem demo_new_store) (b_mem demo_dir_store)" by (rule fat_keep [OF demo_vol_ok(1) demo_vol_geometry(10)])
  show "heap_at (b_heap demo_dir_store) demo_blks" using demo_new(4) by (simp add: demo_dir_store_def)
  let ?n = "new_dir ''a'' 3 0 512 0x200400 (b_mem demo_new_store)" and ?m = "b_mem demo_dir_store" and ?a = "0x200400 :: u64"
  have m: "?m = store64 ?n (?a + of_nat 56) 600" by (simp add: demo_dir_store_def)
  have e: "?n (?a + of_nat 0) = 0x85" "?n (?a + of_nat (0 + 32)) = 0xC0" "load32 ?n (?a + of_nat (0 + 52)) = 3"
    using new_dir_entries [where d = 0 and sz = 512 and q = "''a''" and n = 1 and cl = 3 and a = ?a and m = "b_mem demo_new_store"] by simp_all
  have hit: "find_stream ?n ?a 512 3 0 = Some 0" by (rule find_stream_hit) (use e in simp_all)
  have at: "?m (?a + of_nat k) = ?n (?a + of_nat k)" if "k < 512" "\<not> (56 \<le> k \<and> k < 64)" for k
    unfolding m store64_def using that by (subst store_at) auto
  have "load64 ?m (?a + of_nat (0 + 56)) = 600" unfolding m by (simp del: of_nat_numeral)
  then have "resized 3 600 ?n ?a ?m ?a 512 0" unfolding resized_def hit using at by auto
  then have "dir_entries ?m ?a 512 0 = resize_first 3 600 (dir_entries ?n ?a 512 0)" by (rule dir_entries_resize) simp
  also have "dir_entries ?n ?a 512 0 = [new_entry ''a'' 3]" by (rule dir_entries_new [where n = 1]) (simp_all add: plain_name_def)
  finally have d: "dir_entries ?m ?a 512 0 = [\<lparr>de_first_cluster = 3, de_size = 600, de_is_dir = False, de_name = ''a''\<rparr>]" by (simp add: new_entry_def)
  have "image demo_disk ?m (root_pos demo_vol + of_nat k) = ?m (?a + of_nat k)" if "k < 512" for k
    using root_image [OF demo_vol_ok(1), of k ?m] that demo_vol_geometry by (simp add: clus_pos_def demo_vol_def demo_disk_def dev_geom)
  then have "same_bytes ?m ?a (image demo_disk ?m) (root_pos demo_vol) 512" by (simp add: same_bytes_def)
  from dir_entries_same [OF this] d
  show "root_entries demo_vol ?m = [\<lparr>de_first_cluster = 3, de_size = 600, de_is_dir = False, de_name = ''a''\<rparr>]"
    by (simp add: root_entries_def demo_vol_geometry)
qed

theorem exfat_write_grows_witness:
  "\<exists>b' n'. exfat_write 0x3000 demo_dir_store demo_exfat_file 1000 0x4000 300 = Some (b', n', 300) \<and>
     open_file demo_vol (b_mem b') n' [3, 4, 5] 1300 \<and> b_mem b' (file_at demo_vol [3, 4, 5] 1026) = b_mem demo_dir_store 0x401A \<and>
     b_mem b' (file_at demo_vol [3, 4, 5] 1400) = 0 \<and>
     root_entries demo_vol (b_mem b') = [\<lparr>de_first_cluster = 3, de_size = 1300, de_is_dir = False, de_name = ''a''\<rparr>]"
proof -
  have u: "user_buf demo_vol demo_blks 0x3000 0x4000 (unat (300 :: u64))" by (rule demo_user_buf) simp_all
  have fr: "free_set demo_vol (b_mem demo_dir_store) = {5}" using free_set_same [OF demo_vol_ok(1) demo_dir(1)] demo_free by simp
  then have fb: "fat_backed demo_vol (b_mem demo_dir_store)" using demo_new(1) by (simp add: fat_backed_def first_free_def)
  have "has_entry demo_vol 2" by (simp add: has_entry_def demo_vol_def)
  moreover have "fat_at demo_vol (b_mem demo_new_store) 3 = 4" "fat_at demo_vol (b_mem demo_new_store) 4 = EOC" "fat_at demo_vol (b_mem demo_new_store) 2 \<noteq> 0"
    by code_simp+
  ultimately have fat: "fat_at demo_vol (b_mem demo_dir_store) 3 = 4" "fat_at demo_vol (b_mem demo_dir_store) 4 = EOC" "fat_at demo_vol (b_mem demo_dir_store) 2 \<noteq> 0"
    using fat_at_same [OF demo_vol_ok(1) _ demo_dir(1)] demo_vol_geometry(8,9) by simp_all
  have f: "open_file demo_vol (b_mem demo_dir_store) demo_exfat_file [3, 4] 600"
    using fat by (simp add: open_file_def demo_exfat_file_def demo_vol_geometry)
  have r: "has_cluster demo_vol (root_dir_cluster demo_vol)" "root_dir_cluster demo_vol \<notin> set [3, 4]"
    "fat_at demo_vol (b_mem demo_dir_store) (root_dir_cluster demo_vol) \<noteq> 0" using fat(3) by (simp_all add: demo_vol_geometry)
  have e: "unat (1000 :: u64) + unat (300 :: u64) \<le> csz demo_vol * (length [3 :: u32, 4] + card (free_set demo_vol (b_mem demo_dir_store)))"
    by (simp add: fr demo_vol_geometry)
  have l: "fat_at demo_vol (b_mem demo_dir_store) (last [3, 4]) = EOC" using fat(2) by simp
  obtain b' n' new where w: "exfat_write 0x3000 demo_dir_store demo_exfat_file 1000 0x4000 300 = Some (b', n', int (unat (300 :: u64)))"
    "set new \<subseteq> {5}" "length new = (unat (1000 :: u64) + unat (300 :: u64) + csz demo_vol - 1) div csz demo_vol - length [3 :: u32, 4]"
    "open_file demo_vol (b_mem b') n' ([3, 4] @ new) (max 600 (unat (1000 :: u64) + unat (300 :: u64)))"
    "\<forall>k < csz demo_vol * length ([3, 4] @ new). b_mem b' (file_at demo_vol ([3, 4] @ new) k) =
       (if unat (1000 :: u64) \<le> k \<and> k < unat (1000 :: u64) + unat (300 :: u64) then b_mem demo_dir_store (0x4000 + of_nat (k - unat (1000 :: u64)))
        else if k < csz demo_vol * length [3 :: u32, 4] then b_mem demo_dir_store (file_at demo_vol [3, 4] k) else 0)"
    "root_entries demo_vol (b_mem b') = resize_first ([3, 4] ! 0) (of_nat (max 600 (unat (1000 :: u64) + unat (300 :: u64)))) (root_entries demo_vol (b_mem demo_dir_store))"
    using exfat_write_grows [OF demo_vol_ok(1,3) demo_vol_geometry(10) fb demo_dir(2) r f _ l e _ _ u] unfolding fr by auto
  have new: "new = [5]" using w(2,3) by (cases new) (auto simp: demo_vol_geometry)
  show ?thesis using w(1,4,6) w(5) [rule_format, of 1026] w(5) [rule_format, of 1400] by (simp add: new demo_vol_geometry demo_dir(3))
qed

end
