(* ===== verification/Exfat_Unlink.thy ===== *)
theory Exfat_Unlink
  imports Exfat_Grow
begin

text \<open>
  Removing a file: its clusters become free, and its directory entries become zeros, which is where
  every later scan of the directory ends.
\<close>

section \<open>Freeing a chain\<close>

lemma fat_set_others:
  assumes v: "vol_ok fs bs sec" and e: "has_entry fs cl" "has_entry fs c" "c \<noteq> cl"
    and k: "\<And>x. x \<notin> fat_bytes fs cl \<union> bytes_at sec 512 \<Longrightarrow> m' x = m x"
  shows "fat_at fs m' c = fat_at fs m c"
proof (rule fat_at_keep [OF v e(2)])
  fix x assume "x \<in> fat_bytes fs c"
  then have "x \<notin> fat_bytes fs cl \<union> bytes_at sec 512" using fat_bytes_disjoint [OF v e(2,1,3)] fat_bytes_apart [OF v e(2)] by blast
  then show "m' x = m x" by (rule k)
qed

lemma free_chain_ok:
  assumes v: "vol_ok fs bs sec" "dev_writable (fs_bdev fs)"
    and ch: "fchain fs (b_mem b) (c # cs)" "distinct (c # cs)" "fat_at fs (b_mem b) (last (c # cs)) \<in> {0, EOC}"
  shows "\<exists>m'. free_chain sec fs b c = Some (b\<lparr>b_mem := m'\<rparr>) \<and> (\<forall>d \<in> set (c # cs). fat_at fs m' d = 0) \<and>
    (\<forall>x. x \<notin> (\<Union>d \<in> set (c # cs). fat_bytes fs d) \<union> bytes_at sec 512 \<longrightarrow> m' x = b_mem b x)"
  using ch
proof (induction cs arbitrary: b c)
  case Nil
  have c: "has_entry fs c" "2 \<le> c" using Nil.prems(1) has_cluster_not_end [OF v(1)] by auto
  obtain m1 where m1: "fat_get sec fs b c = (b\<lparr>b_mem := m1\<rparr>, fat_at fs (b_mem b) c)" "\<And>x. x \<notin> bytes_at sec 512 \<Longrightarrow> m1 x = b_mem b x"
    using fat_get_ok [OF v(1) c(1)] by metis
  obtain m2 where m2: "fat_set sec fs (b\<lparr>b_mem := m1\<rparr>) c 0 = (b\<lparr>b_mem := m2\<rparr>, 0)" "fat_at fs m2 c = 0"
    "\<And>x. x \<notin> fat_bytes fs c \<union> bytes_at sec 512 \<Longrightarrow> m2 x = m1 x" using fat_set_ok [OF v c(1), of "b\<lparr>b_mem := m1\<rparr>" 0] by auto
  have "free_chain sec fs b c = Some (b\<lparr>b_mem := m2\<rparr>)" using c(2) m1(1) m2(1) Nil.prems(3) by (subst free_chain.simps) auto
  then show ?case using m1(2) m2(2,3) by (intro exI [of _ m2]) simp
next
  case (Cons c' cs)
  have c: "has_entry fs c" "2 \<le> c" "fat_at fs (b_mem b) c = c'" "c' \<noteq> 0" "c' \<noteq> EOC"
    using Cons.prems(1) has_cluster_not_end [OF v(1)] fchain_first [of fs "b_mem b" c' cs] by auto
  have ch': "fchain fs (b_mem b) (c' # cs)" "distinct (c' # cs)" "c \<notin> set (c' # cs)" using Cons.prems(1,2) by auto
  obtain m1 where m1: "fat_get sec fs b c = (b\<lparr>b_mem := m1\<rparr>, c')" "\<And>x. x \<notin> bytes_at sec 512 \<Longrightarrow> m1 x = b_mem b x"
    using fat_get_ok [OF v(1) c(1)] c(3) by metis
  obtain m2 where m2: "fat_set sec fs (b\<lparr>b_mem := m1\<rparr>) c 0 = (b\<lparr>b_mem := m2\<rparr>, 0)" "fat_at fs m2 c = 0"
    "\<And>x. x \<notin> fat_bytes fs c \<union> bytes_at sec 512 \<Longrightarrow> m2 x = m1 x" using fat_set_ok [OF v c(1), of "b\<lparr>b_mem := m1\<rparr>" 0] by auto
  have m2b: "m2 x = b_mem b x" if "x \<notin> fat_bytes fs c \<union> bytes_at sec 512" for x using m2(3) [OF that] m1(2) that by simp
  have e: "has_entry fs d" if "d \<in> set (c' # cs)" for d using fchain_nth [OF ch'(1)] that by (metis in_set_conv_nth)
  have same: "fat_at fs m2 d = fat_at fs (b_mem b) d" if "d \<in> set (c' # cs)" for d
  proof -
    have "d \<noteq> c" using ch'(3) that by blast
    then show ?thesis by (rule fat_set_others [OF v(1) c(1) e [OF that] _ m2b])
  qed
  have "\<forall>d \<in> set (butlast (c' # cs)). fat_at fs m2 d = fat_at fs (b_mem b) d" using same by (metis in_set_butlastD)
  then have f2: "fchain fs m2 (c' # cs)" "fat_at fs m2 (last (c' # cs)) \<in> {0, EOC}"
    using fchain_butlast [OF ch'(1)] same [of "last (c' # cs)"] Cons.prems(3) by auto
  obtain m' where m': "free_chain sec fs (b\<lparr>b_mem := m2\<rparr>) c' = Some (b\<lparr>b_mem := m'\<rparr>)" "\<forall>d \<in> set (c' # cs). fat_at fs m' d = 0"
    "\<forall>x. x \<notin> (\<Union>d \<in> set (c' # cs). fat_bytes fs d) \<union> bytes_at sec 512 \<longrightarrow> m' x = m2 x"
    using Cons.IH [of "b\<lparr>b_mem := m2\<rparr>" c'] f2 ch'(2) by auto
  have "free_chain sec fs b c = Some (b\<lparr>b_mem := m'\<rparr>)" using c(2,4,5) m1(1) m2(1) m'(1) by (subst free_chain.simps) simp
  moreover have "fat_at fs m' c = fat_at fs m2 c"
  proof (rule fat_at_keep [OF v(1) c(1)])
    fix x assume x: "x \<in> fat_bytes fs c"
    have "x \<notin> fat_bytes fs d" if "d \<in> set (c' # cs)" for d using fat_bytes_disjoint [OF v(1) c(1) e [OF that]] ch'(3) that x by blast
    then show "m' x = m2 x" using m'(3) fat_bytes_apart [OF v(1) c(1)] x by blast
  qed
  moreover have "\<forall>x. x \<notin> (\<Union>d \<in> set (c # c' # cs). fat_bytes fs d) \<union> bytes_at sec 512 \<longrightarrow> m' x = b_mem b x" using m'(3) m2b by simp
  ultimately show ?case using m'(2) m2(2) by (intro exI [of _ m']) simp
qed

section \<open>The entries of the file\<close>

lemma name_run_le: "j \<le> n \<Longrightarrow> snd (name_run units m a n j) \<le> n"
proof (induction units m a n j rule: name_run.induct)
  case (1 units m a n j)
  then show ?case by (subst name_run.simps) (auto simp: case_prod_beta)
qed

lemma unlink_scan_bound: "unlink_scan m a n q s = Some (i, j) \<Longrightarrow> s \<le> i \<and> i + 64 \<le> j \<and> j \<le> n"
proof (induction m a n q s rule: unlink_scan.induct)
  case (1 m a n q s)
  let ?nr = "name_run (takeWhile (\<lambda>ch. ch \<noteq> 0)) m a n (s + 64)"
  have b: "s + 64 \<le> snd ?nr" "s + 64 \<le> n \<Longrightarrow> snd ?nr \<le> n" using name_run_ge name_run_le by blast+
  show ?case
  proof (cases "m (a + of_nat s) AND 0x7F = 0x05 \<and> s + 64 \<le> n \<and> m (a + of_nat (s + 32)) = 0xC0 \<and> name_eq q (take 63 (fst ?nr))")
    case True
    then show ?thesis using 1(2) b by (subst (asm) unlink_scan.simps) (auto simp: case_prod_beta Let_def split: if_splits)
  next
    case False
    then have "s + 32 \<le> n \<and> m (a + of_nat s) \<noteq> 0" "unlink_scan m a n q (s + 32) = Some (i, j)"
      using 1(2) by (subst (asm) unlink_scan.simps, auto simp: case_prod_beta Let_def split: if_splits)+
    moreover have "(fst ?nr, snd ?nr) = ?nr" by simp
    ultimately show ?thesis using 1(1) [of "?nr" "fst ?nr" "snd ?nr"] False by auto
  qed
qed

lemma unlink_scan_same:
  assumes "same_bytes m a m' a' n"
  shows "unlink_scan m' a' n q s = unlink_scan m a n q s"
  using assms
proof (induction m a n q s rule: unlink_scan.induct)
  case (1 m a n q s)
  let ?nr = "name_run (takeWhile (\<lambda>ch. ch \<noteq> 0)) m a n (s + 64)"
  note b = same_byte [OF "1.prems", of s] same_byte [OF "1.prems", of "s + 32"] name_run_same [OF "1.prems"]
  show ?case
  proof (cases "s + 32 \<le> n \<and> m (a + of_nat s) \<noteq> 0 \<and> \<not> (m (a + of_nat s) AND 0x7F = 0x05 \<and> s + 64 \<le> n \<and>
      m (a + of_nat (s + 32)) = 0xC0 \<and> name_eq q (take 63 (fst ?nr)))")
    case True
    then have "unlink_scan m' a' n q (s + 32) = unlink_scan m a n q (s + 32)"
      using "1.IH" [of ?nr "fst ?nr" "snd ?nr"] "1.prems" by simp
    then show ?thesis using True b by (subst (1 2) unlink_scan.simps) (auto simp: case_prod_beta)
  next
    case False
    then show ?thesis using b by (subst (1 2) unlink_scan.simps) (auto simp: case_prod_beta)
  qed
qed

text \<open>With the first byte of the entry found cleared, the directory ends there.\<close>

lemma unlink_dir_end:
  assumes "unlink_scan m a n q s = Some (i, j)" "\<forall>k < i. m' (a' + of_nat k) = m (a + of_nat k)" "m' (a' + of_nat i) = 0"
  shows "dir_end m' a' n s = i"
  using assms
proof (induction m a n q s rule: unlink_scan.induct)
  case (1 m a n q s)
  let ?nr = "name_run (takeWhile (\<lambda>ch. ch \<noteq> 0)) m a n (s + 64)"
  have go: "s + 32 \<le> n" "m (a + of_nat s) \<noteq> 0" using "1.prems"(1) by (subst (asm) unlink_scan.simps, auto split: if_splits)+
  show ?case
  proof (cases "i = s")
    case True
    then show ?thesis using "1.prems"(3) by (subst dir_end.simps) simp
  next
    case False
    have no: "\<not> (m (a + of_nat s) AND 0x7F = 0x05 \<and> s + 64 \<le> n \<and> m (a + of_nat (s + 32)) = 0xC0 \<and> name_eq q (take 63 (fst ?nr)))"
    proof
      assume "m (a + of_nat s) AND 0x7F = 0x05 \<and> s + 64 \<le> n \<and> m (a + of_nat (s + 32)) = 0xC0 \<and> name_eq q (take 63 (fst ?nr))"
      then have "unlink_scan m a n q s = Some (s, snd ?nr)" using go by (subst unlink_scan.simps) (simp add: case_prod_beta)
      then show False using "1.prems"(1) False by simp
    qed
    then have sc: "unlink_scan m a n q (s + 32) = Some (i, j)"
      using "1.prems"(1) go by (subst (asm) unlink_scan.simps) (auto simp: case_prod_beta split: if_splits)
    then have "dir_end m' a' n (s + 32) = i" using "1.IH" [of ?nr "fst ?nr" "snd ?nr"] go no "1.prems"(2,3) by simp
    moreover have "s < i" using unlink_scan_bound [OF sc] by simp
    ultimately show ?thesis using go "1.prems"(2) by (subst dir_end.simps) simp
  qed
qed

section \<open>Removing a file\<close>

definition root_find :: "exfat_fs \<Rightarrow> memory \<Rightarrow> string \<Rightarrow> (nat \<times> nat) option" where
  "root_find fs m q = unlink_scan (image (fs_bdev fs) m) (root_pos fs) (csz fs) q 0"

text \<open>The byte \<open>k\<close> of the directory, and the first cluster that the entry set at \<open>i\<close> names.\<close>

definition root_byte :: "exfat_fs \<Rightarrow> memory \<Rightarrow> nat \<Rightarrow> u8" where
  "root_byte fs m k = image (fs_bdev fs) m (root_pos fs + of_nat k)"

definition entry_cluster :: "exfat_fs \<Rightarrow> memory \<Rightarrow> nat \<Rightarrow> u32" where
  "entry_cluster fs m i = load32 (image (fs_bdev fs) m) (root_pos fs + of_nat (i + 52))"

lemma exfat_unlink_ok:
  assumes v: "vol_ok fs bs sec" "dev_writable (fs_bdev fs)" "fat_first fs" and r: "has_cluster fs (root_dir_cluster fs)"
    and h: "heap_at (b_heap b) bs" and q: "skip_slash path \<noteq> []" "root_find fs (b_mem b) (skip_slash path) = Some (i, j)"
    and ch: "fchain fs (b_mem b) cls" "distinct cls" "cls ! 0 = entry_cluster fs (b_mem b) i" "fat_at fs (b_mem b) (last cls) \<in> {0, EOC}"
  shows "\<exists>b'. exfat_unlink sec b (Priv_Exfat fs) path = Some (b', 0) \<and> heap_at (b_heap b') bs \<and> (\<forall>c \<in> set cls. fat_at fs (b_mem b') c = 0) \<and>
    (\<forall>k < csz fs. root_byte fs (b_mem b') k = (if i \<le> k \<and> k < j then 0 else root_byte fs (b_mem b) k)) \<and>
    same_outside ((\<Union>c \<in> set cls. fat_bytes fs c) \<union> clus_bytes fs (root_dir_cluster fs) \<union> bytes_at sec 512 \<union> free_bytes bs) b b'"
proof -
  let ?r = "root_dir_cluster fs" and ?d = "fs_bdev fs" and ?F = "\<Union>c \<in> set cls. fat_bytes fs c"
  note o = vol_okD [OF v(1)] and rr = cluster_run [OF v(1) r]
  obtain h1 dir h2 where t: "kmalloc (b_heap b) (ucast (cluster_size fs)) = Some (h1, dir)" "dir \<noteq> 0" "kfree h1 dir = Some h2" "heap_at h2 bs"
    and sub: "bytes_at dir (csz fs) \<subseteq> free_bytes bs" using with_buffer [OF h rr(2,3,4)] unfolding o(9) by blast
  obtain m1 where m1: "read_cluster fs (b\<lparr>b_heap := h1\<rparr>) ?r dir = (b\<lparr>b_heap := h1, b_mem := m1\<rparr>, True)"
    "\<forall>k < csz fs. m1 (dir + of_nat k) = b_mem b (dev_at ?d (clus_pos fs ?r + k))" "\<forall>x. x \<notin> bytes_at dir (csz fs) \<longrightarrow> m1 x = b_mem b x"
    using read_cluster_ok [OF v(1) r t(2) sub, of "b\<lparr>b_heap := h1\<rparr>"] by auto
  have s1: "same_bytes (image ?d (b_mem b)) (root_pos fs) m1 dir (csz fs)"
    unfolding same_bytes_def using m1(2) root_image [OF v(1) r] by simp
  have sc: "unlink_scan m1 dir (csz fs) (skip_slash path) 0 = Some (i, j)" using q(2) unlink_scan_same [OF s1] by (simp add: root_find_def)
  have ij: "i + 64 \<le> j" "j \<le> csz fs" using unlink_scan_bound [OF sc] by simp_all
  have first: "load32 m1 (dir + of_nat (i + 52)) = cls ! 0"
    using same_load [OF s1, of "i + 52" 4] ij ch(3) by (simp add: load32_def entry_cluster_def del: of_nat_add)
  have sf: "same_fat fs (b_mem b) m1"
    using m1(3) sub o(3) by (intro same_disk_fat [OF v(1)]) (auto simp: same_disk_def)
  obtain c cs where cls: "cls = c # cs" using ch(1) by (cases cls) auto
  have e: "has_entry fs x" if "x \<in> set cls" for x using fchain_nth [OF ch(1)] that by (metis in_set_conv_nth)
  let ?b1 = "b\<lparr>b_heap := h1, b_mem := m1\<rparr>"
  have ch1: "fchain fs m1 cls" "fat_at fs m1 (last cls) \<in> {0, EOC}"
    using fchain_same [OF v(1) sf ch(1)] fat_at_same [OF v(1) e sf, of "last cls"] ch(4) by (simp_all add: cls)
  obtain m2 where m2: "free_chain sec fs ?b1 (cls ! 0) = Some (?b1\<lparr>b_mem := m2\<rparr>)" "\<forall>x \<in> set cls. fat_at fs m2 x = 0"
    "\<forall>x. x \<notin> ?F \<union> bytes_at sec 512 \<longrightarrow> m2 x = m1 x"
    using free_chain_ok [OF v(1,2), of ?b1 c cs] ch1 ch(2) by (auto simp: cls)
  have F: "?F \<subseteq> dev_bytes ?d" using fat_bytes_dev [OF v(1) e] by blast
  have buf: "m2 (dir + of_nat k) = m1 (dir + of_nat k)" if "k < csz fs" for k
  proof -
    have "dir + of_nat k \<in> bytes_at dir (csz fs)" using that o(6) by (intro bytes_at_offset) simp_all
    then have "dir + of_nat k \<in> free_bytes bs" using sub by blast
    moreover from this have "dir + of_nat k \<notin> ?F" using F o(3) by blast
    moreover have "bytes_at sec 512 \<inter> free_bytes bs = {}" using o(8) by (auto simp: clear_def)
    ultimately show ?thesis using m2(3) by blast
  qed
  define m3 where "m3 = (fill_bytes m2 (dir + of_nat i) 0 (j - i))(dir + of_nat i := 0)"
  have m3: "m3 (dir + of_nat k) = (if i \<le> k \<and> k < j then 0 else root_byte fs (b_mem b) k)" if k: "k < csz fs" for k
  proof -
    have b: "k < 2 ^ 32" "i < 2 ^ 32" "j - i \<le> 2 ^ 32" using k ij o(6) by simp_all
    have "m1 (dir + of_nat k) = root_byte fs (b_mem b) k" using same_byte [OF s1 k] by (simp add: root_byte_def)
    then show ?thesis unfolding m3_def fun_upd_apply off_eq [OF b(1,2)] fill_at [OF b] using ij(1) buf [OF k] by auto
  qed
  have out3: "m3 x = m2 x" if x: "x \<notin> bytes_at dir (csz fs)" for x
  proof -
    have u: "unat (of_nat i :: u64) = i" using ij o(6) by (intro u64_of_nat_unat) simp
    have N: "csz fs < 2 ^ 64" using o(6) by simp
    show ?thesis unfolding m3_def using upd_outside [OF x _ N, of "of_nat i"] fill_outside [OF x _ N, of "of_nat i" "j - i"] u ij by simp
  qed
  obtain m4 where m4: "write_cluster fs (?b1\<lparr>b_mem := m3\<rparr>) ?r dir = (?b1\<lparr>b_mem := m4\<rparr>, True)"
    "\<forall>k < csz fs. m4 (dev_at ?d (clus_pos fs ?r + k)) = m3 (dir + of_nat k)" "\<forall>x. x \<notin> clus_bytes fs ?r \<longrightarrow> m4 x = m3 x"
    using write_cluster_ok [OF v(1,2) r t(2) sub, of "?b1\<lparr>b_mem := m3\<rparr>"] by auto
  have fat: "fat_at fs m4 x = 0" if x: "x \<in> set cls" for x
  proof -
    have "fat_at fs m4 x = fat_at fs m2 x"
    proof (rule fat_at_keep [OF v(1) e [OF x]])
      fix y assume y: "y \<in> fat_bytes fs x"
      have "y \<notin> clus_bytes fs ?r" "y \<notin> bytes_at dir (csz fs)"
        using y clus_bytes_apart(1) [OF v(1,3) r e [OF x]] fat_bytes_apart [OF v(1) e [OF x]] sub by auto
      then show "m4 y = m2 y" using m4(3) out3 by simp
    qed
    then show ?thesis using m2(2) x by simp
  qed
  have dirb: "root_byte fs m4 k = (if i \<le> k \<and> k < j then 0 else root_byte fs (b_mem b) k)" if k: "k < csz fs" for k
    using m4(2) m3 [OF k] k root_image [OF v(1) r k, of m4] by (simp add: root_byte_def)
  have run: "exfat_unlink sec b (Priv_Exfat fs) path = Some (b\<lparr>b_heap := h2, b_mem := m4\<rparr>, 0)"
    using q(1) t(1-3) m1(1) sc first m2(1) m4(1) unfolding m3_def by (simp add: exfat_unlink_def Let_def o(11) del: of_nat_add)
  have "m4 x = b_mem b x" if x: "x \<notin> ?F \<union> clus_bytes fs ?r \<union> bytes_at sec 512 \<union> free_bytes bs" for x
  proof -
    have nd: "x \<notin> bytes_at dir (csz fs)" using x sub by blast
    show ?thesis using x m4(3) out3 [OF nd] m2(3) m1(3) nd by simp
  qed
  then have "same_outside (?F \<union> clus_bytes fs ?r \<union> bytes_at sec 512 \<union> free_bytes bs) b (b\<lparr>b_heap := h2, b_mem := m4\<rparr>)"
    by (simp add: same_outside_def)
  then show ?thesis using run t(4) fat dirb by (intro exI [of _ "b\<lparr>b_heap := h2, b_mem := m4\<rparr>"]) simp
qed

section \<open>Removing a new file\<close>

lemma unlink_scan_extend:
  assumes "unlink_scan m a n q s = None" "dir_end m a n s = di" "di + 32 \<le> n" "same_bytes m a m' a' di" "m' (a' + of_nat di) = 0x85"
  shows "unlink_scan m' a' n q s = unlink_scan m' a' n q di"
  using assms
proof (induction m a n q s rule: unlink_scan.induct)
  case (1 m a n q s)
  let ?nr = "name_run (takeWhile (\<lambda>ch. ch \<noteq> 0)) m a n (s + 64)" and ?nr' = "name_run (takeWhile (\<lambda>ch. ch \<noteq> 0)) m' a' n (s + 64)"
  let ?c = "m (a + of_nat s) AND 0x7F = 0x05 \<and> s + 64 \<le> n \<and> m (a + of_nat (s + 32)) = 0xC0 \<and> name_eq q (take 63 (fst ?nr))"
  let ?c' = "m' (a' + of_nat s) AND 0x7F = 0x05 \<and> s + 64 \<le> n \<and> m' (a' + of_nat (s + 32)) = 0xC0 \<and> name_eq q (take 63 (fst ?nr'))"
  show ?case
  proof (cases rule: dir_end_cases [OF "1.prems"(2,3)])
    case 2
    have b: "m' (a' + of_nat s) = m (a + of_nat s)" using same_byte [OF "1.prems"(4), of s] 2(1) by simp
    have nc: "\<not> ?c"
    proof
      assume ?c
      then have "unlink_scan m a n q s = Some (s, snd ?nr)" using 2 by (subst unlink_scan.simps) (simp add: case_prod_beta)
      then show False using "1.prems"(1) by simp
    qed
    have "\<not> ?c'"
    proof
      assume c': ?c'
      then have "s + 32 \<noteq> di" using "1.prems"(5) by auto
      then have s32: "m' (a' + of_nat (s + 32)) = m (a + of_nat (s + 32))" "s + 32 < di" using same_byte [OF "1.prems"(4), of "s + 32"] 2(1) by simp_all
      then have "dir_end m a n (s + 32) = dir_end m a n (s + 32 + 32)" using c' by (intro dir_end_step) simp_all
      moreover have "s + 32 + 32 = s + 64" by simp
      ultimately have "dir_end m a n (s + 64) = di" using 2(4) by metis
      then have "?nr' = ?nr" using name_run_extend [OF _ "1.prems"(3-5)] by blast
      then show False using nc c' b s32(1) by simp
    qed
    then have "unlink_scan m' a' n q s = unlink_scan m' a' n q (s + 32)" using b 2 by (subst unlink_scan.simps) (auto simp: case_prod_beta)
    moreover have "unlink_scan m a n q (s + 32) = None" using "1.prems"(1) nc 2 by (subst (asm) unlink_scan.simps) (auto simp: case_prod_beta split: if_splits)
    ultimately show ?thesis using "1.IH" [of ?nr "fst ?nr" "snd ?nr"] nc 2 "1.prems" by simp
  qed simp
qed

lemma unlink_scan_new:
  assumes "plain_name q" "length q \<le> 63" "n = (length q + 14) div 15" "d + 64 + 32 * n \<le> sz" "sz < 2 ^ 31"
  shows "unlink_scan (new_dir q cl d sz a m) a sz q d = Some (d, d + 64 + 32 * n)"
proof -
  note e = new_dir_entries [OF assms(3-5) refl, where cl = cl and a = a and m = m]
  have "length q \<le> 15 * n" using assms(3) by simp
  then have nr: "name_run (takeWhile (\<lambda>ch. ch \<noteq> 0)) (new_dir q cl d sz a m) a sz (d + 64) = (q, d + 64 + 32 * n)"
    using e(6) [where units = "takeWhile (\<lambda>ch. ch \<noteq> 0)"] unfolding units_chunk [OF assms(1)] chunks by simp
  have k: "(0x85 :: u8) \<noteq> 0" "(0x85 :: u8) AND 0x7F = 0x05" "name_eq q (take 63 q)" using assms(2) by (simp_all add: name_eq_iff)
  have c: "d + 32 \<le> sz" "d + 64 \<le> sz" using assms(4) by simp_all
  show ?thesis by (subst unlink_scan.simps) (simp only: c e(1,2) k nr Let_def if_True simp_thms prod.case)
qed

lemma added_found:
  assumes v: "vol_ok fs bs sec" and a: "added fs q cl m m'" and q: "plain_name q" "length q \<le> 63" "root_find fs m q = None"
    and n: "n = (length q + 14) div 15" "d = root_end fs m" "d + 64 + 32 * n \<le> csz fs"
  shows "root_find fs m' q = Some (d, d + 64 + 32 * n)" "entry_cluster fs m' d = cl"
proof -
  obtain m0 x where s: "same_bytes (image (fs_bdev fs) m) (root_pos fs) m0 x (csz fs)"
    "same_bytes (new_dir q cl d (csz fs) x m0) x (image (fs_bdev fs) m') (root_pos fs) (csz fs)" using a n(2) by (auto simp: added_def)
  have z: "csz fs < 2 ^ 31" using vol_okD(6) [OF v] by simp
  let ?m = "new_dir q cl d (csz fs) x m0"
  note e = new_dir_entries [OF n(1,3) z refl, where cl = cl and a = x and m = m0]
  have de: "dir_end m0 x (csz fs) 0 = d" using dir_end_same [OF s(1)] n(2) by (simp add: root_end_def)
  have "unlink_scan m0 x (csz fs) q 0 = None" using unlink_scan_same [OF s(1)] q(3) by (simp add: root_find_def)
  moreover have b: "d + 64 < 2 ^ 32" using n(3) z by simp
  have "same_bytes m0 x ?m x d" unfolding same_bytes_def
    using new_dir_at [OF n(1,3) z, of _ cl x m0] n(3) head_entries_at [OF b] b by simp
  ultimately have "unlink_scan ?m x (csz fs) q 0 = unlink_scan ?m x (csz fs) q d"
    using unlink_scan_extend [of m0 x "csz fs" q 0 d ?m x] de e(1) n(3) by simp
  then have "unlink_scan ?m x (csz fs) q 0 = Some (d, d + 64 + 32 * n)" using unlink_scan_new [OF q(1,2) n(1,3) z] by simp
  then show "root_find fs m' q = Some (d, d + 64 + 32 * n)" unfolding root_find_def using unlink_scan_same [OF s(2)] by simp
  have "load32 (image (fs_bdev fs) m') (root_pos fs + of_nat (d + 52)) = load32 ?m (x + of_nat (d + 52))"
    unfolding load32_def by (rule same_load [OF s(2)]) (use n(3) in simp)
  then show "entry_cluster fs m' d = cl" unfolding entry_cluster_def using e(4) by simp
qed

lemma removed_end:
  assumes f: "root_find fs m q = Some (i, j)" and d: "\<forall>k < csz fs. root_byte fs m' k = (if i \<le> k \<and> k < j then 0 else root_byte fs m k)"
  shows "root_end fs m' = i" "same_bytes (image (fs_bdev fs) m') (root_pos fs) (image (fs_bdev fs) m) (root_pos fs) i"
proof -
  have ij: "i + 64 \<le> j" "j \<le> csz fs" using unlink_scan_bound f by (auto simp: root_find_def)
  have lt: "root_byte fs m' k = root_byte fs m k" if "k < i" for k using d ij that by simp
  have z: "root_byte fs m' i = 0" using d ij by simp
  show "root_end fs m' = i" unfolding root_end_def
    by (rule unlink_dir_end [OF f [unfolded root_find_def]]) (use lt z in \<open>auto simp: root_byte_def\<close>)
  show "same_bytes (image (fs_bdev fs) m') (root_pos fs) (image (fs_bdev fs) m) (root_pos fs) i"
    using lt by (simp add: same_bytes_def root_byte_def)
qed

text \<open>
  C31. Removing a file that the directory has frees every cluster of its chain in the FAT and zeroes its
  directory entries; the rest of the volume stays. The zeros are where the next scan of the directory
  ends, so the entries behind the removed file are no longer reached.
\<close>

theorem exfat_unlink_frees:
  assumes v: "vol_ok fs bs sec" "dev_writable (fs_bdev fs)" "fat_first fs" and r: "has_cluster fs (root_dir_cluster fs)"
    and h: "heap_at (b_heap b) bs" and q: "skip_slash path \<noteq> []" "root_find fs (b_mem b) (skip_slash path) = Some (i, j)"
    and ch: "fchain fs (b_mem b) cls" "distinct cls" "cls ! 0 = entry_cluster fs (b_mem b) i" "fat_at fs (b_mem b) (last cls) \<in> {0, EOC}"
  shows "\<exists>b'. exfat_unlink sec b (Priv_Exfat fs) path = Some (b', 0) \<and> heap_at (b_heap b') bs \<and> (\<forall>c \<in> set cls. fat_at fs (b_mem b') c = 0) \<and>
    (\<forall>k < csz fs. root_byte fs (b_mem b') k = (if i \<le> k \<and> k < j then 0 else root_byte fs (b_mem b) k)) \<and> root_end fs (b_mem b') = i \<and>
    (\<forall>x. x \<notin> (\<Union>c \<in> set cls. fat_bytes fs c) \<union> clus_bytes fs (root_dir_cluster fs) \<union> bytes_at sec 512 \<union> free_bytes bs \<longrightarrow> b_mem b' x = b_mem b x)"
proof -
  obtain b' where b': "exfat_unlink sec b (Priv_Exfat fs) path = Some (b', 0)" "heap_at (b_heap b') bs" "\<forall>c \<in> set cls. fat_at fs (b_mem b') c = 0"
    "\<forall>k < csz fs. root_byte fs (b_mem b') k = (if i \<le> k \<and> k < j then 0 else root_byte fs (b_mem b) k)"
    and so: "same_outside ((\<Union>c \<in> set cls. fat_bytes fs c) \<union> clus_bytes fs (root_dir_cluster fs) \<union> bytes_at sec 512 \<union> free_bytes bs) b b'"
    using exfat_unlink_ok [OF assms] by blast
  then show ?thesis using removed_end(1) [OF q(2) b'(4)] same_outsideD [OF so] by blast
qed


text \<open>Creating a file, with what a removal needs of it.\<close>

lemma create_found:
  assumes v: "vol_ok fs bs sec" "dev_writable (fs_bdev fs)" "fat_first fs" and h: "heap_at (b_heap b) bs"
    and c: "can_create fs bs (b_mem b) (skip_slash path) cl" "root_find fs (b_mem b) (skip_slash path) = None"
  obtains b' j where "exfat_create sec b (Priv_Exfat fs) path hint = Some (b', 0)" "heap_at (b_heap b') bs" "created fs bs sec (skip_slash path) cl b b'"
    "root_find fs (b_mem b') (skip_slash path) = Some (root_end fs (b_mem b), j)" "fchain fs (b_mem b') [cl]"
    "[cl] ! 0 = entry_cluster fs (b_mem b') (root_end fs (b_mem b))" "fat_at fs (b_mem b') (last [cl]) \<in> {0, EOC}"
proof -
  let ?q = "skip_slash path"
  have c': "has_cluster fs (root_dir_cluster fs)" "fits bs (2 * csz fs + 63)" "first_free fs (b_mem b) cl" "cl \<noteq> root_dir_cluster fs"
    "plain_name ?q" "length ?q \<le> 63" "root_end fs (b_mem b) + (2 + (length ?q + 14) div 15) * 32 \<le> csz fs"
    using c(1) unfolding can_create_def by blast+
  obtain b' where b': "exfat_create sec b (Priv_Exfat fs) path hint = Some (b', 0)" "heap_at (b_heap b') bs" "created fs bs sec ?q cl b b'"
    using exfat_create_ok [OF v c'(1) h c'(2-4) refl c'(5,7)] by blast
  have n: "root_end fs (b_mem b) + 64 + 32 * ((length ?q + 14) div 15) \<le> csz fs" using c'(7) by simp
  have ad: "added fs ?q cl (b_mem b) (b_mem b')" "fat_at fs (b_mem b') cl = EOC" using b'(3) by (simp_all add: created_def)
  note f = added_found [OF v(1) ad(1) c'(5,6) c(2) refl refl n]
  show ?thesis by (rule that [OF b' f(1)]) (use f(2) ad(2) c'(3) in \<open>auto simp: first_free_def\<close>)
qed

lemma demo_none: "root_find demo_vol (b_mem demo_new_store) q = None"
proof -
  have "root_pos demo_vol = 1024" by (simp add: root_pos_def clus_pos_def demo_vol_def)
  moreover have "image demo_disk (b_mem demo_new_store) 1024 = 0" by code_simp
  ultimately show ?thesis unfolding root_find_def demo_vol_geometry by (subst unlink_scan.simps) simp
qed

theorem exfat_unlink_frees_witness:
  "\<exists>b b'. exfat_create 0x3000 demo_new_store (Priv_Exfat demo_vol) ''/a.txt'' 0 = Some (b, 0) \<and>
     exfat_unlink 0x3000 b (Priv_Exfat demo_vol) ''/a.txt'' = Some (b', 0) \<and> root_end demo_vol (b_mem b') = 0 \<and> fat_at demo_vol (b_mem b') 5 = 0"
proof -
  obtain b j where b: "exfat_create 0x3000 demo_new_store (Priv_Exfat demo_vol) ''/a.txt'' 0 = Some (b, 0)" "heap_at (b_heap b) demo_blks"
    "root_find demo_vol (b_mem b) (skip_slash ''/a.txt'') = Some (root_end demo_vol (b_mem demo_new_store), j)" "fchain demo_vol (b_mem b) [5]"
    "[5] ! 0 = entry_cluster demo_vol (b_mem b) (root_end demo_vol (b_mem demo_new_store))" "fat_at demo_vol (b_mem b) (last [5]) \<in> {0, EOC}"
    by (rule create_found [OF demo_vol_ok(1,3) demo_vol_geometry(10) demo_new(4) demo_can_create demo_none, where hint = 0])
  have ne: "skip_slash ''/a.txt'' \<noteq> []" "distinct [5 :: u32]" "has_cluster demo_vol (root_dir_cluster demo_vol)"
    by (simp_all add: skip_slash_def demo_vol_geometry)
  show ?thesis using exfat_unlink_frees [OF demo_vol_ok(1,3) demo_vol_geometry(10) ne(3) b(2) ne(1) b(3,4) ne(2) b(5,6)] b(1) demo_new(3) by auto
qed



end
