(* ===== verification/Lib_Mem.thy ===== *)
theory Lib_Mem
  imports Phys_Mem
begin

text \<open>
  The freestanding memory and string routines (\<open>kernel64/lib/mem.c\<close>) on the byte memory. A pointer
  is an address; the string routines run until a NUL byte, so \<open>None\<close> is a scan that does not end.
\<close>

section \<open>The routines\<close>

definition memset :: "memory \<Rightarrow> u64 \<Rightarrow> int \<Rightarrow> nat \<Rightarrow> memory \<times> u64" where
  "memset m dst c n = (fill_bytes m dst (word_of_int c) n, dst)"

definition memcpy :: "memory \<Rightarrow> u64 \<Rightarrow> u64 \<Rightarrow> nat \<Rightarrow> memory \<times> u64" where
  "memcpy m dst src n = (copy_bytes m dst src n, dst)"

text \<open>\<open>for (i = n; i != 0; --i) d[i - 1] = s[i - 1]\<close>.\<close>

fun copy_back :: "memory \<Rightarrow> u64 \<Rightarrow> u64 \<Rightarrow> nat \<Rightarrow> memory" where
  "copy_back m d s 0 = m"
| "copy_back m d s (Suc i) = copy_back (m(d + of_nat i := m (s + of_nat i))) d s i"

definition memmove :: "memory \<Rightarrow> u64 \<Rightarrow> u64 \<Rightarrow> nat \<Rightarrow> memory \<times> u64" where
  "memmove m dst src n =
     (if dst = src \<or> n = 0 then (m, dst)
      else if dst < src then (copy_bytes m dst src n, dst)
      else (copy_back m dst src n, dst))"

fun memcmp :: "memory \<Rightarrow> u64 \<Rightarrow> u64 \<Rightarrow> nat \<Rightarrow> int" where
  "memcmp m a b 0 = 0"
| "memcmp m a b (Suc n) = (if m a \<noteq> m b then uint (m a) - uint (m b) else memcmp m (a + 1) (b + 1) n)"

partial_function (option) strlen_loop :: "memory \<Rightarrow> u64 \<Rightarrow> u64 \<Rightarrow> u64 option" where
  "strlen_loop m s n = (if s \<noteq> 0 \<and> m s \<noteq> 0 then strlen_loop m (s + 1) (n + 1) else Some n)"

definition strlen :: "memory \<Rightarrow> u64 \<Rightarrow> u64 option" where
  "strlen m s = strlen_loop m s 0"

partial_function (option) strcmp :: "memory \<Rightarrow> u64 \<Rightarrow> u64 \<Rightarrow> int option" where
  "strcmp m a b =
     (if m a \<noteq> 0 \<and> m b \<noteq> 0 \<and> m a = m b then strcmp m (a + 1) (b + 1) else Some (uint (m a) - uint (m b)))"

section \<open>Reference definitions\<close>

text \<open>The bytes at an address, and storing a list of bytes.\<close>

fun bytes_from :: "memory \<Rightarrow> u64 \<Rightarrow> nat \<Rightarrow> u8 list" where
  "bytes_from m a 0 = []"
| "bytes_from m a (Suc n) = m a # bytes_from m (a + 1) n"

fun put_list :: "memory \<Rightarrow> u64 \<Rightarrow> u8 list \<Rightarrow> memory" where
  "put_list m a [] = m"
| "put_list m a (x # xs) = (put_list m (a + 1) xs)(a := x)"

lemma bytes_from_nth: "i < n \<Longrightarrow> bytes_from m a n ! i = m (a + of_nat i)"
  by (induction n arbitrary: a i) (auto simp: nth_Cons' algebra_simps)

lemma length_bytes_from [simp]: "length (bytes_from m a n) = n"
  by (induction n arbitrary: a) simp_all

lemma put_list_apply:
  "length xs \<le> 2 ^ 64 \<Longrightarrow> put_list m a xs x = (if x \<in> bytes_at a (length xs) then xs ! unat (x - a) else m x)"
proof (induction xs arbitrary: a)
  case Nil
  then show ?case by (simp add: bytes_at_def)
next
  case (Cons y ys)
  then have n: "length ys < 2 ^ 64" by simp
  show ?case
  proof (cases "x = a")
    case False
    then have "0 < unat (x - a)" by (simp add: unat_gt_0)
    then have "unat (x - a) = Suc (unat (x - (a + 1)))" using unat_sub_Suc [of x a] False by simp
    then show ?thesis using Cons.IH [of "a + 1"] Cons.prems False unfolding length_Cons bytes_at_Suc [OF n] by simp
  qed (simp add: bytes_at_def)
qed

text \<open>What \<open>memmove\<close> promises, whatever the overlap.\<close>

definition moved :: "memory \<Rightarrow> u64 \<Rightarrow> u64 \<Rightarrow> nat \<Rightarrow> memory" where
  "moved m dst src n = put_list m dst (bytes_from m src n)"

lemma moved_apply:
  assumes "n \<le> 2 ^ 64"
  shows "moved m dst src n x = (if x \<in> bytes_at dst n then m (src + (x - dst)) else m x)"
  using assms unfolding moved_def by (subst put_list_apply) (auto simp: bytes_at_def bytes_from_nth)


section \<open>Moving\<close>

text \<open>Copying upwards is right unless the destination starts inside the source; distances are modulo \<open>2 ^ 64\<close>.\<close>

lemma copy_up_apply:
  assumes "n \<le> 2 ^ 64" "n \<le> unat (dst - src)"
  shows "copy_bytes m dst src n x = (if x \<in> bytes_at dst n then m (src + (x - dst)) else m x)"
  using assms
proof (induction n arbitrary: m dst src)
  case 0
  then show ?case by (simp add: bytes_at_def)
next
  case (Suc n)
  have n: "n < 2 ^ 64" using Suc.prems(1) by simp
  have dn: "dst \<notin> bytes_at (dst + 1) n" using n unat_sub_Suc [of dst dst] by (simp add: bytes_at_def)
  have IH: "copy_bytes m dst src (Suc n) x = (if x \<in> bytes_at (dst + 1) n
      then (m(dst := m src)) (src + 1 + (x - (dst + 1))) else (m(dst := m src)) x)"
    using Suc.IH [of "dst + 1" "src + 1"] Suc.prems by (simp del: fun_upd_apply)
  show ?case
  proof (cases "x \<in> bytes_at (dst + 1) n")
    case True
    have le: "unat (x - dst) \<le> n"
      using True n unat_sub_Suc [of x dst] by (auto simp: bytes_at_def split: if_splits)
    have "src + 1 + (x - (dst + 1)) \<noteq> dst"
    proof
      assume e: "src + 1 + (x - (dst + 1)) = dst"
      have "dst - src = src + 1 + (x - (dst + 1)) - src" unfolding e ..
      also have "\<dots> = x - dst" by simp
      finally have "unat (dst - src) = unat (x - dst)" by (rule arg_cong)
      then show False using le Suc.prems(2) by linarith
    qed
    then show ?thesis using True IH by (simp add: bytes_at_Suc [OF n] algebra_simps)
  next
    case False
    then show ?thesis using IH by (auto simp: bytes_at_Suc [OF n])
  qed
qed

text \<open>Copying downwards is right unless the source starts inside the destination.\<close>

lemma copy_back_apply:
  assumes "n \<le> 2 ^ 64" "n \<le> unat (src - dst)"
  shows "copy_back m dst src n x = (if x \<in> bytes_at dst n then m (src + (x - dst)) else m x)"
  using assms
proof (induction n arbitrary: m)
  case 0
  then show ?case by (simp add: bytes_at_def)
next
  case (Suc n)
  let ?m = "m(dst + of_nat n := m (src + of_nat n))"
  have n: "unat (of_nat n :: u64) = n" using Suc.prems(1) by (intro u64_of_nat_unat) simp
  have IH: "copy_back m dst src (Suc n) x = (if x \<in> bytes_at dst n then ?m (src + (x - dst)) else ?m x)"
    using Suc.IH [of ?m] Suc.prems by (simp del: fun_upd_apply)
  have top: "x = dst + of_nat n \<longleftrightarrow> unat (x - dst) = n"
  proof -
    have "x = dst + of_nat n \<longleftrightarrow> x - dst = of_nat n" by (simp add: diff_eq_eq add.commute)
    then show ?thesis using n by (simp only: word_unat_eq_iff)
  qed
  have "src + (x - dst) \<noteq> dst + of_nat n" if x: "unat (x - dst) < n"
  proof
    assume "src + (x - dst) = dst + of_nat n"
    then have "src - dst = of_nat n - (x - dst)" by (simp add: algebra_simps)
    moreover have "unat (of_nat n - (x - dst)) = n - unat (x - dst)"
      using n x by (subst unat_sub) (simp_all add: word_le_nat_alt)
    ultimately have "unat (src - dst) = n - unat (x - dst)" by (simp only:)
    then show False using Suc.prems(2) by linarith
  qed
  then show ?case using IH top by (auto simp: bytes_at_def less_Suc_eq)
qed

lemma memmove_moved:
  assumes "unat dst + n \<le> 2 ^ 64" "unat src + n \<le> 2 ^ 64"
  shows "memmove m dst src n = (moved m dst src n, dst)"
proof (rule prod_eqI; (rule ext)?)
  fix x
  have n: "n \<le> 2 ^ 64" using assms by simp
  consider "dst = src \<or> n = 0" | "dst < src" | "src < dst" by fastforce
  then show "fst (memmove m dst src n) x = fst (moved m dst src n, dst) x"
  proof cases
    case 1
    then show ?thesis using moved_apply [OF n, of m dst src x] by (auto simp: memmove_def bytes_at_def)
  next
    case 2
    then have "n \<le> unat (dst - src)" using assms by (simp add: unat_sub_if' word_less_nat_alt)
    then show ?thesis using 2 copy_up_apply [OF n] moved_apply [OF n] by (simp add: memmove_def bytes_at_def)
  next
    case 3
    then have "n \<le> unat (src - dst)" using assms by (simp add: unat_sub_if' word_less_nat_alt)
    then show ?thesis using 3 copy_back_apply [OF n] moved_apply [OF n] by (auto simp: memmove_def bytes_at_def)
  qed
qed (simp add: memmove_def)

section \<open>Comparing\<close>

text \<open>The order of byte strings: the first difference decides.\<close>

fun first_diff :: "u8 list \<Rightarrow> u8 list \<Rightarrow> int" where
  "first_diff (x # xs) (y # ys) = (if x = y then first_diff xs ys else uint x - uint y)"
| "first_diff (x # xs) [] = uint x"
| "first_diff [] (y # ys) = - uint y"
| "first_diff [] [] = 0"

lemma memcmp_first_diff: "memcmp m a b n = first_diff (bytes_from m a n) (bytes_from m b n)"
  by (induction n arbitrary: a b) simp_all

text \<open>\<open>s\<close> is the string at \<open>a\<close>.\<close>

fun string_at :: "memory \<Rightarrow> u64 \<Rightarrow> u8 list \<Rightarrow> bool" where
  "string_at m a [] \<longleftrightarrow> m a = 0"
| "string_at m a (x # xs) \<longleftrightarrow> m a = x \<and> x \<noteq> 0 \<and> string_at m (a + 1) xs"

lemma strcmp_first_diff: "string_at m a s \<Longrightarrow> string_at m b t \<Longrightarrow> strcmp m a b = Some (first_diff s t)"
proof (induction s t arbitrary: a b rule: first_diff.induct)
  case (1 x xs y ys)
  then show ?case by (subst strcmp.simps) auto
qed (subst strcmp.simps; auto)+

lemma strlen_loop_length:
  "string_at m a s \<Longrightarrow> a \<noteq> 0 \<Longrightarrow> unat a + length s < 2 ^ 64 \<Longrightarrow> strlen_loop m a n = Some (n + of_nat (length s))"
proof (induction s arbitrary: a n)
  case Nil
  then show ?case by (subst strlen_loop.simps) simp
next
  case (Cons x xs)
  have u: "unat (a + 1) = unat a + 1" using Cons.prems by (subst unat_add_small) simp_all
  then have "a + 1 \<noteq> 0" by (metis add_gr_0 less_numeral_extra(1,3) unat_0)
  then have "strlen_loop m (a + 1) (n + 1) = Some (n + 1 + of_nat (length xs))" using Cons.prems u by (intro Cons.IH) simp_all
  then show ?case using Cons.prems by (subst strlen_loop.simps) (simp add: algebra_simps)
qed

lemma first_diff_0: "0 \<notin> set s \<Longrightarrow> 0 \<notin> set t \<Longrightarrow> first_diff s t = 0 \<longleftrightarrow> s = t"
  by (induction s t rule: first_diff.induct) (auto simp: uint_0_iff dest: word_uint_eqI)


section \<open>Overlapping moves\<close>

text \<open>
  C33. \<open>memmove\<close> is the same as reading all source bytes first and storing them then, however the
  two ranges overlap; \<open>memcpy\<close> is so when they do not, and \<open>memset\<close> stores one byte throughout.
\<close>

theorem memmove_buffered:
  assumes "unat dst + n \<le> 2 ^ 64" "unat src + n \<le> 2 ^ 64"
  shows "memmove m dst src n = (put_list m dst (bytes_from m src n), dst) \<and>
    (bytes_at dst n \<inter> bytes_at src n = {} \<longrightarrow> memcpy m dst src n = (put_list m dst (bytes_from m src n), dst)) \<and>
    memset m dst c n = (put_list m dst (replicate n (word_of_int c)), dst)"
proof -
  have n: "n \<le> 2 ^ 64" using assms by simp
  have "memcpy m dst src n = (moved m dst src n, dst)" if "bytes_at dst n \<inter> bytes_at src n = {}"
    using copy_bytes_apply [OF n that] moved_apply [OF n] by (simp add: memcpy_def fun_eq_iff)
  moreover have "fill_bytes m dst v n = put_list m dst (replicate n v)" for v
    using fill_bytes_apply [OF n] put_list_apply [of "replicate n v"] n by (auto simp: fun_eq_iff bytes_at_def)
  ultimately show ?thesis using memmove_moved [OF assms] by (simp add: memset_def moved_def)
qed

theorem memmove_buffered_witness:
  "map (fst (memmove (\<lambda>x. ucast x) 0x1002 0x1000 4)) [0x1000, 0x1001, 0x1002, 0x1003, 0x1004, 0x1005] = [0, 1, 0, 1, 2, 3]"
proof -
  have "memmove (\<lambda>x. ucast x) 0x1002 0x1000 4 = (put_list (\<lambda>x. ucast x) 0x1002 (bytes_from (\<lambda>x. ucast x) 0x1000 4), 0x1002)"
    using memmove_buffered [of "0x1002" 4 "0x1000" "\<lambda>x. ucast x"] by simp
  then show ?thesis by (simp only: fst_conv) code_simp
qed

end
