(* ===== verification/Con_Calls.thy ===== *)
theory Con_Calls
  imports Console
begin

text \<open>
  Calls of the console and the serial line. Code above the console (the memory test, the shell, the
  kernel's start) is modelled with the list of its calls as output; \<open>run_calls\<close> makes the calls.
\<close>

datatype con_call =
    Call_Putc char
  | Call_Write string
  | Call_Hex64 u64
  | Call_Dec u64
  | Call_Progress string u64 u64
  | Call_Clear
  | Call_Color u8 u8
  | Call_Page_Up
  | Call_Page_Down
  | Call_Page_Home
  | Call_Page_End
  | Call_Serial char

fun run_call :: "con_call \<Rightarrow> con_sys \<Rightarrow> con_sys option" where
  "run_call (Call_Putc ch) s = console_putc s ch"
| "run_call (Call_Write str) s = console_write s str"
| "run_call (Call_Hex64 v) s = console_write_hex64 s v"
| "run_call (Call_Dec v) s = console_write_dec s v"
| "run_call (Call_Progress label n tot) s = console_progress s label n tot"
| "run_call Call_Clear s = console_clear s"
| "run_call (Call_Color fg bg) s = Some (console_set_color s fg bg)"
| "run_call Call_Page_Up s = console_page_up s"
| "run_call Call_Page_Down s = console_page_down s"
| "run_call Call_Page_Home s = console_page_home s"
| "run_call Call_Page_End s = console_page_end s"
| "run_call (Call_Serial ch) s = Some (serial_putc s ch)"

fun run_calls :: "con_call list \<Rightarrow> con_sys \<Rightarrow> con_sys option" where
  "run_calls [] s = Some s"
| "run_calls (c # cs) s = do { s1 \<leftarrow> run_call c s; run_calls cs s1 }"

lemma run_calls_append: "run_calls (xs @ ys) s = do { s1 \<leftarrow> run_calls xs s; run_calls ys s1 }"
  by (induction xs arbitrary: s) (auto split: Option.bind_splits)

end
