(* ===== verification/Memtest.thy ===== *)
theory Memtest
  imports Con_Calls
begin

text \<open>
  The memory test (\<open>kernel64/memtest.c\<close>). The memory under test is the machine's, not the kernel's: a
  state of any type with a write and a read of 64-bit words, \<open>wr\<close> and \<open>rd\<close>, arguments of the
  definitions. The output is the list of console calls. \<open>None\<close> is a loop that does not end: the end of
  a region near \<open>2 ^ 64\<close> makes the loop condition wrap.
\<close>

section \<open>The test\<close>

definition patterns :: "u64 list" where
  "patterns = [0, 0xFFFFFFFFFFFFFFFF, 0xAAAAAAAAAAAAAAAA, 0x5555555555555555, 0x0123456789ABCDEF, 0xFEDCBA9876543210]"

definition progress_call :: "string \<Rightarrow> u64 \<Rightarrow> u64 \<Rightarrow> u64 \<Rightarrow> u64 \<Rightarrow> con_call list" where
  "progress_call label start len addr i = (if i AND 0xFFFF = 0 then [Call_Progress label (addr - start) len] else [])"

partial_function (option) write_pass ::
  "('m \<Rightarrow> u64 \<Rightarrow> u64 \<Rightarrow> 'm) \<Rightarrow> string \<Rightarrow> u64 \<Rightarrow> u64 \<Rightarrow> u64 \<Rightarrow> u64 \<Rightarrow> u64 \<Rightarrow> 'm \<Rightarrow> con_call list \<Rightarrow> ('m \<times> con_call list) option" where
  "write_pass wr label start len pat addr i m out =
     (if addr + 8 \<le> start + len
      then write_pass wr label start len pat (addr + 8) (i + 1) (wr m addr pat) (out @ progress_call label start len addr i)
      else Some (m, out))"

definition mismatch :: "u64 \<Rightarrow> u64 \<Rightarrow> u64 \<Rightarrow> con_call list" where
  "mismatch addr v pat =
     [Call_Write (CHR 0x0A # ''MISMATCH at 0x''), Call_Hex64 addr, Call_Write '' read=0x'', Call_Hex64 v,
      Call_Write '' expected=0x'', Call_Hex64 pat, Call_Write [CHR 0x0A]]"

partial_function (option) verify_pass ::
  "('m \<Rightarrow> u64 \<Rightarrow> u64) \<Rightarrow> string \<Rightarrow> u64 \<Rightarrow> u64 \<Rightarrow> u64 \<Rightarrow> u64 \<Rightarrow> u64 \<Rightarrow> 'm \<Rightarrow> u64 \<Rightarrow> con_call list \<Rightarrow> (u64 \<times> con_call list) option" where
  "verify_pass rd label start len pat addr i m errors out =
     (if addr + 8 \<le> start + len
      then
        let v = rd m addr;
            out1 = out @ (if v \<noteq> pat \<and> errors < 5 then mismatch addr v pat else []) @ progress_call label start len addr i
        in verify_pass rd label start len pat (addr + 8) (i + 1) m (if v \<noteq> pat then errors + 1 else errors) out1
      else Some (errors, out))"

definition run_pattern ::
  "('m \<Rightarrow> u64 \<Rightarrow> u64 \<Rightarrow> 'm) \<Rightarrow> ('m \<Rightarrow> u64 \<Rightarrow> u64) \<Rightarrow> u64 \<Rightarrow> u64 \<Rightarrow> string \<Rightarrow> string \<Rightarrow> u64 \<Rightarrow>
   'm \<times> u64 \<times> con_call list \<Rightarrow> ('m \<times> u64 \<times> con_call list) option" where
  "run_pattern wr rd start len wlabel vlabel pat = (\<lambda>(m, errors, out). do {
     (m1, out1) \<leftarrow> write_pass wr wlabel start len pat start 0 m out;
     (errors1, out2) \<leftarrow> verify_pass rd vlabel start len pat start 0 m1 errors
       (out1 @ [Call_Progress wlabel len len, Call_Putc CHR 0x0D]);
     Some (m1, errors1, out2 @ [Call_Progress vlabel len len, Call_Write [CHR 0x0A]]) })"

fun run_all ::
  "('m \<Rightarrow> u64 \<Rightarrow> u64 \<Rightarrow> 'm) \<Rightarrow> ('m \<Rightarrow> u64 \<Rightarrow> u64) \<Rightarrow> u64 \<Rightarrow> u64 \<Rightarrow> string \<Rightarrow> string \<Rightarrow> u64 list \<Rightarrow>
   'm \<times> u64 \<times> con_call list \<Rightarrow> ('m \<times> u64 \<times> con_call list) option" where
  "run_all wr rd start len wlabel vlabel [] s = Some s"
| "run_all wr rd start len wlabel vlabel (p # ps) s = do {
     s1 \<leftarrow> run_pattern wr rd start len wlabel vlabel p s;
     run_all wr rd start len wlabel vlabel ps s1 }"

definition walk1 :: "u64 list" where "walk1 = map (\<lambda>b. push_bit b 1) [0..<64]"

definition walk0 :: "u64 list" where "walk0 = map (\<lambda>b. NOT (push_bit b 1)) [0..<64]"

definition run_patterns ::
  "('m \<Rightarrow> u64 \<Rightarrow> u64 \<Rightarrow> 'm) \<Rightarrow> ('m \<Rightarrow> u64 \<Rightarrow> u64) \<Rightarrow> 'm \<Rightarrow> u64 \<Rightarrow> u64 \<Rightarrow> bool \<Rightarrow> ('m \<times> u64 \<times> con_call list) option" where
  "run_patterns wr rd m start len destructive = do {
     s1 \<leftarrow> run_all wr rd start len ''Write pat'' ''Verify pat'' patterns (m, 0, []);
     s2 \<leftarrow> run_all wr rd start len ''Walk1 write'' ''Walk1 verify'' walk1 s1;
     run_all wr rd start len ''Walk0 write'' ''Walk0 verify'' walk0 s2 }"

definition memtest_run ::
  "('m \<Rightarrow> u64 \<Rightarrow> u64 \<Rightarrow> 'm) \<Rightarrow> ('m \<Rightarrow> u64 \<Rightarrow> u64) \<Rightarrow> 'm \<Rightarrow> u64 \<Rightarrow> u64 \<Rightarrow> bool \<Rightarrow> ('m \<times> u64 \<times> con_call list) option" where
  "memtest_run wr rd m start len destructive = do {
     (m1, errs, out) \<leftarrow> run_patterns wr rd m start len destructive;
     Some (m1, errs,
       [Call_Write ''Memtest region: start=0x'', Call_Hex64 start, Call_Write '' length='', Call_Hex64 len,
        Call_Write ('' bytes'' @ [CHR 0x0A])] @ out @
       [Call_Write ''Memtest done. Errors: '', Call_Dec errs, Call_Write [CHR 0x0A]]) }"

definition memtest_quick ::
  "('m \<Rightarrow> u64 \<Rightarrow> u64 \<Rightarrow> 'm) \<Rightarrow> ('m \<Rightarrow> u64 \<Rightarrow> u64) \<Rightarrow> 'm \<Rightarrow> ('m \<times> u64 \<times> con_call list) option" where
  "memtest_quick wr rd m = memtest_run wr rd m (16 * 1024 * 1024) (16 * 1024 * 1024) True"

section \<open>The words under test\<close>

definition test_words :: "u64 \<Rightarrow> nat \<Rightarrow> u64 list" where
  "test_words addr n = map (\<lambda>k. addr + of_nat (8 * k)) [0..<n]"

lemma test_words_Suc: "test_words addr (Suc n) = addr # test_words (addr + 8) n"
  by (rule nth_equalityI) (auto simp: test_words_def less_Suc_eq_0_disj algebra_simps simp del: upt_Suc)

text \<open>The loops run over the words of the region: \<open>n\<close> more from \<open>addr\<close> on.\<close>

definition words_left :: "u64 \<Rightarrow> u64 \<Rightarrow> u64 \<Rightarrow> nat \<Rightarrow> bool" where
  "words_left start len addr n \<longleftrightarrow> unat start + unat len + 8 < 2 ^ 64 \<and>
     unat addr + 8 * n \<le> unat start + unat len \<and> unat start + unat len < unat addr + 8 * n + 8"

lemma words_left_end: "words_left start len addr 0 \<Longrightarrow> \<not> addr + 8 \<le> start + len"
proof -
  assume w: "words_left start len addr 0"
  then have "unat (addr + 8) = unat addr + 8" "unat (start + len) = unat start + unat len"
    unfolding words_left_def by (auto intro!: unat_add_small [THEN trans])
  then show ?thesis using w by (simp add: words_left_def word_le_nat_alt)
qed

lemma words_left_Suc:
  assumes "words_left start len addr (Suc n)"
  shows "addr + 8 \<le> start + len" "words_left start len (addr + 8) n"
proof -
  have "unat (addr + 8) = unat addr + 8" "unat (start + len) = unat start + unat len"
    using assms by (simp_all add: words_left_def unat_add_small)
  then show "addr + 8 \<le> start + len" "words_left start len (addr + 8) n"
    using assms by (simp_all add: words_left_def word_le_nat_alt)
qed

lemma words_left_start: "unat start + unat len + 8 < 2 ^ 64 \<Longrightarrow> words_left start len start (unat len div 8)"
  by (simp add: words_left_def)

lemma write_pass_words:
  "words_left start len addr n \<Longrightarrow>
   \<exists>out'. write_pass wr label start len pat addr i m out = Some (fold (\<lambda>a m. wr m a pat) (test_words addr n) m, out')"
proof (induction n arbitrary: addr i m out)
  case 0
  then show ?case using words_left_end by (subst write_pass.simps) (simp add: test_words_def)
next
  case (Suc n)
  then show ?case using words_left_Suc [OF Suc.prems] by (subst write_pass.simps) (simp add: test_words_Suc)
qed

lemma verify_pass_words:
  "words_left start len addr n \<Longrightarrow>
   \<exists>out'. verify_pass rd label start len pat addr i m errors out =
     Some (errors + of_nat (length (filter (\<lambda>a. rd m a \<noteq> pat) (test_words addr n))), out')"
proof (induction n arbitrary: addr i errors out)
  case 0
  then show ?case using words_left_end by (subst verify_pass.simps) (simp add: test_words_def)
next
  case (Suc n)
  let ?e = "if rd m addr \<noteq> pat then errors + 1 else errors"
  have "errors + of_nat (length (filter (\<lambda>a. rd m a \<noteq> pat) (test_words addr (Suc n)))) =
      ?e + of_nat (length (filter (\<lambda>a. rd m a \<noteq> pat) (test_words (addr + 8) n)))" by (simp add: test_words_Suc)
  then show ?case using words_left_Suc [OF Suc.prems] Suc.IH [of "addr + 8" "i + 1" ?e]
    by (subst verify_pass.simps) (simp add: Let_def)
qed


section \<open>Counting mismatches\<close>

definition fill_words :: "('m \<Rightarrow> u64 \<Rightarrow> u64 \<Rightarrow> 'm) \<Rightarrow> u64 list \<Rightarrow> u64 \<Rightarrow> 'm \<Rightarrow> 'm" where
  "fill_words wr ws pat m = fold (\<lambda>a m. wr m a pat) ws m"

definition mismatches :: "('m \<Rightarrow> u64 \<Rightarrow> u64) \<Rightarrow> u64 list \<Rightarrow> u64 \<Rightarrow> 'm \<Rightarrow> nat" where
  "mismatches rd ws pat m = length (filter (\<lambda>a. rd m a \<noteq> pat) ws)"

text \<open>The memory after a list of patterns, and the number of mismatches.\<close>

fun sweep :: "('m \<Rightarrow> u64 \<Rightarrow> u64 \<Rightarrow> 'm) \<Rightarrow> ('m \<Rightarrow> u64 \<Rightarrow> u64) \<Rightarrow> u64 list \<Rightarrow> u64 list \<Rightarrow> 'm \<Rightarrow> 'm \<times> nat" where
  "sweep wr rd ws [] m = (m, 0)"
| "sweep wr rd ws (p # ps) m =
     (let m1 = fill_words wr ws p m; (m2, k) = sweep wr rd ws ps m1 in (m2, mismatches rd ws p m1 + k))"

lemma sweep_append:
  "sweep wr rd ws (ps @ qs) m =
     (fst (sweep wr rd ws qs (fst (sweep wr rd ws ps m))), snd (sweep wr rd ws ps m) + snd (sweep wr rd ws qs (fst (sweep wr rd ws ps m))))"
  by (induction ps arbitrary: m) (simp_all add: Let_def case_prod_beta)

lemma run_all_sweep:
  assumes "unat start + unat len + 8 < 2 ^ 64" and ws: "ws = test_words start (unat len div 8)"
  shows "\<exists>out'. run_all wr rd start len wl vl ps (m, e, out) =
    Some (fst (sweep wr rd ws ps m), e + of_nat (snd (sweep wr rd ws ps m)), out')"
proof (induction ps arbitrary: m e out)
  case (Cons p ps)
  note w = words_left_start [OF assms(1)]
  let ?m = "fill_words wr ws p m"
  obtain out1 where w1: "write_pass wr wl start len p start 0 m out = Some (?m, out1)"
    using write_pass_words [OF w, of wr wl p 0 m out] ws by (auto simp: fill_words_def)
  obtain out2 where w2: "verify_pass rd vl start len p start 0 ?m e (out1 @ [Call_Progress wl len len, Call_Putc CHR 0x0D]) =
      Some (e + of_nat (mismatches rd ws p ?m), out2)"
    using verify_pass_words [OF w, of rd vl p 0 ?m e] ws by (auto simp: mismatches_def)
  show ?case using Cons.IH [of ?m "e + of_nat (mismatches rd ws p ?m)"] w1 w2
    by (simp add: run_pattern_def Let_def case_prod_beta add.assoc)
qed simp

definition all_patterns :: "u64 list" where "all_patterns = patterns @ walk1 @ walk0"

lemma memtest_sweep:
  assumes "unat start + unat len + 8 < 2 ^ 64" and ws: "ws = test_words start (unat len div 8)"
  shows "\<exists>out. memtest_run wr rd m start len d =
    Some (fst (sweep wr rd ws all_patterns m), of_nat (snd (sweep wr rd ws all_patterns m)), out)"
proof -
  note r = run_all_sweep [OF assms]
  let ?s1 = "sweep wr rd ws patterns m"
  let ?s2 = "sweep wr rd ws walk1 (fst ?s1)"
  obtain o1 where "run_all wr rd start len ''Write pat'' ''Verify pat'' patterns (m, 0, []) = Some (fst ?s1, of_nat (snd ?s1), o1)"
    using r [of wr rd "''Write pat''" "''Verify pat''" patterns m 0 "[]"] by auto
  moreover obtain o2 where "run_all wr rd start len ''Walk1 write'' ''Walk1 verify'' walk1 (fst ?s1, of_nat (snd ?s1), o1) =
      Some (fst ?s2, of_nat (snd ?s1) + of_nat (snd ?s2), o2)"
    using r [of wr rd "''Walk1 write''" "''Walk1 verify''" walk1 "fst ?s1" "of_nat (snd ?s1)" o1] by auto
  moreover obtain o3 where "run_all wr rd start len ''Walk0 write'' ''Walk0 verify'' walk0 (fst ?s2, of_nat (snd ?s1) + of_nat (snd ?s2), o2) =
      Some (fst (sweep wr rd ws walk0 (fst ?s2)), of_nat (snd ?s1) + of_nat (snd ?s2) + of_nat (snd (sweep wr rd ws walk0 (fst ?s2))), o3)"
    using r [of wr rd "''Walk0 write''" "''Walk0 verify''" walk0 "fst ?s2" "of_nat (snd ?s1) + of_nat (snd ?s2)" o2] by auto
  ultimately show ?thesis by (simp add: memtest_run_def run_patterns_def all_patterns_def sweep_append add.assoc)
qed

lemma mismatches_le: "mismatches rd ws pat m \<le> length ws"
  by (simp add: mismatches_def)

lemma sweep_le: "snd (sweep wr rd ws ps m) \<le> length ps * length ws"
proof (induction ps arbitrary: m)
  case (Cons p ps)
  show ?case using Cons.IH [of "fill_words wr ws p m"] mismatches_le [of rd ws p "fill_words wr ws p m"]
    by (simp add: Let_def case_prod_beta)
qed simp

text \<open>A bit that always reads the same is found by any pattern with the other value.\<close>

lemma sweep_stuck:
  assumes "p \<in> set ps" "bit p n \<noteq> b" "a \<in> set ws" "\<And>m. bit (rd m a) n = b"
  shows "0 < snd (sweep wr rd ws ps m)"
  using assms(1)
proof (induction ps arbitrary: m)
  case (Cons q ps)
  show ?case
  proof (cases "q = p")
    case True
    have "rd (fill_words wr ws q m) a \<noteq> q" using assms(2,4) True by metis
    then have "0 < mismatches rd ws q (fill_words wr ws q m)" using assms(3) by (auto simp: mismatches_def filter_empty_conv)
    then show ?thesis by (simp add: Let_def case_prod_beta)
  next
    case False
    then show ?thesis using Cons.IH [of "fill_words wr ws q m"] Cons.prems by (simp add: Let_def case_prod_beta)
  qed
qed simp

text \<open>Memory that keeps what is written to each of the words.\<close>

definition keeps_words :: "('m \<Rightarrow> u64 \<Rightarrow> u64 \<Rightarrow> 'm) \<Rightarrow> ('m \<Rightarrow> u64 \<Rightarrow> u64) \<Rightarrow> u64 list \<Rightarrow> bool" where
  "keeps_words wr rd ws \<longleftrightarrow> (\<forall>m v. \<forall>a \<in> set ws. \<forall>a' \<in> set ws. rd (wr m a v) a' = (if a' = a then v else rd m a'))"

lemma fill_words_reads:
  assumes "keeps_words wr rd ws" "set us \<subseteq> set ws" "a \<in> set ws"
  shows "rd (fill_words wr us pat m) a = (if a \<in> set us then pat else rd m a)"
  using assms(2,3)
proof (induction us arbitrary: m)
  case (Cons u us)
  then show ?case using assms(1) by (auto simp: fill_words_def keeps_words_def)
qed (simp add: fill_words_def)

lemma sweep_good:
  assumes k: "keeps_words wr rd ws"
  shows "snd (sweep wr rd ws ps m) = 0 \<and> (\<forall>a \<in> set ws. rd (fst (sweep wr rd ws ps m)) a = (if ps = [] then rd m a else last ps))"
proof (induction ps arbitrary: m)
  case (Cons p ps)
  note f = fill_words_reads [OF k subset_refl]
  have "mismatches rd ws p (fill_words wr ws p m) = 0" using f by (simp add: mismatches_def filter_empty_conv)
  then show ?case using Cons.IH [of "fill_words wr ws p m"] f by (simp add: Let_def case_prod_beta)
qed simp

text \<open>
  C34. The verdict of the memory test: on a region that does not reach the end of the address space
  it returns; on memory that keeps what is written it counts no error and leaves all bits but the
  highest set in every word; and a bit stuck at 0 or at 1 in any tested word is found.
\<close>

theorem memtest_verdict:
  assumes r: "unat start + unat len + 8 < 2 ^ 64" "unat len < 2 ^ 59" and ws: "ws = test_words start (unat len div 8)"
  shows "\<exists>m' errs out. memtest_run wr rd m start len d = Some (m', errs, out) \<and>
    (keeps_words wr rd ws \<longrightarrow> errs = 0 \<and> (\<forall>a \<in> set ws. rd m' a = NOT (push_bit 63 1))) \<and>
    (\<forall>a \<in> set ws. \<forall>n < 64. \<forall>b. (\<forall>m. bit (rd m a) n = b) \<longrightarrow> errs \<noteq> 0)"
proof -
  let ?s = "sweep wr rd ws all_patterns m"
  obtain out where out: "memtest_run wr rd m start len d = Some (fst ?s, of_nat (snd ?s), out)"
    using memtest_sweep [OF r(1) ws, of wr rd m d] by blast
  have l: "length all_patterns = 134" "length ws = unat len div 8"
    by (simp_all add: ws all_patterns_def patterns_def walk1_def walk0_def test_words_def)
  have "snd ?s \<le> 134 * (unat len div 8)" using sweep_le [of wr rd ws all_patterns m] unfolding l .
  then have u: "unat (of_nat (snd ?s) :: u64) = snd ?s" using r(2) by (intro u64_of_nat_unat) simp
  have "last all_patterns = NOT (push_bit 63 1)" "all_patterns \<noteq> []"
    by (simp_all add: all_patterns_def walk0_def last_map)
  then have "keeps_words wr rd ws \<longrightarrow> of_nat (snd ?s) = (0 :: u64) \<and> (\<forall>a \<in> set ws. rd (fst ?s) a = NOT (push_bit 63 1))"
    using sweep_good [of wr rd ws all_patterns m] by simp
  moreover have "of_nat (snd ?s) \<noteq> (0 :: u64)" if "a \<in> set ws" "n < 64" "\<forall>m. bit (rd m a) n = b" for a n b
  proof -
    have "(if b then 0 else 0xFFFFFFFFFFFFFFFF) \<in> set all_patterns" by (simp add: all_patterns_def patterns_def)
    moreover have "(0xFFFFFFFFFFFFFFFF :: u64) = -1" by simp
    then have "bit (0xFFFFFFFFFFFFFFFF :: u64) n" using that(2) by (simp only: bit_minus_1_iff) simp
    ultimately have "0 < snd ?s" using that by (intro sweep_stuck [of "if b then 0 else 0xFFFFFFFFFFFFFFFF" _ n b a]) auto
    then show ?thesis using u by (metis less_numeral_extra(3) unat_0)
  qed
  ultimately show ?thesis using out by blast
qed

theorem memtest_verdict_witness:
  "\<exists>m' out. memtest_run (\<lambda>m a v. m(a := v)) (\<lambda>m a. m a) (\<lambda>_. 7) 0x1000000 20 True = Some (m', 0, out) \<and>
     m' 0x1000008 = NOT (push_bit 63 1)"
proof -
  have "keeps_words (\<lambda>m a v. m(a := v)) (\<lambda>m a. m a) ws" for ws by (simp add: keeps_words_def)
  moreover have "0x1000008 \<in> set (test_words 0x1000000 (unat (20 :: u64) div 8))" by code_simp
  ultimately show ?thesis
    using memtest_verdict [of "0x1000000" 20 _ "\<lambda>m a v. m(a := v)" "\<lambda>m a. m a" "\<lambda>_. 7" True, OF _ _ refl] by auto
qed

end
