(* ===== verification/Shell_Path.thy ===== *)
theory Shell_Path
  imports Vfs
begin

text \<open>
  Paths in the shell (\<open>kernel64/shell.c\<close>): the current directory, a mount name and a path below it,
  and the translation of what the user types to the form \<open>mount:path\<close> of the file system switch. Strings
  are NUL-free; a buffer of \<open>n\<close> bytes holds at most \<open>n - 1\<close> characters. \<open>None\<close> is a write outside a
  local buffer.
\<close>

section \<open>Strings\<close>

definition str_copy :: "string \<Rightarrow> nat \<Rightarrow> string" where
  "str_copy s n = take (n - 1) s"

text \<open>\<open>for (...; s[i] && pos < n - 1; ...) buf[pos++] = s[i]\<close>\<close>

definition app :: "nat \<Rightarrow> string \<Rightarrow> string \<Rightarrow> string" where
  "app n buf s = buf @ take (n - 1 - length buf) s"

definition is_ws :: "char \<Rightarrow> bool" where
  "is_ws c \<longleftrightarrow> c = CHR '' '' \<or> c = CHR 0x09"

definition skip_ws :: "string \<Rightarrow> string" where
  "skip_ws s = dropWhile is_ws s"

text \<open>A token of at most \<open>n\<close> characters, and what follows it.\<close>

definition token :: "nat \<Rightarrow> string \<Rightarrow> string \<times> string" where
  "token n s = (let t = take n (takeWhile (\<lambda>c. \<not> is_ws c) s) in (t, drop (length t) s))"

definition hex_value :: "char \<Rightarrow> u64 option" where
  "hex_value c =
     (if c \<in> set ''0123456789'' then Some (of_nat (of_char c - 48))
      else if c \<in> set ''abcdef'' then Some (of_nat (10 + (of_char c - 97)))
      else if c \<in> set ''ABCDEF'' then Some (of_nat (10 + (of_char c - 65)))
      else None)"

text \<open>The character that ends the number is consumed.\<close>

fun parse_hex :: "u64 \<Rightarrow> string \<Rightarrow> u64 \<times> string" where
  "parse_hex v [] = (v, [])"
| "parse_hex v (c # s) = (case hex_value c of Some d \<Rightarrow> parse_hex (push_bit 4 v OR d) s | None \<Rightarrow> (v, s))"

section \<open>The current directory\<close>

record shell_cwd =
  s_cwd_mnt :: string
  s_cwd_path :: string

definition cwd_init :: shell_cwd where
  "cwd_init = \<lparr>s_cwd_mnt = ''root'', s_cwd_path = []\<rparr>"

definition set_cwd_from_path :: "shell_cwd \<Rightarrow> string \<Rightarrow> shell_cwd" where
  "set_cwd_from_path c path =
     (let mnt = takeWhile (\<lambda>x. x \<noteq> CHR '':'') path;
          sep = dropWhile (\<lambda>x. x \<noteq> CHR '':'') path
      in case sep of
           [] \<Rightarrow> c
         | _ # sub \<Rightarrow> \<lparr>s_cwd_mnt = take 7 mnt, s_cwd_path = str_copy (case sub of x # q \<Rightarrow> if x = CHR ''/'' then q else sub | [] \<Rightarrow> []) 128\<rparr>)"

section \<open>Resolving paths\<close>

text \<open>The components of a path, cut to 63 characters.\<close>

function comps_of :: "string \<Rightarrow> string list" where
  "comps_of s =
     (let t = dropWhile (\<lambda>c. c = CHR ''/'') s
      in if t = [] then []
         else take 63 (takeWhile (\<lambda>c. c \<noteq> CHR ''/'') t) # comps_of (dropWhile (\<lambda>c. c \<noteq> CHR ''/'') t))"
  by pat_completeness auto
termination
proof (relation "measure length", goal_cases)
  case (2 s t)
  have n: "t \<noteq> []" using 2 by simp
  have "hd t \<noteq> CHR ''/''" using hd_dropWhile [of "\<lambda>c. c = CHR ''/''" s] n 2(1) by simp
  then obtain x xs where t: "t = x # xs" "x \<noteq> CHR ''/''" using n by (cases t) auto
  have "length (dropWhile (\<lambda>c. c \<noteq> CHR ''/'') t) < length t" using t length_dropWhile_le [of _ xs] by (simp add: le_imp_less_Suc)
  also have "length t \<le> length s" using 2 length_dropWhile_le by metis
  finally show ?case by simp
qed simp

declare comps_of.simps [simp del]

text \<open>The stack of at most 16 components.\<close>

definition push_comp :: "string list \<Rightarrow> string \<Rightarrow> string list" where
  "push_comp st c =
     (if c = [] \<or> c = ''.'' then st
      else if c = ''..'' then butlast st
      else if length st < 16 then st @ [c] else st)"

definition join :: "nat \<Rightarrow> string \<Rightarrow> string list \<Rightarrow> string" where
  "join n norm cs = fold (\<lambda>c out. app n (app n out ''/'') c) cs norm"

definition normalize_path :: "nat \<Rightarrow> string \<Rightarrow> string" where
  "normalize_path n tmp =
     (let mnt = take (n - 1) (takeWhile (\<lambda>c. c \<noteq> CHR '':'') tmp);
          rest = drop (length mnt) tmp;
          colon = (rest \<noteq> [] \<and> hd rest = CHR '':'' \<and> length mnt < n - 1);
          norm1 = (if colon then mnt @ '':'' else mnt);
          rest1 = (if colon then tl rest else rest);
          norm2 = (if rest1 \<noteq> [] \<and> hd rest1 = CHR ''/'' then norm1 else app n norm1 ''/'');
          norm3 = join n norm2 (fold (\<lambda>c st. push_comp st c) (comps_of rest1) [])
      in if norm3 = [] \<or> last norm3 = CHR '':'' then app n norm3 ''/'' else norm3)"

text \<open>The intermediate path is built in \<open>tmp[160]\<close>, whatever the size \<open>n\<close> of the result.\<close>

definition resolve_path :: "shell_cwd \<Rightarrow> string \<Rightarrow> nat \<Rightarrow> string option" where
  "resolve_path c inp n =
     (if CHR '':'' \<in> set inp then Some (str_copy inp n)
      else if s_cwd_mnt c = [] then Some []
      else
        let base = app n (app n [] (s_cwd_mnt c)) '':'';
            tmp = (if inp \<noteq> [] \<and> hd inp = CHR ''/'' then app n base (tl inp)
                   else app n (app n (app n base (s_cwd_path c)) ''/'') inp)
        in if length tmp \<ge> 160 then None else Some (str_copy (normalize_path n tmp) n))"

text \<open>\<open>has_mount\<close> is \<open>vfs_has_mount\<close>. The result \<open>Some None\<close> is the return value -1.\<close>

definition translate_unix_path :: "(string \<Rightarrow> bool) \<Rightarrow> shell_cwd \<Rightarrow> string \<Rightarrow> nat \<Rightarrow> string option option" where
  "translate_unix_path has_mount c unix_path n =
     (if n < 2 then Some None
      else if unix_path = ''/'' then Some (Some (str_copy ''root:/'' n))
      else if unix_path \<noteq> [] \<and> hd unix_path = CHR ''/''
      then
        let p = tl unix_path;
            first_comp = take 15 (takeWhile (\<lambda>x. x \<noteq> CHR ''/'') p)
        in if first_comp \<noteq> [] \<and> has_mount first_comp
           then
             let rest0 = drop (length first_comp) p;
                 rest = (if rest0 \<noteq> [] \<and> hd rest0 = CHR ''/'' then tl rest0 else rest0)
             in Some (Some (app n (app n (app n (app n [] first_comp) '':'') ''/'') rest))
           else if has_mount ''root'' then Some (Some (app n (app n (app n [] ''root'') '':'') unix_path))
           else if s_cwd_mnt c \<noteq> [] then Some (Some (app n (app n (app n [] (s_cwd_mnt c)) '':'') unix_path))
           else Some None
      else map_option Some (resolve_path c unix_path n))"


section \<open>Components\<close>

abbreviation slash :: char where "slash \<equiv> CHR ''/''"

lemma comps_of_slash [simp]: "comps_of (slash # s) = comps_of s" "comps_of [] = []"
  by (subst (1 2) comps_of.simps, simp) (simp add: comps_of.simps)

lemma comps_of_word:
  assumes "s \<noteq> []" "slash \<notin> set s"
  shows "comps_of (s @ slash # t) = take 63 s # comps_of t" "comps_of s = [take 63 s]"
proof -
  have ns: "x \<noteq> slash" if "x \<in> set s" for x using assms(2) that by auto
  have d: "dropWhile (\<lambda>c. c = slash) (s @ u) = s @ u" for u using assms by (cases s) auto
  have t: "takeWhile (\<lambda>c. c \<noteq> slash) (s @ slash # t) = s" "dropWhile (\<lambda>c. c \<noteq> slash) (s @ slash # t) = slash # t"
    by (simp_all add: takeWhile_append2 dropWhile_append2 ns)
  show "comps_of (s @ slash # t) = take 63 s # comps_of t" using assms t by (subst comps_of.simps) (simp add: d Let_def)
  have tw: "takeWhile (\<lambda>c. c \<noteq> slash) s = s" "dropWhile (\<lambda>c. c \<noteq> slash) s = []" using assms by (auto simp: takeWhile_eq_all_conv dropWhile_eq_Nil_conv)
  show "comps_of s = [take 63 s]" using assms(1) d [of "[]"] by (subst comps_of.simps) (simp add: Let_def tw)
qed

text \<open>Every string is empty, starts with a slash, or with a component that a slash or the end follows.\<close>

lemma path_cases [case_names Nil Slash Word Last]:
  assumes "s = [] \<Longrightarrow> P" "\<And>t. s = slash # t \<Longrightarrow> P"
    "\<And>w t. s = w @ slash # t \<Longrightarrow> w \<noteq> [] \<Longrightarrow> slash \<notin> set w \<Longrightarrow> P" "s \<noteq> [] \<Longrightarrow> slash \<notin> set s \<Longrightarrow> P"
  shows P
proof (cases "slash \<in> set s")
  case True
  then obtain w t where w: "s = w @ slash # t" "slash \<notin> set w" using split_list_first by metis
  then show ?thesis using assms(2,3) by (cases "w = []") auto
qed (use assms in \<open>cases "s = []", auto\<close>)

lemma path_induct [case_names Nil Slash Word Last]:
  assumes "P []" "\<And>t. P t \<Longrightarrow> P (slash # t)"
    "\<And>w t. w \<noteq> [] \<Longrightarrow> slash \<notin> set w \<Longrightarrow> P t \<Longrightarrow> P (w @ slash # t)" "\<And>w. w \<noteq> [] \<Longrightarrow> slash \<notin> set w \<Longrightarrow> P w"
  shows "P (s :: string)"
proof (induction s rule: length_induct)
  case (1 s)
  then show ?case using assms by (cases s rule: path_cases) auto
qed

lemma comps_of_append: "comps_of (s @ slash # t) = comps_of s @ comps_of t"
  by (induction s rule: path_induct) (simp_all add: comps_of_word)

definition weight :: "string list \<Rightarrow> nat" where
  "weight cs = sum_list (map (\<lambda>c. Suc (length c)) cs)"

lemma weight_simps [simp]: "weight [] = 0" "weight (c # cs) = Suc (length c) + weight cs" "weight (cs @ ds) = weight cs + weight ds"
  by (simp_all add: weight_def)

lemma comps_of_weight: "weight (comps_of s) \<le> Suc (length s)" "slash \<notin> \<Union> (set ` set (comps_of s))" "[] \<notin> set (comps_of s)"
    "c \<in> set (comps_of s) \<Longrightarrow> length c \<le> 63"
  by (induction s rule: path_induct) (auto simp: comps_of_word dest: in_set_takeD)

lemma comps_of_chars: "x \<in> set (comps_of s) \<Longrightarrow> set x \<subseteq> set s"
  by (induction s rule: path_induct) (auto simp: comps_of_word dest: in_set_takeD)

definition joined :: "string list \<Rightarrow> string" where
  "joined cs = concat (map (\<lambda>c. slash # c) cs)"

lemma joined_simps [simp]: "joined [] = []" "joined (c # cs) = slash # c @ joined cs" "length (joined cs) = weight cs"
  by (simp_all add: joined_def, induction cs) simp_all

lemma comps_of_joined:
  assumes "\<forall>c \<in> set cs. c \<noteq> [] \<and> slash \<notin> set c \<and> length c \<le> 63"
  shows "comps_of (joined cs) = cs"
  using assms
proof (induction cs)
  case (Cons c cs)
  then show ?case by (cases cs) (auto simp: comps_of_word)
qed simp

text \<open>Lexical normalisation: a dot stays, two dots go up, at the top they stay.\<close>

definition walk :: "string list \<Rightarrow> string \<Rightarrow> string list" where
  "walk st c = (if c = ''.'' then st else if c = ''..'' then butlast st else st @ [c])"

definition clean :: "string list \<Rightarrow> string list" where
  "clean cs = foldl walk [] cs"

text \<open>The same with room for 16 levels: a component that would be below the 16th level is passed over.\<close>

definition walk16 :: "string list \<Rightarrow> string \<Rightarrow> string list" where
  "walk16 st c = (if length (walk st c) \<le> 16 then walk st c else st)"

definition clean16 :: "string list \<Rightarrow> string list" where
  "clean16 cs = foldl walk16 [] cs"

lemma push_walk:
  assumes "[] \<notin> set cs" "length st \<le> 16"
  shows "fold (\<lambda>c st. push_comp st c) cs st = foldl walk16 st cs"
  using assms
proof (induction cs arbitrary: st)
  case (Cons c cs)
  have "push_comp st c = walk16 st c" "length (walk16 st c) \<le> 16" using Cons.prems by (auto simp: push_comp_def walk_def walk16_def)
  then show ?case using Cons by simp
qed simp

lemma walk16_length: "length st \<le> 16 \<Longrightarrow> length (foldl walk16 st cs) \<le> 16"
  by (induction cs arbitrary: st) (simp_all add: walk16_def)

text \<open>Where no prefix of the path leads deeper than 16 levels, nothing is passed over.\<close>

lemma walk16_eq:
  assumes "\<forall>k \<le> length cs. length (foldl walk st (take k cs)) \<le> 16"
  shows "foldl walk16 st cs = foldl walk st cs"
  using assms
proof (induction cs arbitrary: st)
  case (Cons c cs)
  have "length (walk st c) \<le> 16" using Cons.prems [rule_format, of 1] by simp
  moreover have "\<forall>k \<le> length cs. length (foldl walk (walk st c) (take k cs)) \<le> 16"
  proof (intro allI impI)
    fix k assume "k \<le> length cs"
    then show "length (foldl walk (walk st c) (take k cs)) \<le> 16" using Cons.prems [rule_format, of "Suc k"] by simp
  qed
  ultimately show ?case using Cons.IH by (simp add: walk16_def)
qed simp

lemma butlast_weight: "weight (butlast st) \<le> weight st"
  by (cases st rule: rev_cases) simp_all

lemma walk_weight: "weight (foldl walk16 st cs) \<le> weight st + weight cs"
proof (induction cs arbitrary: st)
  case (Cons c cs)
  have "weight (walk16 st c) \<le> weight st + Suc (length c)" using butlast_weight [of st] by (auto simp: walk_def walk16_def)
  then show ?case using Cons.IH [of "walk16 st c"] by simp
qed simp

lemma walk_set: "set (foldl walk16 st cs) \<subseteq> set st \<union> (set cs - {''.'', ''..''})"
proof (induction cs arbitrary: st)
  case (Cons c cs)
  have "set (walk16 st c) \<subseteq> set st \<union> ({c} - {''.'', ''..''})" by (auto simp: walk_def walk16_def dest: in_set_butlastD)
  then show ?case using Cons.IH [of "walk16 st c"] by auto
qed simp


section \<open>Resolving\<close>

lemma app_fits: "length buf + length s \<le> n - 1 \<Longrightarrow> app n buf s = buf @ s"
  by (simp add: app_def)

lemma app_take: "app n (take (n - 1) x) s = take (n - 1) (x @ s)"
  by (simp add: app_def min_def)

lemma join_fits: "length norm + weight cs \<le> n - 1 \<Longrightarrow> join n norm cs = norm @ joined cs"
proof (induction cs arbitrary: norm)
  case (Cons c cs)
  have "app n (app n norm ''/'') c = norm @ slash # c" using Cons.prems by (simp add: app_fits)
  then show ?case using Cons by (simp add: join_def)
qed (simp add: join_def)

lemma joined_last: "cs \<noteq> [] \<Longrightarrow> \<forall>c \<in> set cs. c \<noteq> [] \<and> CHR '':'' \<notin> set c \<Longrightarrow> joined cs \<noteq> [] \<and> last (joined cs) \<noteq> CHR '':''"
proof (induction cs rule: rev_induct)
  case (snoc c cs)
  have "joined (cs @ [c]) = joined cs @ slash # c" by (simp add: joined_def)
  moreover have "last c \<noteq> CHR '':''" "c \<noteq> []" using snoc.prems(2) last_in_set [of c] by (auto simp del: last_in_set)
  ultimately show ?case using snoc.prems(2) by auto
qed simp

lemma normalize_clean:
  assumes m: "CHR '':'' \<notin> set mnt" "CHR '':'' \<notin> set rest" and l: "length mnt + length rest + 3 < n"
    and c: "cs = clean16 (comps_of rest)"
  shows "normalize_path n (mnt @ '':'' @ rest) =
    mnt @ '':'' @ (if cs = [] then ''/'' else (if rest \<noteq> [] \<and> hd rest = slash then [] else ''/'') @ joined cs)"
proof -
  let ?tmp = "mnt @ '':'' @ rest"
  have ns: "x \<noteq> CHR '':''" if "x \<in> set mnt" for x using m(1) that by auto
  have tw: "takeWhile (\<lambda>c. c \<noteq> CHR '':'') ?tmp = mnt" by (simp add: takeWhile_append2 ns)
  have st: "fold (\<lambda>c st. push_comp st c) (comps_of rest) [] = cs"
    unfolding c clean16_def using comps_of_weight(3) [of rest] by (intro push_walk) simp_all
  have w: "weight cs \<le> Suc (length rest)"
    unfolding c clean16_def using walk_weight [of "[]" "comps_of rest"] comps_of_weight(1) [of rest] by simp
  have sub: "set cs \<subseteq> set (comps_of rest)" unfolding c clean16_def using walk_set [of "[]" "comps_of rest"] by auto
  have "\<forall>x \<in> set cs. x \<noteq> [] \<and> CHR '':'' \<notin> set x"
  proof
    fix x assume "x \<in> set cs"
    then have x: "x \<in> set (comps_of rest)" using sub by blast
    then have "x \<noteq> []" using comps_of_weight(3) by metis
    moreover have "set x \<subseteq> set rest" using comps_of_chars x by blast
    ultimately show "x \<noteq> [] \<and> CHR '':'' \<notin> set x" using m(2) by blast
  qed
  then have lst: "cs \<noteq> [] \<Longrightarrow> joined cs \<noteq> [] \<and> last (joined cs) \<noteq> CHR '':''" by (rule joined_last [rotated])
  have ln: "length mnt < n - Suc 0" "take (n - Suc 0) mnt = mnt" using l by simp_all
  show ?thesis
  proof (cases "rest \<noteq> [] \<and> hd rest = slash")
    case True
    have "join n (mnt @ '':'') cs = mnt @ '':'' @ joined cs" using w l by (subst join_fits) simp_all
    then show ?thesis using True l lst tw st ln by (cases "cs = []") (simp_all add: normalize_path_def Let_def app_fits)
  next
    case False
    have "join n (mnt @ '':'' @ ''/'') cs = mnt @ '':'' @ ''/'' @ joined cs" using w l by (subst join_fits) simp_all
    then show ?thesis using False l lst tw st ln by (cases "cs = []") (auto simp: normalize_path_def Let_def app_fits)
  qed
qed

definition cwd_ok :: "shell_cwd \<Rightarrow> bool" where
  "cwd_ok c \<longleftrightarrow> s_cwd_mnt c \<noteq> [] \<and> CHR '':'' \<notin> set (s_cwd_mnt c) \<and> CHR '':'' \<notin> set (s_cwd_path c) \<and>
     (s_cwd_path c = [] \<or> hd (s_cwd_path c) \<noteq> slash)"

text \<open>
  C36. A relative path names what lexical normalisation gives, with room for 16 levels: the components
  of the current directory and of the path, each cut to 63 characters, are gone through in order, dots
  dropped and two dots going up but not above the mount; a component that would be below the 16th level
  is passed over. So the result stays on the current mount, has at most 16 components and no dots left,
  and where no prefix of the path leads below the 16th level it is exactly the normalised path. A
  directory below the root of the mount gives a doubled slash. When the whole is too long for \<open>tmp\<close>,
  the code writes past it.
\<close>

theorem resolve_path_normal:
  assumes c: "cwd_ok c" and i: "CHR '':'' \<notin> set inp" "inp = [] \<or> hd inp \<noteq> slash"
    and k: "cs = clean16 (comps_of (s_cwd_path c) @ comps_of inp)"
    and sub: "sub = (if cs = [] then ''/'' else (if s_cwd_path c = [] then [] else ''/'') @ joined cs)"
  shows "resolve_path c inp 192 =
      (if length (s_cwd_mnt c) + length (s_cwd_path c) + length inp + 2 < 160 then Some (s_cwd_mnt c @ '':'' @ sub) else None) \<and>
    comps_of sub = cs \<and> ''.'' \<notin> set cs \<and> ''..'' \<notin> set cs \<and> length cs \<le> 16 \<and>
    ((\<forall>n \<le> length (comps_of (s_cwd_path c) @ comps_of inp). length (clean (take n (comps_of (s_cwd_path c) @ comps_of inp))) \<le> 16) \<longrightarrow>
      cs = clean (comps_of (s_cwd_path c) @ comps_of inp))"
proof -
  let ?m = "s_cwd_mnt c" and ?p = "s_cwd_path c" and ?rest = "s_cwd_path c @ slash # inp"
  let ?t = "app 192 (app 192 (app 192 (app 192 (app 192 [] ?m) '':'') ?p) ''/'') inp"
  have ok: "?m \<noteq> []" "CHR '':'' \<notin> set ?m" "CHR '':'' \<notin> set ?p" "?p = [] \<or> hd ?p \<noteq> slash" using c by (simp_all add: cwd_ok_def)
  have r: "resolve_path c inp 192 = (if length ?t \<ge> 160 then None else Some (str_copy (normalize_path 192 ?t) 192))"
    using ok(1) i by (cases inp) (simp_all add: resolve_path_def Let_def)
  have cr: "comps_of ?rest = comps_of ?p @ comps_of inp" by (rule comps_of_append)
  have nodots: "set cs \<subseteq> set (comps_of ?rest) - {''.'', ''..''}"
    unfolding k clean16_def cr using walk_set [of "[]" "comps_of ?p @ comps_of inp"] by simp
  have "\<forall>x \<in> set cs. x \<noteq> [] \<and> slash \<notin> set x \<and> length x \<le> 63"
    using nodots comps_of_weight(2,3) [of ?rest] comps_of_weight(4) [of _ ?rest] by blast
  then have "comps_of (joined cs) = cs" by (rule comps_of_joined)
  then have cs: "comps_of sub = cs" "''.'' \<notin> set cs" "''..'' \<notin> set cs" using nodots by (auto simp: sub)
  have deep1: "length cs \<le> 16" unfolding k clean16_def by (rule walk16_length) simp
  have deep2: "(\<forall>n \<le> length (comps_of ?p @ comps_of inp). length (clean (take n (comps_of ?p @ comps_of inp))) \<le> 16) \<longrightarrow>
      cs = clean (comps_of ?p @ comps_of inp)"
    unfolding k clean16_def clean_def by (rule impI) (rule walk16_eq)
  note deep = deep1 deep2
  show ?thesis
  proof (cases "length ?m + length ?p + length inp + 2 < 160")
    case True
    have t: "?t = ?m @ '':'' @ ?rest" using True by (simp add: app_fits)
    have l: "length ?m + length ?rest + 3 < 192" using True by simp
    have hd: "(?rest \<noteq> [] \<and> hd ?rest = slash) = (?p = [])" using ok(4) by (cases ?p) auto
    have "normalize_path 192 ?t = ?m @ '':'' @ sub"
      unfolding t sub using normalize_clean [OF ok(2) _ l refl] ok(3) i(1) k cr hd by simp
    moreover have "length (?m @ '':'' @ sub) \<le> 191"
    proof -
      have "weight cs \<le> Suc (length ?rest)"
        unfolding k clean16_def using walk_weight [of "[]" "comps_of ?rest"] comps_of_weight(1) [of ?rest] cr by simp
      then show ?thesis using True by (simp add: sub)
    qed
    ultimately show ?thesis using True r t cs deep by (simp add: str_copy_def)
  next
    case False
    have "?t = take 191 (?m @ '':'' @ ?p @ ''/'' @ inp)"
      using app_take [of 192 "[]" ?m] app_take [of 192 ?m "'':''"] app_take [of 192 "?m @ '':''" ?p]
        app_take [of 192 "?m @ '':'' @ ?p" "''/''"] app_take [of 192 "?m @ '':'' @ ?p @ ''/''" inp] by simp
    then have "length ?t = min 191 (length ?m + length ?p + length inp + 2)" by simp
    then have "length ?t \<ge> 160" using False by linarith
    then show ?thesis using False r cs deep by simp
  qed
qed

theorem resolve_path_normal_witness:
  "resolve_path \<lparr>s_cwd_mnt = ''root'', s_cwd_path = ''a/b''\<rparr> ''../c/./d'' 192 = Some ''root://a/c/d'' \<and>
   resolve_path \<lparr>s_cwd_mnt = ''root'', s_cwd_path = []\<rparr> ''1/2/3/4/5/6/7/8/9/a/b/c/d/e/f/g/h/../i'' 192 =
     Some ''root:/1/2/3/4/5/6/7/8/9/a/b/c/d/e/f/i''"
proof
  have "comps_of ''a/b'' = [''a'', ''b'']" "comps_of ''../c/./d'' = [''..'', ''c'', ''.'', ''d'']" by code_simp+
  then show "resolve_path \<lparr>s_cwd_mnt = ''root'', s_cwd_path = ''a/b''\<rparr> ''../c/./d'' 192 = Some ''root://a/c/d''"
    using resolve_path_normal [of "\<lparr>s_cwd_mnt = ''root'', s_cwd_path = ''a/b''\<rparr>" "''../c/./d''", OF _ _ _ refl refl]
    by (simp add: cwd_ok_def clean16_def walk16_def walk_def joined_def)
  have "comps_of ''1/2/3/4/5/6/7/8/9/a/b/c/d/e/f/g/h/../i'' = [''1'', ''2'', ''3'', ''4'', ''5'', ''6'', ''7'', ''8'', ''9'',
    ''a'', ''b'', ''c'', ''d'', ''e'', ''f'', ''g'', ''h'', ''..'', ''i'']" "comps_of [] = []" by code_simp+
  then show "resolve_path \<lparr>s_cwd_mnt = ''root'', s_cwd_path = []\<rparr> ''1/2/3/4/5/6/7/8/9/a/b/c/d/e/f/g/h/../i'' 192 =
      Some ''root:/1/2/3/4/5/6/7/8/9/a/b/c/d/e/f/i''"
    using resolve_path_normal [of "\<lparr>s_cwd_mnt = ''root'', s_cwd_path = []\<rparr>" "''1/2/3/4/5/6/7/8/9/a/b/c/d/e/f/g/h/../i''", OF _ _ _ refl refl]
    by (simp add: cwd_ok_def clean16_def walk16_def walk_def joined_def)
qed

end
