(* ===== verification/Pci.thy ===== *)
theory Pci
  imports Con_Calls
begin

text \<open>
  PCI configuration space (\<open>kernel64/pci/pci.c\<close>) and the USB probe on top of it
  (\<open>kernel64/usb/usb.c\<close>). The machine is the argument \<open>inl\<close>: what a read of the data port 0xCFC gives
  after the address was written to 0xCF8.
\<close>

section \<open>Configuration space\<close>

definition cfg_addr :: "u8 \<Rightarrow> u8 \<Rightarrow> u8 \<Rightarrow> u8 \<Rightarrow> u32" where
  "cfg_addr bus dev func offset =
     push_bit 31 1 OR push_bit 16 (ucast bus) OR push_bit 11 (ucast dev) OR push_bit 8 (ucast func) OR ucast (offset AND 0xFC)"

definition pci_cfg_read32 :: "(u32 \<Rightarrow> u32) \<Rightarrow> u8 \<Rightarrow> u8 \<Rightarrow> u8 \<Rightarrow> u8 \<Rightarrow> u32" where
  "pci_cfg_read32 inl bus dev func offset = inl (cfg_addr bus dev func offset)"

definition pci_cfg_read16 :: "(u32 \<Rightarrow> u32) \<Rightarrow> u8 \<Rightarrow> u8 \<Rightarrow> u8 \<Rightarrow> u8 \<Rightarrow> u16" where
  "pci_cfg_read16 inl bus dev func offset =
     (let v = pci_cfg_read32 inl bus dev func (offset AND 0xFC);
          sh = (if offset AND 2 \<noteq> 0 then 16 else 0)
      in ucast (drop_bit sh v AND 0xFFFF))"

definition pci_cfg_read8 :: "(u32 \<Rightarrow> u32) \<Rightarrow> u8 \<Rightarrow> u8 \<Rightarrow> u8 \<Rightarrow> u8 \<Rightarrow> u8" where
  "pci_cfg_read8 inl bus dev func offset =
     (let v = pci_cfg_read32 inl bus dev func (offset AND 0xFC);
          sh = unat ((offset AND 3) * 8)
      in ucast (drop_bit sh v AND 0xFF))"

text \<open>The port writes.\<close>

definition pci_cfg_write32 :: "u8 \<Rightarrow> u8 \<Rightarrow> u8 \<Rightarrow> u8 \<Rightarrow> u32 \<Rightarrow> (u16 \<times> u32) list" where
  "pci_cfg_write32 bus dev func offset val = [(0xCF8, cfg_addr bus dev func offset), (0xCFC, val)]"

record pci_device =
  pd_bus :: u8
  pd_dev :: u8
  pd_func :: u8
  vendor_id :: u16
  device_id :: u16
  class_code :: u8
  pd_subclass :: u8
  prog_if :: u8

definition read_device :: "(u32 \<Rightarrow> u32) \<Rightarrow> u8 \<Rightarrow> u8 \<Rightarrow> u8 \<Rightarrow> pci_device" where
  "read_device inl bus dev func =
     \<lparr>pd_bus = bus, pd_dev = dev, pd_func = func,
      vendor_id = pci_cfg_read16 inl bus dev func 0x00, device_id = pci_cfg_read16 inl bus dev func 0x02,
      class_code = pci_cfg_read8 inl bus dev func 0x0B, pd_subclass = pci_cfg_read8 inl bus dev func 0x0A,
      prog_if = pci_cfg_read8 inl bus dev func 0x09\<rparr>"

definition scan_slot :: "(u32 \<Rightarrow> u32) \<Rightarrow> u8 \<Rightarrow> u8 \<Rightarrow> pci_device list" where
  "scan_slot inl bus dev =
     (if pci_cfg_read16 inl bus dev 0 0x00 = 0xFFFF then []
      else
        let hdr = pci_cfg_read8 inl bus dev 0 0x0E;
            funcs = (if hdr AND 0x80 \<noteq> 0 then 8 else 1)
        in map (read_device inl bus dev) (filter (\<lambda>func. pci_cfg_read16 inl bus dev func 0x00 \<noteq> 0xFFFF) (map of_nat [0..<funcs])))"

text \<open>The devices passed to the callback, in order.\<close>

definition pci_enumerate :: "(u32 \<Rightarrow> u32) \<Rightarrow> pci_device list" where
  "pci_enumerate inl = concat (map (\<lambda>bus. concat (map (\<lambda>dev. scan_slot inl (of_nat bus) (of_nat dev)) [0..<32])) [0..<255])"

section \<open>The USB probe\<close>

definition usb_log :: "string \<Rightarrow> con_call list" where
  "usb_log s = map Call_Serial s @ [Call_Serial CHR 0x0A]"

definition on_pci :: "pci_device \<Rightarrow> con_call list" where
  "on_pci d = (if class_code d = 0x0C then usb_log ''[usb] controller found'' else [])"

definition usb_init :: "(u32 \<Rightarrow> u32) \<Rightarrow> con_call list" where
  "usb_init inl = usb_log ''[usb] init'' @ concat (map on_pci (pci_enumerate inl))"

section \<open>The address\<close>

text \<open>How a machine decodes the address register: enable bit, bus, device, function and register.\<close>

definition decode :: "u32 \<Rightarrow> bool \<times> u8 \<times> u8 \<times> u8 \<times> u8" where
  "decode a = (bit a 31, ucast (drop_bit 16 a), ucast (drop_bit 11 a AND 0x1F), ucast (drop_bit 8 a AND 7), ucast (a AND 0xFC))"

text \<open>A machine whose configuration registers are \<open>conf bus dev func reg\<close>.\<close>

definition machine :: "(u8 \<Rightarrow> u8 \<Rightarrow> u8 \<Rightarrow> u8 \<Rightarrow> u32) \<Rightarrow> u32 \<Rightarrow> u32" where
  "machine conf a = (case decode a of (en, bus, dev, func, reg) \<Rightarrow> if en then conf bus dev func reg else 0xFFFFFFFF)"

lemma field_masks: "(0x1F :: 'a::len word) = mask 5" "(7 :: 'a::len word) = mask 3" "(0xFF :: 'a::len word) = mask 8"
  "(0xFFFF :: 'a::len word) = mask 16"
  by (simp_all add: mask_eq_exp_minus_1)

lemma reg_mask: "(0xFC :: u8) = NOT (mask 2)" "(0xFC :: u32) = mask 8 AND NOT (mask 2)"
  by (simp_all add: mask_eq_exp_minus_1)

lemma small_masked: "unat x < 2 ^ k \<Longrightarrow> (x :: u8) AND mask k = x"
  by (simp only: word_unat_eq_iff unat_and_mask mod_less)

lemma small_bits: "unat x < 2 ^ k \<Longrightarrow> k \<le> i \<Longrightarrow> \<not> bit (x :: u8) i"
  using small_masked [of x k] by (metis bit_and_iff bit_mask_iff not_le)

lemma high_bits [simp]: "8 \<le> i \<Longrightarrow> \<not> bit (x :: u8) i"
  using bit_imp_le_length [of x i] by auto

lemma cfg_bit:
  assumes "i < 32"
  shows "bit (cfg_addr bus dev func offset) i \<longleftrightarrow>
    i = 31 \<or> 16 \<le> i \<and> bit bus (i - 16) \<or> 11 \<le> i \<and> bit dev (i - 11) \<or> 8 \<le> i \<and> bit func (i - 8) \<or> 2 \<le> i \<and> bit offset i"
proof -
  have p: "bit (push_bit 31 1 :: u32) i \<longleftrightarrow> i = 31" using assms by (auto simp only: bit_push_bit_iff bit_1_iff) simp_all
  have o: "bit (ucast (offset AND 0xFC) :: u32) i \<longleftrightarrow> 2 \<le> i \<and> bit offset i"
    using assms bit_imp_le_length [of offset i] unfolding reg_mask
    by (auto simp: bit_unsigned_iff bit_and_iff bit_not_iff bit_mask_iff)
  show ?thesis using assms unfolding cfg_addr_def bit_or_iff p o by (simp add: bit_push_bit_iff bit_unsigned_iff) linarith
qed

lemma decode_cfg_addr:
  assumes "dev < 32" "func < 8"
  shows "decode (cfg_addr bus dev func offset) = (True, bus, dev, func, offset AND 0xFC)"
proof -
  let ?a = "cfg_addr bus dev func offset"
  have d [simp]: "\<not> bit dev i" if "5 \<le> i" for i using small_bits [of dev 5] assms(1) that by (simp add: word_less_nat_alt)
  have f [simp]: "\<not> bit func i" if "3 \<le> i" for i using small_bits [of func 3] assms(2) that by (simp add: word_less_nat_alt)
  have "ucast (drop_bit 16 ?a) = bus"
    by (rule bit_word_eqI) (simp add: bit_unsigned_iff bit_drop_bit_eq cfg_bit)
  moreover have "bit (ucast (drop_bit 11 ?a AND mask 5) :: u8) n = bit dev n" if "n < 8" for n
    using that by (cases "n < 5") (simp_all add: bit_unsigned_iff bit_drop_bit_eq bit_and_iff bit_mask_iff cfg_bit)
  then have "ucast (drop_bit 11 ?a AND mask 5) = dev" by (intro bit_word_eqI) simp
  moreover have "bit (ucast (drop_bit 8 ?a AND mask 3) :: u8) n = bit func n" if "n < 8" for n
    using that by (cases "n < 3") (simp_all add: bit_unsigned_iff bit_drop_bit_eq bit_and_iff bit_mask_iff cfg_bit)
  then have "ucast (drop_bit 8 ?a AND mask 3) = func" by (intro bit_word_eqI) simp
  moreover have "ucast (?a AND 0xFC) = offset AND 0xFC"
    unfolding reg_mask by (rule bit_word_eqI) (auto simp: bit_unsigned_iff bit_and_iff bit_not_iff bit_mask_iff cfg_bit)
  moreover have "bit ?a 31" by (simp add: cfg_bit)
  ultimately show ?thesis by (simp add: decode_def field_masks)
qed


section \<open>What is enumerated\<close>

type_synonym config = "u8 \<Rightarrow> u8 \<Rightarrow> u8 \<Rightarrow> u8 \<Rightarrow> u32"

text \<open>The fields of the configuration header: vendor and device in register 0, the class in register
  8, the multi-function flag in register 12.\<close>

definition conf_vendor :: "config \<Rightarrow> u8 \<Rightarrow> u8 \<Rightarrow> u8 \<Rightarrow> u16" where
  "conf_vendor conf b d f = ucast (conf b d f 0)"

definition multi_function :: "config \<Rightarrow> u8 \<Rightarrow> u8 \<Rightarrow> bool" where
  "multi_function conf b d \<longleftrightarrow> bit (conf b d 0 0x0C) 23"

definition conf_device :: "config \<Rightarrow> u8 \<times> u8 \<times> u8 \<Rightarrow> pci_device" where
  "conf_device conf = (\<lambda>(b, d, f). \<lparr>pd_bus = b, pd_dev = d, pd_func = f, vendor_id = conf_vendor conf b d f,
     device_id = ucast (drop_bit 16 (conf b d f 0)), class_code = ucast (drop_bit 24 (conf b d f 8)),
     pd_subclass = ucast (drop_bit 16 (conf b d f 8)), prog_if = ucast (drop_bit 8 (conf b d f 8))\<rparr>)"

definition pci_present :: "config \<Rightarrow> u8 \<times> u8 \<times> u8 \<Rightarrow> bool" where
  "pci_present conf = (\<lambda>(b, d, f). conf_vendor conf b d 0 \<noteq> 0xFFFF \<and> conf_vendor conf b d f \<noteq> 0xFFFF \<and> (f = 0 \<or> multi_function conf b d))"

lemma machine_read:
  assumes "dev < 32" "func < 8"
  shows "pci_cfg_read32 (machine conf) bus dev func offset = conf bus dev func (offset AND 0xFC)"
  by (simp add: pci_cfg_read32_def machine_def decode_cfg_addr [OF assms])

lemma ucast_masked [simp]: "ucast (x AND 0xFFFF :: u32) = (ucast x :: u16)" "ucast (x AND 0xFF :: u32) = (ucast x :: u8)"
  unfolding field_masks by (rule bit_word_eqI; auto simp: bit_unsigned_iff bit_and_iff bit_mask_iff)+

lemma machine_fields:
  assumes "dev < 32" "func < 8"
  shows "pci_cfg_read16 (machine conf) bus dev func 0 = conf_vendor conf bus dev func"
    "read_device (machine conf) bus dev func = conf_device conf (bus, dev, func)"
  by (simp_all add: read_device_def pci_cfg_read16_def pci_cfg_read8_def machine_read [OF assms] conf_vendor_def conf_device_def Let_def)

lemma header_multi:
  assumes "dev < 32"
  shows "pci_cfg_read8 (machine conf) bus dev 0 0x0E AND 0x80 \<noteq> 0 \<longleftrightarrow> multi_function conf bus dev"
proof -
  have "(x :: u8) AND 0x80 \<noteq> 0 \<longleftrightarrow> bit x 7" for x
    using and_exp_eq_0_iff_not_bit [of x 7] by simp
  then show ?thesis
    by (simp add: pci_cfg_read8_def machine_read [OF assms] multi_function_def Let_def bit_unsigned_iff bit_drop_bit_eq)
qed

lemma scan_slot_present:
  assumes "dev < 32"
  shows "scan_slot (machine conf) bus dev = map (conf_device conf) (filter (pci_present conf) (map (\<lambda>f. (bus, dev, of_nat f)) [0..<8]))"
proof -
  have f: "(of_nat k :: u8) < 8" if "k < 8" for k using that by (simp add: word_less_nat_alt unat_of_nat)
  have r: "map (read_device (machine conf) bus dev) (filter (\<lambda>func. pci_cfg_read16 (machine conf) bus dev func 0x00 \<noteq> 0xFFFF) (map of_nat [0..<n])) =
      map (conf_device conf) (filter (\<lambda>(b, d, f). conf_vendor conf b d f \<noteq> 0xFFFF) (map (\<lambda>f. (bus, dev, of_nat f)) [0..<n]))" if "n \<le> 8" for n
    using that
  proof (induction n)
    case (Suc n)
    then show ?case using machine_fields [OF assms f [of n]] by simp
  qed simp
  have z: "pci_cfg_read16 (machine conf) bus dev 0 0 = conf_vendor conf bus dev 0" by (rule machine_fields(1) [OF assms]) simp
  show ?thesis
  proof (cases "multi_function conf bus dev \<or> conf_vendor conf bus dev 0 = 0xFFFF")
    case True
    then show ?thesis using r [of 8] z header_multi [OF assms, of conf bus]
      by (auto simp: scan_slot_def pci_present_def case_prod_beta Let_def intro!: arg_cong [where f = "map (conf_device conf)"] filter_cong)
  next
    case False
    have "[0..<8] = [0, 1, 2, 3, 4, 5, 6, 7 :: nat]" by code_simp
    then show ?thesis using False r [of 1] z header_multi [OF assms, of conf bus]
      by (simp add: scan_slot_def pci_present_def Let_def)
  qed
qed

definition locations :: "(u8 \<times> u8 \<times> u8) list" where
  "locations = concat (map (\<lambda>b. concat (map (\<lambda>d. map (\<lambda>f. (of_nat b, of_nat d, of_nat f)) [0..<8]) [0..<32])) [0..<255])"

lemma pci_enumerate_present: "pci_enumerate (machine conf) = map (conf_device conf) (filter (pci_present conf) locations)"
proof -
  have d: "(of_nat k :: u8) < 32" if "k < 32" for k using that by (simp add: word_less_nat_alt unat_of_nat)
  have "scan_slot (machine conf) b (of_nat k) = map (conf_device conf) (filter (pci_present conf) (map (\<lambda>f. (b, of_nat k, of_nat f)) [0..<8]))"
    if "k \<in> set [0..<32]" for b k using scan_slot_present [OF d] that by simp
  then have "map (\<lambda>k. scan_slot (machine conf) b (of_nat k)) [0..<32] =
      map (\<lambda>k. map (conf_device conf) (filter (pci_present conf) (map (\<lambda>f. (b, of_nat k, of_nat f)) [0..<8]))) [0..<32]" for b
    by (intro map_cong refl)
  then show ?thesis
    unfolding pci_enumerate_def locations_def by (simp only: filter_concat map_concat map_map comp_def)
qed


text \<open>
  C35. Enumeration reports exactly the functions that are there: on a machine with configuration
  registers \<open>conf\<close>, for every bus but the last and every slot, the functions that answer, of slots
  whose function 0 answers, functions above 0 only of multi-function devices; in order and with
  their identifiers and class.
\<close>

theorem pci_enumerates_present:
  "pci_enumerate (\<lambda>a. case decode a of (en, bus, dev, func, reg) \<Rightarrow> if en then conf bus dev func reg else 0xFFFFFFFF) =
     map (conf_device conf) (filter (pci_present conf) locations)"
  using pci_enumerate_present [of conf] by (simp add: machine_def [abs_def])

end
