(* ===== verification/Shell.thy ===== *)
theory Shell
  imports Shell_Path Con_Calls Exfat Devfs Sched Pci Input
begin

text \<open>
  The shell (\<open>kernel64/shell.c\<close>): reading a line, splitting off the command and running it on the file
  systems, the block devices, the scheduler and the frame allocator. The output is the list of
  console calls. Local arrays that other components are given the address of, and the line buffer, are
  memory at the addresses in \<open>shell_env\<close>; the other locals are values. \<open>strcmp\<close> with a constant is
  equality. \<open>None\<close> is a fault or a loop that does not end.
\<close>

section \<open>State\<close>

record shell =
  sh_cwd :: shell_cwd
  sh_vfs :: "(fs_table, priv) vfs_state"
  sh_sched :: sched

text \<open>The addresses of local arrays and of the code after the call of \<open>sched_yield\<close>, the PCI ports
  and the configuration of RAM disks.\<close>

record shell_env =
  line_at :: u64
  cat_at :: u64
  dump_at :: u64
  fill_at :: u64
  sec_at :: u64
  yield_ret :: u64
  pci_ports :: "u32 \<Rightarrow> u32"
  seed_disks :: bool

definition fs_tables :: "shell_env \<Rightarrow> fs_table \<Rightarrow> fs_ops" where
  "fs_tables env t = (case t of Devfs_Ops \<Rightarrow> devfs_ops | Rootfs_Ops \<Rightarrow> rootfs_ops | Exfat_Ops \<Rightarrow> exfat_ops (sec_at env))"

type_synonym shell_result = "(shell \<times> con_call list) option"

abbreviation NL :: char where "NL \<equiv> CHR 0x0A"

abbreviation say :: "string \<Rightarrow> con_call" where "say t \<equiv> Call_Write (t @ [NL])"

section \<open>Messages\<close>

definition cmd_help :: "con_call list" where
  "cmd_help = map say
     [''Built-in commands:'', ''  help   - show this help'', ''  echo X - echo text X'', ''  info   - system info'',
      ''  uname  - kernel name/version/arch'', ''  clear  - clear screen'', ''  ps     - list threads'',
      ''  mem    - memory totals (phys/free)'', ''  free   - free memory bytes'', ''  used   - used memory bytes'',
      ''  lspci  - list PCI devices'', ''  mkram <name> <bytes_hex> - create RAM disk'',
      ''  mount <fs> <mnt> <dev>   - mount device'', ''  mounts                   - list mounts'',
      ''  ls [path]               - list directory (Unix paths: /, /dev, /dev/ram0)'',
      ''  cd <path>               - change directory (Unix paths: /, /dev, etc.)'',
      ''  pwd                     - print current directory (Unix format)'',
      ''  mkexfat <dev> [label]   - format device as exFAT'', ''  mkfs exfat <dev> [lbl]  - same as mkexfat'',
      ''  cat <path>             - print file contents'', ''  hexdump <path> [off len]- hex+ASCII dump (off,len hex)'',
      ''  stat <path>            - show file size/type'', ''  touch <path>           - create empty file'',
      ''  write <path> <text>    - write text to file (overwrite)'', ''  rm <path>              - remove file'',
      ''  bootroot               - try mount /dev/* partition as root'',
      ''  fill <path> <size_hex> [ch] - write N bytes of ch (default '' @ [CHR 0x27] @ ''A'' @ [CHR 0x27] @ '')'',
      ''  demo                   - dots/dashes thread demo'', ''  smp [N]                - spawn N worker threads'',
      ''  memtest quick|range    - run memory tests''] @
     [Call_Write (NL # ''Tip: Use PageUp/PageDown to scroll; Ctrl+Home jumps to top, Ctrl+End to live.'' @ [NL])]"

definition show_info :: "con_call list" where
  "show_info = [say (''dex-os shell. Try '' @ [CHR 0x27] @ ''help'' @ [CHR 0x27] @ ''.'')]"

definition cmd_uname :: "con_call list" where
  "cmd_uname = [Call_Write ''dex-os-64'', Call_Write '' '', Call_Write ''0.1.0'', Call_Write '' '', Call_Write ''x86_64'', Call_Putc NL]"

definition shell_prompt :: "con_call list" where
  "shell_prompt = [Call_Page_End, Call_Write ''dex> '']"

section \<open>PCI listing\<close>

definition write_hex8 :: "u8 \<Rightarrow> con_call list" where
  "write_hex8 v = [Call_Putc (hex_digit (ucast (drop_bit 4 v AND 0xF))), Call_Putc (hex_digit (ucast (v AND 0xF)))]"

definition write_hex16 :: "u16 \<Rightarrow> con_call list" where
  "write_hex16 v = write_hex8 (ucast (drop_bit 8 v)) @ write_hex8 (ucast (v AND 0xFF))"

definition pci_vendor_name :: "u16 \<Rightarrow> string option" where
  "pci_vendor_name vid = map_of
     [(0x8086, ''Intel''), (0x1022, ''AMD''), (0x10DE, ''NVIDIA''), (0x1002, ''ATI/AMD''), (0x1AF4, ''Red Hat/Qumranet (virtio)''),
      (0x15AD, ''VMware''), (0x10EC, ''Realtek''), (0x14E4, ''Broadcom''), (0x1B36, ''QEMU'')] vid"

definition pci_class_name :: "u8 \<Rightarrow> string" where
  "pci_class_name cls =
     (let names = [''Unclassified'', ''Storage'', ''Network'', ''Display'', ''Multimedia'', ''Memory'', ''Bridge'', ''Comm'', ''System'',
        ''Input'', ''Dock'', ''Processor'', ''SerialBus'', ''Wireless'', ''Intelligent'', ''Satellite'', ''Encryption'', ''SignalProc'',
        ''Accel'', ''Instrumentation'']
      in if unat cls < length names then names ! unat cls else ''Unknown'')"

definition name_or :: "string \<Rightarrow> string option \<Rightarrow> string" where
  "name_or d nm = (case nm of Some t \<Rightarrow> t | None \<Rightarrow> d)"

definition pci_subclass_name :: "u8 \<Rightarrow> u8 \<Rightarrow> string" where
  "pci_subclass_name cls sub = name_or ''Other''
     (if cls = 0x01 then map_of [(0x00, ''SCSI''), (0x01, ''IDE''), (0x02, ''Floppy''), (0x03, ''IPI''), (0x04, ''RAID''), (0x05, ''ATA''),
        (0x06, ''SATA''), (0x07, ''SAS''), (0x08, ''NVM'')] sub
      else if cls = 0x02 then map_of [(0x00, ''Ethernet'')] sub
      else if cls = 0x03 then map_of [(0x00, ''VGA''), (0x02, ''3D'')] sub
      else if cls = 0x06 then map_of [(0x00, ''Host''), (0x01, ''ISA''), (0x04, ''PCI-PCI'')] sub
      else if cls = 0x0C then map_of [(0x00, ''FireWire''), (0x01, ''ACCESS.bus''), (0x02, ''SSA''), (0x03, ''USB''), (0x05, ''SMBus'')] sub
      else None)"

definition pci_prog_if_name :: "u8 \<Rightarrow> u8 \<Rightarrow> u8 \<Rightarrow> string option" where
  "pci_prog_if_name cls sub prog =
     (if cls = 0x0C \<and> sub = 0x03 then map_of [(0x00, ''UHCI''), (0x10, ''OHCI''), (0x20, ''EHCI''), (0x30, ''xHCI''), (0xFE, ''USB Device'')] prog
      else if cls = 0x01 \<and> sub = 0x06 then map_of [(0x01, ''AHCI'')] prog
      else if cls = 0x01 \<and> sub = 0x08 then map_of [(0x02, ''NVMe'')] prog
      else None)"

definition pci_device_name :: "u16 \<Rightarrow> u16 \<Rightarrow> string option" where
  "pci_device_name vid did =
     (if vid = 0x1AF4 then Some (name_or ''virtio'' (map_of [(0x1000, ''virtio-net''), (0x1001, ''virtio-block''), (0x1002, ''virtio-balloon''),
        (0x1003, ''virtio-console''), (0x1004, ''virtio-scsi''), (0x1005, ''virtio-rng''), (0x1041, ''virtio-gpu'')] did))
      else if vid = 0x10EC then Some (name_or ''Realtek'' (map_of [(0x8139, ''RTL8139''), (0x8168, ''RTL8168'')] did))
      else if vid = 0x8086 then Some (name_or ''Intel'' (map_of [(0x100E, ''82540EM (e1000)''), (0x2922, ''ICH9 AHCI'')] did))
      else if vid = 0x1B36 then Some ''QEMU device''
      else if vid = 0x1022 then Some ''AMD device''
      else if vid = 0x10DE then Some ''NVIDIA device''
      else None)"

definition in_parens :: "string option \<Rightarrow> con_call list" where
  "in_parens nm = (case nm of Some t \<Rightarrow> [Call_Write '' ('', Call_Write t, Call_Write '')''] | None \<Rightarrow> [])"

definition shell_pci_print_cb :: "pci_device \<Rightarrow> con_call list" where
  "shell_pci_print_cb d =
     [Call_Write ''pci ''] @ write_hex8 (pd_bus d) @ [Call_Putc CHR '':''] @ write_hex8 (pd_dev d) @ [Call_Putc CHR ''.''] @
     [Call_Putc (char_of (48 + unat (pd_func d AND 7))), Call_Write ''  ''] @
     (case pci_vendor_name (vendor_id d) of Some t \<Rightarrow> [Call_Write t] | None \<Rightarrow> Call_Write ''Vendor 0x'' # write_hex16 (vendor_id d)) @
     [Call_Write ''  Dev 0x''] @ write_hex16 (device_id d) @ in_parens (pci_device_name (vendor_id d) (device_id d)) @
     [Call_Write ''  '', Call_Write (pci_class_name (class_code d)), Call_Write ''/'', Call_Write (pci_subclass_name (class_code d) (pd_subclass d))] @
     in_parens (pci_prog_if_name (class_code d) (pd_subclass d) (prog_if d)) @ [Call_Putc NL]"

definition cmd_lspci :: "shell_env \<Rightarrow> con_call list" where
  "cmd_lspci env = concat (map shell_pci_print_cb (pci_enumerate (pci_ports env)))"


section \<open>Paths of commands\<close>

text \<open>The path of a file command: \<open>translate_unix_path\<close>, or \<open>resolve_path\<close> where that fails.\<close>

definition full_path :: "shell \<Rightarrow> string \<Rightarrow> string option" where
  "full_path s path = do {
     r \<leftarrow> translate_unix_path (vfs_has_mount (sh_vfs s)) (sh_cwd s) path 192;
     case r of Some f \<Rightarrow> Some f | None \<Rightarrow> resolve_path (sh_cwd s) path 192 }"

definition cmd_pwd :: "shell \<Rightarrow> con_call list" where
  "cmd_pwd s =
     (let mnt = s_cwd_mnt (sh_cwd s); p = s_cwd_path (sh_cwd s)
      in if mnt = [] then [say ''(no cwd)'']
         else if mnt = ''dev'' then Call_Write ''/dev'' # (if p \<noteq> [] then [Call_Write ''/'', Call_Write p] else []) @ [Call_Putc NL]
         else if mnt = ''root'' then (if p \<noteq> [] then [Call_Write ''/'', Call_Write p] else [Call_Write ''/'']) @ [Call_Putc NL]
         else [Call_Write mnt, Call_Write '':/'', Call_Write p, Call_Putc NL])"

text \<open>The current directory as a Unix path, for relative arguments of \<open>cd\<close>.\<close>

definition current_unix :: "shell_cwd \<Rightarrow> string" where
  "current_unix c =
     (if s_cwd_mnt c = [] then ''/''
      else if s_cwd_mnt c = ''dev''
      then if s_cwd_path c \<noteq> [] then ''/dev/'' @ str_copy (s_cwd_path c) (192 - 5) else ''/dev''
      else if s_cwd_path c \<noteq> [] then ''/'' @ str_copy (s_cwd_path c) (192 - 1) else ''/'')"

text \<open>The uninitialised \<open>unix_path\<close> of a current directory of 191 characters is a fault.\<close>

definition cd_path :: "shell \<Rightarrow> string \<Rightarrow> string option option" where
  "cd_path s args =
     (if CHR ''/'' \<notin> set args \<and> CHR '':'' \<notin> set args then Some (Some (take 189 args @ '':/''))
      else do {
        unix_path \<leftarrow> (if hd args = CHR ''/'' then Some (str_copy args 192)
          else
            let cur = current_unix (sh_cwd s)
            in if length cur < 191
               then let base = (if last cur \<noteq> CHR ''/'' then cur @ ''/'' else cur) in Some (base @ str_copy args (192 - length base))
               else None);
        translate_unix_path (vfs_has_mount (sh_vfs s)) (sh_cwd s) unix_path 192 })"

definition cmd_cd :: "shell \<Rightarrow> string \<Rightarrow> shell_result" where
  "cmd_cd s args =
     (if args = [] then Some (s, [say ''usage: cd <path>''])
      else if args = ''/'' then Some (s\<lparr>sh_cwd := \<lparr>s_cwd_mnt = ''root'', s_cwd_path = []\<rparr>\<rparr>, [])
      else do {
        r \<leftarrow> cd_path s args;
        case r of
          None \<Rightarrow> Some (s, [say ''cd: path resolution failed''])
        | Some full \<Rightarrow>
            if full = [] then Some (s, [say (''cd: set a mount with '' @ [CHR 0x27] @ ''mount'' @ [CHR 0x27] @ '' first or use mount:path'')])
            else Some (s\<lparr>sh_cwd := set_cwd_from_path (sh_cwd s) full\<rparr>, []) })"

section \<open>Directories and files\<close>

definition list_root_directory :: "shell \<Rightarrow> con_call list" where
  "list_root_directory s =
     concat (map (\<lambda>i. case vfs_get_mount_name (sh_vfs s) (int i) 16 of Some m \<Rightarrow> [Call_Write m, Call_Putc NL] | None \<Rightarrow> [])
       [0..<nat (vfs_mount_count (sh_vfs s))])"

partial_function (option) ls_loop ::
  "(fs_table \<Rightarrow> fs_ops) \<Rightarrow> (fs_table, priv) vfs_state \<Rightarrow> node \<Rightarrow> u32 \<Rightarrow> con_call list \<Rightarrow> con_call list option" where
  "ls_loop tab v n i out =
     (let (rc, name) = vfs_readdir tab v (Some n) i 64
      in if rc \<le> 0 then Some out else ls_loop tab v n (i + 1) (out @ [Call_Write name, Call_Putc NL]))"

text \<open>The argument of \<open>ls\<close>: \<open>Some None\<close> when the path cannot be resolved.\<close>

definition ls_path :: "shell \<Rightarrow> string \<Rightarrow> string option option" where
  "ls_path s args =
     (if args = [] then Some (Some (app 192 (app 192 (app 192 [] (s_cwd_mnt (sh_cwd s))) '':/'') (s_cwd_path (sh_cwd s))))
      else translate_unix_path (vfs_has_mount (sh_vfs s)) (sh_cwd s) (str_copy args 192) 192)"

definition cmd_ls :: "shell_env \<Rightarrow> shell \<Rightarrow> string \<Rightarrow> shell_result" where
  "cmd_ls env s args =
     (if args = [] \<and> s_cwd_mnt (sh_cwd s) = [] then Some (s, [say ''(no cwd)''])
      else if args \<noteq> [] \<and> str_copy args 192 = ''/'' then Some (s, list_root_directory s)
      else do {
        r \<leftarrow> ls_path s args;
        case r of
          None \<Rightarrow> Some (s, [say ''ls: path resolution failed''])
        | Some full \<Rightarrow> do {
            (v, nd) \<leftarrow> vfs_open (fs_tables env) (sh_vfs s) full;
            case nd of
              None \<Rightarrow> Some (s\<lparr>sh_vfs := v\<rparr>, [say ''ls: open failed''])
            | Some n \<Rightarrow> do {
                out \<leftarrow> ls_loop (fs_tables env) v n 0 [];
                Some (s\<lparr>sh_vfs := v\<rparr>, out) } } })"

text \<open>The bytes at an address, as characters.\<close>

definition chars_at :: "memory \<Rightarrow> u64 \<Rightarrow> nat \<Rightarrow> string" where
  "chars_at m a n = map (\<lambda>i. char_of (unat (m (a + of_nat i)))) [0..<n]"

partial_function (option) cat_loop ::
  "(fs_table \<Rightarrow> fs_ops) \<Rightarrow> u64 \<Rightarrow> (fs_table, priv) vfs_state \<Rightarrow> node \<Rightarrow> u64 \<Rightarrow> con_call list \<Rightarrow>
   ((fs_table, priv) vfs_state \<times> con_call list) option" where
  "cat_loop tab buf v n off out = do {
     (v1, r) \<leftarrow> vfs_read tab v (Some n) off buf 256;
     if r \<le> 0 then Some (v1, out)
     else cat_loop tab buf v1 n (off + of_int r) (out @ map Call_Putc (chars_at (b_mem (v_block v1)) buf (nat r))) }"

definition cmd_cat :: "shell_env \<Rightarrow> shell \<Rightarrow> string \<Rightarrow> shell_result" where
  "cmd_cat env s args =
     (if args = [] then Some (s, [say ''usage: cat <path>''])
      else do {
        full \<leftarrow> full_path s args;
        (v, nd) \<leftarrow> vfs_open (fs_tables env) (sh_vfs s) full;
        case nd of
          None \<Rightarrow> Some (s\<lparr>sh_vfs := v\<rparr>, [say ''cat: open failed''])
        | Some n \<Rightarrow> do {
            (v1, out) \<leftarrow> cat_loop (fs_tables env) (cat_at env) v n 0 [];
            Some (s\<lparr>sh_vfs := v1\<rparr>, out @ [Call_Putc NL]) } })"

text \<open>One line of a dump: the offset, 16 bytes in hexadecimal and the printable characters.\<close>

definition dump_line :: "u64 \<Rightarrow> u8 list \<Rightarrow> con_call list" where
  "dump_line pos bs =
     [Call_Hex64 pos, Call_Write '': ''] @
     concat (map (\<lambda>i. (if i < length bs then write_hex8 (bs ! i) else [Call_Write ''  '']) @
       (if i = 7 then [Call_Putc CHR '' ''] else []) @ [Call_Putc CHR '' '']) [0..<16]) @
     [Call_Write '' |''] @ map (\<lambda>b. Call_Putc (if 32 \<le> b \<and> b < 127 then char_of (unat b) else CHR ''.'')) bs @
     replicate (16 - length bs) (Call_Putc CHR '' '') @ [say ''|'']"

partial_function (option) dump_loop ::
  "(fs_table \<Rightarrow> fs_ops) \<Rightarrow> u64 \<Rightarrow> bool \<Rightarrow> (fs_table, priv) vfs_state \<Rightarrow> node \<Rightarrow> u64 \<Rightarrow> u64 \<Rightarrow> con_call list \<Rightarrow>
   ((fs_table, priv) vfs_state \<times> con_call list) option" where
  "dump_loop tab buf have_len v n pos remaining out =
     (if remaining > 0
      then do {
        (v1, r) \<leftarrow> vfs_read tab v (Some n) pos buf (if remaining < 16 then remaining else 16);
        if r \<le> 0 then Some (v1, out)
        else
          let out1 = out @ dump_line pos (map (\<lambda>i. b_mem (v_block v1) (buf + of_nat i)) [0..<nat r])
          in if r < 16 \<and> \<not> have_len then Some (v1, out1)
             else dump_loop tab buf have_len v1 n (pos + of_int r) (if have_len then remaining - of_int r else remaining) out1 }
      else Some (v, out))"

definition cmd_hexdump :: "shell_env \<Rightarrow> shell \<Rightarrow> string \<Rightarrow> shell_result" where
  "cmd_hexdump env s args =
     (if args = [] then Some (s, [say ''usage: hexdump <path> [off len]''])
      else
        let (path, a0) = token 191 args;
            a1 = skip_ws a0;
            (off, a2) = (if a1 \<noteq> [] then parse_hex 0 a1 else (0, []));
            a3 = skip_ws a2;
            have_len = (a3 \<noteq> []);
            len = (if have_len then fst (parse_hex 0 a3) else 0)
        in do {
          full \<leftarrow> full_path s path;
          (v, nd) \<leftarrow> vfs_open (fs_tables env) (sh_vfs s) full;
          case nd of
            None \<Rightarrow> Some (s\<lparr>sh_vfs := v\<rparr>, [say ''hexdump: open failed''])
          | Some n \<Rightarrow> do {
              (v1, out) \<leftarrow> dump_loop (fs_tables env) (dump_at env) have_len v n off (if have_len then len else 0xFFFFFFFFFFFFFFFF) [];
              Some (s\<lparr>sh_vfs := v1\<rparr>, out) } })"

definition cmd_stat :: "shell_env \<Rightarrow> shell \<Rightarrow> string \<Rightarrow> shell_result" where
  "cmd_stat env s args =
     (if args = [] then Some (s, [say ''usage: stat <path>''])
      else do {
        full \<leftarrow> full_path s args;
        (v, r) \<leftarrow> vfs_stat (fs_tables env) (sh_vfs s) full;
        Some (s\<lparr>sh_vfs := v\<rparr>,
          case r of None \<Rightarrow> [say ''stat: not found'']
          | Some (sz, isdir) \<Rightarrow> [Call_Write (if isdir then ''dir'' else ''file''), Call_Write '' size=0x'', Call_Hex64 sz, Call_Putc NL]) })"

definition cmd_touch :: "shell_env \<Rightarrow> shell \<Rightarrow> string \<Rightarrow> shell_result" where
  "cmd_touch env s args =
     (if args = [] then Some (s, [say ''usage: touch <path>''])
      else do {
        full \<leftarrow> full_path s args;
        (v, rc) \<leftarrow> vfs_create (fs_tables env) (sh_vfs s) full 0;
        Some (s\<lparr>sh_vfs := v\<rparr>, if rc \<noteq> 0 then [say ''touch failed''] else []) })"

definition cmd_rm :: "shell_env \<Rightarrow> shell \<Rightarrow> string \<Rightarrow> shell_result" where
  "cmd_rm env s args =
     (if args = [] then Some (s, [say ''usage: rm <path>''])
      else do {
        full \<leftarrow> full_path s args;
        (v, rc) \<leftarrow> vfs_unlink (fs_tables env) (sh_vfs s) full;
        Some (s\<lparr>sh_vfs := v\<rparr>, if rc \<noteq> 0 then [say ''rm failed''] else []) })"

text \<open>Opening for writing: a file that is not there is created and opened again.\<close>

definition open_or_create ::
  "shell_env \<Rightarrow> (fs_table, priv) vfs_state \<Rightarrow> string \<Rightarrow> string \<Rightarrow> ((fs_table, priv) vfs_state \<times> node option \<times> con_call list) option" where
  "open_or_create env v full msg = do {
     (v1, nd) \<leftarrow> vfs_open (fs_tables env) v full;
     case nd of
       Some n \<Rightarrow> Some (v1, Some n, [])
     | None \<Rightarrow> do {
         (v2, rc) \<leftarrow> vfs_create (fs_tables env) v1 full 0;
         (v3, nd2) \<leftarrow> vfs_open (fs_tables env) v2 full;
         Some (v3, nd2, if rc \<noteq> 0 then [say msg] else []) } }"

text \<open>\<open>a\<close> is the rest of the line from the text on, \<open>at\<close> its address.\<close>

definition cmd_write :: "shell_env \<Rightarrow> shell \<Rightarrow> u64 \<Rightarrow> string \<Rightarrow> shell_result" where
  "cmd_write env s args_at args =
     (if args = [] then Some (s, [say ''usage: write <path> <text>''])
      else
        let (path, a0) = token 191 args; a = skip_ws a0
        in if path = [] then Some (s, [say ''usage: write <path> <text>''])
           else do {
             full \<leftarrow> full_path s path;
             (v, nd, out) \<leftarrow> open_or_create env (sh_vfs s) full ''write: create failed'';
             case nd of
               None \<Rightarrow> Some (s\<lparr>sh_vfs := v\<rparr>, out @ [say ''write: open failed''])
             | Some n \<Rightarrow> do {
                 (v1, nd1, rc) \<leftarrow> vfs_write (fs_tables env) v (Some n) 0 (args_at + of_nat (length args - length a)) (of_nat (length a));
                 Some (s\<lparr>sh_vfs := v1\<rparr>, out @ [if rc < 0 then say ''write failed'' else say ''ok'']) } })"

partial_function (option) fill_loop ::
  "(fs_table \<Rightarrow> fs_ops) \<Rightarrow> u64 \<Rightarrow> (fs_table, priv) vfs_state \<Rightarrow> node option \<Rightarrow> u64 \<Rightarrow> u64 \<Rightarrow>
   ((fs_table, priv) vfs_state \<times> u64 \<times> bool) option" where
  "fill_loop tab buf v n sz off =
     (if off < sz
      then do {
        (v1, n1, rc) \<leftarrow> vfs_write tab v n off buf (if sz - off > 512 then 512 else sz - off);
        if rc < 0 then Some (v1, off, True) else fill_loop tab buf v1 n1 sz (off + of_int rc) }
      else Some (v, off, False))"

definition set_mem :: "(memory \<Rightarrow> memory) \<Rightarrow> (fs_table, priv) vfs_state \<Rightarrow> (fs_table, priv) vfs_state" where
  "set_mem f v = v\<lparr>v_block := (v_block v)\<lparr>b_mem := f (b_mem (v_block v))\<rparr>\<rparr>"

definition cmd_fill :: "shell_env \<Rightarrow> shell \<Rightarrow> string \<Rightarrow> shell_result" where
  "cmd_fill env s args =
     (if args = [] then Some (s, [say ''usage: fill <path> <size_hex> [ch]''])
      else
        let (path, a0) = token 191 args
        in if path = [] then Some (s, [say ''usage: fill <path> <size_hex> [ch]''])
           else
             let (sz, a1) = parse_hex 0 (skip_ws a0);
                 a2 = skip_ws a1;
                 ch = (if a2 \<noteq> [] then hd a2 else CHR ''A'')
             in if sz = 0 then Some (s, [say ''fill: size must be > 0''])
                else do {
                  full \<leftarrow> full_path s path;
                  (v, nd, out) \<leftarrow> open_or_create env (sh_vfs s) full ''fill: create failed'';
                  case nd of
                    None \<Rightarrow> Some (s\<lparr>sh_vfs := v\<rparr>, out @ [say ''fill: open failed''])
                  | Some n \<Rightarrow> do {
                      (v1, off, err) \<leftarrow> fill_loop (fs_tables env) (fill_at env)
                        (set_mem (\<lambda>m. fill_bytes m (fill_at env) (of_char ch) 512) v) (Some n) sz 0;
                      Some (s\<lparr>sh_vfs := v1\<rparr>, out @ (if err then [say ''fill: write error''] else []) @ (if off = sz then [say ''ok''] else [])) } })"


section \<open>Devices and mounts\<close>

definition cmd_mkram :: "shell_env \<Rightarrow> shell \<Rightarrow> string \<Rightarrow> shell_result" where
  "cmd_mkram env s args =
     (let (name, a0) = token 15 (skip_ws args);
          (sz, a1) = parse_hex 0 (skip_ws a0)
      in if name = [] \<or> sz = 0 then Some (s, [say ''usage: mkram <name> <size_hex>''])
         else do {
           (b, rc) \<leftarrow> ramdisk_create (seed_disks env) (v_block (sh_vfs s)) name sz;
           Some (s\<lparr>sh_vfs := (sh_vfs s)\<lparr>v_block := b\<rparr>\<rparr>, if rc \<noteq> 0 then [say ''mkram failed''] else []) })"

definition cmd_mount :: "shell_env \<Rightarrow> shell \<Rightarrow> string \<Rightarrow> shell_result" where
  "cmd_mount env s args =
     (let (fs, a0) = token 7 (skip_ws args);
          (mnt, a1) = token 7 (skip_ws a0);
          (dev, a2) = token 15 (skip_ws a1)
      in if fs = [] \<or> mnt = [] then Some (s, [say ''usage: mount <fs> <mnt> <dev?>''])
         else do {
           (v, rc) \<leftarrow> vfs_mount (fs_tables env) Priv_One (sh_vfs s) fs mnt dev;
           Some (s\<lparr>sh_vfs := v\<rparr>, if rc \<noteq> 0 then [say ''mount failed''] else []) })"

definition format_cmd :: "shell \<Rightarrow> string \<Rightarrow> string \<Rightarrow> string \<Rightarrow> shell_result" where
  "format_cmd s dev label failed =
     (let (b, rc) = exfat_format_device (v_block (sh_vfs s)) dev label
      in Some (s\<lparr>sh_vfs := (sh_vfs s)\<lparr>v_block := b\<rparr>\<rparr>, [say (if rc \<noteq> 0 then failed else ''formatted exfat'')]))"

definition cmd_mkexfat :: "shell \<Rightarrow> string \<Rightarrow> shell_result" where
  "cmd_mkexfat s args =
     (let (dev, a0) = token 15 (skip_ws args);
          (label, a1) = token 15 (skip_ws a0)
      in if dev = [] then Some (s, [say ''usage: mkexfat <dev> [label]''])
         else format_cmd s dev label ''mkexfat failed'')"

definition cmd_mkfs :: "shell \<Rightarrow> string \<Rightarrow> shell_result" where
  "cmd_mkfs s args =
     (let (fs, a0) = token 7 (skip_ws args);
          (dev, a1) = token 15 (skip_ws a0);
          (label, a2) = token 15 (skip_ws a1)
      in if fs = [] \<or> dev = [] then Some (s, [say ''usage: mkfs exfat <dev> [label]''])
         else if fs = ''exfat'' then format_cmd s dev label ''mkfs exfat failed''
         else Some (s, [say ''mkfs: unsupported fs'']))"

text \<open>The devices are tried in the order of the list.\<close>

fun bootroot_loop ::
  "shell_env \<Rightarrow> (fs_table, priv) vfs_state \<Rightarrow> block_device list \<Rightarrow> ((fs_table, priv) vfs_state \<times> string option) option" where
  "bootroot_loop env v [] = Some (v, None)"
| "bootroot_loop env v (d # ds) =
     (let name = dev_name d
      in if length name \<ge> 2 \<and> drop (length name - 2) name = ''p1''
         then do {
           (v1, rc) \<leftarrow> vfs_mount (fs_tables env) Priv_One v ''exfat'' ''root'' name;
           if rc = 0 then Some (v1, Some name) else bootroot_loop env v1 ds }
         else bootroot_loop env v ds)"

definition cmd_bootroot :: "shell_env \<Rightarrow> shell \<Rightarrow> shell_result" where
  "cmd_bootroot env s = do {
     (v, r) \<leftarrow> bootroot_loop env (sh_vfs s) (g_devs (v_block (sh_vfs s)));
     Some (s\<lparr>sh_vfs := v\<rparr>,
       case r of Some name \<Rightarrow> [Call_Write ''mounted root on /dev/'', Call_Write name, Call_Write [NL]]
       | None \<Rightarrow> [say ''bootroot: no suitable partition found'']) }"

section \<open>System information\<close>

definition ps_line :: "int \<Rightarrow> sched_thread_info \<Rightarrow> con_call list" where
  "ps_line cur ti =
     [Call_Dec (of_int (info_id ti)), Call_Write ''   '',
      Call_Write (if info_state ti = 0 then ''ready'' else if info_state ti = 1 then ''run'' else ''done''),
      Call_Write (if info_state ti = 0 then ''   '' else if info_state ti = 1 then ''    '' else ''   ''),
      Call_Write ''   0x'', Call_Hex64 (info_rsp ti), Call_Write (if info_id ti = cur then ''   *'' @ [NL] else [NL])]"

definition cmd_ps :: "shell \<Rightarrow> con_call list" where
  "cmd_ps s = say ''ID   STATE   RSP         CUR?'' #
     concat (map (ps_line (sched_current_id (sh_sched s))) (sched_enumerate (sh_sched s) 16))"

definition cmd_mem :: "shell \<Rightarrow> con_call list" where
  "cmd_mem s =
     (let p = b_pmm (v_block (sh_vfs s)); tot = pmm_total_physical_bytes p; freeb = pmm_free_bytes p
      in [Call_Write ''Physical total: 0x'', Call_Hex64 tot, say '' bytes'', Call_Write ''Free:           0x'', Call_Hex64 freeb, say '' bytes''] @
         (if tot \<ge> freeb then [Call_Write ''Used:           0x'', Call_Hex64 (tot - freeb), say '' bytes''] else []))"

definition cmd_free :: "shell \<Rightarrow> con_call list" where
  "cmd_free s = [Call_Hex64 (pmm_free_bytes (b_pmm (v_block (sh_vfs s)))), Call_Putc NL]"

definition cmd_used :: "shell \<Rightarrow> con_call list" where
  "cmd_used s =
     (let p = b_pmm (v_block (sh_vfs s)); tot = pmm_total_physical_bytes p; freeb = pmm_free_bytes p
      in [Call_Hex64 (if tot \<ge> freeb then tot - freeb else 0), Call_Putc NL])"

section \<open>The command line\<close>

text \<open>The command, and the rest of the line after it and the blanks that follow.\<close>

definition split_command :: "string \<Rightarrow> string \<times> string" where
  "split_command line =
     (let s = skip_ws line;
          cmd = takeWhile (\<lambda>c. \<not> is_ws c) s;
          rest = dropWhile (\<lambda>c. \<not> is_ws c) s
      in (cmd, skip_ws (tl rest)))"

definition run_command :: "shell_env \<Rightarrow> shell \<Rightarrow> string \<Rightarrow> u64 \<Rightarrow> string \<Rightarrow> shell_result" where
  "run_command env s cmd args_at args =
     (if cmd = ''help'' then Some (s, cmd_help)
      else if cmd = ''echo'' then Some (s, [Call_Write args, Call_Write [NL]])
      else if cmd = ''clear'' then Some (s, [Call_Clear])
      else if cmd = ''info'' then Some (s, show_info)
      else if cmd = ''uname'' then Some (s, cmd_uname)
      else if cmd = ''mkram'' then cmd_mkram env s args
      else if cmd = ''mount'' then cmd_mount env s args
      else if cmd = ''mounts'' then Some (s, [Call_Write (vfs_list_mounts (sh_vfs s))])
      else if cmd = ''pwd'' then Some (s, cmd_pwd s)
      else if cmd = ''cd'' then cmd_cd s args
      else if cmd = ''ls'' then cmd_ls env s args
      else if cmd = ''cat'' then cmd_cat env s args
      else if cmd = ''hexdump'' then cmd_hexdump env s args
      else if cmd = ''stat'' then cmd_stat env s args
      else if cmd = ''touch'' then cmd_touch env s args
      else if cmd = ''write'' then cmd_write env s args_at args
      else if cmd = ''rm'' then cmd_rm env s args
      else if cmd = ''fill'' then cmd_fill env s args
      else if cmd = ''mkexfat'' then cmd_mkexfat s args
      else if cmd = ''mkfs'' then cmd_mkfs s args
      else if cmd = ''bootroot'' then cmd_bootroot env s
      else if cmd = ''ps'' then Some (s, cmd_ps s)
      else if cmd = ''mem'' then Some (s, cmd_mem s)
      else if cmd = ''free'' then Some (s, cmd_free s)
      else if cmd = ''used'' then Some (s, cmd_used s)
      else if cmd = ''lspci'' then Some (s, cmd_lspci env)
      else Some (s, [say (''unknown command. type '' @ [CHR 0x27] @ ''help'' @ [CHR 0x27])]))"

text \<open>The line buffer in memory: the line and its terminator.\<close>

definition put_line :: "u64 \<Rightarrow> string \<Rightarrow> memory \<Rightarrow> memory" where
  "put_line a line m = fold (\<lambda>i m. m(a + of_nat i := of_char (cchar line i))) [0..<Suc (length line)] m"

text \<open>The blank after the command is overwritten by a terminator; \<open>line\<close> is what the buffer holds up
  to its first NUL.\<close>

definition shell_handle_line :: "shell_env \<Rightarrow> shell \<Rightarrow> string \<Rightarrow> shell_result" where
  "shell_handle_line env s line =
     (let (cmd, args) = split_command line;
          pos = length line - length (skip_ws line) + length cmd;
          m1 = put_line (line_at env) line;
          m2 = (if pos < length line then (\<lambda>m. (m1 m)(line_at env + of_nat pos := 0)) else m1);
          s1 = s\<lparr>sh_vfs := set_mem m2 (sh_vfs s)\<rparr>
      in if skip_ws line = [] then Some (s\<lparr>sh_vfs := set_mem m1 (sh_vfs s)\<rparr>, [])
         else run_command env s1 cmd (line_at env + of_nat (length line - length args)) args)"

definition key_call :: "con_op \<Rightarrow> con_call" where
  "key_call op = (case op of Putc c \<Rightarrow> Call_Putc c | Page_Up \<Rightarrow> Call_Page_Up | Page_Down \<Rightarrow> Call_Page_Down
     | Page_Home \<Rightarrow> Call_Page_Home | Page_End \<Rightarrow> Call_Page_End)"

text \<open>One round of the loop of \<open>shell_main\<close>: the prompt, a line, its command, and the processor is given up.
  \<open>line\<close> is the contents of the line buffer.\<close>

definition shell_round ::
  "shell_env \<Rightarrow> char list \<times> shell \<times> key_event list \<Rightarrow> ((char list \<times> shell \<times> key_event list) \<times> con_call list) option" where
  "shell_round env = (\<lambda>(line, s, evs). do {
     (buf, n, ops, evs1) \<leftarrow> input_readline line 128 evs;
     (s1, out) \<leftarrow> shell_handle_line env s (cstr (take n buf));
     sc \<leftarrow> sched_yield (yield_ret env) (sh_sched s1);
     Some ((buf, s1\<lparr>sh_sched := sc\<rparr>, evs1), shell_prompt @ map key_call ops @ out) })"

fun shell_rounds ::
  "shell_env \<Rightarrow> nat \<Rightarrow> char list \<times> shell \<times> key_event list \<Rightarrow> ((char list \<times> shell \<times> key_event list) \<times> con_call list) option" where
  "shell_rounds env 0 st = Some (st, [])"
| "shell_rounds env (Suc k) st = do {
     (st1, out) \<leftarrow> shell_round env st;
     (st2, out2) \<leftarrow> shell_rounds env k st1;
     Some (st2, out @ out2) }"

text \<open>\<open>shell_main\<close> up to its \<open>k\<close>-th round.\<close>

definition shell_main ::
  "shell_env \<Rightarrow> nat \<Rightarrow> char list \<times> shell \<times> key_event list \<Rightarrow> ((char list \<times> shell \<times> key_event list) \<times> con_call list) option" where
  "shell_main env k st = do {
     (st1, out) \<leftarrow> shell_rounds env k st;
     Some (st1, [say (NL # ''Entering shell. Type '' @ [CHR 0x27] @ ''help'' @ [CHR 0x27] @ ''.'')] @ out) }"

end
