(* ===== verification/Shell_Correct.thy ===== *)
theory Shell_Correct
  imports Shell Exfat_Grow
begin

text \<open>
  The shell on top of the file system: what \<open>cat\<close> prints, and the bounds of the current directory's
  arrays over any sequence of lines.
\<close>

section \<open>Printing a file\<close>

lemma cat_loop_file:
  assumes v: "vol_ok fs bs (sec_at env)" and u: "user_buf fs bs (sec_at env) (cat_at env) 256"
    and f: "open_file fs m n cls sz" "fops n = Exfat_Ops" "sz < 2 ^ 31"
    and s: "same_disk fs m (b_mem (v_block vs))" "heap_at (b_heap (v_block vs)) bs" "off \<le> sz"
  shows "\<exists>b'. cat_loop (fs_tables env) (cat_at env) vs n (of_nat off) out =
      Some (vs\<lparr>v_block := b'\<rparr>, out @ map (\<lambda>k. Call_Putc (char_of (unat (m (file_at fs cls k))))) [off..<sz]) \<and>
    same_disk fs m (b_mem b') \<and> heap_at (b_heap b') bs"
  using s
proof (induction "sz - off" arbitrary: vs off out rule: less_induct)
  case less
  let ?b = "v_block vs"
  define k where "k = min 256 (sz - off)"
  have ch: "fchain fs m cls" "sz \<le> csz fs * length cls" using f(1) by (auto simp: open_file_def)
  have o: "open_file fs (b_mem ?b) n cls sz"
    using f(1) fchain_same [OF v same_disk_fat [OF v less.prems(1)] ch(1)] by (simp add: open_file_def)
  have off: "unat (of_nat off :: u64) = off" using less.prems(3) f(3) by (intro u64_of_nat_unat) simp
  have "bytes_at (cat_at env) k \<subseteq> bytes_at (cat_at env) 256" by (auto simp: bytes_at_def k_def)
  then have uk: "user_buf fs bs (sec_at env) (cat_at env) k"
    using u clear_le [of "fs_bdev fs" bs "cat_at env" 256 k] by (auto simp: user_buf_def k_def)
  obtain b1 where b1: "exfat_read (sec_at env) ?b n (of_nat off) (cat_at env) 256 = Some (b1, int k)" "heap_at (b_heap b1) bs"
    "\<forall>i < k. b_mem b1 (cat_at env + of_nat i) = b_mem ?b (file_at fs cls (off + i))"
    "same_outside (bytes_at (cat_at env) k \<union> bytes_at (sec_at env) 512 \<union> free_bytes bs) ?b b1"
    using exfat_read_ok [OF v less.prems(2) o f(3) _ uk, of 256 "of_nat off"] off by (auto simp: k_def)
  have rd: "vfs_read (fs_tables env) vs (Some n) (of_nat off) (cat_at env) 256 = Some (vs\<lparr>v_block := b1\<rparr>, int k)"
    using b1(1) f(2) by (simp add: vfs_read_def fs_tables_def exfat_ops_def)
  have d1: "same_disk fs m (b_mem b1)"
    using got_disk [OF v uk b1(4)] less.prems(1) by (simp add: same_disk_def)
  show ?case
  proof (cases "off = sz")
    case True
    then have "cat_loop (fs_tables env) (cat_at env) vs n (of_nat off) out = Some (vs\<lparr>v_block := b1\<rparr>, out)"
      using rd by (subst cat_loop.simps) (simp add: k_def)
    then show ?thesis using True d1 b1(2) by auto
  next
    case False
    then have pos: "0 < k" "off + k \<le> sz" using less.prems(3) by (auto simp: k_def)
    have fb: "b_mem ?b (file_at fs cls (off + i)) = m (file_at fs cls (off + i))" if "i < k" for i
      using less.prems(1) file_at_dev [OF v ch(1), of "off + i"] that pos(2) ch(2) by (simp add: same_disk_def)
    have cs: "map Call_Putc (chars_at (b_mem b1) (cat_at env) k) = map (\<lambda>k. Call_Putc (char_of (unat (m (file_at fs cls k))))) [off..<off + k]"
      using b1(3) fb by (auto simp: chars_at_def intro!: nth_equalityI)
    let ?vs = "vs\<lparr>v_block := b1\<rparr>" and ?out = "out @ map (\<lambda>k. Call_Putc (char_of (unat (m (file_at fs cls k))))) [off..<off + k]"
    have "\<exists>b'. cat_loop (fs_tables env) (cat_at env) ?vs n (of_nat (off + k)) ?out =
        Some (?vs\<lparr>v_block := b'\<rparr>, ?out @ map (\<lambda>k. Call_Putc (char_of (unat (m (file_at fs cls k))))) [off + k..<sz]) \<and>
      same_disk fs m (b_mem b') \<and> heap_at (b_heap b') bs"
      using less.hyps [of "off + k" ?vs ?out] pos d1 b1(2) by simp
    moreover have "[off..<sz] = [off..<off + k] @ [off + k..<sz]" using upt_add_eq_append [of off "off + k" "sz - (off + k)"] pos by simp
    moreover have "cat_loop (fs_tables env) (cat_at env) vs n (of_nat off) out =
        cat_loop (fs_tables env) (cat_at env) ?vs n (of_nat (off + k)) ?out"
      using rd pos(1) cs by (subst cat_loop.simps) simp
    ultimately show ?thesis by simp
  qed
qed


text \<open>
  C37. The command \<open>cat\<close> prints the file: for a path that leads to a file in the root directory of a
  mounted exFAT volume, the command returns, and the calls it makes print exactly the bytes of the file
  in order, as many as its size says and whatever chunks they are read in, and then a newline. Neither
  the device nor the mounts nor the rest of the shell's state change.
\<close>

theorem shell_cat_prints_file:
  assumes v: "vol_ok fs bs (sec_at env)" "user_buf fs bs (sec_at env) (cat_at env) 256"
    and st: "b = v_block (sh_vfs s)" "heap_at (b_heap b) bs" "fits bs (2 * csz fs + 63)"
    and p: "args \<noteq> []" "full_path s args = Some (m @ CHR '':'' # sub)" "CHR '':'' \<notin> set m" "skip_slash sub \<noteq> []"
    and mt: "find_mount (sh_vfs s) (take 7 m) = Some mt" "m_ops mt = Exfat_Ops" "m_priv mt = Priv_Exfat fs" "has_cluster fs (root_dir_cluster fs)"
    and f: "find (\<lambda>e. skip_slash sub = de_name e) (take 32 (root_entries fs (b_mem b))) = Some e" "\<not> de_is_dir e" "unat (de_size e) < 2 ^ 31"
    and ch: "fchain fs (b_mem b) cls" "de_first_cluster e = cls ! 0" "unat (de_size e) \<le> csz fs * length cls"
  shows "\<exists>b'. run_command env s ''cat'' a args =
      Some (s\<lparr>sh_vfs := (sh_vfs s)\<lparr>v_block := b'\<rparr>\<rparr>,
        map (\<lambda>k. Call_Putc (char_of (unat (b_mem b (file_at fs cls k))))) [0..<unat (de_size e)] @ [Call_Putc NL]) \<and>
    (\<forall>x \<in> dev_bytes (fs_bdev fs). b_mem b' x = b_mem b x)"
proof -
  let ?n = "\<lparr>fops = Exfat_Ops, fs_priv = Priv_Exfat fs,
      file_priv = Exfat_Node \<lparr>first_cluster = de_first_cluster e, en_is_dir = de_is_dir e, en_size = de_size e\<rparr>\<rparr>"
  obtain b1 bs1 where o: "exfat_open b (Priv_Exfat fs) sub = Some (b1, Some ?n)" "heap_at (b_heap b1) bs1" "fits bs1 (csz fs)"
    "free_bytes bs1 \<subseteq> free_bytes bs" "same_outside (free_bytes bs) b b1"
    using exfat_open_ok [OF v(1) mt(4) st(2,3) p(4) f(1)] by blast
  have d: "same_disk fs (b_mem b) (b_mem b1)" using same_outsideD [OF o(5)] vol_okD(3) [OF v(1)] unfolding same_disk_def by blast
  have n: "open_file fs (b_mem b) ?n cls (unat (de_size e))" using ch f(2) by (simp add: open_file_def)
  let ?vs = "(sh_vfs s)\<lparr>v_block := b1\<rparr>"
  have u: "user_buf fs bs1 (sec_at env) (cat_at env) 256" using v(2) o(4) by (auto simp: user_buf_def clear_def)
  obtain b' where c: "cat_loop (fs_tables env) (cat_at env) ?vs ?n 0 [] =
      Some (?vs\<lparr>v_block := b'\<rparr>, map (\<lambda>k. Call_Putc (char_of (unat (b_mem b (file_at fs cls k))))) [0..<unat (de_size e)])" "same_disk fs (b_mem b) (b_mem b')"
    using cat_loop_file [OF vol_ok_less [OF v(1) o(4,3)] u n _ f(3), of ?vs 0 "[]"] d o(2) by auto
  have op: "vfs_open (fs_tables env) (sh_vfs s) (m @ CHR '':'' # sub) = Some (?vs, Some ?n)"
    using o(1) mt st(1) by (simp add: vfs_open_def parse_path [OF p(3)] fs_tables_def exfat_ops_def)
  have "run_command env s ''cat'' a args = cmd_cat env s args" by (simp add: run_command_def)
  then show ?thesis using p(1,2) op c by (intro exI [of _ b']) (simp add: cmd_cat_def same_disk_def)
qed

definition demo_env :: shell_env where
  "demo_env = \<lparr>line_at = 0x5000, cat_at = 0x6000, dump_at = 0x7000, fill_at = 0x8000, sec_at = 0x3000, yield_ret = 0,
     pci_ports = (\<lambda>_. 0xFFFFFFFF), seed_disks = False\<rparr>"

definition demo_shell :: shell where
  "demo_shell = \<lparr>sh_cwd = cwd_init, sh_vfs = \<lparr>g_fs = [], g_mounts = [\<lparr>mname = ''root'', m_ops = Exfat_Ops, m_priv = Priv_Exfat demo_vol\<rparr>],
     v_block = demo_dir_store\<rparr>, sh_sched = sched_boot 0 0 (\<lambda>_. 0) 0\<rparr>"

theorem shell_cat_prints_file_witness:
  "\<exists>s' out. run_command demo_env demo_shell ''cat'' 0 ''/a'' = Some (s', out) \<and>
     length out = 601 \<and> out ! 513 = Call_Putc (char_of (1 :: nat)) \<and> out ! 600 = Call_Putc NL"
proof -
  let ?e = "\<lparr>de_first_cluster = 3, de_size = 600, de_is_dir = False, de_name = ''a''\<rparr>"
  have e: "sec_at demo_env = 0x3000" "cat_at demo_env = 0x6000" by (simp_all add: demo_env_def)
  have u: "user_buf demo_vol demo_blks (sec_at demo_env) (cat_at demo_env) 256" unfolding e by (rule demo_user_buf) simp_all
  have v: "vol_ok demo_vol demo_blks (sec_at demo_env)" unfolding e by (rule demo_vol_ok)
  have b: "demo_dir_store = v_block (sh_vfs demo_shell)" by (simp add: demo_shell_def)
  have p: "full_path demo_shell ''/a'' = Some (''root'' @ CHR '':'' # ''/a'')"
    by (simp add: full_path_def translate_unix_path_def demo_shell_def vfs_has_mount_def app_def Let_def)
  have m: "find_mount (sh_vfs demo_shell) (take 7 ''root'') = Some \<lparr>mname = ''root'', m_ops = Exfat_Ops, m_priv = Priv_Exfat demo_vol\<rparr>"
    by (simp add: find_mount_def demo_shell_def)
  have sub: "skip_slash ''/a'' = ''a''" by (simp add: skip_slash_def)
  have f: "find (\<lambda>e. skip_slash ''/a'' = de_name e) (take 32 (root_entries demo_vol (b_mem demo_dir_store))) = Some ?e" by (simp add: demo_dir(3) sub)
  have "fat_at demo_vol (b_mem demo_new_store) 3 = 4" by code_simp
  then have ch: "fchain demo_vol (b_mem demo_dir_store) [3, 4]"
    using fat_at_same [OF demo_vol_ok(1) _ demo_dir(1)] by (simp add: demo_vol_geometry)
  obtain b' where r: "run_command demo_env demo_shell ''cat'' 0 ''/a'' = Some (demo_shell\<lparr>sh_vfs := (sh_vfs demo_shell)\<lparr>v_block := b'\<rparr>\<rparr>,
      map (\<lambda>k. Call_Putc (char_of (unat (b_mem demo_dir_store (file_at demo_vol [3, 4] k))))) [0..<unat (600 :: u64)] @ [Call_Putc NL])"
    using shell_cat_prints_file [OF v u b demo_dir(2) demo_new(5) _ p _ _ m _ _ _ f _ _ ch, of 0] by (auto simp: sub demo_vol_geometry)
  have "b_mem demo_dir_store (file_at demo_vol [3, 4] 513) = 1"
  proof -
    have "b_mem demo_new_store 0x200801 = 1" by code_simp
    then show ?thesis using demo_dir_outside [of "0x200801"] demo_image_at(2) by (simp add: bytes_at_def)
  qed
  then show ?thesis using r by (auto simp: nth_append)
qed

section \<open>The current directory stays within its arrays\<close>

definition cwd_fits :: "shell \<Rightarrow> bool" where
  "cwd_fits s \<longleftrightarrow> length (s_cwd_mnt (sh_cwd s)) < 8 \<and> length (s_cwd_path (sh_cwd s)) < 128"

lemma set_cwd_fits: "cwd_fits s \<Longrightarrow> cwd_fits (s\<lparr>sh_cwd := set_cwd_from_path (sh_cwd s) p\<rparr>)"
  by (auto simp: cwd_fits_def set_cwd_from_path_def str_copy_def Let_def split: list.splits)

lemma cd_fits: "cmd_cd s args = Some (s', out) \<Longrightarrow> cwd_fits s \<Longrightarrow> cwd_fits s'"
  unfolding cmd_cd_def using set_cwd_fits
  by (auto simp: cwd_fits_def split: if_splits Option.bind_splits option.splits)

text \<open>Every other command leaves the current directory alone.\<close>

lemmas cmd_defs = cmd_mkram_def cmd_mount_def cmd_ls_def cmd_cat_def cmd_hexdump_def cmd_stat_def cmd_touch_def cmd_write_def
  cmd_rm_def cmd_fill_def cmd_mkexfat_def cmd_mkfs_def format_cmd_def cmd_bootroot_def

lemma other_cwd:
  "cmd_mkram env s args = Some (s', out) \<Longrightarrow> sh_cwd s' = sh_cwd s"
  "cmd_mount env s args = Some (s', out) \<Longrightarrow> sh_cwd s' = sh_cwd s"
  "cmd_ls env s args = Some (s', out) \<Longrightarrow> sh_cwd s' = sh_cwd s"
  "cmd_cat env s args = Some (s', out) \<Longrightarrow> sh_cwd s' = sh_cwd s"
  "cmd_hexdump env s args = Some (s', out) \<Longrightarrow> sh_cwd s' = sh_cwd s"
  "cmd_stat env s args = Some (s', out) \<Longrightarrow> sh_cwd s' = sh_cwd s"
  "cmd_touch env s args = Some (s', out) \<Longrightarrow> sh_cwd s' = sh_cwd s"
  "cmd_write env s a args = Some (s', out) \<Longrightarrow> sh_cwd s' = sh_cwd s"
  "cmd_rm env s args = Some (s', out) \<Longrightarrow> sh_cwd s' = sh_cwd s"
  "cmd_fill env s args = Some (s', out) \<Longrightarrow> sh_cwd s' = sh_cwd s"
  "cmd_mkexfat s args = Some (s', out) \<Longrightarrow> sh_cwd s' = sh_cwd s"
  "cmd_mkfs s args = Some (s', out) \<Longrightarrow> sh_cwd s' = sh_cwd s"
  "cmd_bootroot env s = Some (s', out) \<Longrightarrow> sh_cwd s' = sh_cwd s"
  by (auto simp: cmd_defs Let_def split: if_splits prod.splits Option.bind_splits option.splits)

lemma run_command_fits:
  assumes "run_command env s cmd a args = Some (s', out)" "cwd_fits s"
  shows "cwd_fits s'"
proof (cases "cmd = ''cd''")
  case True
  then show ?thesis using assms cd_fits by (simp add: run_command_def)
next
  case False
  then have "sh_cwd s' = sh_cwd s" using assms(1) unfolding run_command_def by (simp split: if_splits add: other_cwd)
  then show ?thesis using assms(2) by (simp add: cwd_fits_def)
qed

lemma handle_line_fits: "shell_handle_line env s line = Some (s', out) \<Longrightarrow> cwd_fits s \<Longrightarrow> cwd_fits s'"
  unfolding shell_handle_line_def
  by (auto simp: Let_def cwd_fits_def split: if_splits prod.splits dest!: run_command_fits)

lemma shell_rounds_fits:
  "cwd_fits s \<Longrightarrow> shell_rounds env k (line, s, evs) = Some ((line', s', evs'), out) \<Longrightarrow> cwd_fits s'"
proof (induction k arbitrary: line s evs out)
  case (Suc k)
  from Suc.prems(2) obtain line1 s1 evs1 out1 out2 where r: "shell_round env (line, s, evs) = Some ((line1, s1, evs1), out1)"
    "shell_rounds env k (line1, s1, evs1) = Some ((line', s', evs'), out2)" by (auto split: Option.bind_splits)
  from r(1) obtain buf n s2 out3 sc where "shell_handle_line env s (cstr (take n buf)) = Some (s2, out3)" "s1 = s2\<lparr>sh_sched := sc\<rparr>"
    by (auto simp: shell_round_def split: Option.bind_splits)
  then have "cwd_fits s1" using handle_line_fits [OF _ Suc.prems(1)] by (simp add: cwd_fits_def)
  then show ?case using Suc.IH r(2) by blast
qed simp

text \<open>
  C38. The arrays of the current directory are never overrun: from the start and over any number of
  rounds of the shell, whatever is typed, the mount name and the path keep to the 8 and the 128
  bytes declared for them.
\<close>

theorem shell_cwd_bounded:
  "case shell_main env k (line, s\<lparr>sh_cwd := cwd_init\<rparr>, evs) of
     None \<Rightarrow> True
   | Some ((line', s', evs'), out) \<Rightarrow> length (s_cwd_mnt (sh_cwd s')) < 8 \<and> length (s_cwd_path (sh_cwd s')) < 128"
proof -
  have "cwd_fits (s\<lparr>sh_cwd := cwd_init\<rparr>)" by (simp add: cwd_fits_def cwd_init_def)
  from shell_rounds_fits [OF this] show ?thesis
    by (auto simp: shell_main_def cwd_fits_def split: option.splits Option.bind_splits)
qed

end
