(* ===== verification/Devices.thy ===== *)
theory Devices
  imports Input Con_Calls
begin

text \<open>
  Device drivers at the ports: the serial line (\<open>kernel64/serial.c\<close>), the device registry
  (\<open>kernel64/dev/device.c\<close>) with its two devices (\<open>dev/display_console.c\<close>, \<open>dev/keyboard_ps2.c\<close>) and
  what is read from the \<open>cpuid\<close> instruction (\<open>kernel64/cpuid.h\<close>). What a port answers is an argument: a
  list of answers where the code polls. Running out of answers is waiting for ever, \<open>None\<close>.
\<close>

section \<open>The serial line\<close>

definition COM1_BASE :: u16 where "COM1_BASE = 0x3F8"
definition COM_LSR :: u16 where "COM_LSR = COM1_BASE + 5"
definition COM_LSR_THRE :: u8 where "COM_LSR_THRE = 0x20"
definition COM_LSR_DR :: u8 where "COM_LSR_DR = 0x01"

text \<open>Port accesses in order, with the value read or written.\<close>

datatype port_io = In u16 u8 | Out u16 u8

definition serial_init :: "port_io list" where
  "serial_init = [Out (COM1_BASE + 1) 0x00, Out (COM1_BASE + 3) 0x80, Out (COM1_BASE + 0) 0x01,
     Out (COM1_BASE + 1) 0x00, Out (COM1_BASE + 3) 0x03, Out (COM1_BASE + 2) 0xC7, Out (COM1_BASE + 4) 0x0B]"

text \<open>The line status answers that are left, and the accesses.\<close>

fun serial_wait_tx :: "u8 list \<Rightarrow> (u8 list \<times> port_io list) option" where
  "serial_wait_tx [] = None"
| "serial_wait_tx (v # vs) =
     (if v AND COM_LSR_THRE = 0
      then do { (vs1, io) \<leftarrow> serial_wait_tx vs; Some (vs1, In COM_LSR v # io) }
      else Some (vs, [In COM_LSR v]))"

definition serial_send :: "u8 list \<Rightarrow> char \<Rightarrow> (u8 list \<times> port_io list) option" where
  "serial_send vs c = do { (vs1, io) \<leftarrow> serial_wait_tx vs; Some (vs1, io @ [Out COM1_BASE (of_char c)]) }"

definition serial_try_getc :: "u8 \<Rightarrow> u8 \<Rightarrow> int" where
  "serial_try_getc lsr rbr = (if lsr AND COM_LSR_DR \<noteq> 0 then uint rbr else -1)"

text \<open>A string, one character after another.\<close>

fun serial_sends :: "u8 list \<Rightarrow> string \<Rightarrow> (u8 list \<times> port_io list) option" where
  "serial_sends vs [] = Some (vs, [])"
| "serial_sends vs (c # cs) = do {
     (vs1, io) \<leftarrow> serial_send vs c;
     (vs2, io2) \<leftarrow> serial_sends vs1 cs;
     Some (vs2, io @ io2) }"

section \<open>The device registry\<close>

datatype dev_type = DEV_DISPLAY | DEV_KEYBOARD

text \<open>The operation tables: \<open>display_ops_t\<close> of the console, \<open>keyboard_ops_t\<close> of the keyboard.\<close>

datatype dev_ops = Display_Ops | Keyboard_Ops

record device =
  d_name :: string
  d_type :: dev_type
  d_ops :: dev_ops
  d_next :: u64

text \<open>Devices are objects at addresses; \<open>s_dev_list\<close> is the address of the first, 0 for none.\<close>

record dev_state =
  s_dev_list :: u64
  dev_obj :: "u64 \<Rightarrow> device"

definition dev_register :: "dev_state \<Rightarrow> u64 \<Rightarrow> dev_state" where
  "dev_register s dev =
     (if dev = 0 then s
      else s\<lparr>dev_obj := (dev_obj s)(dev := (dev_obj s dev)\<lparr>d_next := s_dev_list s\<rparr>), s_dev_list := dev\<rparr>)"

partial_function (option) first_of_type :: "dev_state \<Rightarrow> dev_type \<Rightarrow> u64 \<Rightarrow> u64 option" where
  "first_of_type s ty d =
     (if d = 0 then Some 0 else if d_type (dev_obj s d) = ty then Some d
      else first_of_type s ty (d_next (dev_obj s d)))"

definition dev_first_of_type :: "dev_state \<Rightarrow> dev_type \<Rightarrow> u64 option" where
  "dev_first_of_type s ty = first_of_type s ty (s_dev_list s)"

text \<open>The comparison loop stops at the first difference or end; two strings that both end there are equal.\<close>

fun same_name :: "string \<Rightarrow> string \<Rightarrow> bool" where
  "same_name (a # as) (b # bs) = (a = b \<and> same_name as bs)"
| "same_name [] [] = True"
| "same_name _ _ = False"

partial_function (option) find_named :: "dev_state \<Rightarrow> string \<Rightarrow> u64 \<Rightarrow> u64 option" where
  "find_named s name d =
     (if d = 0 then Some 0 else if same_name (d_name (dev_obj s d)) name then Some d
      else find_named s name (d_next (dev_obj s d)))"

definition dev_find_by_name :: "dev_state \<Rightarrow> string \<Rightarrow> u64 option" where
  "dev_find_by_name s name = find_named s name (s_dev_list s)"

section \<open>The console as a device\<close>

definition d_putc :: "char \<Rightarrow> con_call" where "d_putc c = Call_Putc c"
definition d_write :: "string \<Rightarrow> con_call" where "d_write s = Call_Write s"
definition d_clear :: con_call where "d_clear = Call_Clear"
definition d_set_color :: "u8 \<Rightarrow> u8 \<Rightarrow> con_call" where "d_set_color fg bg = Call_Color fg bg"

definition s_disp :: device where
  "s_disp = \<lparr>d_name = ''console0'', d_type = DEV_DISPLAY, d_ops = Display_Ops, d_next = 0\<rparr>"

definition display_console_register :: "u64 \<Rightarrow> dev_state \<Rightarrow> dev_state" where
  "display_console_register disp s = dev_register s disp"

section \<open>The keyboard as a device\<close>

definition kb_map :: "u8 list" where
  "kb_map = [0, 27] @ ascii ''1234567890-='' @ [8, 9] @ ascii ''qwertyuiop[]'' @ [10, 0] @
     ascii ''asdfghjkl;'' @ [39, 96, 0, 92] @ ascii ''zxcvbnm,./'' @ [0, 42, 0, 32, 0, 0, 0]"

definition ps2_try_getc_dev :: "u8 \<Rightarrow> u8 \<Rightarrow> int" where
  "ps2_try_getc_dev status sc =
     (if status AND 1 = 0 then -1
      else if sc = 0xE0 then -1
      else if sc AND 0x80 \<noteq> 0 then -1
      else if sc < 128 \<and> map_at kb_map sc \<noteq> 0 then uint (map_at kb_map sc)
      else -1)"

text \<open>One poll is what the keyboard status and data ports and the serial status and data ports answer.\<close>

fun kb_getc :: "(u8 \<times> u8 \<times> u8 \<times> u8) list \<Rightarrow> (int \<times> (u8 \<times> u8 \<times> u8 \<times> u8) list) option" where
  "kb_getc [] = None"
| "kb_getc ((status, sc, lsr, rbr) # polls) =
     (let c = ps2_try_getc_dev status sc; s = serial_try_getc lsr rbr
      in if c < 0 then if s \<ge> 0 then Some (s, polls) else kb_getc polls
         else Some (c, polls))"

definition s_kb :: device where
  "s_kb = \<lparr>d_name = ''ps2kbd0'', d_type = DEV_KEYBOARD, d_ops = Keyboard_Ops, d_next = 0\<rparr>"

definition kb_ps2_register :: "u64 \<Rightarrow> dev_state \<Rightarrow> dev_state" where
  "kb_ps2_register kb s = dev_register s kb"

section \<open>Processor identification\<close>

record cpuid_regs =
  eax :: u32
  ebx :: u32
  ecx :: u32
  edx :: u32

definition cpuid_initial_apic_id :: "(u32 \<Rightarrow> u32 \<Rightarrow> cpuid_regs) \<Rightarrow> u32" where
  "cpuid_initial_apic_id cpuid = drop_bit 24 (ebx (cpuid 1 0)) AND 0xFF"

definition cpuid_logical_processor_count :: "(u32 \<Rightarrow> u32 \<Rightarrow> cpuid_regs) \<Rightarrow> u32" where
  "cpuid_logical_processor_count cpuid =
     (let mx = eax (cpuid 0 0);
          at_least_1 = (\<lambda>n :: u32. if n = 0 then 1 else n)
      in if mx \<ge> 0x0B then at_least_1 (ebx (cpuid 0x0B 0) AND 0xFFFF)
         else if mx \<ge> 1 then at_least_1 (drop_bit 16 (ebx (cpuid 1 0)) AND 0xFF)
         else 1)"

section \<open>Sending\<close>

text \<open>Every value sent is preceded by a status read that reported an empty transmitter.\<close>

fun polled :: "bool \<Rightarrow> port_io list \<Rightarrow> bool" where
  "polled rdy [] = True"
| "polled rdy (In p v # io) = (p = COM_LSR \<and> polled (v AND COM_LSR_THRE \<noteq> 0) io)"
| "polled rdy (Out p v # io) = (rdy \<and> p = COM1_BASE \<and> polled False io)"

definition sent :: "port_io list \<Rightarrow> u8 list" where
  "sent io = concat (map (\<lambda>e. case e of In p v \<Rightarrow> [] | Out p v \<Rightarrow> [v]) io)"

lemma sent_simps [simp]: "sent [] = []" "sent (In p v # io) = sent io" "sent (Out p v # io) = v # sent io" "sent (a @ b) = sent a @ sent b"
  by (simp_all add: sent_def)

abbreviation ready_count :: "u8 list \<Rightarrow> nat" where
  "ready_count vs \<equiv> length (filter (\<lambda>v. v AND COM_LSR_THRE \<noteq> 0) vs)"

lemma serial_wait_tx_ready:
  "0 < ready_count vs \<Longrightarrow> \<exists>vs' io. serial_wait_tx vs = Some (vs', io) \<and> ready_count vs = Suc (ready_count vs') \<and> sent io = [] \<and>
     (\<forall>c io' b. polled b (io @ Out COM1_BASE c # io') = polled False io')"
  by (induction vs) auto

lemma serial_send_ready:
  assumes "0 < ready_count vs"
  shows "\<exists>vs' io. serial_send vs c = Some (vs', io) \<and> ready_count vs = Suc (ready_count vs') \<and> sent io = [of_char c] \<and>
    (\<forall>b io'. polled b (io @ io') = polled False io')"
  using serial_wait_tx_ready [OF assms] by (auto simp: serial_send_def)

text \<open>
  Sending a string over the serial line waits for the transmitter before every character: once
  the line has reported an empty transmitter as often as there are characters, the call has
  returned, the bytes sent are those of the string in order, and each was sent right after such a
  report.
\<close>

theorem serial_sends_polled:
  assumes "length cs \<le> ready_count vs"
  shows "\<exists>vs' io. serial_sends vs cs = Some (vs', io) \<and> sent io = map of_char cs \<and> polled False io \<and>
    ready_count vs = ready_count vs' + length cs"
  using assms
proof (induction cs arbitrary: vs)
  case (Cons c cs)
  then have "0 < ready_count vs" by (cases "ready_count vs") simp_all
  from serial_send_ready [OF this, of c] obtain vs1 io where s: "serial_send vs c = Some (vs1, io)"
    "ready_count vs = Suc (ready_count vs1)" "sent io = [of_char c]" "\<forall>b io'. polled b (io @ io') = polled False io'" by blast
  then obtain vs2 io2 where "serial_sends vs1 cs = Some (vs2, io2)" "sent io2 = map of_char cs" "polled False io2"
    "ready_count vs1 = ready_count vs2 + length cs" using Cons.IH [of vs1] Cons.prems by auto
  then show ?case using s by simp
qed simp

theorem serial_sends_polled_witness:
  "\<exists>vs' io. serial_sends [0, 0x20, 0x60, 0, 0] ''ok'' = Some (vs', io) \<and> sent io = [111, 107] \<and> polled False io"
  using serial_sends_polled [of "''ok''" "[0, 0x20, 0x60, 0, 0]"] by (simp add: COM_LSR_THRE_def) auto

section \<open>The registry as a list\<close>

fun linked :: "(u64 \<Rightarrow> device) \<Rightarrow> u64 \<Rightarrow> u64 list \<Rightarrow> bool" where
  "linked at d [] = (d = 0)"
| "linked at d (x # xs) = (d = x \<and> x \<noteq> 0 \<and> linked at (d_next (at x)) xs)"

definition found :: "(device \<Rightarrow> bool) \<Rightarrow> dev_state \<Rightarrow> u64 list \<Rightarrow> u64" where
  "found P s ds = (case find (\<lambda>d. P (dev_obj s d)) ds of Some d \<Rightarrow> d | None \<Rightarrow> 0)"

lemma same_name_iff [simp]: "same_name a b = (a = b)"
  by (induction a b rule: same_name.induct) auto

lemma find_named_linked: "linked (dev_obj s) d ds \<Longrightarrow> find_named s name d = Some (found (\<lambda>x. d_name x = name) s ds)"
  by (induction ds arbitrary: d) (subst find_named.simps, auto simp: found_def)+

lemma first_of_type_linked: "linked (dev_obj s) d ds \<Longrightarrow> first_of_type s ty d = Some (found (\<lambda>x. d_type x = ty) s ds)"
  by (induction ds arbitrary: d) (subst first_of_type.simps, auto simp: found_def)+

lemma linked_other: "x \<notin> set ds \<Longrightarrow> linked (at(x := v)) d ds = linked at d ds"
  by (induction ds arbitrary: d) auto

lemma register_linked:
  assumes "linked (dev_obj s) (s_dev_list s) ds" "x \<noteq> 0" "x \<notin> set ds"
  shows "linked (dev_obj (dev_register s x)) (s_dev_list (dev_register s x)) (x # ds)"
  using assms by (simp add: dev_register_def linked_other)

lemma register_fields:
  "d_name (dev_obj (dev_register s x) d) = d_name (dev_obj s d)" "d_type (dev_obj (dev_register s x) d) = d_type (dev_obj s d)"
  by (simp_all add: dev_register_def)

lemma registers_linked:
  assumes "linked (dev_obj s) (s_dev_list s) ds" "0 \<notin> set xs" "distinct xs" "set xs \<inter> set ds = {}"
  shows "linked (dev_obj (foldl dev_register s xs)) (s_dev_list (foldl dev_register s xs)) (rev xs @ ds) \<and>
    (\<forall>d. d_name (dev_obj (foldl dev_register s xs) d) = d_name (dev_obj s d) \<and> d_type (dev_obj (foldl dev_register s xs) d) = d_type (dev_obj s d))"
  using assms
proof (induction xs arbitrary: s ds)
  case (Cons x xs)
  have "linked (dev_obj (dev_register s x)) (s_dev_list (dev_register s x)) (x # ds)"
    using Cons.prems by (intro register_linked) auto
  from Cons.IH [OF this] Cons.prems show ?case by (simp add: register_fields)
qed simp

text \<open>
  The registry finds the device registered last: after distinct devices were registered,
  a lookup by name or by type returns the latest of them with that name or type, and the null
  pointer when there is none.
\<close>

theorem dev_registry_latest:
  assumes "0 \<notin> set xs" "distinct xs" "s_dev_list s = 0" and r: "r = foldl dev_register s xs"
  shows "dev_find_by_name r name = Some (found (\<lambda>x. d_name x = name) s (rev xs)) \<and>
    dev_first_of_type r ty = Some (found (\<lambda>x. d_type x = ty) s (rev xs))"
proof -
  have l: "linked (dev_obj r) (s_dev_list r) (rev xs)" and f: "\<And>d. d_name (dev_obj r d) = d_name (dev_obj s d)" "\<And>d. d_type (dev_obj r d) = d_type (dev_obj s d)"
    using registers_linked [of s "[]" xs] assms by auto
  have "dev_find_by_name r name = Some (found (\<lambda>x. d_name x = name) s (rev xs))"
    unfolding dev_find_by_name_def find_named_linked [OF l] by (simp add: found_def f)
  moreover have "dev_first_of_type r ty = Some (found (\<lambda>x. d_type x = ty) s (rev xs))"
    unfolding dev_first_of_type_def first_of_type_linked [OF l] by (simp add: found_def f)
  ultimately show ?thesis ..
qed

definition demo_devs :: dev_state where
  "demo_devs = \<lparr>s_dev_list = 0, dev_obj = (\<lambda>a. if a = 0x1000 then s_disp else s_kb)\<rparr>"

theorem dev_registry_latest_witness:
  "dev_find_by_name (kb_ps2_register 0x2000 (display_console_register 0x1000 demo_devs)) ''console0'' = Some 0x1000 \<and>
   dev_first_of_type (kb_ps2_register 0x2000 (display_console_register 0x1000 demo_devs)) DEV_KEYBOARD = Some 0x2000"
  using dev_registry_latest [of "[0x1000, 0x2000]" demo_devs "foldl dev_register demo_devs [0x1000, 0x2000]" "''console0''" DEV_KEYBOARD]
  by (simp add: kb_ps2_register_def display_console_register_def found_def demo_devs_def s_disp_def s_kb_def)

text \<open>A device registered twice is its own successor, and a lookup that does not stop at it never returns.\<close>

lemma find_named_loops:
  assumes "d \<noteq> 0" "d_next (dev_obj s d) = d" "d_name (dev_obj s d) \<noteq> name"
  shows "find_named s name d = None"
proof -
  have "find_named s name d = Some r \<Longrightarrow> d_next (dev_obj s d) = d \<longrightarrow> d \<noteq> 0 \<longrightarrow> d_name (dev_obj s d) = name" for r
    by (rule find_named.raw_induct [where P = "\<lambda>s name d r. d_next (dev_obj s d) = d \<longrightarrow> d \<noteq> 0 \<longrightarrow> d_name (dev_obj s d) = name"])
      (auto split: if_splits)
  then show ?thesis using assms by (cases "find_named s name d") auto
qed

section \<open>The two keyboard tables\<close>

lemma kb_map_base: "kb_map = base_map"
  by (simp add: kb_map_def base_map_def)

end
