(* ===== verification/Boot.thy ===== *)
theory Boot
  imports Shell Devices Pmm_Init Vmm_Correct
begin

text \<open>
  The start of the kernel (\<open>kernel64/kmain64.c\<close>): identification of the machine, the frame allocator
  with the memory that must not be handed out, the page tables, the heap, the devices and file
  systems, the root file system and the shell's thread. The output is the list of console and serial
  calls after the console was initialised; the messages of the components called (\<open>vfs_mount\<close>,
  exFAT) are not part of it. What lies outside the C code is in \<open>boot_env\<close>: the \<open>cpuid\<close>
  instruction, the \<open>CR3\<close> register, the addresses of linker symbols, static objects and locals.
\<close>

section \<open>Environment\<close>

record boot_env =
  cpuid :: "u32 \<Rightarrow> u32 \<Rightarrow> cpuid_regs"
  cr3 :: u64
  kernel_start :: u64
  kernel_end :: u64
  early_heap :: u64
  mbr_at :: u64
  disp_at :: u64
  kb_at :: u64
  stacks_at :: u64
  trampoline_at :: u64
  boot_rsp :: u64
  shell_entry :: u64
  start_ret :: u64
  env_shell :: shell_env

text \<open>The state when the shell's thread is entered.\<close>

record kernel =
  k_shell :: shell
  k_devs :: dev_state
  k_cr3 :: u64

section \<open>Messages\<close>

definition s_puts :: "string \<Rightarrow> con_call list" where
  "s_puts s = map Call_Serial s @ [Call_Serial NL]"

definition s_put_hex64 :: "u64 \<Rightarrow> con_call list" where
  "s_put_hex64 v = map Call_Serial (''0x'' @ hex_digits v)"

text \<open>The bytes of registers, up to the first NUL.\<close>

definition reg_chars :: "u32 \<Rightarrow> string" where
  "reg_chars r = map (\<lambda>i. char_of (unat (ucast (drop_bit (8 * i) r) :: u8))) [0..<4]"

definition print_vendor :: "boot_env \<Rightarrow> con_call list" where
  "print_vendor env =
     (let r0 = cpuid env 0 0;
          vendor = cstr (reg_chars (ebx r0) @ reg_chars (edx r0) @ reg_chars (ecx r0))
      in [Call_Write ''CPU vendor: '', Call_Write vendor, Call_Write [NL]])"

definition print_brand :: "boot_env \<Rightarrow> con_call list" where
  "print_brand env =
     (let part = (\<lambda>leaf. let r = cpuid env leaf 0 in reg_chars (eax r) @ reg_chars (ebx r) @ reg_chars (ecx r) @ reg_chars (edx r));
          brand = cstr (part 0x80000002 @ part 0x80000003 @ part 0x80000004)
      in [Call_Write ''CPU brand:  '', Call_Write brand, Call_Write [NL]])"

definition print_features :: "boot_env \<Rightarrow> con_call list" where
  "print_features env =
     (let r1 = cpuid env 1 0
      in [Call_Write ''Features ECX='', Call_Hex64 (ucast (ecx r1)), Call_Write '' EDX='', Call_Hex64 (ucast (edx r1)), Call_Write [NL]]
         @ s_puts ''[k64] cpuid(1,0) raw:''
         @ s_put_hex64 (push_bit 32 (ucast (edx r1)) OR ucast (ecx r1)) @ [Call_Serial NL])"

section \<open>The memory map\<close>

text \<open>The first memory map of either kind.\<close>

partial_function (option) find_maps :: "memory \<Rightarrow> u64 \<Rightarrow> u64 option \<Rightarrow> u64 option \<Rightarrow> (u64 option \<times> u64 option) option" where
  "find_maps m t efi mmap =
     (if t = 0 \<or> tag_type m t = MB2_TAG_END then Some (efi, mmap)
      else find_maps m (mb2_next_tag m t)
        (if tag_type m t = MB2_TAG_EFI_MMAP \<and> efi = None then Some t else efi)
        (if tag_type m t = MB2_TAG_MMAP \<and> mmap = None then Some t else mmap))"

text \<open>The two totals, RAM and reserved.\<close>

type_synonym totals = "u64 \<times> u64"

definition map_line :: "u64 \<Rightarrow> u64 \<Rightarrow> bool \<Rightarrow> con_call list" where
  "map_line start bytes usable = [Call_Write ''  '', Call_Hex64 start, Call_Write '' + '', Call_Hex64 bytes,
     say (if usable then ''  [USABLE]'' else ''  [RESV]'')]"

definition count_in :: "bool \<Rightarrow> u64 \<Rightarrow> totals \<Rightarrow> totals" where
  "count_in usable bytes = (\<lambda>(ram, resv). if usable then (ram + bytes, resv) else (ram, resv + bytes))"

definition efi_lines :: "memory \<Rightarrow> u64 \<Rightarrow> totals \<times> con_call list" where
  "efi_lines m efi =
     (let ds = map (\<lambda>i. load_efi_mem_desc m (mb2_efi_first_desc efi + ucast (of_nat i * desc_size m efi))) [0..<unat (mb2_efi_desc_count m efi)]
      in (fold (\<lambda>d. count_in (Type d = 7) (NumberOfPages d * 4096)) ds (0, 0),
          concat (map (\<lambda>d. map_line (PhysicalStart d) (NumberOfPages d * 4096) (Type d = 7)) ds)))"

partial_function (option) mmap_lines :: "memory \<Rightarrow> u64 \<Rightarrow> u32 \<Rightarrow> u32 \<Rightarrow> totals \<Rightarrow> con_call list \<Rightarrow> (totals \<times> con_call list) option" where
  "mmap_lines m p entry_size offset tot out =
     (if offset + entry_size \<le> tag_size m p
      then let e = load_mmap_entry m (p + ucast offset)
           in mmap_lines m p entry_size (offset + entry_size) (count_in (entry_type e = 1) (length_of e) tot)
                (out @ map_line (base_addr e) (length_of e) (entry_type e = 1))
      else Some (tot, out))"

partial_function (option) meminfo_total :: "memory \<Rightarrow> u64 \<Rightarrow> u64 option option" where
  "meminfo_total m t =
     (if t = 0 \<or> tag_type m t = MB2_TAG_END then Some None
      else if tag_type m t = MB2_TAG_BASIC_MEMINFO
      then Some (Some (ucast (mem_lower m t) * 1024 + ucast (mem_upper m t) * 1024))
      else meminfo_total m (mb2_next_tag m t))"

definition print_memory_map :: "memory \<Rightarrow> u64 \<Rightarrow> con_call list option" where
  "print_memory_map m mb2_addr = do {
     (efi, mmap) \<leftarrow> find_maps m (mb2_first_tag mb2_addr) None None;
     (tot, out) \<leftarrow> (case efi of
         Some t \<Rightarrow> Some (efi_lines m t)
       | None \<Rightarrow> (case mmap of Some t \<Rightarrow> mmap_lines m t (load32 m (t + 8)) 16 (0, 0) [] | None \<Rightarrow> Some ((0, 0), [])));
     fallback \<leftarrow> (if tot = (0, 0) then meminfo_total m (mb2_first_tag mb2_addr) else Some None);
     let (total_ram, total_reserved) = (case fallback of Some ram \<Rightarrow> (ram, 0) | None \<Rightarrow> tot);
     Some ([say ''Memory map:''] @ out @ (case fallback of Some _ \<Rightarrow> [say ''  (basic meminfo used)''] | None \<Rightarrow> []) @
       [Call_Write ''Total RAM: '', Call_Hex64 total_ram, say '' bytes'',
        Call_Write ''Reserved:  '', Call_Hex64 total_reserved, say '' bytes'']) }"

definition print_banner_and_info :: "boot_env \<Rightarrow> memory \<Rightarrow> u64 \<Rightarrow> con_call list option" where
  "print_banner_and_info env m mb_addr = do {
     mp \<leftarrow> print_memory_map m mb_addr;
     Some ([Call_Clear, Call_Color 0x0F 0x00, Call_Write (''dex-os-64 0.1.0 (x86_64)'' @ [NL, NL])]
       @ print_vendor env @ print_brand env @ print_features env @ [Call_Write [NL]] @ mp @ [Call_Write [NL]]) }"

section \<open>Memory\<close>

text \<open>The paging structures of the loader: root, second level and the four page directories.\<close>

definition loader_pdpt :: "boot_env \<Rightarrow> memory \<Rightarrow> u64" where
  "loader_pdpt env m = load64 m (cr3 env) AND NOT 0xFFF"

definition loader_pd :: "boot_env \<Rightarrow> memory \<Rightarrow> nat \<Rightarrow> u64" where
  "loader_pd env m i = load64 m (loader_pdpt env m + 8 * of_nat i) AND NOT 0xFFF"

text \<open>The ranges \<open>kmain64\<close> reserves, in order.\<close>

definition boot_ranges :: "boot_env \<Rightarrow> memory \<Rightarrow> u64 \<Rightarrow> (u64 \<times> u64) list" where
  "boot_ranges env m mb_addr =
     (let mb_total = load32 m mb_addr
      in (if mb_addr \<noteq> 0 \<and> mb_total > 0 \<and> mb_total < push_bit 20 16 then [(mb_addr, ucast mb_total)] else []) @
         (if kernel_end env > kernel_start env then [(kernel_start env, kernel_end env - kernel_start env)] else []) @
         [(cr3 env, 4096), (loader_pdpt env m, 4096)] @
         map (\<lambda>i. (loader_pd env m i, 4096)) (filter (\<lambda>i. loader_pd env m i \<noteq> 0) [0..<4]))"

fun reserve_ranges :: "pmm_state \<Rightarrow> (u64 \<times> u64) list \<Rightarrow> pmm_state option" where
  "reserve_ranges p [] = Some p"
| "reserve_ranges p ((a, n) # rs) = do { p1 \<leftarrow> pmm_reserve p a n; reserve_ranges p1 rs }"

text \<open>From \<open>pmm_init\<close> to \<open>vmm_init_identity\<close>. The loader's tables are read before \<open>pmm_init\<close>, which does
  not write to memory.\<close>

definition boot_memory :: "boot_env \<Rightarrow> memory \<Rightarrow> pmm_state \<Rightarrow> u64 \<Rightarrow> vmm_state option" where
  "boot_memory env m p0 mb_addr = do {
     p1 \<leftarrow> pmm_init m p0 mb_addr False;
     p2 \<leftarrow> reserve_ranges p1 (boot_ranges env m mb_addr);
     vmm_init_identity \<lparr>vm_mem = m, vm_pmm = p2, g_cr3_phys = 0, cpu_cr3 = cr3 env\<rparr> }"

section \<open>File systems\<close>

definition quoted :: "string \<Rightarrow> string" where
  "quoted s = [CHR 0x27] @ s @ [CHR 0x27]"

type_synonym vfs = "(fs_table, priv) vfs_state"

abbreviation env_tables :: "boot_env \<Rightarrow> fs_table \<Rightarrow> fs_ops" where
  "env_tables env \<equiv> fs_tables (env_shell env)"

text \<open>Whether the module's string contains \<open>root\<close>.\<close>

partial_function (option) has_root :: "memory \<Rightarrow> u64 \<Rightarrow> bool option" where
  "has_root m p =
     (if m p = 0 then Some False
      else if m p = 114 \<and> m (p + 1) = 111 \<and> m (p + 2) = 111 \<and> m (p + 3) = 116 then Some True
      else has_root m (p + 1))"

definition module_matches :: "memory \<Rightarrow> u64 \<Rightarrow> bool option" where
  "module_matches m t = (if mb2_mod_string t = 0 then Some False else has_root m (mb2_mod_string t))"

text \<open>The module as the disk \<open>iso0\<close>, mounted as \<open>root\<close>; the result tells whether that worked.\<close>

definition mount_module :: "boot_env \<Rightarrow> vfs \<Rightarrow> u64 \<Rightarrow> (vfs \<times> bool \<times> con_call list) option" where
  "mount_module env v t =
     (let m = b_mem (v_block v); start = mb2_mod_start m t; fin = mb2_mod_end m t; bytes = fin - start
      in if fin > start
         then do {
           (b, rc) \<leftarrow> memdisk_register (v_block v) ''iso0'' start bytes 512 False;
           let v1 = v\<lparr>v_block := b\<rparr>;
           let out = [Call_Write ''[k64] MB2 module root.img start='', Call_Hex64 start, Call_Write '' end='', Call_Hex64 fin,
             Call_Write '' bytes='', Call_Hex64 bytes, Call_Write [NL]];
           if rc = 0
           then do {
             (v2, rc2) \<leftarrow> vfs_mount (env_tables env) Priv_One v1 ''exfat'' ''root'' ''iso0'';
             Some (v2, rc2 = 0, out @ s_puts ''[k64] mount exfat root enter (iso0)'' @
               (if rc2 = 0 then s_puts (''[k64] mounted exfat '' @ quoted ''root'' @ '' on iso0'') else [])) }
           else Some (v1, False, out) }
         else Some (v, False, []))"

text \<open>Only the first module that matches is tried.\<close>

partial_function (option) module_loop :: "boot_env \<Rightarrow> vfs \<Rightarrow> u64 \<Rightarrow> (vfs \<times> bool \<times> con_call list) option" where
  "module_loop env v t =
     (if t = 0 \<or> tag_type (b_mem (v_block v)) t = MB2_TAG_END then Some (v, False, [])
      else if tag_type (b_mem (v_block v)) t = MB2_TAG_MODULE
      then do {
        hit \<leftarrow> module_matches (b_mem (v_block v)) t;
        if hit then mount_module env v t else module_loop env v (mb2_next_tag (b_mem (v_block v)) t) }
      else module_loop env v (mb2_next_tag (b_mem (v_block v)) t))"

definition mount_root :: "boot_env \<Rightarrow> vfs \<Rightarrow> u64 \<Rightarrow> (vfs \<times> con_call list) option" where
  "mount_root env v mb_addr = do {
     (v1, from_module, out) \<leftarrow> module_loop env v (mb2_first_tag mb_addr);
     if from_module then Some (v1, out)
     else do {
       (v2, rc) \<leftarrow> vfs_mount (env_tables env) Priv_One v1 ''exfat'' ''root'' ''ram0'';
       Some (v2, out @ s_puts ''[k64] mount exfat root enter (ram0)'' @
         s_puts (if rc = 0 then ''[k64] mounted exfat '' @ quoted ''root'' @ '' on ram0'' else ''[k64] mount exfat root FAILED'')) } }"

definition boot_files :: "boot_env \<Rightarrow> vfs \<Rightarrow> u64 \<Rightarrow> (vfs \<times> con_call list) option" where
  "boot_files env v mb_addr = do {
     let v1 = devfs_register (exfat_register v);
     (v2, rc) \<leftarrow> vfs_mount (env_tables env) Priv_One v1 ''devfs'' ''dev'' [];
     (b3, rc3) \<leftarrow> ramdisk_create (seed_disks (env_shell env)) (v_block v2) ''ram0'' (8 * 1024 * 1024);
     b4 \<leftarrow> block_scan_partitions (mbr_at env) b3;
     let (b5, rc5) = exfat_format_device b4 ''ram0'' [];
     (v6, out) \<leftarrow> mount_root env (v2\<lparr>v_block := b5\<rparr>) mb_addr;
     Some (v6, s_puts ''[k64] exfat_register'' @ s_puts ''[k64] devfs_register'' @ [say ''Setting up root filesystem...''] @
       s_puts (if rc = 0 then ''[k64] mounted devfs as '' @ quoted ''dev'' else ''[k64] devfs mount FAILED'') @
       s_puts (if rc3 = 0 then ''[k64] ramdisk ram0 created'' else ''[k64] ramdisk ram0 creation FAILED'') @
       s_puts ''[k64] scan partitions enter'' @ s_puts ''[k64] scan partitions exit'' @ s_puts ''[k64] exfat mkfs enter'' @
       s_puts (if rc5 = 0 then ''[k64] exfat mkfs OK on ram0'' else ''[k64] exfat mkfs FAILED on ram0'') @ out @
       [say ''Mounts after setup:'', Call_Write (vfs_list_mounts v6), Call_Write [NL]]) }"

section \<open>The kernel\<close>

text \<open>The hexadecimal self test is printed on the console and on the serial line.\<close>

definition selftest :: "con_call list" where
  "selftest = [Call_Write ''Selftest: '', Call_Hex64 0x0123456789ABCDEF, Call_Write [NL], say ''Digits: 0123456789ABCDEF''] @
     s_puts ''[k64] ser selftest hex:'' @ s_put_hex64 0x0123456789ABCDEF @ [Call_Serial NL]"

definition no_files :: "block_state \<Rightarrow> vfs" where
  "no_files b = \<lparr>g_fs = [], g_mounts = [], v_block = b\<rparr>"

text \<open>\<open>kmain64\<close> up to the switch to the shell's thread. The static state of the other components is as
  the loader left it: zero.\<close>

definition kmain64 ::
  "boot_env \<Rightarrow> memory \<Rightarrow> pmm_state \<Rightarrow> heap_state \<Rightarrow> dev_state \<Rightarrow> con_sys \<Rightarrow> u64 \<Rightarrow> (kernel \<times> con_sys) option" where
  "kmain64 env m p0 h0 d0 c0 mb_info = do {
     c1 \<leftarrow> run_calls (s_puts ''[k64] entry'') c0;
     c2 \<leftarrow> console_init_from_mb2 m c1 mb_info;
     banner \<leftarrow> print_banner_and_info env m mb_info;
     vm \<leftarrow> boot_memory env m p0 mb_info;
     let h = kmalloc_init h0 (early_heap env) (256 * 1024);
     let d = kb_ps2_register (kb_at env) (display_console_register (disp_at env) d0);
     let b = \<lparr>b_mem = vm_mem vm, b_heap = h, b_pmm = vm_pmm vm, g_devs = []\<rparr>;
     (v, out) \<leftarrow> boot_files env (no_files b) mb_info;
     (sc, tid) \<leftarrow> sched_create (shell_entry env) 0 (sched_boot (stacks_at env) (trampoline_at env) (b_mem (v_block v)) (boot_rsp env));
     let sc1 = sched_start (start_ret env) sc;
     c3 \<leftarrow> run_calls (s_puts ''[k64] console_init'' @ selftest @ banner @ s_puts ''[k64] printed banner'' @ s_puts ''[k64] pmm_init'' @
       s_puts ''[k64] vmm_init_identity'' @ s_puts ''[k64] kmalloc_init'' @
       [Call_Write ''PMM/VMM initialized. Free: '', Call_Hex64 (pmm_free_bytes (vm_pmm vm)), Call_Write ('' bytes'' @ [NL, NL])] @
       usb_init (pci_ports (env_shell env)) @ out @ s_puts ''[k64] start shell'' @ [say ''Starting shell...'']) c2;
     Some (\<lparr>k_shell = \<lparr>sh_cwd = cwd_init, sh_vfs = v, sh_sched = sc1\<rparr>, k_devs = d, k_cr3 = g_cr3_phys vm\<rparr>, c3) }"

end
