(* ===== verification/Boot_Correct.thy ===== *)
theory Boot_Correct
  imports Boot
begin

text \<open>
  What the start of the kernel guarantees: the memory it still needs is not handed out by the frame
  allocator and not written by the new page tables.
\<close>

section \<open>Reserving ranges\<close>

definition range_pages :: "u64 \<times> u64 \<Rightarrow> nat set" where
  "range_pages r = {unat (fst r) div 4096..<(unat (fst r) + unat (snd r) + 4095) div 4096}"

lemma reserve_pages:
  assumes ok: "pmm_ok p" and nw: "unat a + unat n + 4095 < 2 ^ 64"
  shows "\<exists>p'. pmm_reserve p a n = Some p' \<and> pmm_ok p' \<and> (\<forall>pg. page_free p' pg \<longleftrightarrow> page_free p pg \<and> pg \<notin> range_pages (a, n))"
proof -
  have inv: "pmm_inv p" "\<not> page_free p 0" using ok by (simp_all add: pmm_ok_def)
  obtain p' where p': "pmm_reserve p a n = Some p'" "pmm_inv p'"
    and ab: "pmm_abs p' = (pmm_abs p)\<lparr>ft_used := used_frames p \<union> reserved_frames p a n, ft_free := g_free p'\<rparr>"
    using pmm_reserve_ok [OF inv(1) nw] by blast
  have "page_free p' pg \<longleftrightarrow> page_free p pg \<and> pg \<notin> range_pages (a, n)" for pg
    by (simp only: page_free_upd [OF ab]) (auto simp: page_free_def reserved_frames_def range_pages_def)
  then show ?thesis using p' inv(2) by (auto simp: pmm_ok_def)
qed

lemma reserve_ranges_pages:
  assumes "pmm_ok p" "\<forall>r \<in> set rs. unat (fst r) + unat (snd r) + 4095 < 2 ^ 64"
  shows "\<exists>p'. reserve_ranges p rs = Some p' \<and> pmm_ok p' \<and>
    (\<forall>pg. page_free p' pg \<longleftrightarrow> page_free p pg \<and> (\<forall>r \<in> set rs. pg \<notin> range_pages r))"
  using assms
proof (induction rs arbitrary: p)
  case (Cons r rs)
  obtain a n where r: "r = (a, n)" by fastforce
  obtain p1 where p1: "pmm_reserve p a n = Some p1" "pmm_ok p1" "\<forall>pg. page_free p1 pg \<longleftrightarrow> page_free p pg \<and> pg \<notin> range_pages (a, n)"
    using reserve_pages [OF Cons.prems(1), of a n] Cons.prems(2) r by auto
  then obtain p2 where "reserve_ranges p1 rs = Some p2" "pmm_ok p2"
    "\<forall>pg. page_free p2 pg \<longleftrightarrow> page_free p1 pg \<and> (\<forall>r \<in> set rs. pg \<notin> range_pages r)"
    using Cons.IH [OF p1(2)] Cons.prems(2) by auto
  then show ?case using p1 r by auto
qed auto

section \<open>Bytes of a page\<close>

lemma load64_byte: "load64 m a = load64 m' a \<Longrightarrow> i < 8 \<Longrightarrow> m (a + of_nat i) = m' (a + of_nat i)"
proof (rule bit_eqI)
  fix n
  assume "load64 m a = load64 m' a" and i: "i < 8" and "possible_bit TYPE(u8) n"
  then have n: "n < 8" and e: "bit (load64 m a) (8 * i + n) = bit (load64 m' a) (8 * i + n)" by simp_all
  show "bit (m (a + of_nat i)) n = bit (m' (a + of_nat i)) n"
    using e i n by (simp add: load64_def bit_load_le)
qed

lemma page_bytes:
  assumes e: "\<forall>j < 512. ent m (unat x div 4096) j = ent m' (unat x div 4096) j"
  shows "m x = m' x"
proof -
  define j i where "j = unat x mod 4096 div 8" and "i = unat x mod 8"
  have j: "j < 512" "i < 8" by (auto simp: j_def i_def)
  have "unat x mod 4096 = 8 * j + unat x mod 4096 mod 8" by (simp add: j_def)
  also have "unat x mod 4096 mod 8 = i" by (simp add: i_def mod_mod_cancel)
  finally have "unat x = 4096 * (unat x div 4096) + 8 * j + i" using mult_div_mod_eq [of 4096 "unat x"] by linarith
  then have "x = slot_addr (unat x div 4096) j + of_nat i"
    unfolding slot_addr_def by (metis of_nat_add of_nat_unat ucast_id)
  then show ?thesis using e j load64_byte by (metis ent_def)
qed

section \<open>Protection\<close>

text \<open>The bytes still needed when the allocator starts: the kernel image, the boot information (when its
  size is plausible) and the tables the processor walks.\<close>

definition needed :: "boot_env \<Rightarrow> memory \<Rightarrow> u64 \<Rightarrow> u64 \<Rightarrow> bool" where
  "needed env m mb x \<longleftrightarrow> kernel_start env \<le> x \<and> x < kernel_end env \<or>
     mb \<noteq> 0 \<and> unat (load32 m mb) < 2 ^ 24 \<and> unat mb \<le> unat x \<and> unat x < unat mb + unat (load32 m mb) \<or>
     (\<exists>t \<in> {cr3 env, loader_pdpt env m} \<union> (loader_pd env m ` {0..<4} - {0}). unat t \<le> unat x \<and> unat x < unat t + 4096)"

lemma range_pages_byte: "unat a \<le> unat x \<Longrightarrow> unat x < unat a + unat n \<Longrightarrow> unat x div 4096 \<in> range_pages (a, n)"
proof -
  assume x: "unat a \<le> unat x" "unat x < unat a + unat n"
  have "unat x div 4096 * 4096 \<le> unat x" by simp
  then have "(unat x div 4096 + 1) * 4096 \<le> unat a + unat n + 4095" using x(2) by simp
  then have "unat x div 4096 + 1 \<le> (unat a + unat n + 4095) div 4096" by (simp add: less_eq_div_iff_mult_less_eq)
  then show ?thesis using x(1) by (simp add: range_pages_def div_le_mono)
qed

lemma needed_reserved:
  assumes "needed env m mb x"
  shows "\<exists>r \<in> set (boot_ranges env m mb). unat x div 4096 \<in> range_pages r"
proof -
  consider (kernel) "kernel_start env \<le> x" "x < kernel_end env"
    | (info) "mb \<noteq> 0" "unat (load32 m mb) < 2 ^ 24" "unat mb \<le> unat x" "unat x < unat mb + unat (load32 m mb)"
    | (table) t where "t \<in> {cr3 env, loader_pdpt env m} \<union> (loader_pd env m ` {0..<4} - {0})" "unat t \<le> unat x" "unat x < unat t + 4096"
    using assms unfolding needed_def by blast
  then show ?thesis
  proof cases
    case kernel
    then have "unat (kernel_end env - kernel_start env) = unat (kernel_end env) - unat (kernel_start env)"
      by (intro unat_sub) simp
    then have "unat x div 4096 \<in> range_pages (kernel_start env, kernel_end env - kernel_start env)"
      using kernel by (intro range_pages_byte) (simp_all add: word_le_nat_alt word_less_nat_alt)
    moreover have "kernel_start env < kernel_end env" using kernel by simp
    ultimately show ?thesis by (auto simp: boot_ranges_def Let_def)
  next
    case info
    then have "unat x div 4096 \<in> range_pages (mb, ucast (load32 m mb))" by (intro range_pages_byte) simp_all
    moreover have "0 < load32 m mb" "load32 m mb < push_bit 20 16"
      using info by (auto simp: word_less_nat_alt)
    ultimately show ?thesis using info(1) by (auto simp: boot_ranges_def Let_def)
  next
    case table
    have "(t, 4096) \<in> set (boot_ranges env m mb)" using table(1) by (auto simp: boot_ranges_def Let_def)
    moreover have "unat x div 4096 \<in> range_pages (t, 4096)" using table by (intro range_pages_byte) simp_all
    ultimately show ?thesis by blast
  qed
qed

text \<open>
  C39. When the kernel has set up its memory, it runs on its own page tables, which map every address
  below 4 GiB to itself, and what was there before and is still needed has survived: the boot
  information, the kernel image and the loader's page tables keep their bytes, and no page of them is
  left to be handed out. This needs 2054 usable frames outside these ranges.
\<close>

theorem boot_protects_kernel:
  assumes p: "pmm_init m p0 mb False = Some p1" "pmm_ok p1"
    and nw: "\<forall>r \<in> set (boot_ranges env m mb). unat (fst r) + unat (snd r) + 4095 < 2 ^ 64"
    and n: "2054 \<le> card {pg. page_free p1 pg \<and> (\<forall>r \<in> set (boot_ranges env m mb). pg \<notin> range_pages r)}"
  shows "\<exists>s. boot_memory env m p0 mb = Some s \<and> vmm_ok s \<and> cpu_cr3 s = g_cr3_phys s \<and>
    (\<forall>va. unat va < 2 ^ 32 \<longrightarrow> vmm_virt_to_phys s va = Some va) \<and>
    (\<forall>x. needed env m mb x \<longrightarrow> \<not> page_free (vm_pmm s) (unat x div 4096) \<and> (unat x < 2 ^ 32 \<longrightarrow> vm_mem s x = m x))"
proof -
  let ?rs = "boot_ranges env m mb"
  obtain p2 where p2: "reserve_ranges p1 ?rs = Some p2" "pmm_ok p2"
    and fr: "\<forall>pg. page_free p2 pg \<longleftrightarrow> page_free p1 pg \<and> (\<forall>r \<in> set ?rs. pg \<notin> range_pages r)"
    using reserve_ranges_pages [OF p(2) nw] by blast
  let ?s = "\<lparr>vm_mem = m, vm_pmm = p2, g_cr3_phys = 0, cpu_cr3 = cr3 env\<rparr>"
  obtain s where s: "vmm_init_identity ?s = Some s" "vmm_ok s" "cpu_cr3 s = g_cr3_phys s"
    and x: "\<forall>vb. xlate (vm_mem s) (root_of s) (vpath vb) (vidx vb) = (if vpage vb < 1048576 then Some (low_pte (vpage vb)) else None)"
    and f: "\<forall>pg. page_free (vm_pmm s) pg \<longrightarrow> page_free p2 pg"
    and u: "\<forall>u j. u < pg_max \<longrightarrow> j < 512 \<longrightarrow> \<not> page_free p2 u \<longrightarrow> ent (vm_mem s) u j = ent m u j"
    using init_identity_ok [of ?s] p2(2) n fr by auto
  have keep: "\<not> page_free (vm_pmm s) (unat y div 4096) \<and> (unat y < 2 ^ 32 \<longrightarrow> vm_mem s y = m y)" if y: "needed env m mb y" for y
  proof -
    have nf: "\<not> page_free p2 (unat y div 4096)" using needed_reserved [OF y] fr by blast
    moreover have "vm_mem s y = m y" if "unat y < 2 ^ 32"
    proof (rule page_bytes)
      have "unat y div 4096 < pg_max" using that by (simp add: div_less_iff_less_mult)
      then show "\<forall>j < 512. ent (vm_mem s) (unat y div 4096) j = ent m (unat y div 4096) j" using u nf by blast
    qed
    ultimately show ?thesis using f by blast
  qed
  have "boot_memory env m p0 mb = Some s" using p p2(1) s(1) by (simp add: boot_memory_def)
  then show ?thesis using s(2,3) keep identity_translates [OF s(2) x] by blast
qed

definition demo_boot :: boot_env where
  "demo_boot = \<lparr>cpuid = (\<lambda>_ _. \<lparr>eax = 0, ebx = 0, ecx = 0, edx = 0\<rparr>), cr3 = 0x2000, kernel_start = 0x200000, kernel_end = 0x300000,
     early_heap = 0x280000, mbr_at = 0x2F0000, disp_at = 0x2F1000, kb_at = 0x2F2000, stacks_at = 0x2F3000, trampoline_at = 0x200100,
     boot_rsp = 0x2FF000, shell_entry = 0x200200, start_ret = 0x200300,
     env_shell = \<lparr>line_at = 0x5000, cat_at = 0x6000, dump_at = 0x7000, fill_at = 0x8000, sec_at = 0x3000, yield_ret = 0,
       pci_ports = (\<lambda>_. 0xFFFFFFFF), seed_disks = True\<rparr>\<rparr>"

lemma demo_ranges: "boot_ranges demo_boot demo_mb2 0x1000 = [(0x1000, 0x38), (0x200000, 0x100000), (0x2000, 4096), (0, 4096)]"
proof -
  have z: "load64 demo_mb2 0x2000 = 0" "load64 demo_mb2 0 = 0" "load64 demo_mb2 8 = 0" "load64 demo_mb2 16 = 0" "load64 demo_mb2 24 = 0"
    by (simp_all add: demo_mb2_def load64_def load_le_numeral)
  then show ?thesis by (simp add: boot_ranges_def demo_boot_def loader_pdpt_def loader_pd_def demo_mb2_tags upt_rec)
qed

lemma demo_init:
  "\<exists>p1. pmm_init demo_mb2 demo_pmm 0x1000 False = Some p1 \<and> pmm_ok p1 \<and>
     2054 \<le> card {pg. page_free p1 pg \<and> (\<forall>r \<in> set (boot_ranges demo_boot demo_mb2 0x1000). pg \<notin> range_pages r)}"
proof -
  obtain p1 where p1: "pmm_init demo_mb2 demo_pmm 0x1000 False = Some p1" "pmm_inv p1"
    and f: "\<forall>pg. page_free p1 pg \<longleftrightarrow> pg \<in> region_pages \<lparr>r_base = 0x100000, r_len = 0x1000000\<rparr> \<and> 256 \<le> pg \<and> pg \<noteq> unat (g_bitmap_base p1) div 4096"
    using pmm_init_regions [OF demo_mb2_parse] by (auto simp: pairwise_def pmm_reset_def region_ok_def)
  have "pmm_ok p1" using p1(2) f by (simp add: pmm_ok_def)
  moreover have "{768..<4352} - {unat (g_bitmap_base p1) div 4096} \<subseteq>
      {pg. page_free p1 pg \<and> (\<forall>r \<in> set (boot_ranges demo_boot demo_mb2 0x1000). pg \<notin> range_pages r)}"
    unfolding f [rule_format] by (auto simp: demo_ranges range_pages_def region_pages_def)
  then have "card ({768..<4352} - {unat (g_bitmap_base p1) div 4096}) \<le>
      card {pg. page_free p1 pg \<and> (\<forall>r \<in> set (boot_ranges demo_boot demo_mb2 0x1000). pg \<notin> range_pages r)}"
    using f by (intro card_mono) (auto intro: finite_subset [of _ "{256..<4352}"] simp: region_pages_def)
  moreover have "2054 \<le> card ({768..<4352} - {unat (g_bitmap_base p1) div 4096})"
    by (simp add: card_Diff_singleton_if)
  ultimately show ?thesis using p1(1) by (meson order_trans)
qed

theorem boot_protects_kernel_witness:
  "\<exists>s. boot_memory demo_boot demo_mb2 demo_pmm 0x1000 = Some s \<and> vmm_virt_to_phys s 0x200123 = Some 0x200123 \<and>
     \<not> page_free (vm_pmm s) 0x200 \<and> vm_mem s 0x1008 = 6"
proof -
  obtain p1 where p1: "pmm_init demo_mb2 demo_pmm 0x1000 False = Some p1" "pmm_ok p1"
    "2054 \<le> card {pg. page_free p1 pg \<and> (\<forall>r \<in> set (boot_ranges demo_boot demo_mb2 0x1000). pg \<notin> range_pages r)}"
    using demo_init by blast
  have "\<forall>r \<in> set (boot_ranges demo_boot demo_mb2 0x1000). unat (fst r) + unat (snd r) + 4095 < 2 ^ 64" by (simp add: demo_ranges)
  from boot_protects_kernel [OF p1(1,2) this p1(3)] obtain s where s: "boot_memory demo_boot demo_mb2 demo_pmm 0x1000 = Some s"
    "\<forall>va. unat va < 2 ^ 32 \<longrightarrow> vmm_virt_to_phys s va = Some va"
    "\<forall>x. needed demo_boot demo_mb2 0x1000 x \<longrightarrow> \<not> page_free (vm_pmm s) (unat x div 4096) \<and> (unat x < 2 ^ 32 \<longrightarrow> vm_mem s x = demo_mb2 x)"
    by blast
  have "needed demo_boot demo_mb2 0x1000 0x200123" by (simp add: needed_def demo_boot_def)
  then have "\<not> page_free (vm_pmm s) 0x200" using s(3) by fastforce
  moreover have "needed demo_boot demo_mb2 0x1000 0x1008" by (simp add: needed_def demo_mb2_tags)
  then have "vm_mem s 0x1008 = demo_mb2 0x1008" using s(3) by fastforce
  ultimately show ?thesis using s(1,2) by (auto simp: demo_mb2_def)
qed

end
