(* ===== verification/Boot_Modules.thy ===== *)
theory Boot_Modules
  imports Boot_Correct "HOL-Library.Sublist"
begin

text \<open>
  The modules of the boot information and the disk the kernel makes of one: which module the search of
  \<open>kmain64\<close> picks, read from the tags and their strings, and what mounting a disk as exFAT gives.
\<close>

section \<open>The strings of the modules\<close>

text \<open>A module's string: the bytes after the tag's fixed part, up to the first NUL.\<close>

definition mod_chars :: "memory \<Rightarrow> u64 \<Rightarrow> string" where
  "mod_chars m t = chars_at m (mb2_mod_string t) (unat (tag_size m t) - 16)"

definition mod_name :: "memory \<Rightarrow> u64 \<Rightarrow> string" where
  "mod_name m t = takeWhile (\<lambda>c. c \<noteq> CHR 0x00) (mod_chars m t)"

text \<open>A NUL-terminated string in memory.\<close>

fun str_at :: "memory \<Rightarrow> u64 \<Rightarrow> string \<Rightarrow> bool" where
  "str_at m a [] \<longleftrightarrow> m a = 0"
| "str_at m a (c # s) \<longleftrightarrow> c \<noteq> CHR 0x00 \<and> char_of (unat (m a)) = c \<and> str_at m (a + 1) s"

lemma char_byte: "char_of (unat (b :: u8)) = c \<longleftrightarrow> unat b = of_char c"
  using u8_bound [of b] by (simp add: char_of_eq_iff take_bit_nat_eq_self)

lemma char_byte_nul: "char_of (unat (b :: u8)) = CHR 0x00 \<longleftrightarrow> b = 0" "CHR 0x00 = char_of (unat b) \<longleftrightarrow> b = 0"
  using char_byte [of b "CHR 0x00"] by (auto simp: unat_eq_0 simp del: char_of_eq_iff)

lemma str_at_takeWhile:
  "CHR 0x00 \<in> set (chars_at m a n) \<Longrightarrow> str_at m a (takeWhile (\<lambda>c. c \<noteq> CHR 0x00) (chars_at m a n))"
proof (induction n arbitrary: a)
  case (Suc n)
  have "chars_at m a (Suc n) = char_of (unat (m a)) # chars_at m (a + 1) n"
    by (simp add: chars_at_def upt_conv_Cons map_Suc_upt [symmetric] add.assoc comp_def del: upt_Suc)
  then show ?case using Suc by (auto simp: char_byte_nul)
qed (simp add: chars_at_def)

lemma prefix_str_at:
  assumes "str_at m a s" "CHR 0x00 \<notin> set p"
  shows "prefix p s \<longleftrightarrow> (\<forall>i < length p. char_of (unat (m (a + of_nat i))) = p ! i)"
  using assms
proof (induction p arbitrary: a s)
  case (Cons c p)
  have split: "(\<forall>i < length (c # p). char_of (unat (m (a + of_nat i))) = (c # p) ! i) \<longleftrightarrow>
      char_of (unat (m a)) = c \<and> (\<forall>i < length p. char_of (unat (m (a + 1 + of_nat i))) = p ! i)"
    by (simp add: All_less_Suc2 add.assoc)
  show ?case
  proof (cases s)
    case Nil
    then have "char_of (unat (m a)) = CHR 0x00" using Cons.prems(1) char_byte_nul(1) [of "m a"] by auto
    then show ?thesis using Nil Cons.prems(2) unfolding split by auto
  next
    case (Cons x xs)
    then show ?thesis unfolding split using Cons.IH [of "a + 1" xs] Cons.prems by auto
  qed
qed simp

lemma has_root_str:
  "str_at m a s \<Longrightarrow> has_root m a = Some (sublist ''root'' s)"
proof (induction s arbitrary: a)
  case Nil
  then show ?case by (subst has_root.simps) simp
next
  case (Cons c s)
  have all4: "(\<forall>i < length ''root''. P i) \<longleftrightarrow> P 0 \<and> P 1 \<and> P 2 \<and> P 3" for P :: "nat \<Rightarrow> bool"
    by (auto simp: less_Suc_eq numeral_eq_Suc)
  have "prefix ''root'' (c # s) \<longleftrightarrow> m a = 114 \<and> m (a + 1) = 111 \<and> m (a + 2) = 111 \<and> m (a + 3) = 116"
    by (subst prefix_str_at [OF Cons.prems], simp, subst all4) (simp add: char_byte word_unat_eq_iff)
  moreover have "m a \<noteq> 0" using Cons.prems char_byte_nul(1) [of "m a"] by auto
  ultimately show ?case using Cons by (subst has_root.simps) (auto simp: sublist_Cons_right)
qed

section \<open>The search for the root module\<close>

text \<open>The tags from \<open>t\<close> to the end tag; at most \<open>n\<close> are looked at.\<close>

fun boot_tags :: "memory \<Rightarrow> nat \<Rightarrow> u64 \<Rightarrow> u64 list option" where
  "boot_tags m 0 t = None"
| "boot_tags m (Suc n) t = (if tag_type m t = MB2_TAG_END then Some [t] else map_option (Cons t) (boot_tags m n (mb2_next_tag m t)))"

text \<open>A tag whose header is in \<open>S\<close>, and of a module everything, with a string that ends inside.\<close>

definition tag_ok :: "memory \<Rightarrow> u64 set \<Rightarrow> u64 \<Rightarrow> bool" where
  "tag_ok m S t \<longleftrightarrow> t \<noteq> 0 \<and> bytes_at t 8 \<subseteq> S \<and> (tag_type m t = MB2_TAG_MODULE \<longrightarrow>
     unat t + unat (tag_size m t) < 2 ^ 64 \<and> bytes_at t (unat (tag_size m t)) \<subseteq> S \<and> CHR 0x00 \<in> set (mod_chars m t))"

definition root_module :: "memory \<Rightarrow> u64 list \<Rightarrow> u64 option" where
  "root_module m ts = find (\<lambda>t. tag_type m t = MB2_TAG_MODULE \<and> sublist ''root'' (mod_name m t)) ts"

lemma tag_cong:
  assumes "bytes_at t 8 \<subseteq> S" "\<forall>x \<in> S. m' x = m x"
  shows "tag_type m' t = tag_type m t" "tag_size m' t = tag_size m t" "mb2_next_tag m' t = mb2_next_tag m t"
proof -
  have b: "m' (t + of_nat i) = m (t + of_nat i)" if "i < 8" for i
    using bytes_at_offset [of i 8 t] that assms by auto
  have "load32 m' t = load32 m t" "load32 m' (t + 4) = load32 m (t + 4)"
    using b [of 0] b [of 1] b [of 2] b [of 3] b [of 4] b [of 5] b [of 6] b [of 7]
    by (simp_all add: load32_def load_le_numeral add.assoc)
  then show "tag_type m' t = tag_type m t" "tag_size m' t = tag_size m t" "mb2_next_tag m' t = mb2_next_tag m t"
    by (simp_all add: tag_type_def mb2_next_tag_def tag_size_def)
qed

lemma module_cong:
  assumes t: "tag_ok m S t" "tag_type m t = MB2_TAG_MODULE" and eq: "\<forall>x \<in> S. m' x = m x"
  shows "module_matches m' t = Some (sublist ''root'' (mod_name m t))"
    "mb2_mod_start m' t = mb2_mod_start m t" "mb2_mod_end m' t = mb2_mod_end m t"
proof -
  let ?n = "unat (tag_size m t)"
  have nul: "CHR 0x00 \<in> set (mod_chars m t)" and ok: "unat t + ?n < 2 ^ 64" "bytes_at t 8 \<subseteq> S" "bytes_at t ?n \<subseteq> S"
    using t by (auto simp: tag_ok_def)
  then have n: "16 < ?n" by (cases "?n - 16") (auto simp: mod_chars_def chars_at_def)
  have b: "m' (t + of_nat i) = m (t + of_nat i)" if "i < ?n" for i
    using bytes_at_offset [of i ?n t] that eq ok(3) u32_bound [of "tag_size m t"] by auto
  have "mod_chars m' t = mod_chars m t"
    unfolding mod_chars_def chars_at_def mb2_mod_string_def tag_cong(2) [OF ok(2) eq]
  proof (rule map_cong [OF refl])
    fix i
    assume "i \<in> set [0..<?n - 16]"
    then have "m' (t + of_nat (16 + i)) = m (t + of_nat (16 + i))" by (intro b) auto
    then show "char_of (unat (m' (t + 16 + of_nat i))) = (char_of (unat (m (t + 16 + of_nat i))) :: char)" by (simp add: add.assoc)
  qed
  then have "str_at m' (mb2_mod_string t) (mod_name m t)"
    using str_at_takeWhile [of m' "mb2_mod_string t" "?n - 16"] nul
    by (simp add: mod_name_def mod_chars_def tag_cong(2) [OF ok(2) eq])
  moreover have "unat (t + 16) = unat t + 16" using ok(1) n by (subst unat_add_small) simp_all
  then have "mb2_mod_string t \<noteq> 0" by (auto simp: mb2_mod_string_def)
  ultimately show "module_matches m' t = Some (sublist ''root'' (mod_name m t))"
    by (simp add: module_matches_def has_root_str)
  have ld: "load32 m' (t + of_nat k) = load32 m (t + of_nat k)" if "k + 4 \<le> ?n" for k
    unfolding load32_def
  proof (rule load_le_shift)
    fix i :: nat
    assume "i < 4"
    then show "m' (t + of_nat k + of_nat i) = m (t + of_nat k + of_nat i)" using b [of "k + i"] that by (simp add: add.assoc)
  qed
  show "mb2_mod_start m' t = mb2_mod_start m t" "mb2_mod_end m' t = mb2_mod_end m t"
    using ld [of 8] ld [of 12] n by (simp_all add: mb2_mod_start_def mb2_mod_end_def)
qed

lemma module_loop_finds:
  assumes eq: "\<forall>x \<in> S. b_mem (v_block v) x = m x" and "boot_tags m n t = Some ts" "\<forall>t \<in> set ts. tag_ok m S t"
  shows "module_loop env v t = (case root_module m ts of None \<Rightarrow> Some (v, False, []) | Some t \<Rightarrow> mount_module env v t)"
  using assms(2-)
proof (induction n arbitrary: t ts)
  case (Suc n)
  have "t \<in> set ts" using Suc.prems(1) by (auto split: if_splits)
  then have ok: "tag_ok m S t" using Suc.prems(2) by simp
  then have t: "t \<noteq> 0" "bytes_at t 8 \<subseteq> S" by (simp_all add: tag_ok_def)
  note c = tag_cong [OF t(2) eq]
  show ?case
  proof (cases "tag_type m t = MB2_TAG_END")
    case True
    then have "ts = [t]" using Suc.prems(1) by simp
    then show ?thesis using True by (subst module_loop.simps) (simp add: c root_module_def mb2_tag_ids)
  next
    case False
    then obtain us where us: "ts = t # us" "boot_tags m n (mb2_next_tag m t) = Some us" using Suc.prems(1) by auto
    have "module_loop env v (mb2_next_tag m t) = (case root_module m us of None \<Rightarrow> Some (v, False, []) | Some t \<Rightarrow> mount_module env v t)"
      using Suc.IH [OF us(2)] Suc.prems(2) us(1) by simp
    then show ?thesis using False ok t(1) module_cong(1) [OF ok _ eq] us(1)
      by (subst module_loop.simps) (auto simp: c root_module_def)
  qed
qed simp

section \<open>Mounting a disk\<close>

text \<open>The volume on a disk: described by its first sector, or with the default layout.\<close>

definition volume_of :: "memory \<Rightarrow> block_device \<Rightarrow> exfat_fs option" where
  "volume_of m d = (if is_exfat_vbr (disk_view d m) 0 then vbr_geometry (disk_view d m) 0 d else Some (default_geometry d))"

lemma volume_cong:
  assumes "\<And>k. k < 512 \<Longrightarrow> m' (a' + of_nat k) = m (a + of_nat k)"
  shows "is_exfat_vbr m' a' = is_exfat_vbr m a" "vbr_geometry m' a' d = vbr_geometry m a d"
proof -
  have "map (\<lambda>k. m' (a' + of_nat (3 + k))) [0..<8] = map (\<lambda>k. m (a + of_nat (3 + k))) [0..<8]"
    using assms by (intro map_cong [OF refl]) (simp del: of_nat_add)
  then show "is_exfat_vbr m' a' = is_exfat_vbr m a" unfolding is_exfat_vbr_def by (rule arg_cong)
  have ld: "load32 m' (a' + of_nat k) = load32 m (a + of_nat k)" if "k + 4 \<le> 512" for k
    unfolding load32_def
  proof (rule load_le_shift)
    fix i :: nat
    assume "i < 4"
    then show "m' (a' + of_nat k + of_nat i) = m (a + of_nat k + of_nat i)" using assms [of "k + i"] that by (simp add: add.assoc)
  qed
  show "vbr_geometry m' a' d = vbr_geometry m a d"
    using ld [of 128] ld [of 132] ld [of 136] ld [of 160] assms [of 108] assms [of 109] by (simp add: vbr_geometry_def Let_def)
qed

lemma exfat_mount_volume:
  assumes d: "dev_ok d" "dev_ss d = 512" "0 < dev_sectors d" and sec: "sec \<noteq> 0" "bytes_at sec 512 \<inter> dev_bytes d = {}"
    and h: "heap_room (b_heap b) (R + 112)" and g: "volume_of (b_mem b) d = Some g"
  shows "\<exists>b'. exfat_mount sec b (Some d) mn = Some (b', 0, Priv_Exfat g) \<and> g_devs b' = g_devs b \<and>
    (\<forall>x. x \<notin> bytes_at sec 512 \<longrightarrow> b_mem b' x = b_mem b x)"
proof -
  let ?m1 = "\<lambda>x. if x \<in> bytes_at sec 512 then b_mem b (dev_at d (unat (x - sec))) else b_mem b x"
  obtain h1 q where k: "kmalloc (b_heap b) SIZEOF_EXFAT_FS = Some (h1, q)" "q \<noteq> 0" "heap_room h1 R"
    by (rule kmalloc_room [OF h, of R SIZEOF_EXFAT_FS]) (auto simp: SIZEOF_EXFAT_FS_def round16_def)
  have sub: "{0..<512} \<subseteq> {..<dev_sectors d * 512}" using d(3) by auto
  have "bytes_at sec (unat (1 :: u32) * dev_ss d) \<inter>
      dev_at d ` {unat (0 :: u64) * dev_ss d..<(unat (0 :: u64) + unat (1 :: u32)) * dev_ss d} = {}"
    using sec(2) sub unfolding dev_bytes_def d(2) by auto
  from blk.rd_ok [OF d(1) _ _ sec(1) _ this] d(3) have rd: "dev_read d (b_mem b) 0 sec 1 = (?m1, 1)"
    unfolding d(2) by (simp add: fun_eq_iff)
  have nops: "dev_driver d \<noteq> No_Ops" "sector_size d = 512"
    using dev_ok_ops [OF d(1)] d(2) by (simp_all add: dev_geom word_unat_eq_iff)
  have "?m1 (sec + of_nat i) = disk_view d (b_mem b) (0 + of_nat i)" if "i < 512" for i
    using that by (simp add: disk_view_def bytes_at_def u64_of_nat_unat)
  note c = volume_cong [of ?m1 sec "disk_view d (b_mem b)" 0, OF this]
  show ?thesis using k nops g by (auto simp: exfat_mount_def rd c volume_of_def split: if_splits)
qed

section \<open>The disk of a module\<close>

text \<open>The read-only disk over a module's memory, if its extent is one the driver accepts.\<close>

definition module_disk :: "memory \<Rightarrow> u64 \<Rightarrow> block_device option" where
  "module_disk m t =
     (let start = mb2_mod_start m t; n = mb2_mod_end m t - start
      in if start \<noteq> 0 \<and> start < mb2_mod_end m t \<and> unat n mod 512 = 0
         then Some (Block_Device ''iso0'' 512 (n div 512) (Memdisk start n False)) else None)"

definition root_disk :: "memory \<Rightarrow> u64 list \<Rightarrow> block_device option" where
  "root_disk m ts = Option.bind (root_module m ts) (module_disk m)"

lemma module_disk_ok:
  assumes "module_disk m t = Some r"
  shows "dev_ok r" "dev_ss r = 512" "0 < dev_sectors r" "dev_name r = ''iso0''"
proof -
  let ?s = "mb2_mod_start m t" and ?e = "mb2_mod_end m t"
  have r: "?s < ?e" "unat (?e - ?s) mod 512 = 0" "r = Block_Device ''iso0'' 512 ((?e - ?s) div 512) (Memdisk ?s (?e - ?s) False)"
    using assms by (auto simp: module_disk_def Let_def split: if_splits)
  have u: "unat (?e - ?s) = unat ?e - unat ?s" "unat ?s < unat ?e"
    using r(1) by (simp_all add: unat_sub word_less_nat_alt order_less_imp_le)
  have q: "unat ((?e - ?s) div 512) = unat (?e - ?s) div 512" by (simp add: unat_div)
  have "unat ?s + unat (?e - ?s) \<le> 2 ^ 64" using u u64_bound [of ?e] by simp
  then show "dev_ok r" "dev_ss r = 512" "0 < dev_sectors r" "dev_name r = ''iso0''"
    using r(2,3) u q by (auto simp: dev_geom div_greater_zero_iff intro!: Nat.gr0I)
qed

lemma memdisk_register_disk:
  assumes r: "module_disk m t = Some r" and h: "heap_room (b_heap b) (R + 192)"
  shows "\<exists>b'. memdisk_register b ''iso0'' (mb2_mod_start m t) (mb2_mod_end m t - mb2_mod_start m t) 512 False = Some (b', 0) \<and>
    g_devs b' = r # g_devs b \<and> b_mem b' = b_mem b \<and> heap_room (b_heap b') R"
proof -
  let ?s = "mb2_mod_start m t" and ?e = "mb2_mod_end m t"
  have d: "?s \<noteq> 0" "?s < ?e" "unat (?e - ?s) mod 512 = 0" "r = Block_Device ''iso0'' 512 ((?e - ?s) div 512) (Memdisk ?s (?e - ?s) False)"
    using r by (auto simp: module_disk_def Let_def split: if_splits)
  obtain h1 r1 where k1: "kmalloc (b_heap b) SIZEOF_BLOCK_DEVICE = Some (h1, r1)" "r1 \<noteq> 0" "heap_room h1 (R + 80)"
    by (rule kmalloc_room [OF h, of "R + 80" SIZEOF_BLOCK_DEVICE]) (auto simp: SIZEOF_BLOCK_DEVICE_def round16_def)
  obtain h2 r2 where k2: "kmalloc h1 SIZEOF_MEMDISK_PRIV = Some (h2, r2)" "r2 \<noteq> 0" "heap_room h2 R"
    by (rule kmalloc_room [OF k1(3), of R SIZEOF_MEMDISK_PRIV]) (auto simp: SIZEOF_MEMDISK_PRIV_def round16_def)
  have "(?e - ?s) mod 512 = 0" using d(3) by (simp add: word_unat_eq_iff unat_mod)
  moreover have "?e - ?s \<noteq> 0" using d(2) by auto
  ultimately show ?thesis using d k1 k2 by (auto simp: memdisk_register_def block_register_def)
qed

lemma memdisk_register_refused:
  assumes "module_disk m t = None" "mb2_mod_start m t < mb2_mod_end m t"
  shows "memdisk_register b ''iso0'' (mb2_mod_start m t) (mb2_mod_end m t - mb2_mod_start m t) 512 False = Some (b, -1)"
  using assms by (auto simp: module_disk_def memdisk_register_def Let_def word_unat_eq_iff unat_mod)

end
