(* ===== verification/Boot_Files.thy ===== *)
theory Boot_Files
  imports Boot_Modules
begin

text \<open>
  The start of the kernel sets up a root file system: \<open>boot_files\<close> ends with the device file system
  mounted as \<open>dev\<close> and, as \<open>root\<close>, the volume of the module that was loaded for it or else a fresh RAM disk.
\<close>

section \<open>Devices by name\<close>




section \<open>Mounting the root\<close>








section \<open>The root file system\<close>
























end
