(* ===== verification/Kmain32.thy ===== *)
theory Kmain32
  imports Devices Console_Correct
begin

text \<open>
  Serial output of the 32-bit kernel (\<open>kernel/kmain.c\<close>), as the characters sent: line ends as CR LF,
  numbers in hexadecimal and decimal, sizes in the largest unit. Each character is sent as
  \<open>serial_send\<close> does.
\<close>

definition serial_init32 :: "port_io list" where
  "serial_init32 = [Out (0x3F8 + 1) 0x00, Out (0x3F8 + 3) 0x80, Out (0x3F8 + 0) 0x03, Out (0x3F8 + 1) 0x00,
     Out (0x3F8 + 3) 0x03, Out (0x3F8 + 2) 0xC7, Out (0x3F8 + 4) 0x0B]"

definition serial_is_transmit_empty :: "u8 \<Rightarrow> bool" where
  "serial_is_transmit_empty lsr \<longleftrightarrow> lsr AND 0x20 \<noteq> 0"

fun serial_write_char :: "u8 list \<Rightarrow> char \<Rightarrow> (u8 list \<times> port_io list) option" where
  "serial_write_char [] a = None"
| "serial_write_char (v # vs) a =
     (if serial_is_transmit_empty v then Some (vs, [In (0x3F8 + 5) v, Out 0x3F8 (of_char a)])
      else do { (vs1, io) \<leftarrow> serial_write_char vs a; Some (vs1, In (0x3F8 + 5) v # io) })"

fun serial_write :: "string \<Rightarrow> string" where
  "serial_write [] = []"
| "serial_write (c # s) = (if c = CHR 0x0A then [CHR 0x0D, c] else [c]) @ serial_write s"

definition print_u64_hex :: "u64 \<Rightarrow> string" where
  "print_u64_hex v = serial_write (''0x'' @ map (\<lambda>i. ''0123456789ABCDEF'' ! unat (drop_bit ((15 - i) * 4) v AND 0xF)) [0..<16])"

text \<open>At most \<open>n\<close> digits, least significant first.\<close>

fun dec32_loop :: "nat \<Rightarrow> u32 \<Rightarrow> string" where
  "dec32_loop 0 x = []"
| "dec32_loop (Suc n) x = (if x > 0 then char_of (48 + unat (x mod 10)) # dec32_loop n (x div 10) else [])"

definition print_u32_dec :: "u32 \<Rightarrow> string" where
  "print_u32_dec x = (if x = 0 then serial_write ''0'' else concat (map (\<lambda>c. serial_write [c]) (rev (dec32_loop 16 x))))"

definition print_human_bytes :: "u64 \<Rightarrow> string" where
  "print_human_bytes bytes =
     (let kib = ucast (drop_bit 10 bytes) :: u32; mib = ucast (drop_bit 20 bytes) :: u32; gib = ucast (drop_bit 30 bytes) :: u32
      in serial_write '' (~'' @
         (if gib > 0 then print_u32_dec gib @ serial_write '' GiB''
          else if mib > 0 then print_u32_dec mib @ serial_write '' MiB''
          else print_u32_dec kib @ serial_write '' KiB'') @ serial_write '')'')"

section \<open>The same output as the 64-bit kernel\<close>

lemma serial_write_char_send: "serial_write_char vs a = serial_send vs a"
  by (induction vs) (auto simp: serial_send_def serial_is_transmit_empty_def COM_LSR_THRE_def COM_LSR_def COM1_BASE_def split: Option.bind_splits)

lemma serial_write_plain: "CHR 0x0A \<notin> set s \<Longrightarrow> serial_write s = s"
  by (induction s) auto

lemma serial_write_append: "serial_write (s @ t) = serial_write s @ serial_write t"
  by (induction s) auto

lemma hex_digit_plain: "unat n < 16 \<Longrightarrow> hex_digit n \<noteq> CHR 0x0A"
proof -
  assume "unat n < 16"
  then have "hex_digit n \<in> set ''0123456789ABCDEF''" unfolding hex_digit_def by (intro nth_mem) simp
  then show ?thesis by auto
qed

lemma print_u64_hex_digits: "print_u64_hex v = ''0x'' @ hex_digits v"
proof -
  have r: "map (\<lambda>i. hex_digit (drop_bit ((15 - i) * 4) v AND 0xF)) [0..<16] = hex_digits v"
    by (simp add: hex_digits_def upt_rec numeral_eq_Suc)
  have "unat (w AND 0xF) < 16" for w :: u64
    using word_and_le1 [of w "0xF"] by (simp add: word_le_nat_alt)
  then have "CHR 0x0A \<notin> set (hex_digits v)" unfolding hex_digits_def using hex_digit_plain by fastforce
  then show ?thesis using r by (simp add: print_u64_hex_def serial_write_append serial_write_plain hex_digit_def [symmetric])
qed

lemma dec32_loop_dec: "dec32_loop n x = dec_loop n (ucast x)"
proof (induction n arbitrary: x)
  case (Suc n)
  have "unat (ucast x mod 10 :: u64) = unat (x mod 10)" "(ucast (x div 10) :: u64) = ucast x div 10"
    by (simp_all add: unat_mod unat_div word_unat_eq_iff)
  moreover have "(0 < (ucast x :: u64)) = (0 < x)" by (simp add: word_less_nat_alt)
  ultimately show ?case using Suc [of "x div 10"] by simp
qed simp

section \<open>Sizes\<close>

text \<open>The decimal numeral and the unit: from 1 GiB on GiB, from 1 MiB on MiB, else KiB, rounded down.
  The cuts to 32 bits lose nothing for sizes below 4 EiB.\<close>

lemma serial_write_chars: "concat (map (\<lambda>c. serial_write [c]) s) = serial_write s"
  by (induction s) auto

lemma print_u32_dec_value: "numeral_value 10 (print_u32_dec x) = unat x"
proof (cases "x = 0")
  case False
  have "CHR 0x0A \<notin> set (rev (dec_loop 16 (ucast x)))"
    using dec_loop_digits [of 16 "ucast x"] by (auto simp: dec_alphabet_def)
  then have "print_u32_dec x = rev (dec_loop 16 (ucast x))"
    unfolding print_u32_dec_def serial_write_chars dec32_loop_dec using False serial_write_plain by simp
  moreover have "unat (ucast x :: u64) < 10 ^ 16" using unsigned_less [of x, where 'a = nat] by simp
  ultimately show ?thesis using dec_loop_value [of "ucast x" 16] by (simp add: numeral_value_def foldl_conv_foldr)
qed (simp add: print_u32_dec_def numeral_value_def digit_def)

lemma print_human_bytes_unit:
  assumes "unat bytes < 2 ^ 62"
    and n: "(n, u) = (if 2 ^ 30 \<le> unat bytes then (unat bytes div 2 ^ 30, '' GiB'')
      else if 2 ^ 20 \<le> unat bytes then (unat bytes div 2 ^ 20, '' MiB'') else (unat bytes div 2 ^ 10, '' KiB''))"
  shows "\<exists>ds. print_human_bytes bytes = '' (~'' @ ds @ u @ '')'' \<and> numeral_value 10 ds = n"
proof -
  have cut: "unat (ucast (drop_bit k bytes) :: u32) = unat bytes div 2 ^ k" if "unat bytes < 2 ^ (k + 32)" for k
  proof -
    have "unat (drop_bit k bytes) = unat bytes div 2 ^ k"
      using unsigned_less [of bytes, where 'a = nat] unfolding unsigned_drop_bit_eq drop_bit_eq_div [symmetric] by (simp add: take_bit_nat_eq_self)
    moreover have "unat bytes div 2 ^ k < 2 ^ 32" using that by (intro less_mult_imp_div_less) (simp add: power_add mult.commute)
    ultimately show ?thesis unfolding unsigned_ucast_eq by (simp add: take_bit_nat_eq_self)
  qed
  have g: "unat (ucast (drop_bit 30 bytes) :: u32) = unat bytes div 2 ^ 30" using assms(1) by (intro cut) simp
  have gz: "(0 < (ucast (drop_bit 30 bytes) :: u32)) = (2 ^ 30 \<le> unat bytes)" unfolding word_less_nat_alt g by (simp add: div_greater_zero_iff)
  have w: "serial_write '' (~'' = '' (~''" "serial_write '' GiB'' = '' GiB''" "serial_write '' MiB'' = '' MiB''" "serial_write '' KiB'' = '' KiB''" "serial_write '')'' = '')''"
    by (simp_all add: serial_write_plain)
  show ?thesis
  proof (cases "2 ^ 30 \<le> unat bytes")
    case True
    then show ?thesis using n gz g by (auto simp: print_human_bytes_def w print_u32_dec_value)
  next
    case False
    have c: "unat (ucast (drop_bit 20 bytes) :: u32) = unat bytes div 2 ^ 20" "unat (ucast (drop_bit 10 bytes) :: u32) = unat bytes div 2 ^ 10"
      using False by (intro cut; simp)+
    have mz: "(0 < (ucast (drop_bit 20 bytes) :: u32)) = (2 ^ 20 \<le> unat bytes)" unfolding word_less_nat_alt c by (simp add: div_greater_zero_iff)
    show ?thesis using n gz mz c False by (auto simp: print_human_bytes_def w print_u32_dec_value Let_def)
  qed
qed

end
