(* ===== verification/Uefi.thy ===== *)
theory Uefi
  imports Lib_Mem
begin

text \<open>
  The UEFI program (\<open>uefi/efi_main.c\<close>, \<open>uefi/efi_utils.h\<close>): it converts a greeting to UTF-16 and passes it
  to the console of the firmware. The firmware's tables are read from memory; a call of one of its
  functions is the value \<open>fw_call\<close>, since what the function does is not part of the program.
\<close>

section \<open>The tables\<close>

record efi_table_header =
  Signature :: u64
  Revision :: u32
  HeaderSize :: u32
  CRC32 :: u32
  Reserved :: u32

record efi_text_output =
  Reset :: u64
  OutputString :: u64

record efi_system_table =
  Hdr :: efi_table_header
  FirmwareVendor :: u64
  FirmwareRevision :: u32
  ConsoleInHandle :: u64
  ConIn :: u64
  ConsoleOutHandle :: u64
  ConOut :: u64
  StandardErrorHandle :: u64
  StdErr :: u64

definition header_at :: "memory \<Rightarrow> u64 \<Rightarrow> efi_table_header" where
  "header_at m a = \<lparr>Signature = load64 m a, Revision = load32 m (a + 8), HeaderSize = load32 m (a + 12),
     CRC32 = load32 m (a + 16), Reserved = load32 m (a + 20)\<rparr>"

definition text_output_at :: "memory \<Rightarrow> u64 \<Rightarrow> efi_text_output" where
  "text_output_at m a = \<lparr>Reset = load64 m a, OutputString = load64 m (a + 8)\<rparr>"

definition system_table_at :: "memory \<Rightarrow> u64 \<Rightarrow> efi_system_table" where
  "system_table_at m a = \<lparr>Hdr = header_at m a, FirmwareVendor = load64 m (a + 24), FirmwareRevision = load32 m (a + 32),
     ConsoleInHandle = load64 m (a + 40), ConIn = load64 m (a + 48), ConsoleOutHandle = load64 m (a + 56),
     ConOut = load64 m (a + 64), StandardErrorHandle = load64 m (a + 72), StdErr = load64 m (a + 80)\<rparr>"

text \<open>The function at \<open>fw_fun\<close> is called with two arguments.\<close>

record fw_call =
  fw_fun :: u64
  fw_arg1 :: u64
  fw_arg2 :: u64

definition efi_puts :: "memory \<Rightarrow> u64 \<Rightarrow> u64 \<Rightarrow> fw_call" where
  "efi_puts m st s =
     (let con = ConOut (system_table_at m st)
      in \<lparr>fw_fun = OutputString (text_output_at m con), fw_arg1 = con, fw_arg2 = s\<rparr>)"

partial_function (option) ascii_to_utf16 :: "memory \<Rightarrow> u64 \<Rightarrow> u64 \<Rightarrow> memory option" where
  "ascii_to_utf16 m ascii out =
     (if m ascii \<noteq> 0 then ascii_to_utf16 (store16 m out (ucast (m ascii))) (ascii + 1) (out + 2)
      else Some (store16 m out 0))"

text \<open>\<open>lit\<close> is the address of the string literal, \<open>msg\<close> that of the static array. The result is the memory at the
  call, the call and the status returned.\<close>

definition efi_main :: "memory \<Rightarrow> u64 \<Rightarrow> u64 \<Rightarrow> u64 \<Rightarrow> u64 \<Rightarrow> (memory \<times> fw_call \<times> u64) option" where
  "efi_main m lit msg image_handle st =
     map_option (\<lambda>m1. (m1, efi_puts m1 st msg, 0)) (ascii_to_utf16 m lit msg)"

definition greeting :: string where
  "greeting = ''Hello, world from UEFI!'' @ [CHR 0x0D, CHR 0x0A]"

section \<open>Strings of 16-bit units\<close>

fun put_units :: "memory \<Rightarrow> u64 \<Rightarrow> u16 list \<Rightarrow> memory" where
  "put_units m a [] = m"
| "put_units m a (u # us) = put_units (store16 m a u) (a + 2) us"

lemma store16_outside: "x \<notin> bytes_at a 2 \<Longrightarrow> store16 m a u x = m x"
  unfolding store16_def by (subst store_le_apply) (auto simp: bytes_at_def)

lemma put_units_outside: "x \<notin> bytes_at a (2 * length us) \<Longrightarrow> 2 * length us \<le> 2 ^ 64 \<Longrightarrow> put_units m a us x = m x"
proof (induction us arbitrary: m a)
  case (Cons u us)
  have s: "bytes_at (a + 2) (2 * length us) \<subseteq> bytes_at a (2 * length (u # us))" "bytes_at a 2 \<subseteq> bytes_at a (2 * length (u # us))"
    using bytes_at_part [of 2 "2 * length us" "2 * length (u # us)" a] Cons.prems(2) by (auto simp: bytes_at_def)
  have "x \<notin> bytes_at (a + 2) (2 * length us)" "x \<notin> bytes_at a 2" using s Cons.prems(1) by blast+
  then show ?case using Cons.IH [of "a + 2" "store16 m a u"] Cons.prems(2) store16_outside [of x a m u] by simp
qed simp

lemma put_units_load: "i < length us \<Longrightarrow> 2 * length us \<le> 2 ^ 64 \<Longrightarrow> load16 (put_units m a us) (a + of_nat (2 * i)) = us ! i"
proof (induction us arbitrary: m a i)
  case (Cons u us)
  show ?case
  proof (cases i)
    case 0
    have "load_le 2 (put_units (store16 m a u) (a + 2) us) a = (load_le 2 (store16 m a u) a :: u16)"
    proof (rule load_le_cong)
      fix k :: nat assume k: "k < 2"
      have "unat (of_nat k - 2 :: u64) = 2 ^ 64 - 2 + k" using k by (cases k) (auto simp: unsigned_minus_1_eq_mask mask_eq_exp_minus_1)
      then have "a + of_nat k \<notin> bytes_at (a + 2) (2 * length us)" using Cons.prems(2) by (auto simp: bytes_at_def)
      then show "put_units (store16 m a u) (a + 2) us (a + of_nat k) = store16 m a u (a + of_nat k)"
        using Cons.prems(2) by (intro put_units_outside) auto
    qed
    then show ?thesis using 0 by (simp add: load16_def store16_def load_store_same)
  next
    case (Suc j)
    then have "load16 (put_units (store16 m a u) (a + 2) us) (a + 2 + of_nat (2 * j)) = us ! j" using Cons.prems by (intro Cons.IH) auto
    then show ?thesis using Suc by (simp add: algebra_simps)
  qed
qed simp

lemma string_at_same: "string_at m a s \<Longrightarrow> \<forall>x \<in> bytes_at a (length s + 1). m' x = m x \<Longrightarrow> length s + 1 \<le> 2 ^ 64 \<Longrightarrow> string_at m' a s"
proof (induction s arbitrary: a)
  case Nil
  then show ?case by (auto simp: bytes_at_def)
next
  case (Cons x xs)
  have "bytes_at (a + 1) (length xs + 1) \<subseteq> bytes_at a (length (x # xs) + 1)"
    using Cons.prems(3) by (intro bytes_at_part) simp_all
  moreover have "a \<in> bytes_at a (length (x # xs) + 1)" by (simp add: bytes_at_def)
  ultimately show ?case using Cons by auto
qed

lemma ascii_to_utf16_units:
  "string_at m a s \<Longrightarrow> bytes_at a (length s + 1) \<inter> bytes_at b (2 * length s + 2) = {} \<Longrightarrow> 2 * length s + 2 \<le> 2 ^ 64 \<Longrightarrow>
    ascii_to_utf16 m a b = Some (put_units m b (map ucast s @ [0]))"
proof (induction s arbitrary: m a b)
  case Nil
  then show ?case by (subst ascii_to_utf16.simps) simp
next
  case (Cons x xs)
  have s1: "bytes_at (a + 1) (length xs + 1) \<subseteq> bytes_at a (length (x # xs) + 1)" "bytes_at (b + 2) (2 * length xs + 2) \<subseteq> bytes_at b (2 * length (x # xs) + 2)"
    using Cons.prems(3) by (intro bytes_at_part; simp)+
  have s2: "bytes_at b 2 \<subseteq> bytes_at b (2 * length (x # xs) + 2)" by (auto simp: bytes_at_def)
  have "string_at (store16 m b (ucast x)) (a + 1) xs"
  proof (rule string_at_same)
    show "string_at m (a + 1) xs" "length xs + 1 \<le> 2 ^ 64" using Cons.prems(1,3) by simp_all
    show "\<forall>y \<in> bytes_at (a + 1) (length xs + 1). store16 m b (ucast x) y = m y"
    proof
      fix y assume "y \<in> bytes_at (a + 1) (length xs + 1)"
      then have "y \<notin> bytes_at b 2" using s1(1) s2 Cons.prems(2) by blast
      then show "store16 m b (ucast x) y = m y" by (rule store16_outside)
    qed
  qed
  then have "ascii_to_utf16 (store16 m b (ucast x)) (a + 1) (b + 2) = Some (put_units (store16 m b (ucast x)) (b + 2) (map ucast xs @ [0]))"
  proof (rule Cons.IH)
    show "bytes_at (a + 1) (length xs + 1) \<inter> bytes_at (b + 2) (2 * length xs + 2) = {}" using Cons.prems(2) s1 by blast
    show "2 * length xs + 2 \<le> 2 ^ 64" using Cons.prems(3) by simp
  qed
  then show ?case using Cons.prems(1) by (subst ascii_to_utf16.simps) auto
qed

text \<open>
  The program prints its greeting: given the literal at \<open>lit\<close> and a static array \<open>msg\<close> of 64 units apart from
  it and from the firmware's tables, it calls the console's \<open>OutputString\<close> with the console and \<open>msg\<close>, where the
  greeting stands as 16-bit units with a zero behind it, has changed no memory outside the array and
  returns success.
\<close>

theorem efi_main_greets:
  assumes lit: "string_at m lit (map of_char greeting)" and dj: "bytes_at lit 26 \<inter> bytes_at msg 128 = {}"
    and tab: "bytes_at st 88 \<inter> bytes_at msg 128 = {}" "bytes_at (ConOut (system_table_at m st)) 16 \<inter> bytes_at msg 128 = {}"
  shows "\<exists>m'. efi_main m lit msg h st = Some (m', efi_puts m st msg, 0) \<and>
    map (\<lambda>i. load16 m' (msg + of_nat (2 * i))) [0..<26] = map of_char greeting @ [0] \<and>
    (\<forall>x. x \<notin> bytes_at msg 128 \<longrightarrow> m' x = m x)"
proof -
  let ?s = "map of_char greeting :: u8 list" and ?us = "map of_char greeting @ [0] :: u16 list"
  have len: "length greeting = 25" by (simp add: greeting_def)
  have us: "map ucast ?s @ [0] = ?us" by (simp add: greeting_def)
  define m' where "m' = put_units m msg ?us"
  have sub: "bytes_at msg 52 \<subseteq> bytes_at msg 128" by (auto simp: bytes_at_def)
  have p: "bytes_at lit (length ?s + 1) \<inter> bytes_at msg (2 * length ?s + 2) = {}" "2 * length ?s + 2 \<le> 2 ^ 64" using dj sub len by auto
  have a: "ascii_to_utf16 m lit msg = Some m'" using ascii_to_utf16_units [OF lit p] unfolding us m'_def .
  have out: "m' x = m x" if "x \<notin> bytes_at msg 128" for x
    unfolding m'_def using that sub len by (intro put_units_outside) auto
  have ld: "load64 m' (x + k) = load64 m (x + k)" if "bytes_at x N \<inter> bytes_at msg 128 = {}" "unat k + 8 \<le> N" "N < 2 ^ 64" for x k N
    unfolding load64_def
  proof (rule load_le_cong)
    fix i :: nat assume i: "i < 8"
    have "x + k + of_nat i \<in> bytes_at (x + k) 8" using i by (intro bytes_at_offset) simp_all
    then show "m' (x + k + of_nat i) = m (x + k + of_nat i)" using bytes_at_part [OF that(2), of x] that(1,3) by (intro out) auto
  qed
  have con: "ConOut (system_table_at m' st) = ConOut (system_table_at m st)" using ld [OF tab(1), of 64] by (simp add: system_table_at_def)
  have "efi_puts m' st msg = efi_puts m st msg"
    unfolding efi_puts_def Let_def con using ld [OF tab(2), of 8] by (simp add: text_output_at_def)
  moreover have "map (\<lambda>i. load16 m' (msg + of_nat (2 * i))) [0..<26] = ?us"
    unfolding m'_def using len by (intro nth_equalityI) (simp_all add: put_units_load del: of_nat_mult)
  ultimately show ?thesis using a out by (simp add: efi_main_def)
qed

end
