(* ===== verification/Spec2Isabelle.thy ===== *)
theory Spec2Isabelle
  imports Pmm_Init Kmalloc Vmm_Correct Sched Block_Scan Devfs_Correct Input_Correct Console_Progress
    Exfat_Unlink Lib_Mem Memtest Shell_Correct Boot_Files Kmain32 Uefi
begin

text \<open>
  The dex-os-64 kernel. The program is a small x86-64 kernel that is entered from a Multiboot2 loader,
  builds its memory management, devices and file systems, and runs an interactive shell. The paths below
  are relative to \<open>src/src\<close>.

  \<^bold>\<open>Parts and how they call each other.\<close>
  \<^item> \<open>kernel/mm/pmm.c\<close> keeps a bitmap of 4 KiB frames, filled from the memory maps that \<open>kernel64/mb2.h\<close> reads.
  \<^item> \<open>kernel/mm/vmm.c\<close> builds four-level page tables out of frames; \<open>kernel/mm/kmalloc.c\<close> is a first-fit heap.
  \<^item> \<open>kernel64/sched/sched.c\<close> switches cooperatively between at most eight threads.
  \<^item> \<open>kernel64/block\<close> registers block devices (memory disks, RAM disks on frames, partitions of other devices).
  \<^item> \<open>kernel64/vfs/vfs.c\<close> mounts file systems and routes paths to them: \<open>fs/devfs.c\<close> (devices as files),
    \<open>fs/exfat.c\<close> (an exFAT-like file system), \<open>fs/rootfs.c\<close> (two fixed names).
  \<^item> \<open>kernel64/console.c\<close> is the text screen, \<open>serial.c\<close> the serial line, \<open>input.c\<close> the keyboard and line editor.
  \<^item> \<open>kernel64/shell.c\<close> calls all of these; \<open>kernel64/kmain64.c\<close> starts them in order.

  \<^bold>\<open>Modelling.\<close> Machine integers are words of their width, so every wrap-around is in the model. Memory is a
  function from 64-bit addresses to bytes (\<open>Phys_Mem\<close>), shared by all components that follow pointers. State of a
  component is a record with the names of its static variables; an operation takes the state and returns the new one.
  \<open>None\<close> is undefined behaviour or a loop that does not end: loops that need not end are
  \<open>partial_function (option)\<close>, and the theorems about them say that they return. Return codes are the integers of
  the code. Ports, the \<open>cpuid\<close> instruction, linker symbols and the addresses of locals whose address is taken are
  arguments. Output above the console is a list of console calls (\<open>Con_Calls\<close>), which \<open>run_calls\<close> executes.

  \<^bold>\<open>Theories.\<close>
  \<^item> \<open>Dex_Prelude\<close>, \<open>Phys_Mem\<close>: word arithmetic, strings, little-endian loads and stores.
  \<^item> \<open>Pmm\<close>, \<open>Pmm_Correct\<close>, \<open>Mb2\<close>, \<open>Pmm_Init\<close>: \<open>pmm.c\<close> and \<open>mb2.h\<close>. The bitmap refines a set of used frames; allocation is
    first fit over it, freeing undoes it, no frame is handed out twice in any run, and initialisation offers exactly
    the usable memory above 1 MiB. The locale \<open>frame_allocator\<close> is what the page tables rely on.
  \<^item> \<open>Kmalloc\<close>: \<open>kmalloc.c\<close>. The header list refines a list of blocks; first fit with splitting, coalescing, disjoint
    live blocks in any run. The locale \<open>block_heap\<close> is what the buffers of the file systems rely on.
  \<^item> \<open>Vmm\<close>, \<open>Vmm_Correct\<close>: \<open>vmm.c\<close>. Mapping and unmapping change the translation of one page and write only page tables;
    the initial tables map 4 GiB identically, given 2054 free frames.
  \<^item> \<open>Sched\<close>: \<open>sched.c\<close>. The linked run queue refines a list; thread states agree with it in any run; yielding is
    round robin and resumes a thread where it left, whatever other threads did meanwhile. The exit of the last thread, which halts,
    is no step of the runs. The locale \<open>run_queue\<close> is the contract of the queue.
  \<^item> \<open>Block\<close>, \<open>Block_Correct\<close>, \<open>Block_Scan\<close>: \<open>block.c\<close>, \<open>memdisk.c\<close>, \<open>ramdisk.c\<close>. The locale \<open>sector_device\<close> is the contract of a
    block device, interpreted by the three drivers; partitions are confined; creating a RAM disk succeeds exactly
    when there is memory, and it and the partition scan give what they promise.
  \<^item> \<open>Heap_Buffers\<close>, \<open>Sector_Runs\<close>, \<open>Vfs\<close>, \<open>Vfs_Correct\<close>, \<open>Fs_Types\<close>, \<open>Devfs\<close>, \<open>Devfs_Correct\<close>: \<open>vfs.c\<close>, \<open>devfs.c\<close>, \<open>rootfs.c\<close>. A device file
    is read and written as its bytes (the locale \<open>sector_transfer\<close> covers both directions); mounting routes the path operations (the
    locale \<open>mount_table\<close>).
  \<^item> \<open>Exfat\<close>, \<open>Exfat_Correct\<close>, \<open>Exfat_Write\<close>, \<open>Exfat_Files\<close>, \<open>Exfat_Dir\<close>, \<open>Exfat_Alloc\<close>, \<open>Exfat_Create\<close>, \<open>Exfat_Resize\<close>, \<open>Exfat_Grow\<close>, \<open>Exfat_Unlink\<close>:
    \<open>exfat.c\<close>. On a well-formed volume reading and writing an open file is reading and writing the bytes of its cluster chain; a
    write past the end takes free clusters filled with zeros and puts the new size into the file's directory entry; other files,
    the other entries and the rest of the FAT are kept. Creating a file
    appends its entry and takes the first free cluster, opening finds it, removing it frees its clusters; a removal ends the
    directory at the removed entry.
  \<^item> \<open>Input\<close>, \<open>Input_Correct\<close>: \<open>input.c\<close>. Scancodes decode to key events; the line editor implements editing a line.
  \<^item> \<open>Console\<close>, \<open>Console_Correct\<close>, \<open>Console_Progress\<close>, \<open>Con_Calls\<close>: \<open>console.c\<close>, \<open>console.h\<close>. The cell buffer and the scrollback
    implement a terminal; what is on the screen; what paging shows; the progress bar stays in its row.
  \<^item> \<open>Lib_Mem\<close>: \<open>lib/mem.c\<close>; \<open>memmove\<close> is a copy through a buffer.
  \<^item> \<open>Memtest\<close>: \<open>memtest.c\<close>; the verdict on good memory and on memory with a stuck bit.
  \<^item> \<open>Pci\<close>: \<open>pci/pci.c\<close>, \<open>usb/usb.c\<close>; the enumeration finds what is present on buses 0 to 254.
  \<^item> \<open>Shell_Path\<close>, \<open>Shell\<close>, \<open>Shell_Correct\<close>: \<open>shell.c\<close>, every command. Paths are normalised (to 16 levels), \<open>cat\<close> prints the file and a newline, the current
    directory fits its buffers in any run.
  \<^item> \<open>Devices\<close>: \<open>serial.c\<close>, \<open>dev/\<close>, \<open>cpuid.h\<close>. \<open>Kmain32\<close>: the serial output of \<open>kernel/kmain.c\<close>.
  \<^item> \<open>Uefi\<close>: \<open>uefi/efi_main.c\<close>, \<open>uefi/efi_utils.h\<close>; the greeting reaches the firmware's console as UTF-16.
  \<^item> \<open>Boot\<close>, \<open>Boot_Correct\<close>, \<open>Boot_Modules\<close>, \<open>Boot_Files\<close>: \<open>kmain64.c\<close>. What is still needed survives the set-up of memory; the
    kernel mounts as root the volume of the module meant for it, or else a fresh RAM disk.

  \<^bold>\<open>Bounds and fuel.\<close> The only fuel is the number of rounds of \<open>shell_main\<close>, whose loop never ends; its theorem is about every
  number of rounds. Polling loops take the list of answers of the port instead. Hypotheses such as
  \<open>unat a + unat n + 4095 < 2^64\<close> exclude ranges that wrap around the address space; where the code itself is wrong for
  values that occur, the theorem says what it does (the printed screen after a newline on the bottom row, paging
  back by more than a screen, a path longer than the work area of \<open>resolve_path\<close> or deeper than 16 levels).

  \<^bold>\<open>Simplifications.\<close> Heap block headers are a map from addresses to headers and not bytes of the memory; the saved contexts
  of threads are in the scheduler's own copy of the memory; messages that \<open>vfs_mount\<close> and \<open>exfat.c\<close> print while they
  run are left out. Accesses above 4 GiB after paging is on, which would fault, are not excluded by the model.

  \<^bold>\<open>Not modelled.\<close> The assembly (\<open>loader32\<close>, \<open>start64.S\<close>, \<open>multiboot2.S\<close>, the instruction wrappers of \<open>io.h\<close>); \<open>kmain\<close> of \<open>kernel/kmain.c\<close> and the 32-bit builds of the
  allocators it calls, whose pointers and headers have another size; the demo threads of \<open>kmain64.c\<close>, which nothing
  starts.

  \<^bold>\<open>Open.\<close> Writing to a file that has no cluster yet, which \<open>exfat_create\<close> never makes; the whole of \<open>kmain64\<close> as one theorem.
\<close>

end
